(* ===== verification/NtfsPrelude.thy ===== *)
theory NtfsPrelude
  imports Main "HOL-Library.Word"
begin

text \<open>
  What the components share: bytes and byte buffers, the error values of the C library, the
  little-endian fields of the on-disk structures, the wrap-around of machine integers, checked memory accesses, and
  the list lemmas on buffer chunks and block copies.
\<close>

unbundle bit_operations_syntax

named_theorems buf_simps \<open>length and element access of buffer updates\<close>

section \<open>Types\<close>

type_synonym u8 = "8 word"
type_synonym bytes = "u8 list"

text \<open>
  The \<open>errno\<close> values the code sets, and \<open>FAULT\<close> for an access outside the object the pointer
  points into (undefined behaviour in C), so that no model reads an unspecified list element.
\<close>

datatype errno = EINVAL | EIO | ENOMEM | ENOSPC | ERANGE | EOPNOTSUPP | EILSEQ | ENAMETOOLONG
  | EOVERFLOW | ENOENT | EINTR | EBADF | ENODEV | EROFS | EBUSY | EINVALPART | ESPIPE | FAULT

section \<open>Buffer slices and block copies\<close>

text \<open>\<open>chunk i n xs\<close> is the \<open>n\<close> elements from index \<open>i\<close>, \<open>blit xs i ys\<close> the buffer after
  \<open>memcpy(xs + i, ys, length ys)\<close>.\<close>

definition chunk :: "nat \<Rightarrow> nat \<Rightarrow> 'a list \<Rightarrow> 'a list" where
  "chunk i n xs = take n (drop i xs)"

definition blit :: "'a list \<Rightarrow> nat \<Rightarrow> 'a list \<Rightarrow> 'a list" where
  "blit xs i ys = take i xs @ ys @ drop (i + length ys) xs"

lemma length_chunk [simp, buf_simps]: "length (chunk i n xs) = min n (length xs - i)"
  by (simp add: chunk_def)

lemma chunk_0 [simp]: "chunk i 0 xs = []"
  by (simp add: chunk_def)

lemma nth_chunk [buf_simps]: "k < n \<Longrightarrow> i + k < length xs \<Longrightarrow> chunk i n xs ! k = xs ! (i + k)"
  by (simp add: chunk_def)

lemma chunk_append: "chunk i n xs @ chunk (i + n) m xs = chunk i (n + m) xs"
  by (simp add: chunk_def take_add add.commute [of n i])

lemma chunk_chunk: "j + m \<le> n \<Longrightarrow> chunk j m (chunk i n xs) = chunk (i + j) m xs"
  by (simp add: chunk_def drop_take min_def add.commute)

lemma chunk_map: "chunk i n (map f xs) = map f (chunk i n xs)"
  by (simp add: chunk_def drop_map take_map)

lemma chunk_full: "length xs = n \<Longrightarrow> chunk 0 n xs = xs"
  by (simp add: chunk_def)

lemma chunk_replicate: "chunk i n (replicate k x) = replicate (min n (k - i)) x"
  by (simp add: chunk_def)

lemma chunk_append1: "i + n \<le> length xs \<Longrightarrow> chunk i n (xs @ ys) = chunk i n xs"
  by (simp add: chunk_def)

lemma chunk_append2: "length xs \<le> i \<Longrightarrow> chunk i n (xs @ ys) = chunk (i - length xs) n ys"
  by (simp add: chunk_def)

lemma chunk_eqI:
  assumes "i + n \<le> length xs" "j + n \<le> length ys"
    and "\<And>k. k < n \<Longrightarrow> xs ! (i + k) = ys ! (j + k)"
  shows "chunk i n xs = chunk j n ys"
  using assms by (intro nth_equalityI) (auto simp: nth_chunk)

lemma length_blit [simp, buf_simps]: "i + length ys \<le> length xs \<Longrightarrow> length (blit xs i ys) = length xs"
  by (simp add: blit_def)

lemma nth_blit [buf_simps]:
  "i + length ys \<le> length xs \<Longrightarrow> k < length xs \<Longrightarrow>
   blit xs i ys ! k = (if i \<le> k \<and> k < i + length ys then ys ! (k - i) else xs ! k)"
  by (auto simp: blit_def nth_append min_def)

lemma blit_Nil [simp]: "blit xs i [] = xs"
  by (simp add: blit_def)

lemma blit_append:
  assumes "i + length xs + length ys \<le> length b"
  shows "blit (blit b i xs) (i + length xs) ys = blit b i (xs @ ys)"
  using assms by (intro nth_equalityI) (auto simp: nth_blit nth_append)

lemma chunk_blit_same: "i + length ys \<le> length xs \<Longrightarrow> chunk i (length ys) (blit xs i ys) = ys"
  by (simp add: chunk_def blit_def)

lemma chunk_blit_other:
  assumes "i + length ys \<le> length xs" "j + n \<le> length xs" "j + n \<le> i \<or> i + length ys \<le> j"
  shows "chunk j n (blit xs i ys) = chunk j n xs"
  using assms by (intro chunk_eqI) (auto simp: nth_blit)

section \<open>Signed 64-bit arithmetic\<close>

text \<open>\<open>s64 x\<close> is the value of \<open>x\<close> after it is stored in a two's complement 64-bit integer.\<close>

definition s64 :: "int \<Rightarrow> int" where
  "s64 x = (x + 2 ^ 63) mod 2 ^ 64 - 2 ^ 63"

definition in_s64 :: "int \<Rightarrow> bool" where
  "in_s64 x \<longleftrightarrow> - (2 ^ 63) \<le> x \<and> x < 2 ^ 63"

lemma s64_id [simp]: "in_s64 x \<Longrightarrow> s64 x = x"
  by (simp add: s64_def in_s64_def)

lemma in_s64_s64 [simp]: "in_s64 (s64 x)"
proof -
  have "0 \<le> (x + 2 ^ 63) mod 2 ^ 64 \<and> (x + 2 ^ 63) mod 2 ^ 64 < (2 :: int) ^ 64"
    by (intro conjI pos_mod_sign pos_mod_bound) simp_all
  then show ?thesis
    unfolding in_s64_def s64_def by auto
qed

lemma s64_mod: "s64 x mod 2 ^ 64 = x mod 2 ^ 64"
proof -
  have "s64 x mod 2 ^ 64 = ((x + 2 ^ 63) - 2 ^ 63) mod 2 ^ 64"
    unfolding s64_def by (rule mod_diff_left_eq)
  then show ?thesis by simp
qed

section \<open>Machine integers and memory\<close>

text \<open>Sums and products stored into an unsigned 32 or 64-bit integer, and accesses to a buffer, which
  are \<open>None\<close> outside it.\<close>

definition u32 :: "nat \<Rightarrow> nat" where
  "u32 x = x mod 2 ^ 32"

definition u64 :: "nat \<Rightarrow> nat" where
  "u64 x = x mod 2 ^ 64"

definition mem_get :: "bytes \<Rightarrow> nat \<Rightarrow> nat \<Rightarrow> bytes option" where
  "mem_get b i n = (if i + n \<le> length b then Some (chunk i n b) else None)"

definition mem_put :: "bytes \<Rightarrow> nat \<Rightarrow> bytes \<Rightarrow> bytes option" where
  "mem_put b i xs = (if i + length xs \<le> length b then Some (blit b i xs) else None)"

text \<open>The same for one element of an array.\<close>

definition elem :: "'a list \<Rightarrow> nat \<Rightarrow> 'a option" where
  "elem xs i = (if i < length xs then Some (xs ! i) else None)"

lemma elem_Some [simp]: "i < length xs \<Longrightarrow> elem xs i = Some (xs ! i)"
  by (simp add: elem_def)

lemma mem_get_SomeI: "i + n \<le> length b \<Longrightarrow> mem_get b i n = Some (chunk i n b)"
  by (simp add: mem_get_def)

lemma mem_put_SomeI: "i + length xs \<le> length b \<Longrightarrow> mem_put b i xs = Some (blit b i xs)"
  by (simp add: mem_put_def)

lemma u32_id [simp]: "x < 2 ^ 32 \<Longrightarrow> u32 x = x"
  by (simp add: u32_def)

lemma u64_id [simp]: "x < 2 ^ 64 \<Longrightarrow> u64 x = x"
  by (simp add: u64_def)

lemma u32_le: "u32 x \<le> x"
  by (simp add: u32_def)

lemma u64_le: "u64 x \<le> x"
  by (simp add: u64_def)

text \<open>A value stored into an \<open>int\<close>, and an \<open>int\<close> or a difference converted to \<open>uint32_t\<close>.\<close>

definition s32 :: "int \<Rightarrow> int" where
  "s32 x = (x + 2 ^ 31) mod 2 ^ 32 - 2 ^ 31"

definition u32i :: "int \<Rightarrow> nat" where
  "u32i x = nat (x mod 2 ^ 32)"

lemma s32_id: "- (2 ^ 31) \<le> x \<Longrightarrow> x < 2 ^ 31 \<Longrightarrow> s32 x = x"
  by (simp add: s32_def)

lemma u32i_id: "0 \<le> x \<Longrightarrow> x < 2 ^ 32 \<Longrightarrow> u32i x = nat x"
  by (simp add: u32i_def)

section \<open>Little-endian fields\<close>

text \<open>The value of a little-endian byte string, and the 16, 32 and 64-bit fields of a buffer as
  \<open>le16_to_cpu\<close>, \<open>le32_to_cpu\<close> and \<open>le64_to_cpu\<close> of the field at an offset.\<close>

fun le_val :: "bytes \<Rightarrow> nat" where
  "le_val [] = 0"
| "le_val (b # bs) = unat b + 256 * le_val bs"

definition get16 :: "bytes \<Rightarrow> nat \<Rightarrow> nat" where
  "get16 b i = le_val (chunk i 2 b)"

definition get32 :: "bytes \<Rightarrow> nat \<Rightarrow> nat" where
  "get32 b i = le_val (chunk i 4 b)"

definition get64 :: "bytes \<Rightarrow> nat \<Rightarrow> nat" where
  "get64 b i = le_val (chunk i 8 b)"

text \<open>\<open>le_bytes n v\<close> is the \<open>n\<close> low bytes of \<open>v\<close>, least significant first.\<close>

fun le_bytes :: "nat \<Rightarrow> nat \<Rightarrow> bytes" where
  "le_bytes 0 v = []"
| "le_bytes (Suc n) v = word_of_nat v # le_bytes n (v div 256)"

lemma length_le_bytes [simp]: "length (le_bytes n v) = n"
  by (induction n arbitrary: v) auto

lemma unat_u8_lt [simp]: "unat (b :: u8) < 256"
  using unsigned_less [of b, where 'a = nat] by simp

lemma le_val_bound: "le_val bs < 256 ^ length bs"
proof (induction bs)
  case Nil
  then show ?case by simp
next
  case (Cons b bs)
  have step: "x < 256 \<Longrightarrow> v < p \<Longrightarrow> x + 256 * v < 256 * p" for x v p :: nat
    by arith
  show ?case
    using step [OF unat_u8_lt Cons] by simp
qed

lemma le_val_le_bytes: "le_val (le_bytes n v) = v mod 256 ^ n"
proof (induction n arbitrary: v)
  case 0
  then show ?case by simp
next
  case (Suc n)
  have "unat (word_of_nat v :: u8) = v mod 256"
    by (simp add: unat_of_nat)
  then show ?case
    using Suc by (simp add: mod_mult2_eq)
qed

lemma le_bytes_le_val: "length bs = n \<Longrightarrow> le_bytes n (le_val bs) = bs"
proof (induction bs arbitrary: n)
  case Nil
  then show ?case by simp
next
  case (Cons b bs)
  have lt: "unat b < 256" by simp
  then have "(unat b + 256 * le_val bs) div 256 = le_val bs"
    by simp
  moreover have "(word_of_nat (unat b + 256 * le_val bs) :: u8) = b"
    by (simp only: word_unat_eq_iff unat_of_nat) (use lt in simp)
  ultimately show ?case
    using Cons by auto
qed

lemma get16_lt: "get16 b i < 65536"
proof -
  have "get16 b i < 256 ^ length (chunk i 2 b)"
    unfolding get16_def by (rule le_val_bound)
  also have "\<dots> \<le> 256 ^ 2"
    by (rule power_increasing) simp_all
  finally show ?thesis by simp
qed

text \<open>\<open>le16_to_cpup\<close>, \<open>le32_to_cpup\<close>, \<open>le64_to_cpup\<close>: the field a pointer points to.\<close>

definition fetch16 :: "bytes \<Rightarrow> nat \<Rightarrow> nat option" where
  "fetch16 b i = map_option le_val (mem_get b i 2)"

definition fetch32 :: "bytes \<Rightarrow> nat \<Rightarrow> nat option" where
  "fetch32 b i = map_option le_val (mem_get b i 4)"

definition fetch64 :: "bytes \<Rightarrow> nat \<Rightarrow> nat option" where
  "fetch64 b i = map_option le_val (mem_get b i 8)"

lemma fetch16_get16: "i + 2 \<le> length b \<Longrightarrow> fetch16 b i = Some (get16 b i)"
  by (simp add: fetch16_def mem_get_def get16_def)

lemma fetch32_get32: "i + 4 \<le> length b \<Longrightarrow> fetch32 b i = Some (get32 b i)"
  by (simp add: fetch32_def mem_get_def get32_def)

lemma fetch64_get64: "i + 8 \<le> length b \<Longrightarrow> fetch64 b i = Some (get64 b i)"
  by (simp add: fetch64_def mem_get_def get64_def)

section \<open>What a buffer holds\<close>

text \<open>\<open>lies_at src i xs\<close>: the source holds \<open>xs\<close> from index \<open>i\<close>.\<close>

definition lies_at :: "bytes \<Rightarrow> nat \<Rightarrow> bytes \<Rightarrow> bool" where
  "lies_at src i xs \<longleftrightarrow> i + length xs \<le> length src \<and> chunk i (length xs) src = xs"

lemma lies_at_Nil [simp]: "lies_at src i [] \<longleftrightarrow> i \<le> length src"
  by (simp add: lies_at_def)

lemma lies_at_append [simp]: "lies_at src i (xs @ ys) \<longleftrightarrow> lies_at src i xs \<and> lies_at src (i + length xs) ys"
proof -
  have "chunk i (length xs + length ys) src = chunk i (length xs) src @ chunk (i + length xs) (length ys) src"
    by (simp add: chunk_append)
  then show ?thesis
    by (auto simp: lies_at_def add.assoc append_eq_append_conv)
qed

lemma lies_at_Cons [simp]: "lies_at src i (x # y # ys) \<longleftrightarrow> lies_at src i [x] \<and> lies_at src (i + 1) (y # ys)"
  using lies_at_append [of src i "[x]" "y # ys"] by simp

lemma mem_get_lies [simp]: "lies_at src i xs \<Longrightarrow> n = length xs \<Longrightarrow> mem_get src i n = Some xs"
  by (simp add: lies_at_def mem_get_def)

lemma lies_at_mono: "lies_at src i xs \<Longrightarrow> i + length xs \<le> length src"
  by (simp add: lies_at_def)

lemma fetch16_lies: "lies_at src cb (le_bytes 2 h @ xs) \<Longrightarrow> h < 256 ^ 2 \<Longrightarrow> fetch16 src cb = Some h"
proof -
  assume "lies_at src cb (le_bytes 2 h @ xs)" and h: "h < 256 ^ 2"
  then have "mem_get src cb 2 = Some (le_bytes 2 h)" by (intro mem_get_lies) (simp_all only: lies_at_append length_le_bytes)
  then show "fetch16 src cb = Some h" using h by (simp only: fetch16_def le_val_le_bytes option.map mod_less)
qed

lemma lies_at_blit: "x + length ys \<le> length out \<Longrightarrow> lies_at (blit out x ys) x ys"
  by (simp add: lies_at_def chunk_blit_same)

lemma lies_at_blit_other:
  assumes "lies_at out i xs" "x + length ys \<le> length out" "i + length xs \<le> x \<or> x + length ys \<le> i"
  shows "lies_at (blit out x ys) i xs"
  using assms by (auto simp: lies_at_def chunk_blit_other)

end
