(* ===== verification/Collate.thy ===== *)
theory Collate
  imports NtfsPrelude "HOL-Library.Monad_Syntax" "HOL-Library.List_Lexorder" "HOL-Library.Product_Lexorder"
begin

text \<open>
  The order of names and index keys, the first part of \<open>libntfs_ext/source/unistr.c\<close> and \<open>libntfs_ext/source/collate.c\<close>. A name is the
  list of its 16-bit characters after \<open>le16_to_cpu\<close>; \<open>None\<close> is an access outside a name or table.
\<close>

type_synonym ntfschar = "16 word"

section \<open>Names\<close>

text \<open>\<open>if (u < upcase_len) u = upcase[u]\<close>.\<close>

definition upchar :: "ntfschar list \<Rightarrow> nat \<Rightarrow> ntfschar \<Rightarrow> ntfschar option" where
  "upchar upcase upcase_len c = (if unat c < upcase_len then elem upcase (unat c) else Some c)"

fun ntfs_ucsncmp :: "ntfschar list \<Rightarrow> ntfschar list \<Rightarrow> nat \<Rightarrow> int option" where
  "ntfs_ucsncmp s1 s2 0 = Some 0"
| "ntfs_ucsncmp (c1 # s1) (c2 # s2) (Suc n) =
     (if c1 < c2 then Some (- 1) else if c1 > c2 then Some 1 else if c1 = 0 then Some 0 else ntfs_ucsncmp s1 s2 n)"
| "ntfs_ucsncmp _ _ (Suc n) = None"

fun ntfs_ucsncasecmp :: "ntfschar list \<Rightarrow> ntfschar list \<Rightarrow> nat \<Rightarrow> ntfschar list \<Rightarrow> nat \<Rightarrow> int option" where
  "ntfs_ucsncasecmp s1 s2 0 upcase upcase_size = Some 0"
| "ntfs_ucsncasecmp (a # s1) (b # s2) (Suc n) upcase upcase_size = do {
     c1 \<leftarrow> upchar upcase upcase_size a;
     c2 \<leftarrow> upchar upcase upcase_size b;
     if c1 < c2 then Some (- 1) else if c1 > c2 then Some 1 else if c1 = 0 then Some 0
     else ntfs_ucsncasecmp s1 s2 n upcase upcase_size }"
| "ntfs_ucsncasecmp _ _ (Suc n) upcase upcase_size = None"

text \<open>\<open>cs\<close>: \<open>ic\<close> is \<open>CASE_SENSITIVE\<close>.\<close>

definition ntfs_names_are_equal :: "ntfschar list \<Rightarrow> nat \<Rightarrow> ntfschar list \<Rightarrow> nat \<Rightarrow> bool \<Rightarrow> ntfschar list \<Rightarrow> nat \<Rightarrow> bool option" where
  "ntfs_names_are_equal s1 s1_len s2 s2_len cs upcase upcase_size =
     (if s1_len \<noteq> s2_len then Some False
      else if s1_len = 0 then Some True
      else map_option (\<lambda>r. r = 0) (if cs then ntfs_ucsncmp s1 s2 s1_len else ntfs_ucsncasecmp s1 s2 s1_len upcase upcase_size))"

text \<open>The two loops of \<open>ntfs_names_full_collate\<close>: over equal characters, and over characters that are equal in upper case. A name is
  what is left of it.\<close>

fun skip_equal :: "nat \<Rightarrow> ntfschar list \<Rightarrow> ntfschar list \<Rightarrow> (nat \<times> ntfschar list \<times> ntfschar list) option" where
  "skip_equal (Suc cnt) (a # s1) (b # s2) = (if cnt \<noteq> 0 \<and> a = b then skip_equal cnt s1 s2 else Some (cnt, a # s1, b # s2))"
| "skip_equal _ _ _ = None"

fun upcase_loop :: "(ntfschar \<Rightarrow> ntfschar option) \<Rightarrow> nat \<Rightarrow> ntfschar list \<Rightarrow> ntfschar list \<Rightarrow> (ntfschar \<times> ntfschar) option" where
  "upcase_loop up (Suc cnt) (a # s1) (b # s2) = do {
     u1 \<leftarrow> up a;
     u2 \<leftarrow> up b;
     if u1 = u2 \<and> cnt \<noteq> 0 then upcase_loop up cnt s1 s2 else Some (u1, u2) }"
| "upcase_loop _ _ _ _ = None"

definition collate_lengths :: "nat \<Rightarrow> nat \<Rightarrow> int \<Rightarrow> int" where
  "collate_lengths n1 n2 r = (if n1 < n2 then - 1 else if n1 > n2 then 1 else r)"

definition ntfs_names_full_collate :: "ntfschar list \<Rightarrow> nat \<Rightarrow> ntfschar list \<Rightarrow> nat \<Rightarrow> bool \<Rightarrow> ntfschar list \<Rightarrow> nat \<Rightarrow> int option" where
  "ntfs_names_full_collate name1 name1_len name2 name2_len cs upcase upcase_len =
     (let cnt = min name1_len name2_len; up = upchar upcase upcase_len in
      if cnt > 0 then
        if cs then do {
          (cnt, s1, s2) \<leftarrow> skip_equal cnt name1 name2;
          c1 \<leftarrow> elem s1 0; c2 \<leftarrow> elem s2 0; u1 \<leftarrow> up c1; u2 \<leftarrow> up c2;
          (u1, u2) \<leftarrow> (if u1 = u2 \<and> cnt \<noteq> 0 then upcase_loop up cnt (tl s1) (tl s2) else Some (u1, u2));
          Some (if u1 < u2 then - 1 else if u1 > u2 then 1
                else collate_lengths name1_len name2_len (if c1 < c2 then - 1 else if c1 > c2 then 1 else 0)) }
        else do {
          (u1, u2) \<leftarrow> upcase_loop up cnt name1 name2;
          Some (if u1 < u2 then - 1 else if u1 > u2 then 1 else collate_lengths name1_len name2_len 0) }
      else Some (collate_lengths name1_len name2_len 0))"

text \<open>\<open>room\<close>: the memory for the copy could be allocated.\<close>

fun ntfs_ucsnlen :: "ntfschar list \<Rightarrow> nat \<Rightarrow> nat option" where
  "ntfs_ucsnlen s 0 = Some 0"
| "ntfs_ucsnlen (c # s) (Suc maxlen) = (if c = 0 then Some 0 else map_option Suc (ntfs_ucsnlen s maxlen))"
| "ntfs_ucsnlen [] (Suc maxlen) = None"

definition ntfs_ucsndup :: "bool \<Rightarrow> ntfschar list \<Rightarrow> nat \<Rightarrow> ntfschar list option option" where
  "ntfs_ucsndup room s maxlen = map_option (\<lambda>len. if room then Some (take len s @ [0]) else None) (ntfs_ucsnlen s maxlen)"

fun ntfs_name_upcase :: "ntfschar list \<Rightarrow> nat \<Rightarrow> ntfschar list \<Rightarrow> nat \<Rightarrow> ntfschar list option" where
  "ntfs_name_upcase name 0 upcase upcase_len = Some name"
| "ntfs_name_upcase (c # name) (Suc n) upcase upcase_len = do {
     u \<leftarrow> upchar upcase upcase_len c;
     name \<leftarrow> ntfs_name_upcase name n upcase upcase_len;
     Some (u # name) }"
| "ntfs_name_upcase [] (Suc n) upcase upcase_len = None"

definition ntfs_name_locase :: "ntfschar list \<Rightarrow> nat \<Rightarrow> ntfschar list option \<Rightarrow> nat \<Rightarrow> ntfschar list option" where
  "ntfs_name_locase name n locase locase_len =
     (case locase of None \<Rightarrow> Some name | Some table \<Rightarrow> ntfs_name_upcase name n table locase_len)"

text \<open>The second loop of \<open>ntfs_locase_table_build\<close>, from entry \<open>i\<close>, and the function; \<open>room\<close> as above.\<close>

fun locase_loop :: "nat \<Rightarrow> ntfschar list \<Rightarrow> nat \<Rightarrow> nat \<Rightarrow> ntfschar list \<Rightarrow> ntfschar list option" where
  "locase_loop 0 uc uc_cnt i lc = Some lc"
| "locase_loop (Suc n) uc uc_cnt i lc = do {
     upp \<leftarrow> elem uc i;
     locase_loop n uc uc_cnt (i + 1) (if unat upp \<noteq> i \<and> unat upp < uc_cnt then lc[unat upp := word_of_nat i] else lc) }"

definition ntfs_locase_table_build :: "bool \<Rightarrow> ntfschar list \<Rightarrow> nat \<Rightarrow> ntfschar list option option" where
  "ntfs_locase_table_build room uc uc_cnt =
     (if room then map_option Some (locase_loop uc_cnt uc uc_cnt 0 (map word_of_nat [0..<uc_cnt])) else Some None)"

section \<open>Index keys\<close>

definition NTFS_COLLATION_ERROR :: int where
  "NTFS_COLLATION_ERROR = - 2"

text \<open>\<open>mc\<close> is \<open>memcmp\<close> on arrays of the same length, of which C fixes only the sign of the result.\<close>

definition ntfs_collate_binary :: "(bytes \<Rightarrow> bytes \<Rightarrow> int) \<Rightarrow> bytes \<Rightarrow> nat \<Rightarrow> bytes \<Rightarrow> nat \<Rightarrow> int option" where
  "ntfs_collate_binary mc data1 n1 data2 n2 = do {
     a \<leftarrow> mem_get data1 0 (min n1 n2);
     b \<leftarrow> mem_get data2 0 (min n1 n2);
     let rc = mc a b;
     Some (if rc = 0 \<and> n1 \<noteq> n2 then if n1 < n2 then - 1 else 1 else rc) }"

definition ntfs_collate_ntofs_ulong :: "bytes \<Rightarrow> nat \<Rightarrow> bytes \<Rightarrow> nat \<Rightarrow> int option" where
  "ntfs_collate_ntofs_ulong data1 n1 data2 n2 =
     (if n1 \<noteq> n2 \<or> n1 \<noteq> 4 then Some NTFS_COLLATION_ERROR
      else do { d1 \<leftarrow> fetch32 data1 0; d2 \<leftarrow> fetch32 data2 0; Some (if d1 < d2 then - 1 else if d1 = d2 then 0 else 1) })"

fun ulongs_loop :: "nat \<Rightarrow> bytes \<Rightarrow> bytes \<Rightarrow> nat \<Rightarrow> (nat \<times> nat) option" where
  "ulongs_loop 0 p1 p2 i = None"
| "ulongs_loop (Suc n) p1 p2 i = do {
     d1 \<leftarrow> fetch32 p1 i;
     d2 \<leftarrow> fetch32 p2 i;
     if d1 = d2 \<and> n > 0 then ulongs_loop n p1 p2 (i + 4) else Some (d1, d2) }"

definition ntfs_collate_ntofs_ulongs :: "bytes \<Rightarrow> int \<Rightarrow> bytes \<Rightarrow> int \<Rightarrow> int option" where
  "ntfs_collate_ntofs_ulongs data1 n1 data2 n2 =
     (if n1 \<noteq> n2 \<or> n1 \<le> 0 \<or> (n1 AND 3) \<noteq> 0 then Some NTFS_COLLATION_ERROR
      else map_option (\<lambda>(d1, d2). if d1 < d2 then - 1 else if d1 = d2 then 0 else 1) (ulongs_loop (nat n1 div 4) data1 data2 0))"

definition ntfs_collate_ntofs_security_hash :: "bytes \<Rightarrow> nat \<Rightarrow> bytes \<Rightarrow> nat \<Rightarrow> int option" where
  "ntfs_collate_ntofs_security_hash data1 n1 data2 n2 =
     (if n1 \<noteq> n2 \<or> n1 \<noteq> 8 then Some NTFS_COLLATION_ERROR
      else do {
        d1 \<leftarrow> fetch32 data1 0; d2 \<leftarrow> fetch32 data2 0;
        if d1 < d2 then Some (- 1) else if d1 > d2 then Some 1
        else do { d1 \<leftarrow> fetch32 data1 4; d2 \<leftarrow> fetch32 data2 4; Some (if d1 < d2 then - 1 else if d1 > d2 then 1 else 0) } })"

text \<open>The name in a \<open>FILE_NAME_ATTR\<close>: its length in byte 64, its characters from byte 66.\<close>

fun name_chars :: "bytes \<Rightarrow> nat \<Rightarrow> nat \<Rightarrow> ntfschar list" where
  "name_chars b i 0 = []"
| "name_chars b i (Suc n) = (if i + 2 \<le> length b then word_of_nat (get16 b i) # name_chars b (i + 2) n else [])"

definition ntfs_collate_file_name :: "ntfschar list \<Rightarrow> nat \<Rightarrow> bytes \<Rightarrow> bytes \<Rightarrow> int option" where
  "ntfs_collate_file_name upcase upcase_len data1 data2 = do {
     n1 \<leftarrow> elem data1 0x40;
     n2 \<leftarrow> elem data2 0x40;
     ntfs_names_full_collate (name_chars data1 0x42 (unat n1)) (unat n1) (name_chars data2 0x42 (unat n2)) (unat n2) True upcase upcase_len }"

datatype collation_rule = COLLATION_BINARY | COLLATION_FILE_NAME | COLLATION_UNICODE_STRING | COLLATION_NTOFS_ULONG
  | COLLATION_NTOFS_SID | COLLATION_NTOFS_SECURITY_HASH | COLLATION_NTOFS_ULONGS

text \<open>The function for a rule, applied to two keys; \<open>EOPNOTSUPP\<close> for a rule without one.\<close>

fun ntfs_get_collate_function :: "(bytes \<Rightarrow> bytes \<Rightarrow> int) \<Rightarrow> collation_rule \<Rightarrow> errno + (ntfschar list \<Rightarrow> nat \<Rightarrow> bytes \<Rightarrow> nat \<Rightarrow> bytes \<Rightarrow> nat \<Rightarrow> int option)" where
  "ntfs_get_collate_function mc COLLATION_BINARY = Inr (\<lambda>upcase upcase_len. ntfs_collate_binary mc)"
| "ntfs_get_collate_function mc COLLATION_FILE_NAME = Inr (\<lambda>upcase upcase_len data1 n1 data2 n2. ntfs_collate_file_name upcase upcase_len data1 data2)"
| "ntfs_get_collate_function mc COLLATION_NTOFS_SECURITY_HASH = Inr (\<lambda>upcase upcase_len. ntfs_collate_ntofs_security_hash)"
| "ntfs_get_collate_function mc COLLATION_NTOFS_ULONG = Inr (\<lambda>upcase upcase_len. ntfs_collate_ntofs_ulong)"
| "ntfs_get_collate_function mc COLLATION_NTOFS_ULONGS =
     Inr (\<lambda>upcase upcase_len data1 n1 data2 n2. ntfs_collate_ntofs_ulongs data1 (int n1) data2 (int n2))"
| "ntfs_get_collate_function mc _ = Inl EOPNOTSUPP"

section \<open>Three-way comparison\<close>

definition cmp :: "'a :: linorder \<Rightarrow> 'a \<Rightarrow> int" where
  "cmp x y = (if x < y then - 1 else if y < x then 1 else 0)"

lemma cmp_eq_0 [simp]: "cmp x y = 0 \<longleftrightarrow> x = y"
  by (auto simp: cmp_def)

lemma cmp_le_0: "cmp x y \<le> 0 \<longleftrightarrow> x \<le> y"
  by (auto simp: cmp_def)

lemma cmp_refl [simp]: "cmp x x = 0"
  by (simp add: cmp_def)

lemma cmp_Cons [simp]: "cmp (a # as) (b # bs) = (if a < b then - 1 else if b < a then 1 else cmp as bs)"
  by (auto simp: cmp_def)

lemma cmp_Nil [simp]: "cmp [] (b # bs) = - 1" "cmp (b # bs) [] = 1"
  by (simp_all add: cmp_def)

lemma cmp_Pair: "cmp (a, c) (b, d) = (if cmp a b \<noteq> 0 then cmp a b else cmp c d)"
  by (auto simp: cmp_def less_prod_def)

section \<open>The order of names\<close>

text \<open>A table that covers the characters it is used for, and a character in upper case.\<close>

definition up_ok :: "ntfschar list \<Rightarrow> nat \<Rightarrow> bool" where
  "up_ok upcase n \<longleftrightarrow> n \<le> length upcase"

definition upc :: "ntfschar list \<Rightarrow> nat \<Rightarrow> ntfschar \<Rightarrow> ntfschar" where
  "upc upcase n c = (if unat c < n then upcase ! unat c else c)"

lemma upchar_upc: "up_ok upcase n \<Longrightarrow> upchar upcase n c = Some (upc upcase n c)"
  by (simp add: upchar_def upc_def up_ok_def)

text \<open>The end of the comparison: by the characters, the lengths, and what was found in the first loop.\<close>

definition verdict :: "ntfschar \<times> ntfschar \<Rightarrow> nat \<Rightarrow> nat \<Rightarrow> int \<Rightarrow> int" where
  "verdict u n1 n2 r = (if fst u < snd u then - 1 else if fst u > snd u then 1 else collate_lengths n1 n2 r)"

definition then_by :: "int \<Rightarrow> int \<Rightarrow> int" where
  "then_by c r = (if c \<noteq> 0 then c else r)"

lemma upcase_loop_ok:
  assumes "\<And>c. up c = Some (f c)"
  shows "cnt = min (length xs) (length ys) \<Longrightarrow> 0 < cnt \<Longrightarrow>
    \<exists>u. upcase_loop up cnt xs ys = Some u
     \<and> verdict u (k + length xs) (k + length ys) r = then_by (cmp (map f xs) (map f ys)) r"
proof (induction cnt arbitrary: xs ys k)
  case 0
  then show ?case by simp
next
  case (Suc cnt)
  then obtain a s1 b s2 where xs: "xs = a # s1" "ys = b # s2" by (cases xs; cases ys) auto
  show ?case
  proof (cases "f a = f b \<and> cnt \<noteq> 0")
    case True
    have "upcase_loop up (Suc cnt) xs ys = upcase_loop up cnt s1 s2" "cmp (map f xs) (map f ys) = cmp (map f s1) (map f s2)"
        "k + length xs = Suc k + length s1" "k + length ys = Suc k + length s2" "cnt = min (length s1) (length s2)"
      using True Suc.prems by (simp_all add: xs assms)
    moreover obtain u where "upcase_loop up cnt s1 s2 = Some u" "verdict u (Suc k + length s1) (Suc k + length s2) r = then_by (cmp (map f s1) (map f s2)) r"
      using Suc.IH [OF calculation(5), of "Suc k"] True by blast
    ultimately show ?thesis by metis
  next
    case False
    then have l: "upcase_loop up (Suc cnt) xs ys = Some (f a, f b)" by (auto simp: xs assms)
    have "s1 = [] \<or> s2 = []" if "cnt = 0" using Suc.prems that by (auto simp: xs min_def split: if_splits)
    then show ?thesis
      using False unfolding l by (cases s1; cases s2) (auto simp: xs collate_lengths_def verdict_def then_by_def)
  qed
qed

text \<open>What \<open>skip_equal\<close> and the second loop lead to.\<close>

definition cased_end :: "(ntfschar \<Rightarrow> ntfschar option) \<Rightarrow> (ntfschar \<Rightarrow> ntfschar) \<Rightarrow> nat \<times> ntfschar list \<times> ntfschar list \<Rightarrow> nat \<Rightarrow> nat \<Rightarrow> int \<Rightarrow> bool" where
  "cased_end up f st n1 n2 r \<longleftrightarrow> (case st of (n, s1, s2) \<Rightarrow> \<exists>c1 c2 u. elem s1 0 = Some c1 \<and> elem s2 0 = Some c2
     \<and> (if f c1 = f c2 \<and> n \<noteq> 0 then upcase_loop up n (tl s1) (tl s2) else Some (f c1, f c2)) = Some u
     \<and> verdict u n1 n2 (if c1 < c2 then - 1 else if c1 > c2 then 1 else 0) = r)"

lemma skip_equal_ok:
  assumes "\<And>c. up c = Some (f c)"
  shows "cnt = min (length xs) (length ys) \<Longrightarrow> 0 < cnt \<Longrightarrow>
    \<exists>st. skip_equal cnt xs ys = Some st \<and> cased_end up f st (k + length xs) (k + length ys) (cmp (map f xs, xs) (map f ys, ys))"
proof (induction cnt arbitrary: xs ys k)
  case 0
  then show ?case by simp
next
  case (Suc cnt)
  then obtain a s1 b s2 where xs: "xs = a # s1" "ys = b # s2" by (cases xs; cases ys) auto
  show ?case
  proof (cases "cnt \<noteq> 0 \<and> a = b")
    case True
    have "skip_equal (Suc cnt) xs ys = skip_equal cnt s1 s2" "cmp (map f xs, xs) (map f ys, ys) = cmp (map f s1, s1) (map f s2, s2)"
        "k + length xs = Suc k + length s1" "k + length ys = Suc k + length s2" "cnt = min (length s1) (length s2)"
      using True Suc.prems by (simp_all add: xs cmp_Pair)
    moreover obtain st where "skip_equal cnt s1 s2 = Some st"
        "cased_end up f st (Suc k + length s1) (Suc k + length s2) (cmp (map f s1, s1) (map f s2, s2))"
      using Suc.IH [OF calculation(5), of "Suc k"] True by blast
    ultimately show ?thesis by metis
  next
    case False
    then have s: "skip_equal (Suc cnt) xs ys = Some (cnt, xs, ys)" by (auto simp: xs)
    let ?r = "if a < b then - 1 else if a > b then 1 else (0 :: int)"
    show ?thesis
    proof (cases "f a = f b \<and> cnt \<noteq> 0")
      case True
      then have c: "cnt = min (length s1) (length s2)" "0 < cnt" "a \<noteq> b" using False Suc.prems by (auto simp: xs)
      obtain u where u: "upcase_loop up cnt s1 s2 = Some u"
          "verdict u (Suc k + length s1) (Suc k + length s2) ?r = then_by (cmp (map f s1) (map f s2)) ?r"
        using upcase_loop_ok [where up = up and f = f, OF assms c(1,2), of "Suc k" ?r] by blast
      have "cmp (map f xs, xs) (map f ys, ys) = then_by (cmp (map f s1) (map f s2)) ?r"
        using True c(3) by (auto simp: xs cmp_Pair then_by_def)
      then have "cased_end up f (cnt, xs, ys) (k + length xs) (k + length ys) (cmp (map f xs, xs) (map f ys, ys))"
        unfolding cased_end_def prod.case
      proof (intro exI conjI)
        show "elem xs 0 = Some a" "elem ys 0 = Some b" by (simp_all add: xs)
        show "(if f a = f b \<and> cnt \<noteq> 0 then upcase_loop up cnt (tl xs) (tl ys) else Some (f a, f b)) = Some u"
          using True u(1) by (simp add: xs)
        show "verdict u (k + length xs) (k + length ys) ?r = cmp (map f xs, xs) (map f ys, ys)"
          using u(2) \<open>cmp (map f xs, xs) (map f ys, ys) = _\<close> by (simp only: xs list.size add_Suc add_Suc_right add_0_right)
      qed
      then show ?thesis using s by simp
    next
      case no: False
      have "s1 = [] \<or> s2 = []" if "cnt = 0" using Suc.prems that by (auto simp: xs min_def split: if_splits)
      then have "verdict (f a, f b) (k + length xs) (k + length ys) ?r = cmp (map f xs, xs) (map f ys, ys)"
        using no False by (cases s1; cases s2) (auto simp: xs collate_lengths_def cmp_Pair verdict_def)
      moreover have "elem xs 0 = Some a" "elem ys 0 = Some b" by (simp_all add: xs)
      ultimately have "cased_end up f (cnt, xs, ys) (k + length xs) (k + length ys) (cmp (map f xs, xs) (map f ys, ys))"
        using no unfolding cased_end_def prod.case by (intro exI [of _ a] exI [of _ b] exI [of _ "(f a, f b)"]) simp
      then show ?thesis using s by simp
    qed
  qed
qed

lemma full_collate_ok:
  assumes "up_ok upcase n"
  shows "ntfs_names_full_collate xs (length xs) ys (length ys) True upcase n
       = Some (cmp (map (upc upcase n) xs, xs) (map (upc upcase n) ys, ys))"
    and "ntfs_names_full_collate xs (length xs) ys (length ys) False upcase n
       = Some (cmp (map (upc upcase n) xs) (map (upc upcase n) ys))"
proof -
  note up = upchar_upc [OF assms]
  let ?m = "min (length xs) (length ys)"
  have "ntfs_names_full_collate xs (length xs) ys (length ys) True upcase n = Some (cmp (map (upc upcase n) xs, xs) (map (upc upcase n) ys, ys))
    \<and> ntfs_names_full_collate xs (length xs) ys (length ys) False upcase n = Some (cmp (map (upc upcase n) xs) (map (upc upcase n) ys))"
  proof (cases "0 < ?m")
    case False
    then show ?thesis
      by (cases xs; cases ys) (auto simp: ntfs_names_full_collate_def collate_lengths_def cmp_Pair)
  next
    case True
    obtain st where s: "skip_equal ?m xs ys = Some st"
        "cased_end (upchar upcase n) (upc upcase n) st (0 + length xs) (0 + length ys) (cmp (map (upc upcase n) xs, xs) (map (upc upcase n) ys, ys))"
      using skip_equal_ok [of "upchar upcase n" "upc upcase n", OF up refl True] by blast
    obtain v where v: "upcase_loop (upchar upcase n) ?m xs ys = Some v"
        "verdict v (0 + length xs) (0 + length ys) 0
          = then_by (cmp (map (upc upcase n) xs) (map (upc upcase n) ys)) 0"
      using upcase_loop_ok [of "upchar upcase n" "upc upcase n", OF up refl True] by blast
    obtain k s1 s2 where st: "st = (k, s1, s2)" by (cases st)
    have "ntfs_names_full_collate xs (length xs) ys (length ys) True upcase n = Some (cmp (map (upc upcase n) xs, xs) (map (upc upcase n) ys, ys))"
    proof -
      obtain c1 c2 u where c: "elem s1 0 = Some c1" "elem s2 0 = Some c2"
          "(if upc upcase n c1 = upc upcase n c2 \<and> k \<noteq> 0 then upcase_loop (upchar upcase n) k (tl s1) (tl s2)
            else Some (upc upcase n c1, upc upcase n c2)) = Some u"
          "verdict u (length xs) (length ys) (if c1 < c2 then - 1 else if c1 > c2 then 1 else 0) = cmp (map (upc upcase n) xs, xs) (map (upc upcase n) ys, ys)"
        using s(2) unfolding cased_end_def st by auto
      obtain u1 u2 where u: "u = (u1, u2)" by (cases u)
      show ?thesis
        unfolding ntfs_names_full_collate_def Let_def if_P [OF True] if_True s(1) st bind.bind_lunit prod.case c(1,2) up c(3) u
        using c(4) unfolding u verdict_def fst_conv snd_conv by (rule arg_cong)
    qed
    moreover have "ntfs_names_full_collate xs (length xs) ys (length ys) False upcase n = Some (cmp (map (upc upcase n) xs) (map (upc upcase n) ys))"
    proof -
      obtain v1 v2 where v12: "v = (v1, v2)" by (cases v)
      have "then_by c 0 = c" for c by (simp add: then_by_def)
      then have "verdict (v1, v2) (length xs) (length ys) 0 = cmp (map (upc upcase n) xs) (map (upc upcase n) ys)" using v(2) v12 by simp
      then show ?thesis
        unfolding ntfs_names_full_collate_def Let_def if_P [OF True] if_False v(1) v12 bind.bind_lunit prod.case verdict_def fst_conv snd_conv
        by (rule arg_cong)
    qed
    ultimately show ?thesis by blast
  qed
  then show "ntfs_names_full_collate xs (length xs) ys (length ys) True upcase n
       = Some (cmp (map (upc upcase n) xs, xs) (map (upc upcase n) ys, ys))"
    and "ntfs_names_full_collate xs (length xs) ys (length ys) False upcase n
       = Some (cmp (map (upc upcase n) xs) (map (upc upcase n) ys))"
    by blast+
qed

section \<open>Equality and case\<close>

lemma ntfs_ucsncmp_ok:
  "length xs = length ys \<Longrightarrow> 0 \<notin> set xs \<Longrightarrow> \<exists>r. ntfs_ucsncmp xs ys (length xs) = Some r \<and> (r = 0 \<longleftrightarrow> xs = ys)"
  by (induction xs ys rule: list_induct2') auto

lemma ntfs_ucsncasecmp_ok:
  assumes "up_ok upcase n"
  shows "length xs = length ys \<Longrightarrow> 0 \<notin> set (map (upc upcase n) xs) \<Longrightarrow>
    \<exists>r. ntfs_ucsncasecmp xs ys (length xs) upcase n = Some r \<and> (r = 0 \<longleftrightarrow> map (upc upcase n) xs = map (upc upcase n) ys)"
  by (induction xs ys rule: list_induct2') (auto simp: upchar_upc [OF assms])

lemma ntfs_names_are_equal_ok:
  assumes "up_ok upcase n"
  shows "0 \<notin> set xs \<Longrightarrow> ntfs_names_are_equal xs (length xs) ys (length ys) True upcase n = Some (xs = ys)"
    and "0 \<notin> set (map (upc upcase n) xs) \<Longrightarrow>
      ntfs_names_are_equal xs (length xs) ys (length ys) False upcase n = Some (map (upc upcase n) xs = map (upc upcase n) ys)"
proof -
  have l: "length ys \<noteq> length xs \<Longrightarrow> xs \<noteq> ys \<and> map (upc upcase n) xs \<noteq> map (upc upcase n) ys" by (metis length_map)
  show "0 \<notin> set xs \<Longrightarrow> ntfs_names_are_equal xs (length xs) ys (length ys) True upcase n = Some (xs = ys)"
    using ntfs_ucsncmp_ok [of xs ys] l by (auto simp: ntfs_names_are_equal_def)
  show "0 \<notin> set (map (upc upcase n) xs) \<Longrightarrow>
      ntfs_names_are_equal xs (length xs) ys (length ys) False upcase n = Some (map (upc upcase n) xs = map (upc upcase n) ys)"
    using ntfs_ucsncasecmp_ok [OF assms, of xs ys] l by (auto simp: ntfs_names_are_equal_def)
qed

lemma ntfs_name_upcase_ok: "up_ok upcase n \<Longrightarrow> ntfs_name_upcase xs (length xs) upcase n = Some (map (upc upcase n) xs)"
  by (induction xs) (auto simp: upchar_upc)

text \<open>The lower-case table: what it holds for a character maps to that character in upper case, or it is the character itself.\<close>

lemma locase_loop_ok:
  assumes "uc_cnt \<le> length uc" "uc_cnt \<le> 65536"
  shows "i + n = uc_cnt \<Longrightarrow> length lc = uc_cnt \<Longrightarrow> (\<forall>c < uc_cnt. lc ! c = word_of_nat c \<or> unat (lc ! c) < uc_cnt \<and> unat (uc ! unat (lc ! c)) = c) \<Longrightarrow>
    \<exists>lc'. locase_loop n uc uc_cnt i lc = Some lc' \<and> length lc' = uc_cnt
     \<and> (\<forall>c < uc_cnt. lc' ! c = word_of_nat c \<or> unat (lc' ! c) < uc_cnt \<and> unat (uc ! unat (lc' ! c)) = c)"
proof (induction n arbitrary: i lc)
  case 0
  then show ?case by simp
next
  case (Suc n)
  let ?upp = "uc ! i"
  let ?lc = "if unat ?upp \<noteq> i \<and> unat ?upp < uc_cnt then lc[unat ?upp := word_of_nat i] else lc"
  have i: "i < uc_cnt" "i < length uc" using Suc.prems(1) assms(1) by auto
  then have w: "unat (word_of_nat i :: ntfschar) = i" using assms(2) by (simp add: unat_of_nat)
  have "\<forall>c < uc_cnt. ?lc ! c = word_of_nat c \<or> unat (?lc ! c) < uc_cnt \<and> unat (uc ! unat (?lc ! c)) = c"
    using Suc.prems(2,3) i w by (auto simp: nth_list_update)
  then have "\<exists>lc'. locase_loop n uc uc_cnt (i + 1) ?lc = Some lc' \<and> length lc' = uc_cnt
     \<and> (\<forall>c < uc_cnt. lc' ! c = word_of_nat c \<or> unat (lc' ! c) < uc_cnt \<and> unat (uc ! unat (lc' ! c)) = c)"
    using Suc.prems(1,2) by (intro Suc.IH) auto
  then show ?case using i by simp
qed

lemma ntfs_locase_table_build_ok:
  assumes "uc_cnt \<le> length uc" "uc_cnt \<le> 65536"
  shows "\<exists>lc. ntfs_locase_table_build True uc uc_cnt = Some (Some lc) \<and> length lc = uc_cnt
     \<and> (\<forall>c < uc_cnt. lc ! c = word_of_nat c \<or> unat (lc ! c) < uc_cnt \<and> unat (uc ! unat (lc ! c)) = c)"
  using locase_loop_ok [OF assms, of 0 uc_cnt "map word_of_nat [0..<uc_cnt]"] by (auto simp: ntfs_locase_table_build_def)

text \<open>A list of names in the order of \<open>ntfs_names_full_collate\<close> is sorted in a linear order, as the index functions assume.\<close>

definition name_le :: "ntfschar list \<Rightarrow> ntfschar list \<Rightarrow> ntfschar list \<Rightarrow> bool" where
  "name_le upcase xs ys \<longleftrightarrow>
     (case ntfs_names_full_collate xs (length xs) ys (length ys) True upcase (length upcase) of None \<Rightarrow> False | Some r \<Rightarrow> r \<le> 0)"

definition name_less :: "ntfschar list \<Rightarrow> ntfschar list \<Rightarrow> ntfschar list \<Rightarrow> bool" where
  "name_less upcase xs ys \<longleftrightarrow> name_le upcase xs ys \<and> \<not> name_le upcase ys xs"

lemma name_le_key: "name_le upcase xs ys \<longleftrightarrow>
    (map (upc upcase (length upcase)) xs, xs) \<le> (map (upc upcase (length upcase)) ys, ys)"
proof -
  have "up_ok upcase (length upcase)" by (simp add: up_ok_def)
  then show ?thesis by (simp only: name_le_def full_collate_ok option.case cmp_le_0)
qed

interpretation name_order: linorder "name_le upcase" "name_less upcase"
  by unfold_locales (auto simp: name_less_def name_le_key)

section \<open>Index keys\<close>

text \<open>The law of \<open>memcmp\<close>, and two functions that have it: the sign and the difference of the first bytes that differ.\<close>

definition memcmp_law :: "(bytes \<Rightarrow> bytes \<Rightarrow> int) \<Rightarrow> bool" where
  "memcmp_law mc \<longleftrightarrow> (\<forall>a b. length a = length b \<longrightarrow> sgn (mc a b) = cmp a b)"

fun memcmp_diff :: "bytes \<Rightarrow> bytes \<Rightarrow> int" where
  "memcmp_diff (a # as) (b # bs) = (if a = b then memcmp_diff as bs else uint a - uint b)"
| "memcmp_diff _ _ = 0"

lemma memcmp_diff_law: "memcmp_law memcmp_diff"
proof -
  have "length a = length b \<Longrightarrow> sgn (memcmp_diff a b) = cmp a b" for a b
    by (induction a b rule: list_induct2') (auto simp: word_less_def sgn_if word_uint_eq_iff)
  then show ?thesis by (simp add: memcmp_law_def)
qed

lemma memcmp_sign_law: "memcmp_law cmp"
  by (auto simp: memcmp_law_def cmp_def)

lemma cmp_take: "cmp (take (min (length a) (length b)) a) (take (min (length a) (length b)) b) = 0 \<Longrightarrow>
    cmp a b = (if length a < length b then - 1 else if length b < length a then 1 else 0)" for a b :: bytes
proof (induction a b rule: list_induct2')
  case (4 a as b bs)
  then show ?case by (cases "a = b") (auto split: if_splits)
qed auto

lemma cmp_take_ne: "cmp (take k a) (take k b) \<noteq> 0 \<Longrightarrow> cmp a b = cmp (take k a) (take k b)" for a b :: bytes
proof (induction a b arbitrary: k rule: list_induct2')
  case (4 a as b bs)
  then show ?case by (cases k) auto
qed (auto simp: take_Cons split: nat.splits)

lemma ntfs_collate_binary_ok:
  assumes "memcmp_law mc"
  shows "\<exists>r. ntfs_collate_binary mc a (length a) b (length b) = Some r \<and> sgn r = cmp a b"
proof -
  let ?k = "min (length a) (length b)"
  have g: "mem_get a 0 ?k = Some (take ?k a)" "mem_get b 0 ?k = Some (take ?k b)" by (simp_all add: mem_get_def chunk_def)
  have m: "sgn (mc (take ?k a) (take ?k b)) = cmp (take ?k a) (take ?k b)" using assms by (simp add: memcmp_law_def)
  show ?thesis
  proof (cases "cmp (take ?k a) (take ?k b) = 0")
    case True
    then have "mc (take ?k a) (take ?k b) = 0" using m by (simp add: sgn_0_0)
    then show ?thesis unfolding ntfs_collate_binary_def g bind.bind_lunit Let_def using cmp_take [OF True]
      by (cases "length a = length b") simp_all
  next
    case False
    then have "mc (take ?k a) (take ?k b) \<noteq> 0" using m by auto
    then show ?thesis unfolding ntfs_collate_binary_def g bind.bind_lunit Let_def using cmp_take_ne [OF False] m by simp
  qed
qed

text \<open>The 32-bit numbers of a key.\<close>

definition ulongs :: "bytes \<Rightarrow> nat \<Rightarrow> nat list" where
  "ulongs b n = map (\<lambda>i. get32 b (4 * i)) [0..<n]"

lemma ulongs_loop_ok:
  "0 < n \<Longrightarrow> 4 * (k + n) \<le> length a \<Longrightarrow> 4 * (k + n) \<le> length b \<Longrightarrow>
   \<exists>d1 d2. ulongs_loop n a b (4 * k) = Some (d1, d2)
     \<and> (if d1 < d2 then - 1 else if d1 = d2 then 0 else 1) = cmp (map (\<lambda>i. get32 a (4 * i)) [k..<k + n]) (map (\<lambda>i. get32 b (4 * i)) [k..<k + n])"
proof (induction n arbitrary: k)
  case 0
  then show ?case by simp
next
  case (Suc n)
  let ?a = "get32 a (4 * k)" and ?b = "get32 b (4 * k)"
  have f: "fetch32 a (4 * k) = Some ?a" "fetch32 b (4 * k) = Some ?b" using Suc.prems by (simp_all add: fetch32_get32)
  have u: "[k..<k + Suc n] = k # [Suc k..<Suc k + n]" by (simp add: upt_rec)
  show ?case
  proof (cases "?a = ?b \<and> n > 0")
    case True
    have "ulongs_loop (Suc n) a b (4 * k) = ulongs_loop n a b (4 * Suc k)" using True f by (simp add: add.commute)
    then show ?thesis using Suc.IH [of "Suc k"] Suc.prems True unfolding u by simp
  next
    case False
    then have "ulongs_loop (Suc n) a b (4 * k) = Some (?a, ?b)" using f by auto
    then show ?thesis using False unfolding u by (cases n) auto
  qed
qed

lemma ntfs_collate_ntofs_ulongs_ok:
  assumes "length a = 4 * n" "length b = 4 * n" "0 < n"
  shows "ntfs_collate_ntofs_ulongs a (int (length a)) b (int (length b)) = Some (cmp (ulongs a n) (ulongs b n))"
proof -
  have "(int (4 * n) AND 3) = 0"
  proof -
    have "int (4 * n) AND mask 2 = take_bit 2 (int (4 * n))" by (simp add: take_bit_eq_mask)
    also have "\<dots> = 0" by (simp add: take_bit_eq_mod)
    finally show ?thesis by (simp add: mask_eq_exp_minus_1)
  qed
  moreover obtain d1 d2 where "ulongs_loop n a b 0 = Some (d1, d2)"
      "(if d1 < d2 then - 1 else if d1 = d2 then 0 else 1) = cmp (ulongs a n) (ulongs b n)"
    using ulongs_loop_ok [of n 0 a b] assms by (auto simp: ulongs_def)
  moreover have "nat (int (4 * n)) div 4 = n" "nat (4 * int n) div 4 = n" by (simp_all add: nat_mult_distrib)
  ultimately show ?thesis using assms by (simp add: ntfs_collate_ntofs_ulongs_def)
qed

lemma ntfs_collate_ntofs_ulong_ok:
  "length a = 4 \<Longrightarrow> length b = 4 \<Longrightarrow> ntfs_collate_ntofs_ulong a 4 b 4 = Some (cmp (get32 a 0) (get32 b 0))"
  by (simp add: ntfs_collate_ntofs_ulong_def fetch32_get32 cmp_def)

lemma ntfs_collate_ntofs_security_hash_ok:
  "length a = 8 \<Longrightarrow> length b = 8 \<Longrightarrow>
   ntfs_collate_ntofs_security_hash a 8 b 8 = Some (cmp (get32 a 0, get32 a 4) (get32 b 0, get32 b 4))"
  by (auto simp: ntfs_collate_ntofs_security_hash_def fetch32_get32 cmp_Pair cmp_def)

section \<open>Properties\<close>

text \<open>
  C13. \<open>ntfs_names_full_collate\<close> orders names by their characters in upper case, and with \<open>CASE_SENSITIVE\<close> names that are equal so by the
  characters as they are: it returns the three-way comparison of these keys in the lexicographic order, for names of
  any length and any table. So it is a linear order that respects case only to break ties, and 0 means the same name. The table
  counts in both modes: the comment on the function, which says that it is ignored with \<open>CASE_SENSITIVE\<close>, is wrong.
\<close>

theorem full_collate_is_lexicographic:
  assumes "upcase_len \<le> length upcase"
  shows "ntfs_names_full_collate xs (length xs) ys (length ys) True upcase upcase_len
       = Some (cmp (map (upc upcase upcase_len) xs, xs) (map (upc upcase upcase_len) ys, ys))
    \<and> ntfs_names_full_collate xs (length xs) ys (length ys) False upcase upcase_len
       = Some (cmp (map (upc upcase upcase_len) xs) (map (upc upcase upcase_len) ys))"
  using full_collate_ok [of upcase upcase_len] assms by (simp add: up_ok_def)

text \<open>A table of the 128 ASCII characters, with the letters in upper case.\<close>

definition ascii_upcase :: "ntfschar list" where
  "ascii_upcase = map word_of_nat [0..<97] @ map word_of_nat [65..<91] @ map word_of_nat [123..<128]"

theorem full_collate_is_lexicographic_witness:
  "ntfs_names_full_collate [97, 66] (length [97, 66 :: ntfschar]) [65, 98, 97] (length [65, 98, 97 :: ntfschar]) True ascii_upcase 128 = Some (- 1)"
proof -
  have "128 \<le> length ascii_upcase" by (simp add: ascii_upcase_def)
  moreover have "upc ascii_upcase 128 97 = 65" "upc ascii_upcase 128 98 = 66" "upc ascii_upcase 128 66 = 66" "upc ascii_upcase 128 65 = 65"
    by (simp_all add: upc_def ascii_upcase_def nth_append)
  ultimately show ?thesis using full_collate_is_lexicographic [of 128 ascii_upcase "[97, 66]" "[65, 98, 97]"] by (simp add: cmp_Pair)
qed

text \<open>
  C24. For names without a null character \<open>ntfs_names_are_equal\<close> agrees with the order: the names are equal just when
  \<open>ntfs_names_full_collate\<close> returns 0, with case and without.
\<close>

theorem names_are_equal_iff_collate_0:
  assumes "upcase_len \<le> length upcase" "0 \<notin> set xs" "0 \<notin> set (map (upc upcase upcase_len) xs)"
  shows "ntfs_names_are_equal xs (length xs) ys (length ys) cs upcase upcase_len
     = map_option (\<lambda>r. r = 0) (ntfs_names_full_collate xs (length xs) ys (length ys) cs upcase upcase_len)"
proof -
  have up: "up_ok upcase upcase_len" using assms(1) by (simp add: up_ok_def)
  show ?thesis
    using ntfs_names_are_equal_ok [OF up] full_collate_ok [OF up] assms(2,3) by (cases cs) auto
qed

theorem names_are_equal_iff_collate_0_witness:
  "ntfs_names_are_equal [97, 66] (length [97, 66 :: ntfschar]) [65, 98] (length [65, 98 :: ntfschar]) False ascii_upcase 128
     = map_option (\<lambda>r. r = 0) (ntfs_names_full_collate [97, 66] (length [97, 66 :: ntfschar]) [65, 98] (length [65, 98 :: ntfschar]) False ascii_upcase 128)"
  by (rule names_are_equal_iff_collate_0) (simp_all add: upc_def ascii_upcase_def nth_append)

text \<open>
  The table of \<open>ntfs_locase_table_build\<close> is an inverse of the upper-case table: a name in lower case by it is, in
  upper case, the name in upper case, provided that upper-case characters are their own upper case.
\<close>

lemma locase_then_upcase:
  assumes "uc_cnt \<le> length uc" "uc_cnt \<le> 65536" "\<And>c. upc uc uc_cnt (upc uc uc_cnt c) = upc uc uc_cnt c"
  shows "\<exists>lc low. ntfs_locase_table_build True uc uc_cnt = Some (Some lc) \<and> ntfs_name_locase name (length name) (Some lc) uc_cnt = Some low
     \<and> ntfs_name_upcase low (length low) uc uc_cnt = ntfs_name_upcase name (length name) uc uc_cnt"
proof -
  obtain lc where lc: "ntfs_locase_table_build True uc uc_cnt = Some (Some lc)" "length lc = uc_cnt"
      "\<And>c. c < uc_cnt \<Longrightarrow> lc ! c = word_of_nat c \<or> unat (lc ! c) < uc_cnt \<and> unat (uc ! unat (lc ! c)) = c"
    using ntfs_locase_table_build_ok [OF assms(1,2)] by blast
  have up: "up_ok uc uc_cnt" "up_ok lc uc_cnt" using assms(1) lc(2) by (simp_all add: up_ok_def)
  have "upc uc uc_cnt (upc lc uc_cnt c) = upc uc uc_cnt c" for c
  proof (cases "unat c < uc_cnt")
    case True
    from lc(3) [OF True] show ?thesis
    proof (elim disjE)
      assume "lc ! unat c = word_of_nat (unat c)"
      then show ?thesis using True by (simp add: upc_def)
    next
      assume l: "unat (lc ! unat c) < uc_cnt \<and> unat (uc ! unat (lc ! unat c)) = unat c"
      then have "upc uc uc_cnt (lc ! unat c) = c" by (simp add: upc_def word_unat_eq_iff)
      then have "upc uc uc_cnt c = c" using assms(3) [of "lc ! unat c"] by simp
      then show ?thesis using \<open>upc uc uc_cnt (lc ! unat c) = c\<close> True by (simp add: upc_def)
    qed
  qed (simp add: upc_def)
  then show ?thesis
    using lc(1) ntfs_name_upcase_ok [OF up(1), of name] ntfs_name_upcase_ok [OF up(2), of name] ntfs_name_upcase_ok [OF up(1), of "map (upc lc uc_cnt) name"]
    by (auto simp: ntfs_name_locase_def)
qed

text \<open>
  C23. The functions of \<open>ntfs_get_collate_function\<close> order the keys of the system indexes: byte strings lexicographically, numbers, pairs and
  arrays of little-endian 32-bit numbers by their values.
\<close>

theorem collate_keys:
  assumes "memcmp_law mc"
  shows "(\<exists>r. ntfs_collate_binary mc x (length x) y (length y) = Some r \<and> sgn r = cmp x y)
   \<and> (length a = 4 \<longrightarrow> length b = 4 \<longrightarrow> ntfs_collate_ntofs_ulong a 4 b 4 = Some (cmp (get32 a 0) (get32 b 0)))
   \<and> (length c = 8 \<longrightarrow> length d = 8 \<longrightarrow> ntfs_collate_ntofs_security_hash c 8 d 8 = Some (cmp (get32 c 0, get32 c 4) (get32 d 0, get32 d 4)))
   \<and> (0 < n \<longrightarrow> length e = 4 * n \<longrightarrow> length f = 4 * n \<longrightarrow>
        ntfs_collate_ntofs_ulongs e (int (length e)) f (int (length f)) = Some (cmp (ulongs e n) (ulongs f n)))"
  using ntfs_collate_binary_ok [OF assms] ntfs_collate_ntofs_ulong_ok ntfs_collate_ntofs_security_hash_ok ntfs_collate_ntofs_ulongs_ok by blast

theorem collate_keys_witness:
  "ntfs_collate_ntofs_ulong [1, 0, 0, 1] 4 [2, 0, 0, 0] 4 = Some (cmp (get32 [1, 0, 0, 1] 0) (get32 [2, 0, 0, 0] 0))
   \<and> (\<exists>r. ntfs_collate_binary memcmp_diff [1, 9] (length [1, 9 :: u8]) [4] (length [4 :: u8]) = Some r \<and> sgn r = cmp [1, 9] [4 :: u8])"
  using collate_keys [OF memcmp_diff_law, where a = "[1, 0, 0, 1]" and b = "[2, 0, 0, 0]" and x = "[1, 9]" and y = "[4]"] by (simp only: list.size)

end
