(* ===== verification/Mst.thy ===== *)
theory Mst
  imports NtfsPrelude
begin

text \<open>
  Multi-sector transfer protection of NTFS records, \<^verbatim>\<open>libntfs_ext/source/mst.c\<close>.

  A record is a byte buffer: the magic in bytes 0 to 3, \<open>usa_ofs\<close> at 4, \<open>usa_count\<close> at 6. The
  \<open>u16\<close> words the code compares and moves without byte swapping are pairs of bytes here, so the
  model does not depend on the byte order of the machine. A loop returns \<open>None\<close> when it touches
  memory outside the buffer; the functions report that as \<open>FAULT\<close>.
\<close>

section \<open>The record header\<close>

definition NTFS_BLOCK_SIZE :: nat where
  "NTFS_BLOCK_SIZE = 512"

definition magic_BAAD :: bytes where
  "magic_BAAD = [0x42, 0x41, 0x41, 0x44]"

definition magic_HOLE :: bytes where
  "magic_HOLE = [0x48, 0x4f, 0x4c, 0x45]"

text \<open>\<open>le16_to_cpu(b->usa_count) - 1\<close> kept in a \<open>u16\<close>.\<close>

definition usa_fixups :: "bytes \<Rightarrow> nat" where
  "usa_fixups b = (get16 b 6 + 65535) mod 65536"

definition usa_ofs :: "bytes \<Rightarrow> nat" where
  "usa_ofs b = get16 b 4"

text \<open>The size and alignment check shared by the read and the write fixup.\<close>

definition mst_bad_header :: "bytes \<Rightarrow> nat \<Rightarrow> bool" where
  "mst_bad_header b sz \<longleftrightarrow>
     sz mod NTFS_BLOCK_SIZE \<noteq> 0 \<or> odd (usa_ofs b) \<or>
     usa_ofs b + usa_fixups b * 2 > sz \<or> sz div NTFS_BLOCK_SIZE \<noteq> usa_fixups b"

section \<open>The loops\<close>

definition rd16 :: "bytes \<Rightarrow> nat \<Rightarrow> bytes option" where
  "rd16 b i = (if i + 2 \<le> length b then Some (chunk i 2 b) else None)"

definition wr16 :: "bytes \<Rightarrow> nat \<Rightarrow> bytes \<Rightarrow> bytes option" where
  "wr16 b i w = (if i + 2 \<le> length b then Some (blit b i w) else None)"

text \<open>\<open>while (usa_count--) if (*data_pos != usn) \<dots>\<close>: do all sectors end in \<open>usn\<close>?\<close>

fun mst_check :: "bytes \<Rightarrow> bytes \<Rightarrow> nat \<Rightarrow> nat \<Rightarrow> bool option" where
  "mst_check b usn data_pos 0 = Some True"
| "mst_check b usn data_pos (Suc usa_count) =
     (case rd16 b data_pos of
        None \<Rightarrow> None
      | Some d \<Rightarrow> if d \<noteq> usn then Some False
                 else mst_check b usn (data_pos + NTFS_BLOCK_SIZE) usa_count)"

text \<open>\<open>while (usa_count--) *data_pos = *(++usa_pos)\<close>.\<close>

fun mst_restore :: "bytes \<Rightarrow> nat \<Rightarrow> nat \<Rightarrow> nat \<Rightarrow> bytes option" where
  "mst_restore b usa_pos data_pos 0 = Some b"
| "mst_restore b usa_pos data_pos (Suc usa_count) =
     (case rd16 b (usa_pos + 2) of
        None \<Rightarrow> None
      | Some w \<Rightarrow>
         (case wr16 b data_pos w of
            None \<Rightarrow> None
          | Some b' \<Rightarrow> mst_restore b' (usa_pos + 2) (data_pos + NTFS_BLOCK_SIZE) usa_count))"

text \<open>\<open>while (usa_count--) { *(++usa_pos) = *data_pos; *data_pos = usn; }\<close>.\<close>

fun mst_protect :: "bytes \<Rightarrow> bytes \<Rightarrow> nat \<Rightarrow> nat \<Rightarrow> nat \<Rightarrow> bytes option" where
  "mst_protect b usn usa_pos data_pos 0 = Some b"
| "mst_protect b usn usa_pos data_pos (Suc usa_count) =
     (case rd16 b data_pos of
        None \<Rightarrow> None
      | Some d \<Rightarrow>
         (case wr16 b (usa_pos + 2) d of
            None \<Rightarrow> None
          | Some b1 \<Rightarrow>
             (case wr16 b1 data_pos usn of
                None \<Rightarrow> None
              | Some b2 \<Rightarrow>
                  mst_protect b2 usn (usa_pos + 2) (data_pos + NTFS_BLOCK_SIZE) usa_count)))"

section \<open>The operations\<close>

text \<open>
  Each returns the buffer and the outcome: \<open>None\<close> for the return value 0, \<open>Some e\<close> for -1 with
  \<open>errno = e\<close>.
\<close>

definition ntfs_mst_post_read_fixup_warn :: "bytes \<Rightarrow> nat \<Rightarrow> bool \<Rightarrow> bytes \<times> errno option" where
  "ntfs_mst_post_read_fixup_warn b sz warn =
     (if length b < 8 then (b, Some FAULT)
      else if mst_bad_header b sz then (b, Some EINVAL)
      else
       (case rd16 b (usa_ofs b) of
          None \<Rightarrow> (b, Some FAULT)
        | Some usn \<Rightarrow>
           (case mst_check b usn (NTFS_BLOCK_SIZE - 2) (usa_fixups b) of
              None \<Rightarrow> (b, Some FAULT)
            | Some False \<Rightarrow> (blit b 0 magic_BAAD, Some EIO)
            | Some True \<Rightarrow>
               (case mst_restore b (usa_ofs b) (NTFS_BLOCK_SIZE - 2) (usa_fixups b) of
                  None \<Rightarrow> (b, Some FAULT)
                | Some b' \<Rightarrow> (b', None)))))"

definition ntfs_mst_post_read_fixup :: "bytes \<Rightarrow> nat \<Rightarrow> bytes \<times> errno option" where
  "ntfs_mst_post_read_fixup b sz = ntfs_mst_post_read_fixup_warn b sz True"

text \<open>The next update sequence number, skipping 0 and 0xffff.\<close>

definition next_usn :: "nat \<Rightarrow> nat" where
  "next_usn u = (let usn = (u + 1) mod 65536 in if usn = 65535 \<or> usn = 0 then 1 else usn)"

text \<open>The record pointer may be NULL here: \<open>None\<close>.\<close>

definition ntfs_mst_pre_write_fixup :: "bytes option \<Rightarrow> nat \<Rightarrow> bytes option \<times> errno option" where
  "ntfs_mst_pre_write_fixup p sz =
     (case p of
        None \<Rightarrow> (None, Some EINVAL)
      | Some b \<Rightarrow>
         (if length b < 8 then (Some b, Some FAULT)
          else if chunk 0 4 b = magic_BAAD \<or> chunk 0 4 b = magic_HOLE then (Some b, Some EINVAL)
          else if mst_bad_header b sz then (Some b, Some EINVAL)
          else
           (case rd16 b (usa_ofs b) of
              None \<Rightarrow> (Some b, Some FAULT)
            | Some old \<Rightarrow>
               (let usn = le_bytes 2 (next_usn (le_val old));
                    b1 = blit b (usa_ofs b) usn
                in case mst_protect b1 usn (usa_ofs b) (NTFS_BLOCK_SIZE - 2) (usa_fixups b) of
                     None \<Rightarrow> (Some b1, Some FAULT)
                   | Some b' \<Rightarrow> (Some b', None)))))"

definition ntfs_mst_post_write_fixup :: "bytes \<Rightarrow> bytes option" where
  "ntfs_mst_post_write_fixup b =
     (if length b < 8 then None
      else mst_restore b (usa_ofs b) (NTFS_BLOCK_SIZE - 2) (usa_fixups b))"

section \<open>What the loops do\<close>

text \<open>Sector \<open>k\<close> of a record ends at \<open>data_pos + 512 * k\<close>; \<open>in_tails\<close> says an index is one of
  the last two bytes of one of the first \<open>n\<close> sectors.\<close>

definition in_tails :: "nat \<Rightarrow> nat \<Rightarrow> nat \<Rightarrow> bool" where
  "in_tails data_pos n i \<longleftrightarrow> (\<exists>k<n. i = data_pos + 512 * k \<or> i = data_pos + 512 * k + 1)"

lemma in_tails_Suc:
  "in_tails p (Suc n) i \<longleftrightarrow> i = p \<or> i = p + 1 \<or> in_tails (p + 512) n i"
proof -
  have "(\<exists>k<Suc n. Q k) \<longleftrightarrow> Q 0 \<or> (\<exists>k<n. Q (Suc k))" for Q :: "nat \<Rightarrow> bool"
    by (metis less_Suc_eq_0_disj zero_less_Suc)
  then show ?thesis
    by (auto simp: in_tails_def)
qed

lemma in_tails_ge: "in_tails p n i \<Longrightarrow> p \<le> i"
  by (auto simp: in_tails_def)

lemma all_less_Suc_shift: "(\<forall>k<Suc n. P k) \<longleftrightarrow> P 0 \<and> (\<forall>k<n. P (Suc k))"
  by (metis less_Suc_eq_0_disj zero_less_Suc)

lemma mst_check_eq:
  assumes "n = 0 \<or> p + 512 * (n - 1) + 2 \<le> length b"
  shows "mst_check b usn p n = Some (\<forall>k<n. chunk (p + 512 * k) 2 b = usn)"
  using assms
proof (induction n arbitrary: p)
  case 0
  then show ?case by simp
next
  case (Suc n)
  then have "mst_check b usn (p + 512) n = Some (\<forall>k<n. chunk (p + 512 + 512 * k) 2 b = usn)"
    by (intro Suc.IH) auto
  with Suc.prems show ?case
    by (auto simp: rd16_def NTFS_BLOCK_SIZE_def all_less_Suc_shift add.assoc)
qed

lemma mst_restore_spec:
  assumes "usa + 2 * (n + 1) \<le> p" "n = 0 \<or> p + 512 * (n - 1) + 2 \<le> length b"
  shows "\<exists>b'. mst_restore b usa p n = Some b' \<and> length b' = length b
    \<and> (\<forall>k<n. chunk (p + 512 * k) 2 b' = chunk (usa + 2 + 2 * k) 2 b)
    \<and> (\<forall>i<length b. \<not> in_tails p n i \<longrightarrow> b' ! i = b ! i)"
  using assms
proof (induction n arbitrary: b usa p)
  case 0
  then show ?case by simp
next
  case (Suc n)
  define b1 where "b1 = blit b p (chunk (usa + 2) 2 b)"
  have len: "length b1 = length b" and p2: "p + 2 \<le> length b"
    using Suc.prems by (auto simp: b1_def)
  have "\<exists>b'. mst_restore b1 (usa + 2) (p + 512) n = Some b' \<and> length b' = length b1
    \<and> (\<forall>k<n. chunk (p + 512 + 512 * k) 2 b' = chunk (usa + 2 + 2 + 2 * k) 2 b1)
    \<and> (\<forall>i<length b1. \<not> in_tails (p + 512) n i \<longrightarrow> b' ! i = b1 ! i)"
    using Suc.prems len by (intro Suc.IH) auto
  then obtain b' where b': "mst_restore b1 (usa + 2) (p + 512) n = Some b'" "length b' = length b"
    "\<And>k. k < n \<Longrightarrow> chunk (p + 512 + 512 * k) 2 b' = chunk (usa + 2 + 2 + 2 * k) 2 b1"
    "\<And>i. i < length b \<Longrightarrow> \<not> in_tails (p + 512) n i \<Longrightarrow> b' ! i = b1 ! i"
    using len by auto
  have usa: "chunk (usa + 2 + 2 + 2 * k) 2 b1 = chunk (usa + 2 + 2 + 2 * k) 2 b" if "k < n" for k
    unfolding b1_def using Suc.prems p2 that by (intro chunk_blit_other) auto
  have "chunk p 2 b' = chunk p 2 b1"
  proof (rule chunk_eqI)
    fix k :: nat
    assume "k < 2"
    then have "\<not> in_tails (p + 512) n (p + k)"
      using in_tails_ge by fastforce
    then show "b' ! (p + k) = b1 ! (p + k)"
      using \<open>k < 2\<close> p2 b'(4) by simp
  qed (use b' len p2 in auto)
  also have "\<dots> = chunk (usa + 2) 2 b"
    using chunk_blit_same [of p "chunk (usa + 2) 2 b" b] Suc.prems p2 by (simp add: b1_def)
  finally have first: "chunk p 2 b' = chunk (usa + 2) 2 b" .
  have "mst_restore b usa p (Suc n) = Some b'"
    using Suc.prems p2 b'(1) by (simp add: rd16_def wr16_def NTFS_BLOCK_SIZE_def b1_def)
  moreover have "\<forall>k<Suc n. chunk (p + 512 * k) 2 b' = chunk (usa + 2 + 2 * k) 2 b"
    unfolding all_less_Suc_shift using first b'(3) usa by (simp add: add.assoc)
  moreover have "b' ! i = b ! i" if "i < length b" "\<not> in_tails p (Suc n) i" for i
    using that b'(4) [of i] p2 by (auto simp: in_tails_Suc b1_def nth_blit)
  ultimately show ?case using b'(2) by blast
qed

lemma mst_protect_spec:
  assumes "usa + 2 * (n + 1) \<le> p" "n = 0 \<or> p + 512 * (n - 1) + 2 \<le> length b" "length usn = 2"
  shows "\<exists>b'. mst_protect b usn usa p n = Some b' \<and> length b' = length b
    \<and> (\<forall>k<n. chunk (p + 512 * k) 2 b' = usn)
    \<and> (\<forall>k<n. chunk (usa + 2 + 2 * k) 2 b' = chunk (p + 512 * k) 2 b)
    \<and> (\<forall>i<length b. \<not> in_tails p n i \<longrightarrow> \<not> (usa + 2 \<le> i \<and> i < usa + 2 * (n + 1)) \<longrightarrow> b' ! i = b ! i)"
  using assms
proof (induction n arbitrary: b usa p)
  case 0
  then show ?case by simp
next
  case (Suc n)
  have p2: "p + 2 \<le> length b"
    using Suc.prems by auto
  define b1 where "b1 = blit b (usa + 2) (chunk p 2 b)"
  define b2 where "b2 = blit b1 p usn"
  have len: "length b1 = length b" "length b2 = length b"
    using Suc.prems p2 by (auto simp: b1_def b2_def)
  have nth2: "b2 ! i = (if p \<le> i \<and> i < p + 2 then usn ! (i - p)
      else if usa + 2 \<le> i \<and> i < usa + 4 then b ! (p + (i - (usa + 2))) else b ! i)"
    if "i < length b" for i
    using that Suc.prems p2 len by (auto simp: b2_def b1_def nth_blit nth_chunk)
  have "\<exists>b'. mst_protect b2 usn (usa + 2) (p + 512) n = Some b' \<and> length b' = length b2
    \<and> (\<forall>k<n. chunk (p + 512 + 512 * k) 2 b' = usn)
    \<and> (\<forall>k<n. chunk (usa + 2 + 2 + 2 * k) 2 b' = chunk (p + 512 + 512 * k) 2 b2)
    \<and> (\<forall>i<length b2. \<not> in_tails (p + 512) n i \<longrightarrow>
        \<not> (usa + 2 + 2 \<le> i \<and> i < usa + 2 + 2 * (n + 1)) \<longrightarrow> b' ! i = b2 ! i)"
    using Suc.prems len by (intro Suc.IH) auto
  then obtain b' where b': "mst_protect b2 usn (usa + 2) (p + 512) n = Some b'" "length b' = length b"
    "\<And>k. k < n \<Longrightarrow> chunk (p + 512 + 512 * k) 2 b' = usn"
    "\<And>k. k < n \<Longrightarrow> chunk (usa + 2 + 2 + 2 * k) 2 b' = chunk (p + 512 + 512 * k) 2 b2"
    "\<And>i. i < length b \<Longrightarrow> \<not> in_tails (p + 512) n i \<Longrightarrow>
        \<not> (usa + 2 + 2 \<le> i \<and> i < usa + 2 + 2 * (n + 1)) \<Longrightarrow> b' ! i = b2 ! i"
    using len by auto
  have low: "\<not> in_tails (p + 512) n i" if "i < p + 512" for i
    using that in_tails_ge by fastforce
  have rest: "chunk (p + 512 + 512 * k) 2 b2 = chunk (p + 512 + 512 * k) 2 b" if "k < n" for k
    using that Suc.prems len by (intro chunk_eqI) (auto simp: nth2)
  have tail: "chunk p 2 b' = usn"
  proof -
    have "chunk p 2 b' = chunk p 2 b2"
      using p2 b' len low Suc.prems by (intro chunk_eqI) auto
    then show ?thesis
      using chunk_blit_same [of p usn b1] Suc.prems(3) p2 len by (simp add: b2_def)
  qed
  have saved: "chunk (usa + 2) 2 b' = chunk p 2 b"
    using p2 b' len low Suc.prems by (intro chunk_eqI) (auto simp: nth2)
  have "mst_protect b usn usa p (Suc n) = Some b'"
    using Suc.prems p2 b'(1)
    by (simp add: rd16_def wr16_def NTFS_BLOCK_SIZE_def b1_def b2_def)
  moreover have "\<forall>k<Suc n. chunk (p + 512 * k) 2 b' = usn"
    unfolding all_less_Suc_shift using tail b'(3) by (simp add: add.assoc)
  moreover have "\<forall>k<Suc n. chunk (usa + 2 + 2 * k) 2 b' = chunk (p + 512 * k) 2 b"
    unfolding all_less_Suc_shift using saved b'(4) rest by (simp add: add.assoc)
  moreover have "b' ! i = b ! i" if "i < length b" "\<not> in_tails p (Suc n) i"
      "\<not> (usa + 2 \<le> i \<and> i < usa + 2 * (Suc n + 1))" for i
    using that b'(5) [of i] by (auto simp: in_tails_Suc nth2)
  ultimately show ?case using b'(2) by blast
qed

section \<open>Records whose update sequence array lies in the first sector\<close>

definition mst_layout :: "bytes \<Rightarrow> nat \<Rightarrow> bool" where
  "mst_layout b sz \<longleftrightarrow> length b = sz \<and> 0 < sz \<and> \<not> mst_bad_header b sz \<and> 8 \<le> usa_ofs b
     \<and> usa_ofs b + 2 * (usa_fixups b + 1) \<le> 510"

lemma mst_layoutD:
  assumes "mst_layout b sz"
  shows "length b = sz" "\<not> mst_bad_header b sz" "8 \<le> usa_ofs b" "0 < usa_fixups b"
    "usa_ofs b + 2 * (usa_fixups b + 1) \<le> 510" "sz = 512 * usa_fixups b"
    "usa_ofs b + 2 \<le> length b" "8 \<le> length b"
    "510 + 512 * (usa_fixups b - 1) + 2 \<le> length b"
proof -
  have *: "length b = sz" "0 < sz" "sz mod 512 = 0" "sz div 512 = usa_fixups b"
    using assms by (auto simp: mst_layout_def mst_bad_header_def NTFS_BLOCK_SIZE_def)
  then have sz: "sz = 512 * usa_fixups b"
    by (metis add.right_neutral mult_div_mod_eq)
  with * have pos: "0 < usa_fixups b" by simp
  show "length b = sz" "\<not> mst_bad_header b sz" "8 \<le> usa_ofs b" "0 < usa_fixups b"
    "usa_ofs b + 2 * (usa_fixups b + 1) \<le> 510" "sz = 512 * usa_fixups b"
    using assms sz pos by (auto simp: mst_layout_def)
  then show "usa_ofs b + 2 \<le> length b" "8 \<le> length b"
      "510 + 512 * (usa_fixups b - 1) + 2 \<le> length b"
    by auto
qed

text \<open>The header fields are the first eight bytes, so a change behind them keeps the layout.\<close>

lemma mst_layout_cong:
  assumes "mst_layout b sz" "length c = sz" "\<And>i. 4 \<le> i \<Longrightarrow> i < 8 \<Longrightarrow> c ! i = b ! i"
  shows "mst_layout c sz" "usa_ofs c = usa_ofs b" "usa_fixups c = usa_fixups b"
proof -
  have len: "8 \<le> length b" "length b = sz"
    using mst_layoutD [OF assms(1)] by auto
  have "chunk 4 2 c = chunk 4 2 b" "chunk 6 2 c = chunk 6 2 b"
    using len assms(2,3) by (auto intro!: chunk_eqI)
  then show "usa_ofs c = usa_ofs b" "usa_fixups c = usa_fixups b"
    by (simp_all add: usa_ofs_def usa_fixups_def get16_def)
  then show "mst_layout c sz"
    using assms(1,2) by (simp add: mst_layout_def mst_bad_header_def)
qed

lemma post_read_cases:
  assumes "mst_layout b sz"
  shows "ntfs_mst_post_read_fixup b sz =
    (if \<forall>k<usa_fixups b. chunk (510 + 512 * k) 2 b = chunk (usa_ofs b) 2 b
     then (the (mst_restore b (usa_ofs b) 510 (usa_fixups b)), None)
     else (blit b 0 magic_BAAD, Some EIO))"
proof -
  note l = mst_layoutD [OF assms]
  define ok where "ok = (\<forall>k<usa_fixups b. chunk (510 + 512 * k) 2 b = chunk (usa_ofs b) 2 b)"
  have "mst_check b (chunk (usa_ofs b) 2 b) 510 (usa_fixups b) = Some ok"
    unfolding ok_def using l by (intro mst_check_eq) auto
  moreover obtain b' where "mst_restore b (usa_ofs b) 510 (usa_fixups b) = Some b'"
    using mst_restore_spec [of "usa_ofs b" "usa_fixups b" 510 b] l by auto
  ultimately show ?thesis
    unfolding ok_def [symmetric] using l
    by (cases ok) (auto simp: ntfs_mst_post_read_fixup_def ntfs_mst_post_read_fixup_warn_def rd16_def
        NTFS_BLOCK_SIZE_def)
qed

text \<open>The magic is neither \<open>BAAD\<close> nor \<open>HOLE\<close>.\<close>

definition good_magic :: "bytes \<Rightarrow> bool" where
  "good_magic b \<longleftrightarrow> chunk 0 4 b \<noteq> magic_BAAD \<and> chunk 0 4 b \<noteq> magic_HOLE"

lemma pre_write_spec:
  assumes "mst_layout b sz" "good_magic b"
  defines "usn \<equiv> le_bytes 2 (next_usn (get16 b (usa_ofs b)))"
  shows "\<exists>b'. ntfs_mst_pre_write_fixup (Some b) sz = (Some b', None) \<and> length b' = sz
    \<and> mst_layout b' sz \<and> usa_ofs b' = usa_ofs b \<and> usa_fixups b' = usa_fixups b
    \<and> chunk (usa_ofs b) 2 b' = usn
    \<and> (\<forall>k<usa_fixups b. chunk (510 + 512 * k) 2 b' = usn)
    \<and> (\<forall>k<usa_fixups b. chunk (usa_ofs b + 2 + 2 * k) 2 b' = chunk (510 + 512 * k) 2 b)
    \<and> (\<forall>i < sz. \<not> in_tails 510 (usa_fixups b) i \<longrightarrow>
        \<not> (usa_ofs b \<le> i \<and> i < usa_ofs b + 2 * (usa_fixups b + 1)) \<longrightarrow> b' ! i = b ! i)"
proof -
  note l = mst_layoutD [OF assms(1)]
  define u n where "u = usa_ofs b" and "n = usa_fixups b"
  define b1 where "b1 = blit b u usn"
  have lu: "length usn = 2" by (simp add: usn_def)
  have len1: "length b1 = sz"
    using l lu by (simp add: b1_def u_def)
  have nth1: "b1 ! i = (if u \<le> i \<and> i < u + 2 then usn ! (i - u) else b ! i)" if "i < sz" for i
    using that l lu by (simp add: b1_def nth_blit u_def)
  obtain b' where b': "mst_protect b1 usn u 510 n = Some b'" "length b' = sz"
    "\<forall>k<n. chunk (510 + 512 * k) 2 b' = usn"
    "\<forall>k<n. chunk (u + 2 + 2 * k) 2 b' = chunk (510 + 512 * k) 2 b1"
    "\<forall>i < sz. \<not> in_tails 510 n i \<longrightarrow> \<not> (u + 2 \<le> i \<and> i < u + 2 * (n + 1)) \<longrightarrow> b' ! i = b1 ! i"
    using mst_protect_spec [of u n 510 b1 usn] l lu len1 by (auto simp: u_def n_def)
  have low: "\<not> in_tails 510 n i" if "i < 510" for i
    using that in_tails_ge by fastforce
  have old: "chunk (510 + 512 * k) 2 b1 = chunk (510 + 512 * k) 2 b" if "k < n" for k
    using that l len1 by (intro chunk_eqI) (auto simp: nth1 u_def n_def)
  have usa: "chunk u 2 b' = usn"
  proof -
    have "chunk u 2 b' = chunk u 2 b1"
      using b' l low len1 by (intro chunk_eqI) (auto simp: u_def n_def)
    then show ?thesis
      using chunk_blit_same [of u usn b] l lu by (simp add: b1_def u_def)
  qed
  have frame: "b' ! i = b ! i" if "i < sz" "\<not> in_tails 510 n i"
      "\<not> (u \<le> i \<and> i < u + 2 * (n + 1))" for i
    using that b'(5) by (auto simp: nth1)
  have hdr: "\<And>i. 4 \<le> i \<Longrightarrow> i < 8 \<Longrightarrow> b' ! i = b ! i"
    using frame low l by (auto simp: u_def)
  note lay = mst_layout_cong [OF assms(1) b'(2) hdr]
  have "ntfs_mst_pre_write_fixup (Some b) sz = (Some b', None)"
    using l assms(2) b'(1)
    by (simp add: ntfs_mst_pre_write_fixup_def good_magic_def rd16_def NTFS_BLOCK_SIZE_def
        usn_def [unfolded get16_def] b1_def u_def n_def Let_def)
  then show ?thesis
    using b'(2,3,4) lay usa old frame unfolding u_def n_def by auto
qed

section \<open>Properties\<close>

lemma next_usn_range: "next_usn u < 65535" "0 < next_usn u"
proof -
  have "(u + 1) mod 65536 < 65536" by simp
  then show "next_usn u < 65535" "0 < next_usn u"
    unfolding next_usn_def Let_def by (auto split: if_splits)
qed

lemma next_usn_neq: "u < 65536 \<Longrightarrow> next_usn u \<noteq> u"
  by (cases "u = 65535") (auto simp: next_usn_def Let_def)

text \<open>The round trip of the fixups.\<close>

lemma mst_roundtrip:
  assumes "mst_layout b sz" "good_magic b"
  shows "\<exists>b' r. ntfs_mst_pre_write_fixup (Some b) sz = (Some b', None)
    \<and> ntfs_mst_post_read_fixup b' sz = (r, None)
    \<and> ntfs_mst_post_write_fixup b' = Some r \<and> length r = sz
    \<and> get16 r (usa_ofs b) = next_usn (get16 b (usa_ofs b))
    \<and> (\<forall>i < sz. \<not> (usa_ofs b \<le> i \<and> i < usa_ofs b + 2 * (usa_fixups b + 1)) \<longrightarrow> r ! i = b ! i)"
proof -
  define u n where "u = usa_ofs b" and "n = usa_fixups b"
  define usn where "usn = le_bytes 2 (next_usn (get16 b u))"
  note l = mst_layoutD [OF assms(1), folded u_def n_def]
  obtain b' where pre: "ntfs_mst_pre_write_fixup (Some b) sz = (Some b', None)"
    and b': "length b' = sz" "mst_layout b' sz" "usa_ofs b' = u" "usa_fixups b' = n"
      "chunk u 2 b' = usn" "\<And>k. k < n \<Longrightarrow> chunk (510 + 512 * k) 2 b' = usn"
      "\<And>k. k < n \<Longrightarrow> chunk (u + 2 + 2 * k) 2 b' = chunk (510 + 512 * k) 2 b"
      "\<And>i. i < sz \<Longrightarrow> \<not> in_tails 510 n i \<Longrightarrow> \<not> (u \<le> i \<and> i < u + 2 * (n + 1)) \<Longrightarrow> b' ! i = b ! i"
    using pre_write_spec [OF assms] unfolding u_def n_def usn_def by blast
  obtain r where r: "mst_restore b' u 510 n = Some r" "length r = sz"
      "\<And>k. k < n \<Longrightarrow> chunk (510 + 512 * k) 2 r = chunk (u + 2 + 2 * k) 2 b'"
      "\<And>i. i < sz \<Longrightarrow> \<not> in_tails 510 n i \<Longrightarrow> r ! i = b' ! i"
    using mst_restore_spec [of u n 510 b'] l b'(1) by auto
  have rd: "ntfs_mst_post_read_fixup b' sz = (r, None)"
    using post_read_cases [OF b'(2)] b' r(1) by simp
  have wr: "ntfs_mst_post_write_fixup b' = Some r"
    using r(1) b' l by (simp add: ntfs_mst_post_write_fixup_def NTFS_BLOCK_SIZE_def)
  have low: "\<not> in_tails 510 n i" if "i < 510" for i
    using that in_tails_ge by fastforce
  have "chunk u 2 r = chunk u 2 b'"
    using r l b'(1) low by (intro chunk_eqI) auto
  then have num: "get16 r u = next_usn (get16 b u)"
    using next_usn_range(1) [of "get16 b u"] b'(5)
    by (simp add: get16_def usn_def le_val_le_bytes)
  have "r ! i = b ! i" if i: "i < sz" "\<not> (u \<le> i \<and> i < u + 2 * (n + 1))" for i
  proof (cases "in_tails 510 n i")
    case False
    then show ?thesis using i r(4) b'(8) by simp
  next
    case True
    then obtain k where "k < n" "i = 510 + 512 * k + 0 \<or> i = 510 + 512 * k + 1"
      by (auto simp: in_tails_def)
    then obtain j where k: "k < n" "j < 2" "i = 510 + 512 * k + j"
      by (metis one_less_numeral_iff semiring_norm(76) zero_less_numeral)
    have "chunk (510 + 512 * k) 2 r ! j = chunk (510 + 512 * k) 2 b ! j"
      using k r(3) b'(7) by simp
    then show ?thesis
      using k i r(2) l(1) by (simp add: nth_chunk)
  qed
  then show ?thesis
    using pre rd wr r(2) num unfolding u_def n_def by auto
qed

text \<open>
  Round trip of the fixups: a record with its update sequence array in the first sector is
  protected without error, the protected image is read back (and deprotected after a write)
  without error, and what comes back is the record with nothing changed outside the update
  sequence array, its sequence number advanced to the next valid one.
\<close>

lemma mst_write_read_roundtrip:
  assumes "mst_layout b sz" "good_magic b"
  shows "\<exists>b' r. ntfs_mst_pre_write_fixup (Some b) sz = (Some b', None)
    \<and> ntfs_mst_post_read_fixup b' sz = (r, None)
    \<and> ntfs_mst_post_write_fixup b' = Some r \<and> length r = sz
    \<and> get16 r (usa_ofs b) = next_usn (get16 b (usa_ofs b))
    \<and> (\<forall>i < sz. \<not> (usa_ofs b \<le> i \<and> i < usa_ofs b + 2 * (usa_fixups b + 1)) \<longrightarrow> r ! i = b ! i)"
  using mst_roundtrip [OF assms] .

text \<open>Records of two sectors with the update sequence array at byte 8, for the witnesses.\<close>

definition demo_record :: "u8 \<Rightarrow> bytes" where
  "demo_record u = [0x46, 0x49, 0x4c, 0x45, 8, 0, 3, 0, u, 0] @ replicate 1014 5"

lemma demo_record_ok: "mst_layout (demo_record u) 1024" "good_magic (demo_record u)"
  "usa_ofs (demo_record u) = 8" "usa_fixups (demo_record u) = 2"
  "get16 (demo_record u) 8 = unat u"
  by (simp_all add: mst_layout_def mst_bad_header_def demo_record_def usa_ofs_def usa_fixups_def
      get16_def chunk_def NTFS_BLOCK_SIZE_def good_magic_def magic_BAAD_def magic_HOLE_def)

text \<open>
  C15. A torn write is detected: \<open>po\<close> is the image on disc, \<open>b\<close> the record in memory that still
  carries the sequence number of \<open>po\<close>, \<open>pn\<close> its protected image. If the first sector of \<open>pn\<close>
  reached the disc but some later sector \<open>k\<close> is still the one of \<open>po\<close>, reading the record fails
  with \<open>EIO\<close> and marks it \<open>BAAD\<close>, changing nothing else.
\<close>

theorem mst_torn_write_detected:
  assumes po: "mst_layout po sz" "chunk (510 + 512 * k) 2 po = chunk (usa_ofs po) 2 po"
    and b: "mst_layout b sz" "good_magic b" "get16 b (usa_ofs b) = get16 po (usa_ofs po)"
    and pn: "ntfs_mst_pre_write_fixup (Some b) sz = (Some pn, None)"
    and c: "length c = sz" "chunk 0 512 c = chunk 0 512 pn"
      "0 < k" "k < sz div 512" "chunk (512 * k) 512 c = chunk (512 * k) 512 po"
  shows "ntfs_mst_post_read_fixup c sz = (blit c 0 magic_BAAD, Some EIO)"
proof -
  define u where "u = usa_ofs b"
  define usn where "usn = le_bytes 2 (next_usn (get16 b u))"
  note lb = mst_layoutD [OF b(1), folded u_def] and lo = mst_layoutD [OF po(1)]
  have pn': "length pn = sz" "mst_layout pn sz" "usa_ofs pn = u" "chunk u 2 pn = usn"
    using pre_write_spec [OF b(1,2)] pn unfolding u_def usn_def by auto
  have k: "k < usa_fixups b"
    using c(4) lb by simp
  have first: "c ! i = pn ! i" if "i < 512" for i
    using arg_cong [OF c(2), of "\<lambda>xs. xs ! i"] that lb c(1) pn'(1) by (simp add: nth_chunk)
  have lay: "mst_layout c sz" "usa_ofs c = u" "usa_fixups c = usa_fixups pn"
    using mst_layout_cong [OF pn'(2) c(1)] first pn'(3) by auto
  have "usa_fixups c = usa_fixups b"
    using mst_layoutD(6) [OF lay(1)] lb by simp
  moreover have "chunk u 2 c = usn"
    using pn' first lb c(1) chunk_eqI [of u 2 c u pn] by auto
  moreover have "chunk (510 + 512 * k) 2 c = chunk (510 + 512 * k) 2 po"
    using arg_cong [OF c(5), of "chunk 510 2"] by (simp add: chunk_chunk ac_simps)
  moreover have "usn \<noteq> chunk (usa_ofs po) 2 po"
  proof
    assume "usn = chunk (usa_ofs po) 2 po"
    then have "next_usn (get16 b u) mod 65536 = get16 b u"
      using b(3) le_val_le_bytes [of 2 "next_usn (get16 b u)"]
      by (simp add: get16_def usn_def u_def)
    then show False
      using next_usn_neq [OF get16_lt] next_usn_range(1) [of "get16 b u"] by simp
  qed
  ultimately show ?thesis
    using post_read_cases [OF lay(1)] lay(2) po(2) k by auto
qed

lemma all_less_2: "(\<forall>k<2. P k) \<longleftrightarrow> P 0 \<and> P (1 :: nat)"
  by (auto simp: less_2_cases_iff)

theorem mst_torn_write_detected_witness:
  "\<exists>po pn c. ntfs_mst_pre_write_fixup (Some (demo_record 7)) 1024 = (Some po, None)
    \<and> ntfs_mst_pre_write_fixup (Some (demo_record 8)) 1024 = (Some pn, None)
    \<and> c = chunk 0 512 pn @ chunk 512 512 po
    \<and> ntfs_mst_post_read_fixup c 1024 = (blit c 0 magic_BAAD, Some EIO)"
proof -
  let ?usn = "le_bytes 2 (next_usn 7)"
  obtain po where po: "ntfs_mst_pre_write_fixup (Some (demo_record 7)) 1024 = (Some po, None)"
    "mst_layout po 1024" "length po = 1024" "usa_ofs po = 8" "chunk 8 2 po = ?usn"
    "chunk 1022 2 po = ?usn"
    using pre_write_spec [OF demo_record_ok(1,2), of 7] demo_record_ok(3,4,5) [of 7]
    by (auto simp: all_less_2)
  obtain pn where pn: "ntfs_mst_pre_write_fixup (Some (demo_record 8)) 1024 = (Some pn, None)"
    "length pn = 1024"
    using pre_write_spec [OF demo_record_ok(1,2), of 8] by auto
  define c where "c = chunk 0 512 pn @ chunk 512 512 po"
  have "get16 po (usa_ofs po) = 8"
    using po(4,5) by (simp add: get16_def next_usn_def le_val_le_bytes)
  moreover have "length c = 1024" "chunk 0 512 c = chunk 0 512 pn"
      "chunk 512 512 c = chunk 512 512 po"
    using po(3) pn(2) by (auto simp: c_def chunk_append1 chunk_append2 chunk_full)
  ultimately have "ntfs_mst_post_read_fixup c 1024 = (blit c 0 magic_BAAD, Some EIO)"
    using mst_torn_write_detected [OF po(2) _ demo_record_ok(1,2) _ pn(1), where k = 1]
      po demo_record_ok(3,5) [of 8] by simp
  then show ?thesis
    using po(1) pn(1) c_def by blast
qed

text \<open>
  The size check of the fixups does not cover the last entry of the update sequence array
  (it compares \<open>usa_ofs + 2 * fixups\<close> where the array ends two bytes later): there is a 512-byte
  record that passes every check and whose fixup reads the two bytes behind the buffer.
\<close>

lemma mst_header_check_admits_overrun:
  "\<exists>b. length b = 512 \<and> \<not> mst_bad_header b 512
    \<and> ntfs_mst_post_read_fixup b 512 = (b, Some FAULT)"
proof -
  define b :: bytes where "b = [0x46, 0x49, 0x4c, 0x45, 254, 1, 2, 0] @ replicate 504 0"
  have len: "length b = 512"
    by (simp add: b_def)
  have hdr: "usa_ofs b = 510" "usa_fixups b = 1"
    by (simp_all add: usa_ofs_def usa_fixups_def get16_def chunk_def b_def)
  have ok: "\<not> mst_bad_header b 512"
    unfolding mst_bad_header_def hdr by (simp add: NTFS_BLOCK_SIZE_def)
  have "mst_check b (chunk 510 2 b) 510 1 = Some True"
    using mst_check_eq [of 1 510 b "chunk 510 2 b"] len by simp
  moreover have "mst_restore b 510 510 1 = None"
    using len by (simp add: rd16_def)
  ultimately have "ntfs_mst_post_read_fixup b 512 = (b, Some FAULT)"
    using hdr ok len by (simp add: ntfs_mst_post_read_fixup_def
        ntfs_mst_post_read_fixup_warn_def rd16_def NTFS_BLOCK_SIZE_def)
  then show ?thesis
    using len ok by blast
qed

end
