(* ===== verification/IndexNode.thy ===== *)
theory IndexNode
  imports Collate Mst
begin

text \<open>
  The nodes of an index, from \<open>libntfs_ext/source/index.c\<close>: the walk over the entries of a node, the lookup of a key in it, insertion and
  removal of entries. A pointer is an offset into the buffer that holds the node: the
  \<open>INDEX_HEADER\<close> of an \<open>INDEX_BLOCK\<close> is at 24, that of an \<open>INDEX_ROOT\<close> 16 behind the root. \<open>None\<close> is an access outside the buffer, or a loop that does not end.
\<close>

section \<open>Entries\<close>

definition INDEX_ENTRY_NODE :: nat where "INDEX_ENTRY_NODE = 1"
definition INDEX_ENTRY_END :: nat where "INDEX_ENTRY_END = 2"
definition magic_INDX :: nat where "magic_INDX = 0x58444e49"

text \<open>The fields of an \<open>INDEX_ENTRY\<close> and an \<open>INDEX_HEADER\<close> used here.\<close>

definition ie_length :: "bytes \<Rightarrow> nat \<Rightarrow> nat option" where "ie_length b ie = fetch16 b (ie + 8)"
definition ie_key_length :: "bytes \<Rightarrow> nat \<Rightarrow> nat option" where "ie_key_length b ie = fetch16 b (ie + 10)"
definition ie_flags :: "bytes \<Rightarrow> nat \<Rightarrow> nat option" where "ie_flags b ie = fetch16 b (ie + 12)"
definition entries_offset :: "bytes \<Rightarrow> nat \<Rightarrow> nat option" where "entries_offset b ih = fetch32 b ih"
definition index_length :: "bytes \<Rightarrow> nat \<Rightarrow> nat option" where "index_length b ih = fetch32 b (ih + 4)"

definition set_index_length :: "bytes \<Rightarrow> nat \<Rightarrow> nat \<Rightarrow> bytes option" where
  "set_index_length b ih n = mem_put b (ih + 4) (le_bytes 4 n)"

definition ntfs_ie_get_vcn_addr :: "bytes \<Rightarrow> nat \<Rightarrow> nat option" where
  "ntfs_ie_get_vcn_addr b ie = do { l \<leftarrow> ie_length b ie; if ie + l < 8 then None else Some (ie + l - 8) }"

definition ntfs_ie_get_vcn :: "bytes \<Rightarrow> nat \<Rightarrow> int option" where
  "ntfs_ie_get_vcn b ie = do { a \<leftarrow> ntfs_ie_get_vcn_addr b ie; map_option (\<lambda>v. s64 (int v)) (fetch64 b a) }"

definition ntfs_ie_set_vcn :: "bytes \<Rightarrow> nat \<Rightarrow> int \<Rightarrow> bytes option" where
  "ntfs_ie_set_vcn b ie vcn = do { a \<leftarrow> ntfs_ie_get_vcn_addr b ie; mem_put b a (le_bytes 8 (nat (vcn mod 2 ^ 64))) }"

definition ntfs_ie_get_first :: "bytes \<Rightarrow> nat \<Rightarrow> nat option" where
  "ntfs_ie_get_first b ih = map_option (\<lambda>n. ih + n) (entries_offset b ih)"

definition ntfs_ie_get_next :: "bytes \<Rightarrow> nat \<Rightarrow> nat option" where
  "ntfs_ie_get_next b ie = map_option (\<lambda>n. ie + n) (ie_length b ie)"

definition ntfs_ie_get_end :: "bytes \<Rightarrow> nat \<Rightarrow> nat option" where
  "ntfs_ie_get_end b ih = map_option (\<lambda>n. ih + n) (index_length b ih)"

definition ntfs_ie_end :: "bytes \<Rightarrow> nat \<Rightarrow> bool option" where
  "ntfs_ie_end b ie = do {
     f \<leftarrow> ie_flags b ie;
     if (f AND INDEX_ENTRY_END) \<noteq> 0 then Some True else map_option (\<lambda>l. l = 0) (ie_length b ie) }"

lemma ie_next_less: "ntfs_ie_end b ie = Some False \<Longrightarrow> ntfs_ie_get_next b ie = Some ie' \<Longrightarrow> ie < ie'"
  by (auto simp: ntfs_ie_end_def ntfs_ie_get_next_def bind_eq_Some_conv split: if_splits)

function ntfs_ie_get_last :: "bytes \<Rightarrow> nat \<Rightarrow> nat \<Rightarrow> nat option" where
  "ntfs_ie_get_last b ie ies_end =
     (if ie < ies_end then do {
        e \<leftarrow> ntfs_ie_end b ie;
        if e then Some ie else do { ie' \<leftarrow> ntfs_ie_get_next b ie; ntfs_ie_get_last b ie' ies_end } }
      else Some ie)"
  by pat_completeness auto
termination
  by (relation "measure (\<lambda>(b, ie, ies_end). ies_end - ie)") (auto dest: ie_next_less)

declare ntfs_ie_get_last.simps [simp del]

primrec get_by_pos :: "bytes \<Rightarrow> nat \<Rightarrow> nat \<Rightarrow> nat option" where
  "get_by_pos b 0 ie = Some ie"
| "get_by_pos b (Suc pos) ie = do { ie \<leftarrow> ntfs_ie_get_next b ie; get_by_pos b pos ie }"

definition ntfs_ie_get_by_pos :: "bytes \<Rightarrow> nat \<Rightarrow> nat \<Rightarrow> nat option" where
  "ntfs_ie_get_by_pos b ih pos = do { ie \<leftarrow> ntfs_ie_get_first b ih; get_by_pos b pos ie }"

text \<open>An entry of no length would make the loop of \<open>ntfs_ie_prev\<close> stand still.\<close>

lemma ie_next_bound: "ntfs_ie_get_next b ie = Some ie' \<Longrightarrow> ie + 10 \<le> length b"
  by (auto simp: ntfs_ie_get_next_def ie_length_def fetch16_def mem_get_def split: if_splits)

function prev_loop :: "bytes \<Rightarrow> nat \<Rightarrow> nat \<Rightarrow> nat option \<Rightarrow> nat option option" where
  "prev_loop b ie tmp ie_prev =
     (if tmp = ie then Some ie_prev
      else do { tmp' \<leftarrow> ntfs_ie_get_next b tmp; if tmp' \<le> tmp then None else prev_loop b ie tmp' (Some tmp) })"
  by pat_completeness auto
termination
  by (relation "measure (\<lambda>(b, ie, tmp, ie_prev). length b - tmp)") (auto dest: ie_next_bound)

declare prev_loop.simps [simp del]

definition ntfs_ie_prev :: "bytes \<Rightarrow> nat \<Rightarrow> nat \<Rightarrow> nat option option" where
  "ntfs_ie_prev b ih ie = do { tmp \<leftarrow> ntfs_ie_get_first b ih; prev_loop b ie tmp None }"

function count_loop :: "bytes \<Rightarrow> nat \<Rightarrow> nat \<Rightarrow> nat \<Rightarrow> nat option" where
  "count_loop b e ie n = do {
     last \<leftarrow> ntfs_ie_end b ie;
     if \<not> last \<and> ie < e then do { ie' \<leftarrow> ntfs_ie_get_next b ie; count_loop b e ie' (n + 1) } else Some n }"
  by pat_completeness auto
termination
  by (relation "measure (\<lambda>(b, e, ie, n). e - ie)") (auto dest: ie_next_less)

declare count_loop.simps [simp del]

definition ntfs_ih_numof_entries :: "bytes \<Rightarrow> nat \<Rightarrow> nat option" where
  "ntfs_ih_numof_entries b ih = do { e \<leftarrow> ntfs_ie_get_end b ih; ie \<leftarrow> ntfs_ie_get_first b ih; count_loop b e ie 0 }"

definition ntfs_ih_one_entry :: "bytes \<Rightarrow> nat \<Rightarrow> bool option" where
  "ntfs_ih_one_entry b ih = map_option (\<lambda>n. n = 1) (ntfs_ih_numof_entries b ih)"

definition ntfs_ih_zero_entry :: "bytes \<Rightarrow> nat \<Rightarrow> bool option" where
  "ntfs_ih_zero_entry b ih = map_option (\<lambda>n. n = 0) (ntfs_ih_numof_entries b ih)"

text \<open>\<open>memmove(to, from, n)\<close> with a count that is negative when the pointers are wrong.\<close>

definition mem_move :: "bytes \<Rightarrow> nat \<Rightarrow> nat \<Rightarrow> int \<Rightarrow> bytes option" where
  "mem_move b to from n = (if n < 0 then None else do { x \<leftarrow> mem_get b from (nat n); mem_put b to x })"

definition ntfs_ie_delete :: "bytes \<Rightarrow> nat \<Rightarrow> nat \<Rightarrow> bytes option" where
  "ntfs_ie_delete b ih ie = do {
     il \<leftarrow> index_length b ih;
     l \<leftarrow> ie_length b ie;
     let new_size = u32i (int il - int l);
     b \<leftarrow> set_index_length b ih new_size;
     l \<leftarrow> ie_length b ie;
     mem_move b ie (ie + l) (int new_size - (int ie - int ih)) }"

text \<open>The new entry \<open>ie\<close> is in memory of its own.\<close>

definition ntfs_ie_insert :: "bytes \<Rightarrow> nat \<Rightarrow> bytes \<Rightarrow> nat \<Rightarrow> bytes option" where
  "ntfs_ie_insert b ih ie pos = do {
     ie_size \<leftarrow> ie_length ie 0;
     il \<leftarrow> index_length b ih;
     b \<leftarrow> set_index_length b ih (u32 (il + ie_size));
     b \<leftarrow> mem_move b (pos + ie_size) pos (int (u32 (il + ie_size)) - (int pos - int ih) - int ie_size);
     x \<leftarrow> mem_get ie 0 ie_size;
     mem_put b pos x }"

text \<open>Copies of an entry; \<open>Some None\<close> when there is no memory.\<close>

definition ntfs_ie_dup :: "bool \<Rightarrow> bytes \<Rightarrow> nat \<Rightarrow> bytes option option" where
  "ntfs_ie_dup room b ie = do {
     l \<leftarrow> ie_length b ie;
     if room then map_option Some (mem_get b ie l) else Some None }"

definition ntfs_ie_dup_novcn :: "bool \<Rightarrow> bytes \<Rightarrow> nat \<Rightarrow> bytes option option" where
  "ntfs_ie_dup_novcn room b ie = do {
     l \<leftarrow> ie_length b ie;
     f \<leftarrow> ie_flags b ie;
     let size = int l - (if (f AND INDEX_ENTRY_NODE) \<noteq> 0 then 8 else 0);
     if size < 0 then None
     else if room then do {
       dup \<leftarrow> mem_get b ie (nat size);
       f \<leftarrow> ie_flags dup 0;
       dup \<leftarrow> mem_put dup 12 (le_bytes 2 (f AND 0xfffe));
       dup \<leftarrow> mem_put dup 8 (le_bytes 2 (nat size));
       Some (Some dup) }
     else Some None }"

text \<open>\<open>realloc\<close> adds \<open>junk\<close> to the memory of the copy.\<close>

definition ntfs_ie_add_vcn :: "bool \<Rightarrow> u8 \<Rightarrow> bytes \<Rightarrow> bytes option option" where
  "ntfs_ie_add_vcn room junk old = do {
     l \<leftarrow> ie_length old 0;
     let n = (l + 8) mod 65536;
     old \<leftarrow> mem_put old 8 (le_bytes 2 n);
     if room then do {
       let p = take n (old @ replicate (n - length old) junk);
       f \<leftarrow> ie_flags p 0;
       p \<leftarrow> mem_put p 12 (le_bytes 2 (f OR INDEX_ENTRY_NODE));
       Some (Some p) }
     else Some None }"

section \<open>Lookup\<close>

text \<open>What \<open>ntfs_ie_lookup\<close> returns: the entry and its number, the entry before which the key belongs, the block to search next and the number of the
  entry that leads there, or an error. \<open>collate\<close> is the collation function of the index, if it has one; its second key is the memory from the key of the entry on.\<close>

datatype lookup = Found nat nat | NotFound nat | KeepSearching int nat | LookupError errno

type_synonym collate = "bytes \<Rightarrow> nat \<Rightarrow> bytes \<Rightarrow> nat \<Rightarrow> int option"

text \<open>The loop stops at an entry, with its number, or with the result.\<close>

function lookup_loop :: "collate option \<Rightarrow> bytes \<Rightarrow> nat \<Rightarrow> bytes \<Rightarrow> nat \<Rightarrow> nat \<Rightarrow> nat \<Rightarrow> (lookup + nat \<times> nat) option" where
  "lookup_loop collate key key_len b index_end ie item =
     (if ie + 16 > index_end then Some (Inl (LookupError ERANGE))
      else do {
        l \<leftarrow> ie_length b ie;
        if ie + l > index_end then Some (Inl (LookupError ERANGE))
        else do {
          last \<leftarrow> ntfs_ie_end b ie;
          if last then Some (Inr (ie, item))
          else case collate of None \<Rightarrow> Some (Inl (LookupError EOPNOTSUPP))
            | Some col \<Rightarrow> do {
                kl \<leftarrow> ie_key_length b ie;
                rc \<leftarrow> col key key_len (drop (ie + 16) b) kl;
                if rc = NTFS_COLLATION_ERROR then Some (Inl (LookupError ERANGE))
                else if rc = - 1 then Some (Inr (ie, item))
                else if rc = 0 then Some (Inl (Found ie item))
                else do { ie' \<leftarrow> ntfs_ie_get_next b ie; lookup_loop collate key key_len b index_end ie' (item + 1) } } } })"
  by pat_completeness auto
termination
  by (relation "measure (\<lambda>(collate, key, key_len, b, index_end, ie, item). index_end - ie)") (auto dest: ie_next_less)

declare lookup_loop.simps [simp del]

definition ntfs_ie_lookup :: "collate option \<Rightarrow> bytes \<Rightarrow> nat \<Rightarrow> bytes \<Rightarrow> nat \<Rightarrow> lookup option" where
  "ntfs_ie_lookup collate key key_len b ih = do {
     index_end \<leftarrow> ntfs_ie_get_end b ih;
     ie \<leftarrow> ntfs_ie_get_first b ih;
     r \<leftarrow> lookup_loop collate key key_len b index_end ie 0;
     case r of Inl r \<Rightarrow> Some r
     | Inr (ie, item) \<Rightarrow> do {
         f \<leftarrow> ie_flags b ie;
         if (f AND INDEX_ENTRY_NODE) = 0 then Some (NotFound ie)
         else do {
           vcn \<leftarrow> ntfs_ie_get_vcn b ie;
           Some (if vcn < 0 then LookupError EINVAL else KeepSearching vcn item) } } }"

section \<open>Blocks\<close>

definition ntfs_ia_check :: "nat \<Rightarrow> bytes \<Rightarrow> int \<Rightarrow> bool option" where
  "ntfs_ia_check block_size ib vcn = do {
     asz \<leftarrow> fetch32 ib 32;
     magic \<leftarrow> fetch32 ib 0;
     if magic \<noteq> magic_INDX then Some False
     else do { v \<leftarrow> fetch64 ib 16; Some (s64 (int v) = vcn \<and> u32 (asz + 0x18) = block_size) } }"

text \<open>The first loop of \<open>ntfs_ie_get_median\<close>.\<close>

function median_loop :: "bytes \<Rightarrow> nat \<Rightarrow> nat \<Rightarrow> nat \<Rightarrow> nat option" where
  "median_loop b ie_end ie i =
     (if ie < ie_end then do {
        last \<leftarrow> ntfs_ie_end b ie;
        if last then Some i else do { ie' \<leftarrow> ntfs_ie_get_next b ie; median_loop b ie_end ie' (i + 1) } }
      else Some i)"
  by pat_completeness auto
termination
  by (relation "measure (\<lambda>(b, ie_end, ie, i). ie_end - ie)") (auto dest: ie_next_less)

declare median_loop.simps [simp del]

definition ntfs_ie_get_median :: "bytes \<Rightarrow> nat \<Rightarrow> nat option" where
  "ntfs_ie_get_median b ih = do {
     ie_start \<leftarrow> ntfs_ie_get_first b ih;
     ie_end \<leftarrow> ntfs_ie_get_end b ih;
     i \<leftarrow> median_loop b ie_end ie_start 0;
     get_by_pos b (i div 2) ie_start }"

section \<open>Nodes as lists of entries\<close>

text \<open>An entry is the list of its bytes; the last entry of a node has no key.\<close>

definition is_node :: "bytes \<Rightarrow> bool" where "is_node e \<longleftrightarrow> (get16 e 12 AND INDEX_ENTRY_NODE) \<noteq> 0"
definition is_last :: "bytes \<Rightarrow> bool" where "is_last e \<longleftrightarrow> (get16 e 12 AND INDEX_ENTRY_END) \<noteq> 0"
definition ie_vcn :: "bytes \<Rightarrow> int" where "ie_vcn e = s64 (int (get64 e (length e - 8)))"
definition ie_key :: "bytes \<Rightarrow> bytes" where "ie_key e = chunk 16 (get16 e 10) e"

definition entry_ok :: "bytes \<Rightarrow> bool" where
  "entry_ok e \<longleftrightarrow> 16 \<le> length e \<and> length e < 65536 \<and> get16 e 8 = length e \<and> (is_node e \<longrightarrow> 24 \<le> length e)"

definition key_entry :: "bytes \<Rightarrow> bool" where
  "key_entry e \<longleftrightarrow> entry_ok e \<and> \<not> is_last e \<and> 16 + get16 e 10 + (if is_node e then 8 else 0) \<le> length e"

text \<open>The buffer holds a node with the entries \<open>es\<close> and the last entry \<open>t\<close>; the header is at \<open>ih\<close>, the first entry \<open>eo\<close> behind it.\<close>

definition entries :: "bytes list \<Rightarrow> bytes \<Rightarrow> bool" where
  "entries es t \<longleftrightarrow> (\<forall>e \<in> set es. entry_ok e \<and> \<not> is_last e) \<and> entry_ok t \<and> is_last t"

definition node_at :: "bytes \<Rightarrow> nat \<Rightarrow> nat \<Rightarrow> bytes list \<Rightarrow> bytes \<Rightarrow> bool" where
  "node_at b ih eo es t \<longleftrightarrow> 16 \<le> eo \<and> eo + length (concat es @ t) < 2 ^ 32 \<and> entries es t
     \<and> lies_at b ih (le_bytes 4 eo) \<and> lies_at b (ih + 4) (le_bytes 4 (eo + length (concat es @ t))) \<and> lies_at b (ih + eo) (concat es @ t)"

lemma lies_part: "lies_at b i e \<Longrightarrow> j + n \<le> length e \<Longrightarrow> mem_get b (i + j) n = Some (chunk j n e)"
  by (auto simp: lies_at_def mem_get_def) (metis chunk_chunk)

lemma fetch_lies:
  assumes "lies_at b i e"
  shows "j + 2 \<le> length e \<Longrightarrow> fetch16 b (i + j) = Some (get16 e j)"
    and "j + 8 \<le> length e \<Longrightarrow> fetch64 b (i + j) = Some (get64 e j)"
  using lies_part [OF assms] by (simp_all add: fetch16_def fetch64_def get16_def get64_def)

lemma fetch32_lies: "lies_at b i (le_bytes 4 v) \<Longrightarrow> v < 2 ^ 32 \<Longrightarrow> fetch32 b i = Some v"
  using lies_part [of b i "le_bytes 4 v" 0 4] by (simp add: fetch32_def le_val_le_bytes chunk_full)

lemma entry_fields:
  assumes "lies_at b p e" "entry_ok e"
  shows "ie_length b p = Some (length e)" "ie_key_length b p = Some (get16 e 10)" "ie_flags b p = Some (get16 e 12)"
    "ntfs_ie_end b p = Some (is_last e)" "ntfs_ie_get_next b p = Some (p + length e)"
  using fetch_lies(1) [OF assms(1)] assms(2)
  by (auto simp: ie_length_def ie_key_length_def ie_flags_def ntfs_ie_end_def ntfs_ie_get_next_def is_last_def entry_ok_def)

lemma entry_vcn:
  assumes "lies_at b p e" "entry_ok e" "is_node e"
  shows "ntfs_ie_get_vcn_addr b p = Some (p + (length e - 8))" "ntfs_ie_get_vcn b p = Some (ie_vcn e)"
proof -
  have "24 \<le> length e" using assms(2,3) by (simp add: entry_ok_def)
  then show a: "ntfs_ie_get_vcn_addr b p = Some (p + (length e - 8))"
    by (simp add: ntfs_ie_get_vcn_addr_def entry_fields(1) [OF assms(1,2)])
  show "ntfs_ie_get_vcn b p = Some (ie_vcn e)"
    using \<open>24 \<le> length e\<close> fetch_lies(2) [OF assms(1), of "length e - 8"] by (simp add: ntfs_ie_get_vcn_def a ie_vcn_def)
qed

lemma node_header:
  assumes "node_at b ih eo es t"
  shows "entries_offset b ih = Some eo" "index_length b ih = Some (eo + length (concat es @ t))"
    "ntfs_ie_get_first b ih = Some (ih + eo)" "ntfs_ie_get_end b ih = Some (ih + (eo + length (concat es @ t)))"
  using assms fetch32_lies [of b ih eo] fetch32_lies [of b "ih + 4" "eo + length (concat es @ t)"]
  by (simp_all add: node_at_def entries_offset_def index_length_def ntfs_ie_get_first_def ntfs_ie_get_end_def)

text \<open>Walks over entries.\<close>

lemma entries_Cons [simp]: "entries (e # es) t \<longleftrightarrow> entry_ok e \<and> \<not> is_last e \<and> entries es t"
  by (auto simp: entries_def)

lemma entries_append: "entries (es @ es') t \<longleftrightarrow> (\<forall>e \<in> set es. entry_ok e \<and> \<not> is_last e) \<and> entries es' t"
  by (auto simp: entries_def)

lemma entries_last: "entries es t \<Longrightarrow> entry_ok t \<and> is_last t"
  by (simp add: entries_def)

lemma get_by_pos_ok:
  "lies_at b p (concat es @ t) \<Longrightarrow> entries es t \<Longrightarrow> i \<le> length es \<Longrightarrow> get_by_pos b i p = Some (p + length (concat (take i es)))"
proof (induction es arbitrary: p i)
  case (Cons e es)
  then show ?case using entry_fields(5) [of b p e] by (cases i) (simp_all add: add.assoc)
qed simp

lemma get_last_ok:
  "lies_at b p (concat es @ t) \<Longrightarrow> entries es t \<Longrightarrow> p + length (concat es @ t) \<le> ee \<Longrightarrow>
   ntfs_ie_get_last b p ee = Some (p + length (concat es))"
proof (induction es arbitrary: p)
  case Nil
  then have "p < ee" by (auto simp: entries_def entry_ok_def)
  then show ?case using Nil entry_fields(4) [of b p t] by (subst ntfs_ie_get_last.simps) (simp add: entries_def)
next
  case (Cons e es)
  then have "p < ee" by (auto simp: entry_ok_def)
  then show ?case using Cons entry_fields(4,5) [of b p e] by (subst ntfs_ie_get_last.simps) (simp add: add.assoc)
qed

lemma median_loop_ok:
  "lies_at b p (concat es @ t) \<Longrightarrow> entries es t \<Longrightarrow> p + length (concat es @ t) \<le> ee \<Longrightarrow>
   median_loop b ee p n = Some (n + length es)"
proof (induction es arbitrary: p n)
  case Nil
  then have "p < ee" by (auto simp: entries_def entry_ok_def)
  then show ?case using Nil entry_fields(4) [of b p t] by (subst median_loop.simps) (simp add: entries_def)
next
  case (Cons e es)
  then have "p < ee" by (auto simp: entry_ok_def)
  then show ?case using Cons entry_fields(4,5) [of b p e] by (subst median_loop.simps) (simp add: add.assoc)
qed

lemma count_loop_ok:
  "lies_at b p (concat es @ t) \<Longrightarrow> entries es t \<Longrightarrow> p + length (concat es @ t) \<le> ee \<Longrightarrow>
   count_loop b ee p n = Some (n + length es)"
proof (induction es arbitrary: p n)
  case Nil
  then show ?case using entry_fields(4) [of b p t] by (subst count_loop.simps) (simp add: entries_def)
next
  case (Cons e es)
  then have "p < ee" by (auto simp: entry_ok_def)
  then show ?case using Cons entry_fields(4,5) [of b p e] by (subst count_loop.simps) (simp add: add.assoc)
qed

lemma numof_entries_ok: "node_at b ih eo es t \<Longrightarrow> ntfs_ih_numof_entries b ih = Some (length es)"
  using count_loop_ok [of b "ih + eo" es t "ih + (eo + length (concat es @ t))" 0] node_header [of b ih eo es t]
  by (simp add: ntfs_ih_numof_entries_def node_at_def add.assoc)

text \<open>The offset of an entry by its number.\<close>

definition entry_pos :: "nat \<Rightarrow> nat \<Rightarrow> bytes list \<Rightarrow> nat \<Rightarrow> nat" where
  "entry_pos ih eo es i = ih + eo + length (concat (take i es))"

lemma entry_pos_append [simp]: "entry_pos ih eo (es @ es') (length es) = ih + eo + length (concat es)"
  by (simp add: entry_pos_def)

lemma node_split:
  assumes "node_at b ih eo (es @ es') t"
  shows "lies_at b (ih + eo) (concat es)" "lies_at b (ih + eo + length (concat es)) (concat es' @ t)"
  using assms by (simp_all add: node_at_def add.assoc)

lemma ie_get_by_pos_ok: "node_at b ih eo es t \<Longrightarrow> i \<le> length es \<Longrightarrow> ntfs_ie_get_by_pos b ih i = Some (entry_pos ih eo es i)"
  using get_by_pos_ok [of b "ih + eo" es t i] by (simp add: ntfs_ie_get_by_pos_def node_header node_at_def entry_pos_def)

lemma prev_loop_ok:
  "lies_at b p (concat es @ e @ r) \<Longrightarrow> entries (es @ [e]) t \<Longrightarrow>
   prev_loop b (p + length (concat es) + length e) p q = Some (Some (p + length (concat es)))"
proof (induction es arbitrary: p q)
  case Nil
  then have "length e \<noteq> 0" by (auto simp: entry_ok_def)
  then show ?case using Nil entry_fields(5) [of b p e]
    by (subst prev_loop.simps) (simp, subst prev_loop.simps, simp)
next
  case (Cons x es)
  have e: "e \<noteq> []" "x \<noteq> []" using Cons.prems by (auto simp: entry_ok_def entries_append)
  have "ntfs_ie_get_next b p = Some (p + length x)" using Cons.prems entry_fields(5) [of b p x] by simp
  then show ?case using Cons.IH [of "p + length x" "Some p"] Cons.prems e by (subst prev_loop.simps) (simp add: add.assoc)
qed

section \<open>Insertion and removal\<close>

lemma put_index_length:
  assumes "lies_at b (ih + 4) (le_bytes 4 v)"
  shows "set_index_length b ih n = Some (blit b (ih + 4) (le_bytes 4 n))" "length (blit b (ih + 4) (le_bytes 4 n)) = length b"
  using lies_at_mono [OF assms] by (simp_all add: set_index_length_def mem_put_def)

lemma mem_move_ok:
  assumes "lies_at b from xs" "to + length xs \<le> length b" "n = int (length xs)"
  shows "mem_move b to from n = Some (blit b to xs)"
  using assms by (simp add: mem_move_def mem_put_def)

lemma ie_insert_ok:
  assumes node: "node_at b ih eo (es @ es') t" and e: "entry_ok e" "\<not> is_last e"
    and room: "ih + eo + length (concat (es @ e # es') @ t) \<le> length b" "eo + length (concat (es @ e # es') @ t) < 2 ^ 32"
    and pos: "pos = ih + eo + length (concat es)"
  shows "\<exists>b'. ntfs_ie_insert b ih e pos = Some b' \<and> node_at b' ih eo (es @ e # es') t \<and> length b' = length b
    \<and> (\<forall>i. i < ih \<or> ih + 8 \<le> i \<and> i < ih + eo \<or> ih + eo + length (concat (es @ e # es') @ t) \<le> i \<longrightarrow> i < length b \<longrightarrow> b' ! i = b ! i)"
proof -
  let ?n = "eo + length (concat (es @ es') @ t)" and ?tail = "concat es' @ t" and ?l = "length e"
  define b1 where "b1 = blit b (ih + 4) (le_bytes 4 (?n + ?l))"
  define b2 where "b2 = blit b1 (pos + ?l) ?tail"
  define b3 where "b3 = blit b2 pos e"
  have h: "16 \<le> eo" "lies_at b ih (le_bytes 4 eo)" "lies_at b (ih + 4) (le_bytes 4 ?n)" "lies_at b (ih + eo) (concat es)" "lies_at b pos ?tail"
    using node node_split [OF node] by (simp_all add: node_at_def pos)
  have el: "ie_length e 0 = Some ?l" using e fetch_lies(1) [of e 0 e 8] by (simp add: ie_length_def entry_ok_def lies_at_def chunk_full)
  have l1: "length b1 = length b" and i1: "set_index_length b ih (?n + ?l) = Some b1" unfolding b1_def using put_index_length [OF h(3)] by simp_all
  have end_ok: "pos + ?l + length ?tail \<le> length b" using room pos by simp
  have l2: "length b2 = length b" and l3: "length b3 = length b" unfolding b2_def b3_def using end_ok l1 by simp_all
  have t1: "lies_at b1 pos ?tail" unfolding b1_def using h lies_at_mono [OF h(3)] pos by (intro lies_at_blit_other) simp_all
  have m: "mem_move b1 (pos + ?l) pos (int (?n + ?l) - (int pos - int ih) - int ?l) = Some b2"
    unfolding b2_def using t1 end_ok l1 pos by (intro mem_move_ok) simp_all
  have u: "u32 (?n + ?l) = ?n + ?l" using room by (intro u32_id) simp
  have res: "ntfs_ie_insert b ih e pos = Some b3"
    using end_ok l2 m i1 unfolding ntfs_ie_insert_def b3_def
    by (simp only: el bind.bind_lunit node_header(2) [OF node] u) (simp add: mem_get_def chunk_full mem_put_def)
  have "lies_at b3 ih (le_bytes 4 eo)" "lies_at b3 (ih + eo) (concat es)" "lies_at b3 (ih + 4) (le_bytes 4 (?n + ?l))"
    unfolding b3_def b2_def b1_def using h lies_at_mono [OF h(3)] end_ok pos
    by (auto intro!: lies_at_blit_other lies_at_blit)
  moreover have "lies_at b3 pos e" unfolding b3_def using end_ok l2 by (intro lies_at_blit) simp
  moreover have "lies_at b3 (pos + ?l) ?tail"
    unfolding b3_def b2_def using end_ok l1 by (intro lies_at_blit_other lies_at_blit) simp_all
  moreover have "?n + ?l = eo + length (concat (es @ e # es') @ t)" by simp
  moreover have "entries (es @ e # es') t" using node e by (simp add: node_at_def entries_append)
  ultimately have "node_at b3 ih eo (es @ e # es') t"
    using h(1) room(2) unfolding node_at_def by (simp add: pos add_ac)
  moreover have "b3 ! i = b ! i"
    if "i < ih \<or> ih + 8 \<le> i \<and> i < ih + eo \<or> ih + eo + length (concat (es @ e # es') @ t) \<le> i" "i < length b" for i
    unfolding b3_def b2_def b1_def using that h(1) lies_at_mono [OF h(3)] end_ok pos by (auto simp: nth_blit)
  ultimately show ?thesis using res l3 by blast
qed

lemma ie_delete_ok:
  assumes node: "node_at b ih eo (es @ e # es') t" and pos: "pos = ih + eo + length (concat es)"
  shows "\<exists>b'. ntfs_ie_delete b ih pos = Some b' \<and> node_at b' ih eo (es @ es') t \<and> length b' = length b
    \<and> (\<forall>i. i < ih \<or> ih + 8 \<le> i \<and> i < ih + eo \<or> ih + eo + length (concat (es @ e # es') @ t) \<le> i \<longrightarrow> i < length b \<longrightarrow> b' ! i = b ! i)"
proof -
  let ?n = "eo + length (concat (es @ e # es') @ t)" and ?m = "eo + length (concat (es @ es') @ t)" and ?tail = "concat es' @ t" and ?l = "length e"
  define b1 where "b1 = blit b (ih + 4) (le_bytes 4 ?m)"
  define b2 where "b2 = blit b1 pos ?tail"
  have h: "16 \<le> eo" "?n < 2 ^ 32" "lies_at b ih (le_bytes 4 eo)" "lies_at b (ih + 4) (le_bytes 4 ?n)" "lies_at b (ih + eo) (concat es)" "lies_at b pos (e @ ?tail)"
    "entry_ok e" using node node_split [OF node] by (simp_all add: node_at_def pos entries_append)
  have l1: "length b1 = length b" and i1: "set_index_length b ih ?m = Some b1" unfolding b1_def using put_index_length [OF h(4)] by simp_all
  have t1: "lies_at b1 pos (e @ ?tail)" unfolding b1_def using h lies_at_mono [OF h(4)] pos by (intro lies_at_blit_other) simp_all
  have end_ok: "pos + ?l + length ?tail \<le> length b" using lies_at_mono [OF h(6)] by simp
  have el: "ie_length b pos = Some ?l" "ie_length b1 pos = Some ?l" using h t1 by (simp_all add: entry_fields)
  have m: "mem_move b1 pos (pos + ?l) (int ?m - (int pos - int ih)) = Some b2"
    unfolding b2_def using t1 end_ok l1 pos by (intro mem_move_ok) simp_all
  have u: "u32i (int ?n - int ?l) = ?m" using h(2) by (subst u32i_id) auto
  have res: "ntfs_ie_delete b ih pos = Some b2"
    using m i1 unfolding ntfs_ie_delete_def by (simp only: el bind.bind_lunit node_header(2) [OF node] u Let_def)
  have "lies_at b2 pos ?tail" unfolding b2_def using end_ok l1 by (intro lies_at_blit) linarith
  moreover have "lies_at b2 ih (le_bytes 4 eo)" "lies_at b2 (ih + eo) (concat es)" "lies_at b2 (ih + 4) (le_bytes 4 ?m)"
    unfolding b2_def b1_def using h lies_at_mono [OF h(4)] end_ok pos
    by (auto intro!: lies_at_blit_other lies_at_blit simp del: lies_at_append)
  moreover have "entries (es @ es') t" using node by (simp add: node_at_def entries_append)
  ultimately have "node_at b2 ih eo (es @ es') t" using h(1,2) unfolding node_at_def by (simp add: pos add_ac)
  moreover have "b2 ! i = b ! i"
    if "i < ih \<or> ih + 8 \<le> i \<and> i < ih + eo \<or> ih + ?n \<le> i" "i < length b" for i
    unfolding b2_def b1_def using that h(1) lies_at_mono [OF h(4)] end_ok pos by (auto simp: nth_blit)
  moreover have "length b2 = length b" unfolding b2_def using end_ok l1 by simp
  ultimately show ?thesis using res by (intro exI [of _ b2]) (simp add: add.assoc)
qed

section \<open>Blocks of subnodes\<close>

lemma get16_blit_same: "i + 2 \<le> length e \<Longrightarrow> n < 65536 \<Longrightarrow> get16 (blit e i (le_bytes 2 n)) i = n"
  using chunk_blit_same [of i "le_bytes 2 n" e] by (simp add: get16_def le_val_le_bytes)

lemma get16_blit_other:
  "i + length ys \<le> length e \<Longrightarrow> j + 2 \<le> length e \<Longrightarrow> j + 2 \<le> i \<or> i + length ys \<le> j \<Longrightarrow> get16 (blit e i ys) j = get16 e j"
  by (simp add: get16_def chunk_blit_other)

definition with_vcn :: "int \<Rightarrow> bytes \<Rightarrow> bytes" where
  "with_vcn vcn e = blit e (length e - 8) (le_bytes 8 (nat (vcn mod 2 ^ 64)))"

lemma with_vcn_fields:
  assumes "entry_ok e" "is_node e"
  shows "length (with_vcn v e) = length e" "entry_ok (with_vcn v e)" "is_node (with_vcn v e)" "is_last (with_vcn v e) = is_last e"
    and "in_s64 v \<Longrightarrow> ie_vcn (with_vcn v e) = v"
    and "key_entry e \<Longrightarrow> key_entry (with_vcn v e) \<and> ie_key (with_vcn v e) = ie_key e"
proof -
  have l: "24 \<le> length e" using assms by (simp add: entry_ok_def)
  have f: "get16 (with_vcn v e) j = get16 e j" if "j \<le> 14" for j
    unfolding with_vcn_def using l that by (intro get16_blit_other) simp_all
  show len: "length (with_vcn v e) = length e" using l by (simp add: with_vcn_def)
  show n: "is_node (with_vcn v e)" and t: "is_last (with_vcn v e) = is_last e" using assms(2) by (simp_all add: is_node_def is_last_def f)
  show ok: "entry_ok (with_vcn v e)" using assms(1) l by (simp add: entry_ok_def f len)
  have "chunk (length e - 8) 8 (with_vcn v e) = le_bytes 8 (nat (v mod 2 ^ 64))"
    using chunk_blit_same [of "length e - 8" "le_bytes 8 (nat (v mod 2 ^ 64))" e] l by (simp add: with_vcn_def)
  then have "get64 (with_vcn v e) (length e - 8) = nat (v mod 2 ^ 64) mod 2 ^ 64" by (simp add: get64_def le_val_le_bytes)
  moreover have "nat (v mod 2 ^ 64) < 2 ^ 64" by (simp add: nat_less_iff)
  ultimately have "int (get64 (with_vcn v e) (length e - 8)) = v mod 2 ^ 64" by simp
  then show "in_s64 v \<Longrightarrow> ie_vcn (with_vcn v e) = v"
    by (simp add: ie_vcn_def len) (simp add: s64_def mod_simps in_s64_def)
  have "chunk 16 (get16 e 10) (with_vcn v e) = chunk 16 (get16 e 10) e" if "key_entry e"
  proof -
    have "24 + get16 e 10 \<le> length e" using that assms(2) by (simp add: key_entry_def)
    then have "16 + get16 e 10 \<le> length e - 8" by linarith
    then show ?thesis unfolding with_vcn_def by (intro chunk_blit_other) simp_all
  qed
  then show "key_entry e \<Longrightarrow> key_entry (with_vcn v e) \<and> ie_key (with_vcn v e) = ie_key e"
    using ok n t len f assms(2) by (auto simp: key_entry_def ie_key_def)
qed

lemma ie_set_vcn_ok:
  assumes "lies_at b p e" "entry_ok e" "is_node e"
  shows "ntfs_ie_set_vcn b p v = Some (blit b p (with_vcn v e))"
proof -
  let ?x = "le_bytes 8 (nat (v mod 2 ^ 64))"
  have l: "24 \<le> length e" "p + length e \<le> length b" using assms lies_at_mono [OF assms(1)] by (simp_all add: entry_ok_def)
  have "ntfs_ie_set_vcn b p v = Some (blit b (p + (length e - 8)) ?x)"
    using l by (simp add: ntfs_ie_set_vcn_def entry_vcn(1) [OF assms] mem_put_def)
  also have "blit b (p + (length e - 8)) ?x = blit b p (with_vcn v e)"
  proof (rule nth_equalityI)
    have nth: "b ! (p + k) = e ! k" if "k < length e" for k
      using assms(1) that nth_chunk [of k "length e" p b] l by (simp add: lies_at_def)
    show "blit b (p + (length e - 8)) ?x ! i = blit b p (with_vcn v e) ! i" if "i < length (blit b (p + (length e - 8)) ?x)" for i
      using that l nth [of "i - p"] by (auto simp: with_vcn_def nth_blit)
  qed (use l in \<open>simp add: with_vcn_def\<close>)
  finally show ?thesis .
qed

lemma node_update:
  assumes "node_at b ih eo (es @ e # es') t" "entry_ok e'" "\<not> is_last e'" "length e' = length e"
  shows "node_at (blit b (ih + eo + length (concat es)) e') ih eo (es @ e' # es') t"
proof -
  let ?b = "blit b (ih + eo + length (concat es)) e'"
  have l: "16 \<le> eo" "lies_at b ih (le_bytes 4 eo)" "lies_at b (ih + 4) (le_bytes 4 (eo + length (concat (es @ e # es') @ t)))"
    "lies_at b (ih + eo) (concat es)" "lies_at b (ih + eo + length (concat es)) e"
    "lies_at b (ih + eo + length (concat es) + length e) (concat es' @ t)" using assms(1) by (simp_all add: node_at_def add.assoc)
  note room = lies_at_mono [OF l(5)]
  have "lies_at ?b (ih + eo + length (concat es)) e'" using room assms(4) by (intro lies_at_blit) simp
  moreover have "lies_at ?b ih (le_bytes 4 eo)" "lies_at ?b (ih + 4) (le_bytes 4 (eo + length (concat (es @ e # es') @ t)))"
    "lies_at ?b (ih + eo) (concat es)" "lies_at ?b (ih + eo + length (concat es) + length e) (concat es' @ t)"
    using l room assms(4) by (auto intro!: lies_at_blit_other simp del: lies_at_append)
  ultimately show ?thesis using assms by (simp add: node_at_def entries_append add.assoc)
qed

lemma node_update_last:
  assumes "node_at b ih eo es t" "entry_ok t'" "is_last t'" "length t' = length t"
  shows "node_at (blit b (ih + eo + length (concat es)) t') ih eo es t'"
proof -
  let ?b = "blit b (ih + eo + length (concat es)) t'"
  have l: "16 \<le> eo" "lies_at b ih (le_bytes 4 eo)" "lies_at b (ih + 4) (le_bytes 4 (eo + length (concat es @ t)))"
    "lies_at b (ih + eo) (concat es)" "lies_at b (ih + eo + length (concat es)) t" using assms(1) by (simp_all add: node_at_def)
  note room = lies_at_mono [OF l(5)]
  have "lies_at ?b (ih + eo + length (concat es)) t'" using room assms(4) by (intro lies_at_blit) simp
  moreover have "lies_at ?b ih (le_bytes 4 eo)" "lies_at ?b (ih + 4) (le_bytes 4 (eo + length (concat es @ t)))" "lies_at ?b (ih + eo) (concat es)"
    using l room assms(4) by (auto intro!: lies_at_blit_other simp del: lies_at_append)
  ultimately show ?thesis using assms by (simp add: node_at_def entries_def)
qed

text \<open>An entry that gets the room for a block number.\<close>

lemma flag_bits: "(f AND INDEX_ENTRY_NODE) \<noteq> 0 \<longleftrightarrow> bit f 0" "(f AND INDEX_ENTRY_END) \<noteq> 0 \<longleftrightarrow> bit f 1"
  using and_exp_eq_0_iff_not_bit [of f 0] and_exp_eq_0_iff_not_bit [of f 1] by (simp_all add: INDEX_ENTRY_NODE_def INDEX_ENTRY_END_def)

lemma set_node_flag:
  "f < 65536 \<Longrightarrow> f OR INDEX_ENTRY_NODE < 65536" "((f OR INDEX_ENTRY_NODE) AND INDEX_ENTRY_NODE) \<noteq> 0"
  "((f OR INDEX_ENTRY_NODE) AND INDEX_ENTRY_END) \<noteq> 0 \<longleftrightarrow> (f AND INDEX_ENTRY_END) \<noteq> 0"
proof -
  show "f OR INDEX_ENTRY_NODE < 65536" if "f < 65536"
  proof -
    have "take_bit 16 (f OR INDEX_ENTRY_NODE) = f OR INDEX_ENTRY_NODE" using that by (simp add: take_bit_or take_bit_nat_eq_self INDEX_ENTRY_NODE_def)
    then show ?thesis using take_bit_nat_less_exp [of 16 "f OR INDEX_ENTRY_NODE"] by simp
  qed
  show "((f OR INDEX_ENTRY_NODE) AND INDEX_ENTRY_NODE) \<noteq> 0"
    by (simp only: flag_bits bit_or_iff) (simp only: INDEX_ENTRY_NODE_def bit_1_iff simp_thms)
  show "((f OR INDEX_ENTRY_NODE) AND INDEX_ENTRY_END) \<noteq> 0 \<longleftrightarrow> (f AND INDEX_ENTRY_END) \<noteq> 0"
    unfolding flag_bits bit_or_iff by (simp add: INDEX_ENTRY_NODE_def bit_1_iff)
qed

lemma add_vcn_ok:
  assumes "key_entry e" "\<not> is_node e" "length e + 8 < 65536"
  shows "\<exists>e'. ntfs_ie_add_vcn True junk e = Some (Some e') \<and> key_entry e' \<and> is_node e' \<and> ie_key e' = ie_key e \<and> length e' = length e + 8"
proof -
  let ?n = "length e + 8" and ?f = "get16 e 12"
  let ?e1 = "blit e 8 (le_bytes 2 ?n)"
  let ?p = "?e1 @ replicate 8 junk"
  let ?e2 = "blit ?p 12 (le_bytes 2 (?f OR INDEX_ENTRY_NODE))"
  have l: "16 \<le> length e" "get16 e 8 = length e" "16 + get16 e 10 \<le> length e" "\<not> is_last e" using assms by (simp_all add: key_entry_def entry_ok_def)
  have whole: "lies_at e 0 e" by (simp add: lies_at_def chunk_full)
  have len: "length ?e1 = length e" "length ?p = ?n" "length ?e2 = ?n" using l by simp_all
  have app: "j + 2 \<le> length e \<Longrightarrow> get16 ?p j = get16 ?e1 j" for j using l by (simp add: get16_def chunk_append1)
  have fl: "get16 ?p 12 = ?f" using app [of 12] l get16_blit_other [of 8 "le_bytes 2 ?n" e 12] by simp
  have f: "get16 ?e2 8 = ?n" "get16 ?e2 10 = get16 e 10" "get16 ?e2 12 = ?f OR INDEX_ENTRY_NODE"
    using l assms(3) len app [of 8] app [of 10] get16_blit_same [of 8 e ?n] get16_blit_other [of 8 "le_bytes 2 ?n" e 10]
      get16_blit_other [of 12 "le_bytes 2 (?f OR INDEX_ENTRY_NODE)" ?p 8] get16_blit_other [of 12 "le_bytes 2 (?f OR INDEX_ENTRY_NODE)" ?p 10]
      get16_blit_same [of 12 ?p "?f OR INDEX_ENTRY_NODE"] set_node_flag(1) [OF get16_lt [of e 12]] by simp_all
  have "ie_length e 0 = Some (length e)" using whole assms by (simp add: entry_fields key_entry_def)
  moreover have "ie_flags ?p 0 = Some ?f" using l len fl fetch_lies(1) [of ?p 0 ?p 12] by (simp add: ie_flags_def lies_at_def chunk_full)
  ultimately have "ntfs_ie_add_vcn True junk e = Some (Some ?e2)"
    using assms(3) l by (simp add: ntfs_ie_add_vcn_def mem_put_def)
  moreover have "is_node ?e2" "\<not> is_last ?e2" using l(4) set_node_flag(2,3) by (simp_all add: is_node_def is_last_def f)
  moreover have "chunk 16 (get16 e 10) ?e2 = chunk 16 (get16 e 10) e"
    using l len chunk_blit_other [of 12 "le_bytes 2 (?f OR INDEX_ENTRY_NODE)" ?p 16 "get16 e 10"] chunk_blit_other [of 8 "le_bytes 2 ?n" e 16 "get16 e 10"]
    by (simp add: chunk_append1)
  ultimately show ?thesis using l assms(3) len f by (intro exI [of _ ?e2]) (simp add: key_entry_def entry_ok_def ie_key_def)
qed

section \<open>The lookup\<close>

text \<open>The number of the first entry that is not before the key, the entries with their keys, and the order the entries of a node are in.\<close>

definition place :: "(bytes \<Rightarrow> 'k :: linorder) \<Rightarrow> bytes \<Rightarrow> bytes list \<Rightarrow> nat" where
  "place val x es = length (takeWhile (\<lambda>e. val (ie_key e) < val x) es)"

definition keys_ok :: "(bytes \<Rightarrow> bool) \<Rightarrow> bytes list \<Rightarrow> bool" where
  "keys_ok ok es \<longleftrightarrow> (\<forall>e \<in> set es. key_entry e \<and> ok (ie_key e))"

definition in_order :: "(bytes \<Rightarrow> 'k :: linorder) \<Rightarrow> bytes list \<Rightarrow> bool" where
  "in_order val es \<longleftrightarrow> sorted_wrt (\<lambda>a b. val (ie_key a) < val (ie_key b)) es"

lemma place_le: "place val x es \<le> length es"
  by (simp add: place_def length_takeWhile_le)

lemma place_before: "e \<in> set (take (place val x es) es) \<Longrightarrow> val (ie_key e) < val x"
  by (auto simp: place_def takeWhile_eq_take [symmetric] dest: set_takeWhileD)

lemma place_drop:
  assumes "in_order val es" "i < length es" "e \<in> set (drop i es)"
  shows "e = es ! i \<or> val (ie_key (es ! i)) < val (ie_key e)"
proof -
  have "drop i es = es ! i # drop (Suc i) es" using Cons_nth_drop_Suc [OF assms(2)] by simp
  moreover have "sorted_wrt (\<lambda>a b. val (ie_key a) < val (ie_key b)) (drop i es)"
    using assms(1) by (simp add: in_order_def sorted_wrt_drop)
  ultimately show ?thesis using assms(3) by auto
qed

lemma place_after:
  assumes "in_order val es" "e \<in> set (drop (place val x es) es)"
  shows "val x \<le> val (ie_key e)"
proof -
  let ?i = "place val x es"
  have i: "?i < length es" using assms(2) by (cases "?i < length es") auto
  have "\<not> val (ie_key (es ! ?i)) < val x"
    using nth_length_takeWhile [of "\<lambda>e. val (ie_key e) < val x" es] i by (simp add: place_def)
  then show ?thesis using place_drop [OF assms(1) i assms(2)] by auto
qed

lemma place_found_iff:
  assumes "in_order val es"
  shows "place val x es < length es \<and> val (ie_key (es ! place val x es)) = val x \<longleftrightarrow> val x \<in> val ` ie_key ` set es"
proof
  let ?i = "place val x es"
  assume "?i < length es \<and> val (ie_key (es ! ?i)) = val x"
  then show "val x \<in> val ` ie_key ` set es" by (metis imageI nth_mem)
next
  let ?i = "place val x es"
  assume "val x \<in> val ` ie_key ` set es"
  then obtain e where e: "e \<in> set es" "val (ie_key e) = val x" by auto
  have "e \<in> set (take ?i es) \<or> e \<in> set (drop ?i es)" using e(1) by (metis Un_iff append_take_drop_id set_append)
  then have d: "e \<in> set (drop ?i es)" using place_before [of e val x es] e(2) by auto
  then have i: "?i < length es" by (cases "?i < length es") auto
  have "es ! ?i \<in> set (drop ?i es)" using Cons_nth_drop_Suc [OF i] by (metis list.set_intros(1))
  then have "val x \<le> val (ie_key (es ! ?i))" by (rule place_after [OF assms])
  then show "?i < length es \<and> val (ie_key (es ! ?i)) = val x" using i e(2) place_drop [OF assms i d] by auto
qed

lemma place_insert:
  assumes "in_order val es" "val x \<notin> val ` ie_key ` set es" "val (ie_key e) = val x"
  shows "in_order val (take (place val x es) es @ e # drop (place val x es) es)"
proof -
  let ?i = "place val x es"
  have "val x < val (ie_key d)" if "d \<in> set (drop ?i es)" for d
    using place_after [OF assms(1) that] assms(2) set_drop_subset [of ?i es] that by (metis image_eqI le_less subsetD)
  moreover have "in_order val (take ?i es)" "in_order val (drop ?i es)"
    using assms(1) by (simp_all add: in_order_def sorted_wrt_take sorted_wrt_drop)
  ultimately show ?thesis using place_before [of _ val x es] assms(3)
    by (auto simp: in_order_def sorted_wrt_append intro: less_trans)
qed

text \<open>What the index needs of its collation function: it compares the values of the keys.\<close>

locale collation =
  fixes col :: collate and ok :: "bytes \<Rightarrow> bool" and val :: "bytes \<Rightarrow> 'k :: linorder"
  assumes collate_law: "ok x \<Longrightarrow> ok y \<Longrightarrow> col x (length x) (y @ rest) (length y) = Some (cmp (val x) (val y))"
begin

lemma lookup_loop_ok:
  assumes "ok x"
  shows "lies_at b p (concat es @ t) \<Longrightarrow> entries es t \<Longrightarrow> keys_ok ok es \<Longrightarrow> p + length (concat es @ t) = ee \<Longrightarrow>
    lookup_loop (Some col) x (length x) b ee p n =
      (let i = place val x es; q = p + length (concat (take i es)) in
       Some (if i < length es \<and> val (ie_key (es ! i)) = val x then Inl (Found q (n + i)) else Inr (q, n + i)))"
proof (induction es arbitrary: p n)
  case Nil
  then show ?case
    using entry_fields [of b p t] by (subst lookup_loop.simps) (simp add: entries_def entry_ok_def place_def)
next
  case (Cons e es)
  have e: "lies_at b p e" "entry_ok e" "\<not> is_last e" "key_entry e" "ok (ie_key e)" "16 \<le> length e" "p + length e \<le> ee"
    using Cons.prems by (auto simp: keys_ok_def entry_ok_def)
  have key: "lies_at b (p + 16) (ie_key e)" "length (ie_key e) = get16 e 10"
  proof -
    have "16 + get16 e 10 \<le> length e" using e(4) by (simp add: key_entry_def)
    then show "length (ie_key e) = get16 e 10" by (simp add: ie_key_def)
    show "lies_at b (p + 16) (ie_key e)"
      using lies_part [OF e(1), of 16 "get16 e 10"] \<open>16 + get16 e 10 \<le> length e\<close> by (auto simp: ie_key_def lies_at_def mem_get_def split: if_splits)
  qed
  then obtain rest where "drop (p + 16) b = ie_key e @ rest"
    by (metis append_take_drop_id chunk_def lies_at_def)
  then have c: "col x (length x) (drop (p + 16) b) (get16 e 10) = Some (cmp (val x) (val (ie_key e)))"
    using collate_law [OF assms e(5)] key(2) by simp
  have step: "lookup_loop (Some col) x (length x) b ee p n =
     (if val x < val (ie_key e) then Some (Inr (p, n)) else if val x = val (ie_key e) then Some (Inl (Found p n))
      else lookup_loop (Some col) x (length x) b ee (p + length e) (n + 1))"
    using e by (subst lookup_loop.simps) (simp add: entry_fields c cmp_def NTFS_COLLATION_ERROR_def)
  show ?case
    using Cons.IH [of "p + length e" "n + 1"] Cons.prems unfolding step
    by (auto simp: place_def keys_ok_def Let_def)
qed

lemma lookup_ok:
  assumes "node_at b ih eo es t" "keys_ok ok es" "ok x"
  shows "ntfs_ie_lookup (Some col) x (length x) b ih =
    (let i = place val x es; e = (es @ [t]) ! i in
     Some (if i < length es \<and> val (ie_key e) = val x then Found (entry_pos ih eo es i) i
           else if \<not> is_node e then NotFound (entry_pos ih eo es i)
           else if ie_vcn e < 0 then LookupError EINVAL else KeepSearching (ie_vcn e) i))"
proof -
  let ?i = "place val x es" and ?q = "entry_pos ih eo es (place val x es)"
  let ?e = "(es @ [t]) ! ?i"
  have i: "?i \<le> length es" by (simp add: place_def length_takeWhile_le)
  have n: "lies_at b (ih + eo) (concat es @ t)" "entries es t" using assms(1) by (simp_all add: node_at_def)
  have l: "lookup_loop (Some col) x (length x) b (ih + (eo + length (concat es @ t))) (ih + eo) 0
     = Some (if ?i < length es \<and> val (ie_key ?e) = val x then Inl (Found ?q ?i) else Inr (?q, ?i))"
    using lookup_loop_ok [OF assms(3) n assms(2) refl, of 0] by (simp add: Let_def nth_append entry_pos_def add.assoc)
  have e: "lies_at b ?q ?e" "entry_ok ?e"
  proof -
    have "concat es @ t = concat (take ?i es) @ concat (drop ?i es) @ t" by (metis append.assoc append_take_drop_id concat_append)
    then have "lies_at b ?q (concat (drop ?i es) @ t)" using n(1) by (metis entry_pos_def lies_at_append)
    moreover have "drop ?i es = (es ! ?i) # drop (Suc ?i) es" if "?i < length es" using that by (simp add: Cons_nth_drop_Suc)
    ultimately show "lies_at b ?q ?e" using i by (cases "?i < length es") (simp_all add: nth_append)
    show "entry_ok ?e" using n(2) i by (auto simp: entries_def nth_append)
  qed
  have "(get16 ?e 12 AND INDEX_ENTRY_NODE) = 0 \<longleftrightarrow> \<not> is_node ?e" by (simp add: is_node_def)
  then show ?thesis
    using entry_fields(3) [OF e] entry_vcn(2) [OF e]
    unfolding ntfs_ie_lookup_def node_header(3,4) [OF assms(1)] bind.bind_lunit l by (auto simp: Let_def)
qed

end

text \<open>The orders of directories and of the system indexes.\<close>

definition name_ok :: "bytes \<Rightarrow> bool" where
  "name_ok x \<longleftrightarrow> 0x42 \<le> length x \<and> 0x42 + 2 * unat (x ! 0x40) \<le> length x"

definition key_name :: "bytes \<Rightarrow> ntfschar list" where
  "key_name x = name_chars x 0x42 (unat (x ! 0x40))"

definition name_val :: "ntfschar list \<Rightarrow> bytes \<Rightarrow> ntfschar list \<times> ntfschar list" where
  "name_val upcase x = (map (upc upcase (length upcase)) (key_name x), key_name x)"

lemma name_chars_app: "i + 2 * n \<le> length y \<Longrightarrow> name_chars (y @ rest) i n = name_chars y i n \<and> length (name_chars y i n) = n"
  by (induction n arbitrary: i) (simp_all add: get16_def chunk_append1)

definition collate_names :: "ntfschar list \<Rightarrow> collate" where
  "collate_names upcase = (\<lambda>x n y m. ntfs_collate_file_name upcase (length upcase) x y)"

interpretation names: collation "collate_names upcase" name_ok "name_val upcase"
proof
  fix x y rest assume ok: "name_ok x" "name_ok y"
  have up: "up_ok upcase (length upcase)" by (simp add: up_ok_def)
  have n: "0x42 + 2 * unat (x ! 0x40) \<le> length x" "0x42 + 2 * unat (y ! 0x40) \<le> length y" "0x40 < length x" "0x40 < length y"
    using ok by (simp_all add: name_ok_def)
  have app: "name_chars (y @ rest) 0x42 (unat (y ! 0x40)) = key_name y" "length (key_name y) = unat (y ! 0x40)" "length (key_name x) = unat (x ! 0x40)"
    using name_chars_app [OF n(2)] name_chars_app [OF n(1), of "[]"] by (simp_all add: key_name_def)
  have "ntfs_collate_file_name upcase (length upcase) x (y @ rest)
      = ntfs_names_full_collate (key_name x) (length (key_name x)) (key_name y) (length (key_name y)) True upcase (length upcase)"
    using n app by (simp add: ntfs_collate_file_name_def nth_append key_name_def)
  then show "collate_names upcase x (length x) (y @ rest) (length y) = Some (cmp (name_val upcase x) (name_val upcase y))"
    using full_collate_ok [OF up] by (simp add: collate_names_def name_val_def)
qed

lemma fetch32_app: "i + 4 \<le> length y \<Longrightarrow> fetch32 (y @ rest) i = fetch32 y i"
  by (simp add: fetch32_get32 get32_def chunk_append1)

interpretation hashes: collation ntfs_collate_ntofs_security_hash "\<lambda>x. length x = 8" "\<lambda>x. (get32 x 0, get32 x 4)"
proof
  fix x y rest :: bytes assume l: "length x = 8" "length y = 8"
  have "ntfs_collate_ntofs_security_hash x 8 (y @ rest) 8 = ntfs_collate_ntofs_security_hash x 8 y 8"
    unfolding ntfs_collate_ntofs_security_hash_def using l fetch32_app [of 0 y rest] fetch32_app [of 4 y rest] by (simp cong: if_cong)
  then show "ntfs_collate_ntofs_security_hash x (length x) (y @ rest) (length y) = Some (cmp (get32 x 0, get32 x 4) (get32 y 0, get32 y 4))"
    using l ntfs_collate_ntofs_security_hash_ok [of x y] by simp
qed

interpretation numbers: collation ntfs_collate_ntofs_ulong "\<lambda>x. length x = 4" "\<lambda>x. get32 x 0"
proof
  fix x y rest :: bytes assume l: "length x = 4" "length y = 4"
  have "ntfs_collate_ntofs_ulong x 4 (y @ rest) 4 = ntfs_collate_ntofs_ulong x 4 y 4"
    unfolding ntfs_collate_ntofs_ulong_def using l fetch32_app [of 0 y rest] by simp
  then show "ntfs_collate_ntofs_ulong x (length x) (y @ rest) (length y) = Some (cmp (get32 x 0) (get32 y 0))"
    using l ntfs_collate_ntofs_ulong_ok [of x y] by simp
qed

section \<open>Entries of directories\<close>

text \<open>The entry that \<open>ntfs_index_add_filename\<close> makes of a \<open>FILE_NAME\<close> attribute.\<close>

definition filename_entry :: "nat \<Rightarrow> bytes \<Rightarrow> bytes option" where
  "filename_entry mref fn = do {
     len \<leftarrow> elem fn 0x40;
     let fn_size = unat len * 2 + 0x42;
     let ie_size = (16 + fn_size + 7) div 8 * 8;
     let ie = replicate ie_size 0;
     ie \<leftarrow> mem_put ie 0 (le_bytes 8 mref);
     ie \<leftarrow> mem_put ie 8 (le_bytes 2 ie_size);
     ie \<leftarrow> mem_put ie 10 (le_bytes 2 fn_size);
     x \<leftarrow> mem_get fn 0 fn_size;
     mem_put ie 16 x }"

lemma le_val_zeros: "le_val (replicate n 0) = 0"
  by (induction n) simp_all

lemma filename_entry_ok:
  assumes "name_ok fn"
  shows "\<exists>e. filename_entry mref fn = Some e \<and> key_entry e \<and> \<not> is_node e \<and> ie_key e = take (0x42 + 2 * unat (fn ! 0x40)) fn
    \<and> length e = (0x59 + 2 * unat (fn ! 0x40)) div 8 * 8"
proof -
  let ?s = "unat (fn ! 0x40) * 2 + 0x42"
  let ?l = "(16 + ?s + 7) div 8 * 8"
  have n: "0x42 \<le> length fn" "?s \<le> length fn" using assms by (simp_all add: name_ok_def mult.commute)
  have u: "unat (fn ! 0x40) < 256" by simp
  have l: "16 + ?s \<le> ?l" "?l < 65536" "16 \<le> ?l" using u by linarith+
  define e1 where "e1 = blit (blit (blit (replicate ?l (0 :: u8)) 0 (le_bytes 8 mref)) 8 (le_bytes 2 ?l)) 10 (le_bytes 2 ?s)"
  have l1: "length e1 = ?l" unfolding e1_def using l by simp
  define e where "e = blit e1 16 (take ?s fn)"
  have le: "length e = ?l" unfolding e_def using l1 l n by simp
  have "filename_entry mref fn = Some e"
    unfolding filename_entry_def using n l by (simp add: mem_put_def mem_get_def chunk_def e_def e1_def Let_def)
  moreover have g1: "get16 e1 8 = ?l" "get16 e1 10 = ?s" "get16 e1 12 = 0"
  proof -
    have s: "?s < 65536" using u by linarith
    show "get16 e1 10 = ?s" unfolding e1_def using l s by (intro get16_blit_same) simp_all
    have "get16 e1 8 = get16 (blit (blit (replicate ?l (0 :: u8)) 0 (le_bytes 8 mref)) 8 (le_bytes 2 ?l)) 8"
      unfolding e1_def using l by (intro get16_blit_other) simp_all
    also have "\<dots> = ?l" using l by (intro get16_blit_same) simp_all
    finally show "get16 e1 8 = ?l" .
    have "chunk 12 2 e1 = chunk 12 2 (replicate ?l 0)"
      unfolding e1_def using l by (simp add: chunk_blit_other)
    then show "get16 e1 12 = 0" by (simp only: get16_def chunk_replicate le_val_zeros)
  qed
  have g: "get16 e 8 = ?l" "get16 e 10 = ?s" "get16 e 12 = 0"
    unfolding e_def using g1 l1 l n by (simp_all add: get16_blit_other)
  moreover have "chunk 16 ?s e = take ?s fn"
    using chunk_blit_same [of 16 "take ?s fn" e1] l1 l n by (simp add: e_def)
  ultimately show ?thesis using l le
    by (intro exI [of _ e]) (simp add: key_entry_def entry_ok_def is_node_def is_last_def ie_key_def mult.commute add.commute)
qed

section \<open>Properties\<close>

text \<open>
  C11. In a leaf of a directory in order, a name that is not there gets the place at which the lookup stops: the node has all entries in order after the
  insertion, the new name is found at that place, nothing outside the entries and the length of the node changes, and a removal undoes the insertion.
\<close>

theorem insert_at_lookup:
  assumes node: "node_at b ih eo es t" "keys_ok name_ok es" "in_order (name_val upcase) es" "\<forall>d \<in> set (es @ [t]). \<not> is_node d"
    and e: "key_entry e" "\<not> is_node e" "name_ok (ie_key e)" "name_val upcase (ie_key e) \<notin> name_val upcase ` ie_key ` set es"
    and room: "ih + eo + length (concat es @ e @ t) \<le> length b" "length b < 2 ^ 32"
  shows "\<exists>p i b' b''. ntfs_ie_lookup (Some (collate_names upcase)) (ie_key e) (length (ie_key e)) b ih = Some (NotFound p)
    \<and> ntfs_ie_insert b ih e p = Some b' \<and> node_at b' ih eo (take i es @ e # drop i es) t \<and> in_order (name_val upcase) (take i es @ e # drop i es)
    \<and> ntfs_ie_lookup (Some (collate_names upcase)) (ie_key e) (length (ie_key e)) b' ih = Some (Found p i)
    \<and> (\<forall>k. k < ih \<or> ih + 8 \<le> k \<and> k < ih + eo \<or> ih + eo + length (concat es @ e @ t) \<le> k \<longrightarrow> k < length b \<longrightarrow> b' ! k = b ! k)
    \<and> ntfs_ie_delete b' ih p = Some b'' \<and> node_at b'' ih eo es t"
proof -
  let ?v = "name_val upcase" and ?x = "ie_key e"
  let ?i = "place ?v ?x es" and ?col = "Some (collate_names upcase)"
  let ?es' = "take ?i es @ e # drop ?i es" and ?p = "entry_pos ih eo es (place ?v ?x es)"
  have i: "?i \<le> length es" by (rule place_le)
  have ek: "entry_ok e" "\<not> is_last e" using e(1) by (simp_all add: key_entry_def)
  have miss: "\<not> (?i < length es \<and> ?v (ie_key (es ! ?i)) = ?v ?x)" using place_found_iff [OF node(3), of ?x] e(4) by blast
  have nn: "\<not> is_node ((es @ [t]) ! ?i)" using node(4) i by (auto simp: nth_append)
  have l1: "ntfs_ie_lookup ?col ?x (length ?x) b ih = Some (NotFound ?p)"
    using miss nn unfolding names.lookup_ok [OF node(1,2) e(3)] Let_def by (auto simp: nth_append)
  have cc: "length (concat (take ?i es)) + length (concat (drop ?i es)) = length (concat es)"
    by (metis append_take_drop_id concat_append length_append)
  have n1: "node_at b ih eo (take ?i es @ drop ?i es) t" using node(1) by simp
  obtain b' where b': "ntfs_ie_insert b ih e ?p = Some b'" "node_at b' ih eo ?es' t"
    "\<forall>k. k < ih \<or> ih + 8 \<le> k \<and> k < ih + eo \<or> ih + eo + length (concat es @ e @ t) \<le> k \<longrightarrow> k < length b \<longrightarrow> b' ! k = b ! k"
    using ie_insert_ok [OF n1 ek, of ?p] room cc by (auto simp: entry_pos_def add_ac)
  have ord: "in_order ?v ?es'" using place_insert [OF node(3) e(4) refl] .
  have ks: "keys_ok name_ok ?es'"
    using node(2) e(1,3) by (auto simp: keys_ok_def dest: in_set_takeD in_set_dropD)
  have pl: "place ?v ?x ?es' = ?i"
  proof -
    have "takeWhile (\<lambda>d. ?v (ie_key d) < ?v ?x) ?es' = take ?i es"
      using place_before [of _ ?v ?x es] by (simp add: takeWhile_append2)
    then show ?thesis using i by (simp add: place_def)
  qed
  have pos: "entry_pos ih eo ?es' ?i = ?p" using i by (simp add: entry_pos_def)
  have "ntfs_ie_lookup ?col ?x (length ?x) b' ih = Some (Found ?p ?i)"
    using i unfolding names.lookup_ok [OF b'(2) ks e(3)] Let_def pl pos by (simp add: nth_append)
  moreover obtain b'' where "ntfs_ie_delete b' ih ?p = Some b''" "node_at b'' ih eo (take ?i es @ drop ?i es) t"
    using ie_delete_ok [OF b'(2), of ?p] by (auto simp: entry_pos_def)
  ultimately show ?thesis using l1 b' ord by auto
qed

text \<open>Example nodes: a header, the entries, and what follows; the names have one character.\<close>

definition node_bytes :: "bytes list \<Rightarrow> bytes \<Rightarrow> bytes \<Rightarrow> bytes" where
  "node_bytes es t rest = le_bytes 4 16 @ le_bytes 4 (16 + length (concat es @ t)) @ replicate 8 0 @ concat es @ t @ rest"

definition raw_entry :: "nat \<Rightarrow> nat \<Rightarrow> nat \<Rightarrow> bytes \<Rightarrow> bytes" where
  "raw_entry l kl f xs = replicate 8 0 @ le_bytes 2 l @ le_bytes 2 kl @ le_bytes 2 f @ le_bytes 2 0 @ xs"

definition end_entry :: bytes where
  "end_entry = raw_entry 16 0 2 []"

definition one_char_name :: "nat \<Rightarrow> bytes" where
  "one_char_name c = replicate 64 0 @ [1, 0] @ le_bytes 2 c"

definition name_entry :: "nat \<Rightarrow> bytes" where
  "name_entry c = the (filename_entry 0 (one_char_name c))"

lemma lies_at_here: "n = length xs \<Longrightarrow> lies_at (xs @ ys @ zs) n ys"
  by (simp add: lies_at_def chunk_def)

lemma node_bytes_at:
  assumes "entries es t" "16 + length (concat es @ t) < 2 ^ 32"
  shows "node_at (node_bytes es t rest) 0 16 es t"
proof -
  let ?l = "le_bytes 4 (16 + length (concat es @ t))"
  have "lies_at (node_bytes es t rest) 0 (le_bytes 4 16)" "lies_at (node_bytes es t rest) 4 ?l" "lies_at (node_bytes es t rest) 16 (concat es @ t)"
    using lies_at_here [of 0 "[]" "le_bytes 4 16"] lies_at_here [of 4 "le_bytes 4 16" ?l]
      lies_at_here [of 16 "le_bytes 4 16 @ ?l @ replicate 8 0" "concat es @ t" rest]
    unfolding node_bytes_def by (simp_all del: lies_at_append replicate.simps)
  then show ?thesis using assms by (simp add: node_at_def del: lies_at_append)
qed

lemma raw_entry_fields:
  "length (raw_entry l kl f xs) = 16 + length xs" "l < 65536 \<Longrightarrow> get16 (raw_entry l kl f xs) 8 = l" "kl < 65536 \<Longrightarrow> get16 (raw_entry l kl f xs) 10 = kl"
  "f < 65536 \<Longrightarrow> get16 (raw_entry l kl f xs) 12 = f"
  by (simp_all add: raw_entry_def get16_def chunk_append2 chunk_append1 chunk_full le_val_le_bytes del: replicate.simps)

lemma end_entry_ok: "entry_ok end_entry" "is_last end_entry" "\<not> is_node end_entry" "length end_entry = 16"
  by (simp_all add: end_entry_def entry_ok_def is_last_def is_node_def raw_entry_fields INDEX_ENTRY_NODE_def INDEX_ENTRY_END_def)

lemma name_entry_ok:
  "key_entry (name_entry c)" "\<not> is_node (name_entry c)" "ie_key (name_entry c) = one_char_name c" "name_ok (one_char_name c)" "length (name_entry c) = 88"
  "length (one_char_name c) = 68"
proof -
  have n: "length (one_char_name c) = 68" "one_char_name c ! 64 = 1" by (simp_all add: one_char_name_def nth_append)
  then show ok: "name_ok (one_char_name c)" "length (one_char_name c) = 68" by (simp_all add: name_ok_def)
  obtain e where "filename_entry 0 (one_char_name c) = Some e" "key_entry e" "\<not> is_node e" "ie_key e = take 68 (one_char_name c)" "length e = 88"
    using filename_entry_ok [OF ok(1), of 0] n by auto
  then show "key_entry (name_entry c)" "\<not> is_node (name_entry c)" "ie_key (name_entry c) = one_char_name c" "length (name_entry c) = 88"
    using n by (simp_all add: name_entry_def)
qed

lemma one_char_val: "c < 65536 \<Longrightarrow> name_val [] (one_char_name c) = ([of_nat c], [of_nat c])"
  using chunk_append2 [of "[1, 0]" 2 2 "le_bytes 2 c"]
  by (simp add: name_val_def key_name_def upc_def one_char_name_def nth_append get16_def chunk_append2 chunk_full le_val_le_bytes del: replicate.simps)

theorem insert_at_lookup_witness:
  "\<exists>p i b' b''. ntfs_ie_lookup (Some (collate_names [])) (one_char_name 65) 68 (node_bytes [name_entry 66] end_entry (replicate 100 0)) 0 = Some (NotFound p)
    \<and> ntfs_ie_insert (node_bytes [name_entry 66] end_entry (replicate 100 0)) 0 (name_entry 65) p = Some b' \<and> ntfs_ie_delete b' 0 p = Some b''
    \<and> ntfs_ie_lookup (Some (collate_names [])) (one_char_name 65) 68 b' 0 = Some (Found p i) \<and> node_at b'' 0 16 [name_entry 66] end_entry"
proof -
  let ?b = "node_bytes [name_entry 66] end_entry (replicate 100 0)"
  have "node_at ?b 0 16 [name_entry 66] end_entry" "keys_ok name_ok [name_entry 66]"
    using name_entry_ok [of 66] end_entry_ok by (auto simp: key_entry_def keys_ok_def entries_def intro!: node_bytes_at)
  moreover have "in_order (name_val []) [name_entry 66]" by (simp add: in_order_def)
  ultimately show ?thesis
    using insert_at_lookup [of ?b 0 16 "[name_entry 66]" end_entry "[]" "name_entry 65"] name_entry_ok [of 65] name_entry_ok [of 66] end_entry_ok
    by (simp add: one_char_val node_bytes_def del: replicate.simps) blast
qed

text \<open>One round of the lookup at an entry that is not the last, for any collation function.\<close>

lemma lookup_step:
  assumes "lies_at b p (concat (e # es) @ t)" "entries (e # es) t" "p + length (concat (e # es) @ t) = ee"
  shows "lookup_loop (Some col) key kl b ee p n = (case col key kl (drop (p + 16) b) (get16 e 10) of None \<Rightarrow> None
    | Some rc \<Rightarrow> if rc = NTFS_COLLATION_ERROR then Some (Inl (LookupError ERANGE)) else if rc = - 1 then Some (Inr (p, n))
        else if rc = 0 then Some (Inl (Found p n)) else lookup_loop (Some col) key kl b ee (p + length e) (n + 1))"
proof -
  have e: "lies_at b p e" "entry_ok e" "\<not> is_last e" "16 \<le> length e" "p + length e \<le> ee" using assms by (auto simp: entry_ok_def)
  then show ?thesis by (subst lookup_loop.simps) (simp add: entry_fields [OF e(1,2)] split: option.split)
qed

lemma lookup_from_first:
  assumes "node_at b ih eo es t"
  shows "ntfs_ie_lookup (Some col) key kl b ih = do {
     r \<leftarrow> lookup_loop (Some col) key kl b (ih + (eo + length (concat es @ t))) (ih + eo) 0;
     case r of Inl r \<Rightarrow> Some r
     | Inr (ie, item) \<Rightarrow> do {
         f \<leftarrow> ie_flags b ie;
         if (f AND INDEX_ENTRY_NODE) = 0 then Some (NotFound ie)
         else do { vcn \<leftarrow> ntfs_ie_get_vcn b ie; Some (if vcn < 0 then LookupError EINVAL else KeepSearching vcn item) } } }"
  unfolding ntfs_ie_lookup_def node_header(3,4) [OF assms] bind.bind_lunit ..

text \<open>Binary keys that lie in their entries: the memory behind a key does not matter.\<close>

lemma binary_entry:
  assumes "memcmp_law mc" "lies_at b p e" "key_entry e"
  shows "ntfs_collate_binary mc key (length key) (drop (p + 16) b) (get16 e 10) = ntfs_collate_binary mc key (length key) (ie_key e) (length (ie_key e))"
    and "\<exists>r. ntfs_collate_binary mc key (length key) (drop (p + 16) b) (get16 e 10) = Some r \<and> sgn r = cmp key (ie_key e)"
proof -
  have k: "16 + get16 e 10 \<le> length e" using assms(3) by (simp add: key_entry_def)
  then have len: "length (ie_key e) = get16 e 10" by (simp add: ie_key_def)
  have "lies_at b (p + 16) (ie_key e)"
    using lies_part [OF assms(2), of 16 "get16 e 10"] k by (auto simp: ie_key_def lies_at_def mem_get_def split: if_splits)
  then obtain rest where "drop (p + 16) b = ie_key e @ rest" by (metis append_take_drop_id chunk_def lies_at_def)
  then show "ntfs_collate_binary mc key (length key) (drop (p + 16) b) (get16 e 10) = ntfs_collate_binary mc key (length key) (ie_key e) (length (ie_key e))"
    by (simp add: ntfs_collate_binary_def mem_get_def chunk_def len)
  then show "\<exists>r. ntfs_collate_binary mc key (length key) (drop (p + 16) b) (get16 e 10) = Some r \<and> sgn r = cmp key (ie_key e)"
    using ntfs_collate_binary_ok [OF assms(1), of key "ie_key e"] by simp
qed

lemma lookup_skips:
  assumes "memcmp_law mc"
  shows "lies_at b p (concat (xs @ es) @ t) \<Longrightarrow> entries (xs @ es) t \<Longrightarrow> p + length (concat (xs @ es) @ t) = ee \<Longrightarrow>
    (\<forall>x \<in> set xs. key_entry x \<and> (\<exists>r. ntfs_collate_binary mc key (length key) (ie_key x) (length (ie_key x)) = Some r \<and> (r < - 2 \<or> 0 < r))) \<Longrightarrow>
    lookup_loop (Some (ntfs_collate_binary mc)) key (length key) b ee p n
      = lookup_loop (Some (ntfs_collate_binary mc)) key (length key) b ee (p + length (concat xs)) (n + length xs)"
proof (induction xs arbitrary: p n)
  case (Cons x xs)
  have l: "lies_at b p x" using Cons.prems(1) by simp
  obtain r where r: "ntfs_collate_binary mc key (length key) (drop (p + 16) b) (get16 x 10) = Some r" "r < - 2 \<or> 0 < r"
    using Cons.prems(4) binary_entry(1) [OF assms l, of key] by auto
  have "lookup_loop (Some (ntfs_collate_binary mc)) key (length key) b ee p n
      = lookup_loop (Some (ntfs_collate_binary mc)) key (length key) b ee (p + length x) (n + 1)"
    using lookup_step [of b p x "xs @ es" t ee "ntfs_collate_binary mc" key "length key" n] Cons.prems(1-3) r
    by (auto simp: NTFS_COLLATION_ERROR_def)
  also have "\<dots> = lookup_loop (Some (ntfs_collate_binary mc)) key (length key) b ee (p + length x + length (concat xs)) (n + 1 + length xs)"
    using Cons.prems by (intro Cons.IH) (simp_all add: add.assoc)
  finally show ?case by (simp add: add.assoc)
qed simp

text \<open>
  C39. Nothing keeps the key of an entry inside the node: for an index of byte strings, when all entries of the node are well-formed for every
  check of the lookup and the key is greater than those before \<open>e\<close>, but the bytes of \<open>e\<close>'s key that are compared reach behind the buffer
  of the node, because \<open>key_length\<close> is larger than the entry, the lookup reads behind the buffer.
\<close>

theorem lookup_reads_outside_node:
  assumes "memcmp_law mc" "node_at b ih eo (es @ e # es') t" "\<forall>x \<in> set es. key_entry x \<and> ie_key x < key"
    and "length b < ih + eo + length (concat es) + 16 + min (length key) (get16 e 10)"
  shows "ntfs_ie_lookup (Some (ntfs_collate_binary mc)) key (length key) b ih = None"
proof -
  let ?p = "ih + eo + length (concat es)"
  have n: "lies_at b (ih + eo) (concat (es @ e # es') @ t)" "entries (es @ e # es') t" using assms(2) by (simp_all add: node_at_def)
  have "\<forall>x \<in> set es. key_entry x \<and> (\<exists>r. ntfs_collate_binary mc key (length key) (ie_key x) (length (ie_key x)) = Some r \<and> (r < - 2 \<or> 0 < r))"
  proof
    fix x assume "x \<in> set es"
    then have "key_entry x" "cmp key (ie_key x) = 1" using assms(3) by (auto simp: cmp_def)
    then show "key_entry x \<and> (\<exists>r. ntfs_collate_binary mc key (length key) (ie_key x) (length (ie_key x)) = Some r \<and> (r < - 2 \<or> 0 < r))"
      using ntfs_collate_binary_ok [OF assms(1), of key "ie_key x"] by (auto simp: sgn_if split: if_splits)
  qed
  note skip = lookup_skips [OF assms(1) n _ this]
  have l: "lies_at b ?p (concat (e # es') @ t)" "entries (e # es') t" using n by (simp_all add: entries_append)
  have "ntfs_collate_binary mc key (length key) (drop (?p + 16) b) (get16 e 10) = None"
  proof -
    have "16 \<le> length e" "?p + length e \<le> length b" using l by (auto simp: entry_ok_def dest: lies_at_mono)
    then have "length (drop (?p + 16) b) < min (length key) (get16 e 10)" using assms(4) unfolding length_drop by linarith
    then have "mem_get (drop (?p + 16) b) 0 (min (length key) (get16 e 10)) = None" unfolding mem_get_def by (simp only: add_0 not_le if_False flip: not_le)
    then show ?thesis by (simp add: ntfs_collate_binary_def Option.bind_eq_None_conv)
  qed
  then have "lookup_loop (Some (ntfs_collate_binary mc)) key (length key) b (ih + (eo + length (concat (es @ e # es') @ t))) ?p (0 + length es) = None"
    using lookup_step [OF l refl, of "ntfs_collate_binary mc" key "length key" "0 + length es"] by (simp add: add.assoc)
  then show ?thesis using skip [of "ih + (eo + length (concat (es @ e # es') @ t))" 0]
    unfolding lookup_from_first [OF assms(2)] by (simp add: add.assoc)
qed

text \<open>A node of 56 bytes with an entry of 24 bytes that claims a key of 200.\<close>

definition long_key_entry :: bytes where
  "long_key_entry = raw_entry 24 200 0 (replicate 8 0)"

theorem lookup_reads_outside_node_witness:
  "length (node_bytes [long_key_entry] end_entry []) = 56
   \<and> ntfs_ie_lookup (Some (ntfs_collate_binary memcmp_diff)) (replicate 100 7) (length (replicate 100 (7 :: u8)))
       (node_bytes [long_key_entry] end_entry []) 0 = None"
proof -
  have e: "entry_ok long_key_entry" "\<not> is_last long_key_entry" "length long_key_entry = 24" "get16 long_key_entry 10 = 200"
    by (simp_all add: long_key_entry_def entry_ok_def is_last_def is_node_def raw_entry_fields)
  then have n: "node_at (node_bytes ([] @ [long_key_entry]) end_entry []) 0 16 ([] @ [long_key_entry]) end_entry"
    using end_entry_ok by (intro node_bytes_at) (simp_all add: entries_def)
  have l: "length (node_bytes [long_key_entry] end_entry []) = 56" using e(3) end_entry_ok(4) by (simp add: node_bytes_def)
  have "ntfs_ie_lookup (Some (ntfs_collate_binary memcmp_diff)) (replicate 100 7) (length (replicate 100 (7 :: u8)))
       (node_bytes ([] @ [long_key_entry]) end_entry []) 0 = None"
    by (rule lookup_reads_outside_node [OF memcmp_diff_law n]) (simp_all add: l e(4))
  then show ?thesis using l by simp
qed

definition byte_entry :: "u8 \<Rightarrow> bytes" where
  "byte_entry k = raw_entry 24 1 0 (k # replicate 7 0)"

lemma byte_entry_ok: "key_entry (byte_entry k)" "\<not> is_node (byte_entry k)" "get16 (byte_entry k) 10 = 1" "length (byte_entry k) = 24"
  "ie_key (byte_entry k) = [k]"
proof -
  show f: "key_entry (byte_entry k)" "\<not> is_node (byte_entry k)" "get16 (byte_entry k) 10 = 1" "length (byte_entry k) = 24"
    by (simp_all add: byte_entry_def key_entry_def entry_ok_def is_last_def is_node_def raw_entry_fields)
  show "ie_key (byte_entry k) = [k]" unfolding ie_key_def f(3) by (simp add: byte_entry_def raw_entry_def chunk_def)
qed

text \<open>
  C40. The lookup of a byte string depends on the value \<open>memcmp\<close> returns, of which C fixes only the sign. For a key that is less than every key of
  a node, the result of comparing it with the first key is negative, and with -1 its place is before the first entry, as
  it should be; with -2 the lookup fails with \<open>ERANGE\<close>, as for a collation error; and if all results are less than -2, its place is behind all the
  entries, where it does not belong.
\<close>

theorem binary_lookup_needs_minus_one:
  assumes "memcmp_law mc" "node_at b ih eo es t" "es \<noteq> []" "\<not> is_node t"
    and "\<forall>e \<in> set es. key_entry e \<and> \<not> is_node e \<and> get16 e 10 = length key \<and> key < ie_key e"
  shows "mc key (ie_key (hd es)) < 0
    \<and> (mc key (ie_key (hd es)) = - 1 \<longrightarrow> ntfs_ie_lookup (Some (ntfs_collate_binary mc)) key (length key) b ih = Some (NotFound (ih + eo)))
    \<and> (mc key (ie_key (hd es)) = - 2 \<longrightarrow> ntfs_ie_lookup (Some (ntfs_collate_binary mc)) key (length key) b ih = Some (LookupError ERANGE))
    \<and> ((\<forall>e \<in> set es. mc key (ie_key e) < - 2) \<longrightarrow>
         ntfs_ie_lookup (Some (ntfs_collate_binary mc)) key (length key) b ih = Some (NotFound (ih + eo + length (concat es))))"
proof -
  let ?col = "ntfs_collate_binary mc" and ?ee = "ih + (eo + length (concat es @ t))"
  obtain e es' where es: "es = e # es'" using assms(3) by (cases es) auto
  have n: "lies_at b (ih + eo) (concat es @ t)" "entries es t" using assms(2) by (simp_all add: node_at_def)
  have len: "length (ie_key x) = length key" if "x \<in> set es" for x using that assms(5) by (auto simp: ie_key_def key_entry_def)
  have col: "?col key (length key) (ie_key x) (length (ie_key x)) = Some (mc key (ie_key x))" if "x \<in> set es" for x
    using len [OF that] by (simp add: ntfs_collate_binary_def mem_get_def chunk_full)
  have neg: "mc key (ie_key x) < 0" if "x \<in> set es" for x
  proof -
    have "cmp key (ie_key x) = - 1" using assms(5) that by (simp add: cmp_def)
    then have "sgn (mc key (ie_key x)) = - 1" using assms(1) len [OF that] unfolding memcmp_law_def by metis
    then show ?thesis by (simp add: sgn_if split: if_splits)
  qed
  have e: "lies_at b (ih + eo) e" "key_entry e" "entry_ok e" "\<not> is_node e" using n(1) assms(5) by (auto simp: es key_entry_def)
  have fst: "?col key (length key) (drop (ih + eo + 16) b) (get16 e 10) = Some (mc key (ie_key e))"
    using binary_entry(1) [OF assms(1) e(1,2), of key] col [of e] by (simp add: es)
  have step: "lookup_loop (Some ?col) key (length key) b ?ee (ih + eo) 0 = (if mc key (ie_key e) = - 2 then Some (Inl (LookupError ERANGE))
      else if mc key (ie_key e) = - 1 then Some (Inr (ih + eo, 0)) else lookup_loop (Some ?col) key (length key) b ?ee (ih + eo + length e) 1)"
  proof -
    have "mc key (ie_key e) \<noteq> 0" using neg [of e] by (simp add: es)
    moreover have "ih + eo + length (concat (e # es') @ t) = ?ee" by (simp add: es)
    note lookup_step [OF n [unfolded es] this, of ?col key "length key" 0, unfolded fst]
    ultimately show ?thesis by (simp add: NTFS_COLLATION_ERROR_def)
  qed
  have first: "mc key (ie_key e) = - 1 \<longrightarrow> ntfs_ie_lookup (Some ?col) key (length key) b ih = Some (NotFound (ih + eo))"
    using entry_fields(3) [OF e(1,3)] e(4) unfolding lookup_from_first [OF assms(2)] step by (simp add: is_node_def)
  have second: "mc key (ie_key e) = - 2 \<longrightarrow> ntfs_ie_lookup (Some ?col) key (length key) b ih = Some (LookupError ERANGE)"
    unfolding lookup_from_first [OF assms(2)] step by simp
  have third: "ntfs_ie_lookup (Some ?col) key (length key) b ih = Some (NotFound (ih + eo + length (concat es)))"
    if "\<forall>x \<in> set es. mc key (ie_key x) < - 2"
  proof -
    have t: "lies_at b (ih + eo + length (concat es)) t" "entry_ok t" "is_last t" using n entries_last by auto
    have "lookup_loop (Some ?col) key (length key) b ?ee (ih + eo) 0
        = lookup_loop (Some ?col) key (length key) b ?ee (ih + eo + length (concat es)) (0 + length es)"
      using that n col assms(5) by (intro lookup_skips [OF assms(1), where es = "[]" and t = t]) (auto simp: add.assoc)
    also have "\<dots> = Some (Inr (ih + eo + length (concat es), length es))"
      using t by (subst lookup_loop.simps) (simp add: entry_fields [OF t(1,2)] entry_ok_def)
    finally show ?thesis
      using entry_fields(3) [OF t(1,2)] assms(4) unfolding lookup_from_first [OF assms(2)] by (simp add: is_node_def)
  qed
  show ?thesis using neg [of e] first second third by (simp add: es)
qed

theorem binary_lookup_needs_minus_one_witness:
  "ntfs_ie_lookup (Some (ntfs_collate_binary memcmp_diff)) [3] (length [3 :: u8]) (node_bytes [byte_entry 5] end_entry []) 0 = Some (LookupError ERANGE)
   \<and> ntfs_ie_lookup (Some (ntfs_collate_binary memcmp_diff)) [1] (length [1 :: u8]) (node_bytes [byte_entry 5] end_entry []) 0 = Some (NotFound 40)
   \<and> ntfs_ie_lookup (Some (ntfs_collate_binary cmp)) [1] (length [1 :: u8]) (node_bytes [byte_entry 5] end_entry []) 0 = Some (NotFound 16)"
proof -
  have n: "node_at (node_bytes [byte_entry 5] end_entry []) 0 16 [byte_entry 5] end_entry"
    using byte_entry_ok [of 5] end_entry_ok by (intro node_bytes_at) (simp_all add: entries_def key_entry_def)
  have l: "\<forall>e \<in> set [byte_entry 5]. key_entry e \<and> \<not> is_node e \<and> get16 e 10 = length [k :: u8] \<and> [k] < ie_key e" if "k < 5" for k
    using that byte_entry_ok [of 5] by simp
  note u = binary_lookup_needs_minus_one [OF _ n _ end_entry_ok(3) l]
  show ?thesis
    using u [OF memcmp_diff_law, of 3] u [OF memcmp_diff_law, of 1] u [OF memcmp_sign_law, of 1] byte_entry_ok [of 5] by (simp add: cmp_def)
qed

end
