(* ===== verification/IndexSplit.thy ===== *)
theory IndexSplit
  imports IndexNode
begin

text \<open>
  The blocks of an index, from \<open>libntfs_ext/source/index.c\<close>: a new block, the root that moves to a block when the index grows, and the split of a
  block that is full: the entries after the median go to a new block, the median to the parent, and the block keeps those before it.
\<close>

section \<open>New blocks\<close>

definition ntfs_ib_alloc :: "bool \<Rightarrow> int \<Rightarrow> nat \<Rightarrow> nat \<Rightarrow> bytes option option" where
  "ntfs_ib_alloc room ib_vcn ib_size node_type =
     (if room then do {
        let usa_count = (ib_size div NTFS_BLOCK_SIZE + 1) mod 65536;
        let ib = replicate ib_size 0;
        ib \<leftarrow> mem_put ib 0 (le_bytes 4 magic_INDX);
        ib \<leftarrow> mem_put ib 4 (le_bytes 2 40);
        ib \<leftarrow> mem_put ib 6 (le_bytes 2 usa_count);
        ib \<leftarrow> mem_put ib 40 (le_bytes 2 1);
        ib \<leftarrow> mem_put ib 8 (le_bytes 8 0);
        ib \<leftarrow> mem_put ib 16 (le_bytes 8 (nat (ib_vcn mod 2 ^ 64)));
        ib \<leftarrow> mem_put ib 24 (le_bytes 4 ((16 + usa_count * 2 + 7) div 8 * 8));
        ib \<leftarrow> mem_put ib 28 (le_bytes 4 0);
        ib \<leftarrow> mem_put ib 32 (le_bytes 4 (u32i (int ib_size - 24)));
        ib \<leftarrow> mem_put ib 36 (le_bytes 1 node_type);
        Some (Some ib) }
      else Some None)"

text \<open>The root moves to a block when the index grows: \<open>ir\<close> is the offset of the \<open>INDEX_ROOT\<close>.\<close>

definition ntfs_ir_to_ib :: "bool \<Rightarrow> bytes \<Rightarrow> nat \<Rightarrow> int \<Rightarrow> bytes option option" where
  "ntfs_ir_to_ib room b ir ib_vcn = do {
     size \<leftarrow> fetch32 b (ir + 8);
     r \<leftarrow> ntfs_ib_alloc room ib_vcn size 0;
     case r of None \<Rightarrow> Some None
     | Some ib \<Rightarrow> do {
         ies_start \<leftarrow> ntfs_ie_get_first b (ir + 16);
         ies_end \<leftarrow> ntfs_ie_get_end b (ir + 16);
         ie_last \<leftarrow> ntfs_ie_get_last b ies_start ies_end;
         l \<leftarrow> ie_length b ie_last;
         let i = ie_last - ies_start + l;
         x \<leftarrow> mem_get b ies_start i;
         first \<leftarrow> ntfs_ie_get_first ib 24;
         ib \<leftarrow> mem_put ib first x;
         flags \<leftarrow> mem_get b (ir + 28) 1;
         ib \<leftarrow> mem_put ib 36 flags;
         eo \<leftarrow> entries_offset ib 24;
         ib \<leftarrow> set_index_length ib 24 (u32 (i + eo));
         Some (Some ib) } }"

definition ntfs_ir_nill :: "bytes \<Rightarrow> nat \<Rightarrow> bytes option" where
  "ntfs_ir_nill b ir = do {
     ies_start \<leftarrow> ntfs_ie_get_first b (ir + 16);
     ies_end \<leftarrow> ntfs_ie_get_end b (ir + 16);
     ie_last \<leftarrow> ntfs_ie_get_last b ies_start ies_end;
     if ie_last > ies_start then do { l \<leftarrow> ie_length b ie_last; mem_move b ies_start ie_last (int l) } else Some b }"

section \<open>Splitting a block\<close>

text \<open>\<open>ib_write\<close> writes a block to the index allocation, in the state \<open>v\<close>; the result tells whether it failed, and what is in the buffer of the
  block after the write.\<close>

definition ntfs_ib_copy_tail :: "bool \<Rightarrow> (bytes \<Rightarrow> 'v \<Rightarrow> (bool \<times> bytes \<times> 'v) option) \<Rightarrow> nat \<Rightarrow> bytes \<Rightarrow> nat \<Rightarrow> int \<Rightarrow> 'v \<Rightarrow> (bool \<times> 'v) option" where
  "ntfs_ib_copy_tail room ib_write block_size src median new_vcn v = do {
     flags \<leftarrow> mem_get src 36 1;
     r \<leftarrow> ntfs_ib_alloc room new_vcn block_size (unat (hd flags) mod 2);
     case r of None \<Rightarrow> Some (True, v)
     | Some dst \<Rightarrow> do {
         ie_head \<leftarrow> ntfs_ie_get_next src median;
         ies_end \<leftarrow> ntfs_ie_get_end src 24;
         if ies_end < ie_head then None
         else do {
           x \<leftarrow> mem_get src ie_head (ies_end - ie_head);
           first \<leftarrow> ntfs_ie_get_first dst 24;
           dst \<leftarrow> mem_put dst first x;
           eo \<leftarrow> entries_offset dst 24;
           dst \<leftarrow> set_index_length dst 24 (u32 (ies_end - ie_head + eo));
           (failed, dst, v) \<leftarrow> ib_write dst v;
           Some (failed, v) } } }"

text \<open>\<open>memcpy\<close> inside a buffer: the two places must not overlap.\<close>

definition mem_copy :: "bytes \<Rightarrow> nat \<Rightarrow> nat \<Rightarrow> nat \<Rightarrow> bytes option" where
  "mem_copy b to from n = (if 0 < n \<and> to < from + n \<and> from < to + n then None else do { x \<leftarrow> mem_get b from n; mem_put b to x })"

definition ntfs_ib_cut_tail :: "(bytes \<Rightarrow> 'v \<Rightarrow> (bool \<times> bytes \<times> 'v) option) \<Rightarrow> bytes \<Rightarrow> nat \<Rightarrow> 'v \<Rightarrow> (bool \<times> bytes \<times> 'v) option" where
  "ntfs_ib_cut_tail ib_write ib ie v = do {
     ies_start \<leftarrow> ntfs_ie_get_first ib 24;
     ies_end \<leftarrow> ntfs_ie_get_end ib 24;
     ie_last \<leftarrow> ntfs_ie_get_last ib ies_start ies_end;
     f \<leftarrow> ie_flags ib ie_last;
     ib \<leftarrow> (if (f AND INDEX_ENTRY_NODE) \<noteq> 0 then do { vcn \<leftarrow> ntfs_ie_get_vcn ib ie; ntfs_ie_set_vcn ib ie_last vcn } else Some ib);
     l \<leftarrow> ie_length ib ie_last;
     ib \<leftarrow> mem_copy ib ie ie_last l;
     l \<leftarrow> ie_length ib ie;
     eo \<leftarrow> entries_offset ib 24;
     ib \<leftarrow> set_index_length ib 24 (u32i (int ie - int ies_start + int l + int eo));
     ib_write ib v }"

text \<open>The entry \<open>orig_ie\<close> of the buffer \<open>src\<close> gets the place before the entry with the number \<open>pos\<close>, whose block becomes \<open>new_vcn\<close>.\<close>

definition ntfs_ih_insert :: "bool \<Rightarrow> u8 \<Rightarrow> bytes \<Rightarrow> nat \<Rightarrow> bytes \<Rightarrow> nat \<Rightarrow> int \<Rightarrow> nat \<Rightarrow> (bool \<times> bytes) option" where
  "ntfs_ih_insert room junk b ih src orig_ie new_vcn pos = do {
     r \<leftarrow> ntfs_ie_dup room src orig_ie;
     case r of None \<Rightarrow> Some (True, b)
     | Some ie \<Rightarrow> do {
         f \<leftarrow> ie_flags ie 0;
         r \<leftarrow> (if (f AND INDEX_ENTRY_NODE) = 0 then ntfs_ie_add_vcn room junk ie else Some (Some ie));
         case r of None \<Rightarrow> Some (True, b)
         | Some ie \<Rightarrow> do {
             ie_node \<leftarrow> ntfs_ie_get_by_pos b ih pos;
             old_vcn \<leftarrow> ntfs_ie_get_vcn b ie_node;
             b \<leftarrow> ntfs_ie_set_vcn b ie_node new_vcn;
             b \<leftarrow> ntfs_ie_insert b ih ie ie_node;
             b \<leftarrow> ntfs_ie_set_vcn b ie_node old_vcn;
             Some (False, b) } } }"

section \<open>Well-formed blocks\<close>

text \<open>The parts of a block outside its node: what \<open>ntfs_ia_check\<close> looks at.\<close>

definition is_block :: "bytes \<Rightarrow> int \<Rightarrow> nat \<Rightarrow> bool" where
  "is_block ib vcn n \<longleftrightarrow> length ib = n \<and> lies_at ib 0 (le_bytes 4 magic_INDX) \<and> lies_at ib 16 (le_bytes 8 (nat (vcn mod 2 ^ 64)))
     \<and> lies_at ib 32 (le_bytes 4 (n - 24))"

text \<open>Where the entries of a new block start.\<close>

definition block_eo :: "nat \<Rightarrow> nat" where
  "block_eo n = (16 + (n div 512 + 1) * 2 + 7) div 8 * 8"

lemma block_eo_ge: "16 \<le> block_eo n" "18 + n div 512 * 2 \<le> block_eo n" "block_eo n \<le> 25 + n div 512 * 2"
proof -
  have "block_eo n + (25 + n div 512 * 2) mod 8 = 25 + n div 512 * 2"
    using div_mult_mod_eq [of "25 + n div 512 * 2" 8] by (simp add: block_eo_def add.commute)
  moreover have "(25 + n div 512 * 2) mod 8 < 8" by simp
  ultimately show "16 \<le> block_eo n" "18 + n div 512 * 2 \<le> block_eo n" "block_eo n \<le> 25 + n div 512 * 2" by linarith+
qed

lemma fetch_lies_bytes:
  "lies_at b i (le_bytes 4 v) \<Longrightarrow> fetch32 b i = Some (v mod 2 ^ 32)" "lies_at b i (le_bytes 8 v) \<Longrightarrow> fetch64 b i = Some (v mod 2 ^ 64)"
  using lies_part [of b i "le_bytes 4 v" 0 4] lies_part [of b i "le_bytes 8 v" 0 8]
  by (simp_all add: fetch32_def fetch64_def le_val_le_bytes chunk_full)

lemma ia_check_ok:
  assumes "is_block ib vcn n" "in_s64 vcn" "48 \<le> n" "n < 2 ^ 32"
  shows "ntfs_ia_check n ib vcn = Some True"
proof -
  have v: "s64 (int (nat (vcn mod 2 ^ 64) mod 2 ^ 64)) = vcn"
  proof -
    have "nat (vcn mod 2 ^ 64) < 2 ^ 64" by (simp add: nat_less_iff)
    then have "int (nat (vcn mod 2 ^ 64) mod 2 ^ 64) = vcn mod 2 ^ 64" by simp
    then show ?thesis using assms(2) by (simp add: s64_def mod_simps in_s64_def)
  qed
  have m: "magic_INDX mod 2 ^ 32 = magic_INDX" by (simp add: magic_INDX_def)
  have f: "fetch32 ib 32 = Some ((n - 24) mod 2 ^ 32)" "fetch32 ib 0 = Some magic_INDX" "fetch64 ib 16 = Some (nat (vcn mod 2 ^ 64) mod 2 ^ 64)"
    using assms(1) fetch_lies_bytes [of ib] m unfolding is_block_def by metis+
  have "u32 ((n - 24) mod 2 ^ 32 + 0x18) = n" using assms(3,4) by (simp add: u32_def)
  then show ?thesis using f v by (simp add: ntfs_ia_check_def)
qed

lemma is_block_blit: "is_block ib vcn n \<Longrightarrow> i + length ys \<le> n \<Longrightarrow> 24 \<le> i \<and> i + length ys \<le> 32 \<or> 36 \<le> i \<Longrightarrow> is_block (blit ib i ys) vcn n"
  unfolding is_block_def by (auto intro!: lies_at_blit_other)

text \<open>Where the update sequence array is: behind the header, before the entries.\<close>

definition usa_ok :: "bytes \<Rightarrow> nat \<Rightarrow> nat \<Rightarrow> bool" where
  "usa_ok ib eo n \<longleftrightarrow> mst_layout ib n \<and> 40 \<le> usa_ofs ib \<and> usa_ofs ib + 2 * (usa_fixups ib + 1) \<le> 24 + eo"

lemma block_magic: "is_block ib vcn n \<Longrightarrow> good_magic ib"
proof -
  assume "is_block ib vcn n"
  then have "le_val (chunk 0 4 ib) = 0x58444e49"
    using le_val_le_bytes [of 4 magic_INDX] by (simp add: is_block_def lies_at_def magic_INDX_def)
  moreover have "le_val magic_BAAD \<noteq> 0x58444e49" "le_val magic_HOLE \<noteq> 0x58444e49" by (simp_all add: magic_BAAD_def magic_HOLE_def)
  ultimately show "good_magic ib" unfolding good_magic_def by metis
qed

lemma usa_ok_same:
  assumes "usa_ok b eo n" "length c = n" "chunk 4 4 c = chunk 4 4 b"
  shows "usa_ok c eo n"
proof -
  have "c ! i = b ! i" if "4 \<le> i" "i < 8" for i
    using arg_cong [OF assms(3), of "\<lambda>xs. xs ! (i - 4)"] that mst_layoutD(1,8) [of b n] assms(1,2) by (simp add: nth_chunk usa_ok_def)
  then show ?thesis using assms(1) mst_layout_cong [of b n c] assms(2) by (simp add: usa_ok_def)
qed

lemma usa_ok_new:
  assumes "length ib = n" "0 < n" "n mod 512 = 0" "n \<le> 65536" "lies_at ib 4 (le_bytes 2 40)" "lies_at ib 6 (le_bytes 2 (n div 512 + 1))"
  shows "usa_ok ib (block_eo n) n"
proof -
  have o: "usa_ofs ib = 40" using assms(5) le_val_le_bytes [of 2 40] by (simp add: usa_ofs_def get16_def lies_at_def)
  have d: "n div 512 \<le> 128" using assms(4) by linarith
  have "get16 ib 6 = n div 512 + 1" using assms(6) le_val_le_bytes [of 2 "n div 512 + 1"] d by (simp add: get16_def lies_at_def)
  then have f: "usa_fixups ib = n div 512" using d by (simp add: usa_fixups_def)
  obtain k where k: "n = 512 * k" using assms(3) by (auto elim: dvdE simp: mod_eq_0_iff_dvd)
  then have "40 + n div 512 * 2 \<le> n" using assms(2) by simp
  then show ?thesis using assms(1-3) d block_eo_ge(2) [of n] by (simp add: usa_ok_def mst_layout_def mst_bad_header_def NTFS_BLOCK_SIZE_def o f)
qed

lemma ib_alloc_ok:
  assumes "48 \<le> n" "n \<le> 65536"
  shows "\<exists>ib. ntfs_ib_alloc True vcn n ty = Some (Some ib) \<and> is_block ib vcn n \<and> lies_at ib 24 (le_bytes 4 (block_eo n)) \<and> lies_at ib 36 (le_bytes 1 ty)
    \<and> lies_at ib 4 (le_bytes 2 40) \<and> lies_at ib 6 (le_bytes 2 (n div 512 + 1))"
proof -
  have "n div 512 + 1 < 65536" using assms(2) by linarith
  then have u: "(n div NTFS_BLOCK_SIZE + 1) mod 65536 = n div 512 + 1" by (simp add: NTFS_BLOCK_SIZE_def)
  have s: "u32i (int n - 24) = n - 24" using assms by (subst u32i_id) auto
  define b1 where "b1 = blit (blit (blit (blit (blit (replicate n 0) 0 (le_bytes 4 magic_INDX)) 4 (le_bytes 2 40)) 6 (le_bytes 2 (n div 512 + 1))) 40 (le_bytes 2 1)) 8 (le_bytes 8 0)"
  define b2 where "b2 = blit (blit b1 16 (le_bytes 8 (nat (vcn mod 2 ^ 64)))) 24 (le_bytes 4 (block_eo n))"
  define b3 where "b3 = blit (blit (blit b2 28 (le_bytes 4 0)) 32 (le_bytes 4 (n - 24))) 36 (le_bytes 1 ty)"
  have l1: "length b1 = n" unfolding b1_def using assms(1) by simp
  have l2: "length b2 = n" unfolding b2_def using assms(1) l1 by simp
  have l3: "length b3 = n" unfolding b3_def using assms(1) l2 by simp
  have "ntfs_ib_alloc True vcn n ty = Some (Some b3)"
    unfolding ntfs_ib_alloc_def u s Let_def block_eo_def [symmetric]
    using assms(1) by (simp add: mem_put_def b3_def b2_def b1_def)
  moreover have u1: "lies_at b1 0 (le_bytes 4 magic_INDX)" "lies_at b1 4 (le_bytes 2 40)" "lies_at b1 6 (le_bytes 2 (n div 512 + 1))"
    unfolding b1_def using assms(1) by (auto intro!: lies_at_blit_other lies_at_blit)
  have "lies_at b2 4 (le_bytes 2 40)" "lies_at b2 6 (le_bytes 2 (n div 512 + 1))"
    unfolding b2_def using u1 assms(1) l1 by (auto intro!: lies_at_blit_other)
  then have "lies_at b3 4 (le_bytes 2 40)" "lies_at b3 6 (le_bytes 2 (n div 512 + 1))"
    unfolding b3_def using assms(1) l2 by (auto intro!: lies_at_blit_other)
  moreover from u1 have "lies_at b2 0 (le_bytes 4 magic_INDX)" "lies_at b2 16 (le_bytes 8 (nat (vcn mod 2 ^ 64)))" "lies_at b2 24 (le_bytes 4 (block_eo n))"
    unfolding b2_def using assms(1) l1 by (auto intro!: lies_at_blit_other lies_at_blit)
  then have "lies_at b3 0 (le_bytes 4 magic_INDX)" "lies_at b3 16 (le_bytes 8 (nat (vcn mod 2 ^ 64)))" "lies_at b3 24 (le_bytes 4 (block_eo n))"
    "lies_at b3 32 (le_bytes 4 (n - 24))" "lies_at b3 36 (le_bytes 1 ty)"
    unfolding b3_def using assms(1) l2 by (auto intro!: lies_at_blit_other lies_at_blit)
  ultimately show ?thesis using l3 by (auto simp: is_block_def)
qed

text \<open>The entries are put into a new block.\<close>

lemma fill_block:
  assumes "is_block ib vcn n" "lies_at ib 24 (le_bytes 4 eo)" "16 \<le> eo" "24 + eo + length (concat es @ t) \<le> n" "n < 2 ^ 32" "entries es t"
  shows "mem_put ib (24 + eo) (concat es @ t) = Some (blit ib (24 + eo) (concat es @ t))"
    and "set_index_length (blit ib (24 + eo) (concat es @ t)) 24 (eo + length (concat es @ t))
      = Some (blit (blit ib (24 + eo) (concat es @ t)) 28 (le_bytes 4 (eo + length (concat es @ t))))"
    and "entries_offset (blit ib (24 + eo) (concat es @ t)) 24 = Some eo"
    and "node_at (blit (blit ib (24 + eo) (concat es @ t)) 28 (le_bytes 4 (eo + length (concat es @ t)))) 24 eo es t"
    and "is_block (blit (blit ib (24 + eo) (concat es @ t)) 28 (le_bytes 4 (eo + length (concat es @ t)))) vcn n"
proof -
  let ?xs = "concat es @ t"
  let ?b = "blit ib (24 + eo) ?xs"
  have n: "length ib = n" using assms(1) by (simp add: is_block_def)
  have l: "length ?b = n" using assms(4) n by simp
  show "mem_put ib (24 + eo) ?xs = Some ?b" using assms(4) n by (simp add: mem_put_def)
  show "set_index_length ?b 24 (eo + length ?xs) = Some (blit ?b 28 (le_bytes 4 (eo + length ?xs)))"
    using assms(3,4) l by (simp add: set_index_length_def mem_put_def)
  have e: "lies_at ?b 24 (le_bytes 4 eo)" "lies_at ?b (24 + eo) ?xs"
    using assms(2-4) n by (auto intro!: lies_at_blit_other lies_at_blit simp del: lies_at_append)
  show "entries_offset ?b 24 = Some eo" using e(1) assms(4,5) fetch32_lies [of ?b 24 eo] by (simp add: entries_offset_def)
  let ?c = "blit ?b 28 (le_bytes 4 (eo + length ?xs))"
  have "lies_at ?c 28 (le_bytes 4 (eo + length ?xs))" "lies_at ?c 24 (le_bytes 4 eo)" "lies_at ?c (24 + eo) ?xs"
    using assms(3,4) l e by (auto intro!: lies_at_blit_other lies_at_blit simp del: lies_at_append)
  then show "node_at ?c 24 eo es t" using assms(3-6) by (simp add: node_at_def)
  show "is_block ?c vcn n" using assms(1,3,4) by (intro is_block_blit) auto
qed

section \<open>The steps of a split\<close>

lemma mem_copy_ok:
  assumes "lies_at b from xs" "to + length xs \<le> from" "n = length xs"
  shows "mem_copy b to from n = Some (blit b to xs)"
  using assms lies_at_mono [OF assms(1)] by (simp add: mem_copy_def mem_put_def)

lemma get_median_ok:
  assumes "node_at b ih eo es t"
  shows "ntfs_ie_get_median b ih = Some (entry_pos ih eo es (length es div 2))"
proof -
  have n: "lies_at b (ih + eo) (concat es @ t)" "entries es t" using assms by (simp_all add: node_at_def)
  have "median_loop b (ih + (eo + length (concat es @ t))) (ih + eo) 0 = Some (length es)"
    using median_loop_ok [OF n, of "ih + (eo + length (concat es @ t))" 0] by (simp add: add.assoc)
  moreover have "get_by_pos b (length es div 2) (ih + eo) = Some (entry_pos ih eo es (length es div 2))"
    using get_by_pos_ok [OF n, of "length es div 2"] by (simp add: entry_pos_def)
  ultimately show ?thesis unfolding ntfs_ie_get_median_def node_header(3,4) [OF assms] by simp
qed

lemma byte_lies: "lies_at b i (le_bytes 1 v) \<Longrightarrow> unat (b ! i) = v mod 256"
  by (auto simp: lies_at_def chunk_def Cons_nth_drop_Suc [symmetric] unat_of_nat)

lemma copy_tail_ok:
  assumes node: "node_at src 24 eo (es @ m # es') t" and n: "length src = n" "n \<le> 65536" "block_eo n \<le> eo"
    and pos: "pos = 24 + eo + length (concat es)" and sectors: "n mod 512 = 0"
  shows "\<exists>d. ntfs_ib_copy_tail True ib_write n src pos vcn v = map_option (\<lambda>(failed, dst, v). (failed, v)) (ib_write d v)
    \<and> node_at d 24 (block_eo n) es' t \<and> is_block d vcn n \<and> usa_ok d (block_eo n) n \<and> unat (d ! 36) mod 2 = unat (src ! 36) mod 2"
proof -
  let ?xs = "concat es' @ t" and ?eo = "block_eo n"
  have h: "lies_at src pos m" "lies_at src (pos + length m) ?xs" "entry_ok m" "entries es' t"
    using node node_split [OF node] by (simp_all add: node_at_def pos entries_append)
  have room: "24 + ?eo + length ?xs \<le> n" using lies_at_mono [OF h(2)] n pos by simp
  have big: "48 \<le> n" using room block_eo_ge(1) [of n] h(4) by (auto simp: entries_def entry_ok_def)
  have fl: "mem_get src 36 1 = Some (chunk 36 1 src)" using big n(1) by (simp add: mem_get_def)
  obtain ib where ib: "ntfs_ib_alloc True vcn n (unat (hd (chunk 36 1 src)) mod 2) = Some (Some ib)" "is_block ib vcn n" "lies_at ib 24 (le_bytes 4 ?eo)"
    "lies_at ib 36 (le_bytes 1 (unat (hd (chunk 36 1 src)) mod 2))" "lies_at ib 4 (le_bytes 2 40)" "lies_at ib 6 (le_bytes 2 (n div 512 + 1))"
    using ib_alloc_ok [OF big n(2)] by blast
  have nxt: "ntfs_ie_get_next src pos = Some (pos + length m)" using entry_fields(5) [OF h(1,3)] .
  have en: "ntfs_ie_get_end src 24 = Some (pos + length m + length ?xs)" using node_header(4) [OF node] pos by simp
  have fb: "mem_put ib (24 + ?eo) ?xs = Some (blit ib (24 + ?eo) ?xs)"
    "set_index_length (blit ib (24 + ?eo) ?xs) 24 (?eo + length ?xs) = Some (blit (blit ib (24 + ?eo) ?xs) 28 (le_bytes 4 (?eo + length ?xs)))"
    "entries_offset (blit ib (24 + ?eo) ?xs) 24 = Some ?eo"
    "node_at (blit (blit ib (24 + ?eo) ?xs) 28 (le_bytes 4 (?eo + length ?xs))) 24 ?eo es' t"
    "is_block (blit (blit ib (24 + ?eo) ?xs) 28 (le_bytes 4 (?eo + length ?xs))) vcn n"
    using fill_block [OF ib(2,3) block_eo_ge(1) room _ h(4)] n(2) by simp_all
  have fst: "ntfs_ie_get_first ib 24 = Some (24 + ?eo)"
    using ib(3) room n(2) fetch32_lies [of ib 24 ?eo] by (simp add: ntfs_ie_get_first_def entries_offset_def)
  have u: "u32 (length ?xs + ?eo) = ?eo + length ?xs" using room n(2) by (subst u32_id) simp_all
  have x: "mem_get src (pos + length m) (length ?xs) = Some ?xs" by (rule mem_get_lies [OF h(2)]) simp
  have "ntfs_ib_copy_tail True ib_write n src pos vcn v
      = map_option (\<lambda>(failed, dst, v). (failed, v)) (ib_write (blit (blit ib (24 + ?eo) ?xs) 28 (le_bytes 4 (?eo + length ?xs))) v)"
    unfolding ntfs_ib_copy_tail_def fl bind.bind_lunit ib(1) option.case nxt en
    using x by (simp only: add_diff_cancel_left' bind.bind_lunit fst fb u) (simp split: Option.bind_split)
  moreover have "usa_ok (blit (blit ib (24 + ?eo) ?xs) 28 (le_bytes 4 (?eo + length ?xs))) (block_eo n) n"
    using ib(2,5,6) room big n(2) sectors by (intro usa_ok_new) (auto simp: is_block_def intro!: lies_at_blit_other simp del: lies_at_append)
  moreover have "lies_at (blit (blit ib (24 + ?eo) ?xs) 28 (le_bytes 4 (?eo + length ?xs))) 36 (le_bytes 1 (unat (hd (chunk 36 1 src)) mod 2))"
    using ib(2,4) room block_eo_ge(1) [of n] by (intro lies_at_blit_other) (simp_all add: is_block_def)
  moreover have "hd (chunk 36 1 src) = src ! 36" using big n(1) by (simp add: chunk_def hd_drop_conv_nth take_Suc)
  ultimately show ?thesis using fb(4,5) byte_lies by (intro exI [of _ "blit (blit ib (24 + ?eo) ?xs) 28 (le_bytes 4 (?eo + length ?xs))"]) simp
qed

lemma node_cut:
  assumes node: "node_at b ih eo (es @ es') t" and t': "entry_ok t'" "is_last t'" "length t' \<le> length (concat es' @ t)"
  shows "node_at (blit (blit b (ih + eo + length (concat es)) t') (ih + 4) (le_bytes 4 (eo + length (concat es @ t')))) ih eo es t'"
proof -
  let ?p = "ih + eo + length (concat es)"
  let ?b = "blit b ?p t'"
  have h: "16 \<le> eo" "lies_at b ih (le_bytes 4 eo)" "lies_at b (ih + 4) (le_bytes 4 (eo + length (concat (es @ es') @ t)))" "lies_at b (ih + eo) (concat es)"
    "lies_at b ?p (concat es' @ t)" using node node_split [OF node] by (simp_all add: node_at_def)
  have room: "?p + length t' \<le> length b" "length ?b = length b" using lies_at_mono [OF h(5)] t'(3) by simp_all
  have "lies_at ?b ?p t'" using room by (intro lies_at_blit)
  moreover have "lies_at ?b ih (le_bytes 4 eo)" "lies_at ?b (ih + eo) (concat es)"
    using h room by (auto intro!: lies_at_blit_other simp del: lies_at_append)
  ultimately have "lies_at (blit ?b (ih + 4) (le_bytes 4 (eo + length (concat es @ t')))) ?p t'"
    "lies_at (blit ?b (ih + 4) (le_bytes 4 (eo + length (concat es @ t')))) ih (le_bytes 4 eo)"
    "lies_at (blit ?b (ih + 4) (le_bytes 4 (eo + length (concat es @ t')))) (ih + eo) (concat es)"
    "lies_at (blit ?b (ih + 4) (le_bytes 4 (eo + length (concat es @ t')))) (ih + 4) (le_bytes 4 (eo + length (concat es @ t')))"
    using h(1) lies_at_mono [OF h(3)] room by (auto intro!: lies_at_blit_other lies_at_blit simp del: lies_at_append)
  then show ?thesis using node t' h(1) by (auto simp: node_at_def entries_def)
qed

text \<open>The last entry of the block that is cut: it leads to where the median led.\<close>

definition cut_last :: "bytes \<Rightarrow> bytes \<Rightarrow> bytes" where
  "cut_last m t = (if is_node t then with_vcn (ie_vcn m) t else t)"

lemma blit_lies:
  assumes "lies_at b i xs"
  shows "blit b i xs = b"
proof (rule nth_equalityI)
  have "xs ! (k - i) = b ! k" if "i \<le> k" "k < i + length xs" for k
    using assms that nth_chunk [of "k - i" "length xs" i b] by (simp add: lies_at_def)
  then show "blit b i xs ! k = b ! k" if "k < length (blit b i xs)" for k
    using lies_at_mono [OF assms] that by (simp add: nth_blit)
qed (simp add: lies_at_mono [OF assms])

lemma cut_last_fields:
  assumes "entry_ok t" "is_last t"
  shows "length (cut_last m t) = length t" "entry_ok (cut_last m t)" "is_last (cut_last m t)" "is_node (cut_last m t) = is_node t"
  using assms with_vcn_fields [OF assms(1)] by (simp_all add: cut_last_def)

lemma ie_get_last_node: "node_at b ih eo es t \<Longrightarrow>
  ntfs_ie_get_last b (ih + eo) (ih + (eo + length (concat es @ t))) = Some (ih + eo + length (concat es))"
  using get_last_ok [of b "ih + eo" es t "ih + (eo + length (concat es @ t))"] by (simp add: node_at_def add.assoc)

lemma cut_tail_ok:
  assumes node: "node_at ib 24 eo (es @ m # es') t" and m: "is_node t \<longrightarrow> is_node m" "length t \<le> length m"
    and pos: "pos = 24 + eo + length (concat es)"
  shows "\<exists>ib'. ntfs_ib_cut_tail ib_write ib pos v = ib_write ib' v
    \<and> node_at ib' 24 eo es (cut_last m t) \<and> length ib' = length ib \<and> (\<forall>vcn. is_block ib vcn (length ib) \<longrightarrow> is_block ib' vcn (length ib)) \<and> ib' ! 36 = ib ! 36
    \<and> (\<forall>n. usa_ok ib eo n \<longrightarrow> usa_ok ib' eo n)"
proof -
  let ?t = "cut_last m t" and ?q = "24 + eo + length (concat (es @ m # es'))"
  define b1 where "b1 = blit ib ?q ?t"
  define b2 where "b2 = blit b1 pos ?t"
  define b3 where "b3 = blit b2 28 (le_bytes 4 (eo + length (concat es @ ?t)))"
  have h: "16 \<le> eo" "lies_at ib pos m" "lies_at ib ?q t" "entry_ok m" "entry_ok t" "is_last t"
    "eo + length (concat (es @ m # es') @ t) < 2 ^ 32"
    using node node_split [OF node] by (simp_all add: node_at_def pos entries_append entries_def add.assoc)
  note tf = cut_last_fields [OF h(5,6), of m]
  note room = lies_at_mono [OF h(3)]
  have n1: "node_at b1 24 eo (es @ m # es') ?t" unfolding b1_def using node_update_last [OF node tf(2,3,1)] .
  have l1: "length b1 = length ib" unfolding b1_def using room tf(1) by (intro length_blit) linarith
  have set1: "(if (get16 t 12 AND INDEX_ENTRY_NODE) \<noteq> 0 then do { vcn \<leftarrow> ntfs_ie_get_vcn ib pos; ntfs_ie_set_vcn ib ?q vcn } else Some ib) = Some b1"
  proof (cases "is_node t")
    case True
    then show ?thesis using entry_vcn(2) [OF h(2,4)] m(1) ie_set_vcn_ok [OF h(3,5) True, of "ie_vcn m"]
      by (simp add: is_node_def b1_def cut_last_def)
  next
    case False
    then have "b1 = ib" unfolding b1_def using blit_lies [OF h(3)] by (simp add: cut_last_def)
    then show ?thesis using False by (simp add: is_node_def)
  qed
  have q: "lies_at b1 ?q ?t" using n1 by (simp add: node_at_def add.assoc)
  have copy: "mem_copy b1 pos ?q (length ?t) = Some b2"
    unfolding b2_def using q m(2) tf(1) pos by (intro mem_copy_ok) simp_all
  have n3: "node_at b3 24 eo es ?t"
    unfolding b3_def b2_def pos using node_cut [OF n1 tf(2,3)] by simp
  have l2: "length b2 = length ib" unfolding b2_def using l1 lies_at_mono [OF q] pos by (intro length_blit [THEN trans]) simp_all
  have p2: "lies_at b2 pos ?t" unfolding b2_def using l1 lies_at_mono [OF q] pos by (intro lies_at_blit) simp
  have e2: "lies_at b2 24 (le_bytes 4 eo)" "entries_offset b2 24 = Some eo"
  proof -
    have "lies_at b1 24 (le_bytes 4 eo)" using n1 by (simp add: node_at_def)
    then show e: "lies_at b2 24 (le_bytes 4 eo)" unfolding b2_def using lies_at_mono [OF q] pos h(1) by (intro lies_at_blit_other) simp_all
    show "entries_offset b2 24 = Some eo" using fetch32_lies [OF e] h(7) by (simp add: entries_offset_def)
  qed
  have len: "u32i (int pos - int (24 + eo) + int (length ?t) + int eo) = eo + length (concat es @ ?t)"
    using h(7) pos tf(1) by (subst u32i_id) simp_all
  have sil: "set_index_length b2 24 (eo + length (concat es @ ?t)) = Some b3"
    using l2 room h(1) by (simp add: set_index_length_def mem_put_def b3_def)
  have "ntfs_ib_cut_tail ib_write ib pos v = ib_write b3 v"
    unfolding ntfs_ib_cut_tail_def node_header(3,4) [OF node] bind.bind_lunit ie_get_last_node [OF node] entry_fields(3) [OF h(3,5)] set1
      entry_fields(1) [OF q tf(2)] copy entry_fields(1) [OF p2 tf(2)] e2(2) len sil ..
  moreover have "usa_ok b3 eo n" if "usa_ok ib eo n" for n
  proof (rule usa_ok_same [OF that])
    show "length b3 = n" using that mst_layoutD(1) [of ib n] l2 room h(1) by (simp add: usa_ok_def b3_def)
    show "chunk 4 4 b3 = chunk 4 4 ib"
      unfolding b3_def b2_def b1_def using room tf(1) h(1) pos m(2) by (intro chunk_eqI) (auto simp: nth_blit)
  qed
  moreover have "length b3 = length ib" unfolding b3_def using l2 room h(1) by simp
  moreover have "is_block b3 vcn (length ib)" if "is_block ib vcn (length ib)" for vcn
    unfolding b3_def b2_def b1_def using that room tf(1) h(1) pos m(2) by (auto intro!: is_block_blit)
  moreover have "b3 ! 36 = ib ! 36"
    unfolding b3_def b2_def b1_def using room tf(1) h(1) pos m(2) by (simp add: nth_blit)
  ultimately show ?thesis using n3 by blast
qed

text \<open>The entry goes to the parent: all entries of the parent in one list, the last one included.\<close>

definition node_of :: "bytes \<Rightarrow> nat \<Rightarrow> nat \<Rightarrow> bytes list \<Rightarrow> bool" where
  "node_of b ih eo full \<longleftrightarrow> full \<noteq> [] \<and> node_at b ih eo (butlast full) (last full)"

lemma node_ofI: "node_at b ih eo es t \<Longrightarrow> node_of b ih eo (es @ [t])"
  by (simp add: node_of_def)

lemma concat_butlast: "full \<noteq> [] \<Longrightarrow> concat (butlast full) @ last full = concat full"
  by (induction full) auto

lemma node_of_entry:
  assumes "node_of b ih eo (es @ e # es')"
  shows "lies_at b (ih + eo + length (concat es)) e" "entry_ok e" "ntfs_ie_get_by_pos b ih (length es) = Some (ih + eo + length (concat es))"
proof -
  let ?full = "es @ e # es'"
  have n: "node_at b ih eo (butlast ?full) (last ?full)" using assms by (simp add: node_of_def)
  have "concat (butlast ?full) @ last ?full = concat ?full"
    by (rule concat_butlast) simp
  then show "lies_at b (ih + eo + length (concat es)) e" using n by (simp add: node_at_def)
  show "entry_ok e" using n by (cases es' rule: rev_cases) (auto simp: node_at_def entries_def butlast_append)
  have "take (length es) (butlast ?full) = es" by (cases es' rule: rev_cases) (simp_all add: butlast_append)
  then show "ntfs_ie_get_by_pos b ih (length es) = Some (ih + eo + length (concat es))"
    using ie_get_by_pos_ok [OF n, of "length es"] by (simp add: entry_pos_def)
qed

lemma node_of_update:
  assumes "node_of b ih eo (es @ e # es')" "entry_ok e'" "is_last e' = is_last e" "length e' = length e"
  shows "node_of (blit b (ih + eo + length (concat es)) e') ih eo (es @ e' # es')"
proof (cases es' rule: rev_cases)
  case Nil
  then show ?thesis using node_update_last [of b ih eo es e e'] assms by (simp add: node_of_def node_at_def entries_def)
next
  case (snoc xs t)
  then show ?thesis using node_update [of b ih eo es e xs t e'] assms by (auto simp: node_of_def node_at_def entries_append butlast_append)
qed

lemma node_of_insert:
  assumes "node_of b ih eo (es @ e # es')" "entry_ok x" "\<not> is_last x"
    and "ih + eo + length (concat (es @ x # e # es')) \<le> length b" "eo + length (concat (es @ x # e # es')) < 2 ^ 32"
  shows "\<exists>b'. ntfs_ie_insert b ih x (ih + eo + length (concat es)) = Some b' \<and> node_of b' ih eo (es @ x # e # es') \<and> length b' = length b
    \<and> (\<forall>i. i < ih \<or> ih + 8 \<le> i \<and> i < ih + eo \<or> ih + eo + length (concat (es @ x # e # es')) \<le> i \<longrightarrow> i < length b \<longrightarrow> b' ! i = b ! i)"
proof -
  have b: "butlast (es @ y @ e # es') = es @ y @ butlast (e # es')" "last (es @ y @ e # es') = last (e # es')" for y
    by (simp_all add: butlast_append)
  have c: "concat (butlast (e # es')) @ last (e # es') = e @ concat es'"
    using concat_butlast [of "e # es'"] by simp
  have l: "length (concat (butlast (e # es'))) + length (last (e # es')) = length e + length (concat es')"
    using arg_cong [OF c, of length] by simp
  have n: "node_at b ih eo (es @ butlast (e # es')) (last (e # es'))" using assms(1) b [of "[]"] by (simp only: node_of_def append_Nil)
  show ?thesis
    using ie_insert_ok [OF n assms(2,3) _ _ refl] assms(4,5) b [of "[x]"] l
    by (simp add: node_of_def add_ac)
qed

text \<open>What the parent of the split block becomes: the entry that led to the block gets before it the median, with the block, and leads to the new one.\<close>

definition up_entry :: "bytes \<Rightarrow> bytes \<Rightarrow> int \<Rightarrow> bool" where
  "up_entry m x vcn \<longleftrightarrow> key_entry x \<and> is_node x \<and> ie_key x = ie_key m \<and> ie_vcn x = vcn \<and> length x = (if is_node m then length m else length m + 8)"

lemma ih_insert_ok:
  assumes node: "node_of b ih eo (es @ e # es')" and e: "is_node e"
    and m: "lies_at src p m" "key_entry m" "(if is_node m then length m else length m + 8) < 65536"
    and room: "ih + eo + length (concat (es @ e # es')) + (if is_node m then length m else length m + 8) \<le> length b"
      "eo + length (concat (es @ e # es')) + (if is_node m then length m else length m + 8) < 2 ^ 32"
    and vcn: "in_s64 vcn"
  shows "\<exists>b' x. ntfs_ih_insert True junk b ih src p vcn (length es) = Some (False, b') \<and> up_entry m x (ie_vcn e)
    \<and> node_of b' ih eo (es @ x # with_vcn vcn e # es') \<and> length b' = length b
    \<and> (\<forall>i. i < ih \<or> ih + 8 \<le> i \<and> i < ih + eo \<longrightarrow> i < length b \<longrightarrow> b' ! i = b ! i)"
proof -
  let ?p = "ih + eo + length (concat es)" and ?e = "with_vcn vcn e"
  have mk: "entry_ok m" "\<not> is_last m" using m(2) by (simp_all add: key_entry_def)
  have whole: "lies_at m 0 m" by (simp add: lies_at_def chunk_full)
  have dup: "ntfs_ie_dup True src p = Some (Some m)" using entry_fields(1) [OF m(1) mk(1)] m(1) by (simp add: ntfs_ie_dup_def)
  obtain ie where ie: "(if (get16 m 12 AND INDEX_ENTRY_NODE) = 0 then ntfs_ie_add_vcn True junk m else Some (Some m)) = Some (Some ie)"
    "key_entry ie" "is_node ie" "ie_key ie = ie_key m" "length ie = (if is_node m then length m else length m + 8)"
  proof (cases "is_node m")
    case True
    then show ?thesis using that [of m] m(2) by (simp add: is_node_def)
  next
    case False
    then show ?thesis using that add_vcn_ok [OF m(2) False] m(3) by (auto simp: is_node_def)
  qed
  have iek: "entry_ok ie" "\<not> is_last ie" using ie(2) by (simp_all add: key_entry_def)
  define b1 where "b1 = blit b ?p ?e"
  have ent: "lies_at b ?p e" "entry_ok e" "ntfs_ie_get_by_pos b ih (length es) = Some ?p" using node_of_entry [OF node] by simp_all
  note ef = with_vcn_fields [OF ent(2) e, of vcn]
  have l1: "length b1 = length b" unfolding b1_def using lies_at_mono [OF ent(1)] ef(1) by (intro length_blit) simp
  have n1: "node_of b1 ih eo (es @ ?e # es')" unfolding b1_def using node_of_update [OF node ef(2,4,1)] .
  obtain b2 where b2: "ntfs_ie_insert b1 ih ie ?p = Some b2" "node_of b2 ih eo (es @ ie # ?e # es')" "length b2 = length b"
    "\<forall>i. i < ih \<or> ih + 8 \<le> i \<and> i < ih + eo \<longrightarrow> i < length b \<longrightarrow> b2 ! i = b1 ! i"
    using node_of_insert [OF n1 iek] room ie(5) ef(1) l1 by (auto simp: add_ac)
  have en2: "lies_at b2 ?p ie" using node_of_entry [OF b2(2)] by simp
  define b3 where "b3 = blit b2 ?p (with_vcn (ie_vcn e) ie)"
  note xf = with_vcn_fields [OF iek(1) ie(3), of "ie_vcn e"]
  have n3: "node_of b3 ih eo (es @ with_vcn (ie_vcn e) ie # ?e # es')" unfolding b3_def using node_of_update [OF b2(2) xf(2,4,1)] .
  have l3: "length b3 = length b" unfolding b3_def using lies_at_mono [OF en2] xf(1) b2(3) by (intro length_blit [THEN trans]) simp_all
  have "ntfs_ih_insert True junk b ih src p vcn (length es) = Some (False, b3)"
    unfolding ntfs_ih_insert_def dup bind.bind_lunit option.case entry_fields(3) [OF whole mk(1)] ie(1) ent(3)
      entry_vcn(2) [OF ent(1,2) e] ie_set_vcn_ok [OF ent(1,2) e] b1_def [symmetric] b2(1) ie_set_vcn_ok [OF en2 iek(1) ie(3)] b3_def [symmetric] ..
  moreover have "up_entry m (with_vcn (ie_vcn e) ie) (ie_vcn e)"
    using xf(1,3,5) xf(6) [OF ie(2)] ie(4,5) by (simp add: up_entry_def ie_vcn_def)
  moreover have "b3 ! i = b ! i" if "i < ih \<or> ih + 8 \<le> i \<and> i < ih + eo" "i < length b" for i
    using b2(4) that b2(3) l1 lies_at_mono [OF en2] lies_at_mono [OF ent(1)] xf(1) ef(1) unfolding b3_def b1_def by (auto simp: nth_blit)
  ultimately show ?thesis using n3 l3 by blast
qed

end
