(* ===== verification/IndexTree.thy ===== *)
theory IndexTree
  imports IndexSplit
begin

text \<open>
  The tree of an index, from \<open>libntfs_ext/source/index.c\<close>: the index context, \<open>ntfs_index_lookup\<close> from the root down, and
  \<open>ntfs_ib_insert\<close> with \<open>ntfs_ib_split\<close>. The root is in a buffer with the MFT record, the blocks are read and written through
  \<open>ntfs_attr_mst_pread\<close> and \<open>ntfs_attr_mst_pwrite\<close> of the index allocation.
\<close>

section \<open>The context\<close>

definition MAX_PARENT_VCN :: int where "MAX_PARENT_VCN = 32"
definition VCN_INDEX_ROOT_PARENT :: int where "VCN_INDEX_ROOT_PARENT = - 2"

record index_context =
  icx_entry :: nat
  icx_is_in_root :: bool
  icx_ib :: bytes
  icx_parent_pos :: "nat list"
  icx_parent_vcn :: "int list"
  icx_pindex :: int
  icx_block_size :: nat
  icx_vcn_size_bits :: nat

definition put_at :: "'a list \<Rightarrow> int \<Rightarrow> 'a \<Rightarrow> 'a list option" where
  "put_at xs i x = (if 0 \<le> i \<and> i < int (length xs) then Some (xs[nat i := x]) else None)"

definition ntfs_icx_parent_inc :: "index_context \<Rightarrow> errno option \<times> index_context" where
  "ntfs_icx_parent_inc icx =
     (let icx = icx\<lparr>icx_pindex := icx_pindex icx + 1\<rparr> in (if icx_pindex icx \<ge> MAX_PARENT_VCN then Some EOPNOTSUPP else None, icx))"

definition ntfs_icx_parent_dec :: "index_context \<Rightarrow> errno option \<times> index_context" where
  "ntfs_icx_parent_dec icx =
     (let icx = icx\<lparr>icx_pindex := icx_pindex icx - 1\<rparr> in (if icx_pindex icx < 0 then Some EINVAL else None, icx))"

definition ntfs_ib_vcn_to_pos :: "index_context \<Rightarrow> int \<Rightarrow> int" where
  "ntfs_ib_vcn_to_pos icx vcn = s64 (vcn * 2 ^ icx_vcn_size_bits icx)"

definition ntfs_ib_pos_to_vcn :: "index_context \<Rightarrow> int \<Rightarrow> int" where
  "ntfs_ib_pos_to_vcn icx pos = pos div 2 ^ icx_vcn_size_bits icx"

text \<open>\<open>pread pos size\<close> is the block when exactly one was read; the result is \<open>Some None\<close> when \<open>ntfs_ib_read\<close> fails.\<close>

definition ntfs_ib_read :: "(int \<Rightarrow> nat \<Rightarrow> bytes option) \<Rightarrow> index_context \<Rightarrow> int \<Rightarrow> bytes option option" where
  "ntfs_ib_read pread icx vcn =
     (case pread (ntfs_ib_vcn_to_pos icx vcn) (icx_block_size icx) of None \<Rightarrow> Some None
      | Some ib \<Rightarrow> map_option (\<lambda>good. if good then Some ib else None) (ntfs_ia_check (icx_block_size icx) ib vcn))"

text \<open>\<open>pwrite pos size ib\<close> returns the number of blocks written and what is in the buffer \<open>ib\<close> after the write, which has a new update sequence
  number; the first component of the result tells whether \<open>ntfs_ib_write\<close> failed.\<close>

definition ntfs_ib_write :: "(int \<Rightarrow> nat \<Rightarrow> bytes \<Rightarrow> 'v \<Rightarrow> (int \<times> bytes \<times> 'v) option) \<Rightarrow> index_context \<Rightarrow> bytes \<Rightarrow> 'v \<Rightarrow> (bool \<times> bytes \<times> 'v) option" where
  "ntfs_ib_write pwrite icx ib v =
     map_option (\<lambda>(ret, ib, v). (ret \<noteq> 1, ib, v)) (pwrite (ntfs_ib_vcn_to_pos icx (s64 (int (get64 ib 16)))) (icx_block_size icx) ib v)"

section \<open>Lookup\<close>

text \<open>The loop at \<open>descend_into_child_node\<close>: the error, \<open>ENOENT\<close> when the key is not there, or none, and the context.\<close>

function descend :: "collate option \<Rightarrow> bytes \<Rightarrow> (int \<Rightarrow> nat \<Rightarrow> bytes option) \<Rightarrow> int \<Rightarrow> int \<Rightarrow> index_context \<Rightarrow> (errno option \<times> index_context) option" where
  "descend collate key pread old_vcn vcn icx = do {
     pv \<leftarrow> put_at (icx_parent_vcn icx) (icx_pindex icx) old_vcn;
     case ntfs_icx_parent_inc (icx\<lparr>icx_parent_vcn := pv\<rparr>) of
       (Some e, icx) \<Rightarrow> Some (Some e, icx)
     | (None, icx) \<Rightarrow> do {
         r \<leftarrow> ntfs_ib_read pread icx vcn;
         case r of None \<Rightarrow> Some (Some EIO, icx)
         | Some ib \<Rightarrow> do {
             r \<leftarrow> ntfs_ie_lookup collate key (length key) ib 24;
             case r of LookupError e \<Rightarrow> Some (Some e, icx)
             | Found ie item \<Rightarrow> do {
                 pp \<leftarrow> put_at (icx_parent_pos icx) (icx_pindex icx) item;
                 pv \<leftarrow> put_at (icx_parent_vcn icx) (icx_pindex icx) vcn;
                 Some (None, icx\<lparr>icx_parent_pos := pp, icx_is_in_root := False, icx_ib := ib, icx_parent_vcn := pv, icx_entry := ie\<rparr>) }
             | NotFound ie \<Rightarrow> do {
                 pv \<leftarrow> put_at (icx_parent_vcn icx) (icx_pindex icx) vcn;
                 Some (Some ENOENT, icx\<lparr>icx_is_in_root := False, icx_ib := ib, icx_parent_vcn := pv, icx_entry := ie\<rparr>) }
             | KeepSearching vcn' item \<Rightarrow> do {
                 pp \<leftarrow> put_at (icx_parent_pos icx) (icx_pindex icx) item;
                 flags \<leftarrow> mem_get ib 36 1;
                 if unat (hd flags) mod 2 = 0 then Some (Some EIO, icx\<lparr>icx_parent_pos := pp\<rparr>)
                 else descend collate key pread vcn vcn' (icx\<lparr>icx_parent_pos := pp\<rparr>) } } } }"
  by pat_completeness auto
termination
  by (relation "measure (\<lambda>(collate, key, pread, old_vcn, vcn, icx). nat (MAX_PARENT_VCN - icx_pindex icx))")
    (auto simp: ntfs_icx_parent_inc_def Let_def split: if_splits)

declare descend.simps [simp del]

text \<open>The rules with their numbers, and what the lookup finds around it: the volume, the index allocation attribute and memory.\<close>

definition collation_rule_of :: "nat \<Rightarrow> collation_rule option" where
  "collation_rule_of n = map_of [(0, COLLATION_BINARY), (1, COLLATION_FILE_NAME), (2, COLLATION_UNICODE_STRING), (16, COLLATION_NTOFS_ULONG),
     (17, COLLATION_NTOFS_SID), (18, COLLATION_NTOFS_SECURITY_HASH), (19, COLLATION_NTOFS_ULONGS)] n"

record index_env =
  env_memcmp :: "bytes \<Rightarrow> bytes \<Rightarrow> int"
  env_upcase :: "ntfschar list"
  env_cluster_size :: nat
  env_cluster_size_bits :: nat
  env_ia_open :: bool
  env_room :: bool
  env_pread :: "int \<Rightarrow> nat \<Rightarrow> bytes option"

definition collate_of :: "index_env \<Rightarrow> nat \<Rightarrow> collate option" where
  "collate_of env rule = (case collation_rule_of rule of None \<Rightarrow> None
     | Some cr \<Rightarrow> (case ntfs_get_collate_function (env_memcmp env) cr of Inl e \<Rightarrow> None
                   | Inr f \<Rightarrow> Some (f (env_upcase env) (length (env_upcase env)))))"

text \<open>\<open>ir\<close> is what \<open>ntfs_ir_lookup\<close> finds: the buffer with the root and its offset.\<close>

definition ntfs_index_lookup :: "index_env \<Rightarrow> errno + bytes \<times> nat \<Rightarrow> bytes \<Rightarrow> index_context \<Rightarrow> (errno option \<times> index_context) option" where
  "ntfs_index_lookup env ir key icx =
     (if key = [] then Some (Some EINVAL, icx)
      else case ir of Inl e \<Rightarrow> Some (Some (if e = ENOENT then EIO else e), icx)
      | Inr (b, ir) \<Rightarrow> do {
          block_size \<leftarrow> fetch32 b (ir + 8);
          let icx = icx\<lparr>icx_block_size := block_size\<rparr>;
          if block_size < NTFS_BLOCK_SIZE then Some (Some EIO, icx)
          else do {
            let icx = icx\<lparr>icx_vcn_size_bits := (if env_cluster_size env \<le> block_size then env_cluster_size_bits env else 9)\<rparr>;
            rule \<leftarrow> fetch32 b (ir + 4);
            case collate_of env rule of None \<Rightarrow> Some (Some EOPNOTSUPP, icx)
            | Some col \<Rightarrow> do {
                r \<leftarrow> ntfs_ie_lookup (Some col) key (length key) b (ir + 16);
                case r of LookupError e \<Rightarrow> Some (Some e, icx)
                | Found ie item \<Rightarrow> do {
                    pp \<leftarrow> put_at (icx_parent_pos icx) (icx_pindex icx) item;
                    pv \<leftarrow> put_at (icx_parent_vcn icx) (icx_pindex icx) VCN_INDEX_ROOT_PARENT;
                    Some (None, icx\<lparr>icx_parent_pos := pp, icx_is_in_root := True, icx_parent_vcn := pv, icx_entry := ie\<rparr>) }
                | NotFound ie \<Rightarrow> do {
                    pv \<leftarrow> put_at (icx_parent_vcn icx) (icx_pindex icx) VCN_INDEX_ROOT_PARENT;
                    Some (Some ENOENT, icx\<lparr>icx_is_in_root := True, icx_parent_vcn := pv, icx_entry := ie\<rparr>) }
                | KeepSearching vcn item \<Rightarrow> do {
                    pp \<leftarrow> put_at (icx_parent_pos icx) (icx_pindex icx) item;
                    let icx = icx\<lparr>icx_parent_pos := pp\<rparr>;
                    if \<not> env_ia_open env then Some (Some EIO, icx)
                    else if \<not> env_room env then Some (Some ENOMEM, icx)
                    else descend (Some col) key (env_pread env) VCN_INDEX_ROOT_PARENT vcn icx } } } })"

section \<open>Trees\<close>

text \<open>The keys \<open>vs\<close> of a node between those of its subtrees, of which there is one more.\<close>

fun weave :: "'k list list \<Rightarrow> 'k list \<Rightarrow> 'k list" where
  "weave (ks # kss) (v # vs) = ks @ v # weave kss vs"
| "weave (ks # kss) [] = ks"
| "weave [] vs = []"

text \<open>The values of the keys below a block, in order; \<open>n\<close> is the size of a block. A leaf has height 0.\<close>

inductive index_tree :: "(int \<Rightarrow> bytes option) \<Rightarrow> nat \<Rightarrow> (bytes \<Rightarrow> bool) \<Rightarrow> (bytes \<Rightarrow> 'k) \<Rightarrow> nat \<Rightarrow> int \<Rightarrow> 'k list \<Rightarrow> bool"
  for rd :: "int \<Rightarrow> bytes option" and n :: nat and ok :: "bytes \<Rightarrow> bool" and val :: "bytes \<Rightarrow> 'k" where
  leaf: "rd vcn = Some b \<Longrightarrow> is_block b vcn n \<Longrightarrow> in_s64 vcn \<Longrightarrow> node_at b 24 eo es t \<Longrightarrow> keys_ok ok es \<Longrightarrow> \<forall>e \<in> set (es @ [t]). \<not> is_node e
    \<Longrightarrow> index_tree rd n ok val 0 vcn (map (\<lambda>e. val (ie_key e)) es)"
| inner: "rd vcn = Some b \<Longrightarrow> is_block b vcn n \<Longrightarrow> in_s64 vcn \<Longrightarrow> node_at b 24 eo es t \<Longrightarrow> keys_ok ok es
    \<Longrightarrow> unat (b ! 36) mod 2 = 1 \<Longrightarrow> \<forall>e \<in> set (es @ [t]). is_node e \<and> 0 \<le> ie_vcn e
    \<Longrightarrow> list_all2 (\<lambda>e ks. index_tree rd n ok val h (ie_vcn e) ks) (es @ [t]) kss
    \<Longrightarrow> index_tree rd n ok val (Suc h) vcn (weave kss (map (\<lambda>e. val (ie_key e)) es))"

lemma weave_sorted:
  "length kss = Suc (length vs) \<Longrightarrow> sorted_wrt (<) (weave kss vs) \<Longrightarrow>
   sorted_wrt (<) vs \<and> set vs \<subseteq> set (weave kss vs) \<and> (\<forall>ks \<in> set kss. sorted_wrt (<) ks)"
proof (induction kss vs rule: weave.induct)
  case (1 ks kss v vs)
  then show ?case by (auto simp: sorted_wrt_append)
qed auto

lemma weave_mem:
  "length kss = Suc (length vs) \<Longrightarrow> sorted_wrt (<) (weave kss vs) \<Longrightarrow>
   (x :: 'k :: linorder) \<in> set (weave kss vs) \<longleftrightarrow>
     (let i = length (takeWhile (\<lambda>v. v < x) vs) in i < length vs \<and> vs ! i = x \<or> x \<in> set (kss ! i))"
proof (induction kss vs rule: weave.induct)
  case (1 ks kss v vs)
  have s: "\<forall>k \<in> set ks. k < v" "\<forall>k \<in> set (weave kss vs). v < k" "sorted_wrt (<) (weave kss vs)"
    using 1(3) by (auto simp: sorted_wrt_append)
  show ?case
  proof (cases "v < x")
    case True
    then have "x \<notin> set ks" "x \<noteq> v" using s(1) by auto
    then show ?thesis using True 1(1) [OF _ s(3)] 1(2) by (simp add: Let_def)
  next
    case False
    then have "x \<notin> set (weave kss vs)" using s(2) by auto
    then show ?thesis using False by auto
  qed
qed auto

lemma place_map: "place val x es = length (takeWhile (\<lambda>v. v < val x) (map (\<lambda>e. val (ie_key e)) es))"
  by (simp add: place_def takeWhile_map comp_def)

text \<open>Where a lookup ends: the block and the place in it.\<close>

definition at_place :: "(bytes \<Rightarrow> bool) \<Rightarrow> (bytes \<Rightarrow> 'k :: linorder) \<Rightarrow> bytes \<Rightarrow> bool \<Rightarrow> bytes \<Rightarrow> nat \<Rightarrow> nat \<Rightarrow> bool" where
  "at_place ok val x hit b ih p \<longleftrightarrow> (\<exists>eo es t. node_at b ih eo es t \<and> keys_ok ok es \<and> p = entry_pos ih eo es (place val x es)
     \<and> (hit \<longrightarrow> place val x es < length es \<and> val (ie_key (es ! place val x es)) = val x) \<and> (\<not> hit \<longrightarrow> \<not> is_node ((es @ [t]) ! place val x es)))"

lemma at_placeI:
  "node_at b ih eo es t \<Longrightarrow> keys_ok ok es \<Longrightarrow> (hit \<longrightarrow> place val x es < length es \<and> val (ie_key (es ! place val x es)) = val x) \<Longrightarrow>
   (\<not> hit \<longrightarrow> \<not> is_node ((es @ [t]) ! place val x es)) \<Longrightarrow> at_place ok val x hit b ih (entry_pos ih eo es (place val x es))"
  unfolding at_place_def by blast

definition blocks_at :: "(int \<Rightarrow> nat \<Rightarrow> bytes option) \<Rightarrow> index_context \<Rightarrow> int \<Rightarrow> bytes option" where
  "blocks_at pread icx vcn = pread (ntfs_ib_vcn_to_pos icx vcn) (icx_block_size icx)"

definition icx_ok :: "index_context \<Rightarrow> bool" where
  "icx_ok icx \<longleftrightarrow> length (icx_parent_pos icx) = 32 \<and> length (icx_parent_vcn icx) = 32 \<and> 0 \<le> icx_pindex icx
     \<and> 512 \<le> icx_block_size icx \<and> icx_block_size icx < 2 ^ 32"

lemma ib_read_ok:
  assumes "blocks_at pread icx vcn = Some b" "is_block b vcn (icx_block_size icx)" "in_s64 vcn" "icx_ok icx"
  shows "ntfs_ib_read pread icx vcn = Some (Some b)"
  using assms ia_check_ok [OF assms(2,3)] by (simp add: ntfs_ib_read_def blocks_at_def icx_ok_def)

lemma put_at_ok [simp]: "0 \<le> i \<Longrightarrow> i < int (length xs) \<Longrightarrow> put_at xs i x = Some (xs[nat i := x])"
  by (simp add: put_at_def)

text \<open>The same by nodes: the entries \<open>es\<close> and \<open>t\<close> of a node at the height \<open>h\<close>, in a block or in the root.\<close>

definition node_tree :: "(int \<Rightarrow> bytes option) \<Rightarrow> nat \<Rightarrow> (bytes \<Rightarrow> bool) \<Rightarrow> (bytes \<Rightarrow> 'k) \<Rightarrow> nat \<Rightarrow> bytes list \<Rightarrow> bytes \<Rightarrow> 'k list \<Rightarrow> bool" where
  "node_tree rd n ok val h es t ks \<longleftrightarrow> keys_ok ok es \<and> (case h of
     0 \<Rightarrow> (\<forall>e \<in> set (es @ [t]). \<not> is_node e) \<and> ks = map (\<lambda>e. val (ie_key e)) es
   | Suc h \<Rightarrow> (\<forall>e \<in> set (es @ [t]). is_node e \<and> 0 \<le> ie_vcn e) \<and> (\<exists>kss. list_all2 (\<lambda>e ks. index_tree rd n ok val h (ie_vcn e) ks) (es @ [t]) kss
       \<and> ks = weave kss (map (\<lambda>e. val (ie_key e)) es)))"

inductive_simps index_tree_0: "index_tree rd n ok val 0 vcn ks"
inductive_simps index_tree_Suc: "index_tree rd n ok val (Suc h) vcn ks"

definition block_of :: "(int \<Rightarrow> bytes option) \<Rightarrow> nat \<Rightarrow> nat \<Rightarrow> int \<Rightarrow> nat \<Rightarrow> bytes list \<Rightarrow> bytes \<Rightarrow> bool" where
  "block_of rd n h vcn eo es t \<longleftrightarrow> in_s64 vcn \<and> (\<exists>b. rd vcn = Some b \<and> is_block b vcn n \<and> node_at b 24 eo es t \<and> (h \<noteq> 0 \<longrightarrow> unat (b ! 36) mod 2 = 1))"

lemma index_tree_iff:
  "index_tree rd n ok val h vcn ks \<longleftrightarrow> (\<exists>eo es t. block_of rd n h vcn eo es t \<and> node_tree rd n ok val h es t ks)"
proof (cases h)
  case 0
  then show ?thesis unfolding 0 index_tree_0 by (auto simp: block_of_def node_tree_def)
next
  case (Suc h')
  then show ?thesis unfolding Suc index_tree_Suc by (simp add: block_of_def node_tree_def) blast
qed

text \<open>The root: the buffer \<open>b\<close> with the \<open>INDEX_ROOT\<close> at \<open>ir\<close>; its blocks.\<close>

definition root_tree :: "(int \<Rightarrow> bytes option) \<Rightarrow> nat \<Rightarrow> (bytes \<Rightarrow> bool) \<Rightarrow> (bytes \<Rightarrow> 'k) \<Rightarrow> nat \<Rightarrow> bytes \<Rightarrow> nat \<Rightarrow> 'k list \<Rightarrow> bool" where
  "root_tree rd n ok val h b ir ks \<longleftrightarrow> fetch32 b (ir + 8) = Some n \<and> 512 \<le> n \<and> n < 2 ^ 32 \<and> (\<exists>eo es t. node_at b (ir + 16) eo es t \<and> node_tree rd n ok val h es t ks)"

definition index_blocks :: "index_env \<Rightarrow> nat \<Rightarrow> int \<Rightarrow> bytes option" where
  "index_blocks env n vcn = env_pread env (s64 (vcn * 2 ^ (if env_cluster_size env \<le> n then env_cluster_size_bits env else 9))) n"

lemma node_tree_place:
  assumes "node_tree rd n ok val h es t ks" "sorted_wrt (<) ks" and i_def: "i = place val x es"
  shows "in_order val es" "is_node ((es @ [t]) ! i) \<longleftrightarrow> h \<noteq> 0" "h \<noteq> 0 \<Longrightarrow> 0 \<le> ie_vcn ((es @ [t]) ! i)"
    "\<exists>ks'. (h \<noteq> 0 \<longrightarrow> index_tree rd n ok val (h - 1) (ie_vcn ((es @ [t]) ! i)) ks' \<and> sorted_wrt (<) ks')
       \<and> (val x \<in> set ks \<longleftrightarrow> i < length es \<and> val (ie_key (es ! i)) = val x \<or> h \<noteq> 0 \<and> val x \<in> set ks')"
proof -
  have i: "i < Suc (length es)" using place_le [of val x es] by (simp add: i_def)
  have e: "(es @ [t]) ! i \<in> set (es @ [t])" using i nth_mem [of i "es @ [t]"] by simp
  have "in_order val es \<and> (is_node ((es @ [t]) ! i) \<longleftrightarrow> h \<noteq> 0) \<and> (h \<noteq> 0 \<longrightarrow> 0 \<le> ie_vcn ((es @ [t]) ! i)) \<and>
    (\<exists>ks'. (h \<noteq> 0 \<longrightarrow> index_tree rd n ok val (h - 1) (ie_vcn ((es @ [t]) ! i)) ks' \<and> sorted_wrt (<) ks')
       \<and> (val x \<in> set ks \<longleftrightarrow> i < length es \<and> val (ie_key (es ! i)) = val x \<or> h \<noteq> 0 \<and> val x \<in> set ks'))"
  proof (cases h)
    case 0
    then have ks: "ks = map (\<lambda>e. val (ie_key e)) es" "\<forall>e \<in> set (es @ [t]). \<not> is_node e" using assms(1) by (simp_all add: node_tree_def)
    then have o: "in_order val es" using assms(2) by (simp add: in_order_def sorted_wrt_map)
    show ?thesis using 0 ks(2) e o place_found_iff [OF o, of x] unfolding ks(1) i_def by auto
  next
    case (Suc h')
    then obtain kss where k: "\<forall>e \<in> set (es @ [t]). is_node e \<and> 0 \<le> ie_vcn e"
      "list_all2 (\<lambda>e ks. index_tree rd n ok val h' (ie_vcn e) ks) (es @ [t]) kss" "ks = weave kss (map (\<lambda>e. val (ie_key e)) es)"
      using assms(1) by (auto simp: node_tree_def)
    have len: "length kss = Suc (length (map (\<lambda>e. val (ie_key e)) es))" using list_all2_lengthD [OF k(2)] by simp
    note s = weave_sorted [OF len assms(2) [unfolded k(3)]]
    have "val x \<in> set ks \<longleftrightarrow> i < length es \<and> val (ie_key (es ! i)) = val x \<or> val x \<in> set (kss ! i)"
      using weave_mem [OF len assms(2) [unfolded k(3)], of "val x"] by (auto simp: Let_def i_def k(3) place_map [symmetric])
    moreover have "index_tree rd n ok val h' (ie_vcn ((es @ [t]) ! i)) (kss ! i)" using list_all2_nthD [OF k(2), of i] i by simp
    moreover have "sorted_wrt (<) (kss ! i)" using s i len by simp
    ultimately show ?thesis using s k(1) e Suc by (auto simp: in_order_def sorted_wrt_map)
  qed
  then show "in_order val es" "is_node ((es @ [t]) ! i) \<longleftrightarrow> h \<noteq> 0" "h \<noteq> 0 \<Longrightarrow> 0 \<le> ie_vcn ((es @ [t]) ! i)"
    "\<exists>ks'. (h \<noteq> 0 \<longrightarrow> index_tree rd n ok val (h - 1) (ie_vcn ((es @ [t]) ! i)) ks' \<and> sorted_wrt (<) ks')
       \<and> (val x \<in> set ks \<longleftrightarrow> i < length es \<and> val (ie_key (es ! i)) = val x \<or> h \<noteq> 0 \<and> val x \<in> set ks')" by blast+
qed

context collation
begin

lemma descend_ok:
  "index_tree rd n ok val h vcn ks \<Longrightarrow> rd = blocks_at pread icx \<Longrightarrow> n = icx_block_size icx \<Longrightarrow> icx_ok icx \<Longrightarrow> icx_pindex icx + 1 + int h < 32 \<Longrightarrow>
   ok x \<Longrightarrow> sorted_wrt (<) ks \<Longrightarrow>
   \<exists>r icx'. descend (Some col) x pread old vcn icx = Some (r, icx') \<and> r = (if val x \<in> set ks then None else Some ENOENT)
     \<and> \<not> icx_is_in_root icx' \<and> at_place ok val x (r = None) (icx_ib icx') 24 (icx_entry icx')"
proof (induction arbitrary: icx old rule: index_tree.induct)
  case (leaf vcn b eo es t)
  let ?icx = "icx\<lparr>icx_parent_vcn := (icx_parent_vcn icx)[nat (icx_pindex icx) := old], icx_pindex := icx_pindex icx + 1\<rparr>"
  have p: "0 \<le> icx_pindex icx" "icx_pindex icx + 1 < 32" "length (icx_parent_vcn icx) = 32" "length (icx_parent_pos icx) = 32"
    using leaf.prems by (simp_all add: icx_ok_def)
  have rd: "ntfs_ib_read pread ?icx vcn = Some (Some b)"
    using leaf.hyps leaf.prems by (intro ib_read_ok) (simp_all add: blocks_at_def ntfs_ib_vcn_to_pos_def icx_ok_def)
  have inc: "ntfs_icx_parent_inc (icx\<lparr>icx_parent_vcn := (icx_parent_vcn icx)[nat (icx_pindex icx) := old]\<rparr>) = (None, ?icx)"
    using p by (simp add: ntfs_icx_parent_inc_def MAX_PARENT_VCN_def)
  let ?i = "place val x es"
  have ord: "in_order val es" using leaf.prems by (simp add: in_order_def sorted_wrt_map)
  have mem: "val x \<in> set (map (\<lambda>e. val (ie_key e)) es) \<longleftrightarrow> ?i < length es \<and> val (ie_key (es ! ?i)) = val x"
    using place_found_iff [OF ord, of x] by auto
  have nn: "\<not> is_node ((es @ [t]) ! ?i)" using leaf.hyps(6) place_le [of val x es] by (auto simp: nth_append)
  have lk: "ntfs_ie_lookup (Some col) x (length x) b 24 =
    Some (if val x \<in> set (map (\<lambda>e. val (ie_key e)) es) then Found (entry_pos 24 eo es ?i) ?i else NotFound (entry_pos 24 eo es ?i))"
    unfolding lookup_ok [OF leaf.hyps(4,5) leaf.prems(5)] mem Let_def using nn by (auto simp: nth_append)
  show ?case
    using p leaf.hyps(4,5) nn mem
    by (subst descend.simps) (auto simp: inc rd lk at_place_def split: if_splits)
next
  case (inner vcn b eo es t h kss)
  let ?icx = "icx\<lparr>icx_parent_vcn := (icx_parent_vcn icx)[nat (icx_pindex icx) := old], icx_pindex := icx_pindex icx + 1\<rparr>"
  let ?vs = "map (\<lambda>e. val (ie_key e)) es" and ?i = "place val x es"
  have p: "0 \<le> icx_pindex icx" "icx_pindex icx + 2 + int h < 32" "length (icx_parent_vcn icx) = 32" "length (icx_parent_pos icx) = 32"
    using inner.prems by (simp_all add: icx_ok_def)
  have rd: "ntfs_ib_read pread ?icx vcn = Some (Some b)"
    using inner.hyps inner.prems by (intro ib_read_ok) (simp_all add: blocks_at_def ntfs_ib_vcn_to_pos_def icx_ok_def)
  have inc: "ntfs_icx_parent_inc (icx\<lparr>icx_parent_vcn := (icx_parent_vcn icx)[nat (icx_pindex icx) := old]\<rparr>) = (None, ?icx)"
    using p by (simp add: ntfs_icx_parent_inc_def MAX_PARENT_VCN_def)
  have len: "length kss = Suc (length ?vs)" using list_all2_lengthD [OF inner.IH] by simp
  note srt = weave_sorted [OF len inner.prems(6)]
  have ord: "in_order val es" using srt by (simp add: in_order_def sorted_wrt_map)
  have i: "?i < Suc (length es)" using place_le [of val x es] by simp
  have mem: "val x \<in> set (weave kss ?vs) \<longleftrightarrow> ?i < length es \<and> val (ie_key (es ! ?i)) = val x \<or> val x \<in> set (kss ! ?i)"
    using weave_mem [OF len inner.prems(6), of "val x"] by (auto simp: Let_def place_map [symmetric])
  have e: "is_node ((es @ [t]) ! ?i)" "0 \<le> ie_vcn ((es @ [t]) ! ?i)" using inner.hyps(7) i by (auto simp: nth_append less_Suc_eq)
  let ?e = "(es @ [t]) ! ?i"
  have lk: "ntfs_ie_lookup (Some col) x (length x) b 24 =
    Some (if ?i < length es \<and> val (ie_key ?e) = val x then Found (entry_pos 24 eo es ?i) ?i else KeepSearching (ie_vcn ?e) ?i)"
    unfolding lookup_ok [OF inner.hyps(4,5) inner.prems(5)] Let_def using e by simp
  show ?case
  proof (cases "?i < length es \<and> val (ie_key ?e) = val x")
    case True
    then show ?thesis
      using p inner.hyps(4,5) mem True
      by (subst descend.simps) (auto simp: inc rd lk at_place_def nth_append)
  next
    case False
    let ?icx' = "?icx\<lparr>icx_parent_pos := (icx_parent_pos icx)[nat (icx_pindex icx + 1) := ?i]\<rparr>"
    have n36: "mem_get b 36 (Suc 0) = Some [b ! 36]"
      using inner.hyps(2) inner.prems(2,3) by (simp add: mem_get_def is_block_def icx_ok_def chunk_def Cons_nth_drop_Suc [symmetric])
    have keep: "ntfs_ie_lookup (Some col) x (length x) b 24 = Some (KeepSearching (ie_vcn ?e) ?i)"
      unfolding lk by (simp only: False if_False)
    have "descend (Some col) x pread old vcn icx = descend (Some col) x pread vcn (ie_vcn ?e) ?icx'"
      using p inner.hyps(6) by (subst descend.simps) (simp add: inc rd keep n36)
    moreover have "rd = blocks_at pread ?icx'"
      unfolding inner.prems(1) by (rule ext) (simp add: blocks_at_def ntfs_ib_vcn_to_pos_def)
    then have "\<exists>r icx'. descend (Some col) x pread vcn (ie_vcn ?e) ?icx' = Some (r, icx') \<and> r = (if val x \<in> set (kss ! ?i) then None else Some ENOENT)
      \<and> \<not> icx_is_in_root icx' \<and> at_place ok val x (r = None) (icx_ib icx') 24 (icx_entry icx')"
      using list_all2_nthD [OF inner.IH, of ?i] inner.prems p srt i len by (simp add: icx_ok_def)
    moreover have "val x \<in> set (weave kss ?vs) \<longleftrightarrow> val x \<in> set (kss ! ?i)" using mem False by (auto simp: nth_append)
    ultimately show ?thesis by (simp only:)
  qed
qed

lemma root_lookup_ok:
  assumes root: "root_tree (index_blocks env n) n ok val h b ir ks" "sorted_wrt (<) ks" "h \<le> 31"
    and rule: "fetch32 b (ir + 4) = Some rule" "collate_of env rule = Some col" and env: "env_ia_open env" "env_room env"
    and icx: "length (icx_parent_pos icx) = 32" "length (icx_parent_vcn icx) = 32" "icx_pindex icx = 0" and x: "ok x" "x \<noteq> []"
  shows "\<exists>r icx'. ntfs_index_lookup env (Inr (b, ir)) x icx = Some (r, icx') \<and> r = (if val x \<in> set ks then None else Some ENOENT)
    \<and> at_place ok val x (r = None) (if icx_is_in_root icx' then b else icx_ib icx') (if icx_is_in_root icx' then ir + 16 else 24) (icx_entry icx')"
proof -
  obtain eo es t where n: "node_at b (ir + 16) eo es t" "node_tree (index_blocks env n) n ok val h es t ks"
    and bs: "fetch32 b (ir + 8) = Some n" "512 \<le> n" "n < 2 ^ 32" using root(1) by (auto simp: root_tree_def)
  let ?i = "place val x es"
  let ?e = "(es @ [t]) ! ?i"
  let ?icx = "icx\<lparr>icx_block_size := n, icx_vcn_size_bits := (if env_cluster_size env \<le> n then env_cluster_size_bits env else 9)\<rparr>"
  have keys: "keys_ok ok es" using n(2) by (simp add: node_tree_def)
  note pl = node_tree_place [OF n(2) root(2), where x = x, OF refl]
  obtain ks' where k: "h \<noteq> 0 \<Longrightarrow> index_tree (index_blocks env n) n ok val (h - 1) (ie_vcn ?e) ks' \<and> sorted_wrt (<) ks'"
    "val x \<in> set ks \<longleftrightarrow> ?i < length es \<and> val (ie_key (es ! ?i)) = val x \<or> h \<noteq> 0 \<and> val x \<in> set ks'" using pl(4) by blast
  have lk: "ntfs_ie_lookup (Some col) x (length x) b (ir + 16) = Some (if ?i < length es \<and> val (ie_key ?e) = val x then Found (entry_pos (ir + 16) eo es ?i) ?i
           else if h = 0 then NotFound (entry_pos (ir + 16) eo es ?i) else KeepSearching (ie_vcn ?e) ?i)"
    using pl(2,3) unfolding lookup_ok [OF n(1) keys x(1)] Let_def by auto
  have start: "ntfs_index_lookup env (Inr (b, ir)) x icx =
    (case (if ?i < length es \<and> val (ie_key ?e) = val x then Found (entry_pos (ir + 16) eo es ?i) ?i
           else if h = 0 then NotFound (entry_pos (ir + 16) eo es ?i) else KeepSearching (ie_vcn ?e) ?i) of
       Found ie item \<Rightarrow> Some (None, ?icx\<lparr>icx_parent_pos := (icx_parent_pos icx)[0 := item], icx_is_in_root := True,
         icx_parent_vcn := (icx_parent_vcn icx)[0 := VCN_INDEX_ROOT_PARENT], icx_entry := ie\<rparr>)
     | NotFound ie \<Rightarrow> Some (Some ENOENT, ?icx\<lparr>icx_is_in_root := True, icx_parent_vcn := (icx_parent_vcn icx)[0 := VCN_INDEX_ROOT_PARENT], icx_entry := ie\<rparr>)
     | KeepSearching vcn item \<Rightarrow> descend (Some col) x (env_pread env) VCN_INDEX_ROOT_PARENT vcn (?icx\<lparr>icx_parent_pos := (icx_parent_pos icx)[0 := item]\<rparr>)
     | LookupError e \<Rightarrow> Some (Some e, ?icx))"
    using x(2) bs rule env icx lk
    by (simp add: ntfs_index_lookup_def NTFS_BLOCK_SIZE_def Let_def)
  consider (hit) "?i < length es" "val (ie_key ?e) = val x" | (none) "\<not> (?i < length es \<and> val (ie_key ?e) = val x)" "h = 0"
    | (down) "\<not> (?i < length es \<and> val (ie_key ?e) = val x)" "h \<noteq> 0" by blast
  then show ?thesis
  proof cases
    case hit
    then have "val x \<in> set ks" "val (ie_key (es ! ?i)) = val x" using k(2) by (simp_all add: nth_append)
    then show ?thesis using hit at_placeI [OF n(1) keys, of True val x] unfolding start by simp
  next
    case none
    then have "val x \<notin> set ks" "\<not> is_node ?e" using k(2) pl(2) by (auto simp: nth_append)
    then show ?thesis using none at_placeI [OF n(1) keys, of False val x] unfolding start by simp
  next
    case down
    let ?icx' = "?icx\<lparr>icx_parent_pos := (icx_parent_pos icx)[0 := ?i]\<rparr>"
    have "index_blocks env n = blocks_at (env_pread env) ?icx'"
      by (rule ext) (simp add: index_blocks_def blocks_at_def ntfs_ib_vcn_to_pos_def)
    moreover have "icx_ok ?icx'" using icx bs by (simp add: icx_ok_def)
    ultimately obtain r icx' where "descend (Some col) x (env_pread env) VCN_INDEX_ROOT_PARENT (ie_vcn ?e) ?icx' = Some (r, icx')"
      "r = (if val x \<in> set ks' then None else Some ENOENT)" "\<not> icx_is_in_root icx'" "at_place ok val x (r = None) (icx_ib icx') 24 (icx_entry icx')"
      using descend_ok [of "index_blocks env n" n "h - 1" "ie_vcn ?e" ks' "env_pread env" ?icx' x VCN_INDEX_ROOT_PARENT] k(1) down(2) icx(3) root(3) x(1) by auto
    moreover have "val x \<in> set ks \<longleftrightarrow> val x \<in> set ks'" using k(2) down by (auto simp: nth_append)
    moreover have "ntfs_index_lookup env (Inr (b, ir)) x icx = descend (Some col) x (env_pread env) VCN_INDEX_ROOT_PARENT (ie_vcn ?e) ?icx'"
      unfolding start by (simp only: down if_False lookup.case)
    ultimately show ?thesis by simp
  qed
qed

end

section \<open>Properties\<close>

text \<open>
  C9. \<open>ntfs_index_lookup\<close> in a directory, whose tree has at most 31 levels below the root: it finds the name exactly when it is in the tree; when it is
  not, the result is \<open>ENOENT\<close> and the place in the leaf at which the name belongs.
\<close>

theorem directory_lookup:
  assumes "root_tree (index_blocks env n) n name_ok (name_val (env_upcase env)) h b ir ks" "sorted_wrt (<) ks" "h \<le> 31"
    and "fetch32 b (ir + 4) = Some 1" "env_ia_open env" "env_room env"
    and "length (icx_parent_pos icx) = 32" "length (icx_parent_vcn icx) = 32" "icx_pindex icx = 0" "name_ok x"
  shows "\<exists>r icx'. ntfs_index_lookup env (Inr (b, ir)) x icx = Some (r, icx')
    \<and> r = (if name_val (env_upcase env) x \<in> set ks then None else Some ENOENT)
    \<and> at_place name_ok (name_val (env_upcase env)) x (r = None) (if icx_is_in_root icx' then b else icx_ib icx') (if icx_is_in_root icx' then ir + 16 else 24) (icx_entry icx')"
proof -
  have "collate_of env 1 = Some (collate_names (env_upcase env))"
    by (simp add: collate_of_def collation_rule_of_def collate_names_def)
  moreover have "x \<noteq> []" using assms(10) by (auto simp: name_ok_def)
  ultimately show ?thesis using names.root_lookup_ok [OF assms(1-4) _ assms(5-10)] by blast
qed

text \<open>An example directory of two levels: the root has the name \<open>B\<close>, the blocks 0 and 1 the names \<open>A\<close> and \<open>C\<close>.\<close>

definition fill :: "bytes \<Rightarrow> bytes list \<Rightarrow> bytes \<Rightarrow> bytes" where
  "fill ib es t = blit (blit ib (24 + block_eo 512) (concat es @ t)) 28 (le_bytes 4 (block_eo 512 + length (concat es @ t)))"

definition example_block :: "int \<Rightarrow> nat \<Rightarrow> bytes list \<Rightarrow> bytes \<Rightarrow> bytes" where
  "example_block vcn ty es t = fill (the (the (ntfs_ib_alloc True vcn 512 ty))) es t"

lemma example_block_ok:
  assumes "24 + block_eo 512 + length (concat es @ t) \<le> 512" "entries es t" "ty < 2"
  shows "node_at (example_block vcn ty es t) 24 (block_eo 512) es t" "is_block (example_block vcn ty es t) vcn 512" "unat (example_block vcn ty es t ! 36) = ty"
    "length (example_block vcn ty es t) = 512" "usa_ok (example_block vcn ty es t) (block_eo 512) 512"
proof -
  obtain ib where ib: "ntfs_ib_alloc True vcn 512 ty = Some (Some ib)" "is_block ib vcn 512" "lies_at ib 24 (le_bytes 4 (block_eo 512))" "lies_at ib 36 (le_bytes 1 ty)"
    "lies_at ib 4 (le_bytes 2 40)" "lies_at ib 6 (le_bytes 2 (512 div 512 + 1))"
    using ib_alloc_ok [of 512 vcn ty] by auto
  have b: "example_block vcn ty es t = fill ib es t" by (simp add: example_block_def ib(1))
  show "node_at (example_block vcn ty es t) 24 (block_eo 512) es t" and blk: "is_block (example_block vcn ty es t) vcn 512"
    unfolding b fill_def using fill_block(4,5) [OF ib(2,3) block_eo_ge(1) assms(1) _ assms(2)] by simp_all
  show len: "length (example_block vcn ty es t) = 512" using blk by (simp add: is_block_def)
  have "length ib = 512" using ib(2) by (simp add: is_block_def)
  then have "lies_at (fill ib es t) 4 (le_bytes 2 40)" "lies_at (fill ib es t) 6 (le_bytes 2 (512 div 512 + 1))"
    unfolding fill_def using ib(5,6) assms(1) block_eo_ge(1) [of 512] by (auto intro!: lies_at_blit_other simp del: lies_at_append)
  then show "usa_ok (example_block vcn ty es t) (block_eo 512) 512" using len unfolding b by (intro usa_ok_new) simp_all
  have "lies_at (fill ib es t) 36 (le_bytes 1 ty)"
    unfolding fill_def using ib(2,4) assms(1) block_eo_ge(1) [of 512] by (intro lies_at_blit_other) (simp_all add: is_block_def)
  then show "unat (example_block vcn ty es t ! 36) = ty" unfolding b using byte_lies assms(3) by fastforce
qed

definition node_entry :: "nat \<Rightarrow> int \<Rightarrow> bytes" where
  "node_entry c vcn = with_vcn vcn (the (the (ntfs_ie_add_vcn True 0 (name_entry c))))"

definition end_node_entry :: "int \<Rightarrow> bytes" where
  "end_node_entry vcn = with_vcn vcn (raw_entry 24 0 3 (replicate 8 0))"

lemma node_entry_ok:
  "key_entry (node_entry c vcn)" "is_node (node_entry c vcn)" "ie_key (node_entry c vcn) = one_char_name c" "length (node_entry c vcn) = 96"
  "in_s64 vcn \<Longrightarrow> ie_vcn (node_entry c vcn) = vcn"
proof -
  obtain e where e: "ntfs_ie_add_vcn True 0 (name_entry c) = Some (Some e)" "key_entry e" "is_node e" "ie_key e = one_char_name c" "length e = 96"
    using add_vcn_ok [OF name_entry_ok(1) [of c] name_entry_ok(2) [of c], where junk = 0] name_entry_ok [of c] by auto
  have "entry_ok e" using e(2) by (simp add: key_entry_def)
  note f = with_vcn_fields [OF this e(3), of vcn]
  show "key_entry (node_entry c vcn)" "is_node (node_entry c vcn)" "ie_key (node_entry c vcn) = one_char_name c" "length (node_entry c vcn) = 96"
    "in_s64 vcn \<Longrightarrow> ie_vcn (node_entry c vcn) = vcn"
    using f e by (simp_all add: node_entry_def)
qed

lemma end_node_entry_ok:
  "entry_ok (end_node_entry vcn)" "is_last (end_node_entry vcn)" "is_node (end_node_entry vcn)" "length (end_node_entry vcn) = 24"
  "in_s64 vcn \<Longrightarrow> ie_vcn (end_node_entry vcn) = vcn"
proof -
  let ?e = "raw_entry 24 0 3 (replicate 8 0)"
  have e: "entry_ok ?e" "is_node ?e" "is_last ?e" "length ?e = 24"
    by (simp_all add: entry_ok_def is_node_def is_last_def raw_entry_fields INDEX_ENTRY_NODE_def INDEX_ENTRY_END_def)
  note f = with_vcn_fields [OF e(1,2), of vcn]
  show "entry_ok (end_node_entry vcn)" "is_last (end_node_entry vcn)" "is_node (end_node_entry vcn)" "length (end_node_entry vcn) = 24"
    "in_s64 vcn \<Longrightarrow> ie_vcn (end_node_entry vcn) = vcn" using f e by (simp_all add: end_node_entry_def)
qed

definition example_root :: bytes where
  "example_root = replicate 4 0 @ le_bytes 4 1 @ le_bytes 4 512 @ replicate 4 0 @ node_bytes [node_entry 66 0] (end_node_entry 1) []"

lemma lies_at_shift: "lies_at (p @ b) (length p + i) xs \<longleftrightarrow> lies_at b i xs"
  by (simp add: lies_at_def chunk_append2 add.assoc)

lemma node_at_shift: "node_at b ih eo es t \<Longrightarrow> node_at (p @ b) (length p + ih) eo es t"
  unfolding node_at_def add.assoc lies_at_shift by simp

definition example_disc :: "int \<Rightarrow> nat \<Rightarrow> bytes option" where
  "example_disc pos n = (if n = 512 \<and> pos = 0 then Some (example_block 0 0 [name_entry 65] end_entry)
     else if n = 512 \<and> pos = 512 then Some (example_block 1 0 [name_entry 67] end_entry) else None)"

definition example_env :: index_env where
  "example_env = \<lparr>env_memcmp = memcmp_diff, env_upcase = [], env_cluster_size = 512, env_cluster_size_bits = 9, env_ia_open = True, env_room = True,
     env_pread = example_disc\<rparr>"

definition fresh_icx :: index_context where
  "fresh_icx = \<lparr>icx_entry = 0, icx_is_in_root = False, icx_ib = [], icx_parent_pos = replicate 32 0, icx_parent_vcn = replicate 32 0, icx_pindex = 0,
     icx_block_size = 0, icx_vcn_size_bits = 0\<rparr>"

lemma block_eo_512: "block_eo 512 = 24"
  by (simp add: block_eo_def)

lemma example_leaf:
  assumes "rd vcn = Some (example_block vcn 0 [name_entry c] end_entry)" "in_s64 vcn" "c < 65536"
  shows "index_tree rd 512 name_ok (name_val []) 0 vcn [([of_nat c], [of_nat c])]"
proof -
  have "entries [name_entry c] end_entry" using name_entry_ok [of c] end_entry_ok by (auto simp: key_entry_def entries_def)
  then have b: "node_at (example_block vcn 0 [name_entry c] end_entry) 24 (block_eo 512) [name_entry c] end_entry" "is_block (example_block vcn 0 [name_entry c] end_entry) vcn 512"
    using example_block_ok [of "[name_entry c]" end_entry 0 vcn] name_entry_ok [of c] end_entry_ok by (simp_all add: block_eo_512)
  have "keys_ok name_ok [name_entry c]" "\<forall>e \<in> set ([name_entry c] @ [end_entry]). \<not> is_node e"
    using name_entry_ok [of c] end_entry_ok by (simp_all add: keys_ok_def)
  from index_tree.leaf [where rd = rd and val = "name_val []", OF assms(1) b(2) assms(2) b(1) this] show ?thesis
    using name_entry_ok [of c] one_char_val [OF assms(3)] by simp
qed

lemma example_root_fields: "fetch32 example_root 4 = Some 1" "fetch32 example_root 8 = Some 512"
proof -
  have "lies_at example_root 4 (le_bytes 4 1)" "lies_at example_root 8 (le_bytes 4 512)"
    using lies_at_here [of 4 "replicate 4 0" "le_bytes 4 1"] lies_at_here [of 8 "replicate 4 0 @ le_bytes 4 1" "le_bytes 4 512"]
    unfolding example_root_def by (simp_all del: replicate.simps)
  then show "fetch32 example_root 4 = Some 1" "fetch32 example_root 8 = Some 512" using fetch32_lies by simp_all
qed

lemma example_tree:
  "root_tree (index_blocks example_env 512) 512 name_ok (name_val []) 1 example_root 0 [([65], [65]), ([66], [66]), ([67], [67])]"
proof -
  let ?rd = "index_blocks example_env 512" and ?es = "[node_entry 66 0]" and ?t = "end_node_entry 1"
  have s: "in_s64 0" "in_s64 1" by (simp_all add: in_s64_def)
  have kids: "index_tree ?rd 512 name_ok (name_val []) 0 0 [([65], [65])]" "index_tree ?rd 512 name_ok (name_val []) 0 1 [([67], [67])]"
    using example_leaf [of ?rd 0 65] example_leaf [of ?rd 1 67] s by (simp_all add: index_blocks_def example_env_def example_disc_def s64_def)
  have "node_tree ?rd 512 name_ok (name_val []) 1 ?es ?t (weave [[([65], [65])], [([67], [67])]] (map (\<lambda>e. name_val [] (ie_key e)) ?es))"
    using kids node_entry_ok [where c = 66 and vcn = 0] end_node_entry_ok [of 1] name_entry_ok(4) [of 66] s unfolding node_tree_def
    by (auto simp: keys_ok_def intro!: exI [of _ "[[([65], [65])], [([67], [67])]]"])
  moreover have "entries ?es ?t" using node_entry_ok [where c = 66 and vcn = 0] end_node_entry_ok [of 1] by (auto simp: key_entry_def entries_def)
  then have "node_at (node_bytes ?es ?t []) 0 16 ?es ?t" using node_entry_ok [where c = 66 and vcn = 0] end_node_entry_ok [of 1] by (intro node_bytes_at) simp_all
  then have "node_at example_root 16 16 ?es ?t"
    using node_at_shift [of _ 0 16 ?es ?t "replicate 4 0 @ le_bytes 4 1 @ le_bytes 4 512 @ replicate 4 0"]
    unfolding example_root_def by (simp del: replicate.simps)
  ultimately show ?thesis using example_root_fields node_entry_ok(3) one_char_val [of 66] by (auto simp: root_tree_def)
qed

theorem directory_lookup_witness:
  "\<exists>r icx'. ntfs_index_lookup example_env (Inr (example_root, 0)) (one_char_name 67) fresh_icx = Some (None, icx')"
  using directory_lookup [of example_env 512 1 example_root 0 "[([65], [65]), ([66], [66]), ([67], [67])]" fresh_icx "one_char_name 67"]
    example_tree example_root_fields name_entry_ok(4) [of 67] one_char_val [of 67]
  by (simp add: example_env_def fresh_icx_def) blast

text \<open>
  C38. Blocks that lead to each other in a circle do not keep the lookup from ending: after 32 levels it fails with \<open>EOPNOTSUPP\<close>.
\<close>

theorem circular_index_ends:
  assumes "\<forall>z \<in> V. \<exists>b vcn' item. ntfs_ib_read pread icx z = Some (Some b) \<and> ntfs_ie_lookup collate key (length key) b 24 = Some (KeepSearching vcn' item)
      \<and> vcn' \<in> V \<and> 36 < length b \<and> unat (b ! 36) mod 2 = 1"
    and "vcn \<in> V" "length (icx_parent_pos icx) = 32" "length (icx_parent_vcn icx) = 32" "0 \<le> icx_pindex icx" "icx_pindex icx < 32"
  shows "\<exists>icx'. descend collate key pread old vcn icx = Some (Some EOPNOTSUPP, icx') \<and> icx_pindex icx' = 32"
  using assms
proof (induction "nat (32 - icx_pindex icx)" arbitrary: icx old vcn rule: less_induct)
  case less
  let ?icx = "icx\<lparr>icx_parent_vcn := (icx_parent_vcn icx)[nat (icx_pindex icx) := old], icx_pindex := icx_pindex icx + 1\<rparr>"
  show ?case
  proof (cases "icx_pindex icx = 31")
    case True
    then show ?thesis using less.prems by (subst descend.simps) (simp add: ntfs_icx_parent_inc_def MAX_PARENT_VCN_def)
  next
    case False
    then have inc: "ntfs_icx_parent_inc (icx\<lparr>icx_parent_vcn := (icx_parent_vcn icx)[nat (icx_pindex icx) := old]\<rparr>) = (None, ?icx)"
      using less.prems by (simp add: ntfs_icx_parent_inc_def MAX_PARENT_VCN_def)
    have rd: "ntfs_ib_read pread (icx\<lparr>icx_parent_vcn := pv, icx_pindex := p, icx_parent_pos := pp\<rparr>) z = ntfs_ib_read pread icx z"
      "ntfs_ib_read pread (icx\<lparr>icx_parent_vcn := pv, icx_pindex := p\<rparr>) z = ntfs_ib_read pread icx z" for pv p pp z
      by (simp_all add: ntfs_ib_read_def ntfs_ib_vcn_to_pos_def split: option.split)
    obtain b vcn' item where b: "ntfs_ib_read pread icx vcn = Some (Some b)" "ntfs_ie_lookup collate key (length key) b 24 = Some (KeepSearching vcn' item)"
      "vcn' \<in> V" "36 < length b" "unat (b ! 36) mod 2 = 1" using less.prems(1,2) by blast
    let ?icx' = "?icx\<lparr>icx_parent_pos := (icx_parent_pos icx)[nat (icx_pindex icx + 1) := item]\<rparr>"
    have n36: "mem_get b 36 (Suc 0) = Some [b ! 36]" using b(4) by (simp add: mem_get_def chunk_def Cons_nth_drop_Suc [symmetric])
    have "descend collate key pread old vcn icx = descend collate key pread vcn vcn' ?icx'"
      using less.prems False b by (subst descend.simps) (simp add: inc rd n36)
    moreover have "\<exists>icx'. descend collate key pread vcn vcn' ?icx' = Some (Some EOPNOTSUPP, icx') \<and> icx_pindex icx' = 32"
      using less.prems False b(3) by (intro less.hyps) (simp_all add: rd)
    ultimately show ?thesis by simp
  qed
qed

theorem circular_index_ends_witness:
  "\<exists>icx'. descend (Some (collate_names [])) (one_char_name 65) (\<lambda>pos n. Some (example_block 0 1 [] (end_node_entry 0))) VCN_INDEX_ROOT_PARENT 0
     (fresh_icx\<lparr>icx_block_size := 512\<rparr>) = Some (Some EOPNOTSUPP, icx') \<and> icx_pindex icx' = 32"
proof -
  let ?b = "example_block 0 1 [] (end_node_entry 0)"
  note e = end_node_entry_ok [of 0]
  have "entries [] (end_node_entry 0)" using e by (simp add: entries_def)
  then have b: "node_at ?b 24 (block_eo 512) [] (end_node_entry 0)" "is_block ?b 0 512" "unat (?b ! 36) = 1" "length ?b = 512"
    using example_block_ok [of "[]" "end_node_entry 0" 1 0] e by (simp_all add: block_eo_512)
  have s: "in_s64 0" by (simp add: in_s64_def)
  have "ntfs_ie_lookup (Some (collate_names [])) (one_char_name 65) (length (one_char_name 65)) ?b 24 = Some (KeepSearching 0 0)"
    using names.lookup_ok [where upcase = "[]", OF b(1) _ name_entry_ok(4) [of 65]] e s by (simp add: keys_ok_def place_def)
  moreover have "ntfs_ib_read (\<lambda>pos n. Some ?b) (fresh_icx\<lparr>icx_block_size := 512\<rparr>) 0 = Some (Some ?b)"
    using ia_check_ok [OF b(2) s] by (simp add: ntfs_ib_read_def fresh_icx_def)
  ultimately show ?thesis using b(3,4)
    by (intro circular_index_ends [where V = "{0}"]) (auto simp: fresh_icx_def)
qed

end
