(* ===== verification/SectorDev.thy ===== *)
theory SectorDev
  imports NtfsPrelude
begin

text \<open>
  Sector devices. The library reaches a disc through a \<open>DISC_INTERFACE\<close>: two functions that read and
  write whole sectors. The locale \<open>disc_interface\<close> states what its clients rely on; the provider here
  is the USB driver of \<open>libntfs_ext/source/ps3_io.c\<close> (\<open>PS3_NTFS_Startup\<close>, \<open>PS3_NTFS_Shutdown\<close>,
  \<open>PS3_NTFS_ReadSectors\<close>, \<open>PS3_NTFS_WriteSectors\<close>), on top of the storage system calls, which are the
  fields of \<open>storage_ops\<close>.
\<close>

section \<open>The contract\<close>

text \<open>The bytes of \<open>n\<close> sectors from \<open>s\<close>, and a disc content after sectors have been overwritten.\<close>

definition sectors_of :: "(nat \<Rightarrow> bytes) \<Rightarrow> nat \<Rightarrow> nat \<Rightarrow> bytes" where
  "sectors_of f s n = concat (map f [s..<s + n])"

definition put_sectors :: "nat \<Rightarrow> (nat \<Rightarrow> bytes) \<Rightarrow> nat \<Rightarrow> nat \<Rightarrow> bytes \<Rightarrow> nat \<Rightarrow> bytes" where
  "put_sectors z f s n b k = (if s \<le> k \<and> k < s + n then chunk ((k - s) * z) z b else f k)"

text \<open>
  \<open>rs d s n buf\<close> reads \<open>n\<close> sectors into \<open>buf\<close> (of that size), \<open>ws d s n buf\<close> writes them. \<open>sect d k\<close> is
  the content of sector \<open>k\<close>; sectors \<open>lo d \<le> k < hi d\<close> exist, of \<open>ssize d\<close> bytes. \<open>valid d\<close> is the
  representation invariant, of which nothing is promised after a failure; \<open>live d\<close> says that
  operations succeed. A result \<open>None\<close> is an access outside an object, or no return at all.
\<close>

locale disc_interface =
  fixes rs :: "'d \<Rightarrow> nat \<Rightarrow> nat \<Rightarrow> bytes \<Rightarrow> (bool \<times> bytes \<times> 'd) option"
    and ws :: "'d \<Rightarrow> nat \<Rightarrow> nat \<Rightarrow> bytes \<Rightarrow> (bool \<times> 'd) option"
    and ssize lo hi :: "'d \<Rightarrow> nat"
    and sect :: "'d \<Rightarrow> nat \<Rightarrow> bytes"
    and valid live :: "'d \<Rightarrow> bool"
  assumes geometry: "valid d \<Longrightarrow> 0 < ssize d \<and> lo d \<le> hi d \<and> hi d < 2 ^ 32"
    and sect_length: "valid d \<Longrightarrow> lo d \<le> k \<Longrightarrow> k < hi d \<Longrightarrow> length (sect d k) = ssize d"
    and rs_returns: "valid d \<Longrightarrow> lo d \<le> s \<Longrightarrow> s + n \<le> hi d \<Longrightarrow> length buf = n * ssize d \<Longrightarrow> rs d s n buf \<noteq> None"
    and ws_returns: "valid d \<Longrightarrow> lo d \<le> s \<Longrightarrow> s + n \<le> hi d \<Longrightarrow> length buf = n * ssize d \<Longrightarrow> ws d s n buf \<noteq> None"
    and rs_length: "valid d \<Longrightarrow> lo d \<le> s \<Longrightarrow> s + n \<le> hi d \<Longrightarrow> length buf = n * ssize d \<Longrightarrow>
      rs d s n buf = Some (r, b, d') \<Longrightarrow> length b = n * ssize d"
    and rs_ok: "valid d \<Longrightarrow> lo d \<le> s \<Longrightarrow> s + n \<le> hi d \<Longrightarrow> length buf = n * ssize d \<Longrightarrow>
      rs d s n buf = Some (True, b, d') \<Longrightarrow>
      b = sectors_of (sect d) s n \<and> valid d' \<and> sect d' = sect d \<and> ssize d' = ssize d \<and> lo d' = lo d \<and> hi d' = hi d"
    and ws_ok: "valid d \<Longrightarrow> lo d \<le> s \<Longrightarrow> s + n \<le> hi d \<Longrightarrow> length buf = n * ssize d \<Longrightarrow>
      ws d s n buf = Some (True, d') \<Longrightarrow>
      valid d' \<and> sect d' = put_sectors (ssize d) (sect d) s n buf \<and> ssize d' = ssize d \<and> lo d' = lo d \<and> hi d' = hi d"
    and rs_live: "valid d \<Longrightarrow> live d \<Longrightarrow> lo d \<le> s \<Longrightarrow> s + n \<le> hi d \<Longrightarrow> length buf = n * ssize d \<Longrightarrow>
      rs d s n buf = Some (r, b, d') \<Longrightarrow> r \<and> live d'"
    and ws_live: "valid d \<Longrightarrow> live d \<Longrightarrow> lo d \<le> s \<Longrightarrow> s + n \<le> hi d \<Longrightarrow> length buf = n * ssize d \<Longrightarrow>
      ws d s n buf = Some (r, d') \<Longrightarrow> r \<and> live d'"

section \<open>Facts on sector contents\<close>

lemma sectors_of_0 [simp]: "sectors_of f s 0 = []"
  by (simp add: sectors_of_def)

lemma sectors_of_Suc: "sectors_of f s (Suc n) = sectors_of f s n @ f (s + n)"
  by (simp add: sectors_of_def)

lemma sectors_of_append: "sectors_of f s (m + n) = sectors_of f s m @ sectors_of f (s + m) n"
  by (induction n) (simp_all add: sectors_of_Suc add.assoc [symmetric])

lemma length_sectors_of:
  "(\<And>k. s \<le> k \<Longrightarrow> k < s + n \<Longrightarrow> length (f k) = z) \<Longrightarrow> length (sectors_of f s n) = n * z"
  by (induction n) (simp_all add: sectors_of_Suc)

lemma sectors_of_cong: "(\<And>k. s \<le> k \<Longrightarrow> k < s + n \<Longrightarrow> f k = g k) \<Longrightarrow> sectors_of f s n = sectors_of g s n"
  unfolding sectors_of_def by (rule arg_cong [where f = concat], rule map_cong) auto

lemma chunk_sectors_of:
  assumes "\<And>k. s \<le> k \<Longrightarrow> k < s + n \<Longrightarrow> length (f k) = z" "i + m \<le> n"
  shows "chunk (i * z) (m * z) (sectors_of f s n) = sectors_of f (s + i) m"
proof -
  have split: "sectors_of f s n = sectors_of f s i @ sectors_of f (s + i) m @ sectors_of f (s + i + m) (n - i - m)"
    using assms(2) sectors_of_append [of f s i "m + (n - i - m)"] sectors_of_append [of f "s + i" m "n - i - m"]
    by simp
  have "length (sectors_of f s i) = i * z" "length (sectors_of f (s + i) m) = m * z"
    by (rule length_sectors_of; use assms in simp)+
  then show ?thesis
    unfolding split by (simp add: chunk_def)
qed

lemma chunk_sector:
  assumes "\<And>k. s \<le> k \<Longrightarrow> k < s + n \<Longrightarrow> length (f k) = z" "i < n"
  shows "chunk (i * z) z (sectors_of f s n) = f (s + i)"
  using chunk_sectors_of [of s n f z i 1] assms by (simp add: sectors_of_def)

lemma sectors_of_chunks:
  "length b = n * z \<Longrightarrow> sectors_of (\<lambda>k. chunk ((k - s) * z) z b) s n = b"
proof (induction n arbitrary: b)
  case 0
  then show ?case by simp
next
  case (Suc n)
  let ?c = "chunk 0 (n * z) b"
  have "sectors_of (\<lambda>k. chunk ((k - s) * z) z b) s n = sectors_of (\<lambda>k. chunk ((k - s) * z) z ?c) s n"
  proof (rule sectors_of_cong)
    fix k
    assume "s \<le> k" "k < s + n"
    then have "(k - s) * z + z \<le> n * z"
      by (metis add.commute less_diff_conv2 mult_Suc mult_le_mono1 Suc_leI add.commute)
    then show "chunk ((k - s) * z) z b = chunk ((k - s) * z) z ?c"
      using chunk_chunk [of "(k - s) * z" z "n * z" 0 b] by simp
  qed
  also have "\<dots> = ?c"
    by (rule Suc.IH) (use Suc.prems in simp)
  finally show ?case
    using Suc.prems chunk_append [of 0 "n * z" b z] by (simp add: sectors_of_Suc chunk_full)
qed

lemma put_sectors_0 [simp]: "put_sectors z f s 0 b = f"
  by (rule ext) (auto simp: put_sectors_def)

lemma put_sectors_append:
  assumes "length b1 = k * z"
  shows "put_sectors z (put_sectors z f s k b1) (s + k) m b2 = put_sectors z f s (k + m) (b1 @ b2)"
proof (rule ext)
  fix j
  consider "s \<le> j" "j < s + k" | "s + k \<le> j" "j < s + (k + m)" | "j < s \<or> s + (k + m) \<le> j"
    by linarith
  then show "put_sectors z (put_sectors z f s k b1) (s + k) m b2 j = put_sectors z f s (k + m) (b1 @ b2) j"
  proof cases
    case 1
    then have "j - s < k" by linarith
    then have "(j - s) * z + z \<le> length b1"
      using assms by (metis add.commute mult_Suc mult_le_mono1 Suc_leI)
    then show ?thesis using 1 by (simp add: put_sectors_def chunk_append1)
  next
    case 2
    then have "(j - s) * z = length b1 + (j - (s + k)) * z"
      using assms by (simp add: add_mult_distrib [symmetric])
    then show ?thesis using 2 by (simp add: put_sectors_def chunk_append2)
  qed (auto simp: put_sectors_def)
qed

context disc_interface
begin

lemma write_then_read:
  assumes v: "valid d" and l: "live d" and s: "lo d \<le> s" "s + n \<le> hi d"
    and len: "length buf = n * ssize d" "length buf' = n * ssize d"
  shows "\<exists>d1 d2. ws d s n buf = Some (True, d1) \<and> rs d1 s n buf' = Some (True, buf, d2)"
proof -
  obtain d1 where w: "ws d s n buf = Some (True, d1)" "live d1"
    using ws_returns [OF v s len(1)] ws_live [OF v l s len(1)] by fastforce
  note p = ws_ok [OF v s len(1) w(1)]
  have a: "lo d1 \<le> s" "s + n \<le> hi d1" "length buf' = n * ssize d1"
    using p s len by simp_all
  obtain b d2 where r: "rs d1 s n buf' = Some (True, b, d2)"
    using rs_returns [OF conjunct1 [OF p] a] rs_live [OF conjunct1 [OF p] w(2) a] by fastforce
  have "b = sectors_of (put_sectors (ssize d) (sect d) s n buf) s n"
    using rs_ok [OF conjunct1 [OF p] a r] p by simp
  also have "\<dots> = sectors_of (\<lambda>k. chunk ((k - s) * ssize d) (ssize d) buf) s n"
    by (rule sectors_of_cong) (simp add: put_sectors_def)
  also have "\<dots> = buf" by (rule sectors_of_chunks) (rule len)
  finally show ?thesis using w r by blast
qed

end

section \<open>The USB driver\<close>

text \<open>The storage system calls on the kernel state \<open>'k\<close>. A read returns the status, the number of
  sectors read and what it stored; a write the status and the number of sectors. \<open>medium k h\<close> is the
  content of the medium behind handle \<open>h\<close>, with \<open>medium_end h\<close> sectors of \<open>medium_ssize h\<close> bytes, and
  \<open>healthy k\<close> says that the calls do not fail.\<close>

record 'k storage_ops =
  sys_info :: "'k \<Rightarrow> nat \<Rightarrow> (int \<times> nat) \<times> 'k"
  sys_open :: "'k \<Rightarrow> nat \<Rightarrow> (int \<times> int) \<times> 'k"
  sys_close :: "'k \<Rightarrow> int \<Rightarrow> 'k"
  sys_read :: "'k \<Rightarrow> int \<Rightarrow> nat \<Rightarrow> nat \<Rightarrow> (int \<times> nat \<times> bytes) \<times> 'k"
  sys_write :: "'k \<Rightarrow> int \<Rightarrow> nat \<Rightarrow> nat \<Rightarrow> bytes \<Rightarrow> (int \<times> nat) \<times> 'k"
  medium :: "'k \<Rightarrow> int \<Rightarrow> nat \<Rightarrow> bytes"
  medium_end :: "int \<Rightarrow> nat"
  medium_ssize :: "int \<Rightarrow> nat"
  healthy :: "'k \<Rightarrow> bool"

text \<open>The module's tables, the kernel, and \<open>memalign\<close>: the new memory, if any.\<close>

record 'k ps3 =
  dev_fd :: "int list"
  dev_sectsize :: "nat list"
  kern :: 'k
  ops :: "'k storage_ops"
  mem_align :: "nat \<Rightarrow> bytes option"

definition ENODEVICE :: int where
  "ENODEVICE = 0x80010002 - 2 ^ 32"

definition PS3_NTFS_Startup :: "'k ps3 \<Rightarrow> nat \<Rightarrow> int \<Rightarrow> bool \<times> 'k ps3" where
  "PS3_NTFS_Startup p dev_id fd =
     (if fd < 0 \<or> fd > 7 then (False, p)
      else case sys_info (ops p) (kern p) dev_id of ((rr, sector_size), k1) \<Rightarrow>
        (let p1 = p \<lparr>kern := k1\<rparr>
         in if rr \<noteq> 0 then (False, p1 \<lparr>dev_sectsize := (dev_sectsize p1) [nat fd := 512]\<rparr>)
            else (let p2 = p1 \<lparr>dev_sectsize := (dev_sectsize p1) [nat fd := sector_size]\<rparr>
                  in if dev_fd p2 ! nat fd \<ge> 0 then (True, p2)
                     else case sys_open (ops p) (kern p2) dev_id of ((r, h), k2) \<Rightarrow>
                       (let p3 = p2 \<lparr>kern := k2\<rparr>
                        in if r < 0 then (False, p3 \<lparr>dev_fd := (dev_fd p3) [nat fd := - 1]\<rparr>)
                           else (True, p3 \<lparr>dev_fd := (dev_fd p3) [nat fd := h]\<rparr>)))))"

definition PS3_NTFS_Shutdown :: "'k ps3 \<Rightarrow> int \<Rightarrow> bool \<times> 'k ps3" where
  "PS3_NTFS_Shutdown p fd =
     (if fd < 0 \<or> fd > 7 then (False, p)
      else if dev_fd p ! nat fd < 0 then (False, p)
      else (True, p \<lparr>kern := sys_close (ops p) (kern p) (dev_fd p ! nat fd), dev_fd := (dev_fd p) [nat fd := - 1]\<rparr>))"

text \<open>Up to \<open>n\<close> attempts; the result is the status and the sector count of the last one and the
  buffer.\<close>

fun read_tries :: "nat \<Rightarrow> 'k ps3 \<Rightarrow> nat \<Rightarrow> nat \<Rightarrow> nat \<Rightarrow> bytes \<Rightarrow> int \<times> nat \<Rightarrow> (int \<times> nat) \<times> bytes \<times> 'k ps3" where
  "read_tries 0 p fd s n buf res = (res, buf, p)"
| "read_tries (Suc t) p fd s n buf res =
     (case sys_read (ops p) (kern p) (dev_fd p ! fd) s n of ((r, m, data), k') \<Rightarrow>
        (let buf' = blit buf 0 (take (length buf) data);
             p1 = p \<lparr>kern := k'\<rparr>;
             p2 = (if r = ENODEVICE then snd (PS3_NTFS_Shutdown p1 (int fd)) else p1)
         in if r = 0 then ((r, m), buf', p2) else read_tries t p2 fd s n buf' (r, m)))"

fun write_tries :: "nat \<Rightarrow> 'k ps3 \<Rightarrow> nat \<Rightarrow> nat \<Rightarrow> nat \<Rightarrow> bytes \<Rightarrow> int \<times> nat \<Rightarrow> (int \<times> nat) \<times> 'k ps3" where
  "write_tries 0 p fd s n buf res = (res, p)"
| "write_tries (Suc t) p fd s n buf res =
     (case sys_write (ops p) (kern p) (dev_fd p ! fd) s n buf of ((r, m), k') \<Rightarrow>
        (let p1 = p \<lparr>kern := k'\<rparr>
         in if r = ENODEVICE then ((r, m), snd (PS3_NTFS_Shutdown p1 (int fd)))
            else if r = 0 then ((r, m), p1) else write_tries t p1 fd s n buf (r, m)))"

text \<open>\<open>unaligned\<close> says that the address of \<open>buffer\<close> is not a multiple of 32: then the transfer goes
  through a buffer of its own.\<close>

definition PS3_NTFS_ReadSectors :: "bool \<Rightarrow> nat \<Rightarrow> 'k ps3 \<Rightarrow> nat \<Rightarrow> nat \<Rightarrow> bytes \<Rightarrow> (bool \<times> bytes \<times> 'k ps3) option" where
  "PS3_NTFS_ReadSectors unaligned fd p s n buffer =
     (if length (dev_fd p) \<le> fd then None else Some (if dev_fd p ! fd < 0 then (False, buffer, p)
      else case (if unaligned then mem_align p (dev_sectsize p ! fd * n) else Some buffer) of
        None \<Rightarrow> (False, buffer, p)
      | Some my_buff \<Rightarrow>
          (case read_tries 8 p fd s n my_buff (0, 0) of ((r, m), b, p') \<Rightarrow>
             (let buffer' = (if unaligned then (if r \<ge> 0 then blit buffer 0 (chunk 0 (dev_sectsize p' ! fd * n) b) else buffer)
                             else b)
              in if r < 0 then (False, buffer', p') else if m \<noteq> n then (False, buffer', p')
                 else (True, buffer', p')))))"

definition PS3_NTFS_WriteSectors :: "bool \<Rightarrow> nat \<Rightarrow> 'k ps3 \<Rightarrow> nat \<Rightarrow> nat \<Rightarrow> bytes \<Rightarrow> (bool \<times> 'k ps3) option" where
  "PS3_NTFS_WriteSectors unaligned fd p s n buffer =
     (if length (dev_fd p) \<le> fd then None else Some (if dev_fd p ! fd < 0 then (False, p)
      else case (if unaligned then map_option (\<lambda>m. blit m 0 (chunk 0 (dev_sectsize p ! fd * n) buffer))
                                       (mem_align p (dev_sectsize p ! fd * n)) else Some buffer) of
        None \<Rightarrow> (False, p)
      | Some my_buff \<Rightarrow>
          (case write_tries 8 p fd s n my_buff (0, 0) of ((r, m), p') \<Rightarrow>
             if r < 0 then (False, p') else if m \<noteq> n then (False, p') else (True, p'))))"

section \<open>The driver keeps the contract\<close>

text \<open>What the system calls are documented to do: a status is 0 or negative, a call on a closed handle
  fails, a read that reports all its sectors has stored them, a write changes no other sector.\<close>

definition read_law :: "'k storage_ops \<Rightarrow> bool" where
  "read_law K \<longleftrightarrow> (\<forall>k h s n r m data k'. sys_read K k h s n = ((r, m, data), k') \<longrightarrow>
     r \<le> 0 \<and> (h < 0 \<longrightarrow> r < 0) \<and> medium K k' = medium K k
     \<and> (r = 0 \<and> m = n \<longrightarrow> data = sectors_of (medium K k h) s n)
     \<and> (healthy K k \<and> 0 \<le> h \<longrightarrow> r = 0 \<and> m = n \<and> healthy K k'))"

definition write_law :: "'k storage_ops \<Rightarrow> bool" where
  "write_law K \<longleftrightarrow> (\<forall>k h s n buf r m k'. sys_write K k h s n buf = ((r, m), k') \<longrightarrow>
     r \<le> 0 \<and> (h < 0 \<longrightarrow> r < 0)
     \<and> (\<forall>h'. \<forall>j. h' \<noteq> h \<or> j < s \<or> s + n \<le> j \<longrightarrow> medium K k' h' j = medium K k h' j)
     \<and> (r = 0 \<and> m = n \<longrightarrow> medium K k' h = put_sectors (medium_ssize K h) (medium K k h) s n buf)
     \<and> (healthy K k \<and> 0 \<le> h \<longrightarrow> r = 0 \<and> m = n \<and> healthy K k'))"

definition ps3_valid :: "nat \<Rightarrow> 'k ps3 \<Rightarrow> bool" where
  "ps3_valid fd p \<longleftrightarrow> read_law (ops p) \<and> write_law (ops p) \<and> fd \<le> 7 \<and> fd < length (dev_fd p)
     \<and> dev_sectsize p ! fd = medium_ssize (ops p) (dev_fd p ! fd) \<and> 0 < dev_sectsize p ! fd
     \<and> medium_end (ops p) (dev_fd p ! fd) < 2 ^ 32
     \<and> (\<forall>j < medium_end (ops p) (dev_fd p ! fd). length (medium (ops p) (kern p) (dev_fd p ! fd) j) = dev_sectsize p ! fd)
     \<and> (\<forall>n b. mem_align p n = Some b \<longrightarrow> length b = n)"

definition ps3_live :: "nat \<Rightarrow> 'k ps3 \<Rightarrow> bool" where
  "ps3_live fd p \<longleftrightarrow> 0 \<le> dev_fd p ! fd \<and> healthy (ops p) (kern p) \<and> (\<forall>n. mem_align p n \<noteq> None)"

abbreviation ps3_sect :: "nat \<Rightarrow> 'k ps3 \<Rightarrow> nat \<Rightarrow> bytes" where
  "ps3_sect fd p \<equiv> medium (ops p) (kern p) (dev_fd p ! fd)"

lemma shutdown_closed:
  "fd < length (dev_fd p) \<Longrightarrow> fd \<le> 7 \<Longrightarrow> dev_fd (snd (PS3_NTFS_Shutdown p (int fd))) ! fd < 0 \<or>
     snd (PS3_NTFS_Shutdown p (int fd)) = p"
  by (auto simp: PS3_NTFS_Shutdown_def)

lemma shutdown_same [simp]:
  "ops (snd (PS3_NTFS_Shutdown p fd)) = ops p" "mem_align (snd (PS3_NTFS_Shutdown p fd)) = mem_align p"
  "dev_sectsize (snd (PS3_NTFS_Shutdown p fd)) = dev_sectsize p"
  "length (dev_fd (snd (PS3_NTFS_Shutdown p fd))) = length (dev_fd p)"
  by (simp_all add: PS3_NTFS_Shutdown_def)

text \<open>A call on a closed handle never ends with status 0.\<close>

lemma read_tries_closed:
  "read_law (ops p) \<Longrightarrow> fd \<le> 7 \<Longrightarrow> dev_fd p ! fd < 0 \<Longrightarrow> fst res < 0 \<Longrightarrow>
   read_tries t p fd s n buf res = ((r, m), b, p') \<Longrightarrow> r < 0"
proof (induction t arbitrary: p buf res)
  case 0
  then show ?case by auto
next
  case (Suc t)
  obtain r1 m1 data k' where rd: "sys_read (ops p) (kern p) (dev_fd p ! fd) s n = ((r1, m1, data), k')"
    by (metis surj_pair)
  then have r1: "r1 < 0"
    using Suc.prems unfolding read_law_def by blast
  define p2 where "p2 = (if r1 = ENODEVICE then snd (PS3_NTFS_Shutdown (p\<lparr>kern := k'\<rparr>) (int fd)) else p\<lparr>kern := k'\<rparr>)"
  have "ops p2 = ops p" "dev_fd p2 ! fd < 0"
    using Suc.prems by (auto simp: p2_def PS3_NTFS_Shutdown_def)
  then show ?case
    using Suc.IH [of p2 "(r1, m1)"] Suc.prems rd r1 by (auto simp: Let_def p2_def [symmetric])
qed

lemma read_tries_length:
  "read_tries t p fd s n buf res = (x, b, p') \<Longrightarrow> length b = length buf"
proof (induction t arbitrary: p buf res)
  case 0
  then show ?case by simp
next
  case (Suc t)
  obtain r1 m1 data k' where rd: "sys_read (ops p) (kern p) (dev_fd p ! fd) s n = ((r1, m1, data), k')"
    by (metis surj_pair)
  have l: "length (blit buf 0 (take (length buf) data)) = length buf"
    by simp
  show ?case
  proof (cases "r1 = 0")
    case True
    then show ?thesis using Suc.prems rd l by (simp add: Let_def)
  next
    case False
    then have "read_tries t (if r1 = ENODEVICE then snd (PS3_NTFS_Shutdown (p\<lparr>kern := k'\<rparr>) (int fd)) else p\<lparr>kern := k'\<rparr>)
        fd s n (blit buf 0 (take (length buf) data)) (r1, m1) = (x, b, p')"
      using Suc.prems rd by (simp add: Let_def)
    from Suc.IH [OF this] l show ?thesis by simp
  qed
qed

lemma read_tries_spec:
  "read_law (ops p) \<Longrightarrow> fd \<le> 7 \<Longrightarrow> fd < length (dev_fd p) \<Longrightarrow> t = 0 \<longrightarrow> fst res < 0 \<Longrightarrow>
   (\<And>j. s \<le> j \<Longrightarrow> j < s + n \<Longrightarrow> length (ps3_sect fd p j) = z) \<Longrightarrow> length buf = n * z \<Longrightarrow>
   read_tries t p fd s n buf res = ((r, m), b, p') \<Longrightarrow>
   length b = n * z \<and>
   (\<not> r < 0 \<and> m = n \<longrightarrow> b = sectors_of (ps3_sect fd p) s n
     \<and> (\<exists>k'. p' = p \<lparr>kern := k'\<rparr> \<and> medium (ops p) k' = medium (ops p) (kern p)))"
proof (induction t arbitrary: p buf res)
  case 0
  then show ?case by auto
next
  case (Suc t)
  let ?h = "dev_fd p ! fd"
  obtain r1 m1 data k' where rd: "sys_read (ops p) (kern p) ?h s n = ((r1, m1, data), k')"
    by (metis surj_pair)
  then have law: "r1 \<le> 0" "?h < 0 \<longrightarrow> r1 < 0" "medium (ops p) k' = medium (ops p) (kern p)"
      "r1 = 0 \<and> m1 = n \<longrightarrow> data = sectors_of (ps3_sect fd p) s n"
    using Suc.prems(1) unfolding read_law_def by blast+
  let ?buf = "blit buf 0 (take (length buf) data)"
  have lb: "length ?buf = n * z"
    using Suc.prems(6) by simp
  show ?case
  proof (cases "r1 = 0")
    case True
    have "?buf = sectors_of (ps3_sect fd p) s n" if "m1 = n"
    proof -
      have "length data = n * z"
        using law(4) True that length_sectors_of [of s n "ps3_sect fd p" z] Suc.prems(5) by simp
      then show ?thesis
        using law(4) True that Suc.prems(6) by (simp add: blit_def)
    qed
    moreover have "r = r1" "m = m1" "b = ?buf" "p' = p \<lparr>kern := k'\<rparr>"
      using Suc.prems(7) rd True by (simp_all add: Let_def ENODEVICE_def)
    ultimately show ?thesis
      using lb True law(3) by auto
  next
    case False
    then have neg: "r1 < 0" using law(1) by simp
    show ?thesis
    proof (cases "r1 = ENODEVICE")
      case dead: True
      let ?p = "snd (PS3_NTFS_Shutdown (p\<lparr>kern := k'\<rparr>) (int fd))"
      have rec: "read_tries t ?p fd s n ?buf (r1, m1) = ((r, m), b, p')"
        using Suc.prems(7) rd False dead by (simp add: Let_def)
      have "dev_fd ?p ! fd < 0"
        using Suc.prems(2,3) by (auto simp: PS3_NTFS_Shutdown_def)
      then have "r < 0"
        using read_tries_closed [OF _ Suc.prems(2) _ _ rec] Suc.prems(1) neg by simp
      moreover have "length b = n * z"
        using read_tries_length [OF rec] lb by simp
      ultimately show ?thesis by simp
    next
      case retry: False
      have rec: "read_tries t (p\<lparr>kern := k'\<rparr>) fd s n ?buf (r1, m1) = ((r, m), b, p')"
        using Suc.prems(7) rd False retry by (simp add: Let_def)
      have "length b = n * z \<and>
         (\<not> r < 0 \<and> m = n \<longrightarrow> b = sectors_of (ps3_sect fd (p\<lparr>kern := k'\<rparr>)) s n
           \<and> (\<exists>k''. p' = (p\<lparr>kern := k'\<rparr>) \<lparr>kern := k''\<rparr> \<and> medium (ops (p\<lparr>kern := k'\<rparr>)) k'' = medium (ops (p\<lparr>kern := k'\<rparr>)) (kern (p\<lparr>kern := k'\<rparr>))))"
        by (rule Suc.IH [OF _ Suc.prems(2) _ _ _ lb rec])
          (use Suc.prems(1,3,5) law(3) neg in simp_all)
      then show ?thesis using law(3) by simp
    qed
  qed
qed

lemma put_sectors_cong:
  "(\<And>j. j < s \<or> s + n \<le> j \<Longrightarrow> f j = g j) \<Longrightarrow> put_sectors z f s n b = put_sectors z g s n b"
  by (rule ext) (auto simp: put_sectors_def)

lemma sector_in_buffer:
  "j < n \<Longrightarrow> j * z + z \<le> n * (z :: nat)"
  using mult_le_mono1 [of "Suc j" n z] by simp

lemma length_put_sectors:
  assumes "length b = n * z" "length (f k) = z \<or> s \<le> k \<and> k < s + n"
  shows "length (put_sectors z f s n b k) = z"
proof (cases "s \<le> k \<and> k < s + n")
  case True
  then have "(k - s) * z + z \<le> length b"
    using sector_in_buffer [of "k - s" n z] assms(1) by auto
  then show ?thesis using True by (simp add: put_sectors_def)
next
  case False
  then show ?thesis using assms(2) by (auto simp: put_sectors_def)
qed

lemma write_tries_spec:
  "write_law (ops p) \<Longrightarrow> fd \<le> 7 \<Longrightarrow> t = 0 \<longrightarrow> fst res < 0 \<Longrightarrow>
   write_tries t p fd s n buf res = ((r, m), p') \<Longrightarrow> \<not> r < 0 \<Longrightarrow> m = n \<Longrightarrow>
   \<exists>k'. p' = p \<lparr>kern := k'\<rparr> \<and>
     medium (ops p) k' (dev_fd p ! fd) = put_sectors (medium_ssize (ops p) (dev_fd p ! fd)) (ps3_sect fd p) s n buf"
proof (induction t arbitrary: p res)
  case 0
  then show ?case by auto
next
  case (Suc t)
  let ?h = "dev_fd p ! fd"
  obtain r1 m1 k' where wr: "sys_write (ops p) (kern p) ?h s n buf = ((r1, m1), k')"
    by (metis surj_pair)
  then have law: "r1 \<le> 0" "\<forall>h'. \<forall>j. h' \<noteq> ?h \<or> j < s \<or> s + n \<le> j \<longrightarrow> medium (ops p) k' h' j = medium (ops p) (kern p) h' j"
      "r1 = 0 \<and> m1 = n \<longrightarrow> medium (ops p) k' ?h = put_sectors (medium_ssize (ops p) ?h) (ps3_sect fd p) s n buf"
    using Suc.prems(1) unfolding write_law_def by blast+
  show ?case
  proof (cases "r1 = 0")
    case True
    then have "r = r1" "m = m1" "p' = p \<lparr>kern := k'\<rparr>"
      using Suc.prems(4) wr by (simp_all add: Let_def ENODEVICE_def)
    then show ?thesis using law(3) True Suc.prems(6) by blast
  next
    case False
    then have neg: "r1 < 0" using law(1) by simp
    then have "r1 \<noteq> ENODEVICE"
      using Suc.prems(4,5) wr by (auto simp: Let_def)
    then have rec: "write_tries t (p\<lparr>kern := k'\<rparr>) fd s n buf (r1, m1) = ((r, m), p')"
      using Suc.prems(4) wr False by (simp add: Let_def)
    obtain k'' where k'': "p' = p \<lparr>kern := k''\<rparr>"
        "medium (ops p) k'' ?h = put_sectors (medium_ssize (ops p) ?h) (medium (ops p) k' ?h) s n buf"
      using Suc.IH [OF _ Suc.prems(2) _ rec Suc.prems(5,6)] Suc.prems(1) neg by auto
    moreover have "put_sectors (medium_ssize (ops p) ?h) (medium (ops p) k' ?h) s n buf
        = put_sectors (medium_ssize (ops p) ?h) (ps3_sect fd p) s n buf"
      by (rule put_sectors_cong) (use law(2) in blast)
    ultimately show ?thesis by auto
  qed
qed

lemma ps3_valid_kern:
  "ps3_valid fd p \<Longrightarrow> (\<And>j. j < medium_end (ops p) (dev_fd p ! fd) \<Longrightarrow>
     length (medium (ops p) k' (dev_fd p ! fd) j) = dev_sectsize p ! fd) \<Longrightarrow> ps3_valid fd (p \<lparr>kern := k'\<rparr>)"
  by (auto simp: ps3_valid_def)

lemma ps3_read:
  assumes v: "ps3_valid fd p" and hi: "s + n \<le> medium_end (ops p) (dev_fd p ! fd)"
    and len: "length buf = n * (dev_sectsize p ! fd)" and r: "PS3_NTFS_ReadSectors unaligned fd p s n buf = Some (ok, b, p')"
  shows "length b = length buf \<and>
    (ok \<longrightarrow> b = sectors_of (ps3_sect fd p) s n \<and>
       (\<exists>k'. p' = p \<lparr>kern := k'\<rparr> \<and> medium (ops p) k' = medium (ops p) (kern p)))"
proof (cases "dev_fd p ! fd < 0 \<or> unaligned \<and> mem_align p (dev_sectsize p ! fd * n) = None")
  case True
  then show ?thesis using r by (auto simp: PS3_NTFS_ReadSectors_def split: if_splits)
next
  case False
  define my where "my = (if unaligned then the (mem_align p (dev_sectsize p ! fd * n)) else buf)"
  have my: "(if unaligned then mem_align p (dev_sectsize p ! fd * n) else Some buf) = Some my"
    using False by (auto simp: my_def)
  have lmy: "length my = n * (dev_sectsize p ! fd)"
  proof (cases unaligned)
    case True
    then show ?thesis
      using my v unfolding ps3_valid_def by (metis mult.commute)
  qed (simp add: my_def len)
  obtain r1 m1 b1 p1 where t: "read_tries 8 p fd s n my (0, 0) = ((r1, m1), b1, p1)"
    by (metis surj_pair)
  have spec: "length b1 = n * (dev_sectsize p ! fd) \<and>
   (\<not> r1 < 0 \<and> m1 = n \<longrightarrow> b1 = sectors_of (ps3_sect fd p) s n
     \<and> (\<exists>k'. p1 = p \<lparr>kern := k'\<rparr> \<and> medium (ops p) k' = medium (ops p) (kern p)))"
    by (rule read_tries_spec [OF _ _ _ _ _ lmy t]) (use v hi in \<open>auto simp: ps3_valid_def\<close>)
  define buffer' where "buffer' = (if unaligned then (if r1 \<ge> 0 then blit buf 0 (chunk 0 (dev_sectsize p1 ! fd * n) b1) else buf) else b1)"
  have res: "(ok, b, p') = (\<not> r1 < 0 \<and> m1 = n, buffer', p1)"
    using r False unfolding PS3_NTFS_ReadSectors_def my option.case t prod.case Let_def buffer'_def [symmetric]
    by (auto split: if_splits)
  have "length buffer' = length buf"
    using spec len by (auto simp: buffer'_def min_def)
  moreover have "buffer' = b1" if "\<not> r1 < 0" "m1 = n"
  proof -
    have "dev_sectsize p1 = dev_sectsize p" using spec that by auto
    then show ?thesis
      using spec that len by (auto simp: buffer'_def chunk_full mult.commute blit_def)
  qed
  ultimately show ?thesis using res spec by auto
qed

lemma ps3_write:
  assumes v: "ps3_valid fd p" and len: "length buf = n * (dev_sectsize p ! fd)"
    and r: "PS3_NTFS_WriteSectors unaligned fd p s n buf = Some (True, p')"
  shows "\<exists>k'. p' = p \<lparr>kern := k'\<rparr> \<and>
     medium (ops p) k' (dev_fd p ! fd) = put_sectors (dev_sectsize p ! fd) (ps3_sect fd p) s n buf"
proof -
  have "\<not> dev_fd p ! fd < 0"
    using r by (auto simp: PS3_NTFS_WriteSectors_def split: if_splits)
  moreover have "(if unaligned then map_option (\<lambda>m. blit m 0 (chunk 0 (dev_sectsize p ! fd * n) buf))
       (mem_align p (dev_sectsize p ! fd * n)) else Some buf) = Some buf"
  proof (cases unaligned)
    case True
    then obtain m where m: "mem_align p (dev_sectsize p ! fd * n) = Some m"
      using r by (cases "mem_align p (dev_sectsize p ! fd * n)") (auto simp: PS3_NTFS_WriteSectors_def split: if_splits)
    then have "length m = n * (dev_sectsize p ! fd)"
      using v unfolding ps3_valid_def by (metis mult.commute)
    then show ?thesis
      using True m len by (simp add: blit_def chunk_full mult.commute)
  qed simp
  moreover obtain r1 m1 p1 where t: "write_tries 8 p fd s n buf (0, 0) = ((r1, m1), p1)"
    by (metis surj_pair)
  ultimately have "\<not> r1 < 0" "m1 = n" "p' = p1"
    using r by (auto simp: PS3_NTFS_WriteSectors_def split: if_splits)
  then show ?thesis
    using write_tries_spec [OF _ _ _ t] v by (auto simp: ps3_valid_def)
qed

interpretation ps3: disc_interface "PS3_NTFS_ReadSectors unaligned fd" "PS3_NTFS_WriteSectors unaligned fd"
  "\<lambda>p. dev_sectsize p ! fd" "\<lambda>p. 0" "\<lambda>p. medium_end (ops p) (dev_fd p ! fd)" "ps3_sect fd" "ps3_valid fd" "ps3_live fd"
  for unaligned fd
proof
  fix p :: "'k ps3" and s n and buf b :: bytes and r p' and k
  show "0 < dev_sectsize p ! fd \<and> 0 \<le> medium_end (ops p) (dev_fd p ! fd) \<and> medium_end (ops p) (dev_fd p ! fd) < 2 ^ 32"
    if "ps3_valid fd p"
    using that by (simp add: ps3_valid_def)
  show "length (ps3_sect fd p k) = dev_sectsize p ! fd" if "ps3_valid fd p" "k < medium_end (ops p) (dev_fd p ! fd)"
    using that by (simp add: ps3_valid_def)
  assume v: "ps3_valid fd p" and hi: "s + n \<le> medium_end (ops p) (dev_fd p ! fd)"
    and len: "length buf = n * (dev_sectsize p ! fd)"
  show "PS3_NTFS_ReadSectors unaligned fd p s n buf \<noteq> None" "PS3_NTFS_WriteSectors unaligned fd p s n buf \<noteq> None"
    using v by (simp_all add: ps3_valid_def PS3_NTFS_ReadSectors_def PS3_NTFS_WriteSectors_def)
  show "length b = n * (dev_sectsize p ! fd)" if "PS3_NTFS_ReadSectors unaligned fd p s n buf = Some (r, b, p')"
    using ps3_read [OF v hi len that] len by simp
  show "b = sectors_of (ps3_sect fd p) s n \<and> ps3_valid fd p' \<and> ps3_sect fd p' = ps3_sect fd p
      \<and> dev_sectsize p' ! fd = dev_sectsize p ! fd \<and> 0 = (0 :: nat)
      \<and> medium_end (ops p') (dev_fd p' ! fd) = medium_end (ops p) (dev_fd p ! fd)"
    if "PS3_NTFS_ReadSectors unaligned fd p s n buf = Some (True, b, p')"
    using ps3_read [OF v hi len that] v ps3_valid_kern [OF v] by (auto simp: ps3_valid_def)
  show "ps3_valid fd p' \<and> ps3_sect fd p' = put_sectors (dev_sectsize p ! fd) (ps3_sect fd p) s n buf
      \<and> dev_sectsize p' ! fd = dev_sectsize p ! fd \<and> 0 = (0 :: nat)
      \<and> medium_end (ops p') (dev_fd p' ! fd) = medium_end (ops p) (dev_fd p ! fd)"
    if "PS3_NTFS_WriteSectors unaligned fd p s n buf = Some (True, p')"
    using ps3_write [OF v len that] v ps3_valid_kern [OF v] length_put_sectors [OF len]
    by (auto simp: ps3_valid_def)
  assume l: "ps3_live fd p"
  then obtain m where al: "mem_align p (dev_sectsize p ! fd * n) = Some m"
    by (auto simp: ps3_live_def)
  show "r \<and> ps3_live fd p'" if "PS3_NTFS_ReadSectors unaligned fd p s n buf = Some (r, b, p')"
  proof -
    obtain r1 m1 data k' where rd: "sys_read (ops p) (kern p) (dev_fd p ! fd) s n = ((r1, m1, data), k')"
      by (metis surj_pair)
    then have "r1 = 0" "m1 = n" "healthy (ops p) k'"
      using v l unfolding ps3_valid_def ps3_live_def read_law_def by blast+
    then show ?thesis
      using that l rd al unfolding PS3_NTFS_ReadSectors_def
      by (auto simp: ps3_live_def numeral_eq_Suc Let_def ENODEVICE_def split: if_splits option.splits)
  qed
  show "r \<and> ps3_live fd p'" if "PS3_NTFS_WriteSectors unaligned fd p s n buf = Some (r, p')"
  proof -
    have "\<exists>k'. sys_write (ops p) (kern p) (dev_fd p ! fd) s n x = ((0, n), k') \<and> healthy (ops p) k'" for x
    proof -
      obtain r1 m1 k' where wr: "sys_write (ops p) (kern p) (dev_fd p ! fd) s n x = ((r1, m1), k')"
        by (metis surj_pair)
      then have "r1 = 0" "m1 = n" "healthy (ops p) k'"
        using v l unfolding ps3_valid_def ps3_live_def write_law_def by blast+
      with wr show ?thesis by blast
    qed
    then obtain k' where wr: "\<And>x. sys_write (ops p) (kern p) (dev_fd p ! fd) s n x = ((0, n), k' x)"
        "\<And>x. healthy (ops p) (k' x)"
      by metis
    then show ?thesis
      using that l wr al unfolding PS3_NTFS_WriteSectors_def
      by (auto simp: ps3_live_def numeral_eq_Suc Let_def ENODEVICE_def split: if_splits option.splits)
  qed
qed


section \<open>A kernel in memory\<close>

text \<open>A kernel whose media are held in memory, with sectors of one byte: an instance of the laws above.\<close>

definition ram_ops :: "(int \<Rightarrow> nat \<Rightarrow> bytes) storage_ops" where
  "ram_ops = \<lparr>sys_info = (\<lambda>k dev. ((0, 1), k)), sys_open = (\<lambda>k dev. ((0, 3), k)), sys_close = (\<lambda>k h. k),
     sys_read = (\<lambda>k h s n. if h < 0 then ((- 1, 0, []), k) else ((0, n, sectors_of (k h) s n), k)),
     sys_write = (\<lambda>k h s n buf. if h < 0 then ((- 1, 0), k) else ((0, n), k (h := put_sectors 1 (k h) s n buf))),
     medium = (\<lambda>k. k), medium_end = (\<lambda>h. 64), medium_ssize = (\<lambda>h. 1), healthy = (\<lambda>k. True)\<rparr>"

definition ram_dev :: "(int \<Rightarrow> nat \<Rightarrow> bytes) ps3" where
  "ram_dev = \<lparr>dev_fd = replicate 8 3, dev_sectsize = replicate 8 1, kern = (\<lambda>h j. [word_of_nat j]), ops = ram_ops,
     mem_align = (\<lambda>n. Some (replicate n 0))\<rparr>"

lemma ram_laws: "read_law ram_ops" "write_law ram_ops"
  by (auto simp: read_law_def write_law_def ram_ops_def put_sectors_def split: if_splits)

lemma ram_dev_ok: "ps3_valid 0 ram_dev" "ps3_live 0 ram_dev"
  using ram_laws by (simp_all add: ps3_valid_def ps3_live_def ram_dev_def) (simp_all add: ram_ops_def)

lemma ram_dev_geometry: "dev_sectsize ram_dev ! 0 = 1" "medium_end (ops ram_dev) (dev_fd ram_dev ! 0) = 64"
  by (simp_all add: ram_dev_def ram_ops_def)

section \<open>Properties\<close>

text \<open>
  On a device that works, the sectors written by \<open>PS3_NTFS_WriteSectors\<close> are the ones
  \<open>PS3_NTFS_ReadSectors\<close> returns, whatever the alignment of the two buffers.
\<close>

lemma ps3_write_then_read:
  assumes "ps3_valid fd p" "ps3_live fd p" "s + n \<le> medium_end (ops p) (dev_fd p ! fd)"
    and "length buf = n * (dev_sectsize p ! fd)" "length buf' = n * (dev_sectsize p ! fd)"
  shows "\<exists>p1 p2. PS3_NTFS_WriteSectors unaligned fd p s n buf = Some (True, p1)
     \<and> PS3_NTFS_ReadSectors unaligned fd p1 s n buf' = Some (True, buf, p2)"
  using ps3.write_then_read [OF assms(1,2) _ assms(3,4,5)] by blast

text \<open>
  When the kernel reports that the device is gone, a read fails after its remaining attempts, and the
  handle is closed: \<open>dev_fd\<close> of the device is -1.
\<close>

lemma ps3_read_device_gone:
  assumes "read_law (ops p)" "fd \<le> 7" "fd < length (dev_fd p)" "0 \<le> dev_fd p ! fd"
    and "sys_read (ops p) (kern p) (dev_fd p ! fd) s n = ((ENODEVICE, m, data), k')"
  shows "\<exists>b p'. PS3_NTFS_ReadSectors False fd p s n buf = Some (False, b, p') \<and> dev_fd p' ! fd = - 1"
proof -
  have closed: "dev_fd q ! fd = - 1 \<Longrightarrow> fd < length (dev_fd q) \<Longrightarrow> read_tries t q fd s n buf' res = (x, b, q') \<Longrightarrow>
      dev_fd q' ! fd = - 1" for t and q q' :: "'a ps3" and buf' res x b
  proof (induction t arbitrary: q buf' res)
    case (Suc t)
    obtain r1 m1 data k' where rd: "sys_read (ops q) (kern q) (dev_fd q ! fd) s n = ((r1, m1, data), k')"
      by (metis surj_pair)
    have "snd (PS3_NTFS_Shutdown (q\<lparr>kern := k'\<rparr>) (int fd)) = q\<lparr>kern := k'\<rparr>"
      using Suc.prems(1) by (simp add: PS3_NTFS_Shutdown_def)
    then show ?case
      using Suc.IH [of "q\<lparr>kern := k'\<rparr>"] Suc.prems rd by (auto simp: Let_def split: if_splits)
  qed simp
  define p1 where "p1 = snd (PS3_NTFS_Shutdown (p\<lparr>kern := k'\<rparr>) (int fd))"
  have p1: "ops p1 = ops p" "dev_fd p1 ! fd = - 1" "fd < length (dev_fd p1)"
    using assms(2-4) by (simp_all add: p1_def PS3_NTFS_Shutdown_def)
  obtain r m2 b p' where t: "read_tries 7 p1 fd s n (blit buf 0 (take (length buf) data)) (ENODEVICE, m) = ((r, m2), b, p')"
    by (metis surj_pair)
  have "r < 0"
    by (rule read_tries_closed [OF _ assms(2) _ _ t]) (simp_all add: p1 assms(1) ENODEVICE_def)
  moreover have "dev_fd p' ! fd = - 1"
    by (rule closed [OF p1(2,3) t])
  moreover have "read_tries 8 p fd s n buf (0, 0) = ((r, m2), b, p')"
  proof -
    have eight: "8 = Suc 7" and ne: "(ENODEVICE = 0) = False" by (simp_all add: ENODEVICE_def)
    show ?thesis
      unfolding eight read_tries.simps assms(5) prod.case Let_def ne if_False
      using t by (simp add: p1_def)
  qed
  ultimately show ?thesis
    using assms(3,4) by (auto simp: PS3_NTFS_ReadSectors_def)
qed

end
