(* ===== verification/NtfsCache.thy ===== *)
theory NtfsCache
  imports SectorDev
begin

text \<open>
  The write-back sector cache, \<open>libntfs_ext/source/cache2.c\<close>: a fixed number of pages of
  \<open>sectorsPerPage\<close> sectors, aligned to the start of the partition, replaced least recently used. A page
  in use that is \<open>dirty\<close> is newer than the disc.

  The operations are stated over the sector functions \<open>rs\<close> and \<open>ws\<close> of the disc; the result \<open>None\<close> is an
  access outside a page or a loop that makes no progress. Sector numbers (\<open>sec_t\<close>) are unsigned 32-bit
  numbers, reduced by \<open>u32\<close>; a \<open>NULL\<close> entry is \<open>None\<close>, an entry its index.
\<close>

section \<open>The code\<close>

record centry =
  ce_sector :: nat
  ce_count :: nat
  ce_last_access :: nat
  ce_dirty :: bool
  ce_cache :: bytes

record 'd ncache =
  disc :: 'd
  startOfPartition :: nat
  endOfPartition :: nat
  sectorsPerPage :: nat
  sectorSize :: nat
  cacheEntries :: "centry list"
  accessCounter :: nat

definition CACHE_FREE :: nat where
  "CACHE_FREE = 2 ^ 32 - 1"

definition UINT_MAX :: nat where
  "UINT_MAX = 2 ^ 32 - 1"

text \<open>\<open>mem\<close> holds the memory \<open>ntfs_align\<close> returns for the pages.\<close>

definition NTFS_cache_constructor :: "nat \<Rightarrow> nat \<Rightarrow> 'd \<Rightarrow> nat \<Rightarrow> nat \<Rightarrow> nat \<Rightarrow> (nat \<Rightarrow> bytes) \<Rightarrow> nat \<Rightarrow> 'd ncache option" where
  "NTFS_cache_constructor numberOfPages spp d start endp z mem acc =
     (if numberOfPages = 0 \<or> spp = 0 then None
      else (let pages = (if numberOfPages < 4 then 4 else numberOfPages); per = (if spp < 32 then 32 else spp)
            in Some \<lparr>disc = d, startOfPartition = start, endOfPartition = endp, sectorsPerPage = per, sectorSize = z,
                 cacheEntries = map (\<lambda>i. \<lparr>ce_sector = CACHE_FREE, ce_count = 0, ce_last_access = 0, ce_dirty = False,
                                          ce_cache = mem i\<rparr>) [0..<pages],
                 accessCounter = acc\<rparr>))"

text \<open>\<open>entry->last_access = accessTime()\<close>.\<close>

definition touch :: "'d ncache \<Rightarrow> nat \<Rightarrow> 'd ncache" where
  "touch c i = (let t = u32 (accessCounter c + 1)
     in c \<lparr>accessCounter := t, cacheEntries := (cacheEntries c) [i := (cacheEntries c ! i) \<lparr>ce_last_access := t\<rparr>]\<rparr>)"

definition page_hit :: "centry \<Rightarrow> nat \<Rightarrow> bool" where
  "page_hit e sector \<longleftrightarrow> sector \<ge> ce_sector e \<and> sector < u32 (ce_sector e + ce_count e)"

text \<open>The scan of \<open>_NTFS_cache_getPage\<close>: the entry that holds the sector, or \<open>foundFree\<close> and \<open>oldUsed\<close>.\<close>

fun page_scan :: "nat \<Rightarrow> centry list \<Rightarrow> nat \<Rightarrow> bool \<Rightarrow> nat \<Rightarrow> nat \<Rightarrow> nat + bool \<times> nat" where
  "page_scan sector [] i foundFree oldUsed oldAccess = Inr (foundFree, oldUsed)"
| "page_scan sector (e # es) i foundFree oldUsed oldAccess =
     (if page_hit e sector then Inl i
      else if \<not> foundFree \<and> (ce_sector e = CACHE_FREE \<or> ce_last_access e < oldAccess)
      then page_scan sector es (i + 1) (ce_sector e = CACHE_FREE) i (u32 (ce_last_access e))
      else page_scan sector es (i + 1) foundFree oldUsed oldAccess)"

text \<open>Write a page back: the part of it that lies behind the start of the partition.\<close>

definition write_page :: "('d \<Rightarrow> nat \<Rightarrow> nat \<Rightarrow> bytes \<Rightarrow> (bool \<times> 'd) option) \<Rightarrow> 'd ncache \<Rightarrow> nat \<Rightarrow> (bool \<times> 'd ncache) option" where
  "write_page ws c i =
     (let e = cacheEntries c ! i;
          salign = (if ce_sector e < startOfPartition c then startOfPartition c - ce_sector e else 0);
          n = u32 (ce_count e + 2 ^ 32 - salign)
      in case mem_get (ce_cache e) (salign * sectorSize c) (n * sectorSize c) of None \<Rightarrow> None
       | Some b \<Rightarrow> (case ws (disc c) (u32 (ce_sector e + salign)) n b of None \<Rightarrow> None
           | Some (ok, d') \<Rightarrow> Some (ok, c \<lparr>disc := d'\<rparr>)))"

definition set_clean :: "'d ncache \<Rightarrow> nat \<Rightarrow> 'd ncache" where
  "set_clean c i = c \<lparr>cacheEntries := (cacheEntries c) [i := (cacheEntries c ! i) \<lparr>ce_dirty := False\<rparr>]\<rparr>"

text \<open>Load the page of a sector into entry \<open>i\<close>.\<close>

definition load_page :: "('d \<Rightarrow> nat \<Rightarrow> nat \<Rightarrow> bytes \<Rightarrow> (bool \<times> bytes \<times> 'd) option) \<Rightarrow> 'd ncache \<Rightarrow> nat \<Rightarrow> nat
    \<Rightarrow> (nat option \<times> 'd ncache) option" where
  "load_page rs c i sector =
     (let e = cacheEntries c ! i;
          base = u32 (startOfPartition c + (sector - startOfPartition c) div sectorsPerPage c * sectorsPerPage c);
          np = u32 (base + sectorsPerPage c);
          next_page = (if np > endOfPartition c then endOfPartition c else np);
          n = u32 (next_page + 2 ^ 32 - base)
      in case mem_get (ce_cache e) 0 (n * sectorSize c) of None \<Rightarrow> None
       | Some old \<Rightarrow>
           (case rs (disc c) base n old of None \<Rightarrow> None
            | Some (ok, b, d') \<Rightarrow>
                (let c1 = c \<lparr>disc := d', cacheEntries := (cacheEntries c) [i := e \<lparr>ce_cache := blit (ce_cache e) 0 b\<rparr>]\<rparr>
                 in if \<not> ok then Some (None, c1)
                    else Some (Some i, touch (c1 \<lparr>cacheEntries := (cacheEntries c1) [i := (cacheEntries c1 ! i)
                           \<lparr>ce_dirty := False, ce_sector := base, ce_count := n\<rparr>]\<rparr>) i))))"

definition NTFS_cache_getPage :: "('d \<Rightarrow> nat \<Rightarrow> nat \<Rightarrow> bytes \<Rightarrow> (bool \<times> bytes \<times> 'd) option)
    \<Rightarrow> ('d \<Rightarrow> nat \<Rightarrow> nat \<Rightarrow> bytes \<Rightarrow> (bool \<times> 'd) option) \<Rightarrow> 'd ncache \<Rightarrow> nat \<Rightarrow> (nat option \<times> 'd ncache) option" where
  "NTFS_cache_getPage rs ws c sector =
     (if sector < startOfPartition c then Some (None, c)
      else case page_scan sector (cacheEntries c) 0 False 0 UINT_MAX of
        Inl i \<Rightarrow> Some (Some i, touch c i)
      | Inr (foundFree, i) \<Rightarrow>
          if length (cacheEntries c) \<le> i then None
          else if \<not> foundFree \<and> ce_dirty (cacheEntries c ! i) then
            (case write_page ws c i of None \<Rightarrow> None
             | Some (ok, c') \<Rightarrow> if \<not> ok then Some (None, c') else load_page rs (set_clean c' i) i sector)
          else load_page rs c i sector)"

fun find_scan :: "nat \<Rightarrow> centry list \<Rightarrow> nat \<Rightarrow> nat option" where
  "find_scan sector [] i = None"
| "find_scan sector (e # es) i =
     (if ce_sector e \<noteq> CACHE_FREE \<and> page_hit e sector then Some i else find_scan sector es (i + 1))"

definition NTFS_cache_findPage :: "'d ncache \<Rightarrow> nat \<Rightarrow> nat option" where
  "NTFS_cache_findPage c sector = find_scan sector (cacheEntries c) 0"

text \<open>One round of the loop of \<open>_NTFS_cache_readSectors\<close>: \<open>Inl\<close> leaves the function, \<open>Inr\<close> gives the number of
  sectors copied to \<open>buffer\<close> at \<open>dest\<close>. Each round that makes progress copies at least one sector, so
  \<open>numSectors\<close> rounds are enough; \<open>fuel\<close> counts them.\<close>

definition read_step :: "('d \<Rightarrow> nat \<Rightarrow> nat \<Rightarrow> bytes \<Rightarrow> (bool \<times> bytes \<times> 'd) option)
    \<Rightarrow> ('d \<Rightarrow> nat \<Rightarrow> nat \<Rightarrow> bytes \<Rightarrow> (bool \<times> 'd) option) \<Rightarrow> 'd ncache \<Rightarrow> nat \<Rightarrow> nat \<Rightarrow> bytes \<Rightarrow> nat
    \<Rightarrow> ('d ncache + nat \<times> bytes \<times> 'd ncache) option" where
  "read_step rs ws c sector numSectors buffer dest =
     (case NTFS_cache_getPage rs ws c sector of None \<Rightarrow> None
      | Some (None, c') \<Rightarrow> Some (Inl c')
      | Some (Some i, c') \<Rightarrow>
          (let e = cacheEntries c' ! i;
               sec = u32 (sector + 2 ^ 32 - ce_sector e);
               avail = u32 (ce_count e + 2 ^ 32 - sec);
               k = (if avail > numSectors then numSectors else avail)
           in case mem_get (ce_cache e) (sec * sectorSize c) (k * sectorSize c) of None \<Rightarrow> None
            | Some xs \<Rightarrow> (case mem_put buffer dest xs of None \<Rightarrow> None
                | Some buffer' \<Rightarrow> Some (Inr (k, buffer', c')))))"

primrec read_loop :: "nat \<Rightarrow> ('d \<Rightarrow> nat \<Rightarrow> nat \<Rightarrow> bytes \<Rightarrow> (bool \<times> bytes \<times> 'd) option)
    \<Rightarrow> ('d \<Rightarrow> nat \<Rightarrow> nat \<Rightarrow> bytes \<Rightarrow> (bool \<times> 'd) option) \<Rightarrow> 'd ncache \<Rightarrow> nat \<Rightarrow> nat \<Rightarrow> bytes \<Rightarrow> nat
    \<Rightarrow> (bool \<times> bytes \<times> 'd ncache) option" where
  "read_loop 0 rs ws c sector numSectors buffer dest =
     (if numSectors = 0 then Some (True, buffer, c) else None)"
| "read_loop (Suc fuel) rs ws c sector numSectors buffer dest =
     (if numSectors = 0 then Some (True, buffer, c)
      else (case read_step rs ws c sector numSectors buffer dest of None \<Rightarrow> None
         | Some (Inl c') \<Rightarrow> Some (False, buffer, c')
         | Some (Inr (k, buffer', c')) \<Rightarrow>
             read_loop fuel rs ws c' (u32 (sector + k)) (numSectors - k) buffer' (dest + k * sectorSize c)))"

definition NTFS_cache_readSectors :: "('d \<Rightarrow> nat \<Rightarrow> nat \<Rightarrow> bytes \<Rightarrow> (bool \<times> bytes \<times> 'd) option)
    \<Rightarrow> ('d \<Rightarrow> nat \<Rightarrow> nat \<Rightarrow> bytes \<Rightarrow> (bool \<times> 'd) option) \<Rightarrow> 'd ncache \<Rightarrow> nat \<Rightarrow> nat \<Rightarrow> bytes
    \<Rightarrow> (bool \<times> bytes \<times> 'd ncache) option" where
  "NTFS_cache_readSectors rs ws c sector numSectors buffer =
     (if sector < startOfPartition c then Some (False, buffer, c)
      else read_loop numSectors rs ws c sector numSectors buffer 0)"

text \<open>How far a write can go straight to the disc: to the next page that is cached. \<open>step\<close> is \<open>sec\<close>, 0 in
  the first round. A cache is never built with pages of 0 sectors, where the code would loop.\<close>

function gap_loop :: "'d ncache \<Rightarrow> nat \<Rightarrow> nat \<Rightarrow> nat \<Rightarrow> nat \<Rightarrow> nat" where
  "gap_loop c sector numSectors secs step =
     (case NTFS_cache_findPage c (u32 (sector + secs)) of
        Some i \<Rightarrow> secs - step
      | None \<Rightarrow> if secs > numSectors \<or> sectorsPerPage c = 0 then secs
                else gap_loop c sector numSectors (secs + sectorsPerPage c) (sectorsPerPage c))"
  by pat_completeness auto
termination
  by (relation "measure (\<lambda>(c, sector, numSectors, secs, step). numSectors + 1 - secs)") auto

declare gap_loop.simps [simp del]

definition direct_count :: "'d ncache \<Rightarrow> nat \<Rightarrow> nat \<Rightarrow> nat" where
  "direct_count c sector numSectors =
     (let s0 = sectorsPerPage c - (sector - startOfPartition c) mod sectorsPerPage c;
          s1 = (if s0 < numSectors then gap_loop c sector numSectors s0 0 else s0);
          s2 = (if s1 > numSectors then numSectors else s1)
      in if u32 (sector + s2) > endOfPartition c then u32 (s2 + 2 ^ 32 - (u32 (sector + s2) - endOfPartition c)) else s2)"

text \<open>One round of the loop of \<open>_NTFS_cache_writeSectors\<close>: into a cached page, or straight to the disc.\<close>

definition write_cached :: "'d ncache \<Rightarrow> nat \<Rightarrow> nat \<Rightarrow> nat \<Rightarrow> bytes \<Rightarrow> nat \<Rightarrow> (nat \<times> 'd ncache) option" where
  "write_cached c i sector numSectors buffer src =
     (let c1 = touch c i; e = cacheEntries c1 ! i;
          sec = u32 (sector + 2 ^ 32 - ce_sector e);
          avail = u32 (ce_count e + 2 ^ 32 - sec);
          k = (if avail > numSectors then numSectors else avail)
      in case mem_get buffer src (k * sectorSize c) of None \<Rightarrow> None
       | Some xs \<Rightarrow> (case mem_put (ce_cache e) (sec * sectorSize c) xs of None \<Rightarrow> None
           | Some pg \<Rightarrow> Some (k, c1 \<lparr>cacheEntries := (cacheEntries c1) [i := e \<lparr>ce_cache := pg, ce_dirty := True\<rparr>]\<rparr>)))"

definition write_direct :: "('d \<Rightarrow> nat \<Rightarrow> nat \<Rightarrow> bytes \<Rightarrow> (bool \<times> 'd) option) \<Rightarrow> 'd ncache \<Rightarrow> nat \<Rightarrow> nat \<Rightarrow> bytes \<Rightarrow> nat
    \<Rightarrow> ('d ncache + nat \<times> 'd ncache) option" where
  "write_direct ws c sector numSectors buffer src =
     (let k = direct_count c sector numSectors;
          salign = (if sector < startOfPartition c then startOfPartition c - sector else 0);
          n = u32 (k + 2 ^ 32 - salign)
      in case mem_get buffer (src + salign * sectorSize c) (n * sectorSize c) of None \<Rightarrow> None
       | Some b \<Rightarrow> (case ws (disc c) (u32 (sector + salign)) n b of None \<Rightarrow> None
           | Some (ok, d') \<Rightarrow>
               if \<not> ok then Some (Inl (c \<lparr>disc := d'\<rparr>)) else Some (Inr (k, c \<lparr>disc := d'\<rparr>))))"

definition write_step :: "('d \<Rightarrow> nat \<Rightarrow> nat \<Rightarrow> bytes \<Rightarrow> (bool \<times> 'd) option) \<Rightarrow> 'd ncache \<Rightarrow> nat \<Rightarrow> nat \<Rightarrow> bytes \<Rightarrow> nat
    \<Rightarrow> ('d ncache + nat \<times> 'd ncache) option" where
  "write_step ws c sector numSectors buffer src =
     (case NTFS_cache_findPage c sector of
        Some i \<Rightarrow> map_option Inr (write_cached c i sector numSectors buffer src)
      | None \<Rightarrow> write_direct ws c sector numSectors buffer src)"

primrec write_loop :: "nat \<Rightarrow> ('d \<Rightarrow> nat \<Rightarrow> nat \<Rightarrow> bytes \<Rightarrow> (bool \<times> 'd) option) \<Rightarrow> 'd ncache \<Rightarrow> nat \<Rightarrow> nat \<Rightarrow> bytes \<Rightarrow> nat
    \<Rightarrow> (bool \<times> 'd ncache) option" where
  "write_loop 0 ws c sector numSectors buffer src = (if numSectors = 0 then Some (True, c) else None)"
| "write_loop (Suc fuel) ws c sector numSectors buffer src =
     (if numSectors = 0 then Some (True, c)
      else (case write_step ws c sector numSectors buffer src of None \<Rightarrow> None
         | Some (Inl c') \<Rightarrow> Some (False, c')
         | Some (Inr (k, c')) \<Rightarrow>
             write_loop fuel ws c' (u32 (sector + k)) (u32 (numSectors + 2 ^ 32 - k)) buffer (src + k * sectorSize c)))"

definition NTFS_cache_writeSectors :: "('d \<Rightarrow> nat \<Rightarrow> nat \<Rightarrow> bytes \<Rightarrow> (bool \<times> 'd) option) \<Rightarrow> 'd ncache \<Rightarrow> nat \<Rightarrow> nat \<Rightarrow> bytes
    \<Rightarrow> (bool \<times> 'd ncache) option" where
  "NTFS_cache_writeSectors ws c sector numSectors buffer =
     (if sector < startOfPartition c then Some (False, c)
      else write_loop numSectors ws c sector numSectors buffer 0)"

text \<open>\<open>_NTFS_cache_flush\<close>, from entry \<open>i\<close> on, for \<open>n\<close> entries.\<close>

fun flush_loop :: "('d \<Rightarrow> nat \<Rightarrow> nat \<Rightarrow> bytes \<Rightarrow> (bool \<times> 'd) option) \<Rightarrow> nat \<Rightarrow> nat \<Rightarrow> 'd ncache \<Rightarrow> (bool \<times> 'd ncache) option" where
  "flush_loop ws i 0 c = Some (True, c)"
| "flush_loop ws i (Suc n) c =
     (if ce_dirty (cacheEntries c ! i) then
        (case write_page ws c i of None \<Rightarrow> None
         | Some (ok, c') \<Rightarrow> if \<not> ok then Some (False, c') else flush_loop ws (i + 1) n (set_clean c' i))
      else flush_loop ws (i + 1) n (set_clean c i))"

definition NTFS_cache_flush :: "('d \<Rightarrow> nat \<Rightarrow> nat \<Rightarrow> bytes \<Rightarrow> (bool \<times> 'd) option) \<Rightarrow> 'd ncache \<Rightarrow> (bool \<times> 'd ncache) option" where
  "NTFS_cache_flush ws c = flush_loop ws 0 (length (cacheEntries c)) c"

definition NTFS_cache_invalidate :: "('d \<Rightarrow> nat \<Rightarrow> nat \<Rightarrow> bytes \<Rightarrow> (bool \<times> 'd) option) \<Rightarrow> 'd ncache \<Rightarrow> 'd ncache option" where
  "NTFS_cache_invalidate ws c =
     (case NTFS_cache_flush ws c of None \<Rightarrow> None
      | Some (ok, c') \<Rightarrow> Some (c' \<lparr>cacheEntries := map (\<lambda>e. e \<lparr>ce_sector := CACHE_FREE, ce_last_access := 0,
                                   ce_count := 0, ce_dirty := False\<rparr>) (cacheEntries c')\<rparr>))"

text \<open>The destructor flushes; the result of the flush is ignored and what is left is the disc.\<close>

definition NTFS_cache_destructor :: "('d \<Rightarrow> nat \<Rightarrow> nat \<Rightarrow> bytes \<Rightarrow> (bool \<times> 'd) option) \<Rightarrow> 'd ncache \<Rightarrow> 'd option" where
  "NTFS_cache_destructor ws c = map_option (\<lambda>(ok, c'). disc c') (NTFS_cache_flush ws c)"

section \<open>What the cache stands for\<close>

definition slice :: "nat \<Rightarrow> centry \<Rightarrow> nat \<Rightarrow> bytes" where
  "slice z e k = chunk ((k - ce_sector e) * z) z (ce_cache e)"

definition loaded :: "centry \<Rightarrow> bool" where
  "loaded e \<longleftrightarrow> ce_sector e \<noteq> CACHE_FREE"

text \<open>The first sector of the page of a sector.\<close>

definition page_base :: "'d ncache \<Rightarrow> nat \<Rightarrow> nat" where
  "page_base c k = startOfPartition c + (k - startOfPartition c) div sectorsPerPage c * sectorsPerPage c"

text \<open>A page over the disc content \<open>f\<close>: free, or aligned, cut at the end of the partition, and equal to the
  disc unless dirty.\<close>

definition page_ok :: "(nat \<Rightarrow> bytes) \<Rightarrow> 'd ncache \<Rightarrow> centry \<Rightarrow> bool" where
  "page_ok f c e \<longleftrightarrow> length (ce_cache e) = sectorsPerPage c * sectorSize c \<and>
     (if loaded e then startOfPartition c \<le> ce_sector e \<and> page_base c (ce_sector e) = ce_sector e
         \<and> ce_sector e < endOfPartition c
         \<and> ce_count e = min (sectorsPerPage c) (endOfPartition c - ce_sector e)
         \<and> (\<not> ce_dirty e \<longrightarrow> (\<forall>k. ce_sector e \<le> k \<and> k < ce_sector e + ce_count e \<longrightarrow> slice (sectorSize c) e k = f k))
      else ce_count e = 0 \<and> \<not> ce_dirty e)"

definition geometry_ok :: "'d ncache \<Rightarrow> bool" where
  "geometry_ok c \<longleftrightarrow> startOfPartition c \<le> endOfPartition c \<and> endOfPartition c + sectorsPerPage c < 2 ^ 32
     \<and> 0 < sectorsPerPage c \<and> 0 < sectorSize c \<and> cacheEntries c \<noteq> []"

text \<open>The pages over the disc content \<open>f\<close>, and the content \<open>g\<close> a client sees.\<close>

definition pages_ok :: "(nat \<Rightarrow> bytes) \<Rightarrow> 'd ncache \<Rightarrow> bool" where
  "pages_ok f c \<longleftrightarrow> geometry_ok c \<and> (\<forall>i < length (cacheEntries c). page_ok f c (cacheEntries c ! i))
     \<and> (\<forall>i < length (cacheEntries c). \<forall>j < length (cacheEntries c). loaded (cacheEntries c ! i)
          \<and> ce_sector (cacheEntries c ! i) = ce_sector (cacheEntries c ! j) \<longrightarrow> i = j)"

definition cache_abs :: "(nat \<Rightarrow> bytes) \<Rightarrow> 'd ncache \<Rightarrow> (nat \<Rightarrow> bytes) \<Rightarrow> bool" where
  "cache_abs f c g \<longleftrightarrow> (\<forall>k. (\<forall>i < length (cacheEntries c). page_hit (cacheEntries c ! i) k \<longrightarrow>
        g k = slice (sectorSize c) (cacheEntries c ! i) k)
     \<and> ((\<forall>i < length (cacheEntries c). \<not> page_hit (cacheEntries c ! i) k) \<longrightarrow> g k = f k))"

definition cache_sect :: "(nat \<Rightarrow> bytes) \<Rightarrow> 'd ncache \<Rightarrow> nat \<Rightarrow> bytes" where
  "cache_sect f c k = (case find (\<lambda>e. page_hit e k) (cacheEntries c) of
     Some e \<Rightarrow> slice (sectorSize c) e k | None \<Rightarrow> f k)"

definition same_geometry :: "'d ncache \<Rightarrow> 'd ncache \<Rightarrow> bool" where
  "same_geometry c c' \<longleftrightarrow> startOfPartition c' = startOfPartition c \<and> endOfPartition c' = endOfPartition c
     \<and> sectorsPerPage c' = sectorsPerPage c \<and> sectorSize c' = sectorSize c
     \<and> length (cacheEntries c') = length (cacheEntries c)"

lemma page_base_le: "startOfPartition c \<le> k \<Longrightarrow> page_base c k \<le> k \<and> startOfPartition c \<le> page_base c k"
  using div_times_less_eq_dividend [of "k - startOfPartition c" "sectorsPerPage c"]
  unfolding page_base_def by linarith

lemma page_base_gt: "startOfPartition c \<le> k \<Longrightarrow> 0 < sectorsPerPage c \<Longrightarrow> k < page_base c k + sectorsPerPage c"
  using dividend_less_div_times [of "sectorsPerPage c" "k - startOfPartition c"] by (simp add: page_base_def)

lemma page_base_idem: "0 < sectorsPerPage c \<Longrightarrow> page_base c (page_base c k) = page_base c k"
  by (simp add: page_base_def)

lemma page_base_eqI:
  assumes "startOfPartition c \<le> b" "page_base c b = b" "b \<le> k" "k < b + sectorsPerPage c"
  shows "page_base c k = b"
proof -
  define q where "q = (b - startOfPartition c) div sectorsPerPage c"
  have b: "b = startOfPartition c + q * sectorsPerPage c"
    using assms(2) by (simp add: page_base_def q_def)
  have "(k - startOfPartition c) div sectorsPerPage c = q"
    by (rule div_nat_eqI) (use assms(3,4) b in \<open>auto simp: mult.commute\<close>)
  then show ?thesis
    by (simp add: page_base_def b)
qed

lemma page_hit_iff:
  assumes "page_ok f c e" "geometry_ok c"
  shows "page_hit e k \<longleftrightarrow> loaded e \<and> ce_sector e \<le> k \<and> k < ce_sector e + ce_count e"
proof (cases "loaded e")
  case True
  then have "ce_sector e + ce_count e < 2 ^ 32"
    using assms by (auto simp: page_ok_def geometry_ok_def)
  then show ?thesis using True by (simp add: page_hit_def)
next
  case False
  then show ?thesis
    using assms by (auto simp: page_hit_def page_ok_def loaded_def CACHE_FREE_def u32_def)
qed

text \<open>A page holds exactly the sectors of the partition whose page base it has.\<close>

lemma page_hit_base:
  assumes "page_ok f c e" "geometry_ok c"
  shows "page_hit e k \<longleftrightarrow> loaded e \<and> startOfPartition c \<le> k \<and> k < endOfPartition c \<and> page_base c k = ce_sector e"
proof
  assume "page_hit e k"
  then have h: "loaded e" "ce_sector e \<le> k" "k < ce_sector e + ce_count e"
    using page_hit_iff [OF assms] by auto
  then show "loaded e \<and> startOfPartition c \<le> k \<and> k < endOfPartition c \<and> page_base c k = ce_sector e"
    using assms(1) page_base_eqI [of c "ce_sector e" k] by (auto simp: page_ok_def)
next
  assume h: "loaded e \<and> startOfPartition c \<le> k \<and> k < endOfPartition c \<and> page_base c k = ce_sector e"
  then have "ce_sector e \<le> k" "k < ce_sector e + sectorsPerPage c"
    using page_base_le [of c k] page_base_gt [of c k] assms(2) by (auto simp: geometry_ok_def)
  then show "page_hit e k"
    using h assms page_hit_iff [OF assms, of k] by (auto simp: page_ok_def)
qed

lemma pages_unique:
  assumes "pages_ok f c" "i < length (cacheEntries c)" "j < length (cacheEntries c)"
    and "page_hit (cacheEntries c ! i) k" "page_hit (cacheEntries c ! j) k"
  shows "i = j"
proof -
  have ok: "page_ok f c (cacheEntries c ! i)" "page_ok f c (cacheEntries c ! j)" "geometry_ok c"
    using assms(1-3) by (auto simp: pages_ok_def)
  then have "loaded (cacheEntries c ! i)" "ce_sector (cacheEntries c ! i) = ce_sector (cacheEntries c ! j)"
    using page_hit_base [OF ok(1,3)] page_hit_base [OF ok(2,3)] assms(4,5) by auto
  then show ?thesis using assms(1-3) by (auto simp: pages_ok_def)
qed

lemma cache_abs_sect: "pages_ok f c \<Longrightarrow> cache_abs f c (cache_sect f c)"
  unfolding cache_abs_def
proof (intro allI conjI impI)
  fix k i
  assume ok: "pages_ok f c" and i: "i < length (cacheEntries c)" "page_hit (cacheEntries c ! i) k"
  have "\<exists>j < length (cacheEntries c). find (\<lambda>e. page_hit e k) (cacheEntries c) = Some (cacheEntries c ! j)
      \<and> page_hit (cacheEntries c ! j) k"
  proof (cases "find (\<lambda>e. page_hit e k) (cacheEntries c)")
    case None
    then show ?thesis using i by (auto simp: find_None_iff)
  next
    case (Some e)
    then show ?thesis by (auto simp: find_Some_iff)
  qed
  then obtain j where "j < length (cacheEntries c)" "page_hit (cacheEntries c ! j) k"
      "find (\<lambda>e. page_hit e k) (cacheEntries c) = Some (cacheEntries c ! j)"
    by blast
  moreover have "i = j"
    using pages_unique [OF ok i(1) _ i(2)] calculation by blast
  ultimately show "cache_sect f c k = slice (sectorSize c) (cacheEntries c ! i) k"
    by (simp add: cache_sect_def)
next
  fix k
  assume "\<forall>i < length (cacheEntries c). \<not> page_hit (cacheEntries c ! i) k"
  then have "find (\<lambda>e. page_hit e k) (cacheEntries c) = None"
    by (auto simp: find_None_iff in_set_conv_nth)
  then show "cache_sect f c k = f k"
    by (simp add: cache_sect_def)
qed

lemma cache_abs_unique: "cache_abs f c g \<Longrightarrow> cache_abs f c h \<Longrightarrow> g = h"
  unfolding cache_abs_def by (rule ext) metis

lemma cache_sect_eqI: "pages_ok f c \<Longrightarrow> cache_abs f c g \<Longrightarrow> cache_sect f c = g"
  using cache_abs_sect cache_abs_unique by blast

lemma same_geometry_trans: "same_geometry a b \<Longrightarrow> same_geometry b c \<Longrightarrow> same_geometry a c"
  by (simp add: same_geometry_def)

lemma same_geometry_refl [simp]: "same_geometry c c"
  by (simp add: same_geometry_def)

section \<open>Updates of one entry\<close>

text \<open>Changing the last access, or the disc, of a cache.\<close>

lemma touch_simps [simp]:
  "disc (touch c i) = disc c" "startOfPartition (touch c i) = startOfPartition c"
  "endOfPartition (touch c i) = endOfPartition c" "sectorsPerPage (touch c i) = sectorsPerPage c"
  "sectorSize (touch c i) = sectorSize c" "length (cacheEntries (touch c i)) = length (cacheEntries c)"
  by (simp_all add: touch_def Let_def)

lemma touch_entry:
  "j < length (cacheEntries c) \<Longrightarrow> ce_sector (cacheEntries (touch c i) ! j) = ce_sector (cacheEntries c ! j)
     \<and> ce_count (cacheEntries (touch c i) ! j) = ce_count (cacheEntries c ! j)
     \<and> ce_dirty (cacheEntries (touch c i) ! j) = ce_dirty (cacheEntries c ! j)
     \<and> ce_cache (cacheEntries (touch c i) ! j) = ce_cache (cacheEntries c ! j)"
  by (cases "i = j") (simp_all add: touch_def Let_def)

lemma touch_same:
  assumes "j < length (cacheEntries c)"
  shows "page_hit (cacheEntries (touch c i) ! j) k = page_hit (cacheEntries c ! j) k"
    "slice z (cacheEntries (touch c i) ! j) k = slice z (cacheEntries c ! j) k"
    "loaded (cacheEntries (touch c i) ! j) = loaded (cacheEntries c ! j)"
    "page_ok f (touch c i) (cacheEntries (touch c i) ! j) = page_ok f c (cacheEntries c ! j)"
  using touch_entry [OF assms, of i]
  by (simp_all add: page_hit_def slice_def loaded_def page_ok_def page_base_def)

lemma geometry_touch [simp]: "geometry_ok (touch c i) = geometry_ok c"
proof -
  have "cacheEntries (touch c i) \<noteq> [] \<longleftrightarrow> cacheEntries c \<noteq> []"
    by (metis length_0_conv touch_simps(6))
  then show ?thesis by (simp add: geometry_ok_def)
qed

lemma pages_ok_touch: "pages_ok f c \<Longrightarrow> pages_ok f (touch c i)"
  using touch_entry [of _ c i] by (auto simp: pages_ok_def touch_same)

lemma cache_abs_touch: "cache_abs f c g \<Longrightarrow> cache_abs f (touch c i) g"
  by (simp add: cache_abs_def touch_same)


text \<open>The properties of pages depend on the geometry alone.\<close>

lemma page_ok_geometry: "same_geometry c c' \<Longrightarrow> page_ok f c' e = page_ok f c e"
  by (simp add: same_geometry_def page_ok_def page_base_def)

lemma geometry_ok_geometry: "same_geometry c c' \<Longrightarrow> geometry_ok c' = geometry_ok c"
  unfolding same_geometry_def geometry_ok_def by (metis length_0_conv)

lemma pages_ok_update:
  assumes ok: "pages_ok f c" and g: "same_geometry c c'" and i: "i < length (cacheEntries c)"
    and upd: "cacheEntries c' = (cacheEntries c) [i := e]" and e: "page_ok f' c e"
    and others: "\<And>j. j < length (cacheEntries c) \<Longrightarrow> j \<noteq> i \<Longrightarrow> page_ok f' c (cacheEntries c ! j)"
    and new: "\<And>j. j < length (cacheEntries c) \<Longrightarrow> j \<noteq> i \<Longrightarrow> loaded e \<Longrightarrow> ce_sector (cacheEntries c ! j) \<noteq> ce_sector e"
  shows "pages_ok f' c'"
  unfolding pages_ok_def
proof (intro conjI allI impI)
  show "geometry_ok c'" using ok geometry_ok_geometry [OF g] by (simp add: pages_ok_def)
next
  fix j assume "j < length (cacheEntries c')"
  then show "page_ok f' c' (cacheEntries c' ! j)"
    using e others [of j] page_ok_geometry [OF g] by (cases "j = i") (simp_all add: upd)
next
  fix j k
  assume *: "j < length (cacheEntries c')" "k < length (cacheEntries c')"
    "loaded (cacheEntries c' ! j) \<and> ce_sector (cacheEntries c' ! j) = ce_sector (cacheEntries c' ! k)"
  then have "loaded (cacheEntries c' ! k)" by (simp add: loaded_def)
  with * show "j = k"
    using new [of j] new [of k] ok
    by (cases "j = i"; cases "k = i") (auto simp: upd pages_ok_def loaded_def)
qed

lemma page_okD:
  assumes "pages_ok f c" "i < length (cacheEntries c)"
  shows "page_ok f c (cacheEntries c ! i)" "geometry_ok c"
  using assms by (auto simp: pages_ok_def)

lemma slice_chunk:
  assumes "page_ok f c e" "geometry_ok c" "page_hit e k"
  shows "slice (sectorSize c) e k
       = chunk ((k - ce_sector e) * sectorSize c) (sectorSize c) (chunk 0 (ce_count e * sectorSize c) (ce_cache e))"
    and "length (slice (sectorSize c) e k) = sectorSize c"
proof -
  have k: "ce_sector e \<le> k" "k < ce_sector e + ce_count e" "loaded e"
    using page_hit_iff [OF assms(1,2)] assms(3) by auto
  then have "k - ce_sector e + 1 \<le> ce_count e" by simp
  then have 1: "(k - ce_sector e) * sectorSize c + sectorSize c \<le> ce_count e * sectorSize c"
    by (metis add.commute mult_Suc mult_le_mono1 Suc_eq_plus1)
  then show "slice (sectorSize c) e k
       = chunk ((k - ce_sector e) * sectorSize c) (sectorSize c) (chunk 0 (ce_count e * sectorSize c) (ce_cache e))"
    using chunk_chunk [of "(k - ce_sector e) * sectorSize c" "sectorSize c" "ce_count e * sectorSize c" 0 "ce_cache e"]
    by (simp add: slice_def)
  have "ce_count e * sectorSize c \<le> sectorsPerPage c * sectorSize c"
    using assms(1) k(3) by (intro mult_le_mono1) (auto simp: page_ok_def)
  with 1 have "(k - ce_sector e) * sectorSize c + sectorSize c \<le> length (ce_cache e)"
    using assms(1) by (simp only: page_ok_def)
  then show "length (slice (sectorSize c) e k) = sectorSize c"
    unfolding slice_def length_chunk by linarith
qed

text \<open>Writing a page to the disc.\<close>

lemma put_page:
  assumes "page_ok f c e" "geometry_ok c" "loaded e"
  shows "put_sectors (sectorSize c) f (ce_sector e) (ce_count e) (chunk 0 (ce_count e * sectorSize c) (ce_cache e))
       = (\<lambda>k. if page_hit e k then slice (sectorSize c) e k else f k)"
  using slice_chunk [OF assms(1,2)] page_hit_iff [OF assms(1,2)] assms(3) by (auto simp: put_sectors_def fun_eq_iff)

lemma page_ok_cleared:
  assumes "page_ok f c e" "geometry_ok c" "\<And>k. page_hit e k \<Longrightarrow> \<not> ce_dirty e \<Longrightarrow> f' k = f k"
  shows "page_ok f' c e"
proof (cases "loaded e")
  case True
  then have "ce_sector e \<le> k \<Longrightarrow> k < ce_sector e + ce_count e \<Longrightarrow> page_hit e k" for k
    using page_hit_iff [OF assms(1,2)] by simp
  then show ?thesis using assms(1,3) True by (simp add: page_ok_def)
qed (use assms(1) in \<open>simp add: page_ok_def\<close>)

lemma set_clean_simps [simp]:
  "disc (set_clean c i) = disc c" "same_geometry c (set_clean c i)"
  "startOfPartition (set_clean c i) = startOfPartition c"
  "endOfPartition (set_clean c i) = endOfPartition c" "sectorsPerPage (set_clean c i) = sectorsPerPage c"
  "sectorSize (set_clean c i) = sectorSize c" "length (cacheEntries (set_clean c i)) = length (cacheEntries c)"
  by (simp_all add: set_clean_def same_geometry_def)

lemma clean_entry_simps [simp]:
  "page_hit (e\<lparr>ce_dirty := b\<rparr>) k = page_hit e k" "slice z (e\<lparr>ce_dirty := b\<rparr>) k = slice z e k"
  "loaded (e\<lparr>ce_dirty := b\<rparr>) = loaded e"
  by (simp_all add: page_hit_def slice_def loaded_def)

lemma cache_abs_set_clean: "cache_abs f c g \<Longrightarrow> cache_abs f (set_clean c i) g"
proof -
  have "page_hit (cacheEntries (set_clean c i) ! j) k = page_hit (cacheEntries c ! j) k
      \<and> slice z (cacheEntries (set_clean c i) ! j) k = slice z (cacheEntries c ! j) k"
    if "j < length (cacheEntries c)" for j k z
    using that by (cases "j = i") (simp_all add: set_clean_def)
  then show "cache_abs f c g \<Longrightarrow> cache_abs f (set_clean c i) g"
    by (simp add: cache_abs_def)
qed

lemma flush_page:
  assumes ok: "pages_ok f c" and i: "i < length (cacheEntries c)" and ld: "loaded (cacheEntries c ! i)"
    and abs: "cache_abs f c g" and sg: "same_geometry c c'" "cacheEntries c' = cacheEntries c"
    and f': "f' = put_sectors (sectorSize c) f (ce_sector (cacheEntries c ! i)) (ce_count (cacheEntries c ! i))
          (chunk 0 (ce_count (cacheEntries c ! i) * sectorSize c) (ce_cache (cacheEntries c ! i)))"
  shows "pages_ok f' (set_clean c' i)" "cache_abs f' (set_clean c' i) g"
proof -
  let ?e = "cacheEntries c ! i"
  note e = page_okD [OF ok i]
  have f'_eq: "f' = (\<lambda>k. if page_hit ?e k then slice (sectorSize c) ?e k else f k)"
    unfolding f' by (rule put_page [OF e ld])
  show "pages_ok f' (set_clean c' i)"
  proof (rule pages_ok_update [OF ok _ i])
    show "same_geometry c (set_clean c' i)"
      using sg by (auto intro: same_geometry_trans)
    show "cacheEntries (set_clean c' i) = (cacheEntries c)[i := ?e\<lparr>ce_dirty := False\<rparr>]"
      by (simp add: set_clean_def sg)
    show "page_ok f' c (?e\<lparr>ce_dirty := False\<rparr>)"
    proof -
      have "f' k = slice (sectorSize c) ?e k" if "ce_sector ?e \<le> k" "k < ce_sector ?e + ce_count ?e" for k
        using that ld page_hit_iff [OF e] by (simp add: f'_eq)
      then show ?thesis using e(1) ld by (simp add: page_ok_def)
    qed
    show "page_ok f' c (cacheEntries c ! j)" if "j < length (cacheEntries c)" "j \<noteq> i" for j
    proof (rule page_ok_cleared)
      show "f' k = f k" if "page_hit (cacheEntries c ! j) k" for k
        using pages_unique [OF ok i \<open>j < _\<close>] that \<open>j \<noteq> i\<close> by (auto simp: f'_eq)
    qed (use page_okD [OF ok that(1)] in auto)
    show "ce_sector (cacheEntries c ! j) \<noteq> ce_sector (?e\<lparr>ce_dirty := False\<rparr>)"
      if "j < length (cacheEntries c)" "j \<noteq> i" for j
      using ok that i ld unfolding pages_ok_def by simp metis
  qed
  have "cache_abs f' c g"
    using abs i unfolding cache_abs_def f'_eq by (smt (verit))
  then have "cache_abs f' c' g"
    using sg by (simp add: cache_abs_def same_geometry_def)
  then show "cache_abs f' (set_clean c' i) g"
    by (rule cache_abs_set_clean)
qed


text \<open>Reading a page from the disc into an entry that is not dirty.\<close>

lemma slice_blit:
  assumes "length (ce_cache e) = m * z" "n \<le> m" "length b = n * z" "s \<le> k" "k < s + n" "b = sectors_of f s n"
    and "\<And>j. s \<le> j \<Longrightarrow> j < s + n \<Longrightarrow> length (f j) = z"
  shows "slice z (e\<lparr>ce_sector := s, ce_count := p, ce_dirty := q, ce_cache := blit (ce_cache e) 0 b\<rparr>) k = f k"
proof -
  have le: "n * z \<le> m * z" by (rule mult_le_mono1) (rule assms)
  have "k - s + 1 \<le> n" using assms(4,5) by simp
  then have "(k - s) * z + z \<le> n * z"
    by (metis add.commute mult_Suc mult_le_mono1 Suc_eq_plus1)
  then have "chunk ((k - s) * z) z (blit (ce_cache e) 0 b) = chunk ((k - s) * z) z (chunk 0 (n * z) (blit (ce_cache e) 0 b))"
    using chunk_chunk [of "(k - s) * z" z "n * z" 0 "blit (ce_cache e) 0 b"] by simp
  also have "chunk 0 (n * z) (blit (ce_cache e) 0 b) = b"
    using chunk_blit_same [of 0 b "ce_cache e"] assms(1,3) le by simp
  also have "chunk ((k - s) * z) z b = f (s + (k - s))"
    unfolding assms(6) by (rule chunk_sector [where z = z]) (use assms(4,5,7) in auto)
  finally show ?thesis
    using assms(4) by (simp add: slice_def)
qed

lemma fill_page:
  assumes ok: "pages_ok f c" and i: "i < length (cacheEntries c)" and clean: "\<not> ce_dirty (cacheEntries c ! i)"
    and abs: "cache_abs f c g" and sec: "startOfPartition c \<le> sector" "sector < endOfPartition c"
    and miss: "\<And>j. j < length (cacheEntries c) \<Longrightarrow> \<not> page_hit (cacheEntries c ! j) sector"
    and base: "base = page_base c sector" "n = min (sectorsPerPage c) (endOfPartition c - base)"
    and b: "b = sectors_of f base n" "length b = n * sectorSize c"
      "\<And>j. base \<le> j \<Longrightarrow> j < base + n \<Longrightarrow> length (f j) = sectorSize c"
    and e': "e' = (cacheEntries c ! i) \<lparr>ce_sector := base, ce_count := n, ce_dirty := False, ce_cache := blit (ce_cache (cacheEntries c ! i)) 0 b\<rparr>"
    and c': "same_geometry c c'" "cacheEntries c' = (cacheEntries c) [i := e']"
  shows "pages_ok f c'" "cache_abs f c' g" "page_hit e' sector"
proof -
  let ?e = "cacheEntries c ! i"
  note e = page_okD [OF ok i]
  have geo: "0 < sectorsPerPage c" "endOfPartition c + sectorsPerPage c < 2 ^ 32"
    using e(2) by (simp_all add: geometry_ok_def)
  have bb: "startOfPartition c \<le> base" "base \<le> sector" "page_base c base = base" "base < endOfPartition c"
    using page_base_le [OF sec(1)] page_base_idem [OF geo(1)] sec base(1) by auto
  have len: "length (ce_cache ?e) = sectorsPerPage c * sectorSize c"
    using e(1) by (simp add: page_ok_def)
  have lz: "n * sectorSize c \<le> sectorsPerPage c * sectorSize c"
    by (rule mult_le_mono1) (simp add: base(2))
  have sl: "slice (sectorSize c) e' k = f k" if "base \<le> k" "k < base + n" for k
    unfolding e' by (rule slice_blit [OF len _ b(2) that b(1) b(3)]) (simp_all add: base(2))
  have ok': "page_ok f c e'"
  proof -
    have "length (ce_cache e') = sectorsPerPage c * sectorSize c"
      using lz b(2) len by (simp add: e')
    moreover have "ce_sector e' = base" "ce_count e' = n" "loaded e'"
      using bb(4) geo by (auto simp: e' loaded_def CACHE_FREE_def)
    ultimately show ?thesis using bb sl base(2) by (simp add: page_ok_def)
  qed
  have hit': "page_hit e' k \<longleftrightarrow> startOfPartition c \<le> k \<and> k < endOfPartition c \<and> page_base c k = base" for k
    using page_hit_base [OF ok' e(2)] bb(4) geo by (auto simp: e' loaded_def CACHE_FREE_def)
  have hit: "page_hit e' k \<longleftrightarrow> base \<le> k \<and> k < base + n" for k
    using page_hit_iff [OF ok' e(2)] bb(4) geo by (auto simp: e' loaded_def CACHE_FREE_def)
  show "page_hit e' sector"
    using hit' sec base by simp
  have nohit: "\<not> page_hit (cacheEntries c ! j) k" if "page_hit e' k" "j < length (cacheEntries c)" for j k
    using miss [OF that(2)] page_hit_base [OF page_okD [OF ok that(2)]] that(1) hit' base(1) sec by auto
  have free: "ce_sector (cacheEntries c ! j) \<noteq> base" if "j < length (cacheEntries c)" for j
  proof
    assume eq: "ce_sector (cacheEntries c ! j) = base"
    then have "loaded (cacheEntries c ! j)"
      using bb(4) geo by (auto simp: loaded_def CACHE_FREE_def)
    then have "page_hit (cacheEntries c ! j) sector"
      using page_hit_base [OF page_okD [OF ok that]] eq base(1) sec by auto
    then show False using miss [OF that] by simp
  qed
  show "pages_ok f c'"
    by (rule pages_ok_update [OF ok c'(1) i c'(2) ok']) (use ok free in \<open>auto simp: pages_ok_def e'\<close>)
  have "g k = f k" if "page_hit e' k \<or> page_hit ?e k" for k
  proof (cases "page_hit e' k")
    case True
    then show ?thesis using abs nohit unfolding cache_abs_def by metis
  next
    case False
    then have h: "page_hit ?e k" using that by simp
    then have "g k = slice (sectorSize c) ?e k"
      using abs i by (simp add: cache_abs_def)
    also have "\<dots> = f k"
      using e(1) page_hit_iff [OF e] h clean by (simp add: page_ok_def)
    finally show ?thesis .
  qed
  note gf = this
  show "cache_abs f c' g"
    unfolding cache_abs_def
  proof (intro allI conjI impI)
    fix k j assume j: "j < length (cacheEntries c')" "page_hit (cacheEntries c' ! j) k"
    show "g k = slice (sectorSize c') (cacheEntries c' ! j) k"
    proof (cases "j = i")
      case True
      then show ?thesis using j gf sl hit c' i by (auto simp: same_geometry_def)
    next
      case False
      then show ?thesis using j abs c' by (auto simp: same_geometry_def cache_abs_def)
    qed
  next
    fix k assume "\<forall>j < length (cacheEntries c'). \<not> page_hit (cacheEntries c' ! j) k"
    then have "\<forall>j < length (cacheEntries c). j \<noteq> i \<longrightarrow> \<not> page_hit (cacheEntries c ! j) k"
      using c' by (metis length_list_update nth_list_update_neq)
    then show "g k = f k"
      using gf [of k] abs unfolding cache_abs_def by metis
  qed
qed

text \<open>Writing sectors into a page that is cached.\<close>

lemma store_page:
  assumes ok: "pages_ok f c" and i: "i < length (cacheEntries c)" and abs: "cache_abs f c g"
    and s: "page_hit (cacheEntries c ! i) s" "s + n \<le> ce_sector (cacheEntries c ! i) + ce_count (cacheEntries c ! i)"
    and b: "length b = n * sectorSize c"
    and e': "ce_sector e' = ce_sector (cacheEntries c ! i)" "ce_count e' = ce_count (cacheEntries c ! i)" "ce_dirty e'"
      "ce_cache e' = blit (ce_cache (cacheEntries c ! i)) ((s - ce_sector (cacheEntries c ! i)) * sectorSize c) b"
    and c': "same_geometry c c'" "cacheEntries c' = (cacheEntries c) [i := e']"
  shows "pages_ok f c'" "cache_abs f c' (put_sectors (sectorSize c) g s n b)"
proof -
  let ?e = "cacheEntries c ! i" and ?z = "sectorSize c"
  note e = page_okD [OF ok i]
  have ld: "loaded ?e" "ce_sector ?e \<le> s" "ce_count ?e \<le> sectorsPerPage c" "length (ce_cache ?e) = sectorsPerPage c * ?z"
    using page_hit_iff [OF e] s e(1) by (auto simp: page_ok_def)
  have len: "length b = n * ?z" using b .
  have mono: "a + m \<le> d \<Longrightarrow> a * ?z + m * ?z \<le> d * ?z" for a m d
    unfolding add_mult_distrib [symmetric] by (rule mult_le_mono1)
  have mono1: "a < d \<Longrightarrow> a * ?z + ?z \<le> d * ?z" for a d
    using mono [of a 1 d] by simp
  have "s - ce_sector ?e + n \<le> sectorsPerPage c" using s(2) ld by linarith
  then have fits: "(s - ce_sector ?e) * ?z + length b \<le> length (ce_cache ?e)"
    using mono ld(4) len by simp
  have ok': "page_ok f c e'"
    using e(1) ld(1) fits by (simp add: page_ok_def e' loaded_def)
  have hit: "page_hit e' k = page_hit ?e k" for k
    by (simp add: page_hit_def e')
  show "pages_ok f c'"
    by (rule pages_ok_update [OF ok c'(1) i c'(2) ok'])
      (use ok ld(1) i in \<open>simp_all add: pages_ok_def e' loaded_def\<close>, metis)
  have sl: "slice ?z e' k = put_sectors ?z g s n b k" if "page_hit e' k" for k
  proof -
    have k: "ce_sector ?e \<le> k" "k < ce_sector ?e + ce_count ?e"
      using that page_hit_iff [OF e] by (auto simp: hit)
    have old: "slice ?z ?e k = g k"
      using abs i that by (simp add: cache_abs_def hit)
    have kz: "(k - ce_sector ?e) * ?z + ?z \<le> length (ce_cache ?e)"
      unfolding ld(4) by (rule mono1) (use k ld in linarith)
    show ?thesis
    proof (cases "s \<le> k \<and> k < s + n")
      case True
      then have "(k - ce_sector ?e) * ?z = (s - ce_sector ?e) * ?z + (k - s) * ?z"
        using ld(2) by (simp add: add_mult_distrib [symmetric])
      moreover have "(k - s) * ?z + ?z \<le> length b"
        unfolding len by (intro mono1) (use True in linarith)
      ultimately have "chunk ((k - ce_sector ?e) * ?z) ?z (ce_cache e') = chunk ((k - s) * ?z) ?z b"
        using fits by (intro chunk_eqI) (auto simp: e' nth_blit)
      then show ?thesis using True by (simp add: slice_def put_sectors_def e')
    next
      case False
      then have "\<not> s \<le> k \<or> \<not> k < s + n" by blast
      then have "(k - ce_sector ?e) * ?z + ?z \<le> (s - ce_sector ?e) * ?z
          \<or> (s - ce_sector ?e) * ?z + length b \<le> (k - ce_sector ?e) * ?z"
      proof
        assume "\<not> s \<le> k"
        then have "k - ce_sector ?e < s - ce_sector ?e" using k by linarith
        then show ?thesis using mono1 by blast
      next
        assume "\<not> k < s + n"
        then have "s - ce_sector ?e + n \<le> k - ce_sector ?e" using ld(2) by linarith
        then show ?thesis using mono unfolding len by blast
      qed
      then have "chunk ((k - ce_sector ?e) * ?z) ?z (ce_cache e') = chunk ((k - ce_sector ?e) * ?z) ?z (ce_cache ?e)"
        unfolding e' using chunk_blit_other [OF fits kz] by blast
      then show ?thesis using False old by (auto simp: slice_def put_sectors_def e')
    qed
  qed
  have inside: "page_hit ?e k" if "s \<le> k" "k < s + n" for k
  proof -
    have "ce_sector ?e \<le> k" "k < ce_sector ?e + ce_count ?e" using that ld(2) s(2) by linarith+
    then show ?thesis using page_hit_iff [OF e] ld(1) by simp
  qed
  show "cache_abs f c' (put_sectors ?z g s n b)"
    unfolding cache_abs_def
  proof (intro allI conjI impI)
    fix k j assume j: "j < length (cacheEntries c')" "page_hit (cacheEntries c' ! j) k"
    show "put_sectors ?z g s n b k = slice (sectorSize c') (cacheEntries c' ! j) k"
    proof (cases "j = i")
      case True
      then show ?thesis using j sl c' i by (simp add: same_geometry_def)
    next
      case False
      then have h: "page_hit (cacheEntries c ! j) k" "j < length (cacheEntries c)"
        using j c' by (simp_all add: same_geometry_def)
      then have "\<not> page_hit ?e k" using pages_unique [OF ok h(2) i h(1)] False by blast
      then have "\<not> (s \<le> k \<and> k < s + n)" using inside by blast
      then have "put_sectors ?z g s n b k = g k" by (auto simp: put_sectors_def)
      also have "g k = slice ?z (cacheEntries c ! j) k"
        using abs h by (simp add: cache_abs_def)
      finally show ?thesis using False c' by (simp add: same_geometry_def)
    qed
  next
    fix k assume none: "\<forall>j < length (cacheEntries c'). \<not> page_hit (cacheEntries c' ! j) k"
    then have "\<not> page_hit ?e k" using c' i hit by (auto simp: same_geometry_def)
    then have "\<not> (s \<le> k \<and> k < s + n)" using inside by blast
    then have "put_sectors ?z g s n b k = g k" by (auto simp: put_sectors_def)
    moreover have "\<not> page_hit (cacheEntries c ! j) k" if "j < length (cacheEntries c)" for j
      using none c' hit i that by (cases "j = i") auto
    ultimately show "put_sectors ?z g s n b k = f k"
      using abs by (simp add: cache_abs_def)
  qed
qed

text \<open>Writing sectors that no page holds to the disc.\<close>

lemma bypass_pages:
  assumes ok: "pages_ok f c" and abs: "cache_abs f c g" and sg: "same_geometry c c'" "cacheEntries c' = cacheEntries c"
    and miss: "\<And>j k. j < length (cacheEntries c) \<Longrightarrow> s \<le> k \<Longrightarrow> k < s + n \<Longrightarrow> \<not> page_hit (cacheEntries c ! j) k"
  shows "pages_ok (put_sectors z f s n b) c'" "cache_abs (put_sectors z f s n b) c' (put_sectors z g s n b)"
proof -
  have "page_ok (put_sectors z f s n b) c (cacheEntries c ! j)" if "j < length (cacheEntries c)" for j
  proof (rule page_ok_cleared)
    show "page_ok f c (cacheEntries c ! j)" "geometry_ok c" using page_okD [OF ok that] by auto
  qed (use miss [OF that] in \<open>auto simp: put_sectors_def\<close>)
  then show "pages_ok (put_sectors z f s n b) c'"
    using ok sg page_ok_geometry [OF sg(1)] geometry_ok_geometry [OF sg(1)]
    unfolding pages_ok_def by simp
  show "cache_abs (put_sectors z f s n b) c' (put_sectors z g s n b)"
    unfolding cache_abs_def
  proof (intro allI conjI impI)
    fix k j assume "j < length (cacheEntries c')" "page_hit (cacheEntries c' ! j) k"
    then have "j < length (cacheEntries c)" "page_hit (cacheEntries c ! j) k" using sg by simp_all
    moreover then have "\<not> (s \<le> k \<and> k < s + n)" using miss by blast
    ultimately show "put_sectors z g s n b k = slice (sectorSize c') (cacheEntries c' ! j) k"
      using abs sg by (auto simp: put_sectors_def cache_abs_def same_geometry_def)
  next
    fix k assume "\<forall>j < length (cacheEntries c'). \<not> page_hit (cacheEntries c' ! j) k"
    then show "put_sectors z g s n b k = put_sectors z f s n b k"
      using abs sg by (auto simp: put_sectors_def cache_abs_def)
  qed
qed


section \<open>Scans\<close>

lemma page_scan_spec:
  "page_scan sector es i foundFree oldUsed oldAccess = Inl j \<Longrightarrow> i \<le> j \<and> j < i + length es \<and> page_hit (es ! (j - i)) sector"
  "page_scan sector es i foundFree oldUsed oldAccess = Inr (b, u) \<Longrightarrow>
     (\<forall>j < length es. \<not> page_hit (es ! j) sector)
     \<and> (u = oldUsed \<and> b = foundFree \<or> i \<le> u \<and> u < i + length es \<and> (b \<longrightarrow> \<not> loaded (es ! (u - i))))"
proof (induction es arbitrary: i foundFree oldUsed oldAccess)
  case (Cons e es)
  { case 1
    then show ?case
      using Cons.IH(1) [of "i + 1"] by (fastforce split: if_splits simp: nth_Cons' Suc_le_eq)
  next
    case 2
    have shift: "(\<forall>j < length (e # es). \<not> page_hit ((e # es) ! j) sector) \<longleftrightarrow>
        \<not> page_hit e sector \<and> (\<forall>j < length es. \<not> page_hit (es ! j) sector)"
      by (auto simp: less_Suc_eq_0_disj)
    have u1: "i + 1 \<le> u \<Longrightarrow> (e # es) ! (u - i) = es ! (u - (i + 1))" by (simp add: nth_Cons')
    have ne: "\<not> page_hit e sector" using 2 by (auto split: if_splits)
    show ?case
    proof (cases "\<not> foundFree \<and> (ce_sector e = CACHE_FREE \<or> ce_last_access e < oldAccess)")
      case True
      then have "page_scan sector es (i + 1) (ce_sector e = CACHE_FREE) i (u32 (ce_last_access e)) = Inr (b, u)"
        using 2 ne by simp
      from Cons.IH(2) [OF this] show ?thesis
        unfolding shift using ne u1 by (auto simp: loaded_def)
    next
      case False
      then have "page_scan sector es (i + 1) foundFree oldUsed oldAccess = Inr (b, u)"
        using 2 ne by auto
      from Cons.IH(2) [OF this] show ?thesis
        unfolding shift using ne u1 by auto
    qed }
qed auto

lemma page_scan_start:
  assumes "page_scan sector es 0 False 0 oldAccess = Inr (b, u)" "es \<noteq> []"
  shows "u < length es" "b \<Longrightarrow> \<not> loaded (es ! u)" "j < length es \<Longrightarrow> \<not> page_hit (es ! j) sector"
  using page_scan_spec(2) [OF assms(1)] assms(2) by auto

lemma find_scan_spec:
  "find_scan sector es i = Some j \<Longrightarrow> i \<le> j \<and> j < i + length es \<and> page_hit (es ! (j - i)) sector"
  "find_scan sector es i = None \<Longrightarrow> \<forall>j < length es. loaded (es ! j) \<longrightarrow> \<not> page_hit (es ! j) sector"
proof (induction es arbitrary: i)
  case (Cons e es)
  { case 1
    then show ?case
      using Cons.IH(1) [of "i + 1"] by (fastforce split: if_splits simp: nth_Cons' Suc_le_eq)
  next
    case 2
    then show ?case
      using Cons.IH(2) [of "i + 1"] by (auto split: if_splits simp: nth_Cons' loaded_def) }
qed auto

lemma findPage_Some:
  "NTFS_cache_findPage c s = Some i \<Longrightarrow> i < length (cacheEntries c) \<and> page_hit (cacheEntries c ! i) s"
  using find_scan_spec(1) [of s "cacheEntries c" 0 i] by (simp add: NTFS_cache_findPage_def)

lemma findPage_None:
  assumes "pages_ok f c" "NTFS_cache_findPage c s = None" "j < length (cacheEntries c)"
  shows "\<not> page_hit (cacheEntries c ! j) s"
  using find_scan_spec(2) [of s "cacheEntries c" 0] page_hit_iff [OF page_okD [OF assms(1,3)], of s] assms(2,3)
  by (auto simp: NTFS_cache_findPage_def)

section \<open>The cache over a disc that keeps its contract\<close>

definition cache_valid :: "('d \<Rightarrow> nat) \<Rightarrow> ('d \<Rightarrow> nat) \<Rightarrow> ('d \<Rightarrow> nat) \<Rightarrow> ('d \<Rightarrow> nat \<Rightarrow> bytes) \<Rightarrow> ('d \<Rightarrow> bool) \<Rightarrow> 'd ncache \<Rightarrow> bool" where
  "cache_valid ssize lo hi sect valid c \<longleftrightarrow> valid (disc c) \<and> pages_ok (sect (disc c)) c
     \<and> sectorSize c = ssize (disc c) \<and> lo (disc c) \<le> startOfPartition c \<and> endOfPartition c \<le> hi (disc c)"

definition cache_view :: "('d \<Rightarrow> nat \<Rightarrow> bytes) \<Rightarrow> 'd ncache \<Rightarrow> nat \<Rightarrow> bytes" where
  "cache_view sect c = cache_sect (sect (disc c)) c"

lemma cache_viewI: "pages_ok (sect (disc c)) c \<Longrightarrow> cache_abs (sect (disc c)) c g \<Longrightarrow> cache_view sect c = g"
  unfolding cache_view_def by (rule cache_sect_eqI)

text \<open>Arithmetic on sector numbers that stay inside the partition.\<close>

lemma u32_sub: "b \<le> a \<Longrightarrow> a < 2 ^ 32 \<Longrightarrow> u32 (a + 2 ^ 32 - b) = a - b"
proof -
  assume "b \<le> a" "a < 2 ^ 32"
  then have "u32 (a + 2 ^ 32 - b) = ((a - b) + 2 ^ 32) mod 2 ^ 32" by (simp add: u32_def)
  also have "\<dots> = (a - b) mod 2 ^ 32" by (rule mod_add_self2)
  also have "\<dots> = a - b" using \<open>a < 2 ^ 32\<close> by (intro mod_less) linarith
  finally show ?thesis .
qed

context disc_interface
begin

abbreviation cvalid :: "'d ncache \<Rightarrow> bool" where
  "cvalid \<equiv> cache_valid ssize lo hi sect valid"

abbreviation cview :: "'d ncache \<Rightarrow> nat \<Rightarrow> bytes" where
  "cview \<equiv> cache_view sect"

lemma cvalidD:
  assumes "cvalid c"
  shows "valid (disc c)" "pages_ok (sect (disc c)) c" "sectorSize c = ssize (disc c)" "lo (disc c) \<le> startOfPartition c"
    "endOfPartition c \<le> hi (disc c)" "cache_abs (sect (disc c)) c (cview c)"
  using assms cache_abs_sect by (auto simp: cache_valid_def cache_view_def)

text \<open>What an operation on a valid cache keeps, whatever its result.\<close>

definition keeps :: "'d ncache \<Rightarrow> 'd ncache \<Rightarrow> bool" where
  "keeps c c' \<longleftrightarrow> same_geometry c c' \<and> cvalid c' \<and> cview c' = cview c"

lemma keepsD: "keeps c c' \<Longrightarrow> cvalid c'" "keeps c c' \<Longrightarrow> cview c' = cview c" "keeps c c' \<Longrightarrow> same_geometry c c'"
  by (simp_all add: keeps_def)

lemma keeps_trans: "keeps a b \<Longrightarrow> keeps b c \<Longrightarrow> keeps a c"
  by (auto simp: keeps_def intro: same_geometry_trans)

lemma keepsI:
  assumes "cvalid c" "same_geometry c c'" "valid (disc c')" "ssize (disc c') = ssize (disc c)"
    "lo (disc c') = lo (disc c)" "hi (disc c') = hi (disc c)"
    "pages_ok (sect (disc c')) c'" "cache_abs (sect (disc c')) c' (cview c)"
  shows "keeps c c'"
  using assms cache_viewI [of sect c', OF assms(7,8)] by (auto simp: keeps_def cache_valid_def same_geometry_def)

lemma keeps_touch:
  assumes "cvalid c" shows "keeps c (touch c i)"
  using cvalidD [OF assms] pages_ok_touch cache_abs_touch
  by (intro keepsI) (auto simp: assms same_geometry_def)

lemma write_page_ok:
  assumes v: "cvalid c" and i: "i < length (cacheEntries c)" and d: "ce_dirty (cacheEntries c ! i)"
  shows "write_page ws c i \<noteq> None"
    and "write_page ws c i = Some (ok, c') \<Longrightarrow> (ok \<longrightarrow> keeps c (set_clean c' i)) \<and> cacheEntries c' = cacheEntries c
        \<and> same_geometry c c' \<and> (live (disc c) \<longrightarrow> ok \<and> live (disc c'))"
proof -
  note cv = cvalidD [OF v]
  let ?e = "cacheEntries c ! i" and ?z = "sectorSize c"
  note e = page_okD [OF cv(2) i]
  have ld: "loaded ?e" using e(1) d by (auto simp: page_ok_def split: if_splits)
  then have r: "startOfPartition c \<le> ce_sector ?e" "ce_sector ?e + ce_count ?e \<le> endOfPartition c"
      "ce_count ?e \<le> sectorsPerPage c" "length (ce_cache ?e) = sectorsPerPage c * ?z" "endOfPartition c < 2 ^ 32"
    using e by (auto simp: page_ok_def geometry_ok_def)
  let ?b = "chunk 0 (ce_count ?e * ?z) (ce_cache ?e)"
  have fits: "ce_count ?e * ?z \<le> length (ce_cache ?e)"
    unfolding r(4) by (rule mult_le_mono1 [OF r(3)])
  then have len: "length ?b = ce_count ?e * ssize (disc c)"
    using cv(3) by simp
  have cnt: "u32 (ce_count ?e + 2 ^ 32) = ce_count ?e" "u32 (ce_sector ?e) = ce_sector ?e"
    using u32_sub [of 0 "ce_count ?e"] r by auto
  have eq: "write_page ws c i = (case ws (disc c) (ce_sector ?e) (ce_count ?e) ?b of None \<Rightarrow> None
         | Some (ok, d') \<Rightarrow> Some (ok, c \<lparr>disc := d'\<rparr>))"
    using fits r(1) cnt by (simp add: write_page_def Let_def mem_get_def)
  have dom: "lo (disc c) \<le> ce_sector ?e" "ce_sector ?e + ce_count ?e \<le> hi (disc c)"
    using cv(4,5) r by linarith+
  obtain ok1 d1 where w: "ws (disc c) (ce_sector ?e) (ce_count ?e) ?b = Some (ok1, d1)"
    using ws_returns [OF cv(1) dom len] by auto
  have eq2: "write_page ws c i = Some (ok1, c \<lparr>disc := d1\<rparr>)"
    using eq w by simp
  show "write_page ws c i \<noteq> None" using eq2 by simp
  assume "write_page ws c i = Some (ok, c')"
  then have c': "ok1 = ok" "c' = c \<lparr>disc := d1\<rparr>" using eq2 by simp_all
  have sg: "same_geometry c c'" "cacheEntries c' = cacheEntries c"
    by (simp_all add: c' same_geometry_def)
  have "keeps c (set_clean c' i)" if "ok"
  proof -
    have post: "valid d1 \<and> sect d1 = put_sectors (ssize (disc c)) (sect (disc c)) (ce_sector ?e) (ce_count ?e) ?b
        \<and> ssize d1 = ssize (disc c) \<and> lo d1 = lo (disc c) \<and> hi d1 = hi (disc c)"
      using ws_ok [OF cv(1) dom len] w c' that by simp
    then have "sect d1 = put_sectors ?z (sect (disc c)) (ce_sector ?e) (ce_count ?e) ?b"
      using cv(3) by simp
    note fp = flush_page [OF cv(2) i ld cv(6) sg this]
    show ?thesis
    proof (rule keepsI [OF v])
      show "same_geometry c (set_clean c' i)"
        using sg(1) by (auto intro: same_geometry_trans)
    qed (use post fp in \<open>simp_all add: c'\<close>)
  qed
  moreover have "live (disc c) \<longrightarrow> ok \<and> live (disc c')"
    using ws_live [OF cv(1) _ dom len w] c' by simp
  ultimately show "(ok \<longrightarrow> keeps c (set_clean c' i)) \<and> cacheEntries c' = cacheEntries c
        \<and> same_geometry c c' \<and> (live (disc c) \<longrightarrow> ok \<and> live (disc c'))"
    using sg by blast
qed


text \<open>What the caller of \<open>_NTFS_cache_getPage\<close> may rely on.\<close>

definition page_result :: "'d ncache \<Rightarrow> nat \<Rightarrow> (nat option \<times> 'd ncache) option \<Rightarrow> bool" where
  "page_result c sector R \<longleftrightarrow> (\<exists>r c'. R = Some (r, c') \<and> (live (disc c) \<longrightarrow> r \<noteq> None \<and> live (disc c'))
     \<and> (\<forall>i. r = Some i \<longrightarrow> keeps c c' \<and> i < length (cacheEntries c') \<and> page_hit (cacheEntries c' ! i) sector))"

lemma page_result_trans:
  "page_result c1 sector R \<Longrightarrow> keeps c c1 \<Longrightarrow> (live (disc c) \<Longrightarrow> live (disc c1)) \<Longrightarrow> page_result c sector R"
  unfolding page_result_def using keeps_trans by blast

lemma load_page_ok:
  assumes v: "cvalid c" and i: "i < length (cacheEntries c)" and clean: "\<not> ce_dirty (cacheEntries c ! i)"
    and sec: "startOfPartition c \<le> sector" "sector < endOfPartition c"
    and miss: "\<And>j. j < length (cacheEntries c) \<Longrightarrow> \<not> page_hit (cacheEntries c ! j) sector"
  shows "page_result c sector (load_page rs c i sector)"
proof -
  note cv = cvalidD [OF v]
  let ?e = "cacheEntries c ! i" and ?z = "sectorSize c"
  define base where "base = page_base c sector"
  define n where "n = min (sectorsPerPage c) (endOfPartition c - base)"
  note e = page_okD [OF cv(2) i]
  have geo: "0 < sectorsPerPage c" "endOfPartition c + sectorsPerPage c < 2 ^ 32"
    using e(2) by (simp_all add: geometry_ok_def)
  have b: "startOfPartition c \<le> base" "base \<le> sector" "base < endOfPartition c"
    using page_base_le [OF sec(1)] sec by (auto simp: base_def)
  have len: "length (ce_cache ?e) = sectorsPerPage c * ?z"
    using e(1) by (simp add: page_ok_def)
  have fits: "n * ?z \<le> sectorsPerPage c * ?z"
    by (rule mult_le_mono1) (simp add: n_def)
  have code: "u32 (startOfPartition c + (sector - startOfPartition c) div sectorsPerPage c * sectorsPerPage c) = base"
    using b geo unfolding base_def page_base_def by (intro u32_id) linarith
  have np: "u32 (base + sectorsPerPage c) = base + sectorsPerPage c"
    using b geo by (intro u32_id) linarith
  have cnt: "u32 ((if base + sectorsPerPage c > endOfPartition c then endOfPartition c else base + sectorsPerPage c) + 2 ^ 32 - base) = n"
    by (subst u32_sub) (use b geo in \<open>auto simp: n_def\<close>)
  have dom: "lo (disc c) \<le> base" "base + n \<le> hi (disc c)"
    using cv(4,5) b by (auto simp: n_def)
  define old where "old = chunk 0 (n * ?z) (ce_cache ?e)"
  have lold: "length old = n * ssize (disc c)"
    using fits len cv(3) by (simp add: old_def)
  obtain ok x d where rd: "rs (disc c) base n old = Some (ok, x, d)"
    using rs_returns [OF cv(1) dom lold] by (cases "rs (disc c) base n old") auto
  define c1 where "c1 = c \<lparr>disc := d, cacheEntries := (cacheEntries c) [i := ?e \<lparr>ce_cache := blit (ce_cache ?e) 0 x\<rparr>]\<rparr>"
  define c2 where "c2 = c1 \<lparr>cacheEntries := (cacheEntries c1) [i := (cacheEntries c1 ! i)
                           \<lparr>ce_dirty := False, ce_sector := base, ce_count := n\<rparr>]\<rparr>"
  have get: "mem_get (ce_cache ?e) 0 (n * ?z) = Some old"
    using fits len by (simp add: mem_get_def old_def)
  have eq: "load_page rs c i sector = (if \<not> ok then Some (None, c1) else Some (Some i, touch c2 i))"
    unfolding load_page_def Let_def code np cnt get option.case rd prod.case c1_def c2_def by simp
  have d2: "disc (touch c2 i) = d" by (simp add: c2_def c1_def)
  have "keeps c (touch c2 i) \<and> i < length (cacheEntries (touch c2 i)) \<and> page_hit (cacheEntries (touch c2 i) ! i) sector" if ok
  proof -
    have post: "x = sectors_of (sect (disc c)) base n" "valid d" "sect d = sect (disc c)" "ssize d = ssize (disc c)"
        "lo d = lo (disc c)" "hi d = hi (disc c)"
      using rs_ok [OF cv(1) dom lold] rd that by simp_all
    have lx: "length x = n * ?z"
      using rs_length [OF cv(1) dom lold rd] cv(3) by simp
    define e' where "e' = ?e \<lparr>ce_sector := base, ce_count := n, ce_dirty := False, ce_cache := blit (ce_cache ?e) 0 x\<rparr>"
    have e'_alt: "?e \<lparr>ce_cache := blit (ce_cache ?e) 0 x, ce_dirty := False, ce_sector := base, ce_count := n\<rparr> = e'"
      by (cases ?e) (simp add: e'_def)
    have sg: "same_geometry c c2"
      by (simp add: same_geometry_def c2_def c1_def)
    have upd: "cacheEntries c2 = (cacheEntries c) [i := e']"
      using i by (simp add: c2_def c1_def e'_alt)
    have slen: "length (sect (disc c) j) = ?z" if "base \<le> j" "j < base + n" for j
      using sect_length [OF cv(1), of j] that dom cv(3) by simp
    note fp = fill_page [OF cv(2) i clean cv(6) sec miss base_def n_def post(1) lx slen e'_def sg upd]
    have k2: "keeps c c2"
      by (rule keepsI [OF v sg]) (use post fp in \<open>simp_all add: c2_def c1_def\<close>)
    have "page_hit (cacheEntries (touch c2 i) ! i) sector"
      using touch_same(1) [of i c2 i sector] fp(3) i upd by simp
    then show ?thesis
      using keeps_trans [OF k2 keeps_touch] keepsD(1) [OF k2] i upd by simp
  qed
  moreover have "live (disc c) \<longrightarrow> ok \<and> live d"
    using rs_live [OF cv(1) _ dom lold rd] by simp
  ultimately show ?thesis
    unfolding page_result_def eq using d2 by (cases ok) auto
qed

lemma getPage_ok:
  assumes v: "cvalid c" and sec: "startOfPartition c \<le> sector" "sector < endOfPartition c"
  shows "page_result c sector (NTFS_cache_getPage rs ws c sector)"
proof -
  note cv = cvalidD [OF v]
  let ?scan = "page_scan sector (cacheEntries c) 0 False 0 UINT_MAX"
  have ne: "cacheEntries c \<noteq> []" using cv(2) by (simp add: pages_ok_def geometry_ok_def)
  show ?thesis
  proof (cases ?scan)
    case (Inl i)
    have "i < length (cacheEntries c)" "page_hit (cacheEntries c ! i) sector"
      using page_scan_spec(1) [OF Inl] by simp_all
    then show ?thesis
      using Inl sec keeps_touch [OF v] touch_same(1) [of i c i sector]
      by (simp add: NTFS_cache_getPage_def page_result_def)
  next
    case (Inr bu)
    obtain b u where bu: "bu = (b, u)" by (metis surj_pair)
    note scan = Inr [unfolded bu]
    note sp = page_scan_start [OF scan ne]
    show ?thesis
    proof (cases "\<not> b \<and> ce_dirty (cacheEntries c ! u)")
      case True
      obtain ok c1 where w: "write_page ws c u = Some (ok, c1)"
        using write_page_ok(1) [OF v sp(1)] True by auto
      have eq: "NTFS_cache_getPage rs ws c sector = (if \<not> ok then Some (None, c1) else load_page rs (set_clean c1 u) u sector)"
        using sec scan sp(1) True w by (simp add: NTFS_cache_getPage_def)
      note wp = write_page_ok(2) [OF v sp(1) conjunct2 [OF True] w]
      show ?thesis
      proof (cases ok)
        case False
        then show ?thesis using eq wp by (auto simp: page_result_def)
      next
        case True
        then have k: "keeps c (set_clean c1 u)" and es: "cacheEntries c1 = cacheEntries c" using wp by auto
        have nohit: "\<not> page_hit (cacheEntries (set_clean c1 u) ! j) sector" if "j < length (cacheEntries c)" for j
          using sp(3) [OF that] that by (cases "j = u") (simp_all add: set_clean_def es)
        have "page_result (set_clean c1 u) sector (load_page rs (set_clean c1 u) u sector)"
        proof (rule load_page_ok [OF keepsD(1) [OF k]])
          show "\<not> ce_dirty (cacheEntries (set_clean c1 u) ! u)"
            using sp(1) by (simp add: set_clean_def es)
          show "startOfPartition (set_clean c1 u) \<le> sector" "sector < endOfPartition (set_clean c1 u)"
            using sec wp by (simp_all add: same_geometry_def)
        qed (use sp(1) nohit es in simp_all)
        then have "page_result c sector (load_page rs (set_clean c1 u) u sector)"
          by (rule page_result_trans [OF _ k]) (use wp in simp)
        then show ?thesis using eq True by simp
      qed
    next
      case False
      then have "\<not> ce_dirty (cacheEntries c ! u)"
        using sp(2) page_okD(1) [OF cv(2) sp(1)] by (auto simp: page_ok_def)
      moreover have "NTFS_cache_getPage rs ws c sector = load_page rs c u sector"
        using sec scan sp(1) False unfolding NTFS_cache_getPage_def by auto
      ultimately show ?thesis
        using load_page_ok [OF v sp(1) _ sec sp(3)] by simp
    qed
  qed
qed

text \<open>Reading.\<close>

lemma read_step_ok:
  assumes v: "cvalid c" and sec: "startOfPartition c \<le> s" "s + n \<le> endOfPartition c" "0 < n"
    and buf: "dest + n * sectorSize c \<le> length buf"
  shows "\<exists>R. read_step rs ws c s n buf dest = Some R \<and> (case R of Inl c' \<Rightarrow> \<not> live (disc c)
     | Inr (k, buf', c') \<Rightarrow> keeps c c' \<and> 0 < k \<and> k \<le> n \<and> buf' = blit buf dest (sectors_of (cview c) s k)
         \<and> length (sectors_of (cview c) s k) = k * sectorSize c \<and> (live (disc c) \<longrightarrow> live (disc c')))"
proof -
  obtain r c' where g: "NTFS_cache_getPage rs ws c s = Some (r, c')" "live (disc c) \<longrightarrow> r \<noteq> None \<and> live (disc c')"
      "\<And>i. r = Some i \<Longrightarrow> keeps c c' \<and> i < length (cacheEntries c') \<and> page_hit (cacheEntries c' ! i) s"
    using getPage_ok [OF v sec(1)] sec unfolding page_result_def by auto
  show ?thesis
  proof (cases r)
    case None
    then show ?thesis using g by (simp add: read_step_def)
  next
    case (Some i)
    let ?e = "cacheEntries c' ! i" and ?z = "sectorSize c"
    note k = g(3) [OF Some]
    note cv = cvalidD [OF keepsD(1) [OF conjunct1 [OF k]]]
    have i: "i < length (cacheEntries c')" using k by simp
    note e = page_okD [OF cv(2) i]
    have geo: "sectorSize c' = ?z" "endOfPartition c' = endOfPartition c"
      using k by (auto simp: keeps_def same_geometry_def)
    have h: "loaded ?e" "ce_sector ?e \<le> s" "s < ce_sector ?e + ce_count ?e"
      using k page_hit_iff [OF e] by auto
    have r: "ce_sector ?e + ce_count ?e \<le> endOfPartition c" "endOfPartition c < 2 ^ 32"
        "length (ce_cache ?e) = sectorsPerPage c' * ?z" "ce_count ?e \<le> sectorsPerPage c'"
      using e h(1) geo by (auto simp: page_ok_def geometry_ok_def)
    define m where "m = min n (ce_sector ?e + ce_count ?e - s)"
    have u: "u32 (s + 2 ^ 32 - ce_sector ?e) = s - ce_sector ?e"
        "u32 (ce_count ?e + 2 ^ 32 - (s - ce_sector ?e)) = ce_sector ?e + ce_count ?e - s"
      using u32_sub [of "ce_sector ?e" s] u32_sub [of "s - ce_sector ?e" "ce_count ?e"] h r sec by auto
    have mz: "m * ?z \<le> n * ?z" by (rule mult_le_mono1) (simp add: m_def)
    have le: "s - ce_sector ?e + m \<le> sectorsPerPage c'"
      using h r by (simp add: m_def)
    then have fits: "(s - ce_sector ?e) * ?z + m * ?z \<le> length (ce_cache ?e)"
      unfolding r(3) add_mult_distrib [symmetric] by (rule mult_le_mono1)
    let ?xs = "chunk ((s - ce_sector ?e) * ?z) (m * ?z) (ce_cache ?e)"
    have view: "cview c k' = slice ?z ?e k'" if "s \<le> k'" "k' < s + m" for k'
    proof -
      have "page_hit ?e k'" using page_hit_iff [OF e] h that by (auto simp: m_def)
      then show ?thesis using cv(6) i k geo by (auto simp: cache_abs_def keeps_def)
    qed
    have "sectors_of (cview c) s m = sectors_of (\<lambda>k'. chunk ((k' - s) * ?z) ?z ?xs) s m"
    proof (rule sectors_of_cong)
      fix k' assume a: "s \<le> k'" "k' < s + m"
      have off: "(s - ce_sector ?e) * ?z + (k' - s) * ?z = (k' - ce_sector ?e) * ?z"
        using a h(2) by (simp add: add_mult_distrib [symmetric])
      have "k' - s < m" using a by linarith
      then have "(k' - s) * ?z + ?z \<le> m * ?z"
        by (metis add.commute mult_Suc mult_le_mono1 Suc_leI)
      then show "cview c k' = chunk ((k' - s) * ?z) ?z ?xs"
        using view [OF a] off by (simp add: chunk_chunk slice_def add.commute)
    qed
    also have "\<dots> = ?xs"
      by (rule sectors_of_chunks) (use fits in simp)
    finally have xs: "?xs = sectors_of (cview c) s m" by simp
    have lx: "length ?xs = m * ?z" using fits by simp
    have m: "(if ce_sector ?e + ce_count ?e - s > n then n else ce_sector ?e + ce_count ?e - s) = m"
      by (simp add: m_def)
    have get: "mem_get (ce_cache ?e) ((s - ce_sector ?e) * ?z) (m * ?z) = Some ?xs"
      using fits by (simp add: mem_get_def)
    have "dest + length ?xs \<le> length buf" using lx buf mz by linarith
    then have put: "mem_put buf dest ?xs = Some (blit buf dest ?xs)"
      by (simp only: mem_put_def if_True)
    have "read_step rs ws c s n buf dest = Some (Inr (m, blit buf dest ?xs, c'))"
      unfolding read_step_def Let_def g(1) Some option.case prod.case geo u m get put ..
    moreover have "0 < m" "m \<le> n" using h sec by (auto simp: m_def)
    ultimately show ?thesis using k xs lx g(2) by simp
  qed
qed


lemma read_loop_ok:
  "cvalid c \<Longrightarrow> startOfPartition c \<le> s \<Longrightarrow> s + n \<le> endOfPartition c \<Longrightarrow> dest + n * sectorSize c \<le> length buf \<Longrightarrow> n \<le> fuel \<Longrightarrow>
   \<exists>ok b c'. read_loop fuel rs ws c s n buf dest = Some (ok, b, c') \<and> length b = length buf
     \<and> (ok \<longrightarrow> keeps c c' \<and> b = blit buf dest (sectors_of (cview c) s n) \<and> length (sectors_of (cview c) s n) = n * sectorSize c)
     \<and> (live (disc c) \<longrightarrow> ok \<and> live (disc c'))"
proof (induction fuel arbitrary: c s n dest buf)
  case 0
  then show ?case by (auto simp: keeps_def)
next
  case (Suc fuel)
  show ?case
  proof (cases "n = 0")
    case True
    then show ?thesis using Suc.prems(1) by (auto simp: keeps_def)
  next
    case False
    obtain R where R: "read_step rs ws c s n buf dest = Some R" "case R of Inl c' \<Rightarrow> \<not> live (disc c)
     | Inr (k, buf', c') \<Rightarrow> keeps c c' \<and> 0 < k \<and> k \<le> n \<and> buf' = blit buf dest (sectors_of (cview c) s k)
         \<and> length (sectors_of (cview c) s k) = k * sectorSize c \<and> (live (disc c) \<longrightarrow> live (disc c'))"
      using read_step_ok [OF Suc.prems(1,2,3) _ Suc.prems(4)] False by blast
    show ?thesis
    proof (cases R)
      case (Inl c')
      then show ?thesis using R False by auto
    next
      case (Inr x)
      then obtain k buf' c1 where x: "R = Inr (k, buf', c1)" by (metis surj_pair)
      then have k: "keeps c c1" "0 < k" "k \<le> n" "buf' = blit buf dest (sectors_of (cview c) s k)"
          "length (sectors_of (cview c) s k) = k * sectorSize c" "live (disc c) \<longrightarrow> live (disc c1)"
        using R(2) by auto
      note k1 = keepsD [OF k(1)]
      have geo: "startOfPartition c1 = startOfPartition c" "endOfPartition c1 = endOfPartition c" "sectorSize c1 = sectorSize c"
        using k1(3) by (auto simp: same_geometry_def)
      have split: "n * sectorSize c = k * sectorSize c + (n - k) * sectorSize c"
        using k(3) by (simp add: add_mult_distrib [symmetric])
      have fits: "dest + length (sectors_of (cview c) s k) \<le> length buf"
        using Suc.prems(4) k(5) split by linarith
      then have lb: "length buf' = length buf" using k(4) by simp
      have sk: "u32 (s + k) = s + k"
      proof -
        have "endOfPartition c < 2 ^ 32"
          using cvalidD(2) [OF Suc.prems(1)] by (auto simp: pages_ok_def geometry_ok_def)
        then show ?thesis using k(3) Suc.prems(3) by (intro u32_id) linarith
      qed
      have "\<exists>ok b c'. read_loop fuel rs ws c1 (s + k) (n - k) buf' (dest + k * sectorSize c) = Some (ok, b, c')
         \<and> length b = length buf'
         \<and> (ok \<longrightarrow> keeps c1 c' \<and> b = blit buf' (dest + k * sectorSize c) (sectors_of (cview c1) (s + k) (n - k))
            \<and> length (sectors_of (cview c1) (s + k) (n - k)) = (n - k) * sectorSize c1)
         \<and> (live (disc c1) \<longrightarrow> ok \<and> live (disc c'))"
        by (rule Suc.IH [OF k1(1)]) (use Suc.prems k geo split lb in auto)
      then obtain ok b c' where IH: "read_loop fuel rs ws c1 (s + k) (n - k) buf' (dest + k * sectorSize c) = Some (ok, b, c')"
         "length b = length buf'"
         "ok \<Longrightarrow> keeps c1 c' \<and> b = blit buf' (dest + k * sectorSize c) (sectors_of (cview c) (s + k) (n - k))
            \<and> length (sectors_of (cview c) (s + k) (n - k)) = (n - k) * sectorSize c"
         "live (disc c1) \<longrightarrow> ok \<and> live (disc c')"
        unfolding k1(2) geo by blast
      have all: "sectors_of (cview c) s n = sectors_of (cview c) s k @ sectors_of (cview c) (s + k) (n - k)"
        using sectors_of_append [of "cview c" s k "n - k"] k(3) by simp
      have "b = blit buf dest (sectors_of (cview c) s n) \<and> length (sectors_of (cview c) s n) = n * sectorSize c" if ok
      proof
        have l: "length (sectors_of (cview c) (s + k) (n - k)) = (n - k) * sectorSize c" using IH(3) [OF that] by simp
        show "length (sectors_of (cview c) s n) = n * sectorSize c" using l k(5) split by (simp add: all)
        have "dest + length (sectors_of (cview c) s k) + length (sectors_of (cview c) (s + k) (n - k)) \<le> length buf"
          using l k(5) split Suc.prems(4) by linarith
        from blit_append [OF this] show "b = blit buf dest (sectors_of (cview c) s n)"
          using IH(3) [OF that] k(4,5) by (simp add: all)
      qed
      then show ?thesis
        using R(1) x False sk IH k(1,6) lb keeps_trans [OF k(1)] by simp
    qed
  qed
qed

end

section \<open>Writes that bypass the pages\<close>

definition no_page :: "'d ncache \<Rightarrow> nat \<Rightarrow> nat \<Rightarrow> bool" where
  "no_page c s n \<longleftrightarrow> (\<forall>j < length (cacheEntries c). \<forall>k. s \<le> k \<and> k < s + n \<longrightarrow> \<not> page_hit (cacheEntries c ! j) k)"

lemma no_page_mono: "no_page c s n \<Longrightarrow> m \<le> n \<Longrightarrow> no_page c s m"
  by (auto simp: no_page_def)

lemma no_page_append: "no_page c s n \<Longrightarrow> no_page c (s + n) m \<Longrightarrow> no_page c s (n + m)"
  unfolding no_page_def by (metis add.assoc not_le)

text \<open>If the first sector of a run inside one page is not cached, none of the run is.\<close>

lemma no_page_run:
  assumes "pages_ok f c" "startOfPartition c \<le> s" "\<And>j. j < length (cacheEntries c) \<Longrightarrow> \<not> page_hit (cacheEntries c ! j) s"
    and "s + n \<le> page_base c s + sectorsPerPage c"
  shows "no_page c s n"
  unfolding no_page_def
proof (intro allI impI)
  fix j k assume j: "j < length (cacheEntries c)" and k: "s \<le> k \<and> k < s + n"
  note e = page_okD [OF assms(1) j]
  have "0 < sectorsPerPage c" using e(2) by (simp add: geometry_ok_def)
  then have "page_base c k = page_base c s"
    using page_base_le [OF assms(2)] assms(4) k by (intro page_base_eqI [of c "page_base c s" k]) (simp_all add: page_base_idem)
  moreover have "s < endOfPartition c" if "k < endOfPartition c" using that k by linarith
  ultimately show "\<not> page_hit (cacheEntries c ! j) k"
    using assms(2) assms(3) [OF j] unfolding page_hit_base [OF e] by metis
qed

lemma gap_loop_free:
  "pages_ok f c \<Longrightarrow> startOfPartition c \<le> sector \<Longrightarrow> sector + numSectors \<le> endOfPartition c \<Longrightarrow>
    page_base c (sector + secs) = sector + secs \<Longrightarrow> step < secs \<Longrightarrow> no_page c sector secs \<Longrightarrow>
    0 < gap_loop c sector numSectors secs step \<and> no_page c sector (gap_loop c sector numSectors secs step)"
proof (induction c sector numSectors secs step rule: gap_loop.induct)
  case (1 c sector numSectors secs step)
  show ?case
  proof (cases "NTFS_cache_findPage c (u32 (sector + secs))")
    case (Some i)
    then show ?thesis
      using 1(6,7) no_page_mono [of c sector secs "secs - step"] by (simp add: gap_loop.simps)
  next
    case None
    have geo: "0 < sectorsPerPage c" "endOfPartition c < 2 ^ 32"
      using 1(2) by (auto simp: pages_ok_def geometry_ok_def)
    show ?thesis
    proof (cases "secs > numSectors")
      case True
      then show ?thesis using None 1(6,7) by (simp add: gap_loop.simps)
    next
      case False
      then have "u32 (sector + secs) = sector + secs"
        using 1(4) geo(2) by (intro u32_id) linarith
      then have "no_page c (sector + secs) (sectorsPerPage c)"
        using None findPage_None [OF 1(2)] 1(3,5) by (intro no_page_run [OF 1(2)]) auto
      then have np: "no_page c sector (secs + sectorsPerPage c)"
        using 1(7) no_page_append by blast
      have al: "page_base c (sector + (secs + sectorsPerPage c)) = sector + (secs + sectorsPerPage c)"
      proof -
        have "sector + secs = startOfPartition c + (sector + secs - startOfPartition c) div sectorsPerPage c * sectorsPerPage c"
          using 1(5) by (simp add: page_base_def)
        then obtain q where q: "sector + secs = startOfPartition c + q * sectorsPerPage c" by blast
        then have "sector + (secs + sectorsPerPage c) = startOfPartition c + (q + 1) * sectorsPerPage c" by simp
        then show ?thesis using geo(1) unfolding page_base_def by (metis add_diff_cancel_left' nonzero_mult_div_cancel_right less_numeral_extra(3))
      qed
      have "gap_loop c sector numSectors secs step = gap_loop c sector numSectors (secs + sectorsPerPage c) (sectorsPerPage c)"
        using None False geo(1) by (subst gap_loop.simps) simp
      moreover have "sectorsPerPage c < secs + sectorsPerPage c" using 1(6) by simp
      ultimately show ?thesis
        using 1(1) [OF None _ 1(2-4) al _ np] False geo(1) by simp
    qed
  qed
qed

lemma direct_count_free:
  assumes ok: "pages_ok f c" and s: "startOfPartition c \<le> sector" "sector + n \<le> endOfPartition c" "0 < n"
    and miss: "NTFS_cache_findPage c sector = None"
  shows "0 < direct_count c sector n" "direct_count c sector n \<le> n" "no_page c sector (direct_count c sector n)"
proof -
  have geo: "0 < sectorsPerPage c" "endOfPartition c < 2 ^ 32"
    using ok by (auto simp: pages_ok_def geometry_ok_def)
  define s0 where "s0 = sectorsPerPage c - (sector - startOfPartition c) mod sectorsPerPage c"
  define s1 where "s1 = (if s0 < n then gap_loop c sector n s0 0 else s0)"
  have lt: "(sector - startOfPartition c) mod sectorsPerPage c < sectorsPerPage c" using geo(1) by simp
  then have pos: "0 < s0" by (simp add: s0_def)
  have split: "sector - startOfPartition c = (sector - startOfPartition c) div sectorsPerPage c * sectorsPerPage c
      + (sector - startOfPartition c) mod sectorsPerPage c"
    by simp
  have top: "sector + s0 = page_base c sector + sectorsPerPage c"
    unfolding s0_def page_base_def using split lt s(1) by linarith
  then have al: "page_base c (sector + s0) = sector + s0"
    using geo(1) by (simp add: page_base_def)
  have np0: "no_page c sector s0"
    by (rule no_page_run [OF ok s(1) findPage_None [OF ok miss]]) (simp_all add: top)
  have "0 < s1 \<and> no_page c sector s1"
    using gap_loop_free [OF ok s(1,2) al pos np0] pos np0 by (simp add: s1_def)
  moreover have "direct_count c sector n = min s1 n"
  proof -
    have "sector + min s1 n \<le> endOfPartition c" using s(2) by linarith
    moreover have "u32 (sector + min s1 n) = sector + min s1 n"
      using calculation geo(2) by (intro u32_id) linarith
    moreover have "(if s1 > n then n else s1) = min s1 n" by simp
    ultimately show ?thesis
      unfolding direct_count_def Let_def s0_def [symmetric] s1_def [symmetric] by simp
  qed
  ultimately show "0 < direct_count c sector n" "direct_count c sector n \<le> n" "no_page c sector (direct_count c sector n)"
    using s(3) no_page_mono [of c sector s1 "min s1 n"] by simp_all
qed

context disc_interface
begin

text \<open>What a write of \<open>n\<close> sectors from \<open>b\<close> at \<open>s\<close> does to a cache.\<close>

definition wrote :: "'d ncache \<Rightarrow> 'd ncache \<Rightarrow> nat \<Rightarrow> nat \<Rightarrow> bytes \<Rightarrow> bool" where
  "wrote c c' s n b \<longleftrightarrow> same_geometry c c' \<and> cvalid c' \<and> cview c' = put_sectors (sectorSize c) (cview c) s n b"

lemma wroteI:
  assumes "cvalid c" "same_geometry c c'" "valid (disc c')" "ssize (disc c') = ssize (disc c)"
    "lo (disc c') = lo (disc c)" "hi (disc c') = hi (disc c)"
    "pages_ok (sect (disc c')) c'" "cache_abs (sect (disc c')) c' (put_sectors (sectorSize c) (cview c) s n b)"
  shows "wrote c c' s n b"
  using assms cache_viewI [of sect c', OF assms(7,8)] by (auto simp: wrote_def cache_valid_def same_geometry_def)

lemma write_cached_ok:
  assumes v: "cvalid c" and hit: "i < length (cacheEntries c)" "page_hit (cacheEntries c ! i) s"
    and s: "0 < n" "src + n * sectorSize c \<le> length buf"
  shows "\<exists>k c'. write_cached c i s n buf src = Some (k, c') \<and> 0 < k \<and> k \<le> n
     \<and> wrote c c' s k (chunk src (k * sectorSize c) buf) \<and> disc c' = disc c"
proof -
  define c1 where "c1 = touch c i"
  let ?e = "cacheEntries c1 ! i" and ?z = "sectorSize c"
  have v1: "keeps c c1" unfolding c1_def by (rule keeps_touch [OF v])
  note cv = cvalidD [OF keepsD(1) [OF v1]]
  have i: "i < length (cacheEntries c1)" and h1: "page_hit ?e s"
    using hit touch_same(1) [OF hit(1), of i s] by (simp_all add: c1_def)
  note e = page_okD [OF cv(2) i]
  have geo: "sectorSize c1 = ?z" "disc c1 = disc c" by (simp_all add: c1_def)
  have h: "loaded ?e" "ce_sector ?e \<le> s" "s < ce_sector ?e + ce_count ?e"
    using h1 page_hit_iff [OF e] by auto
  have r: "ce_sector ?e + ce_count ?e < 2 ^ 32" "length (ce_cache ?e) = sectorsPerPage c1 * ?z" "ce_count ?e \<le> sectorsPerPage c1"
    using e h(1) geo by (auto simp: page_ok_def geometry_ok_def)
  define m where "m = min n (ce_sector ?e + ce_count ?e - s)"
  have u: "u32 (s + 2 ^ 32 - ce_sector ?e) = s - ce_sector ?e"
      "u32 (ce_count ?e + 2 ^ 32 - (s - ce_sector ?e)) = ce_sector ?e + ce_count ?e - s"
    using u32_sub [of "ce_sector ?e" s] u32_sub [of "s - ce_sector ?e" "ce_count ?e"] h r by auto
  have m: "(if ce_sector ?e + ce_count ?e - s > n then n else ce_sector ?e + ce_count ?e - s) = m"
    by (simp add: m_def)
  have mz: "m * ?z \<le> n * ?z" by (rule mult_le_mono1) (simp add: m_def)
  have get: "mem_get buf src (m * ?z) = Some (chunk src (m * ?z) buf)"
    by (rule mem_get_SomeI) (use mz s(2) in linarith)
  let ?xs = "chunk src (m * ?z) buf"
  have lx: "length ?xs = m * ?z" unfolding length_chunk using mz s(2) by linarith
  have "s - ce_sector ?e + m \<le> sectorsPerPage c1"
    using h r by (simp add: m_def)
  then have "(s - ce_sector ?e) * ?z + m * ?z \<le> length (ce_cache ?e)"
    unfolding r(2) add_mult_distrib [symmetric] by (rule mult_le_mono1)
  then have put: "mem_put (ce_cache ?e) ((s - ce_sector ?e) * ?z) ?xs = Some (blit (ce_cache ?e) ((s - ce_sector ?e) * ?z) ?xs)"
    unfolding mem_put_def lx by simp
  define e' where "e' = ?e \<lparr>ce_cache := blit (ce_cache ?e) ((s - ce_sector ?e) * ?z) ?xs, ce_dirty := True\<rparr>"
  define c2 where "c2 = c1 \<lparr>cacheEntries := (cacheEntries c1) [i := e']\<rparr>"
  have eq: "write_cached c i s n buf src = Some (m, c2)"
    unfolding write_cached_def Let_def c1_def [symmetric] geo u m get put option.case c2_def e'_def ..
  have sg: "same_geometry c1 c2" "cacheEntries c2 = (cacheEntries c1) [i := e']"
    by (simp_all add: same_geometry_def c2_def)
  have "s + m \<le> ce_sector ?e + ce_count ?e" using h(3) by (simp add: m_def)
  moreover have "length ?xs = m * sectorSize c1" using lx geo by simp
  ultimately have sp: "pages_ok (sect (disc c1)) c2" "cache_abs (sect (disc c1)) c2 (put_sectors (sectorSize c1) (cview c1) s m ?xs)"
    using store_page [where n = m and b = ?xs, OF cv(2) i cv(6) h1 _ _ _ _ _ _ sg] by (simp_all add: e'_def geo)
  have "wrote c c2 s m ?xs"
  proof (rule wroteI [OF v])
    show "same_geometry c c2" using sg(1) keepsD(3) [OF v1] by (auto intro: same_geometry_trans)
  qed (use sp cvalidD(1) [OF v] geo keepsD(2) [OF v1] in \<open>simp_all add: c2_def\<close>)
  moreover have "0 < m" "m \<le> n" using s h by (auto simp: m_def)
  moreover have "disc c2 = disc c" using geo by (simp add: c2_def)
  ultimately show ?thesis using eq by blast
qed

lemma write_direct_ok:
  assumes v: "cvalid c" and miss: "NTFS_cache_findPage c s = None"
    and s: "startOfPartition c \<le> s" "s + n \<le> endOfPartition c" "0 < n" "src + n * sectorSize c \<le> length buf"
  shows "\<exists>R. write_direct ws c s n buf src = Some R \<and> (case R of Inl c' \<Rightarrow> \<not> live (disc c)
     | Inr (k, c') \<Rightarrow> 0 < k \<and> k \<le> n \<and> wrote c c' s k (chunk src (k * sectorSize c) buf) \<and> (live (disc c) \<longrightarrow> live (disc c')))"
proof -
  note cv = cvalidD [OF v]
  define k where "k = direct_count c s n"
  note dc = direct_count_free [OF cv(2) s(1-3) miss, folded k_def]
  let ?z = "sectorSize c" and ?b = "chunk src (k * sectorSize c) buf"
  have end32: "endOfPartition c < 2 ^ 32" using cv(2) by (auto simp: pages_ok_def geometry_ok_def)
  have kz: "k * ?z \<le> n * ?z" by (rule mult_le_mono1) (rule dc(2))
  have u: "u32 (k + 2 ^ 32 - 0) = k" "u32 (s + 0) = s"
    using u32_sub [of 0 k] dc(2) s(2) end32 by auto
  have "mem_get buf src (k * ?z) = Some ?b"
    by (rule mem_get_SomeI) (use kz s(4) in linarith)
  then have get: "mem_get buf (src + 0 * ?z) (k * ?z) = Some ?b" by simp
  have len: "length ?b = k * ssize (disc c)"
    unfolding length_chunk cv(3) [symmetric] using kz s(4) by linarith
  have dom: "lo (disc c) \<le> s" "s + k \<le> hi (disc c)"
    using cv(4,5) s dc(2) by linarith+
  obtain ok d where w: "ws (disc c) s k ?b = Some (ok, d)"
    using ws_returns [OF cv(1) dom len] by auto
  have sal: "(if s < startOfPartition c then startOfPartition c - s else 0) = 0" using s(1) by simp
  have eq: "write_direct ws c s n buf src = (if \<not> ok then Some (Inl (c \<lparr>disc := d\<rparr>)) else Some (Inr (k, c \<lparr>disc := d\<rparr>)))"
    unfolding write_direct_def Let_def k_def [symmetric] sal u get option.case w prod.case ..
  have lv: "live (disc c) \<longrightarrow> ok \<and> live d"
    using ws_live [OF cv(1) _ dom len w] by simp
  have "wrote c (c \<lparr>disc := d\<rparr>) s k ?b" if ok
  proof -
    have post: "valid d \<and> sect d = put_sectors (ssize (disc c)) (sect (disc c)) s k ?b
        \<and> ssize d = ssize (disc c) \<and> lo d = lo (disc c) \<and> hi d = hi (disc c)"
      using ws_ok [OF cv(1) dom len] w that by simp
    have sg: "same_geometry c (c \<lparr>disc := d\<rparr>)" "cacheEntries (c \<lparr>disc := d\<rparr>) = cacheEntries c"
      by (simp_all add: same_geometry_def)
    have "\<And>j k'. j < length (cacheEntries c) \<Longrightarrow> s \<le> k' \<Longrightarrow> k' < s + k \<Longrightarrow> \<not> page_hit (cacheEntries c ! j) k'"
      using dc(3) by (simp add: no_page_def)
    note bp = bypass_pages [OF cv(2,6) sg this, where z = ?z and b = ?b]
    show ?thesis
      by (rule wroteI [OF v sg(1)]) (use post bp cv(3) in simp_all)
  qed
  then show ?thesis using eq dc(1,2) lv by (cases ok) auto
qed


lemma write_step_ok:
  assumes v: "cvalid c" and s: "startOfPartition c \<le> s" "s + n \<le> endOfPartition c" "0 < n" "src + n * sectorSize c \<le> length buf"
  shows "\<exists>R. write_step ws c s n buf src = Some R \<and> (case R of Inl c' \<Rightarrow> \<not> live (disc c)
     | Inr (k, c') \<Rightarrow> 0 < k \<and> k \<le> n \<and> wrote c c' s k (chunk src (k * sectorSize c) buf) \<and> (live (disc c) \<longrightarrow> live (disc c')))"
proof (cases "NTFS_cache_findPage c s")
  case None
  then show ?thesis using write_direct_ok [OF v None s] by (simp add: write_step_def)
next
  case (Some i)
  have "i < length (cacheEntries c)" "page_hit (cacheEntries c ! i) s" using findPage_Some [OF Some] by auto
  from write_cached_ok [OF v this s(3,4)] show ?thesis
    using Some by (auto simp: write_step_def)
qed

lemma write_loop_ok:
  "cvalid c \<Longrightarrow> startOfPartition c \<le> s \<Longrightarrow> s + n \<le> endOfPartition c \<Longrightarrow> src + n * sectorSize c \<le> length buf \<Longrightarrow> n \<le> fuel \<Longrightarrow>
   \<exists>ok c'. write_loop fuel ws c s n buf src = Some (ok, c') \<and> (ok \<longrightarrow> wrote c c' s n (chunk src (n * sectorSize c) buf))
     \<and> (live (disc c) \<longrightarrow> ok \<and> live (disc c'))"
proof (induction fuel arbitrary: c s n src)
  case 0
  then show ?case by (auto simp: wrote_def)
next
  case (Suc fuel)
  show ?case
  proof (cases "n = 0")
    case True
    then show ?thesis using Suc.prems(1) by (auto simp: wrote_def)
  next
    case False
    obtain R where R: "write_step ws c s n buf src = Some R" "case R of Inl c' \<Rightarrow> \<not> live (disc c)
     | Inr (k, c') \<Rightarrow> 0 < k \<and> k \<le> n \<and> wrote c c' s k (chunk src (k * sectorSize c) buf) \<and> (live (disc c) \<longrightarrow> live (disc c'))"
      using write_step_ok [OF Suc.prems(1,2,3) _ Suc.prems(4)] False by blast
    show ?thesis
    proof (cases R)
      case (Inl c')
      then show ?thesis using R False by auto
    next
      case (Inr x)
      then obtain k c1 where x: "R = Inr (k, c1)" by (metis surj_pair)
      let ?z = "sectorSize c"
      have k: "0 < k" "k \<le> n" "wrote c c1 s k (chunk src (k * ?z) buf)" "live (disc c) \<longrightarrow> live (disc c1)"
        using R(2) x by auto
      have geo: "startOfPartition c1 = startOfPartition c" "endOfPartition c1 = endOfPartition c" "sectorSize c1 = ?z"
        using k(3) by (auto simp: wrote_def same_geometry_def)
      have split: "n * ?z = k * ?z + (n - k) * ?z"
        using k(2) by (simp add: add_mult_distrib [symmetric])
      have "endOfPartition c < 2 ^ 32"
        using cvalidD(2) [OF Suc.prems(1)] by (auto simp: pages_ok_def geometry_ok_def)
      then have u: "u32 (s + k) = s + k" "u32 (n + 2 ^ 32 - k) = n - k"
        using k(2) Suc.prems(3) u32_sub [OF k(2)] by (auto intro!: u32_id)
      have "\<exists>ok c'. write_loop fuel ws c1 (s + k) (n - k) buf (src + k * ?z) = Some (ok, c')
         \<and> (ok \<longrightarrow> wrote c1 c' (s + k) (n - k) (chunk (src + k * ?z) ((n - k) * sectorSize c1) buf))
         \<and> (live (disc c1) \<longrightarrow> ok \<and> live (disc c'))"
        by (rule Suc.IH) (use Suc.prems k geo split in \<open>auto simp: wrote_def\<close>)
      then obtain ok c' where IH: "write_loop fuel ws c1 (s + k) (n - k) buf (src + k * ?z) = Some (ok, c')"
         "ok \<Longrightarrow> wrote c1 c' (s + k) (n - k) (chunk (src + k * ?z) ((n - k) * ?z) buf)"
         "live (disc c1) \<longrightarrow> ok \<and> live (disc c')"
        unfolding geo by blast
      have "wrote c c' s n (chunk src (n * ?z) buf)" if ok
      proof -
        have l: "length (chunk src (k * ?z) buf) = k * ?z"
          unfolding length_chunk using Suc.prems(4) split by linarith
        have join: "chunk src (k * ?z) buf @ chunk (src + k * ?z) ((n - k) * ?z) buf = chunk src (n * ?z) buf"
          unfolding split by (rule chunk_append)
        have "put_sectors ?z (put_sectors ?z (cview c) s k (chunk src (k * ?z) buf)) (s + k) (n - k) (chunk (src + k * ?z) ((n - k) * ?z) buf)
            = put_sectors ?z (cview c) s n (chunk src (n * ?z) buf)"
          using put_sectors_append [OF l, of "cview c" s "n - k"] k(2) join by simp
        then show ?thesis
          using IH(2) [OF that] k(3) geo(3) by (auto simp: wrote_def intro: same_geometry_trans)
      qed
      then show ?thesis
        using R(1) x False u IH k(4) by simp
    qed
  qed
qed

text \<open>Flushing.\<close>

lemma flush_loop_ok:
  "cvalid c \<Longrightarrow> i + n = length (cacheEntries c) \<Longrightarrow> (\<And>j. j < i \<Longrightarrow> \<not> ce_dirty (cacheEntries c ! j)) \<Longrightarrow>
   \<exists>ok c'. flush_loop ws i n c = Some (ok, c') \<and> (live (disc c) \<longrightarrow> ok \<and> live (disc c'))
     \<and> (ok \<longrightarrow> keeps c c' \<and> (\<forall>j < length (cacheEntries c'). \<not> ce_dirty (cacheEntries c' ! j)))"
proof (induction n arbitrary: c i)
  case 0
  then show ?case by (auto simp: keeps_def)
next
  case (Suc n)
  have i: "i < length (cacheEntries c)" using Suc.prems(2) by simp
  have clean: "\<not> ce_dirty (cacheEntries (set_clean c1 i) ! j)" if "cacheEntries c1 = cacheEntries c" "j < i + 1" for c1 :: "'d ncache" and j
    using that i Suc.prems(3) [of j] by (cases "j = i") (simp_all add: set_clean_def)
  have step: ?case if k: "keeps c (set_clean c1 i)" and es: "cacheEntries c1 = cacheEntries c"
      and lv: "live (disc c) \<longrightarrow> live (disc c1)"
      and eq: "flush_loop ws i (Suc n) c = flush_loop ws (i + 1) n (set_clean c1 i)" for c1
  proof -
    have "\<exists>ok c'. flush_loop ws (i + 1) n (set_clean c1 i) = Some (ok, c') \<and> (live (disc (set_clean c1 i)) \<longrightarrow> ok \<and> live (disc c'))
     \<and> (ok \<longrightarrow> keeps (set_clean c1 i) c' \<and> (\<forall>j < length (cacheEntries c'). \<not> ce_dirty (cacheEntries c' ! j)))"
      by (rule Suc.IH [OF keepsD(1) [OF k]]) (use Suc.prems(2) es clean in auto)
    then show ?thesis using eq lv keeps_trans [OF k] by auto
  qed
  show ?case
  proof (cases "ce_dirty (cacheEntries c ! i)")
    case False
    then have "(cacheEntries c ! i)\<lparr>ce_dirty := False\<rparr> = cacheEntries c ! i"
      by (cases "cacheEntries c ! i") simp
    then have "set_clean c i = c" by (simp add: set_clean_def)
    then show ?thesis
      using step [of c] Suc.prems(1) False by (simp add: keeps_def)
  next
    case True
    obtain ok c1 where w: "write_page ws c i = Some (ok, c1)"
      using write_page_ok(1) [OF Suc.prems(1) i True] by auto
    note wp = write_page_ok(2) [OF Suc.prems(1) i True w]
    show ?thesis
    proof (cases ok)
      case False
      then show ?thesis using w wp True by auto
    next
      case ok: True
      then show ?thesis using step [of c1] w wp True by simp
    qed
  qed
qed

end

end
