(* ===== verification/CachedDisc.thy ===== *)
theory CachedDisc
  imports NtfsCache
begin

text \<open>
  The cache as a disc of its own. The locale \<open>cached_disc\<close> shows that a cache over any disc that keeps
  the contract \<open>disc_interface\<close> keeps that contract again, with the partition as its sectors; it is used
  on the USB driver of \<open>ps3_io.c\<close>. The theory also holds the operations of \<open>cache2.c\<close> on parts of a sector,
  with the byte order functions of \<open>bit_ops.h\<close>, and what the cache does when the disc fails.
\<close>

section \<open>The contract of the cache\<close>

locale cached_disc = disc_interface

sublocale cached_disc \<subseteq> cache: disc_interface "NTFS_cache_readSectors rs ws" "NTFS_cache_writeSectors ws"
  sectorSize startOfPartition endOfPartition "cache_view sect" "cache_valid ssize lo hi sect valid" "\<lambda>c. live (disc c)"
proof
  fix c :: "'a ncache" and s n k and buf b :: bytes and r c'
  assume v: "cvalid c"
  note cv = cvalidD [OF v]
  show "0 < sectorSize c \<and> startOfPartition c \<le> endOfPartition c \<and> endOfPartition c < 2 ^ 32"
    using cv(2) by (auto simp: pages_ok_def geometry_ok_def)
  show "length (cview c k) = sectorSize c" if "startOfPartition c \<le> k" "k < endOfPartition c"
  proof (cases "\<exists>i < length (cacheEntries c). page_hit (cacheEntries c ! i) k")
    case True
    then obtain i where i: "i < length (cacheEntries c)" "page_hit (cacheEntries c ! i) k" by blast
    then show ?thesis
      using slice_chunk(2) [OF page_okD [OF cv(2) i(1)] i(2)] cv(6) by (simp add: cache_abs_def)
  next
    case False
    then have "cview c k = sect (disc c) k" using cv(6) by (auto simp: cache_abs_def)
    then show ?thesis using sect_length [OF cv(1), of k] cv(3-5) that by simp
  qed
  assume s: "startOfPartition c \<le> s" and e: "s + n \<le> endOfPartition c" and l: "length buf = n * sectorSize c"
  obtain ok1 b1 c1 where rd: "NTFS_cache_readSectors rs ws c s n buf = Some (ok1, b1, c1)" "length b1 = length buf"
     "ok1 \<longrightarrow> keeps c c1 \<and> b1 = blit buf 0 (sectors_of (cview c) s n) \<and> length (sectors_of (cview c) s n) = n * sectorSize c"
     "live (disc c) \<longrightarrow> ok1 \<and> live (disc c1)"
    using read_loop_ok [OF v s e, of 0 buf n] l s by (auto simp: NTFS_cache_readSectors_def)
  obtain ok2 c2 where wr: "NTFS_cache_writeSectors ws c s n buf = Some (ok2, c2)"
     "ok2 \<longrightarrow> wrote c c2 s n (chunk 0 (n * sectorSize c) buf)" "live (disc c) \<longrightarrow> ok2 \<and> live (disc c2)"
    using write_loop_ok [OF v s e, of 0 buf n] l s by (auto simp: NTFS_cache_writeSectors_def)
  show "NTFS_cache_readSectors rs ws c s n buf \<noteq> None" "NTFS_cache_writeSectors ws c s n buf \<noteq> None"
    using rd wr by simp_all
  show "length b = n * sectorSize c" if "NTFS_cache_readSectors rs ws c s n buf = Some (r, b, c')"
    using that rd l by simp
  show "b = sectors_of (cview c) s n \<and> cvalid c' \<and> cview c' = cview c \<and> sectorSize c' = sectorSize c
      \<and> startOfPartition c' = startOfPartition c \<and> endOfPartition c' = endOfPartition c"
    if "NTFS_cache_readSectors rs ws c s n buf = Some (True, b, c')"
    using that rd l by (auto simp: keeps_def same_geometry_def blit_def)
  show "cvalid c' \<and> cview c' = put_sectors (sectorSize c) (cview c) s n buf \<and> sectorSize c' = sectorSize c
      \<and> startOfPartition c' = startOfPartition c \<and> endOfPartition c' = endOfPartition c"
    if "NTFS_cache_writeSectors ws c s n buf = Some (True, c')"
    using that wr l by (auto simp: wrote_def same_geometry_def chunk_full)
  show "r \<and> live (disc c')" if "live (disc c)" "NTFS_cache_readSectors rs ws c s n buf = Some (r, b, c')"
    using that rd by simp
  show "r \<and> live (disc c')" if "live (disc c)" "NTFS_cache_writeSectors ws c s n buf = Some (r, c')"
    using that wr by simp
qed

context cached_disc
begin

text \<open>A flush that succeeds leaves the disc with what the cache stands for, outside the partition too.\<close>

lemma flush_disc:
  assumes v: "cache_valid ssize lo hi sect valid c" and f: "NTFS_cache_flush ws c = Some (True, c')"
  shows "sect (disc c') = cview c" "cview c' = cview c" "cvalid c'" "\<forall>e \<in> set (cacheEntries c'). \<not> ce_dirty e"
proof -
  obtain ok c1 where fl: "NTFS_cache_flush ws c = Some (ok, c1)"
     "ok \<longrightarrow> keeps c c1 \<and> (\<forall>j < length (cacheEntries c1). \<not> ce_dirty (cacheEntries c1 ! j))"
    using flush_loop_ok [OF v, of 0 "length (cacheEntries c)"] unfolding NTFS_cache_flush_def by auto
  then have k: "keeps c c'" and clean: "\<forall>j < length (cacheEntries c'). \<not> ce_dirty (cacheEntries c' ! j)"
    using f by auto
  then show "cview c' = cview c" "cvalid c'" "\<forall>e \<in> set (cacheEntries c'). \<not> ce_dirty e"
    by (auto simp: keeps_def in_set_conv_nth)
  note cv = cvalidD [OF keepsD(1) [OF k]]
  have "sect (disc c') k' = cview c' k'" for k'
  proof (cases "\<exists>i < length (cacheEntries c'). page_hit (cacheEntries c' ! i) k'")
    case True
    then obtain i where i: "i < length (cacheEntries c')" "page_hit (cacheEntries c' ! i) k'" by blast
    note e = page_okD [OF cv(2) i(1)]
    then show ?thesis
      using page_hit_iff [OF e, of k'] i clean cv(6) by (simp add: page_ok_def cache_abs_def)
  next
    case False
    then show ?thesis using cv(6) by (simp add: cache_abs_def)
  qed
  then show "sect (disc c') = cview c" using keepsD(2) [OF k] by auto
qed

lemma flush_live:
  assumes v: "cache_valid ssize lo hi sect valid c" and "live (disc c)"
  shows "\<exists>c'. NTFS_cache_flush ws c = Some (True, c') \<and> live (disc c')"
  using flush_loop_ok [OF v, of 0 "length (cacheEntries c)"] assms(2) unfolding NTFS_cache_flush_def by auto

text \<open>A new cache stands for the disc.\<close>

lemma constructor_valid:
  assumes "valid d" "lo d \<le> start" "endp \<le> hi d" "start \<le> endp" "NTFS_cache_constructor pages spp d start endp (ssize d) mem acc = Some c"
    "\<And>i. length (mem i) = sectorsPerPage c * ssize d" "endp + sectorsPerPage c < 2 ^ 32"
  shows "cvalid c" "cview c = sect d"
proof -
  have c: "sectorsPerPage c > 0" "disc c = d" "startOfPartition c = start" "endOfPartition c = endp" "sectorSize c = ssize d"
      "cacheEntries c \<noteq> []" "\<And>i. i < length (cacheEntries c) \<Longrightarrow> cacheEntries c ! i = \<lparr>ce_sector = CACHE_FREE, ce_count = 0,
          ce_last_access = 0, ce_dirty = False, ce_cache = mem i\<rparr>"
    using assms(5) by (auto simp: NTFS_cache_constructor_def Let_def split: if_splits)
  have hit: "\<not> page_hit (cacheEntries c ! i) k" if "i < length (cacheEntries c)" for i k
    by (simp add: c(7) [OF that] page_hit_def CACHE_FREE_def u32_def)
  have ok: "pages_ok (sect d) c"
    using c assms geometry [OF assms(1)] unfolding pages_ok_def geometry_ok_def
    by (auto simp: page_ok_def loaded_def)
  then show "cvalid c" using assms c by (simp add: cache_valid_def)
  show "cview c = sect d"
    by (rule cache_viewI) (use ok hit c in \<open>auto simp: cache_abs_def\<close>)
qed

end

interpretation ps3_cache: cached_disc "PS3_NTFS_ReadSectors unaligned fd" "PS3_NTFS_WriteSectors unaligned fd"
  "\<lambda>p. dev_sectsize p ! fd" "\<lambda>p. 0" "\<lambda>p. medium_end (ops p) (dev_fd p ! fd)" "ps3_sect fd" "ps3_valid fd" "ps3_live fd"
  for unaligned fd
  by unfold_locales


section \<open>Parts of a sector\<close>

text \<open>\<open>bit_ops.h\<close>.\<close>

definition u8array_to_u16 :: "bytes \<Rightarrow> nat \<Rightarrow> 16 word" where
  "u8array_to_u16 item offset = or (ucast (item ! offset)) (push_bit 8 (ucast (item ! (offset + 1))))"

definition u8array_to_u32 :: "bytes \<Rightarrow> nat \<Rightarrow> 32 word" where
  "u8array_to_u32 item offset = or (or (or (ucast (item ! offset)) (push_bit 8 (ucast (item ! (offset + 1)))))
     (push_bit 16 (ucast (item ! (offset + 2))))) (push_bit 24 (ucast (item ! (offset + 3))))"

definition u16_to_u8array :: "bytes \<Rightarrow> nat \<Rightarrow> 16 word \<Rightarrow> bytes" where
  "u16_to_u8array item offset value = item [offset := ucast value, offset + 1 := ucast (drop_bit 8 value)]"

definition u32_to_u8array :: "bytes \<Rightarrow> nat \<Rightarrow> 32 word \<Rightarrow> bytes" where
  "u32_to_u8array item offset value = item [offset := ucast value, offset + 1 := ucast (drop_bit 8 value),
     offset + 2 := ucast (drop_bit 16 value), offset + 3 := ucast (drop_bit 24 value)]"

text \<open>\<open>offset + size\<close> is a \<open>size_t\<close>.\<close>

definition NTFS_cache_readPartialSector :: "('d \<Rightarrow> nat \<Rightarrow> nat \<Rightarrow> bytes \<Rightarrow> (bool \<times> bytes \<times> 'd) option)
    \<Rightarrow> ('d \<Rightarrow> nat \<Rightarrow> nat \<Rightarrow> bytes \<Rightarrow> (bool \<times> 'd) option) \<Rightarrow> 'd ncache \<Rightarrow> bytes \<Rightarrow> nat \<Rightarrow> nat \<Rightarrow> nat
    \<Rightarrow> (bool \<times> bytes \<times> 'd ncache) option" where
  "NTFS_cache_readPartialSector rs ws c buffer sector offset n =
     (if sector < startOfPartition c then Some (False, buffer, c)
      else if u64 (offset + n) > sectorSize c then Some (False, buffer, c)
      else (case NTFS_cache_getPage rs ws c sector of None \<Rightarrow> None
         | Some (None, c') \<Rightarrow> Some (False, buffer, c')
         | Some (Some i, c') \<Rightarrow>
             (let e = cacheEntries c' ! i; sec = u32 (sector + 2 ^ 32 - ce_sector e)
              in case mem_get (ce_cache e) (sec * sectorSize c + offset) n of None \<Rightarrow> None
               | Some xs \<Rightarrow> map_option (\<lambda>b. (True, b, c')) (mem_put buffer 0 xs))))"

definition NTFS_cache_readLittleEndianValue :: "('d \<Rightarrow> nat \<Rightarrow> nat \<Rightarrow> bytes \<Rightarrow> (bool \<times> bytes \<times> 'd) option)
    \<Rightarrow> ('d \<Rightarrow> nat \<Rightarrow> nat \<Rightarrow> bytes \<Rightarrow> (bool \<times> 'd) option) \<Rightarrow> 'd ncache \<Rightarrow> bytes \<Rightarrow> 32 word \<Rightarrow> nat \<Rightarrow> nat \<Rightarrow> nat
    \<Rightarrow> (bool \<times> 32 word \<times> 'd ncache) option" where
  "NTFS_cache_readLittleEndianValue rs ws c buf0 v0 sector offset num_bytes =
     (case NTFS_cache_readPartialSector rs ws c buf0 sector offset num_bytes of None \<Rightarrow> None
      | Some (False, buf, c') \<Rightarrow> Some (False, v0, c')
      | Some (True, buf, c') \<Rightarrow>
          Some (if num_bytes = 1 then (True, ucast (buf ! 0), c')
                else if num_bytes = 2 then (True, ucast (u8array_to_u16 buf 0), c')
                else if num_bytes = 4 then (True, u8array_to_u32 buf 0, c')
                else (False, v0, c')))"

definition NTFS_cache_writePartialSector :: "('d \<Rightarrow> nat \<Rightarrow> nat \<Rightarrow> bytes \<Rightarrow> (bool \<times> bytes \<times> 'd) option)
    \<Rightarrow> ('d \<Rightarrow> nat \<Rightarrow> nat \<Rightarrow> bytes \<Rightarrow> (bool \<times> 'd) option) \<Rightarrow> 'd ncache \<Rightarrow> bytes \<Rightarrow> nat \<Rightarrow> nat \<Rightarrow> nat
    \<Rightarrow> (bool \<times> 'd ncache) option" where
  "NTFS_cache_writePartialSector rs ws c buffer sector offset n =
     (if sector < startOfPartition c then Some (False, c)
      else if u64 (offset + n) > sectorSize c then Some (False, c)
      else (case NTFS_cache_getPage rs ws c sector of None \<Rightarrow> None
         | Some (None, c') \<Rightarrow> Some (False, c')
         | Some (Some i, c') \<Rightarrow>
             (let e = cacheEntries c' ! i; sec = u32 (sector + 2 ^ 32 - ce_sector e)
              in case mem_get buffer 0 n of None \<Rightarrow> None
               | Some xs \<Rightarrow> (case mem_put (ce_cache e) (sec * sectorSize c + offset) xs of None \<Rightarrow> None
                   | Some pg \<Rightarrow> Some (True, c' \<lparr>cacheEntries := (cacheEntries c') [i := e \<lparr>ce_cache := pg, ce_dirty := True\<rparr>]\<rparr>)))))"

definition NTFS_cache_writeLittleEndianValue :: "('d \<Rightarrow> nat \<Rightarrow> nat \<Rightarrow> bytes \<Rightarrow> (bool \<times> bytes \<times> 'd) option)
    \<Rightarrow> ('d \<Rightarrow> nat \<Rightarrow> nat \<Rightarrow> bytes \<Rightarrow> (bool \<times> 'd) option) \<Rightarrow> 'd ncache \<Rightarrow> 32 word \<Rightarrow> nat \<Rightarrow> nat \<Rightarrow> nat
    \<Rightarrow> (bool \<times> 'd ncache) option" where
  "NTFS_cache_writeLittleEndianValue rs ws c value sector offset n =
     (let buf = replicate 4 0
      in if n = 1 then NTFS_cache_writePartialSector rs ws c (buf [0 := ucast value]) sector offset n
         else if n = 2 then NTFS_cache_writePartialSector rs ws c (u16_to_u8array buf 0 (ucast value)) sector offset n
         else if n = 4 then NTFS_cache_writePartialSector rs ws c (u32_to_u8array buf 0 value) sector offset n
         else Some (False, c))"

definition NTFS_cache_eraseWritePartialSector :: "('d \<Rightarrow> nat \<Rightarrow> nat \<Rightarrow> bytes \<Rightarrow> (bool \<times> bytes \<times> 'd) option)
    \<Rightarrow> ('d \<Rightarrow> nat \<Rightarrow> nat \<Rightarrow> bytes \<Rightarrow> (bool \<times> 'd) option) \<Rightarrow> 'd ncache \<Rightarrow> bytes \<Rightarrow> nat \<Rightarrow> nat \<Rightarrow> nat
    \<Rightarrow> (bool \<times> 'd ncache) option" where
  "NTFS_cache_eraseWritePartialSector rs ws c buffer sector offset n =
     (if sector < startOfPartition c then Some (False, c)
      else if u64 (offset + n) > sectorSize c then Some (False, c)
      else (case NTFS_cache_getPage rs ws c sector of None \<Rightarrow> None
         | Some (None, c') \<Rightarrow> Some (False, c')
         | Some (Some i, c') \<Rightarrow>
             (let e = cacheEntries c' ! i; sec = u32 (sector + 2 ^ 32 - ce_sector e)
              in case (mem_get buffer 0 n, mem_put (ce_cache e) (sec * sectorSize c) (replicate (sectorSize c) 0)) of
                 (Some xs, Some zeroed) \<Rightarrow> (case mem_put zeroed (sec * sectorSize c + offset) xs of None \<Rightarrow> None
                   | Some pg \<Rightarrow> Some (True, c' \<lparr>cacheEntries := (cacheEntries c') [i := e \<lparr>ce_cache := pg, ce_dirty := True\<rparr>]\<rparr>))
               | _ \<Rightarrow> None)))"

subsection \<open>Byte order\<close>

lemma u8array_u16_roundtrip:
  "offset + 1 < length item \<Longrightarrow> u8array_to_u16 (u16_to_u8array item offset v) offset = v"
  unfolding u8array_to_u16_def u16_to_u8array_def
  by (rule bit_word_eqI) (auto simp: bit_simps)

lemma u8array_u32_roundtrip:
  "offset + 3 < length item \<Longrightarrow> u8array_to_u32 (u32_to_u8array item offset v) offset = v"
  unfolding u8array_to_u32_def u32_to_u8array_def
proof (rule bit_word_eqI)
  fix n
  assume "offset + 3 < length item" "n < LENGTH(32)"
  then show "bit (or (or (or (ucast (item[offset := ucast v, offset + 1 := ucast (drop_bit 8 v), offset + 2 := ucast (drop_bit 16 v),
        offset + 3 := ucast (drop_bit 24 v)] ! offset) :: 32 word) (push_bit 8 (ucast (item[offset := ucast v,
        offset + 1 := ucast (drop_bit 8 v), offset + 2 := ucast (drop_bit 16 v), offset + 3 := ucast (drop_bit 24 v)] ! (offset + 1)))))
      (push_bit 16 (ucast (item[offset := ucast v, offset + 1 := ucast (drop_bit 8 v), offset + 2 := ucast (drop_bit 16 v),
        offset + 3 := ucast (drop_bit 24 v)] ! (offset + 2))))) (push_bit 24 (ucast (item[offset := ucast v,
        offset + 1 := ucast (drop_bit 8 v), offset + 2 := ucast (drop_bit 16 v), offset + 3 := ucast (drop_bit 24 v)] ! (offset + 3))))) n
      = bit v n"
    by (cases "n < 8"; cases "n < 16"; cases "n < 24") (auto simp: bit_simps)
qed

lemma u8array_chunk:
  "n \<le> length b \<Longrightarrow> i < n \<Longrightarrow> chunk 0 n b ! i = b ! i"
  by (simp add: chunk_def)

subsection \<open>Blits inside a sector\<close>

lemma blit_inner:
  assumes "i + z \<le> length b" "j + length xs \<le> z"
  shows "blit b (i + j) xs = blit b i (blit (chunk i z b) j xs)"
  using assms by (intro nth_equalityI) (auto simp: nth_blit nth_chunk)

lemma blit_blit_inner:
  assumes "i + length ys \<le> length b" "j + length xs \<le> length ys"
  shows "blit (blit b i ys) (i + j) xs = blit b i (blit ys j xs)"
  using assms by (intro nth_equalityI) (auto simp: nth_blit)


context cached_disc
begin

lemma rs_ws_partial:
  assumes v: "cvalid c" and s: "startOfPartition c \<le> s" "s < endOfPartition c"
  obtains r c' where "NTFS_cache_getPage rs ws c s = Some (r, c')" "live (disc c) \<Longrightarrow> r \<noteq> None \<and> live (disc c')"
    "\<And>i. r = Some i \<Longrightarrow> keeps c c' \<and> i < length (cacheEntries c') \<and> page_hit (cacheEntries c' ! i) s
       \<and> u32 (s + 2 ^ 32 - ce_sector (cacheEntries c' ! i)) = s - ce_sector (cacheEntries c' ! i)
       \<and> (s - ce_sector (cacheEntries c' ! i)) * sectorSize c + sectorSize c \<le> length (ce_cache (cacheEntries c' ! i))
       \<and> chunk ((s - ce_sector (cacheEntries c' ! i)) * sectorSize c) (sectorSize c) (ce_cache (cacheEntries c' ! i)) = cview c s"
proof -
  obtain r c' where g: "NTFS_cache_getPage rs ws c s = Some (r, c')" "live (disc c) \<longrightarrow> r \<noteq> None \<and> live (disc c')"
      "\<And>i. r = Some i \<Longrightarrow> keeps c c' \<and> i < length (cacheEntries c') \<and> page_hit (cacheEntries c' ! i) s"
    using getPage_ok [OF v s] unfolding page_result_def by auto
  show ?thesis
  proof (rule that [OF g(1)])
    fix i assume ri: "r = Some i"
    let ?e = "cacheEntries c' ! i" and ?z = "sectorSize c"
    note k = g(3) [OF ri]
    note cv = cvalidD [OF keepsD(1) [OF conjunct1 [OF k]]]
    have i: "i < length (cacheEntries c')" using k by simp
    note e = page_okD [OF cv(2) i]
    have geo: "sectorSize c' = ?z" using k by (auto simp: keeps_def same_geometry_def)
    have h: "loaded ?e" "ce_sector ?e \<le> s" "s < ce_sector ?e + ce_count ?e"
      using k page_hit_iff [OF e] by auto
    have r: "ce_sector ?e + ce_count ?e < 2 ^ 32" "length (ce_cache ?e) = sectorsPerPage c' * ?z" "ce_count ?e \<le> sectorsPerPage c'"
      using e h(1) geo by (auto simp: page_ok_def geometry_ok_def)
    have u: "u32 (s + 2 ^ 32 - ce_sector ?e) = s - ce_sector ?e"
      by (rule u32_sub) (use h r in linarith)+
    have "s - ce_sector ?e < sectorsPerPage c'" using h r by linarith
    then have "(s - ce_sector ?e) * ?z + ?z \<le> length (ce_cache ?e)"
      unfolding r(2) by (metis add.commute mult_Suc mult_le_mono1 Suc_leI)
    moreover have "cview c' s = slice (sectorSize c') ?e s"
      using cv(6) k by (simp add: cache_abs_def)
    then have "chunk ((s - ce_sector ?e) * ?z) ?z (ce_cache ?e) = cview c s"
      using k geo by (simp add: keeps_def slice_def)
    ultimately show "keeps c c' \<and> i < length (cacheEntries c') \<and> page_hit ?e s \<and> u32 (s + 2 ^ 32 - ce_sector ?e) = s - ce_sector ?e
       \<and> (s - ce_sector ?e) * ?z + ?z \<le> length (ce_cache ?e) \<and> chunk ((s - ce_sector ?e) * ?z) ?z (ce_cache ?e) = cview c s"
      using k u by blast
  qed (use g(2) in blast)
qed

lemma readPartial_ok:
  assumes v: "cvalid c" and s: "startOfPartition c \<le> s" "s < endOfPartition c" and n: "offset + n \<le> sectorSize c"
    "sectorSize c < 2 ^ 64" "n \<le> length buf"
  shows "\<exists>ok b c'. NTFS_cache_readPartialSector rs ws c buf s offset n = Some (ok, b, c')
    \<and> (live (disc c) \<longrightarrow> ok \<and> live (disc c')) \<and> (ok \<longrightarrow> keeps c c' \<and> b = blit buf 0 (chunk offset n (cview c s)))"
proof -
  obtain r c' where g: "NTFS_cache_getPage rs ws c s = Some (r, c')" "live (disc c) \<Longrightarrow> r \<noteq> None \<and> live (disc c')"
    "\<And>i. r = Some i \<Longrightarrow> keeps c c' \<and> i < length (cacheEntries c') \<and> page_hit (cacheEntries c' ! i) s
       \<and> u32 (s + 2 ^ 32 - ce_sector (cacheEntries c' ! i)) = s - ce_sector (cacheEntries c' ! i)
       \<and> (s - ce_sector (cacheEntries c' ! i)) * sectorSize c + sectorSize c \<le> length (ce_cache (cacheEntries c' ! i))
       \<and> chunk ((s - ce_sector (cacheEntries c' ! i)) * sectorSize c) (sectorSize c) (ce_cache (cacheEntries c' ! i)) = cview c s"
    using rs_ws_partial [OF v s] by blast
  have c: "(sector < startOfPartition c) = False" "(u64 (offset + n) > sectorSize c) = False" if "sector = s" for sector
    using s n that by auto
  show ?thesis
  proof (cases r)
    case None
    then show ?thesis using g c by (auto simp: NTFS_cache_readPartialSector_def)
  next
    case (Some i)
    let ?e = "cacheEntries c' ! i" and ?z = "sectorSize c"
    note k = g(3) [OF Some]
    have l: "length (cview c s) = ?z"
      using cache.sect_length [OF v s] .
    have get: "mem_get (ce_cache ?e) ((s - ce_sector ?e) * ?z + offset) n = Some (chunk ((s - ce_sector ?e) * ?z + offset) n (ce_cache ?e))"
      by (rule mem_get_SomeI) (use k n in linarith)
    moreover have "chunk ((s - ce_sector ?e) * ?z + offset) n (ce_cache ?e) = chunk offset n (cview c s)"
      using k chunk_chunk [OF n(1), of "(s - ce_sector ?e) * ?z" "ce_cache ?e"] by simp
    ultimately have "mem_get (ce_cache ?e) (u32 (s + 2 ^ 32 - ce_sector ?e) * ?z + offset) n = Some (chunk offset n (cview c s))"
      using k by simp
    moreover have "mem_put buf 0 (chunk offset n (cview c s)) = Some (blit buf 0 (chunk offset n (cview c s)))"
      by (rule mem_put_SomeI) (use n(3) in \<open>simp add: min_def\<close>)
    ultimately have "NTFS_cache_readPartialSector rs ws c buf s offset n = Some (True, blit buf 0 (chunk offset n (cview c s)), c')"
      unfolding NTFS_cache_readPartialSector_def Let_def g(1) Some using c by simp
    then show ?thesis using k g(2) by auto
  qed
qed

text \<open>Storing a whole sector into the page that holds it.\<close>

lemma store_sector:
  assumes v: "cvalid c" and i: "i < length (cacheEntries c)" "page_hit (cacheEntries c ! i) s" and b: "length b = sectorSize c"
  shows "wrote c (c \<lparr>cacheEntries := (cacheEntries c) [i := (cacheEntries c ! i)
      \<lparr>ce_cache := blit (ce_cache (cacheEntries c ! i)) ((s - ce_sector (cacheEntries c ! i)) * sectorSize c) b, ce_dirty := True\<rparr>]\<rparr>) s 1 b"
    (is "wrote c ?c s 1 b")
proof -
  note cv = cvalidD [OF v]
  note e = page_okD [OF cv(2) i(1)]
  have h: "s + 1 \<le> ce_sector (cacheEntries c ! i) + ce_count (cacheEntries c ! i)"
    using i(2) page_hit_iff [OF e] by auto
  have sg: "same_geometry c ?c" "cacheEntries ?c = (cacheEntries c) [i := (cacheEntries c ! i)
      \<lparr>ce_cache := blit (ce_cache (cacheEntries c ! i)) ((s - ce_sector (cacheEntries c ! i)) * sectorSize c) b, ce_dirty := True\<rparr>]"
    by (simp_all add: same_geometry_def)
  note sp = store_page [OF cv(2) i(1) cv(6) i(2) h _ _ _ _ _ sg, of b]
  show ?thesis
    by (rule wroteI [OF v sg(1)]) (use sp b cv(1) in simp_all)
qed

lemma put_sector_1: "length b = z \<Longrightarrow> put_sectors z g s 1 b = g (s := b)"
  by (rule ext) (auto simp: put_sectors_def chunk_full)

lemma writePartial_ok:
  assumes v: "cvalid c" and s: "startOfPartition c \<le> s" "s < endOfPartition c" and n: "offset + n \<le> sectorSize c"
    "sectorSize c < 2 ^ 64" "n \<le> length buf"
  shows "\<exists>ok c'. NTFS_cache_writePartialSector rs ws c buf s offset n = Some (ok, c')
    \<and> (live (disc c) \<longrightarrow> ok \<and> live (disc c'))
    \<and> (ok \<longrightarrow> cvalid c' \<and> same_geometry c c' \<and> cview c' = (cview c) (s := blit (cview c s) offset (take n buf)))"
proof -
  obtain r c' where g: "NTFS_cache_getPage rs ws c s = Some (r, c')" "live (disc c) \<Longrightarrow> r \<noteq> None \<and> live (disc c')"
    "\<And>i. r = Some i \<Longrightarrow> keeps c c' \<and> i < length (cacheEntries c') \<and> page_hit (cacheEntries c' ! i) s
       \<and> u32 (s + 2 ^ 32 - ce_sector (cacheEntries c' ! i)) = s - ce_sector (cacheEntries c' ! i)
       \<and> (s - ce_sector (cacheEntries c' ! i)) * sectorSize c + sectorSize c \<le> length (ce_cache (cacheEntries c' ! i))
       \<and> chunk ((s - ce_sector (cacheEntries c' ! i)) * sectorSize c) (sectorSize c) (ce_cache (cacheEntries c' ! i)) = cview c s"
    using rs_ws_partial [OF v s] by blast
  have c: "(sector < startOfPartition c) = False" "(u64 (offset + n) > sectorSize c) = False" if "sector = s" for sector
    using s n that by auto
  show ?thesis
  proof (cases r)
    case None
    then show ?thesis using g c by (auto simp: NTFS_cache_writePartialSector_def)
  next
    case (Some i)
    let ?e = "cacheEntries c' ! i" and ?z = "sectorSize c"
    note k = g(3) [OF Some]
    have geo: "sectorSize c' = ?z" using k by (auto simp: keeps_def same_geometry_def)
    have l: "length (cview c s) = ?z" using cache.sect_length [OF v s] .
    let ?xs = "take n buf"
    have get: "mem_get buf 0 n = Some ?xs" using n(3) by (simp add: mem_get_def chunk_def)
    have lx: "length ?xs = n" using n(3) by simp
    let ?b = "blit (cview c s) offset ?xs"
    have lb: "length ?b = ?z" using l lx n(1) by simp
    have put: "mem_put (ce_cache ?e) ((s - ce_sector ?e) * ?z + offset) ?xs = Some (blit (ce_cache ?e) ((s - ce_sector ?e) * ?z) ?b)"
    proof -
      have "mem_put (ce_cache ?e) ((s - ce_sector ?e) * ?z + offset) ?xs = Some (blit (ce_cache ?e) ((s - ce_sector ?e) * ?z + offset) ?xs)"
        by (rule mem_put_SomeI) (use k n lx in linarith)
      also have "blit (ce_cache ?e) ((s - ce_sector ?e) * ?z + offset) ?xs = blit (ce_cache ?e) ((s - ce_sector ?e) * ?z) ?b"
        using blit_inner [of "(s - ce_sector ?e) * ?z" ?z "ce_cache ?e" offset ?xs] k lx n(1) by simp
      finally show ?thesis .
    qed
    have "wrote c' (c' \<lparr>cacheEntries := (cacheEntries c') [i := ?e
      \<lparr>ce_cache := blit (ce_cache ?e) ((s - ce_sector ?e) * ?z) ?b, ce_dirty := True\<rparr>]\<rparr>) s 1 ?b"
      using store_sector [OF keepsD(1), of c c' i s ?b] k lb geo by simp
    moreover have "NTFS_cache_writePartialSector rs ws c buf s offset n = Some (True, c' \<lparr>cacheEntries := (cacheEntries c') [i := ?e
      \<lparr>ce_cache := blit (ce_cache ?e) ((s - ce_sector ?e) * ?z) ?b, ce_dirty := True\<rparr>]\<rparr>)"
      unfolding NTFS_cache_writePartialSector_def Let_def g(1) Some using c get put k by simp
    ultimately show ?thesis
      using k g(2) put_sector_1 [OF lb] geo Some
      by (auto simp: wrote_def keeps_def intro: same_geometry_trans)
  qed
qed

lemma writePartial_readPartial:
  assumes v: "cvalid c" "live (disc c)" and s: "startOfPartition c \<le> s" "s < endOfPartition c" and n: "offset + n \<le> sectorSize c"
    "sectorSize c < 2 ^ 64" "n \<le> length buf" "n \<le> length buf'"
  shows "\<exists>c1 c2. NTFS_cache_writePartialSector rs ws c buf s offset n = Some (True, c1)
     \<and> NTFS_cache_readPartialSector rs ws c1 buf' s offset n = Some (True, blit buf' 0 (take n buf), c2)"
proof -
  obtain c1 where w: "NTFS_cache_writePartialSector rs ws c buf s offset n = Some (True, c1)" "live (disc c1)" "cvalid c1"
     "same_geometry c c1" "cview c1 = (cview c) (s := blit (cview c s) offset (take n buf))"
    using writePartial_ok [OF v(1) s n(1-3)] v(2) by auto
  have geo: "startOfPartition c1 \<le> s" "s < endOfPartition c1" "offset + n \<le> sectorSize c1" "sectorSize c1 < 2 ^ 64"
    using w(4) s n by (auto simp: same_geometry_def)
  have l: "length (cview c s) = sectorSize c" using cache.sect_length [OF v(1) s] .
  have "chunk offset n (cview c1 s) = take n buf"
    using chunk_blit_same [of offset "take n buf" "cview c s"] n l w(5) by simp
  then show ?thesis
    using readPartial_ok [OF w(3) geo n(4)] w(1,2) by auto
qed

end


section \<open>A cache in memory\<close>

text \<open>A cache of four pages over the device in memory of \<open>SectorDev\<close>.\<close>

definition ram_cache :: "(int \<Rightarrow> nat \<Rightarrow> bytes) ps3 ncache" where
  "ram_cache = the (NTFS_cache_constructor 1 8 ram_dev 2 60 1 (\<lambda>i. replicate 32 0) 0)"

abbreviation ps3_cache_valid :: "nat \<Rightarrow> 'k ps3 ncache \<Rightarrow> bool" where
  "ps3_cache_valid fd \<equiv> cache_valid (\<lambda>p. dev_sectsize p ! fd) (\<lambda>p. 0) (\<lambda>p. medium_end (ops p) (dev_fd p ! fd)) (ps3_sect fd) (ps3_valid fd)"

lemma ram_cache_ok: "ps3_cache_valid 0 ram_cache" "ps3_live 0 (disc ram_cache)" "startOfPartition ram_cache = 2"
  "endOfPartition ram_cache = 60" "sectorSize ram_cache = 1"
proof -
  have c: "NTFS_cache_constructor 1 8 ram_dev 2 60 (dev_sectsize ram_dev ! 0) (\<lambda>i. replicate 32 0) 0 = Some ram_cache"
    by (simp add: ram_cache_def NTFS_cache_constructor_def Let_def ram_dev_geometry)
  have s: "sectorsPerPage ram_cache = 32" "disc ram_cache = ram_dev" "startOfPartition ram_cache = 2"
      "endOfPartition ram_cache = 60" "sectorSize ram_cache = 1"
    by (simp_all add: ram_cache_def NTFS_cache_constructor_def)
  show "ps3_cache_valid 0 ram_cache"
    by (rule ps3_cache.constructor_valid(1) [OF ram_dev_ok(1) _ _ _ c]) (simp_all add: s ram_dev_geometry)
  show "ps3_live 0 (disc ram_cache)" "startOfPartition ram_cache = 2" "endOfPartition ram_cache = 60" "sectorSize ram_cache = 1"
    using s ram_dev_ok by simp_all
qed

section \<open>Properties\<close>

text \<open>
  C7. The cache keeps its invariant and is a disc of its own: a read that succeeds returns the sectors the
  cache stands for and changes none, a write that succeeds overwrites exactly its sectors, and both
  return, whatever the device does.
\<close>

theorem cache_is_a_disc:
  assumes "ps3_cache_valid fd c" "startOfPartition c \<le> s" "s + n \<le> endOfPartition c" "length buf = n * sectorSize c"
  shows "\<exists>r b c1 w c2. NTFS_cache_readSectors (PS3_NTFS_ReadSectors un fd) (PS3_NTFS_WriteSectors un fd) c s n buf = Some (r, b, c1)
     \<and> (r \<longrightarrow> b = sectors_of (cache_view (ps3_sect fd) c) s n \<and> ps3_cache_valid fd c1
           \<and> cache_view (ps3_sect fd) c1 = cache_view (ps3_sect fd) c)
     \<and> NTFS_cache_writeSectors (PS3_NTFS_WriteSectors un fd) c s n buf = Some (w, c2)
     \<and> (w \<longrightarrow> ps3_cache_valid fd c2
           \<and> cache_view (ps3_sect fd) c2 = put_sectors (sectorSize c) (cache_view (ps3_sect fd) c) s n buf)"
proof -
  note h = assms
  obtain r b c1 w c2 where rd: "NTFS_cache_readSectors (PS3_NTFS_ReadSectors un fd) (PS3_NTFS_WriteSectors un fd) c s n buf = Some (r, b, c1)"
    and wr: "NTFS_cache_writeSectors (PS3_NTFS_WriteSectors un fd) c s n buf = Some (w, c2)"
    using ps3_cache.cache.rs_returns [where unaligned = un, OF h] ps3_cache.cache.ws_returns [where unaligned = un, OF h] by auto
  then show ?thesis
    using ps3_cache.cache.rs_ok [where unaligned = un, OF h, of b c1] ps3_cache.cache.ws_ok [where unaligned = un, OF h, of c2] by auto
qed

theorem cache_is_a_disc_witness:
  "\<exists>r b c1 w c2. NTFS_cache_readSectors (PS3_NTFS_ReadSectors True 0) (PS3_NTFS_WriteSectors True 0) ram_cache 30 8 (replicate 8 0) = Some (r, b, c1)
     \<and> (r \<longrightarrow> b = sectors_of (cache_view (ps3_sect 0) ram_cache) 30 8 \<and> ps3_cache_valid 0 c1
           \<and> cache_view (ps3_sect 0) c1 = cache_view (ps3_sect 0) ram_cache)
     \<and> NTFS_cache_writeSectors (PS3_NTFS_WriteSectors True 0) ram_cache 30 8 (replicate 8 0) = Some (w, c2)
     \<and> (w \<longrightarrow> ps3_cache_valid 0 c2
           \<and> cache_view (ps3_sect 0) c2 = put_sectors (sectorSize ram_cache) (cache_view (ps3_sect 0) ram_cache) 30 8 (replicate 8 0))"
  by (rule cache_is_a_disc) (simp_all add: ram_cache_ok)

text \<open>
  C8. After a flush that succeeds every page is clean and the medium holds exactly what the cache stood
  for, and on a device that works the flush succeeds.
\<close>

theorem cache_flush_writes_back:
  assumes "ps3_cache_valid fd c" "ps3_live fd (disc c)"
  shows "\<exists>c'. NTFS_cache_flush (PS3_NTFS_WriteSectors un fd) c = Some (True, c')
     \<and> ps3_sect fd (disc c') = cache_view (ps3_sect fd) c
     \<and> cache_view (ps3_sect fd) c' = cache_view (ps3_sect fd) c \<and> ps3_cache_valid fd c'
     \<and> list_all (\<lambda>e. \<not> ce_dirty e) (cacheEntries c')"
proof -
  obtain c' where f: "NTFS_cache_flush (PS3_NTFS_WriteSectors un fd) c = Some (True, c')"
    using ps3_cache.flush_live [OF assms] by blast
  then show ?thesis
    using ps3_cache.flush_disc [OF assms(1) f] by (simp add: list_all_iff)
qed

theorem cache_flush_writes_back_witness:
  "\<exists>c'. NTFS_cache_flush (PS3_NTFS_WriteSectors False 0) ram_cache = Some (True, c')
     \<and> ps3_sect 0 (disc c') = cache_view (ps3_sect 0) ram_cache
     \<and> cache_view (ps3_sect 0) c' = cache_view (ps3_sect 0) ram_cache \<and> ps3_cache_valid 0 c'
     \<and> list_all (\<lambda>e. \<not> ce_dirty e) (cacheEntries c')"
  by (rule cache_flush_writes_back) (simp_all add: ram_cache_ok)

text \<open>
  The bytes written by \<open>_NTFS_cache_writePartialSector\<close> are the ones \<open>_NTFS_cache_readPartialSector\<close>
  returns.
\<close>

lemma cache_partial_roundtrip:
  assumes "ps3_cache_valid fd c" "ps3_live fd (disc c)" "startOfPartition c \<le> s" "s < endOfPartition c"
    and "offset + length xs \<le> sectorSize c" "sectorSize c < 2 ^ 64" "length xs \<le> length buf"
  shows "\<exists>c1 c2. NTFS_cache_writePartialSector (PS3_NTFS_ReadSectors un fd) (PS3_NTFS_WriteSectors un fd) c xs s offset (length xs) = Some (True, c1)
     \<and> NTFS_cache_readPartialSector (PS3_NTFS_ReadSectors un fd) (PS3_NTFS_WriteSectors un fd) c1 buf s offset (length xs)
        = Some (True, blit buf 0 xs, c2)"
  using ps3_cache.writePartial_readPartial [OF assms(1-6) order_refl assms(7), of un] by simp

context cached_disc
begin

text \<open>What the rounds of the read loop at the end of the partition keep: any pages, dirty ones included, that lie within the
  partition, over a disc that works. It is weaker than \<open>cvalid\<close>, because those rounds load a page again that may be cached.\<close>

definition spinning :: "'a ncache \<Rightarrow> bool" where
  "spinning c \<longleftrightarrow> geometry_ok c \<and> valid (disc c) \<and> live (disc c) \<and> sectorSize c = ssize (disc c) \<and> lo (disc c) \<le> startOfPartition c
     \<and> endOfPartition c \<le> hi (disc c)
     \<and> (\<forall>e \<in> set (cacheEntries c). length (ce_cache e) = sectorsPerPage c * sectorSize c \<and> ce_count e \<le> sectorsPerPage c
          \<and> (ce_count e = 0 \<or> ce_sector e + ce_count e \<le> endOfPartition c)
          \<and> (ce_dirty e \<longrightarrow> startOfPartition c \<le> ce_sector e \<and> ce_sector e + ce_count e \<le> endOfPartition c))"

lemma spinning_valid: "cvalid c \<Longrightarrow> live (disc c) \<Longrightarrow> spinning c"
proof -
  assume v: "cvalid c" and l: "live (disc c)"
  note cv = cvalidD [OF v]
  have "length (ce_cache e) = sectorsPerPage c * sectorSize c \<and> ce_count e \<le> sectorsPerPage c
      \<and> (ce_count e = 0 \<or> ce_sector e + ce_count e \<le> endOfPartition c)
      \<and> (ce_dirty e \<longrightarrow> startOfPartition c \<le> ce_sector e \<and> ce_sector e + ce_count e \<le> endOfPartition c)"
    if "e \<in> set (cacheEntries c)" for e
  proof -
    have "page_ok (sect (disc c)) c e" using that page_okD(1) [OF cv(2)] by (auto simp: in_set_conv_nth)
    then show ?thesis by (cases "loaded e") (auto simp: page_ok_def)
  qed
  moreover have "geometry_ok c" using cv(2) by (simp add: pages_ok_def)
  ultimately show "spinning c" using cv(1,3-5) l unfolding spinning_def by blast
qed

lemma spinning_update:
  assumes "spinning c" "same_geometry c c'" "cacheEntries c' = (cacheEntries c) [i := e]"
    and "valid (disc c')" "live (disc c')" "ssize (disc c') = ssize (disc c)" "lo (disc c') = lo (disc c)" "hi (disc c') = hi (disc c)"
    and "length (ce_cache e) = sectorsPerPage c * sectorSize c" "ce_count e \<le> sectorsPerPage c" "\<not> ce_dirty e"
    and "ce_count e = 0 \<or> ce_sector e + ce_count e \<le> endOfPartition c"
  shows "spinning c'"
proof -
  have "e' = e \<or> e' \<in> set (cacheEntries c)" if "e' \<in> set (cacheEntries c')" for e'
    using that assms(3) set_update_subset_insert [of "cacheEntries c" i e] by auto
  then show ?thesis
    using assms(1,2,4-12) geometry_ok_geometry [OF assms(2)] unfolding spinning_def same_geometry_def by metis
qed

lemma spinning_write:
  assumes "spinning c" "i < length (cacheEntries c)" "ce_dirty (cacheEntries c ! i)"
  shows "\<exists>d. write_page ws c i = Some (True, c \<lparr>disc := d\<rparr>) \<and> spinning (set_clean (c \<lparr>disc := d\<rparr>) i)"
proof -
  let ?e = "cacheEntries c ! i" and ?z = "sectorSize c"
  note s = assms(1) [unfolded spinning_def]
  have "?e \<in> set (cacheEntries c)" using assms(2) by simp
  then have e: "length (ce_cache ?e) = sectorsPerPage c * ?z" "ce_count ?e \<le> sectorsPerPage c" "startOfPartition c \<le> ce_sector ?e"
      "ce_sector ?e + ce_count ?e \<le> endOfPartition c"
    using s assms(3) by auto
  have e32: "endOfPartition c < 2 ^ 32" using s by (simp add: geometry_ok_def)
  let ?b = "chunk 0 (ce_count ?e * ?z) (ce_cache ?e)"
  have fits: "ce_count ?e * ?z \<le> length (ce_cache ?e)" unfolding e(1) by (rule mult_le_mono1 [OF e(2)])
  then have len: "length ?b = ce_count ?e * ssize (disc c)" using s by simp
  have cnt: "u32 (ce_count ?e + 2 ^ 32) = ce_count ?e" "u32 (ce_sector ?e) = ce_sector ?e"
    using u32_sub [of 0 "ce_count ?e"] e e32 by auto
  have dom: "valid (disc c)" "lo (disc c) \<le> ce_sector ?e" "ce_sector ?e + ce_count ?e \<le> hi (disc c)" using s e by auto
  obtain ok d where w: "ws (disc c) (ce_sector ?e) (ce_count ?e) ?b = Some (ok, d)" using ws_returns [OF dom len] by auto
  have ok: "ok" "live d" using ws_live [OF dom(1) _ dom(2,3) len w] s by auto
  have d: "valid d" "ssize d = ssize (disc c)" "lo d = lo (disc c)" "hi d = hi (disc c)"
    using ws_ok [OF dom len, of d] w ok(1) by auto
  have "write_page ws c i = Some (True, c \<lparr>disc := d\<rparr>)"
    using fits e(3) cnt w ok(1) by (simp add: write_page_def Let_def mem_get_def)
  moreover have "spinning (set_clean (c \<lparr>disc := d\<rparr>) i)"
    by (rule spinning_update [OF assms(1), where e = "?e \<lparr>ce_dirty := False\<rparr>" and i = i])
      (use d ok e in \<open>simp_all add: set_clean_def same_geometry_def\<close>)
  ultimately show ?thesis by blast
qed

lemma spinning_load:
  assumes c: "spinning c" and u: "u < length (cacheEntries c)" "\<not> ce_dirty (cacheEntries c ! u)"
  defines "base \<equiv> page_base c (endOfPartition c)"
  defines "m \<equiv> endOfPartition c - base"
  shows "\<exists>c'. load_page rs c u (endOfPartition c) = Some (Some u, c') \<and> spinning c' \<and> same_geometry c c'
     \<and> ce_sector (cacheEntries c' ! u) = base \<and> ce_count (cacheEntries c' ! u) = m \<and> base \<le> endOfPartition c
     \<and> m * sectorSize c \<le> length (ce_cache (cacheEntries c' ! u))"
proof -
  let ?s = "endOfPartition c" and ?z = "sectorSize c" and ?e = "cacheEntries c ! u"
  note s = c [unfolded spinning_def]
  have geo: "startOfPartition c \<le> ?s" "0 < sectorsPerPage c" "?s + sectorsPerPage c < 2 ^ 32" using s by (auto simp: geometry_ok_def)
  have "?e \<in> set (cacheEntries c)" using u(1) by simp
  then have e: "length (ce_cache ?e) = sectorsPerPage c * ?z" using s by auto
  have b: "startOfPartition c \<le> base" "base \<le> ?s" "?s < base + sectorsPerPage c"
    using page_base_le [OF geo(1)] page_base_gt [OF geo(1,2)] by (simp_all add: base_def)
  have fits: "m * ?z \<le> sectorsPerPage c * ?z" by (rule mult_le_mono1) (use b in \<open>simp add: m_def\<close>)
  have code: "u32 (startOfPartition c + (?s - startOfPartition c) div sectorsPerPage c * sectorsPerPage c) = base"
    using b geo unfolding base_def page_base_def by (intro u32_id) linarith
  have np: "u32 (base + sectorsPerPage c) = base + sectorsPerPage c" using b geo by (intro u32_id) linarith
  have cnt: "u32 ((if base + sectorsPerPage c > ?s then ?s else base + sectorsPerPage c) + 2 ^ 32 - base) = m"
    by (subst u32_sub) (use b geo in \<open>auto simp: m_def\<close>)
  let ?old = "chunk 0 (m * ?z) (ce_cache ?e)"
  have get: "mem_get (ce_cache ?e) 0 (m * ?z) = Some ?old" by (rule mem_get_SomeI) (use e fits in simp)
  have len: "length ?old = m * ssize (disc c)" using e fits s by simp
  have dom: "valid (disc c)" "lo (disc c) \<le> base" "base + m \<le> hi (disc c)" using s b by (auto simp: m_def)
  obtain ok x d where rd: "rs (disc c) base m ?old = Some (ok, x, d)"
    using rs_returns [OF dom len] by (cases "rs (disc c) base m ?old") auto
  have ok: "ok" "live d" using rs_live [OF dom(1) _ dom(2,3) len rd] s by auto
  have d: "valid d" "ssize d = ssize (disc c)" "lo d = lo (disc c)" "hi d = hi (disc c)"
    using rs_ok [OF dom len, of x d] rd ok(1) by auto
  have x: "length x = m * ?z" using rs_length [OF dom len rd] s by simp
  define c1 where "c1 = c \<lparr>disc := d, cacheEntries := (cacheEntries c) [u := ?e \<lparr>ce_cache := blit (ce_cache ?e) 0 x\<rparr>]\<rparr>"
  define c2 where "c2 = touch (c1 \<lparr>cacheEntries := (cacheEntries c1) [u := (cacheEntries c1 ! u)
                           \<lparr>ce_dirty := False, ce_sector := base, ce_count := m\<rparr>]\<rparr>) u"
  have l: "load_page rs c u ?s = Some (Some u, c2)"
    unfolding load_page_def Let_def code np cnt get option.case rd prod.case c2_def c1_def using ok by simp
  define t where "t = u32 (accessCounter c + 1)"
  have ent: "cacheEntries c2 = (cacheEntries c) [u := ?e \<lparr>ce_cache := blit (ce_cache ?e) 0 x, ce_dirty := False,
      ce_sector := base, ce_count := m, ce_last_access := t\<rparr>]"
    using u by (simp add: c2_def c1_def touch_def Let_def t_def)
  have sg: "same_geometry c c2" "disc c2 = d" by (simp_all add: same_geometry_def c2_def c1_def)
  have "spinning c2"
    by (rule spinning_update [OF c sg(1) ent]) (use e fits x b d ok sg(2) in \<open>simp_all add: m_def\<close>)
  then show ?thesis using l sg(1) u e fits x b by (intro exI [of _ c2]) (simp add: ent)
qed

text \<open>One round at the end of the partition: no sector is copied, and the state is as before.\<close>

lemma spinning_step:
  assumes c: "spinning c" and d: "dest \<le> length buf"
  shows "\<exists>c'. read_step rs ws c (endOfPartition c) n buf dest = Some (Inr (0, buf, c')) \<and> spinning c' \<and> same_geometry c c'"
proof -
  let ?s = "endOfPartition c" and ?z = "sectorSize c"
  note s = c [unfolded spinning_def]
  have geo: "startOfPartition c \<le> ?s" "?s < 2 ^ 32" "cacheEntries c \<noteq> []" "?s < CACHE_FREE"
    using s by (auto simp: geometry_ok_def CACHE_FREE_def)
  have nohit: "\<not> page_hit e ?s" if "e \<in> set (cacheEntries c)" for e
    using s that u32_le [of "ce_sector e + ce_count e"] by (fastforce simp: page_hit_def)
  obtain b u where scan: "page_scan ?s (cacheEntries c) 0 False 0 UINT_MAX = Inr (b, u)"
  proof (cases "page_scan ?s (cacheEntries c) 0 False 0 UINT_MAX")
    case (Inl j)
    then show ?thesis using page_scan_spec(1) [OF Inl] nohit [OF nth_mem] by auto
  next
    case (Inr bu)
    then show ?thesis using that by (metis surj_pair)
  qed
  have u: "u < length (cacheEntries c)" by (rule page_scan_start(1) [OF scan geo(3)])
  have "\<exists>c1. spinning c1 \<and> same_geometry c c1 \<and> \<not> ce_dirty (cacheEntries c1 ! u)
      \<and> NTFS_cache_getPage rs ws c ?s = load_page rs c1 u ?s" if "\<not> (b \<and> ce_dirty (cacheEntries c ! u))"
  proof (cases "ce_dirty (cacheEntries c ! u)")
    case True
    then have nb: "\<not> b" using that by simp
    obtain dd where w: "write_page ws c u = Some (True, c \<lparr>disc := dd\<rparr>)" "spinning (set_clean (c \<lparr>disc := dd\<rparr>) u)"
      using spinning_write [OF c u True] by blast
    have "NTFS_cache_getPage rs ws c ?s = load_page rs (set_clean (c \<lparr>disc := dd\<rparr>) u) u ?s"
      unfolding NTFS_cache_getPage_def scan using geo(1) u True nb w(1) by simp
    then show ?thesis using w(2) u by (intro exI [of _ "set_clean (c \<lparr>disc := dd\<rparr>) u"]) (simp add: set_clean_def same_geometry_def)
  next
    case False
    then have "NTFS_cache_getPage rs ws c ?s = load_page rs c u ?s"
      unfolding NTFS_cache_getPage_def scan using geo(1) u by simp
    then show ?thesis using c False by (intro exI [of _ c]) (simp add: same_geometry_def)
  qed
  moreover have "NTFS_cache_getPage rs ws c ?s = load_page rs c u ?s" if "b" "ce_dirty (cacheEntries c ! u)"
    unfolding NTFS_cache_getPage_def scan using geo(1) u that by simp
  moreover have "\<not> (b \<and> ce_dirty (cacheEntries c ! u))"
  proof (rule notI, elim conjE)
    assume "b" "ce_dirty (cacheEntries c ! u)"
    then have "ce_sector (cacheEntries c ! u) = CACHE_FREE" "ce_sector (cacheEntries c ! u) + ce_count (cacheEntries c ! u) \<le> ?s"
      using page_scan_start(2) [OF scan geo(3)] s nth_mem [OF u] by (auto simp: loaded_def)
    then show False using geo(4) by simp
  qed
  ultimately obtain c1 where c1: "spinning c1" "same_geometry c c1" "\<not> ce_dirty (cacheEntries c1 ! u)"
      "NTFS_cache_getPage rs ws c ?s = load_page rs c1 u ?s"
    by blast
  have g1: "endOfPartition c1 = ?s" "sectorSize c1 = ?z" "u < length (cacheEntries c1)" using c1(2) u by (simp_all add: same_geometry_def)
  define base where "base = page_base c1 ?s"
  define m where "m = ?s - base"
  obtain c' where l: "load_page rs c1 u ?s = Some (Some u, c')" "spinning c'" "same_geometry c1 c'"
      "ce_sector (cacheEntries c' ! u) = base" "ce_count (cacheEntries c' ! u) = m" "base \<le> ?s" "m * ?z \<le> length (ce_cache (cacheEntries c' ! u))"
    using spinning_load [OF c1(1) g1(3) c1(3)] unfolding g1(1,2) base_def [symmetric] m_def [symmetric] by blast
  have w: "u32 (?s + 2 ^ 32 - base) = m" "u32 (m + 2 ^ 32 - m) = 0"
    using u32_sub [OF l(6)] geo by (simp_all add: m_def u32_def)
  have "mem_get (ce_cache (cacheEntries c' ! u)) (m * ?z) (0 * ?z) = Some []" using l(7) by (simp add: mem_get_def chunk_def)
  moreover have "(if 0 > n then n else 0) = 0" by simp
  moreover have "mem_put buf dest [] = Some buf" using d by (simp add: mem_put_def)
  ultimately have "read_step rs ws c ?s n buf dest = Some (Inr (0, buf, c'))"
    unfolding read_step_def Let_def c1(4) l(1) option.case prod.case l(4,5) w by simp
  then show ?thesis using l(2) same_geometry_trans [OF c1(2) l(3)] by blast
qed

lemma spinning_forever:
  assumes c: "spinning c" and d: "dest \<le> length buf"
  shows "\<exists>cs. cs 0 = c \<and> (\<forall>i. read_step rs ws (cs i) (endOfPartition c) n buf dest = Some (Inr (0, buf, cs (Suc i))))"
proof -
  let ?P = "\<lambda>x. spinning x \<and> same_geometry c x"
  have "\<forall>x. \<exists>y. ?P x \<longrightarrow> ?P y \<and> read_step rs ws x (endOfPartition c) n buf dest = Some (Inr (0, buf, y))"
  proof
    fix x
    show "\<exists>y. ?P x \<longrightarrow> ?P y \<and> read_step rs ws x (endOfPartition c) n buf dest = Some (Inr (0, buf, y))"
    proof (cases "?P x")
      case True
      then have e: "endOfPartition x = endOfPartition c" by (simp add: same_geometry_def)
      obtain y where "read_step rs ws x (endOfPartition c) n buf dest = Some (Inr (0, buf, y))" "spinning y" "same_geometry x y"
        using spinning_step [OF conjunct1 [OF True] d, of n] unfolding e by blast
      then show ?thesis using same_geometry_trans [OF conjunct2 [OF True]] by blast
    qed blast
  qed
  from choice [OF this] obtain f where f: "\<forall>x. ?P x \<longrightarrow> ?P (f x) \<and> read_step rs ws x (endOfPartition c) n buf dest = Some (Inr (0, buf, f x))" ..
  have P: "?P ((f ^^ i) c)" for i
    by (induction i) (use c f in \<open>simp_all add: same_geometry_def\<close>)
  show ?thesis by (rule exI [of _ "\<lambda>i. (f ^^ i) c"]) (use P f in simp)
qed

end

text \<open>
  C35. A read of sectors at the end of the partition never returns. On a valid cache over a disc that works there is no
  fault, no failure and no progress: every round of the loop finds a page, copies no sector from it and goes on with the same
  sector, count, buffer and destination, for ever, so that no number of rounds is enough.
\<close>

theorem cache_read_at_end_diverges:
  assumes "ps3_cache_valid fd c" "ps3_live fd (disc c)" "dest \<le> length buf" "0 < n"
  shows "(\<exists>cs. cs 0 = c \<and> (\<forall>i. read_step (PS3_NTFS_ReadSectors un fd) (PS3_NTFS_WriteSectors un fd) (cs i) (endOfPartition c) n buf dest
              = Some (Inr (0, buf, cs (Suc i)))))
     \<and> (\<forall>fuel. read_loop fuel (PS3_NTFS_ReadSectors un fd) (PS3_NTFS_WriteSectors un fd) c (endOfPartition c) n buf dest = None)"
proof -
  let ?rs = "PS3_NTFS_ReadSectors un fd" and ?ws = "PS3_NTFS_WriteSectors un fd" and ?s = "endOfPartition c"
  obtain cs where cs: "cs 0 = c" "\<And>i. read_step ?rs ?ws (cs i) ?s n buf dest = Some (Inr (0, buf, cs (Suc i)))"
    using ps3_cache.spinning_forever [OF ps3_cache.spinning_valid [OF assms(1,2)] assms(3)] by metis
  have "?s < 2 ^ 32" using assms(1) by (auto simp: cache_valid_def pages_ok_def geometry_ok_def)
  then have u: "u32 ?s = ?s" by (rule u32_id)
  have "read_loop fuel ?rs ?ws (cs i) ?s n buf dest = None" for fuel i
    by (induction fuel arbitrary: i) (use assms(4) in \<open>simp_all add: cs(2) u\<close>)
  then show ?thesis using cs by metis
qed

theorem cache_read_at_end_diverges_witness:
  "(\<exists>cs. cs 0 = ram_cache \<and> (\<forall>i. read_step (PS3_NTFS_ReadSectors True 0) (PS3_NTFS_WriteSectors True 0) (cs i) 60 1 [0] 0
       = Some (Inr (0, [0], cs (Suc i)))))"
  using cache_read_at_end_diverges [of 0 ram_cache 0 "[0]" 1 True] by (simp add: ram_cache_ok)

text \<open>
  When the disc fails while a page is loaded, the entry keeps the sector numbers of the page it held
  before, with the bytes the failed transfer left in it: the next access to a sector of the old page is a
  hit and returns those bytes, without looking at the disc.
\<close>

lemma failed_load_leaves_stale_page:
  assumes "load_page rs c i sector = Some (None, c')" "i < length (cacheEntries c)" "startOfPartition c \<le> k"
    and "page_hit (cacheEntries c ! i) k" "\<forall>j < i. \<not> page_hit (cacheEntries c ! j) k"
  shows "NTFS_cache_getPage rs ws c' k = Some (Some i, touch c' i)
     \<and> (\<exists>b. ce_cache (cacheEntries (touch c' i) ! i) = blit (ce_cache (cacheEntries c ! i)) 0 b)"
proof -
  obtain b d where c': "c' = c \<lparr>disc := d, cacheEntries := (cacheEntries c) [i := (cacheEntries c ! i)
      \<lparr>ce_cache := blit (ce_cache (cacheEntries c ! i)) 0 b\<rparr>]\<rparr>"
    using assms(1) by (auto simp: load_page_def Let_def split: option.splits if_splits)
  have hit: "page_hit (cacheEntries c' ! j) k = page_hit (cacheEntries c ! j) k" if "j < length (cacheEntries c)" for j
    using that by (cases "j = i") (simp_all add: c' page_hit_def)
  have first: "i - m < length es \<Longrightarrow> m \<le> i \<Longrightarrow> page_hit (es ! (i - m)) k \<Longrightarrow> (\<And>j. j < i - m \<Longrightarrow> \<not> page_hit (es ! j) k) \<Longrightarrow>
      page_scan k es m ff ou oa = Inl i" for es m ff ou oa
  proof (induction es arbitrary: m ff ou oa)
    case (Cons e es)
    show ?case
    proof (cases "m = i")
      case True
      then show ?thesis using Cons.prems by simp
    next
      case False
      then have lt: "m + 1 \<le> i" "i - m = Suc (i - (m + 1))" using Cons.prems(2) by simp_all
      have "page_scan k es (m + 1) ff' ou' oa' = Inl i" for ff' ou' oa'
        by (rule Cons.IH) (use Cons.prems lt in \<open>auto simp: Suc_less_eq2\<close>, use Cons.prems(4) in fastforce)
      moreover have "\<not> page_hit e k" using Cons.prems(4) [of 0] lt by simp
      ultimately show ?thesis by simp
    qed
  qed simp
  have "page_scan k (cacheEntries c') 0 False 0 UINT_MAX = Inl i"
  proof (rule first)
    show "page_hit (cacheEntries c' ! (i - 0)) k" using hit [OF assms(2)] assms(4) by simp
    show "\<not> page_hit (cacheEntries c' ! j) k" if "j < i - 0" for j
      using hit [of j] assms(2,5) that by simp
  qed (use assms(2) in \<open>simp_all add: c'\<close>)
  moreover have "startOfPartition c' = startOfPartition c" by (simp add: c')
  ultimately have "NTFS_cache_getPage rs ws c' k = Some (Some i, touch c' i)"
    using assms(3) by (simp add: NTFS_cache_getPage_def)
  moreover have "ce_cache (cacheEntries (touch c' i) ! i) = blit (ce_cache (cacheEntries c ! i)) 0 b"
    using assms(2) by (simp add: touch_def Let_def c')
  ultimately show ?thesis by blast
qed

text \<open>
  \<open>_NTFS_cache_invalidate\<close> drops every page even when the flush before it fails: what the failed
  flush could not write is lost, and the cache stands for the disc.
\<close>

lemma invalidate_drops_unwritten_pages:
  assumes "NTFS_cache_flush ws c = Some (False, c')"
  shows "\<exists>c''. NTFS_cache_invalidate ws c = Some c'' \<and> disc c'' = disc c'
     \<and> (\<forall>f. cache_sect f c'' = f)"
proof -
  have none: "find (\<lambda>e. page_hit e k) (map (\<lambda>e. e \<lparr>ce_sector := CACHE_FREE, ce_last_access := 0,
      ce_count := 0, ce_dirty := False\<rparr>) es) = None" for k and es :: "centry list"
    by (induction es) (simp_all add: page_hit_def CACHE_FREE_def u32_def)
  show ?thesis
    using assms none by (auto simp: NTFS_cache_invalidate_def cache_sect_def fun_eq_iff)
qed

end
