(* ===== verification/BootSect.thy ===== *)
theory BootSect
  imports NtfsPrelude
begin

text \<open>
  The boot sector, \<open>libntfs_ext/source/bootsect.c\<close>: the check that a sector is an NTFS boot sector, and the
  geometry of the volume read from it. A boot sector is the byte buffer as it lies on disc; its fields are
  named after those of \<open>NTFS_BOOT_SECTOR\<close> in \<open>layout.h\<close>.
\<close>

section \<open>The boot sector\<close>

definition oem_id :: "bytes \<Rightarrow> nat" where "oem_id b = get64 b 3"
definition bytes_per_sector :: "bytes \<Rightarrow> nat" where "bytes_per_sector b = get16 b 11"
definition sectors_per_cluster :: "bytes \<Rightarrow> nat" where "sectors_per_cluster b = unat (b ! 13)"
definition hidden_sectors :: "bytes \<Rightarrow> nat" where "hidden_sectors b = get32 b 28"
definition number_of_sectors :: "bytes \<Rightarrow> int" where "number_of_sectors b = s64 (int (get64 b 40))"
definition boot_mft_lcn :: "bytes \<Rightarrow> int" where "boot_mft_lcn b = s64 (int (get64 b 48))"
definition boot_mftmirr_lcn :: "bytes \<Rightarrow> int" where "boot_mftmirr_lcn b = s64 (int (get64 b 56))"
definition clusters_per_mft_record :: "bytes \<Rightarrow> nat" where "clusters_per_mft_record b = unat (b ! 64)"
definition clusters_per_index_record :: "bytes \<Rightarrow> nat" where "clusters_per_index_record b = unat (b ! 68)"
definition volume_serial_number :: "bytes \<Rightarrow> nat" where "volume_serial_number b = get64 b 72"

text \<open>The number of clusters of a record, seen as an unsigned byte: a power of two up to 0x40, or minus the
  logarithm of the size in bytes.\<close>

definition bad_clusters_per_record :: "nat \<Rightarrow> bool" where
  "bad_clusters_per_record c \<longleftrightarrow> (c < 0xe1 \<or> c > 0xf7) \<and> c \<notin> {1, 2, 4, 8, 0x10, 0x20, 0x40}"

text \<open>The six reserved fields: sectors, entries and FATs of a FAT file system.\<close>

definition reserved_not_zero :: "bytes \<Rightarrow> bool" where
  "reserved_not_zero b \<longleftrightarrow> get16 b 14 \<noteq> 0 \<or> get16 b 17 \<noteq> 0 \<or> get16 b 19 \<noteq> 0 \<or> get16 b 22 \<noteq> 0 \<or> get32 b 32 \<noteq> 0
     \<or> b ! 16 \<noteq> 0"

definition ntfs_boot_sector_is_ntfs :: "bytes \<Rightarrow> bool" where
  "ntfs_boot_sector_is_ntfs b =
     (if oem_id b \<noteq> 0x202020205346544e then False
      else if bytes_per_sector b < 256 \<or> bytes_per_sector b > 4096 then False
      else if sectors_per_cluster b \<notin> {1, 2, 4, 8, 16, 32, 64, 128} then False
      else if u32 (bytes_per_sector b * sectors_per_cluster b) > 65536 then False
      else if reserved_not_zero b then False
      else if bad_clusters_per_record (clusters_per_mft_record b) then False
      else if bad_clusters_per_record (clusters_per_index_record b) then False
      else True)"

section \<open>The volume\<close>

text \<open>The fields of \<open>ntfs_volume\<close> that describe its geometry.\<close>

record ntfs_volume =
  sector_size :: nat
  sector_size_bits :: nat
  nr_clusters :: int
  mft_lcn :: int
  mftmirr_lcn :: int
  cluster_size :: nat
  cluster_size_bits :: nat
  mft_record_size :: nat
  mft_record_size_bits :: nat
  indx_record_size :: nat
  indx_record_size_bits :: nat
  mftmirr_size :: nat

text \<open>\<open>ffs\<close> of the C library: the number of the lowest bit that is set, from 1, or 0.\<close>

fun ffs :: "nat \<Rightarrow> nat" where
  "ffs x = (if x = 0 then 0 else if odd x then 1 else ffs (x div 2) + 1)"

declare ffs.simps [simp del]

text \<open>\<open>ffs (x) - 1\<close> stored in a byte.\<close>

definition bits_of :: "nat \<Rightarrow> nat" where
  "bits_of x = (ffs x + 255) mod 256"

text \<open>The size of a record, \<open>1 << -c\<close> or \<open>c << cluster_size_bits\<close>; \<open>None\<close> is a shift by more than 31.\<close>

definition record_size :: "nat \<Rightarrow> nat \<Rightarrow> nat option" where
  "record_size c bits = (if c \<ge> 128 then (if 256 - c > 31 then None else Some (2 ^ (256 - c)))
                         else if bits > 31 then None else Some (u32 (c * 2 ^ bits)))"

text \<open>The part of \<open>ntfs_boot_sector_parse\<close> behind the cluster size: the records and the mirror of the MFT.\<close>

definition parse_records :: "ntfs_volume \<Rightarrow> bytes \<Rightarrow> (errno option \<times> ntfs_volume) option" where
  "parse_records vol b =
     (case record_size (clusters_per_mft_record b) (cluster_size_bits vol) of None \<Rightarrow> None
      | Some m \<Rightarrow>
        (let vol1 = vol \<lparr>mft_record_size := m\<rparr>
         in if (m AND (m - 1)) \<noteq> 0 then Some (Some EINVAL, vol1)
            else (case record_size (clusters_per_index_record b) (cluster_size_bits vol) of None \<Rightarrow> None
              | Some i \<Rightarrow>
                (let vol2 = vol1 \<lparr>mft_record_size_bits := bits_of m, indx_record_size := i, indx_record_size_bits := bits_of i\<rparr>
                 in if cluster_size vol \<le> u32 (4 * m) then Some (None, vol2 \<lparr>mftmirr_size := 4\<rparr>)
                    else if m = 0 then None
                    else Some (None, vol2 \<lparr>mftmirr_size := cluster_size vol div m\<rparr>)))))"

text \<open>\<open>seek\<close> is the operation of the device.\<close>

definition ntfs_boot_sector_parse :: "('d \<Rightarrow> int \<Rightarrow> int \<times> 'd) \<Rightarrow> 'd \<Rightarrow> ntfs_volume \<Rightarrow> bytes
    \<Rightarrow> (errno option \<times> ntfs_volume \<times> 'd) option" where
  "ntfs_boot_sector_parse seek d vol b =
     (let ss = bytes_per_sector b; vol1 = vol \<lparr>sector_size := ss, sector_size_bits := bits_of ss\<rparr>;
          spc = sectors_per_cluster b; sectors = number_of_sectors b
      in if (spc AND (spc - 1)) \<noteq> 0 then Some (Some EINVAL, vol1, d)
         else if sectors = 0 then Some (Some EINVAL, vol1, d)
         else if bits_of ss > 63 \<or> spc = 0 then None
         else (case seek d (s64 ((sectors - 1) * 2 ^ bits_of ss)) of (r, d') \<Rightarrow>
           if r = - 1 then Some (Some EINVAL, vol1, d')
           else (let vol2 = vol1 \<lparr>nr_clusters := sectors div 2 ^ (ffs spc - 1), mft_lcn := boot_mft_lcn b,
                       mftmirr_lcn := boot_mftmirr_lcn b\<rparr>
             in if mft_lcn vol2 < 0 \<or> mft_lcn vol2 > nr_clusters vol2 \<or> mftmirr_lcn vol2 < 0 \<or> mftmirr_lcn vol2 > nr_clusters vol2
                then Some (Some EINVAL, vol2, d')
                else (let cs = spc * ss; vol3 = vol2 \<lparr>cluster_size := cs\<rparr>
                  in if (cs AND (cs - 1)) \<noteq> 0 then Some (Some EINVAL, vol3, d')
                     else map_option (\<lambda>(e, v). (e, v, d')) (parse_records (vol3 \<lparr>cluster_size_bits := bits_of cs\<rparr>) b)))))"

section \<open>Powers of two\<close>

lemma and_pred_even: "(2 * y AND (2 * y - 1)) = 2 * (y AND (y - 1 :: nat))"
proof (cases y)
  case (Suc z)
  then have "2 * y - 1 = 2 * z + 1" by simp
  moreover have "(2 * y AND (2 * z + 1)) = 2 * (y AND z)"
    by (subst and_rec) simp
  ultimately show ?thesis using Suc by simp
qed simp

lemma and_pred_odd: "((2 * y + 1) AND (2 * y)) = 2 * (y :: nat)"
  by (subst and_rec) simp

text \<open>The test of the code for powers of two, and \<open>ffs\<close> of one.\<close>

lemma power_two_test: "x \<noteq> 0 \<Longrightarrow> (x AND (x - 1)) = 0 \<Longrightarrow> x = 2 ^ (ffs x - 1) \<and> 0 < ffs x"
proof (induction x rule: less_induct)
  case (less x)
  show ?case
  proof (cases "odd x")
    case True
    then obtain y where y: "x = 2 * y + 1" by (auto elim: oddE)
    then have "y = 0" using less.prems(2) and_pred_odd [of y] by simp
    then show ?thesis using y by (simp add: ffs.simps)
  next
    case False
    then obtain y where y: "x = 2 * y" by auto
    then have "y \<noteq> 0" "(y AND (y - 1)) = 0" "y < x"
      using less.prems and_pred_even [of y] by simp_all
    then have IH: "y = 2 ^ (ffs y - 1)" "0 < ffs y" using less.IH by blast+
    have "ffs x = ffs y + 1" using y \<open>y \<noteq> 0\<close> by (subst ffs.simps) simp
    then show ?thesis using IH y by (cases "ffs y") simp_all
  qed
qed

lemma ffs_power_two [simp]: "ffs (2 ^ n) = Suc n"
  by (induction n) (simp_all add: ffs.simps [of "Suc 0"] ffs.simps [of "2 * _"])

lemma bits_of_power_two: "n < 256 \<Longrightarrow> bits_of (2 ^ n) = n"
  by (simp add: bits_of_def)

lemma power_two_mono: "2 ^ n \<le> (2 :: nat) ^ m \<Longrightarrow> n \<le> m"
  by (rule power_le_imp_le_exp [of 2]) simp_all


section \<open>Properties\<close>

text \<open>What a volume whose boot sector was accepted looks like.\<close>

definition volume_ok :: "ntfs_volume \<Rightarrow> bool" where
  "volume_ok v \<longleftrightarrow> sector_size v = 2 ^ sector_size_bits v \<and> cluster_size v = 2 ^ cluster_size_bits v
     \<and> mft_record_size v = 2 ^ mft_record_size_bits v \<and> indx_record_size v = 2 ^ indx_record_size_bits v
     \<and> 8 \<le> sector_size_bits v \<and> sector_size_bits v \<le> 12 \<and> sector_size_bits v \<le> cluster_size_bits v \<and> cluster_size_bits v \<le> 16
     \<and> 8 \<le> mft_record_size_bits v \<and> mft_record_size_bits v \<le> 31 \<and> 8 \<le> indx_record_size_bits v \<and> indx_record_size_bits v \<le> 31
     \<and> 0 \<le> mft_lcn v \<and> mft_lcn v \<le> nr_clusters v \<and> 0 \<le> mftmirr_lcn v \<and> mftmirr_lcn v \<le> nr_clusters v
     \<and> (mft_record_size_bits v < 30 \<longrightarrow> 4 \<le> mftmirr_size v)"

lemma small_powers: "c \<in> {1, 2, 4, 8, 16, 32, 64, 128 :: nat} \<Longrightarrow> \<exists>k. c = 2 ^ k \<and> k \<le> 7"
  "c \<in> {1, 2, 4, 8, 16, 32, 64 :: nat} \<Longrightarrow> \<exists>k. c = 2 ^ k \<and> k \<le> 6"
proof -
  have "\<exists>k \<in> {0, 1, 2, 3, 4, 5, 6, 7 :: nat}. c = 2 ^ k" if "c \<in> {1, 2, 4, 8, 16, 32, 64, 128 :: nat}"
    using that by auto
  then show "c \<in> {1, 2, 4, 8, 16, 32, 64, 128 :: nat} \<Longrightarrow> \<exists>k. c = 2 ^ k \<and> k \<le> 7"
    by fastforce
  have "\<exists>k \<in> {0, 1, 2, 3, 4, 5, 6 :: nat}. c = 2 ^ k" if "c \<in> {1, 2, 4, 8, 16, 32, 64 :: nat}"
    using that by auto
  then show "c \<in> {1, 2, 4, 8, 16, 32, 64 :: nat} \<Longrightarrow> \<exists>k. c = 2 ^ k \<and> k \<le> 6"
    by fastforce
qed

lemma record_size_ok:
  assumes "\<not> bad_clusters_per_record c" "record_size c bits = Some m" "8 \<le> bits" "bits \<le> 16"
  shows "m = 2 ^ bits_of m \<and> 8 \<le> bits_of m \<and> bits_of m \<le> 31"
proof -
  have "\<exists>n. m = 2 ^ n \<and> 8 \<le> n \<and> n \<le> 31"
  proof (cases "c \<ge> 128")
    case True
    then have "0xe1 \<le> c" "c \<le> 0xf7" using assms(1) by (auto simp: bad_clusters_per_record_def)
    then have "m = 2 ^ (256 - c)" "8 \<le> 256 - c" "256 - c \<le> 31"
      using assms(2) True by (auto simp: record_size_def split: if_splits)
    then show ?thesis by blast
  next
    case False
    then have "c \<in> {1, 2, 4, 8, 0x10, 0x20, 0x40}" using assms(1) by (auto simp: bad_clusters_per_record_def)
    then obtain k where k: "c = 2 ^ k" "k \<le> 6" using small_powers by blast
    then have "c * 2 ^ bits = 2 ^ (k + bits)" by (simp add: power_add)
    moreover have "(2 :: nat) ^ (k + bits) < 2 ^ 32"
      by (rule power_strict_increasing) (use k assms(4) in simp_all)
    ultimately have "m = 2 ^ (k + bits)"
      using assms(2,4) False by (simp add: record_size_def)
    then show ?thesis using k assms(3,4) by (intro exI [of _ "k + bits"]) simp
  qed
  then show ?thesis using bits_of_power_two by auto
qed


text \<open>
  C21. A boot sector that passes the check and is parsed gives a well-formed volume: all sizes are powers of
  two of their bit counts and inside the ranges the library relies on, and the MFT lies in the volume.
\<close>

theorem boot_sector_volume_ok:
  assumes "ntfs_boot_sector_is_ntfs b" "ntfs_boot_sector_parse seek d vol b = Some (None, v, d')"
  shows "volume_ok v \<and> sector_size v = bytes_per_sector b \<and> cluster_size v = sectors_per_cluster b * bytes_per_sector b
     \<and> nr_clusters v = number_of_sectors b div int (sectors_per_cluster b)"
proof -
  let ?ss = "bytes_per_sector b" and ?spc = "sectors_per_cluster b"
  have chk: "256 \<le> ?ss" "?ss \<le> 4096" "?spc \<in> {1, 2, 4, 8, 16, 32, 64, 128}" "u32 (?ss * ?spc) \<le> 65536"
    "\<not> bad_clusters_per_record (clusters_per_mft_record b)" "\<not> bad_clusters_per_record (clusters_per_index_record b)"
    using assms(1) unfolding ntfs_boot_sector_is_ntfs_def by (auto split: if_splits)
  obtain k where k: "?spc = 2 ^ k" "k \<le> 7" using small_powers(1) [OF chk(3)] by blast
  have lt: "?ss * ?spc \<le> 4096 * 128"
    by (rule mult_le_mono) (use chk(2,3) in auto)
  define cs where "cs = ?spc * ?ss"
  have csz: "cs \<le> 65536" "256 \<le> cs"
  proof -
    have "u32 (?ss * ?spc) = ?ss * ?spc" by (rule u32_id) (use lt in simp)
    then show "cs \<le> 65536" using chk(4) by (simp add: cs_def mult.commute)
    have "1 * 256 \<le> ?spc * ?ss" by (rule mult_le_mono) (use chk(1) k in simp_all)
    then show "256 \<le> cs" by (simp add: cs_def)
  qed
  define vol2 where "vol2 = vol \<lparr>sector_size := ?ss, sector_size_bits := bits_of ?ss,
      nr_clusters := number_of_sectors b div 2 ^ (ffs ?spc - 1), mft_lcn := boot_mft_lcn b, mftmirr_lcn := boot_mftmirr_lcn b,
      cluster_size := cs, cluster_size_bits := bits_of cs\<rparr>"
  have parse: "0 \<le> boot_mft_lcn b" "boot_mft_lcn b \<le> nr_clusters vol2" "0 \<le> boot_mftmirr_lcn b" "boot_mftmirr_lcn b \<le> nr_clusters vol2"
      "(cs AND (cs - 1)) = 0" "parse_records vol2 b = Some (None, v)"
    using assms(2) unfolding ntfs_boot_sector_parse_def cs_def vol2_def
    by (auto simp: Let_def split: if_splits prod.splits)
  obtain n where n: "cs = 2 ^ n" using power_two_test [of cs] parse(5) csz by auto
  have n_le: "8 \<le> n" "n \<le> 16"
    using power_two_mono [of 8 n] power_two_mono [of n 16] csz n by simp_all
  have bits_cs: "bits_of cs = n" using n n_le bits_of_power_two by simp
  have "k \<le> n"
  proof (rule power_two_mono)
    have "2 ^ k * 1 \<le> ?spc * ?ss" by (rule mult_le_mono) (use chk(1) k in simp_all)
    then show "(2 :: nat) ^ k \<le> 2 ^ n" using n by (simp add: cs_def)
  qed
  then have "2 ^ k * ?ss = 2 ^ k * 2 ^ (n - k)"
    using n k by (simp add: cs_def power_add [symmetric])
  then have ss: "?ss = 2 ^ (n - k)" by simp
  then have nk: "8 \<le> n - k" "n - k \<le> 12"
    using power_two_mono [of 8 "n - k"] power_two_mono [of "n - k" 12] chk(1,2) by simp_all
  have bits_ss: "bits_of ?ss = n - k" using ss nk bits_of_power_two by simp
  obtain m i where mi: "record_size (clusters_per_mft_record b) n = Some m" "record_size (clusters_per_index_record b) n = Some i"
    and v: "v = vol2 \<lparr>mft_record_size := m, mft_record_size_bits := bits_of m, indx_record_size := i, indx_record_size_bits := bits_of i,
       mftmirr_size := (if cs \<le> u32 (4 * m) then 4 else cs div m)\<rparr>" and m0: "cs \<le> u32 (4 * m) \<or> m \<noteq> 0"
    using parse(6) bits_cs unfolding parse_records_def by (auto simp: Let_def vol2_def split: option.splits if_splits)
  note m = record_size_ok [OF chk(5) mi(1) n_le] and i = record_size_ok [OF chk(6) mi(2) n_le]
  have "4 \<le> (if cs \<le> u32 (4 * m) then 4 else cs div m)" if "bits_of m < 30"
  proof (cases "cs \<le> u32 (4 * m)")
    case False
    have "m \<le> 2 ^ 29" using m that power_increasing [of "bits_of m" 29 "2 :: nat"] by simp
    then have "u32 (4 * m) = 4 * m" by (intro u32_id) simp
    then have "4 * m < cs" using False by simp
    moreover have "0 < m" using m by (metis zero_less_numeral zero_less_power)
    ultimately show ?thesis using False by (simp add: less_eq_div_iff_mult_less_eq)
  qed simp
  then show ?thesis
    using parse m i n_le nk v ss bits_ss bits_cs n csz(1) \<open>k \<le> n\<close> k
    by (simp add: volume_ok_def vol2_def cs_def)
qed


text \<open>A boot sector of a volume of 4096 sectors of 512 bytes, 8 to a cluster, with MFT records as \<open>c\<close> says.\<close>

definition sample_boot :: "u8 \<Rightarrow> bytes" where
  "sample_boot c = [0, 0, 0, 0x4e, 0x54, 0x46, 0x53, 0x20, 0x20, 0x20, 0x20, 0, 2, 8, 0, 0, 0, 0, 0, 0, 0, 0xf8, 0, 0, 0, 0, 0, 0, 0, 0, 0, 0,
     0, 0, 0, 0, 0, 0, 0, 0, 0, 0x10, 0, 0, 0, 0, 0, 0, 4, 0, 0, 0, 0, 0, 0, 0, 2, 0, 0, 0, 0, 0, 0, 0,
     c, 0, 0, 0, 1, 0, 0, 0, 0, 0, 0, 0, 0, 0, 0, 0]"

lemma sample_boot_fields:
  "oem_id (sample_boot c) = 0x202020205346544e" "bytes_per_sector (sample_boot c) = 512" "sectors_per_cluster (sample_boot c) = 8"
  "number_of_sectors (sample_boot c) = 4096" "boot_mft_lcn (sample_boot c) = 4" "boot_mftmirr_lcn (sample_boot c) = 2"
  "clusters_per_mft_record (sample_boot c) = unat c" "clusters_per_index_record (sample_boot c) = 1" "\<not> reserved_not_zero (sample_boot c)"
  by (simp_all add: oem_id_def bytes_per_sector_def sectors_per_cluster_def number_of_sectors_def boot_mft_lcn_def
    boot_mftmirr_lcn_def clusters_per_mft_record_def clusters_per_index_record_def reserved_not_zero_def sample_boot_def
    get16_def get32_def get64_def chunk_def s64_def)

lemma ffs_values: "ffs 8 = 4" "ffs 512 = 10" "ffs 1024 = 11" "ffs 4096 = 13" "ffs 1073741824 = 31"
  using ffs_power_two [of 3] ffs_power_two [of 9] ffs_power_two [of 10] ffs_power_two [of 12] ffs_power_two [of 30] by simp_all

lemmas sample_eval = sample_boot_fields Let_def parse_records_def record_size_def bits_of_def ffs_values u32_def s64_def

lemma sample_boot_accepted: "ntfs_boot_sector_is_ntfs (sample_boot 0xf6)" "ntfs_boot_sector_is_ntfs (sample_boot 0xe2)"
  by (simp_all add: ntfs_boot_sector_is_ntfs_def sample_boot_fields bad_clusters_per_record_def u32_def)

definition no_volume :: ntfs_volume where
  "no_volume = \<lparr>sector_size = 0, sector_size_bits = 0, nr_clusters = 0, mft_lcn = 0, mftmirr_lcn = 0, cluster_size = 0, cluster_size_bits = 0,
     mft_record_size = 0, mft_record_size_bits = 0, indx_record_size = 0, indx_record_size_bits = 0, mftmirr_size = 0\<rparr>"

lemma sample_boot_parsed:
  "ntfs_boot_sector_parse (\<lambda>d x. (0, d)) d no_volume (sample_boot 0xf6)
     = Some (None, \<lparr>sector_size = 512, sector_size_bits = 9, nr_clusters = 512, mft_lcn = 4, mftmirr_lcn = 2, cluster_size = 4096,
         cluster_size_bits = 12, mft_record_size = 1024, mft_record_size_bits = 10, indx_record_size = 4096,
         indx_record_size_bits = 12, mftmirr_size = 4\<rparr>, d)"
  by (simp add: ntfs_boot_sector_parse_def sample_eval no_volume_def)

theorem boot_sector_volume_ok_witness:
  "\<exists>v. ntfs_boot_sector_parse (\<lambda>d x. (0, d)) () no_volume (sample_boot 0xf6) = Some (None, v, ())
     \<and> volume_ok v \<and> cluster_size v = 4096"
  using boot_sector_volume_ok [OF sample_boot_accepted(1) sample_boot_parsed [of "()"]] sample_boot_parsed [of "()"] by simp

text \<open>
  The range check on the size of an MFT record admits records of 1 GiB; four times that size is 0 in
  32 bits, and the volume gets a mirror of no records at all.
\<close>

lemma boot_sector_mirror_vanishes:
  "ntfs_boot_sector_is_ntfs (sample_boot 0xe2) \<and>
   (\<exists>v. ntfs_boot_sector_parse (\<lambda>d x. (0, d)) () no_volume (sample_boot 0xe2) = Some (None, v, ()) \<and> mftmirr_size v = 0)"
  by (simp add: sample_boot_accepted ntfs_boot_sector_parse_def sample_eval no_volume_def)

end
