(* ===== verification/GekkoIo.thy ===== *)
theory GekkoIo
  imports CachedDisc BootSect
begin

text \<open>
  The block device of the library, \<open>libntfs_ext/source/gekko_io.c\<close>: byte transfers of any offset and length on
  top of a sector device, through the cache when there is one. The first part holds the code; the second the
  byte content of a device and the proofs that transfers read and write exactly their bytes.

  A result \<open>None\<close> is undefined behaviour (an access outside a buffer or through a null pointer); \<open>Inl e\<close> is the
  return value -1 with \<open>errno\<close> set to \<open>e\<close>.
\<close>

section \<open>The device\<close>

text \<open>\<open>DISC_INTERFACE\<close>: its operations on the disc.\<close>

record 'd disc_ops =
  if_ioType :: nat
  if_features :: nat
  if_startup :: "'d \<Rightarrow> bool \<times> 'd"
  if_isInserted :: "'d \<Rightarrow> bool \<times> 'd"
  if_readSectors :: "'d \<Rightarrow> nat \<Rightarrow> nat \<Rightarrow> bytes \<Rightarrow> (bool \<times> bytes \<times> 'd) option"
  if_writeSectors :: "'d \<Rightarrow> nat \<Rightarrow> nat \<Rightarrow> bytes \<Rightarrow> (bool \<times> 'd) option"
  if_clearStatus :: "'d \<Rightarrow> bool \<times> 'd"
  if_shutdown :: "'d \<Rightarrow> bool \<times> 'd"

text \<open>What \<open>fd->interface\<close> and \<open>fd->cache\<close> give access to: the disc, or the cache and the disc below it.\<close>

datatype 'd backing = NoCache 'd | Cached "'d ncache"

record 'd gekko_fd =
  fd_interface :: "'d backing option"
  fd_startSector :: nat
  fd_hiddenSectors :: nat
  fd_sectorSize :: nat
  fd_sectorCount :: nat
  fd_pos :: nat
  fd_len :: nat
  fd_ino :: nat
  fd_cachePageCount :: nat
  fd_cachePageSize :: nat

text \<open>\<open>struct ntfs_device\<close> with its private data and state bits.\<close>

record 'p ntfs_device =
  d_private :: "'p option"
  NDevOpen :: bool
  NDevReadOnly :: bool
  NDevDirty :: bool
  NDevBlock :: bool
  NDevSync :: bool

text \<open>\<open>ntfs_device_gekko_io_readsectors\<close> and \<open>ntfs_device_gekko_io_writesectors\<close> on the backing of a device.\<close>

fun gekko_readsectors :: "('d \<Rightarrow> nat \<Rightarrow> nat \<Rightarrow> bytes \<Rightarrow> (bool \<times> bytes \<times> 'd) option) \<Rightarrow> ('d \<Rightarrow> nat \<Rightarrow> nat \<Rightarrow> bytes \<Rightarrow> (bool \<times> 'd) option)
    \<Rightarrow> 'd backing \<Rightarrow> nat \<Rightarrow> nat \<Rightarrow> bytes \<Rightarrow> (bool \<times> bytes \<times> 'd backing) option" where
  "gekko_readsectors rs ws (Cached c) sector numSectors buffer =
     map_option (\<lambda>(ok, b, c'). (ok, b, Cached c')) (NTFS_cache_readSectors rs ws c sector numSectors buffer)"
| "gekko_readsectors rs ws (NoCache d) sector numSectors buffer =
     map_option (\<lambda>(ok, b, d'). (ok, b, NoCache d')) (rs d sector numSectors buffer)"

fun gekko_writesectors :: "('d \<Rightarrow> nat \<Rightarrow> nat \<Rightarrow> bytes \<Rightarrow> (bool \<times> 'd) option) \<Rightarrow> 'd backing \<Rightarrow> nat \<Rightarrow> nat \<Rightarrow> bytes
    \<Rightarrow> (bool \<times> 'd backing) option" where
  "gekko_writesectors ws (Cached c) sector numSectors buffer =
     map_option (\<lambda>(ok, c'). (ok, Cached c')) (NTFS_cache_writeSectors ws c sector numSectors buffer)"
| "gekko_writesectors ws (NoCache d) sector numSectors buffer =
     map_option (\<lambda>(ok, d'). (ok, NoCache d')) (ws d sector numSectors buffer)"

section \<open>Byte transfers\<close>

text \<open>Read \<open>n\<close> sectors of \<open>z\<close> bytes into a buffer at an offset.\<close>

definition sectors_into :: "('b \<Rightarrow> nat \<Rightarrow> nat \<Rightarrow> bytes \<Rightarrow> (bool \<times> bytes \<times> 'b) option) \<Rightarrow> nat \<Rightarrow> 'b \<Rightarrow> nat \<Rightarrow> nat \<Rightarrow> bytes \<Rightarrow> nat
    \<Rightarrow> (bool \<times> bytes \<times> 'b) option" where
  "sectors_into rs z d s n mem ofs =
     (case mem_get mem ofs (n * z) of None \<Rightarrow> None
      | Some old \<Rightarrow> map_option (\<lambda>(ok, b, d'). (ok, blit mem ofs b, d')) (rs d s n old))"

text \<open>The first sector and the number of sectors of a transfer. The code divides in double precision, which
  is exact for the offsets below \<open>2 ^ 53\<close> of devices with 32-bit sector numbers.\<close>

definition sec_start :: "nat \<Rightarrow> nat \<Rightarrow> int \<Rightarrow> nat" where
  "sec_start startSector z offset = (if offset > 0 then u32 (startSector + u32 (nat offset div z)) else startSector)"

definition sec_count :: "nat \<Rightarrow> int \<Rightarrow> int \<Rightarrow> nat" where
  "sec_count z offset count =
     (let total = offset mod int z + count
      in if total > int z then u32 (nat ((total + int z - 1) div int z)) else 1)"

text \<open>\<open>ntfs_device_gekko_io_readbytes\<close> and \<open>ntfs_device_gekko_io_writebytes\<close> behind their checks; \<open>heap\<close> is
  \<open>ntfs_alloc\<close>.\<close>

definition readbytes :: "('b \<Rightarrow> nat \<Rightarrow> nat \<Rightarrow> bytes \<Rightarrow> (bool \<times> bytes \<times> 'b) option) \<Rightarrow> (nat \<Rightarrow> bytes option) \<Rightarrow> nat \<Rightarrow> nat \<Rightarrow> 'b
    \<Rightarrow> int \<Rightarrow> int \<Rightarrow> bytes \<Rightarrow> ((errno + int) \<times> bytes \<times> 'b) option" where
  "readbytes rs heap z startSector d offset count buf =
     (let buffer_offset = nat offset mod z; s = sec_start startSector z offset; n = sec_count z offset count
      in if buffer_offset = 0 \<and> count mod int z = 0 then
           (case sectors_into rs z d s n buf 0 of None \<Rightarrow> None
            | Some (ok, buf', d') \<Rightarrow> Some (if \<not> ok then Inl EIO else Inr count, buf', d'))
         else (case heap (u32 (n * z)) of None \<Rightarrow> Some (Inl ENOMEM, buf, d)
            | Some mem \<Rightarrow>
                (case sectors_into rs z d s n mem 0 of None \<Rightarrow> None
                 | Some (ok, buffer, d') \<Rightarrow>
                     if \<not> ok then Some (Inl EIO, buf, d')
                     else if count < 0 then None
                     else (case mem_get buffer buffer_offset (nat count) of None \<Rightarrow> None
                        | Some xs \<Rightarrow> map_option (\<lambda>buf'. (Inr count, buf', d')) (mem_put buf 0 xs)))))"

text \<open>The sectors at the two ends of a write that does not cover them: read into the buffer first.\<close>

definition write_edges :: "('b \<Rightarrow> nat \<Rightarrow> nat \<Rightarrow> bytes \<Rightarrow> (bool \<times> bytes \<times> 'b) option) \<Rightarrow> nat \<Rightarrow> 'b \<Rightarrow> int \<Rightarrow> int \<Rightarrow> nat \<Rightarrow> nat \<Rightarrow> bytes
    \<Rightarrow> (bool \<times> bytes \<times> 'b) option" where
  "write_edges rs z d offset count s n mem =
     (case (if nat offset mod z \<noteq> 0 then sectors_into rs z d s 1 mem 0 else Some (True, mem, d)) of None \<Rightarrow> None
      | Some (ok, mem1, d1) \<Rightarrow>
          if \<not> ok then Some (False, mem1, d1)
          else if (offset mod int z + count) mod int z \<noteq> 0
          then sectors_into rs z d1 (u32 (s + n + 2 ^ 32 - 1)) 1 mem1 (u32 (u32 (n + 2 ^ 32 - 1) * z))
          else Some (True, mem1, d1))"

definition writebytes :: "('b \<Rightarrow> nat \<Rightarrow> nat \<Rightarrow> bytes \<Rightarrow> (bool \<times> bytes \<times> 'b) option) \<Rightarrow> ('b \<Rightarrow> nat \<Rightarrow> nat \<Rightarrow> bytes \<Rightarrow> (bool \<times> 'b) option)
    \<Rightarrow> (nat \<Rightarrow> bytes option) \<Rightarrow> nat \<Rightarrow> nat \<Rightarrow> 'b \<Rightarrow> int \<Rightarrow> int \<Rightarrow> bytes \<Rightarrow> ((errno + int) \<times> 'b) option" where
  "writebytes rs ws heap z startSector d offset count buf =
     (let buffer_offset = nat offset mod z; s = sec_start startSector z offset; n = sec_count z offset count
      in if buffer_offset = 0 \<and> count mod int z = 0 then
           (case mem_get buf 0 (n * z) of None \<Rightarrow> None
            | Some b \<Rightarrow> map_option (\<lambda>(ok, d'). (if \<not> ok then Inl EIO else Inr count, d')) (ws d s n b))
         else (case heap (u32 (n * z)) of None \<Rightarrow> Some (Inl ENOMEM, d)
            | Some mem \<Rightarrow>
                (case write_edges rs z d offset count s n mem of None \<Rightarrow> None
                 | Some (ok, buffer, d') \<Rightarrow>
                     if \<not> ok then Some (Inl EIO, d')
                     else (case mem_get buf 0 (nat count) of None \<Rightarrow> None
                        | Some xs \<Rightarrow> (case mem_put buffer buffer_offset xs of None \<Rightarrow> None
                            | Some buffer' \<Rightarrow> (case mem_get buffer' 0 (n * z) of None \<Rightarrow> None
                                | Some b \<Rightarrow> map_option (\<lambda>(ok, d''). (if \<not> ok then Inl EIO else Inr count, d'')) (ws d' s n b)))))))"

text \<open>The operations \<open>pread\<close> and \<open>pwrite\<close> of the device.\<close>

definition set_backing :: "'d gekko_fd ntfs_device \<Rightarrow> 'd gekko_fd \<Rightarrow> 'd backing \<Rightarrow> 'd gekko_fd ntfs_device" where
  "set_backing dev fd bk = dev \<lparr>d_private := Some (fd \<lparr>fd_interface := Some bk\<rparr>)\<rparr>"

definition ntfs_device_gekko_io_readbytes :: "'d disc_ops \<Rightarrow> (nat \<Rightarrow> bytes option) \<Rightarrow> 'd gekko_fd ntfs_device \<Rightarrow> int \<Rightarrow> int \<Rightarrow> bytes
    \<Rightarrow> ((errno + int) \<times> bytes \<times> 'd gekko_fd ntfs_device) option" where
  "ntfs_device_gekko_io_readbytes I heap dev offset count buf =
     (case d_private dev of None \<Rightarrow> Some (Inl EBADF, buf, dev)
      | Some fd \<Rightarrow> (case fd_interface fd of None \<Rightarrow> Some (Inl ENODEV, buf, dev)
          | Some bk \<Rightarrow>
              if offset < 0 then Some (Inl EROFS, buf, dev)
              else if count = 0 then Some (Inr 0, buf, dev)
              else if fd_sectorSize fd = 0 then None
              else map_option (\<lambda>(r, b, bk'). (r, b, set_backing dev fd bk'))
                (readbytes (gekko_readsectors (if_readSectors I) (if_writeSectors I)) heap (fd_sectorSize fd) (fd_startSector fd)
                   bk offset count buf)))"

definition ntfs_device_gekko_io_writebytes :: "'d disc_ops \<Rightarrow> (nat \<Rightarrow> bytes option) \<Rightarrow> 'd gekko_fd ntfs_device \<Rightarrow> int \<Rightarrow> int \<Rightarrow> bytes
    \<Rightarrow> ((errno + int) \<times> 'd gekko_fd ntfs_device) option" where
  "ntfs_device_gekko_io_writebytes I heap dev offset count buf =
     (case d_private dev of None \<Rightarrow> Some (Inl EBADF, dev)
      | Some fd \<Rightarrow> (case fd_interface fd of None \<Rightarrow> Some (Inl ENODEV, dev)
          | Some bk \<Rightarrow>
              if NDevReadOnly dev then Some (Inl EROFS, dev)
              else if count < 0 \<or> offset < 0 then Some (Inl EROFS, dev)
              else if count = 0 then Some (Inr 0, dev)
              else if fd_sectorSize fd = 0 then None
              else map_option (\<lambda>(r, bk'). (r, (set_backing dev fd bk') \<lparr>NDevDirty := (case r of Inl e \<Rightarrow> NDevDirty dev | Inr k \<Rightarrow> True)\<rparr>))
                (writebytes (gekko_readsectors (if_readSectors I) (if_writeSectors I)) (gekko_writesectors (if_writeSectors I)) heap
                   (fd_sectorSize fd) (fd_startSector fd) bk offset count buf)))"

definition ntfs_device_gekko_io_pread :: "'d disc_ops \<Rightarrow> (nat \<Rightarrow> bytes option) \<Rightarrow> 'd gekko_fd ntfs_device \<Rightarrow> bytes \<Rightarrow> int \<Rightarrow> int
    \<Rightarrow> ((errno + int) \<times> bytes \<times> 'd gekko_fd ntfs_device) option" where
  "ntfs_device_gekko_io_pread I heap dev buf count offset = ntfs_device_gekko_io_readbytes I heap dev offset count buf"

definition ntfs_device_gekko_io_pwrite :: "'d disc_ops \<Rightarrow> (nat \<Rightarrow> bytes option) \<Rightarrow> 'd gekko_fd ntfs_device \<Rightarrow> bytes \<Rightarrow> int \<Rightarrow> int
    \<Rightarrow> ((errno + int) \<times> 'd gekko_fd ntfs_device) option" where
  "ntfs_device_gekko_io_pwrite I heap dev buf count offset = ntfs_device_gekko_io_writebytes I heap dev offset count buf"

text \<open>\<open>read\<close> and \<open>write\<close> use the position set by \<open>seek\<close> and do not advance it.\<close>

definition ntfs_device_gekko_io_read :: "'d disc_ops \<Rightarrow> (nat \<Rightarrow> bytes option) \<Rightarrow> 'd gekko_fd ntfs_device \<Rightarrow> bytes \<Rightarrow> int
    \<Rightarrow> ((errno + int) \<times> bytes \<times> 'd gekko_fd ntfs_device) option" where
  "ntfs_device_gekko_io_read I heap dev buf count =
     (case d_private dev of None \<Rightarrow> None
      | Some fd \<Rightarrow> ntfs_device_gekko_io_readbytes I heap dev (s64 (int (fd_pos fd))) count buf)"

definition ntfs_device_gekko_io_write :: "'d disc_ops \<Rightarrow> (nat \<Rightarrow> bytes option) \<Rightarrow> 'd gekko_fd ntfs_device \<Rightarrow> bytes \<Rightarrow> int
    \<Rightarrow> ((errno + int) \<times> 'd gekko_fd ntfs_device) option" where
  "ntfs_device_gekko_io_write I heap dev buf count =
     (case d_private dev of None \<Rightarrow> None
      | Some fd \<Rightarrow> ntfs_device_gekko_io_writebytes I heap dev (s64 (int (fd_pos fd))) count buf)"

text \<open>The position is unsigned: a sum below zero is a number close to \<open>2 ^ 64\<close>.\<close>

datatype whence = SEEK_SET | SEEK_CUR | SEEK_END

definition ntfs_device_gekko_io_seek :: "'p gekko_fd ntfs_device \<Rightarrow> int \<Rightarrow> whence \<Rightarrow> (errno + int) \<times> 'p gekko_fd ntfs_device" where
  "ntfs_device_gekko_io_seek dev offset whence =
     (case d_private dev of None \<Rightarrow> (Inl EBADF, dev)
      | Some fd \<Rightarrow>
          (let p = (case whence of
                  SEEK_SET \<Rightarrow> min (nat (max offset 0)) (fd_len fd)
                | SEEK_CUR \<Rightarrow> min (nat ((int (fd_pos fd) + offset) mod 2 ^ 64)) (fd_len fd)
                | SEEK_END \<Rightarrow> min (nat ((int (fd_len fd) + offset) mod 2 ^ 64)) (fd_len fd))
           in (Inr 0, dev \<lparr>d_private := Some (fd \<lparr>fd_pos := p\<rparr>)\<rparr>)))"

definition ntfs_device_gekko_io_sync :: "'d disc_ops \<Rightarrow> 'd gekko_fd ntfs_device \<Rightarrow> ((errno + int) \<times> 'd gekko_fd ntfs_device) option" where
  "ntfs_device_gekko_io_sync I dev =
     (if NDevReadOnly dev then Some (Inl EROFS, dev)
      else (let dev1 = dev \<lparr>NDevDirty := False, NDevSync := False\<rparr>
        in case d_private dev of None \<Rightarrow> None
         | Some fd \<Rightarrow> (case fd_interface fd of
               Some (Cached c) \<Rightarrow>
                 map_option (\<lambda>(ok, c'). (if \<not> ok then Inl EIO else Inr 0, set_backing dev1 fd (Cached c')))
                   (NTFS_cache_flush (if_writeSectors I) c)
             | _ \<Rightarrow> Some (Inr 0, dev1))))"

section \<open>Opening and closing\<close>

definition MAX_SECTOR_SIZE :: nat where "MAX_SECTOR_SIZE = 4096"
definition O_RDONLY :: nat where "O_RDONLY = 0"

text \<open>\<open>alloc_pages\<close> holds the memory of the cache pages, \<open>acc\<close> the counter of accesses to all caches. A device that is
  not open has no cache.\<close>

definition gekko_attach :: "'d disc_ops \<Rightarrow> (nat \<Rightarrow> bytes) \<Rightarrow> nat \<Rightarrow> 'd gekko_fd ntfs_device \<Rightarrow> 'd gekko_fd \<Rightarrow> 'd \<Rightarrow> nat \<Rightarrow> bytes
    \<Rightarrow> 'd gekko_fd ntfs_device" where
  "gekko_attach I alloc_pages acc dev fd d flags boot =
     (let z = bytes_per_sector boot; n = u64 (nat (number_of_sectors boot mod 2 ^ 64));
          fd1 = fd \<lparr>fd_hiddenSectors := hidden_sectors boot, fd_sectorSize := z, fd_sectorCount := n, fd_pos := 0,
                    fd_len := u64 (n * z), fd_ino := volume_serial_number boot\<rparr>;
          bk = (case NTFS_cache_constructor (fd_cachePageCount fd) (fd_cachePageSize fd) d (fd_startSector fd)
                        (u32 (fd_startSector fd + n)) z alloc_pages acc of
                  None \<Rightarrow> NoCache d | Some c \<Rightarrow> Cached c)
      in dev \<lparr>d_private := Some (fd1 \<lparr>fd_interface := Some bk\<rparr>),
              NDevReadOnly := (NDevReadOnly dev \<or> (flags AND O_RDONLY) \<noteq> 0), NDevBlock := True, NDevOpen := True\<rparr>)"

definition ntfs_device_gekko_io_open :: "'d disc_ops \<Rightarrow> (nat \<Rightarrow> bytes option) \<Rightarrow> (nat \<Rightarrow> bytes) \<Rightarrow> nat \<Rightarrow> 'd gekko_fd ntfs_device \<Rightarrow> nat
    \<Rightarrow> (errno option \<times> 'd gekko_fd ntfs_device) option" where
  "ntfs_device_gekko_io_open I heap alloc_pages acc dev flags =
     (case d_private dev of None \<Rightarrow> Some (Some EBADF, dev)
      | Some fd \<Rightarrow> (case fd_interface fd of None \<Rightarrow> Some (Some ENODEV, dev)
          | Some bk \<Rightarrow>
             (let put = (\<lambda>d. set_backing dev fd (case bk of NoCache _ \<Rightarrow> NoCache d | Cached c \<Rightarrow> Cached (c \<lparr>disc := d\<rparr>)));
                  (up, d1) = if_startup I (case bk of NoCache d \<Rightarrow> d | Cached c \<Rightarrow> disc c)
              in if \<not> up then Some (Some EIO, put d1)
                 else (let (ins, d2) = if_isInserted I d1
                   in if \<not> ins then Some (Some EIO, put d2)
                      else if NDevOpen dev then Some (Some EBUSY, put d2)
                      else (case heap MAX_SECTOR_SIZE of None \<Rightarrow> Some (Some ENOMEM, put d2)
                        | Some mem \<Rightarrow> (case if_readSectors I d2 (fd_startSector fd) 1 mem of None \<Rightarrow> None
                            | Some (ok, boot, d3) \<Rightarrow>
                                if \<not> ok then Some (Some EIO, put d3)
                                else if \<not> ntfs_boot_sector_is_ntfs boot then Some (Some EINVALPART, put d3)
                                else Some (None, gekko_attach I alloc_pages acc dev fd d3 flags boot)))))))"

text \<open>\<open>close\<close> also gives the disc that is left; the result of the flush is not looked at.\<close>

definition ntfs_device_gekko_io_close :: "'d disc_ops \<Rightarrow> 'd gekko_fd ntfs_device
    \<Rightarrow> (errno option \<times> 'd gekko_fd ntfs_device \<times> 'd option) option" where
  "ntfs_device_gekko_io_close I dev =
     (case d_private dev of None \<Rightarrow> Some (Some EBADF, dev, None)
      | Some fd \<Rightarrow>
          if \<not> NDevOpen dev then Some (Some EIO, dev, None)
          else (let dev1 = dev \<lparr>NDevOpen := False, NDevBlock := False,
                               NDevDirty := (NDevDirty dev \<and> NDevReadOnly dev), d_private := None\<rparr>
             in case fd_interface fd of None \<Rightarrow> Some (None, dev1, None)
              | Some (NoCache d) \<Rightarrow> Some (None, dev1, Some d)
              | Some (Cached c) \<Rightarrow>
                  (case NTFS_cache_flush (if_writeSectors I) c of None \<Rightarrow> None
                   | Some (ok, c') \<Rightarrow> map_option (\<lambda>d. (None, dev1, Some d)) (NTFS_cache_destructor (if_writeSectors I) c'))))"

record gekko_stat =
  st_dev :: nat
  st_ino :: nat
  st_mode :: nat
  st_rdev :: nat
  st_blksize :: nat
  st_blocks :: nat

text \<open>The mode is a block device, readable by all and writable by all unless the device is read-only.\<close>

definition ntfs_device_gekko_io_stat :: "'d disc_ops \<Rightarrow> 'd gekko_fd ntfs_device \<Rightarrow> gekko_stat option \<Rightarrow> errno option \<times> gekko_stat option" where
  "ntfs_device_gekko_io_stat I dev buf =
     (case d_private dev of None \<Rightarrow> (Some EBADF, buf)
      | Some fd \<Rightarrow>
          (case buf of None \<Rightarrow> (None, None)
           | Some _ \<Rightarrow> (None, Some \<lparr>st_dev = if_ioType I, st_ino = fd_ino fd,
                 st_mode = 0x6000 + 0x124 + (if \<not> NDevReadOnly dev then 0x92 else 0), st_rdev = if_ioType I,
                 st_blksize = fd_sectorSize fd, st_blocks = fd_sectorCount fd\<rparr>)))"

datatype ioctl_request = BLKGETSIZE | BLKGETSIZE64 | HDIO_GETGEO | BLKSSZGET | BLKBSZSET int | OTHER_REQUEST

text \<open>The result, what is stored behind \<open>argp\<close>, and the device.\<close>

definition ntfs_device_gekko_io_ioctl :: "'p gekko_fd ntfs_device \<Rightarrow> ioctl_request \<Rightarrow> (errno option + int) \<times> nat option \<times> 'p gekko_fd ntfs_device" where
  "ntfs_device_gekko_io_ioctl dev request =
     (case d_private dev of None \<Rightarrow> (Inl (Some EBADF), None, dev)
      | Some fd \<Rightarrow>
          (case request of
             BLKGETSIZE \<Rightarrow> (Inr 0, Some (u32 (fd_sectorCount fd)), dev)
           | BLKGETSIZE64 \<Rightarrow> (Inr 0, Some (u64 (fd_sectorCount fd * fd_sectorSize fd)), dev)
           | HDIO_GETGEO \<Rightarrow> (Inl None, Some (fd_hiddenSectors fd), dev)
           | BLKSSZGET \<Rightarrow> (Inr 0, Some (fd_sectorSize fd), dev)
           | BLKBSZSET n \<Rightarrow> (Inr 0, None, dev \<lparr>d_private := Some (fd \<lparr>fd_sectorSize := nat (n mod 2 ^ 16)\<rparr>)\<rparr>)
           | OTHER_REQUEST \<Rightarrow> (Inl (Some EOPNOTSUPP), None, dev)))"


section \<open>The bytes of a device\<close>

text \<open>Byte \<open>o\<close> of the partition that starts at sector \<open>st\<close>, and a content with some bytes overwritten.\<close>

definition dev_byte :: "(nat \<Rightarrow> bytes) \<Rightarrow> nat \<Rightarrow> nat \<Rightarrow> nat \<Rightarrow> u8" where
  "dev_byte f z st k = f (st + k div z) ! (k mod z)"

definition put_bytes :: "(nat \<Rightarrow> u8) \<Rightarrow> nat \<Rightarrow> bytes \<Rightarrow> nat \<Rightarrow> u8" where
  "put_bytes g ofs b k = (if ofs \<le> k \<and> k < ofs + length b then b ! (k - ofs) else g k)"

definition bytes_from :: "(nat \<Rightarrow> u8) \<Rightarrow> nat \<Rightarrow> nat \<Rightarrow> bytes" where
  "bytes_from g ofs n = map g [ofs..<ofs + n]"

lemma length_bytes_from [simp]: "length (bytes_from g ofs n) = n"
  by (simp add: bytes_from_def)

lemma nth_bytes_from [simp]: "i < n \<Longrightarrow> bytes_from g ofs n ! i = g (ofs + i)"
  by (simp add: bytes_from_def)

lemma bytes_from_cong: "(\<And>k. ofs \<le> k \<Longrightarrow> k < ofs + n \<Longrightarrow> g k = h k) \<Longrightarrow> bytes_from g ofs n = bytes_from h ofs n"
  by (simp add: bytes_from_def)

lemma bytes_from_append: "bytes_from g ofs m @ bytes_from g (ofs + m) n = bytes_from g ofs (m + n)"
  by (rule nth_equalityI) (auto simp: nth_append)

lemma bytes_from_put: "bytes_from (put_bytes g ofs b) ofs (length b) = b"
  by (rule nth_equalityI) (simp_all add: put_bytes_def)

lemma put_bytes_append: "put_bytes (put_bytes g ofs b) (ofs + length b) c = put_bytes g ofs (b @ c)"
  by (rule ext) (auto simp: put_bytes_def nth_append)

lemma put_bytes_Nil [simp]: "put_bytes g ofs [] = g"
  by (rule ext) (auto simp: put_bytes_def)

lemma nth_sectors_of:
  assumes "\<And>k. s \<le> k \<Longrightarrow> k < s + n \<Longrightarrow> length (f k) = z" "i < n * z"
  shows "sectors_of f s n ! i = f (s + i div z) ! (i mod z)"
proof -
  have z: "0 < z" using assms(2) by (cases z) simp_all
  have q: "i div z < n" using assms(2) by (simp add: less_mult_imp_div_less)
  then have "chunk (i div z * z) z (sectors_of f s n) = f (s + i div z)"
    using chunk_sector [OF assms(1)] by simp
  moreover have "chunk (i div z * z) z (sectors_of f s n) ! (i mod z) = sectors_of f s n ! (i div z * z + i mod z)"
    using assms(2) length_sectors_of [OF assms(1)] z by (intro nth_chunk) simp_all
  ultimately show ?thesis by simp
qed

lemma dev_byte_put_sectors:
  assumes "length b = n * z" "0 < z"
  shows "dev_byte (put_sectors z f (st + q) n b) z st k =
    (if q \<le> k div z \<and> k div z < q + n then b ! (k - q * z) else dev_byte f z st k)"
proof (cases "q \<le> k div z \<and> k div z < q + n")
  case True
  have "(k div z - q) * z + k mod z = k - q * z"
    using True by (metis diff_add_assoc2 diff_mult_distrib div_mult_mod_eq mult_le_mono1)
  moreover have "chunk ((k div z - q) * z) z b ! (k mod z) = b ! ((k div z - q) * z + k mod z)"
  proof (rule nth_chunk)
    have "(k div z - q + 1) * z \<le> n * z" by (rule mult_le_mono1) (use True in linarith)
    moreover have "k mod z < z" using assms(2) by simp
    ultimately show "(k div z - q) * z + k mod z < length b" using assms(1) by simp
  qed (use assms(2) in simp)
  ultimately show ?thesis
    using True by (simp add: dev_byte_def put_sectors_def)
qed (auto simp: dev_byte_def put_sectors_def)

lemma small_sum: "x \<le> r + c + z - 1 \<Longrightarrow> r < z \<Longrightarrow> c < 2 ^ 31 \<Longrightarrow> z < 2 ^ 16 \<Longrightarrow> x < 2 ^ 32" for x r c z :: nat
  by simp

lemma small_sum': "x < r + c + z \<Longrightarrow> r < z \<Longrightarrow> c < 2 ^ 31 \<Longrightarrow> z < 2 ^ 16 \<Longrightarrow> x < 2 ^ 32" for x r c z :: nat
  by simp

text \<open>The number of sectors of a transfer: enough for its bytes, and not one more.\<close>

lemma sec_count_eq:
  assumes "0 < z" "0 < cnt" "cnt < 2 ^ 31" "z < 2 ^ 16"
  shows "sec_count z (int ofs) (int cnt) = (ofs mod z + cnt + z - 1) div z"
proof -
  let ?t = "ofs mod z + cnt"
  have lt: "ofs mod z < z" using assms(1) by simp
  have t: "int ofs mod int z + int cnt = int ?t" by (simp add: zmod_int)
  have "(?t + z - 1) div z \<le> ?t + z - 1" by (rule div_le_dividend)
  then have small: "(?t + z - 1) div z < 2 ^ 32" using small_sum lt assms(3,4) by blast
  show ?thesis
  proof (cases "?t > z")
    case True
    have "int ?t + int z - 1 = int (?t + z - 1)" using assms(1) by linarith
    then have "nat ((int ?t + int z - 1) div int z) = (?t + z - 1) div z"
      by (metis nat_int zdiv_int)
    then show ?thesis
      using True small by (simp add: sec_count_def Let_def t)
  next
    case False
    then have "(?t + z - 1) div z = 1"
      using assms(1,2) by (intro div_nat_eqI) simp_all
    then show ?thesis using False by (simp add: sec_count_def Let_def t)
  qed
qed

lemma ceil_bounds:
  fixes t z :: nat
  assumes "0 < z" "0 < t"
  shows "t \<le> (t + z - 1) div z * z" "(t + z - 1) div z * z < t + z" "0 < (t + z - 1) div z"
proof -
  have d: "(t + z - 1) div z * z + (t + z - 1) mod z = t + z - 1" by simp
  have m: "(t + z - 1) mod z < z" using assms(1) by simp
  show a: "t \<le> (t + z - 1) div z * z" "(t + z - 1) div z * z < t + z" using d m assms by linarith+
  show "0 < (t + z - 1) div z" using a(1) assms(2) by (cases "(t + z - 1) div z") simp_all
qed

text \<open>A transfer of \<open>cnt\<close> bytes at \<open>ofs\<close> of a partition of \<open>D\<close> sectors: sector \<open>ofs div z\<close>, \<open>n\<close> sectors.\<close>

lemma transfer_bounds:
  assumes "0 < z" "0 < cnt" "cnt < 2 ^ 31" "z < 2 ^ 16" "ofs + cnt \<le> D * z" "st + D < 2 ^ 32"
  defines "n \<equiv> sec_count z (int ofs) (int cnt)"
  shows "ofs mod z + cnt \<le> n * z" "n * z < ofs mod z + cnt + z" "0 < n" "ofs div z + n \<le> D" "u32 (n * z) = n * z"
    "sec_start st z (int ofs) = st + ofs div z" "u32 (n + 2 ^ 32 - 1) = n - 1" "n * z = (n - 1) * z + z"
    "u32 (st + ofs div z + n + 2 ^ 32 - 1) = st + ofs div z + n - 1" "u32 ((n - 1) * z) = (n - 1) * z"
proof -
  have lt: "ofs mod z < z" using assms(1) by simp
  have n: "n = (ofs mod z + cnt + z - 1) div z"
    unfolding n_def by (rule sec_count_eq [OF assms(1-4)])
  show b: "ofs mod z + cnt \<le> n * z" "n * z < ofs mod z + cnt + z" "0 < n"
    using ceil_bounds [OF assms(1), of "ofs mod z + cnt"] assms(2) by (simp_all add: n)
  have "(ofs div z + n) * z < ofs div z * z + (ofs mod z + cnt) + z"
    unfolding add_mult_distrib using b(2) by linarith
  also have "\<dots> = ofs + cnt + z" using div_mult_mod_eq [of ofs z] by linarith
  also have "\<dots> \<le> (D + 1) * z" using assms(5) by simp
  finally have "ofs div z + n < D + 1" by (simp only: mult_less_cancel2)
  then show D: "ofs div z + n \<le> D" by simp
  have nz32: "n * z < 2 ^ 32" by (rule small_sum' [OF b(2) lt assms(3,4)])
  then show "u32 (n * z) = n * z" by (rule u32_id)
  have "u32 (ofs div z) = ofs div z" "u32 (st + ofs div z) = st + ofs div z"
    using D b(3) assms(6) by (auto intro!: u32_id)
  then show "sec_start st z (int ofs) = st + ofs div z"
    by (simp add: sec_start_def)
  show "u32 (n + 2 ^ 32 - 1) = n - 1"
    using u32_sub [of 1 n] b(3) D assms(6) by simp
  show nz: "n * z = (n - 1) * z + z" using b(3) by (cases n) simp_all
  show "u32 (st + ofs div z + n + 2 ^ 32 - 1) = st + ofs div z + n - 1"
    using u32_sub [of 1 "st + ofs div z + n"] b(3) D assms(6) by simp
  show "u32 ((n - 1) * z) = (n - 1) * z" using nz nz32 by (intro u32_id) linarith
qed


lemma aligned_count:
  fixes n z cnt ofs :: nat
  assumes "0 < z" "ofs mod z = 0" "int cnt mod int z = 0" "ofs mod z + cnt \<le> n * z" "n * z < ofs mod z + cnt + z"
  shows "n * z = cnt"
proof -
  have "cnt mod z = 0" using assms(3) by (metis of_nat_0_eq_iff zmod_int)
  then obtain m where m: "cnt = m * z" by (metis div_mult_mod_eq add.right_neutral)
  have "m * z \<le> n * z" "n * z < (m + 1) * z" using assms by (simp_all add: m)
  then have "m \<le> n" "n < m + 1" using assms(1) by (simp_all only: mult_less_cancel2 mult_le_cancel2)
  then show ?thesis using m by simp
qed

section \<open>Transfers are correct\<close>

text \<open>Memory is what was asked for.\<close>

definition heap_law :: "(nat \<Rightarrow> bytes option) \<Rightarrow> bool" where
  "heap_law heap \<longleftrightarrow> (\<forall>n m. heap n = Some m \<longrightarrow> length m = n)"

context disc_interface
begin

text \<open>An operation that succeeds keeps the disc and its geometry.\<close>

definition same_disc :: "'d \<Rightarrow> 'd \<Rightarrow> bool" where
  "same_disc d d' \<longleftrightarrow> valid d' \<and> ssize d' = ssize d \<and> lo d' = lo d \<and> hi d' = hi d"

lemma sectors_into_ok:
  assumes "valid d" "lo d \<le> s" "s + n \<le> hi d" "z = ssize d" "ofs + n * z \<le> length mem"
  obtains ok b d' where "sectors_into rs z d s n mem ofs = Some (ok, blit mem ofs b, d')" "length b = n * z"
    "ok \<Longrightarrow> b = sectors_of (sect d) s n \<and> same_disc d d' \<and> sect d' = sect d" "live d \<Longrightarrow> ok \<and> live d'"
proof -
  let ?old = "chunk ofs (n * z) mem"
  have l: "length ?old = n * ssize d" using assms(4,5) by simp
  obtain ok b d' where r: "rs d s n ?old = Some (ok, b, d')"
    using rs_returns [OF assms(1-3) l] by auto
  have eq: "sectors_into rs z d s n mem ofs = Some (ok, blit mem ofs b, d')"
    unfolding sectors_into_def mem_get_SomeI [OF assms(5)] using r by simp
  show ?thesis
    using that [OF eq] rs_length [OF assms(1-3) l r] rs_ok [OF assms(1-3) l] rs_live [OF assms(1) _ assms(2,3) l r] r assms(4)
    by (auto simp: same_disc_def)
qed

lemma sect_len: "valid d \<Longrightarrow> lo d \<le> s \<Longrightarrow> s + n \<le> hi d \<Longrightarrow> s \<le> k \<Longrightarrow> k < s + n \<Longrightarrow> length (sect d k) = ssize d"
  using sect_length [of d k] by simp

lemma sectors_bytes:
  assumes "valid d" "lo d \<le> st" "st + (q + n) \<le> hi d" "z = ssize d" "i < n * z" "ofs div z = q"
  shows "sectors_of (sect d) (st + q) n ! i = dev_byte (sect d) z st (q * z + i)"
proof -
  have z: "0 < z" using geometry [OF assms(1)] assms(4) by simp
  have "sectors_of (sect d) (st + q) n ! i = sect d (st + q + i div z) ! (i mod z)"
    by (rule nth_sectors_of [OF _ assms(5)]) (use sect_len [OF assms(1), of "st + q" n] assms in simp)
  moreover have "(q * z + i) div z = q + i div z" "(q * z + i) mod z = i mod z" using z by simp_all
  ultimately show ?thesis by (simp add: dev_byte_def add.assoc)
qed

lemma chunk_sectors_bytes:
  assumes "valid d" "lo d \<le> st" "st + (ofs div z + n) \<le> hi d" "z = ssize d" "ofs mod z + cnt \<le> n * z"
  shows "chunk (ofs mod z) cnt (sectors_of (sect d) (st + ofs div z) n) = bytes_from (dev_byte (sect d) z st) ofs cnt"
proof (rule nth_equalityI)
  have l: "length (sectors_of (sect d) (st + ofs div z) n) = n * z"
    by (rule length_sectors_of) (use sect_len [OF assms(1), of "st + ofs div z" n] assms in simp)
  then show "length (chunk (ofs mod z) cnt (sectors_of (sect d) (st + ofs div z) n)) = length (bytes_from (dev_byte (sect d) z st) ofs cnt)"
    using assms(5) by simp
  fix i assume "i < length (chunk (ofs mod z) cnt (sectors_of (sect d) (st + ofs div z) n))"
  then have i: "i < cnt" by simp
  then have "sectors_of (sect d) (st + ofs div z) n ! (ofs mod z + i) = dev_byte (sect d) z st (ofs div z * z + (ofs mod z + i))"
    by (intro sectors_bytes [OF assms(1-4) _ refl]) (use assms(5) in simp)
  also have "ofs div z * z + (ofs mod z + i) = ofs + i" by simp
  finally show "chunk (ofs mod z) cnt (sectors_of (sect d) (st + ofs div z) n) ! i = bytes_from (dev_byte (sect d) z st) ofs cnt ! i"
    using i l assms(5) by (simp add: nth_chunk)
qed

lemma readbytes_ok:
  assumes v: "valid d" "lo d \<le> st" "st \<le> hi d" "z = ssize d" and r: "ofs + cnt \<le> (hi d - st) * z" "0 < cnt" "cnt < 2 ^ 31" "z < 2 ^ 16"
    and l: "length buf = cnt" and h: "heap_law heap"
  shows "\<exists>r b d'. readbytes rs heap z st d (int ofs) (int cnt) buf = Some (r, b, d') \<and> length b = cnt
     \<and> (\<forall>k. r = Inr k \<longrightarrow> k = int cnt \<and> b = bytes_from (dev_byte (sect d) z st) ofs cnt \<and> same_disc d d' \<and> sect d' = sect d)
     \<and> (live d \<and> (\<forall>n. heap n \<noteq> None) \<longrightarrow> r = Inr (int cnt) \<and> live d')"
proof -
  have z: "0 < z" using geometry [OF v(1)] v(4) by simp
  define n where "n = sec_count z (int ofs) (int cnt)"
  have dom: "st + (hi d - st) < 2 ^ 32" using geometry [OF v(1)] v(3) by simp
  note tb = transfer_bounds [OF z r(2,3,4,1) dom, folded n_def]
  let ?s = "st + ofs div z"
  have rng: "lo d \<le> ?s" "?s + n \<le> hi d" using tb(4) v(2,3) by simp_all
  have bo: "nat (int ofs) mod z = ofs mod z" by simp
  show ?thesis
  proof (cases "ofs mod z = 0 \<and> int cnt mod int z = 0")
    case True
    then have "n * z = cnt" using aligned_count [OF z _ _ tb(1,2)] by simp
    then have fit: "0 + n * z \<le> length buf" using l by simp
    obtain ok b d' where si: "sectors_into rs z d ?s n buf 0 = Some (ok, blit buf 0 b, d')" "length b = n * z"
      "ok \<Longrightarrow> b = sectors_of (sect d) ?s n \<and> same_disc d d' \<and> sect d' = sect d" "live d \<Longrightarrow> ok \<and> live d'"
      using sectors_into_ok [OF v(1) rng v(4) fit] by metis
    have whole: "blit buf 0 b = b" using si(2) l \<open>n * z = cnt\<close> by (simp add: blit_def)
    have "b = bytes_from (dev_byte (sect d) z st) ofs cnt" if ok
    proof -
      have "chunk 0 cnt b = b" using si(2) \<open>n * z = cnt\<close> by (simp add: chunk_full)
      then show ?thesis
        using chunk_sectors_bytes [OF v(1,2) _ v(4), of ofs n cnt] si(3) [OF that] tb(1,4) v(3) True by simp
    qed
    moreover have "readbytes rs heap z st d (int ofs) (int cnt) buf = Some (if \<not> ok then Inl EIO else Inr (int cnt), b, d')"
      unfolding readbytes_def Let_def bo n_def [symmetric] tb(6) using True si(1) whole by simp
    ultimately show ?thesis using si whole \<open>n * z = cnt\<close> by (cases ok) auto
  next
    case False
    then have nal: "(ofs mod z = 0 \<and> int cnt mod int z = 0) = False" by blast
    show ?thesis
    proof (cases "heap (n * z)")
      case None
      then have "readbytes rs heap z st d (int ofs) (int cnt) buf = Some (Inl ENOMEM, buf, d)"
        unfolding readbytes_def Let_def bo n_def [symmetric] tb(5,6) nal if_False using False by simp
      then show ?thesis using None l by auto
    next
      case (Some mem)
      then have lm: "length mem = n * z" using h by (simp add: heap_law_def)
      then have fit: "0 + n * z \<le> length mem" by simp
      obtain ok b d' where si: "sectors_into rs z d ?s n mem 0 = Some (ok, blit mem 0 b, d')" "length b = n * z"
        "ok \<Longrightarrow> b = sectors_of (sect d) ?s n \<and> same_disc d d' \<and> sect d' = sect d" "live d \<Longrightarrow> ok \<and> live d'"
        using sectors_into_ok [OF v(1) rng v(4) fit] by metis
      have whole: "blit mem 0 b = b" using si(2) lm by (simp add: blit_def)
      have get: "mem_get b (ofs mod z) cnt = Some (chunk (ofs mod z) cnt b)"
        by (rule mem_get_SomeI) (use tb(1) si(2) in simp)
      have lc: "length (chunk (ofs mod z) cnt b) = cnt" using tb(1) si(2) by simp
      have put: "mem_put buf 0 (chunk (ofs mod z) cnt b) = Some (chunk (ofs mod z) cnt b)"
        using lc l by (simp add: mem_put_def blit_def)
      have "readbytes rs heap z st d (int ofs) (int cnt) buf =
          (if \<not> ok then Some (Inl EIO, buf, d') else Some (Inr (int cnt), chunk (ofs mod z) cnt b, d'))"
        unfolding readbytes_def Let_def bo n_def [symmetric] tb(5,6) nal if_False using False Some si(1) whole get put by simp
      moreover have "chunk (ofs mod z) cnt b = bytes_from (dev_byte (sect d) z st) ofs cnt" if ok
        using chunk_sectors_bytes [OF v(1,2) _ v(4) tb(1)] si(3) [OF that] tb(4) v(3) by simp
      ultimately show ?thesis using si lc l by (cases ok) auto
    qed
  qed
qed


text \<open>What the two edges bring into the buffer.\<close>

lemma write_edges_ok:
  assumes v: "valid d" "lo d \<le> st" "st \<le> hi d" "z = ssize d" and r: "ofs + cnt \<le> (hi d - st) * z" "0 < cnt" "cnt < 2 ^ 31" "z < 2 ^ 16"
    and n: "n = sec_count z (int ofs) (int cnt)" and l: "length mem = n * z"
  obtains ok b d' where "write_edges rs z d (int ofs) (int cnt) (st + ofs div z) n mem = Some (ok, b, d')" "length b = n * z"
    "ok \<Longrightarrow> same_disc d d' \<and> sect d' = sect d \<and> (\<forall>i < n * z. i < ofs mod z \<or> ofs mod z + cnt \<le> i \<longrightarrow>
        b ! i = dev_byte (sect d) z st (ofs div z * z + i))" "live d \<Longrightarrow> ok \<and> live d'"
proof -
  have z: "0 < z" using geometry [OF v(1)] v(4) by simp
  have dom: "st + (hi d - st) < 2 ^ 32" using geometry [OF v(1)] v(3) by simp
  note tb = transfer_bounds [OF z r(2,3,4,1) dom, folded n]
  let ?s = "st + ofs div z" and ?g = "\<lambda>i. dev_byte (sect d) z st (ofs div z * z + i)"
  have bo: "nat (int ofs) mod z = ofs mod z" by simp
  have lt: "ofs mod z < z" using z by simp
  have first: "lo d \<le> ?s" "?s + 1 \<le> hi d" using tb(3,4) v(2,3) by simp_all
  have fit1: "0 + 1 * z \<le> length mem" using tb(8) l by simp
  define E1 where "E1 = (if ofs mod z \<noteq> 0 then sectors_into rs z d ?s 1 mem 0 else Some (True, mem, d))"
  have "\<exists>ok b d'. E1 = Some (ok, b, d') \<and> length b = n * z \<and> (live d \<longrightarrow> ok \<and> live d')
     \<and> (ok \<longrightarrow> same_disc d d' \<and> sect d' = sect d \<and> (\<forall>i < z. ofs mod z \<noteq> 0 \<longrightarrow> b ! i = ?g i))"
  proof (cases "ofs mod z = 0")
    case True
    then show ?thesis using l v(1) by (auto simp: E1_def same_disc_def)
  next
    case False
    obtain ok b d' where si: "sectors_into rs z d ?s 1 mem 0 = Some (ok, blit mem 0 b, d')" "length b = 1 * z"
      "ok \<Longrightarrow> b = sectors_of (sect d) ?s 1 \<and> same_disc d d' \<and> sect d' = sect d" "live d \<Longrightarrow> ok \<and> live d'"
      using sectors_into_ok [OF v(1) first v(4) fit1] by metis
    have "blit mem 0 b ! i = ?g i" if ok "i < z" for i
    proof -
      have "blit mem 0 b ! i = b ! i" using that(2) si(2) fit1 by (simp add: nth_blit)
      also have "b ! i = sectors_of (sect d) ?s 1 ! i" using si(3) [OF that(1)] by simp
      also have "\<dots> = ?g i"
        by (rule sectors_bytes [OF v(1,2) _ v(4)]) (use that(2) tb(3,4) v(3) in simp_all)
      finally show ?thesis .
    qed
    then show ?thesis using False si fit1 l by (auto simp: E1_def)
  qed
  then obtain ok1 b1 d1 where e1: "E1 = Some (ok1, b1, d1)" "length b1 = n * z" "live d \<longrightarrow> ok1 \<and> live d1"
     "ok1 \<Longrightarrow> same_disc d d1 \<and> sect d1 = sect d \<and> (\<forall>i < z. ofs mod z \<noteq> 0 \<longrightarrow> b1 ! i = ?g i)"
    by blast
  have edges: "write_edges rs z d (int ofs) (int cnt) ?s n mem =
      (if \<not> ok1 then Some (False, b1, d1) else if (ofs mod z + cnt) mod z \<noteq> 0
       then sectors_into rs z d1 (?s + n - 1) 1 b1 ((n - 1) * z) else Some (True, b1, d1))"
  proof -
    have "(int ofs mod int z + int cnt) mod int z = int ((ofs mod z + cnt) mod z)" by (simp add: zmod_int)
    then show ?thesis
      unfolding write_edges_def bo E1_def [symmetric] e1(1) option.case prod.case tb(7,9,10) by simp
  qed
  show ?thesis
  proof (cases "ok1 \<and> (ofs mod z + cnt) mod z \<noteq> 0")
    case False
    have tail: "i < ofs mod z + cnt" if "ok1" "i < n * z" for i
    proof -
      have "(ofs mod z + cnt) mod z = 0" using False that by simp
      then obtain m where m: "ofs mod z + cnt = m * z" by (metis div_mult_mod_eq add.right_neutral)
      have "n * z < (m + 1) * z" using tb(2) m by simp
      then have "n < m + 1" by (simp only: mult_less_cancel2)
      then have "n * z \<le> m * z" by (intro mult_le_mono1) simp
      then show ?thesis using that(2) m by linarith
    qed
    have "write_edges rs z d (int ofs) (int cnt) ?s n mem = Some (ok1, b1, d1)"
      using edges False by auto
    moreover have "b1 ! i = ?g i" if "ok1" "i < n * z" "i < ofs mod z \<or> ofs mod z + cnt \<le> i" for i
    proof -
      have "i < ofs mod z" using tail [OF that(1,2)] that(3) by simp
      then have "i < z" "ofs mod z \<noteq> 0" using lt by linarith+
      then show ?thesis using e1(4) [OF that(1)] by blast
    qed
    ultimately show ?thesis using that [of ok1 b1 d1] e1 by blast
  next
    case True
    then have d1: "same_disc d d1" "sect d1 = sect d" "\<forall>i < z. ofs mod z \<noteq> 0 \<longrightarrow> b1 ! i = ?g i" using e1(4) by auto
    then have v1: "valid d1" "lo d1 \<le> ?s + n - 1" "?s + n - 1 + 1 \<le> hi d1" "z = ssize d1"
      using first tb(3,4) v(3,4) by (auto simp: same_disc_def)
    have fit2: "(n - 1) * z + 1 * z \<le> length b1" using tb(8) e1(2) by simp
    obtain ok b d' where si: "sectors_into rs z d1 (?s + n - 1) 1 b1 ((n - 1) * z) = Some (ok, blit b1 ((n - 1) * z) b, d')" "length b = 1 * z"
      "ok \<Longrightarrow> b = sectors_of (sect d1) (?s + n - 1) 1 \<and> same_disc d1 d' \<and> sect d' = sect d1" "live d1 \<Longrightarrow> ok \<and> live d'"
      using sectors_into_ok [OF v1 fit2] by metis
    have s': "?s + n - 1 = st + (ofs div z + n - 1)" using tb(3) by simp
    have val: "blit b1 ((n - 1) * z) b ! i = ?g i" if "ok" "i < n * z" "i < ofs mod z \<or> ofs mod z + cnt \<le> i" for i
    proof (cases "(n - 1) * z \<le> i")
      case True
      then have j: "i - (n - 1) * z < 1 * z" using that(2) tb(8) by simp
      have "blit b1 ((n - 1) * z) b ! i = b ! (i - (n - 1) * z)"
        using True si(2) fit2 that(2) e1(2) tb(8) by (simp add: nth_blit)
      also have "\<dots> = sectors_of (sect d) (st + (ofs div z + n - 1)) 1 ! (i - (n - 1) * z)"
        using si(3) [OF that(1)] d1(2) s' by simp
      also have "\<dots> = dev_byte (sect d) z st ((ofs div z + n - 1) * z + (i - (n - 1) * z))"
      proof (rule sectors_bytes [OF v(1,2) _ v(4) j])
        show "st + (ofs div z + n - 1 + 1) \<le> hi d" using tb(3,4) v(3) by simp
        show "(ofs div z + n - 1) * z div z = ofs div z + n - 1" using z by simp
      qed
      also have "(ofs div z + n - 1) * z + (i - (n - 1) * z) = ofs div z * z + i"
      proof -
        have "(ofs div z + n - 1) * z = ofs div z * z + (n - 1) * z"
          using tb(3) by (simp add: add_mult_distrib [symmetric])
        then show ?thesis using True by simp
      qed
      finally show ?thesis .
    next
      case False
      have "(n - 1) * z < ofs mod z + cnt" using tb(2,8) by linarith
      then have i: "i < ofs mod z" using False that(3) by linarith
      have "blit b1 ((n - 1) * z) b ! i = b1 ! i"
        using False si(2) fit2 that(2) e1(2) by (simp add: nth_blit)
      then show ?thesis using d1(3) i lt by simp
    qed
    have "same_disc d d'" "sect d' = sect d" if ok
      using si(3) [OF that] d1(1,2) by (auto simp: same_disc_def)
    moreover have "write_edges rs z d (int ofs) (int cnt) ?s n mem = Some (ok, blit b1 ((n - 1) * z) b, d')"
      using edges True si(1) by simp
    moreover have "length (blit b1 ((n - 1) * z) b) = n * z" using si(2) fit2 e1(2) by simp
    moreover have "live d \<Longrightarrow> ok \<and> live d'" using e1(3) si(4) by blast
    ultimately show ?thesis using that [of ok "blit b1 ((n - 1) * z) b" d'] val by blast
  qed
qed

lemma writebytes_ok:
  assumes v: "valid d" "lo d \<le> st" "st \<le> hi d" "z = ssize d" and r: "ofs + cnt \<le> (hi d - st) * z" "0 < cnt" "cnt < 2 ^ 31" "z < 2 ^ 16"
    and l: "length buf = cnt" and h: "heap_law heap"
  shows "\<exists>r d'. writebytes rs ws heap z st d (int ofs) (int cnt) buf = Some (r, d')
     \<and> (\<forall>k. r = Inr k \<longrightarrow> k = int cnt \<and> same_disc d d' \<and> dev_byte (sect d') z st = put_bytes (dev_byte (sect d) z st) ofs buf)
     \<and> (live d \<and> (\<forall>n. heap n \<noteq> None) \<longrightarrow> r = Inr (int cnt) \<and> live d')"
proof -
  have z: "0 < z" using geometry [OF v(1)] v(4) by simp
  define n where "n = sec_count z (int ofs) (int cnt)"
  have dom: "st + (hi d - st) < 2 ^ 32" using geometry [OF v(1)] v(3) by simp
  note tb = transfer_bounds [OF z r(2,3,4,1) dom, folded n_def]
  let ?s = "st + ofs div z" and ?g = "dev_byte (sect d) z st"
  have rng: "lo d \<le> ?s" "?s + n \<le> hi d" using tb(4) v(2,3) by simp_all
  have bo: "nat (int ofs) mod z = ofs mod z" by simp
  have wr: "\<exists>ok d''. ws d' ?s n x = Some (ok, d'') \<and> (ok \<longrightarrow> same_disc d d'' \<and> dev_byte (sect d'') z st = put_bytes ?g ofs buf)
      \<and> (live d' \<longrightarrow> ok \<and> live d'')"
    if "same_disc d d'" "sect d' = sect d" "length x = n * z"
      and x: "\<And>i. i < n * z \<Longrightarrow> x ! i = (if ofs mod z \<le> i \<and> i < ofs mod z + cnt then buf ! (i - ofs mod z) else ?g (ofs div z * z + i))"
    for d' x
  proof -
    have v': "valid d'" "lo d' \<le> ?s" "?s + n \<le> hi d'" "length x = n * ssize d'"
      using that(1,3) rng v(4) by (auto simp: same_disc_def)
    obtain ok d'' where w: "ws d' ?s n x = Some (ok, d'')" using ws_returns [OF v'] by auto
    have "dev_byte (sect d'') z st = put_bytes ?g ofs buf" "same_disc d d''" if ok
    proof -
      have post: "valid d'' \<and> sect d'' = put_sectors z (sect d) ?s n x \<and> ssize d'' = ssize d' \<and> lo d'' = lo d' \<and> hi d'' = hi d'"
      proof -
        have w': "ws d' ?s n x = Some (True, d'')" using w that by simp
        have "ssize d' = z" using \<open>same_disc d d'\<close> v(4) by (simp add: same_disc_def)
        then show ?thesis using ws_ok [OF v' w'] \<open>sect d' = sect d\<close> by simp
      qed
      then show "same_disc d d''" using \<open>same_disc d d'\<close> by (simp add: same_disc_def)
      show "dev_byte (sect d'') z st = put_bytes ?g ofs buf"
      proof (rule ext)
        fix k
        have km: "k div z * z + k mod z = k" "ofs div z * z + ofs mod z = ofs" "k mod z < z" "ofs mod z < z" using z by simp_all
        show "dev_byte (sect d'') z st k = put_bytes ?g ofs buf k"
        proof (cases "ofs div z \<le> k div z \<and> k div z < ofs div z + n")
          case True
          have a: "ofs div z * z \<le> k div z * z" by (rule mult_le_mono1) (use True in simp)
          then have ge: "ofs div z * z \<le> k" using km by linarith
          have "(k div z + 1) * z \<le> (ofs div z + n) * z" by (rule mult_le_mono1) (use True in simp)
          then have "k div z * z + z \<le> ofs div z * z + n * z" by (simp only: add_mult_distrib mult_1)
          then have lt: "k - ofs div z * z < n * z" using km(1,3) ge by linarith
          have "dev_byte (sect d'') z st k = x ! (k - ofs div z * z)"
            using dev_byte_put_sectors [OF \<open>length x = n * z\<close> z, of "sect d" st "ofs div z" k] True post by simp
          moreover have "(ofs mod z \<le> k - ofs div z * z \<and> k - ofs div z * z < ofs mod z + cnt) = (ofs \<le> k \<and> k < ofs + cnt)"
            using km(2) ge by linarith
          moreover have "k - ofs div z * z - ofs mod z = k - ofs" "ofs div z * z + (k - ofs div z * z) = k"
            using km(2) ge by linarith+
          ultimately show ?thesis
            using x [OF lt] l unfolding put_bytes_def by simp
        next
          case False
          have "\<not> (ofs \<le> k \<and> k < ofs + cnt)"
          proof
            assume k: "ofs \<le> k \<and> k < ofs + cnt"
            then have "ofs div z \<le> k div z" by (simp add: div_le_mono)
            then have "ofs div z + n \<le> k div z" using False by simp
            then have "(ofs div z + n) * z \<le> k div z * z" by (rule mult_le_mono1)
            then have "ofs div z * z + n * z \<le> k div z * z" by (simp only: add_mult_distrib)
            then have "ofs div z * z + n * z \<le> k" using km(1) by linarith
            then show False using tb(1) k km by linarith
          qed
          then show ?thesis
            using dev_byte_put_sectors [OF \<open>length x = n * z\<close> z, of "sect d" st "ofs div z" k] False post l by (auto simp: put_bytes_def)
        qed
      qed
    qed
    moreover have "live d' \<Longrightarrow> ok \<and> live d''" using ws_live [OF v'(1) _ v'(2-4) w] by blast
    ultimately show ?thesis using w by blast
  qed
  show ?thesis
  proof (cases "ofs mod z = 0 \<and> int cnt mod int z = 0")
    case True
    then have nz: "n * z = cnt" using aligned_count [OF z _ _ tb(1,2)] by simp
    have get: "mem_get buf 0 (n * z) = Some buf" using l nz by (simp add: mem_get_def chunk_full)
    obtain ok d'' where w: "ws d ?s n buf = Some (ok, d'')" "ok \<longrightarrow> same_disc d d'' \<and> dev_byte (sect d'') z st = put_bytes ?g ofs buf"
        "live d \<longrightarrow> ok \<and> live d''"
      using wr [of d buf] v(1) l nz True by (auto simp: same_disc_def)
    have "writebytes rs ws heap z st d (int ofs) (int cnt) buf = Some (if \<not> ok then Inl EIO else Inr (int cnt), d'')"
      unfolding writebytes_def Let_def bo n_def [symmetric] tb(6) using True get w(1) by simp
    then show ?thesis using w by (cases ok) auto
  next
    case False
    then have nal: "(ofs mod z = 0 \<and> int cnt mod int z = 0) = False" by blast
    show ?thesis
    proof (cases "heap (n * z)")
      case None
      then have "writebytes rs ws heap z st d (int ofs) (int cnt) buf = Some (Inl ENOMEM, d)"
        unfolding writebytes_def Let_def bo n_def [symmetric] tb(5,6) nal if_False using False by simp
      then show ?thesis using None by auto
    next
      case (Some mem)
      then have lm: "length mem = n * z" using h by (simp add: heap_law_def)
      obtain ok b d' where e: "write_edges rs z d (int ofs) (int cnt) ?s n mem = Some (ok, b, d')" "length b = n * z"
        "ok \<Longrightarrow> same_disc d d' \<and> sect d' = sect d \<and> (\<forall>i < n * z. i < ofs mod z \<or> ofs mod z + cnt \<le> i \<longrightarrow>
            b ! i = ?g (ofs div z * z + i))" "live d \<Longrightarrow> ok \<and> live d'"
        using write_edges_ok [OF v r n_def lm] by metis
      have get: "mem_get buf 0 (nat (int cnt)) = Some buf" using l by (simp add: mem_get_def chunk_full)
      have fit: "ofs mod z + length buf \<le> length b" using tb(1) l e(2) by simp
      let ?x = "blit b (ofs mod z) buf"
      have lx: "length ?x = n * z" using fit e(2) by simp
      have get2: "mem_get ?x 0 (n * z) = Some ?x" using lx by (simp add: mem_get_def chunk_full)
      show ?thesis
      proof (cases ok)
        case no: False
        have "writebytes rs ws heap z st d (int ofs) (int cnt) buf = Some (Inl EIO, d')"
          unfolding writebytes_def Let_def bo n_def [symmetric] tb(5,6) nal if_False using False Some e(1) no by simp
        then show ?thesis using e(4) no by auto
      next
        case yes: True
        have "?x ! i = (if ofs mod z \<le> i \<and> i < ofs mod z + cnt then buf ! (i - ofs mod z) else ?g (ofs div z * z + i))"
          if "i < n * z" for i
          using e(3) [OF yes] that fit l e(2) by (auto simp: nth_blit)
        then obtain ok2 d'' where w: "ws d' ?s n ?x = Some (ok2, d'')"
            "ok2 \<longrightarrow> same_disc d d'' \<and> dev_byte (sect d'') z st = put_bytes ?g ofs buf" "live d' \<longrightarrow> ok2 \<and> live d''"
          using wr [of d' ?x] e(3) [OF yes] lx by auto
        have "writebytes rs ws heap z st d (int ofs) (int cnt) buf = Some (if \<not> ok2 then Inl EIO else Inr (int cnt), d'')"
          unfolding writebytes_def Let_def bo n_def [symmetric] tb(5,6) nal if_False
          using False Some e(1) yes get get2 w(1) mem_put_SomeI [OF fit] by simp
        then show ?thesis using w e(4) by (cases ok2) auto
      qed
    qed
  qed
qed

end


section \<open>The contract of a byte device\<close>

text \<open>
  What \<open>device.c\<close> relies on of the operations of a device: \<open>pread v buf n ofs\<close> and \<open>pwrite v buf n ofs\<close> transfer
  \<open>n\<close> bytes, or fail, or transfer fewer. \<open>content v\<close> is the bytes of the device, \<open>dsize v\<close> their number. Neither
  depends on the state bits. After a failure nothing is promised.
\<close>

definition same_mode :: "'p ntfs_device \<Rightarrow> 'p ntfs_device \<Rightarrow> bool" where
  "same_mode v v' \<longleftrightarrow> NDevReadOnly v' = NDevReadOnly v \<and> NDevSync v' = NDevSync v \<and> NDevOpen v' = NDevOpen v"

lemma same_mode_simps [simp]: "same_mode v v" "same_mode v (v\<lparr>NDevDirty := b\<rparr>)" "same_mode v (v\<lparr>d_private := q\<rparr>)"
  by (simp_all add: same_mode_def)

lemma same_mode_trans: "same_mode u v \<Longrightarrow> same_mode v w \<Longrightarrow> same_mode u w"
  by (simp add: same_mode_def)

locale byte_device =
  fixes pread :: "'p ntfs_device \<Rightarrow> bytes \<Rightarrow> int \<Rightarrow> int \<Rightarrow> ((errno + int) \<times> bytes \<times> 'p ntfs_device) option"
    and pwrite :: "'p ntfs_device \<Rightarrow> bytes \<Rightarrow> int \<Rightarrow> int \<Rightarrow> ((errno + int) \<times> 'p ntfs_device) option"
    and dsync :: "'p ntfs_device \<Rightarrow> ((errno + int) \<times> 'p ntfs_device) option"
    and dsize :: "'p ntfs_device \<Rightarrow> nat"
    and content :: "'p ntfs_device \<Rightarrow> nat \<Rightarrow> u8"
    and dvalid dlive :: "'p ntfs_device \<Rightarrow> bool"
  assumes pread_ok: "dvalid v \<Longrightarrow> ofs + n \<le> dsize v \<Longrightarrow> 0 < n \<Longrightarrow> n < 2 ^ 31 \<Longrightarrow> length buf = n \<Longrightarrow>
      \<exists>r b v'. pread v buf (int n) (int ofs) = Some (r, b, v') \<and> length b = n \<and> same_mode v v'
        \<and> (\<forall>k. r = Inr k \<longrightarrow> 0 \<le> k \<and> k \<le> int n \<and> take (nat k) b = bytes_from (content v) ofs (nat k)
             \<and> dvalid v' \<and> dsize v' = dsize v \<and> content v' = content v)
        \<and> (dlive v \<longrightarrow> r = Inr (int n) \<and> dlive v')"
    and pwrite_ok: "dvalid v \<Longrightarrow> \<not> NDevReadOnly v \<Longrightarrow> ofs + n \<le> dsize v \<Longrightarrow> 0 < n \<Longrightarrow> n < 2 ^ 31 \<Longrightarrow> length buf = n \<Longrightarrow>
      \<exists>r v'. pwrite v buf (int n) (int ofs) = Some (r, v') \<and> same_mode v v'
        \<and> (\<forall>k. r = Inr k \<longrightarrow> 0 \<le> k \<and> k \<le> int n \<and> dvalid v' \<and> dsize v' = dsize v
             \<and> content v' = put_bytes (content v) ofs (take (nat k) buf))
        \<and> (dlive v \<longrightarrow> r = Inr (int n) \<and> dlive v')"
    and sync_ok: "dvalid v \<Longrightarrow> \<not> NDevReadOnly v \<Longrightarrow>
      \<exists>r v'. dsync v = Some (r, v') \<and> NDevReadOnly v' = NDevReadOnly v
        \<and> (\<forall>k. r = Inr k \<longrightarrow> k = 0 \<and> dvalid v' \<and> dsize v' = dsize v \<and> content v' = content v)
        \<and> (dlive v \<longrightarrow> r = Inr 0 \<and> dlive v')"
    and dirty_bit: "dvalid (v\<lparr>NDevDirty := b\<rparr>) = dvalid v" "dsize (v\<lparr>NDevDirty := b\<rparr>) = dsize v"
      "content (v\<lparr>NDevDirty := b\<rparr>) = content v" "dlive (v\<lparr>NDevDirty := b\<rparr>) = dlive v"

section \<open>The device keeps the contract\<close>

text \<open>The sectors behind a device, with or without a cache.\<close>

sublocale cached_disc \<subseteq> backed: disc_interface "gekko_readsectors rs ws" "gekko_writesectors ws" "case_backing ssize sectorSize"
  "case_backing lo startOfPartition" "case_backing hi endOfPartition" "case_backing sect (cache_view sect)"
  "case_backing valid (cache_valid ssize lo hi sect valid)" "case_backing live (\<lambda>c. live (disc c))"
proof
  fix bk :: "'a backing" and s n k and buf b :: bytes and r bk'
  assume v: "case_backing valid cvalid bk"
  show "0 < case_backing ssize sectorSize bk \<and> case_backing lo startOfPartition bk \<le> case_backing hi endOfPartition bk
      \<and> case_backing hi endOfPartition bk < 2 ^ 32"
    proof (cases bk)
      case (NoCache d)
      then show ?thesis using v geometry [of d] by auto
    next
      case (Cached c)
      then show ?thesis using v cache.geometry [of c] by auto
    qed
  show "length (case_backing sect (cache_view sect) bk k) = case_backing ssize sectorSize bk"
    if "case_backing lo startOfPartition bk \<le> k" "k < case_backing hi endOfPartition bk"
    proof (cases bk)
      case (NoCache d)
      then show ?thesis using v that sect_length [of d k] by auto
    next
      case (Cached c)
      then show ?thesis using v that cache.sect_length [of c k] by auto
    qed
  assume s: "case_backing lo startOfPartition bk \<le> s" and e: "s + n \<le> case_backing hi endOfPartition bk"
    and l: "length buf = n * case_backing ssize sectorSize bk"
  note h = v s e l
  show "gekko_readsectors rs ws bk s n buf \<noteq> None"
    proof (cases bk)
      case (NoCache d)
      then show ?thesis using h rs_returns [of d s n buf] by auto
    next
      case (Cached c)
      then show ?thesis using h cache.rs_returns [of c s n buf] by auto
    qed
  show "gekko_writesectors ws bk s n buf \<noteq> None"
    proof (cases bk)
      case (NoCache d)
      then show ?thesis using h ws_returns [of d s n buf] by auto
    next
      case (Cached c)
      then show ?thesis using h cache.ws_returns [of c s n buf] by auto
    qed
  show "length b = n * case_backing ssize sectorSize bk" if "gekko_readsectors rs ws bk s n buf = Some (r, b, bk')"
    proof (cases bk)
      case (NoCache d)
      then show ?thesis using h that rs_length [of d s n buf] by auto
    next
      case (Cached c)
      then show ?thesis using h that cache.rs_length [of c s n buf] by auto
    qed
  show "b = sectors_of (case_backing sect (cache_view sect) bk) s n \<and> case_backing valid cvalid bk'
      \<and> case_backing sect (cache_view sect) bk' = case_backing sect (cache_view sect) bk
      \<and> case_backing ssize sectorSize bk' = case_backing ssize sectorSize bk
      \<and> case_backing lo startOfPartition bk' = case_backing lo startOfPartition bk
      \<and> case_backing hi endOfPartition bk' = case_backing hi endOfPartition bk"
    if a: "gekko_readsectors rs ws bk s n buf = Some (True, b, bk')"
    proof (cases bk)
      case (NoCache d)
      then obtain x where x: "bk' = NoCache x" "rs d s n buf = Some (True, b, x)" using a by auto
      show ?thesis using h rs_ok [OF _ _ _ _ x(2)] unfolding x(1) NoCache by simp
    next
      case (Cached c)
      then obtain x where x: "bk' = Cached x" "NTFS_cache_readSectors rs ws c s n buf = Some (True, b, x)" using a by auto
      show ?thesis using h cache.rs_ok [OF _ _ _ _ x(2)] unfolding x(1) Cached by simp
    qed
  show "case_backing valid cvalid bk'
      \<and> case_backing sect (cache_view sect) bk' = put_sectors (case_backing ssize sectorSize bk) (case_backing sect (cache_view sect) bk) s n buf
      \<and> case_backing ssize sectorSize bk' = case_backing ssize sectorSize bk
      \<and> case_backing lo startOfPartition bk' = case_backing lo startOfPartition bk
      \<and> case_backing hi endOfPartition bk' = case_backing hi endOfPartition bk"
    if a: "gekko_writesectors ws bk s n buf = Some (True, bk')"
    proof (cases bk)
      case (NoCache d)
      then obtain x where x: "bk' = NoCache x" "ws d s n buf = Some (True, x)" using a by auto
      show ?thesis using h ws_ok [OF _ _ _ _ x(2)] unfolding x(1) NoCache by simp
    next
      case (Cached c)
      then obtain x where x: "bk' = Cached x" "NTFS_cache_writeSectors ws c s n buf = Some (True, x)" using a by auto
      show ?thesis using h cache.ws_ok [OF _ _ _ _ x(2)] unfolding x(1) Cached by simp
    qed
  assume lv: "case_backing live (\<lambda>c. live (disc c)) bk"
  show "r \<and> case_backing live (\<lambda>c. live (disc c)) bk'" if "gekko_readsectors rs ws bk s n buf = Some (r, b, bk')"
    proof (cases bk)
      case (NoCache d)
      then show ?thesis using h that lv rs_live [of d s n buf] by auto
    next
      case (Cached c)
      then show ?thesis using h that lv cache.rs_live [of c s n buf] by auto
    qed
  show "r \<and> case_backing live (\<lambda>c. live (disc c)) bk'" if "gekko_writesectors ws bk s n buf = Some (r, bk')"
    proof (cases bk)
      case (NoCache d)
      then show ?thesis using h that lv ws_live [of d s n buf] by auto
    next
      case (Cached c)
      then show ?thesis using h that lv cache.ws_live [of c s n buf] by auto
    qed
qed


text \<open>A device whose descriptor fits the disc behind it.\<close>

definition fd_of :: "'d gekko_fd ntfs_device \<Rightarrow> 'd gekko_fd" where
  "fd_of v = the (d_private v)"

definition backing_of :: "'d gekko_fd ntfs_device \<Rightarrow> 'd backing" where
  "backing_of v = the (fd_interface (fd_of v))"

definition gekko_valid :: "('d backing \<Rightarrow> nat) \<Rightarrow> ('d backing \<Rightarrow> nat) \<Rightarrow> ('d backing \<Rightarrow> nat) \<Rightarrow> ('d backing \<Rightarrow> bool)
    \<Rightarrow> 'd gekko_fd ntfs_device \<Rightarrow> bool" where
  "gekko_valid bssize blo bhi bvalid v \<longleftrightarrow> d_private v = Some (fd_of v) \<and> fd_interface (fd_of v) = Some (backing_of v)
     \<and> bvalid (backing_of v) \<and> fd_sectorSize (fd_of v) = bssize (backing_of v) \<and> fd_sectorSize (fd_of v) < 2 ^ 16
     \<and> blo (backing_of v) \<le> fd_startSector (fd_of v) \<and> fd_startSector (fd_of v) \<le> bhi (backing_of v)"

definition gekko_size :: "('d backing \<Rightarrow> nat) \<Rightarrow> 'd gekko_fd ntfs_device \<Rightarrow> nat" where
  "gekko_size bhi v = (bhi (backing_of v) - fd_startSector (fd_of v)) * fd_sectorSize (fd_of v)"

definition gekko_content :: "('d backing \<Rightarrow> nat \<Rightarrow> bytes) \<Rightarrow> 'd gekko_fd ntfs_device \<Rightarrow> nat \<Rightarrow> u8" where
  "gekko_content bsect v = dev_byte (bsect (backing_of v)) (fd_sectorSize (fd_of v)) (fd_startSector (fd_of v))"

lemma set_backing_simps [simp]:
  "fd_of (set_backing v fd bk) = fd \<lparr>fd_interface := Some bk\<rparr>" "backing_of (set_backing v fd bk) = bk"
  "same_mode v (set_backing v fd bk)" "NDevReadOnly (set_backing v fd bk) = NDevReadOnly v"
  "d_private (set_backing v fd bk) = Some (fd \<lparr>fd_interface := Some bk\<rparr>)"
  "NDevDirty (set_backing v fd bk) = NDevDirty v"
  by (simp_all add: set_backing_def fd_of_def backing_of_def)

lemma state_bits [simp]:
  "fd_of (v\<lparr>NDevDirty := b\<rparr>) = fd_of v" "backing_of (v\<lparr>NDevDirty := b\<rparr>) = backing_of v"
  "fd_of (v\<lparr>NDevSync := b\<rparr>) = fd_of v" "backing_of (v\<lparr>NDevSync := b\<rparr>) = backing_of v"
  by (simp_all add: fd_of_def backing_of_def)

locale gekko_dev = cached_disc "if_readSectors I" "if_writeSectors I" ssize lo hi sect valid live
  for I :: "'d disc_ops" and ssize lo hi :: "'d \<Rightarrow> nat" and sect :: "'d \<Rightarrow> nat \<Rightarrow> bytes" and valid live :: "'d \<Rightarrow> bool" +
  fixes heap :: "nat \<Rightarrow> bytes option"
  assumes heap: "heap_law heap"

sublocale gekko_dev \<subseteq> byte: byte_device "ntfs_device_gekko_io_pread I heap" "ntfs_device_gekko_io_pwrite I heap" "ntfs_device_gekko_io_sync I"
  "gekko_size (case_backing hi endOfPartition)" "gekko_content (case_backing sect (cache_view sect))"
  "gekko_valid (case_backing ssize sectorSize) (case_backing lo startOfPartition) (case_backing hi endOfPartition)
     (case_backing valid (cache_valid ssize lo hi sect valid))"
  "\<lambda>v. case_backing live (\<lambda>c. live (disc c)) (backing_of v) \<and> (\<forall>n. heap n \<noteq> None)"
proof
  fix v :: "'d gekko_fd ntfs_device" and ofs n and buf :: bytes and b
  let ?valid = "gekko_valid (case_backing ssize sectorSize) (case_backing lo startOfPartition) (case_backing hi endOfPartition)
     (case_backing valid (cache_valid ssize lo hi sect valid))"
  let ?size = "gekko_size (case_backing hi endOfPartition)" and ?content = "gekko_content (case_backing sect (cache_view sect))"
  let ?live = "\<lambda>v. case_backing live (\<lambda>c. live (disc c)) (backing_of v) \<and> (\<forall>n. heap n \<noteq> None)"
  show "?valid (v\<lparr>NDevDirty := b\<rparr>) = ?valid v" "?size (v\<lparr>NDevDirty := b\<rparr>) = ?size v"
    "?content (v\<lparr>NDevDirty := b\<rparr>) = ?content v" "?live (v\<lparr>NDevDirty := b\<rparr>) = ?live v"
    by (simp_all add: gekko_valid_def gekko_size_def gekko_content_def)
  assume v: "?valid v"
  define fd bk where "fd = fd_of v" and "bk = backing_of v"
  have g: "d_private v = Some fd" "fd_interface fd = Some bk" "case_backing valid cvalid bk"
    "fd_sectorSize fd = case_backing ssize sectorSize bk" "fd_sectorSize fd < 2 ^ 16"
    "case_backing lo startOfPartition bk \<le> fd_startSector fd" "fd_startSector fd \<le> case_backing hi endOfPartition bk"
    using v by (simp_all add: gekko_valid_def fd_def bk_def)
  have z: "0 < fd_sectorSize fd" using backed.geometry [OF g(3)] g(4) by simp
  have keep: "?valid (set_backing v fd bk')" "?size (set_backing v fd bk') = ?size v" if "backed.same_disc bk bk'" for bk'
    using that g by (simp_all add: gekko_valid_def gekko_size_def backed.same_disc_def fd_def bk_def)
  { assume e: "ofs + n \<le> ?size v" "0 < n" "n < 2 ^ 31" "length buf = n"
    note t = g(3,6,7,4) e(1) [unfolded gekko_size_def, folded fd_def bk_def] e(2,3) g(5) e(4) heap
    obtain r b' bk' where r: "readbytes (gekko_readsectors (if_readSectors I) (if_writeSectors I)) heap (fd_sectorSize fd) (fd_startSector fd)
         bk (int ofs) (int n) buf = Some (r, b', bk')" "length b' = n"
      "\<And>k. r = Inr k \<Longrightarrow> k = int n \<and> b' = bytes_from (?content v) ofs n \<and> backed.same_disc bk bk'
          \<and> case_backing sect (cache_view sect) bk' = case_backing sect (cache_view sect) bk"
      "?live v \<Longrightarrow> r = Inr (int n) \<and> case_backing live (\<lambda>c. live (disc c)) bk'"
      using backed.readbytes_ok [OF t] unfolding gekko_content_def fd_def [symmetric] bk_def [symmetric] by blast
    have eq: "ntfs_device_gekko_io_pread I heap v buf (int n) (int ofs) = Some (r, b', set_backing v fd bk')"
      using g z e(2) r(1) by (simp add: ntfs_device_gekko_io_pread_def ntfs_device_gekko_io_readbytes_def)
    have "0 \<le> k \<and> k \<le> int n \<and> take (nat k) b' = bytes_from (?content v) ofs (nat k) \<and> ?valid (set_backing v fd bk')
       \<and> ?size (set_backing v fd bk') = ?size v \<and> ?content (set_backing v fd bk') = ?content v" if "r = Inr k" for k
      using r(3) [OF that] keep by (simp add: gekko_content_def fd_def bk_def)
    then show "\<exists>r b v'. ntfs_device_gekko_io_pread I heap v buf (int n) (int ofs) = Some (r, b, v') \<and> length b = n \<and> same_mode v v'
        \<and> (\<forall>k. r = Inr k \<longrightarrow> 0 \<le> k \<and> k \<le> int n \<and> take (nat k) b = bytes_from (?content v) ofs (nat k)
             \<and> ?valid v' \<and> ?size v' = ?size v \<and> ?content v' = ?content v)
        \<and> (?live v \<longrightarrow> r = Inr (int n) \<and> ?live v')"
      using eq r(2,4) by auto }
  assume ro: "\<not> NDevReadOnly v"
  { assume e: "ofs + n \<le> ?size v" "0 < n" "n < 2 ^ 31" "length buf = n"
    note t = g(3,6,7,4) e(1) [unfolded gekko_size_def, folded fd_def bk_def] e(2,3) g(5) e(4) heap
    obtain r bk' where r: "writebytes (gekko_readsectors (if_readSectors I) (if_writeSectors I)) (gekko_writesectors (if_writeSectors I)) heap
         (fd_sectorSize fd) (fd_startSector fd) bk (int ofs) (int n) buf = Some (r, bk')"
      "\<And>k. r = Inr k \<Longrightarrow> k = int n \<and> backed.same_disc bk bk'
          \<and> dev_byte (case_backing sect (cache_view sect) bk') (fd_sectorSize fd) (fd_startSector fd) = put_bytes (?content v) ofs buf"
      "?live v \<Longrightarrow> r = Inr (int n) \<and> case_backing live (\<lambda>c. live (disc c)) bk'"
      using backed.writebytes_ok [OF t] unfolding gekko_content_def fd_def [symmetric] bk_def [symmetric] by blast
    define v' where "v' = (set_backing v fd bk') \<lparr>NDevDirty := (case r of Inl e \<Rightarrow> NDevDirty v | Inr k \<Rightarrow> True)\<rparr>"
    have eq: "ntfs_device_gekko_io_pwrite I heap v buf (int n) (int ofs) = Some (r, v')"
      using g z e(2) r(1) ro by (simp add: ntfs_device_gekko_io_pwrite_def ntfs_device_gekko_io_writebytes_def v'_def)
    have "0 \<le> k \<and> k \<le> int n \<and> ?valid v' \<and> ?size v' = ?size v \<and> ?content v' = put_bytes (?content v) ofs (take (nat k) buf)" if "r = Inr k" for k
    proof -
      have "?valid v' = ?valid (set_backing v fd bk')" "?size v' = ?size (set_backing v fd bk')"
        by (simp_all add: v'_def gekko_valid_def gekko_size_def)
      moreover have "?content v' = dev_byte (case_backing sect (cache_view sect) bk') (fd_sectorSize fd) (fd_startSector fd)"
        by (simp add: v'_def gekko_content_def)
      ultimately show ?thesis using r(2) [OF that] keep [of bk'] e(4) by simp
    qed
    moreover have "same_mode v v'" by (simp add: v'_def same_mode_def set_backing_def)
    moreover have "?live v \<Longrightarrow> ?live v'" using r(3) by (simp add: v'_def)
    ultimately show "\<exists>r v'. ntfs_device_gekko_io_pwrite I heap v buf (int n) (int ofs) = Some (r, v') \<and> same_mode v v'
        \<and> (\<forall>k. r = Inr k \<longrightarrow> 0 \<le> k \<and> k \<le> int n \<and> ?valid v' \<and> ?size v' = ?size v
             \<and> ?content v' = put_bytes (?content v) ofs (take (nat k) buf))
        \<and> (?live v \<longrightarrow> r = Inr (int n) \<and> ?live v')"
      using eq r(3) by blast }
  define v1 where "v1 = v\<lparr>NDevDirty := False, NDevSync := False\<rparr>"
  have v1: "?valid v1" "?size v1 = ?size v" "?content v1 = ?content v" "?live v1 = ?live v" "NDevReadOnly v1 = NDevReadOnly v"
    using v by (simp_all add: v1_def gekko_valid_def gekko_size_def gekko_content_def)
  show "\<exists>r v'. ntfs_device_gekko_io_sync I v = Some (r, v') \<and> NDevReadOnly v' = NDevReadOnly v
        \<and> (\<forall>k. r = Inr k \<longrightarrow> k = 0 \<and> ?valid v' \<and> ?size v' = ?size v \<and> ?content v' = ?content v)
        \<and> (?live v \<longrightarrow> r = Inr 0 \<and> ?live v')"
  proof (cases bk)
    case (NoCache d)
    then have "ntfs_device_gekko_io_sync I v = Some (Inr 0, v1)"
      using g ro by (simp add: ntfs_device_gekko_io_sync_def v1_def)
    then show ?thesis using v1 by auto
  next
    case (Cached c)
    obtain ok c' where f: "NTFS_cache_flush (if_writeSectors I) c = Some (ok, c')" "live (disc c) \<longrightarrow> ok \<and> live (disc c')"
        "ok \<longrightarrow> keeps c c'"
      using flush_loop_ok [of c 0 "length (cacheEntries c)"] g(3) Cached unfolding NTFS_cache_flush_def by auto
    have eq: "ntfs_device_gekko_io_sync I v = Some (if \<not> ok then Inl EIO else Inr 0, set_backing v1 fd (Cached c'))"
      using g ro Cached f(1) by (simp add: ntfs_device_gekko_io_sync_def v1_def)
    have "?valid (set_backing v1 fd (Cached c')) \<and> ?size (set_backing v1 fd (Cached c')) = ?size v
        \<and> ?content (set_backing v1 fd (Cached c')) = ?content v" if ok
    proof -
      have k: "keeps c c'" using f(3) that by simp
      then have "same_geometry c c'" "cvalid c'" "cview c' = cview c" by (simp_all add: keeps_def)
      then show ?thesis
        using g Cached by (simp add: gekko_valid_def gekko_size_def gekko_content_def same_geometry_def fd_def [symmetric] bk_def [symmetric])
    qed
    moreover have "backing_of v = Cached c" using Cached by (simp add: bk_def)
    ultimately show ?thesis using eq f(2) v1(5) by (cases ok) auto
  qed
qed


section \<open>The USB devices\<close>

text \<open>The device numbers and the other operations of \<open>ps3_io.c\<close>, which make up the interfaces of the eight USB
  devices.\<close>

definition ps3_dev_id :: "int \<Rightarrow> nat" where
  "ps3_dev_id fd = nat (0x010300000000000A + fd + 0xF * of_bool (fd \<ge> 6))"

definition PS3_NTFS_IsInserted :: "'k ps3 \<Rightarrow> int \<Rightarrow> bool \<times> 'k ps3" where
  "PS3_NTFS_IsInserted p fd =
     (if fd < 0 \<or> fd > 7 then (False, p)
      else case sys_info (ops p) (kern p) (ps3_dev_id fd) of ((r, z), k') \<Rightarrow>
        if r < 0 then (False, if r = ENODEVICE then snd (PS3_NTFS_Shutdown (p \<lparr>kern := k'\<rparr>) fd) else p \<lparr>kern := k'\<rparr>)
        else (True, p \<lparr>kern := k'\<rparr>))"

definition PS3_NTFS_IsInsertedA :: "int \<Rightarrow> bool" where
  "PS3_NTFS_IsInsertedA fd = True"

definition PS3_NTFS_ShutdownA :: "int \<Rightarrow> bool" where
  "PS3_NTFS_ShutdownA fd \<longleftrightarrow> 0 \<le> fd \<and> fd \<le> 7"

definition PS3_NTFS_ClearStatus :: bool where
  "PS3_NTFS_ClearStatus = True"

text \<open>The eight copies of each operation, one for each device, are one definition with the device as a parameter.\<close>

definition ps3_startup :: "nat \<Rightarrow> 'k ps3 \<Rightarrow> bool \<times> 'k ps3" where
  "ps3_startup fd p = PS3_NTFS_Startup p (ps3_dev_id (int fd)) (int fd)"

definition ps3_inserted :: "nat \<Rightarrow> 'k ps3 \<Rightarrow> bool \<times> 'k ps3" where
  "ps3_inserted fd p = (PS3_NTFS_IsInsertedA (int fd), p)"

definition ps3_shutdown :: "nat \<Rightarrow> 'k ps3 \<Rightarrow> bool \<times> 'k ps3" where
  "ps3_shutdown fd p = (PS3_NTFS_ShutdownA (int fd), p)"

definition ps3_read :: "bool \<Rightarrow> nat \<Rightarrow> 'k ps3 \<Rightarrow> nat \<Rightarrow> nat \<Rightarrow> bytes \<Rightarrow> (bool \<times> bytes \<times> 'k ps3) option" where
  "ps3_read unaligned fd = PS3_NTFS_ReadSectors unaligned fd"

definition ps3_write :: "bool \<Rightarrow> nat \<Rightarrow> 'k ps3 \<Rightarrow> nat \<Rightarrow> nat \<Rightarrow> bytes \<Rightarrow> (bool \<times> 'k ps3) option" where
  "ps3_write unaligned fd = PS3_NTFS_WriteSectors unaligned fd"

text \<open>The interfaces \<open>__io_ntfs_usb000\<close> to \<open>__io_ntfs_usb007\<close>; their types are the letters \<open>USB\<close> and the number of the device.\<close>

definition device_type_ntfs :: "nat \<Rightarrow> nat" where
  "device_type_ntfs fd = 0x55 * 2 ^ 24 + 0x53 * 2 ^ 16 + 0x42 * 2 ^ 8 + (0x30 + fd)"

definition ps3_disc_ops :: "bool \<Rightarrow> nat \<Rightarrow> 'k ps3 disc_ops" where
  "ps3_disc_ops unaligned fd = \<lparr>if_ioType = device_type_ntfs fd, if_features = 0x203, if_startup = ps3_startup fd,
     if_isInserted = ps3_inserted fd, if_readSectors = ps3_read unaligned fd, if_writeSectors = ps3_write unaligned fd,
     if_clearStatus = (\<lambda>p. (PS3_NTFS_ClearStatus, p)), if_shutdown = ps3_shutdown fd\<rparr>"

text \<open>An allocator that gives memory of the size asked for, with any content.\<close>

definition alloc :: "(nat \<Rightarrow> (nat \<Rightarrow> u8) option) \<Rightarrow> nat \<Rightarrow> bytes option" where
  "alloc heap n = map_option (\<lambda>f. map f [0..<n]) (heap n)"

lemma alloc_law: "heap_law (alloc heap)"
  by (auto simp: heap_law_def alloc_def)

lemma ps3_disc_ops_simps [simp]:
  "if_readSectors (ps3_disc_ops unaligned fd) = PS3_NTFS_ReadSectors unaligned fd"
  "if_writeSectors (ps3_disc_ops unaligned fd) = PS3_NTFS_WriteSectors unaligned fd"
  by (simp_all add: ps3_disc_ops_def ps3_read_def ps3_write_def)

interpretation ps3_gekko: gekko_dev "ps3_disc_ops unaligned fd" "\<lambda>p. dev_sectsize p ! fd" "\<lambda>p. 0"
  "\<lambda>p. medium_end (ops p) (dev_fd p ! fd)" "ps3_sect fd" "ps3_valid fd" "ps3_live fd" "alloc heap" for unaligned fd heap
  by (intro gekko_dev.intro gekko_dev_axioms.intro alloc_law) (simp add: ps3_cache.cached_disc_axioms)


section \<open>Properties\<close>

text \<open>
  A relative seek backwards past the start of the device ends at its end: the position is unsigned, and the
  test for a negative sum never holds.
\<close>

lemma seek_before_start_goes_to_end:
  assumes "d_private dev = Some fd" "fd_len fd < 2 ^ 63" "- (2 ^ 63) \<le> offset" "int (fd_pos fd) + offset < 0"
  shows "ntfs_device_gekko_io_seek dev offset SEEK_CUR = (Inr 0, dev \<lparr>d_private := Some (fd \<lparr>fd_pos := fd_len fd\<rparr>)\<rparr>)"
proof -
  have "(int (fd_pos fd) + offset) mod 2 ^ 64 = int (fd_pos fd) + offset + 2 ^ 64"
  proof -
    have "(int (fd_pos fd) + offset + 2 ^ 64) mod 2 ^ 64 = int (fd_pos fd) + offset + 2 ^ 64"
      by (rule mod_pos_pos_trivial) (use assms in simp_all)
    then show ?thesis by simp
  qed
  then have "fd_len fd \<le> nat ((int (fd_pos fd) + offset) mod 2 ^ 64)"
    using assms(2,3) by (simp add: le_nat_iff)
  then show ?thesis
    using assms(1) by (simp add: ntfs_device_gekko_io_seek_def min_def)
qed

definition small_fd :: "unit gekko_fd" where
  "small_fd = \<lparr>fd_interface = None, fd_startSector = 0, fd_hiddenSectors = 0, fd_sectorSize = 512,
      fd_sectorCount = 8, fd_pos = 10, fd_len = 4096, fd_ino = 0, fd_cachePageCount = 0, fd_cachePageSize = 0\<rparr>"

text \<open>
  Whatever the flags, opening a device never makes it read-only: \<open>O_RDONLY\<close> is 0 and has no bit to test.
\<close>

lemma open_never_read_only:
  assumes "ntfs_device_gekko_io_open I heap pages acc dev flags = Some (None, dev')"
  shows "NDevReadOnly dev' = NDevReadOnly dev"
  using assms
  by (auto simp: ntfs_device_gekko_io_open_def gekko_attach_def Let_def O_RDONLY_def
      split: option.splits if_splits prod.splits)

end
