(* ===== verification/DeviceIo.thy ===== *)
theory DeviceIo
  imports GekkoIo Mst
begin

text \<open>
  Device access of the library, \<open>libntfs_ext/source/device.c\<close>: transfers that repeat short ones
  (\<open>ntfs_pread\<close>, \<open>ntfs_pwrite\<close>), transfers of protected records (\<open>ntfs_mst_pread\<close>, \<open>ntfs_mst_pwrite\<close>) and of
  clusters, over the operations of a device. The proofs use the contract \<open>byte_device\<close>; the properties are
  about the block device of \<open>gekko_io.c\<close> on a USB disc, with and without its cache.
\<close>

section \<open>The code\<close>

text \<open>\<open>ntfs_device_alloc\<close>: \<open>name\<close> is the result of copying the name, \<open>room\<close> that of the allocation.\<close>

definition ntfs_device_alloc :: "'s option \<Rightarrow> bool \<Rightarrow> bool \<Rightarrow> 'p ntfs_device \<Rightarrow> 'p option \<Rightarrow> errno + 'p ntfs_device" where
  "ntfs_device_alloc name room copied state priv_data =
     (case name of None \<Rightarrow> Inl EINVAL
      | Some _ \<Rightarrow> if \<not> room then Inl ENOMEM else if \<not> copied then Inl ENOMEM else Inr (state \<lparr>d_private := priv_data\<rparr>))"

definition ntfs_device_free :: "'p ntfs_device option \<Rightarrow> errno option" where
  "ntfs_device_free dev = (case dev of None \<Rightarrow> Some EINVAL | Some d \<Rightarrow> if NDevOpen d then Some EBUSY else None)"

definition ntfs_device_sync :: "('p ntfs_device \<Rightarrow> ((errno + int) \<times> 'p ntfs_device) option) \<Rightarrow> 'p ntfs_device
    \<Rightarrow> ((errno + int) \<times> 'p ntfs_device) option" where
  "ntfs_device_sync dsync dev = (if NDevDirty dev then dsync dev else Some (Inr 0, dev))"

text \<open>The loops of the transfers. A round that goes on has transferred a byte at least, so \<open>count\<close> rounds are
  enough; \<open>fuel\<close> counts them, and \<open>None\<close> is an access outside the buffer or no end.\<close>

primrec pread_loop :: "nat \<Rightarrow> ('p ntfs_device \<Rightarrow> bytes \<Rightarrow> int \<Rightarrow> int \<Rightarrow> ((errno + int) \<times> bytes \<times> 'p ntfs_device) option)
    \<Rightarrow> 'p ntfs_device \<Rightarrow> int \<Rightarrow> int \<Rightarrow> int \<Rightarrow> bytes \<Rightarrow> ((errno + int) \<times> bytes \<times> 'p ntfs_device) option" where
  "pread_loop 0 pread dev pos sofar count b = (if count = 0 then Some (Inr sofar, b, dev) else None)"
| "pread_loop (Suc fuel) pread dev pos sofar count b =
     (if count = 0 then Some (Inr sofar, b, dev)
      else (case mem_get b (nat sofar) (nat count) of None \<Rightarrow> None
        | Some part \<Rightarrow> (case pread dev part count (pos + sofar) of None \<Rightarrow> None
            | Some (Inl e, part', dev') \<Rightarrow> Some (if sofar \<noteq> 0 then Inr sofar else Inl e, blit b (nat sofar) part', dev')
            | Some (Inr br, part', dev') \<Rightarrow>
                if br > 0 then pread_loop fuel pread dev' pos (sofar + br) (count - br) (blit b (nat sofar) part')
                else Some (if br = 0 \<or> sofar \<noteq> 0 then Inr sofar else Inr br, blit b (nat sofar) part', dev'))))"

definition ntfs_pread :: "('p ntfs_device \<Rightarrow> bytes \<Rightarrow> int \<Rightarrow> int \<Rightarrow> ((errno + int) \<times> bytes \<times> 'p ntfs_device) option)
    \<Rightarrow> 'p ntfs_device \<Rightarrow> int \<Rightarrow> int \<Rightarrow> bytes \<Rightarrow> ((errno + int) \<times> bytes \<times> 'p ntfs_device) option" where
  "ntfs_pread pread dev pos count b =
     (if count < 0 \<or> pos < 0 then Some (Inl EINVAL, b, dev)
      else if count = 0 then Some (Inr 0, b, dev)
      else pread_loop (nat count) pread dev pos 0 count b)"

primrec pwrite_loop :: "nat \<Rightarrow> ('p ntfs_device \<Rightarrow> bytes \<Rightarrow> int \<Rightarrow> int \<Rightarrow> ((errno + int) \<times> 'p ntfs_device) option)
    \<Rightarrow> 'p ntfs_device \<Rightarrow> int \<Rightarrow> int \<Rightarrow> int \<Rightarrow> bytes \<Rightarrow> ((errno + int) \<times> 'p ntfs_device) option" where
  "pwrite_loop 0 pwrite dev pos sofar count b = (if count = 0 then Some (Inr sofar, dev) else None)"
| "pwrite_loop (Suc fuel) pwrite dev pos sofar count b =
     (if count = 0 then Some (Inr sofar, dev)
      else (case mem_get b (nat sofar) (nat count) of None \<Rightarrow> None
        | Some part \<Rightarrow> (case pwrite dev part count (pos + sofar) of None \<Rightarrow> None
            | Some (Inl e, dev') \<Rightarrow> Some (if sofar \<noteq> 0 then Inr sofar else Inl e, dev')
            | Some (Inr written, dev') \<Rightarrow>
                if written > 0 then pwrite_loop fuel pwrite dev' pos (sofar + written) (count - written) b
                else Some (if written = 0 \<or> sofar \<noteq> 0 then Inr sofar else Inr written, dev'))))"

text \<open>A device mounted with the option \<open>sync\<close> is synced after the write; when that fails the code returns one
  byte less than was written.\<close>

definition pwrite_sync :: "('p ntfs_device \<Rightarrow> ((errno + int) \<times> 'p ntfs_device) option) \<Rightarrow> errno + int \<Rightarrow> 'p ntfs_device
    \<Rightarrow> ((errno + int) \<times> 'p ntfs_device) option" where
  "pwrite_sync dsync r dev =
     (if NDevSync dev \<and> r \<noteq> Inr 0 then
        map_option (\<lambda>(s, dev'). ((if s = Inr 0 then r else (case r of Inl e \<Rightarrow> Inl e | Inr sofar \<Rightarrow> Inr (sofar - 1))), dev')) (dsync dev)
      else Some (r, dev))"

definition ntfs_pwrite :: "('p ntfs_device \<Rightarrow> bytes \<Rightarrow> int \<Rightarrow> int \<Rightarrow> ((errno + int) \<times> 'p ntfs_device) option)
    \<Rightarrow> ('p ntfs_device \<Rightarrow> ((errno + int) \<times> 'p ntfs_device) option)
    \<Rightarrow> 'p ntfs_device \<Rightarrow> int \<Rightarrow> int \<Rightarrow> bytes \<Rightarrow> ((errno + int) \<times> 'p ntfs_device) option" where
  "ntfs_pwrite pwrite dsync dev pos count b =
     (if count < 0 \<or> pos < 0 then Some (Inl EINVAL, dev)
      else if count = 0 then Some (Inr 0, dev)
      else if NDevReadOnly dev then Some (Inl EROFS, dev)
      else (case pwrite_loop (nat count) pwrite (dev \<lparr>NDevDirty := True\<rparr>) pos 0 count b of None \<Rightarrow> None
        | Some (r, dev') \<Rightarrow> pwrite_sync dsync r dev'))"

text \<open>Deprotection of the blocks of a buffer, from block \<open>i\<close> on; errors of the fixup are ignored.\<close>

primrec read_fixups :: "nat \<Rightarrow> nat \<Rightarrow> nat \<Rightarrow> bytes \<Rightarrow> bytes option" where
  "read_fixups 0 i bksize b = Some b"
| "read_fixups (Suc n) i bksize b =
     (case mem_get b (i * bksize) bksize of None \<Rightarrow> None
      | Some blk \<Rightarrow> (case ntfs_mst_post_read_fixup blk bksize of (blk', e) \<Rightarrow>
          if e = Some FAULT then None else read_fixups n (i + 1) bksize (blit b (i * bksize) blk')))"

definition ntfs_mst_pread :: "('p ntfs_device \<Rightarrow> bytes \<Rightarrow> int \<Rightarrow> int \<Rightarrow> ((errno + int) \<times> bytes \<times> 'p ntfs_device) option)
    \<Rightarrow> 'p ntfs_device \<Rightarrow> int \<Rightarrow> int \<Rightarrow> nat \<Rightarrow> bytes \<Rightarrow> ((errno + int) \<times> bytes \<times> 'p ntfs_device) option" where
  "ntfs_mst_pread pread dev pos count bksize b =
     (if (bksize AND (bksize - 1)) \<noteq> 0 \<or> bksize mod NTFS_BLOCK_SIZE \<noteq> 0 then Some (Inl EINVAL, b, dev)
      else (case ntfs_pread pread dev pos (s64 (count * int bksize)) b of None \<Rightarrow> None
        | Some (Inl e, b', dev') \<Rightarrow> Some (Inl e, b', dev')
        | Some (Inr br, b', dev') \<Rightarrow>
            if br < 0 then Some (Inr br, b', dev')
            else if bksize = 0 then None
            else map_option (\<lambda>b''. (Inr (br div int bksize), b'', dev')) (read_fixups (nat (br div int bksize)) 0 bksize b')))"

text \<open>Protection of the blocks: the error and the block where it was met, if any.\<close>

primrec write_fixups :: "nat \<Rightarrow> nat \<Rightarrow> nat \<Rightarrow> bytes \<Rightarrow> ((errno \<times> nat) option \<times> bytes) option" where
  "write_fixups 0 i bksize b = Some (None, b)"
| "write_fixups (Suc n) i bksize b =
     (case mem_get b (i * bksize) bksize of None \<Rightarrow> None
      | Some blk \<Rightarrow> (case ntfs_mst_pre_write_fixup (Some blk) bksize of
            (Some blk', None) \<Rightarrow> write_fixups n (i + 1) bksize (blit b (i * bksize) blk')
          | (_, Some e) \<Rightarrow> if e = FAULT then None else Some (Some (e, i), b)
          | _ \<Rightarrow> None))"

primrec post_fixups :: "nat \<Rightarrow> nat \<Rightarrow> nat \<Rightarrow> bytes \<Rightarrow> bytes option" where
  "post_fixups 0 i bksize b = Some b"
| "post_fixups (Suc n) i bksize b =
     (case mem_get b (i * bksize) bksize of None \<Rightarrow> None
      | Some blk \<Rightarrow> (case ntfs_mst_post_write_fixup blk of None \<Rightarrow> None
          | Some blk' \<Rightarrow> post_fixups n (i + 1) bksize (blit b (i * bksize) blk')))"

text \<open>The result, the buffer of the caller, and the device.\<close>

definition ntfs_mst_pwrite :: "('p ntfs_device \<Rightarrow> bytes \<Rightarrow> int \<Rightarrow> int \<Rightarrow> ((errno + int) \<times> 'p ntfs_device) option)
    \<Rightarrow> ('p ntfs_device \<Rightarrow> ((errno + int) \<times> 'p ntfs_device) option)
    \<Rightarrow> 'p ntfs_device \<Rightarrow> int \<Rightarrow> int \<Rightarrow> nat \<Rightarrow> bytes \<Rightarrow> ((errno + int) \<times> bytes \<times> 'p ntfs_device) option" where
  "ntfs_mst_pwrite pwrite dsync dev pos count bksize b =
     (if count < 0 \<or> bksize mod NTFS_BLOCK_SIZE \<noteq> 0 then Some (Inl EINVAL, b, dev)
      else if count = 0 then Some (Inr 0, b, dev)
      else (case write_fixups (nat count) 0 bksize b of None \<Rightarrow> None
        | Some (err, b1) \<Rightarrow>
            (case err of Some (e, 0) \<Rightarrow> Some (Inl e, b1, dev)
             | _ \<Rightarrow>
               (let count' = (case err of None \<Rightarrow> count | Some (e, i) \<Rightarrow> int i)
                in case ntfs_pwrite pwrite dsync dev pos (s64 (count' * int bksize)) b1 of None \<Rightarrow> None
                 | Some (written, dev') \<Rightarrow> (case post_fixups (nat count') 0 bksize b1 of None \<Rightarrow> None
                     | Some b2 \<Rightarrow> (case written of Inl e \<Rightarrow> Some (Inl e, b2, dev')
                         | Inr w \<Rightarrow> if w \<le> 0 then Some (Inr w, b2, dev') else if bksize = 0 then None
                                    else Some (Inr (w div int bksize), b2, dev')))))))"

text \<open>Clusters; \<open>read_only\<close> is \<open>NVolReadOnly\<close>. Shifts of an \<open>s64\<close>.\<close>

definition shl64 :: "int \<Rightarrow> nat \<Rightarrow> int" where
  "shl64 x n = s64 (x * 2 ^ n)"

definition ntfs_cluster_read :: "('p ntfs_device \<Rightarrow> bytes \<Rightarrow> int \<Rightarrow> int \<Rightarrow> ((errno + int) \<times> bytes \<times> 'p ntfs_device) option)
    \<Rightarrow> ntfs_volume \<Rightarrow> 'p ntfs_device \<Rightarrow> int \<Rightarrow> int \<Rightarrow> bytes \<Rightarrow> ((errno + int) \<times> bytes \<times> 'p ntfs_device) option" where
  "ntfs_cluster_read pread vol dev lcn count b =
     (if lcn < 0 \<or> count < 0 then Some (Inl EINVAL, b, dev)
      else if nr_clusters vol < s64 (lcn + count) then Some (Inl ESPIPE, b, dev)
      else map_option (\<lambda>(r, b', dev'). (map_sum (\<lambda>e. e) (\<lambda>br. if br < 0 then br else br div 2 ^ cluster_size_bits vol) r, b', dev'))
        (ntfs_pread pread dev (shl64 lcn (cluster_size_bits vol)) (shl64 count (cluster_size_bits vol)) b))"

definition ntfs_cluster_write :: "('p ntfs_device \<Rightarrow> bytes \<Rightarrow> int \<Rightarrow> int \<Rightarrow> ((errno + int) \<times> 'p ntfs_device) option)
    \<Rightarrow> ('p ntfs_device \<Rightarrow> ((errno + int) \<times> 'p ntfs_device) option)
    \<Rightarrow> ntfs_volume \<Rightarrow> bool \<Rightarrow> 'p ntfs_device \<Rightarrow> int \<Rightarrow> int \<Rightarrow> bytes \<Rightarrow> ((errno + int) \<times> 'p ntfs_device) option" where
  "ntfs_cluster_write pwrite dsync vol read_only dev lcn count b =
     (if lcn < 0 \<or> count < 0 then Some (Inl EINVAL, dev)
      else if nr_clusters vol < s64 (lcn + count) then Some (Inl ESPIPE, dev)
      else map_option (\<lambda>(r, dev'). (map_sum (\<lambda>e. e) (\<lambda>bw. if bw < 0 then bw else bw div 2 ^ cluster_size_bits vol) r, dev'))
        (if \<not> read_only then ntfs_pwrite pwrite dsync dev (shl64 lcn (cluster_size_bits vol)) (shl64 count (cluster_size_bits vol)) b
         else Some (Inr (shl64 count (cluster_size_bits vol)), dev)))"


section \<open>Transfers over a device that keeps its contract\<close>

context byte_device
begin

text \<open>A state of the device after a transfer: as valid, and of the same size.\<close>

definition follows :: "'p ntfs_device \<Rightarrow> 'p ntfs_device \<Rightarrow> bool" where
  "follows v v' \<longleftrightarrow> dvalid v' \<and> dsize v' = dsize v"

lemma pread_loop_ok:
  "dvalid v \<Longrightarrow> ofs + t + n \<le> dsize v \<Longrightarrow> n < 2 ^ 31 \<Longrightarrow> length buf = t + n \<Longrightarrow> n \<le> fuel \<Longrightarrow>
   \<exists>r b v'. pread_loop fuel pread v (int ofs) (int t) (int n) buf = Some (r, b, v') \<and> length b = t + n \<and> same_mode v v'
     \<and> (\<forall>k. r = Inr k \<longrightarrow> int t \<le> k \<and> k \<le> int (t + n) \<and> take (nat k) b = take t buf @ bytes_from (content v) (ofs + t) (nat k - t)
          \<and> (k = int (t + n) \<longrightarrow> follows v v' \<and> content v' = content v))
     \<and> (dlive v \<longrightarrow> r = Inr (int (t + n)) \<and> dlive v')"
proof (induction fuel arbitrary: v t n buf)
  case 0
  then show ?case by (auto simp: follows_def bytes_from_def)
next
  case (Suc fuel)
  show ?case
  proof (cases "n = 0")
    case True
    then show ?thesis using Suc.prems by (auto simp: follows_def bytes_from_def)
  next
    case False
    let ?part = "chunk t n buf"
    have get: "mem_get buf (nat (int t)) (nat (int n)) = Some ?part"
      using Suc.prems(4) by (simp add: mem_get_def)
    have lp: "length ?part = n" using Suc.prems(4) by simp
    obtain r b v' where p: "pread v ?part (int n) (int (ofs + t)) = Some (r, b, v')" "length b = n" "same_mode v v'"
      "\<And>k. r = Inr k \<Longrightarrow> 0 \<le> k \<and> k \<le> int n \<and> take (nat k) b = bytes_from (content v) (ofs + t) (nat k)
             \<and> dvalid v' \<and> dsize v' = dsize v \<and> content v' = content v"
      "dlive v \<Longrightarrow> r = Inr (int n) \<and> dlive v'"
      using pread_ok [OF Suc.prems(1) _ _ Suc.prems(3) lp, of "ofs + t"] Suc.prems(2) False by auto
    let ?buf = "blit buf (nat (int t)) b"
    have lb: "length ?buf = t + n" using p(2) Suc.prems(4) by simp
    have low: "take t ?buf = take t buf" using p(2) Suc.prems(4) by (simp add: blit_def)
    have step: "pread_loop (Suc fuel) pread v (int ofs) (int t) (int n) buf =
        (case r of Inl e \<Rightarrow> Some (if int t \<noteq> 0 then Inr (int t) else Inl e, ?buf, v')
         | Inr br \<Rightarrow> if br > 0 then pread_loop fuel pread v' (int ofs) (int t + br) (int n - br) ?buf
             else Some (if br = 0 \<or> int t \<noteq> 0 then Inr (int t) else Inr br, ?buf, v'))"
      using False get p(1) by (auto split: sum.splits)
    show ?thesis
    proof (cases r)
      case (Inl e)
      then have "\<not> dlive v" using p(5) by auto
      moreover have "pread_loop (Suc fuel) pread v (int ofs) (int t) (int n) buf = Some (if int t \<noteq> 0 then Inr (int t) else Inl e, ?buf, v')"
        using step Inl by simp
      ultimately show ?thesis using lb low p(3) False by (auto simp: bytes_from_def)
    next
      case (Inr br)
      note br = p(4) [OF Inr]
      show ?thesis
      proof (cases "br > 0")
        case no: False
        then have "br = 0" using br by simp
        moreover have "pread_loop (Suc fuel) pread v (int ofs) (int t) (int n) buf = Some (Inr (int t), ?buf, v')"
          using step Inr \<open>br = 0\<close> by simp
        moreover have "\<not> dlive v" using p(5) Inr \<open>br = 0\<close> False by auto
        ultimately show ?thesis using lb low p(3) False by (auto simp: bytes_from_def)
      next
        case yes: True
        define m where "m = nat br"
        have m: "0 < m" "m \<le> n" "br = int m" using yes br by (simp_all add: m_def nat_le_iff)
        have "\<exists>r b w. pread_loop fuel pread v' (int ofs) (int (t + m)) (int (n - m)) ?buf = Some (r, b, w) \<and> length b = t + m + (n - m)
             \<and> same_mode v' w
             \<and> (\<forall>k. r = Inr k \<longrightarrow> int (t + m) \<le> k \<and> k \<le> int (t + m + (n - m))
                 \<and> take (nat k) b = take (t + m) ?buf @ bytes_from (content v') (ofs + (t + m)) (nat k - (t + m))
                 \<and> (k = int (t + m + (n - m)) \<longrightarrow> follows v' w \<and> content w = content v'))
             \<and> (dlive v' \<longrightarrow> r = Inr (int (t + m + (n - m))) \<and> dlive w)"
          by (rule Suc.IH) (use br m Suc.prems lb in auto)
        then obtain r2 b2 w where IH: "pread_loop fuel pread v' (int ofs) (int (t + m)) (int (n - m)) ?buf = Some (r2, b2, w)"
             "length b2 = t + n" "same_mode v' w"
             "\<And>k. r2 = Inr k \<Longrightarrow> int (t + m) \<le> k \<and> k \<le> int (t + n)
                 \<and> take (nat k) b2 = take (t + m) ?buf @ bytes_from (content v) (ofs + (t + m)) (nat k - (t + m))
                 \<and> (k = int (t + n) \<longrightarrow> follows v' w \<and> content w = content v)"
             "dlive v' \<longrightarrow> r2 = Inr (int (t + n)) \<and> dlive w"
          using br m by auto
        have args: "int t + br = int (t + m)" "int n - br = int (n - m)" using m by simp_all
        have eq: "pread_loop (Suc fuel) pread v (int ofs) (int t) (int n) buf = Some (r2, b2, w)"
          unfolding step Inr using yes IH(1) by (simp only: sum.case if_True args)
        have tm: "take (t + m) ?buf = take t buf @ bytes_from (content v) (ofs + t) m"
        proof -
          have "take (t + m) ?buf = take t buf @ take m b"
            using p(2) m(2) Suc.prems(4) by (simp add: blit_def)
          then show ?thesis using br by (simp add: m_def)
        qed
        have "take (nat k) b2 = take t buf @ bytes_from (content v) (ofs + t) (nat k - t)" if k: "r2 = Inr k" for k
        proof -
          have "int (t + m) \<le> k" using IH(4) [OF k] by blast
          then have "t + m \<le> nat k" by linarith
          then have "nat k - t = m + (nat k - (t + m))" by simp
          then show ?thesis
            using IH(4) [OF k] bytes_from_append [of "content v" "ofs + t" m "nat k - (t + m)"] tm
            by (simp add: add.assoc)
        qed
        moreover have "follows v w" if "follows v' w" using that br by (simp add: follows_def)
        moreover have "same_mode v w" using p(3) IH(3) same_mode_trans by blast
        moreover have "dlive v \<Longrightarrow> dlive v'" using p(5) by simp
        ultimately show ?thesis using eq IH(2,4,5) by auto
      qed
    qed
  qed
qed

lemma ntfs_pread_ok:
  assumes "dvalid v" "ofs + n \<le> dsize v" "n < 2 ^ 31" "length buf = n"
  shows "\<exists>r b v'. ntfs_pread pread v (int ofs) (int n) buf = Some (r, b, v') \<and> length b = n \<and> same_mode v v'
     \<and> (\<forall>k. r = Inr k \<longrightarrow> 0 \<le> k \<and> k \<le> int n \<and> take (nat k) b = bytes_from (content v) ofs (nat k)
          \<and> (k = int n \<longrightarrow> follows v v' \<and> content v' = content v))
     \<and> (dlive v \<longrightarrow> r = Inr (int n) \<and> dlive v')"
proof (cases "n = 0")
  case True
  then show ?thesis using assms by (auto simp: ntfs_pread_def follows_def bytes_from_def)
next
  case False
  then show ?thesis
    using pread_loop_ok [OF assms(1), of ofs 0 n buf n] assms(2-4) by (auto simp: ntfs_pread_def)
qed


lemma pwrite_loop_ok:
  "dvalid v \<Longrightarrow> \<not> NDevReadOnly v \<Longrightarrow> ofs + t + n \<le> dsize v \<Longrightarrow> n < 2 ^ 31 \<Longrightarrow> length buf = t + n \<Longrightarrow> n \<le> fuel \<Longrightarrow>
   \<exists>r v'. pwrite_loop fuel pwrite v (int ofs) (int t) (int n) buf = Some (r, v') \<and> same_mode v v'
     \<and> (\<forall>k. r = Inr k \<longrightarrow> int t \<le> k \<and> k \<le> int (t + n)
          \<and> (k = int (t + n) \<longrightarrow> follows v v' \<and> content v' = put_bytes (content v) (ofs + t) (drop t buf)))
     \<and> (dlive v \<longrightarrow> r = Inr (int (t + n)) \<and> dlive v')"
proof (induction fuel arbitrary: v t n)
  case 0
  then show ?case by (auto simp: follows_def)
next
  case (Suc fuel)
  show ?case
  proof (cases "n = 0")
    case True
    then show ?thesis using Suc.prems by (auto simp: follows_def)
  next
    case False
    let ?part = "chunk t n buf"
    have part: "?part = drop t buf" using Suc.prems(5) by (simp add: chunk_def)
    have get: "mem_get buf (nat (int t)) (nat (int n)) = Some ?part"
      using Suc.prems(5) by (simp add: mem_get_def)
    have lp: "length ?part = n" using Suc.prems(5) by simp
    obtain r v' where p: "pwrite v ?part (int n) (int (ofs + t)) = Some (r, v')" "same_mode v v'"
      "\<And>k. r = Inr k \<Longrightarrow> 0 \<le> k \<and> k \<le> int n \<and> dvalid v' \<and> dsize v' = dsize v
             \<and> content v' = put_bytes (content v) (ofs + t) (take (nat k) ?part)"
      "dlive v \<Longrightarrow> r = Inr (int n) \<and> dlive v'"
      using pwrite_ok [OF Suc.prems(1,2) _ _ Suc.prems(4) lp, of "ofs + t"] Suc.prems(3) False by auto
    have step: "pwrite_loop (Suc fuel) pwrite v (int ofs) (int t) (int n) buf =
        (case r of Inl e \<Rightarrow> Some (if int t \<noteq> 0 then Inr (int t) else Inl e, v')
         | Inr w \<Rightarrow> if w > 0 then pwrite_loop fuel pwrite v' (int ofs) (int t + w) (int n - w) buf
             else Some (if w = 0 \<or> int t \<noteq> 0 then Inr (int t) else Inr w, v'))"
      using False get p(1) by (auto split: sum.splits)
    show ?thesis
    proof (cases r)
      case (Inl e)
      then have "\<not> dlive v" using p(4) by auto
      moreover have "pwrite_loop (Suc fuel) pwrite v (int ofs) (int t) (int n) buf = Some (if int t \<noteq> 0 then Inr (int t) else Inl e, v')"
        using step Inl by simp
      ultimately show ?thesis using p(2) False by auto
    next
      case (Inr br)
      note br = p(3) [OF Inr]
      show ?thesis
      proof (cases "br > 0")
        case no: False
        then have "br = 0" using br by simp
        moreover have "pwrite_loop (Suc fuel) pwrite v (int ofs) (int t) (int n) buf = Some (Inr (int t), v')"
          using step Inr \<open>br = 0\<close> by simp
        moreover have "\<not> dlive v" using p(4) Inr \<open>br = 0\<close> False by auto
        ultimately show ?thesis using p(2) False by auto
      next
        case yes: True
        define m where "m = nat br"
        have m: "0 < m" "m \<le> n" "br = int m" using yes br by (simp_all add: m_def nat_le_iff)
        have ro: "\<not> NDevReadOnly v'" using p(2) Suc.prems(2) by (simp add: same_mode_def)
        have "\<exists>r w. pwrite_loop fuel pwrite v' (int ofs) (int (t + m)) (int (n - m)) buf = Some (r, w) \<and> same_mode v' w
             \<and> (\<forall>k. r = Inr k \<longrightarrow> int (t + m) \<le> k \<and> k \<le> int (t + m + (n - m))
                 \<and> (k = int (t + m + (n - m)) \<longrightarrow> follows v' w \<and> content w = put_bytes (content v') (ofs + (t + m)) (drop (t + m) buf)))
             \<and> (dlive v' \<longrightarrow> r = Inr (int (t + m + (n - m))) \<and> dlive w)"
          by (rule Suc.IH) (use br m ro Suc.prems in auto)
        then obtain r2 w where IH: "pwrite_loop fuel pwrite v' (int ofs) (int (t + m)) (int (n - m)) buf = Some (r2, w)"
             "same_mode v' w"
             "\<And>k. r2 = Inr k \<Longrightarrow> int (t + m) \<le> k \<and> k \<le> int (t + n)
                 \<and> (k = int (t + n) \<longrightarrow> follows v' w \<and> content w = put_bytes (content v') (ofs + (t + m)) (drop (t + m) buf))"
             "dlive v' \<longrightarrow> r2 = Inr (int (t + n)) \<and> dlive w"
          using m by auto
        have args: "int t + br = int (t + m)" "int n - br = int (n - m)" using m by simp_all
        have eq: "pwrite_loop (Suc fuel) pwrite v (int ofs) (int t) (int n) buf = Some (r2, w)"
          unfolding step Inr using yes IH(1) by (simp only: sum.case if_True args)
        have "put_bytes (content v') (ofs + (t + m)) (drop (t + m) buf) = put_bytes (content v) (ofs + t) (drop t buf)"
        proof -
          have "put_bytes (put_bytes (content v) (ofs + t) (take m (drop t buf))) (ofs + t + length (take m (drop t buf))) (drop m (drop t buf))
              = put_bytes (content v) (ofs + t) (drop t buf)"
            by (simp only: put_bytes_append append_take_drop_id)
          then show ?thesis
            using br m Suc.prems(5) by (simp add: part add.assoc add.commute [of m t])
        qed
        moreover have "follows v w" if "follows v' w" using that br by (simp add: follows_def)
        moreover have "same_mode v w" using p(2) IH(2) same_mode_trans by blast
        moreover have "dlive v \<Longrightarrow> dlive v'" using p(4) by simp
        moreover have "int t \<le> int (t + m)" by simp
        ultimately show ?thesis using eq IH(3,4) by fastforce
      qed
    qed
  qed
qed

lemma pwrite_sync_ok:
  assumes "dvalid v" "\<not> NDevReadOnly v"
  shows "\<exists>r' v'. pwrite_sync dsync (Inr k) v = Some (r', v') \<and> (r' = Inr k \<or> r' = Inr (k - 1))
     \<and> (r' = Inr k \<longrightarrow> follows v v' \<and> content v' = content v) \<and> NDevReadOnly v' = NDevReadOnly v
     \<and> (dlive v \<longrightarrow> r' = Inr k \<and> dlive v')"
proof (cases "NDevSync v \<and> Inr k \<noteq> (Inr 0 :: errno + int)")
  case False
  then show ?thesis using assms by (auto simp: pwrite_sync_def follows_def)
next
  case True
  obtain r v' where s: "dsync v = Some (r, v')" "NDevReadOnly v' = NDevReadOnly v"
      "\<And>k. r = Inr k \<Longrightarrow> k = 0 \<and> dvalid v' \<and> dsize v' = dsize v \<and> content v' = content v" "dlive v \<longrightarrow> r = Inr 0 \<and> dlive v'"
    using sync_ok [OF assms] by blast
  then show ?thesis using True by (cases r) (auto simp: pwrite_sync_def follows_def)
qed

lemma ntfs_pwrite_ok:
  assumes "dvalid v" "\<not> NDevReadOnly v" "ofs + n \<le> dsize v" "n < 2 ^ 31" "length buf = n"
  shows "ntfs_pwrite pwrite dsync v (int ofs) (int n) buf = Some (Inr (int n), v') \<Longrightarrow>
      follows v v' \<and> content v' = put_bytes (content v) ofs buf \<and> NDevReadOnly v' = NDevReadOnly v"
    and "dlive v \<Longrightarrow> \<exists>v'. ntfs_pwrite pwrite dsync v (int ofs) (int n) buf = Some (Inr (int n), v') \<and> dlive v'"
proof -
  have "(\<forall>v'. ntfs_pwrite pwrite dsync v (int ofs) (int n) buf = Some (Inr (int n), v') \<longrightarrow>
      follows v v' \<and> content v' = put_bytes (content v) ofs buf \<and> NDevReadOnly v' = NDevReadOnly v)
    \<and> (dlive v \<longrightarrow> (\<exists>v'. ntfs_pwrite pwrite dsync v (int ofs) (int n) buf = Some (Inr (int n), v') \<and> dlive v'))"
  proof (cases "n = 0")
    case True
    then show ?thesis using assms by (auto simp: ntfs_pwrite_def follows_def)
  next
    case False
    let ?v = "v\<lparr>NDevDirty := True\<rparr>"
    have v: "dvalid ?v" "\<not> NDevReadOnly ?v" "ofs + 0 + n \<le> dsize ?v" "length buf = 0 + n"
      using assms by (simp_all add: dirty_bit)
    obtain r w where l: "pwrite_loop n pwrite ?v (int ofs) (int 0) (int n) buf = Some (r, w)" "same_mode ?v w"
       "\<And>k. r = Inr k \<Longrightarrow> k \<le> int n \<and> (k = int n \<longrightarrow> follows ?v w \<and> content w = put_bytes (content v) ofs buf)"
       "dlive v \<longrightarrow> r = Inr (int n) \<and> dlive w"
      using pwrite_loop_ok [OF v(1-3) assms(4) v(4) order_refl] by (auto simp: dirty_bit)
    have eq: "ntfs_pwrite pwrite dsync v (int ofs) (int n) buf = pwrite_sync dsync r w"
      using False assms(2) l(1) by (simp add: ntfs_pwrite_def)
    show ?thesis
    proof (cases "r = Inr (int n)")
      case True
      note c = l(3) [OF True]
      have w: "dvalid w" "\<not> NDevReadOnly w" "content w = put_bytes (content v) ofs buf" "dsize w = dsize v"
        using c l(2) assms(2) by (auto simp: follows_def same_mode_def dirty_bit)
      obtain r' v' where s: "pwrite_sync dsync r w = Some (r', v')"
         "r' = Inr (int n) \<longrightarrow> follows w v' \<and> content v' = content w" "NDevReadOnly v' = NDevReadOnly w"
         "dlive w \<longrightarrow> r' = Inr (int n) \<and> dlive v'"
        using pwrite_sync_ok [OF w(1,2), of "int n"] unfolding True by blast
      then show ?thesis using eq w l(4) assms(2) by (auto simp: follows_def)
    next
      case no: False
      have "r' \<noteq> Inr (int n)" if "pwrite_sync dsync r w = Some (r', x)" for r' x
      proof (cases r)
        case (Inl e)
        then show ?thesis using that by (auto simp: pwrite_sync_def split: if_splits)
      next
        case (Inr k)
        then have "k < int n" using l(3) [OF Inr] no by auto
        then show ?thesis using that Inr by (auto simp: pwrite_sync_def split: if_splits)
      qed
      then show ?thesis using eq l(4) no by auto
    qed
  qed
  then show "ntfs_pwrite pwrite dsync v (int ofs) (int n) buf = Some (Inr (int n), v') \<Longrightarrow>
      follows v v' \<and> content v' = put_bytes (content v) ofs buf \<and> NDevReadOnly v' = NDevReadOnly v"
    and "dlive v \<Longrightarrow> \<exists>v'. ntfs_pwrite pwrite dsync v (int ofs) (int n) buf = Some (Inr (int n), v') \<and> dlive v'"
    by blast+
qed

end

section \<open>Sequences of requests\<close>

text \<open>What a client asks of a device, what it gets, and a session of requests over the functions above; the
  reference is an array of bytes.\<close>

datatype request = ReadAt nat nat | WriteAt nat bytes | SyncAll

datatype answer = Data bytes | Count int | Failure errno

fun serve_request :: "('p ntfs_device \<Rightarrow> bytes \<Rightarrow> int \<Rightarrow> int \<Rightarrow> ((errno + int) \<times> bytes \<times> 'p ntfs_device) option)
    \<Rightarrow> ('p ntfs_device \<Rightarrow> bytes \<Rightarrow> int \<Rightarrow> int \<Rightarrow> ((errno + int) \<times> 'p ntfs_device) option)
    \<Rightarrow> ('p ntfs_device \<Rightarrow> ((errno + int) \<times> 'p ntfs_device) option) \<Rightarrow> 'p ntfs_device \<Rightarrow> request \<Rightarrow> (answer \<times> 'p ntfs_device) option" where
  "serve_request pread pwrite dsync v (ReadAt ofs n) = (case ntfs_pread pread v (int ofs) (int n) (replicate n 0) of None \<Rightarrow> None
     | Some (Inl e, b, v') \<Rightarrow> Some (Failure e, v') | Some (Inr k, b, v') \<Rightarrow> Some (Data (take (nat k) b), v'))"
| "serve_request pread pwrite dsync v (WriteAt ofs xs) = (case ntfs_pwrite pwrite dsync v (int ofs) (int (length xs)) xs of None \<Rightarrow> None
     | Some (Inl e, v') \<Rightarrow> Some (Failure e, v') | Some (Inr k, v') \<Rightarrow> Some (Count k, v'))"
| "serve_request pread pwrite dsync v SyncAll = (case ntfs_device_sync dsync v of None \<Rightarrow> None
     | Some (Inl e, v') \<Rightarrow> Some (Failure e, v') | Some (Inr k, v') \<Rightarrow> Some (Count k, v'))"

primrec serve_requests :: "('p ntfs_device \<Rightarrow> bytes \<Rightarrow> int \<Rightarrow> int \<Rightarrow> ((errno + int) \<times> bytes \<times> 'p ntfs_device) option)
    \<Rightarrow> ('p ntfs_device \<Rightarrow> bytes \<Rightarrow> int \<Rightarrow> int \<Rightarrow> ((errno + int) \<times> 'p ntfs_device) option)
    \<Rightarrow> ('p ntfs_device \<Rightarrow> ((errno + int) \<times> 'p ntfs_device) option) \<Rightarrow> 'p ntfs_device \<Rightarrow> request list
    \<Rightarrow> (answer list \<times> 'p ntfs_device) option" where
  "serve_requests pread pwrite dsync v [] = Some ([], v)"
| "serve_requests pread pwrite dsync v (r # rs) = (case serve_request pread pwrite dsync v r of None \<Rightarrow> None
     | Some (a, v') \<Rightarrow> map_option (\<lambda>(as, w). (a # as, w)) (serve_requests pread pwrite dsync v' rs))"

fun array_request :: "(nat \<Rightarrow> u8) \<Rightarrow> request \<Rightarrow> answer \<times> (nat \<Rightarrow> u8)" where
  "array_request f (ReadAt ofs n) = (Data (bytes_from f ofs n), f)"
| "array_request f (WriteAt ofs xs) = (Count (int (length xs)), put_bytes f ofs xs)"
| "array_request f SyncAll = (Count 0, f)"

primrec array_requests :: "(nat \<Rightarrow> u8) \<Rightarrow> request list \<Rightarrow> answer list \<times> (nat \<Rightarrow> u8)" where
  "array_requests f [] = ([], f)"
| "array_requests f (r # rs) = (case array_request f r of (a, g) \<Rightarrow> (case array_requests g rs of (as, h) \<Rightarrow> (a # as, h)))"

fun request_fits :: "nat \<Rightarrow> request \<Rightarrow> bool" where
  "request_fits z (ReadAt ofs n) \<longleftrightarrow> ofs + n \<le> z \<and> n < 2 ^ 31"
| "request_fits z (WriteAt ofs xs) \<longleftrightarrow> ofs + length xs \<le> z \<and> length xs < 2 ^ 31"
| "request_fits z SyncAll \<longleftrightarrow> True"

context byte_device
begin

lemma serve_request_ok:
  assumes v: "dvalid v" "dlive v" "\<not> NDevReadOnly v" and r: "request_fits (dsize v) r"
  shows "\<exists>v'. serve_request pread pwrite dsync v r = Some (fst (array_request (content v) r), v')
     \<and> follows v v' \<and> content v' = snd (array_request (content v) r) \<and> dlive v' \<and> \<not> NDevReadOnly v'"
proof (cases r)
  case (ReadAt ofs n)
  then have fit: "ofs + n \<le> dsize v" "n < 2 ^ 31" using r by simp_all
  obtain b v' where p: "ntfs_pread pread v (int ofs) (int n) (replicate n 0) = Some (Inr (int n), b, v')" "length b = n" "same_mode v v'"
     "take n b = bytes_from (content v) ofs n" "follows v v'" "content v' = content v" "dlive v'"
    using ntfs_pread_ok [OF v(1) fit length_replicate, of 0] v(2) by auto
  then show ?thesis using ReadAt v(3) by (simp add: same_mode_def)
next
  case (WriteAt ofs xs)
  then have fit: "ofs + length xs \<le> dsize v" "length xs < 2 ^ 31" using r by simp_all
  note w = ntfs_pwrite_ok [OF v(1,3) fit refl]
  obtain v' where "ntfs_pwrite pwrite dsync v (int ofs) (int (length xs)) xs = Some (Inr (int (length xs)), v')" "dlive v'"
    using w(2) [OF v(2)] by blast
  then show ?thesis using w(1) WriteAt v(3) by simp
next
  case SyncAll
  show ?thesis
  proof (cases "NDevDirty v")
    case True
    obtain q v' where "dsync v = Some (q, v')" "NDevReadOnly v' = NDevReadOnly v"
      "\<And>k. q = Inr k \<Longrightarrow> k = 0 \<and> dvalid v' \<and> dsize v' = dsize v \<and> content v' = content v" "q = Inr 0 \<and> dlive v'"
      using sync_ok [OF v(1,3)] v(2) by blast
    then show ?thesis using SyncAll True v(3) by (simp add: ntfs_device_sync_def follows_def)
  next
    case False
    then show ?thesis using SyncAll v by (simp add: ntfs_device_sync_def follows_def)
  qed
qed

lemma serve_requests_ok:
  "dvalid v \<Longrightarrow> dlive v \<Longrightarrow> \<not> NDevReadOnly v \<Longrightarrow> list_all (request_fits (dsize v)) rs \<Longrightarrow>
   \<exists>v'. serve_requests pread pwrite dsync v rs = Some (fst (array_requests (content v) rs), v')
     \<and> follows v v' \<and> content v' = snd (array_requests (content v) rs)"
proof (induction rs arbitrary: v)
  case Nil
  then show ?case by (simp add: follows_def)
next
  case (Cons r rs)
  obtain v1 where 1: "serve_request pread pwrite dsync v r = Some (fst (array_request (content v) r), v1)" "follows v v1"
     "content v1 = snd (array_request (content v) r)" "dlive v1" "\<not> NDevReadOnly v1"
    using serve_request_ok [OF Cons.prems(1-3)] Cons.prems(4) by auto
  then obtain v2 where "serve_requests pread pwrite dsync v1 rs = Some (fst (array_requests (content v1) rs), v2)"
     "follows v1 v2" "content v2 = snd (array_requests (content v1) rs)"
    using Cons.IH [of v1] Cons.prems(4) by (auto simp: follows_def)
  then show ?case using 1 by (simp add: follows_def split: prod.split)
qed

end

section \<open>Blocks of a buffer\<close>

text \<open>The three fixup loops map a function over the blocks of a buffer.\<close>

primrec map_blocks :: "(bytes \<Rightarrow> bytes option) \<Rightarrow> nat \<Rightarrow> nat \<Rightarrow> nat \<Rightarrow> bytes \<Rightarrow> bytes option" where
  "map_blocks f 0 i bk b = Some b"
| "map_blocks f (Suc n) i bk b =
     (case mem_get b (i * bk) bk of None \<Rightarrow> None
      | Some blk \<Rightarrow> (case f blk of None \<Rightarrow> None | Some blk' \<Rightarrow> map_blocks f n (i + 1) bk (blit b (i * bk) blk')))"

lemma read_fixups_map:
  "read_fixups n i bk b = map_blocks (\<lambda>blk. case ntfs_mst_post_read_fixup blk bk of (blk', e) \<Rightarrow> if e = Some FAULT then None else Some blk') n i bk b"
  by (induction n arbitrary: i b) (auto split: option.splits prod.splits)

lemma post_fixups_map: "post_fixups n i bk b = map_blocks ntfs_mst_post_write_fixup n i bk b"
  by (induction n arbitrary: i b) (auto split: option.splits)

lemma write_fixups_map:
  "map_blocks (\<lambda>blk. case ntfs_mst_pre_write_fixup (Some blk) bk of (Some blk', None) \<Rightarrow> Some blk' | _ \<Rightarrow> None) n i bk b = Some b' \<Longrightarrow>
   write_fixups n i bk b = Some (None, b')"
  by (induction n arbitrary: i b) (auto split: option.splits prod.splits)

lemma map_blocks_concat:
  assumes "length b = (i + n) * bk" "\<And>j. i \<le> j \<Longrightarrow> j < i + n \<Longrightarrow> f (chunk (j * bk) bk b) = Some (g j) \<and> length (g j) = bk"
  shows "map_blocks f n i bk b = Some (take (i * bk) b @ concat (map g [i..<i + n]))"
  using assms
proof (induction n arbitrary: i b)
  case 0
  then show ?case by simp
next
  case (Suc n)
  have len: "i * bk + bk \<le> length b" using Suc.prems(1) by (simp add: add_mult_distrib)
  have f: "f (chunk (i * bk) bk b) = Some (g i)" "length (g i) = bk" using Suc.prems(2) [of i] by simp_all
  let ?b = "blit b (i * bk) (g i)"
  have lb: "length ?b = (i + 1 + n) * bk" using f(2) len Suc.prems(1) by simp
  have "chunk (j * bk) bk ?b = chunk (j * bk) bk b" if "i + 1 \<le> j" "j < i + 1 + n" for j
  proof (rule chunk_blit_other)
    have "(i + 1) * bk \<le> j * bk" "(j + 1) * bk \<le> (i + Suc n) * bk" by (rule mult_le_mono1; use that in simp)+
    then show "i * bk + length (g i) \<le> length b" "j * bk + bk \<le> length b" "j * bk + bk \<le> i * bk \<or> i * bk + length (g i) \<le> j * bk"
      using f(2) len Suc.prems(1) by (simp_all add: add_mult_distrib)
  qed
  then have "f (chunk (j * bk) bk ?b) = Some (g j) \<and> length (g j) = bk" if "i + 1 \<le> j" "j < i + 1 + n" for j
    using that Suc.prems(2) [of j] by simp
  then have "map_blocks f n (i + 1) bk ?b = Some (take ((i + 1) * bk) ?b @ concat (map g [i + 1..<i + 1 + n]))"
    by (intro Suc.IH lb)
  moreover have "take ((i + 1) * bk) ?b = take (i * bk) b @ g i"
    using f(2) len by (simp add: blit_def)
  moreover have "[i..<i + Suc n] = i # [i + 1..<i + 1 + n]" by (simp add: upt_conv_Cons)
  ultimately show ?case
    using mem_get_SomeI [OF len] f(1) by simp
qed

lemma concat_blocks:
  fixes g :: "nat \<Rightarrow> bytes"
  assumes "\<And>j. j < n \<Longrightarrow> length (g j) = bk" "j < n"
  shows "chunk (j * bk) bk (concat (map g [0..<n])) = g j"
  using chunk_sector [of 0 n g bk j] assms by (simp add: sectors_of_def)

lemma s64_small: "x < 2 ^ 31 \<Longrightarrow> s64 (int x) = int x"
  by (simp add: in_s64_def)

lemma length_concat_blocks: "(\<And>j. j < n \<Longrightarrow> length (g j :: bytes) = bk) \<Longrightarrow> length (concat (map g [0..<n])) = n * bk"
  using length_sectors_of [of 0 n g bk] by (simp add: sectors_of_def)

context byte_device
begin

lemma mst_write_then_read:
  assumes v: "dvalid v" "dlive v" "\<not> NDevReadOnly v"
    and sz: "(bk AND (bk - 1)) = 0" "bk mod 512 = 0" "0 < bk" "0 < n" "n * bk < 2 ^ 31" "ofs + n * bk \<le> dsize v"
    and buf: "length buf = n * bk" "length buf' = n * bk"
    and blk: "\<And>j. j < n \<Longrightarrow> mst_layout (chunk (j * bk) bk buf) bk \<and> good_magic (chunk (j * bk) bk buf)"
  shows "\<exists>b2 v1 v2. ntfs_mst_pwrite pwrite dsync v (int ofs) (int n) bk buf = Some (Inr (int n), b2, v1)
     \<and> ntfs_mst_pread pread v1 (int ofs) (int n) bk buf' = Some (Inr (int n), b2, v2) \<and> length b2 = n * bk
     \<and> (\<forall>j < n. \<forall>i < bk. \<not> (usa_ofs (chunk (j * bk) bk buf) \<le> i
            \<and> i < usa_ofs (chunk (j * bk) bk buf) + 2 * (usa_fixups (chunk (j * bk) bk buf) + 1)) \<longrightarrow>
          b2 ! (j * bk + i) = buf ! (j * bk + i))"
proof -
  let ?blk = "\<lambda>j. chunk (j * bk) bk buf"
  have "\<exists>p r. ntfs_mst_pre_write_fixup (Some (?blk j)) bk = (Some p, None) \<and> ntfs_mst_post_read_fixup p bk = (r, None)
      \<and> ntfs_mst_post_write_fixup p = Some r \<and> length p = bk \<and> length r = bk
      \<and> (\<forall>i < bk. \<not> (usa_ofs (?blk j) \<le> i \<and> i < usa_ofs (?blk j) + 2 * (usa_fixups (?blk j) + 1)) \<longrightarrow> r ! i = ?blk j ! i)"
    if "j < n" for j
    using mst_roundtrip [of "?blk j" bk] pre_write_spec [of "?blk j" bk] blk [OF that] by force
  then obtain p r where pr: "\<And>j. j < n \<Longrightarrow> ntfs_mst_pre_write_fixup (Some (?blk j)) bk = (Some (p j), None)
      \<and> ntfs_mst_post_read_fixup (p j) bk = (r j, None) \<and> ntfs_mst_post_write_fixup (p j) = Some (r j) \<and> length (p j) = bk \<and> length (r j) = bk
      \<and> (\<forall>i < bk. \<not> (usa_ofs (?blk j) \<le> i \<and> i < usa_ofs (?blk j) + 2 * (usa_fixups (?blk j) + 1)) \<longrightarrow> r j ! i = ?blk j ! i)"
    by metis
  define b1 b2 where "b1 = concat (map p [0..<n])" and "b2 = concat (map r [0..<n])"
  have len: "length b1 = n * bk" "length b2 = n * bk"
    unfolding b1_def b2_def by (rule length_concat_blocks; use pr in blast)+
  have c1: "chunk (j * bk) bk b1 = p j" if "j < n" for j
    unfolding b1_def by (rule concat_blocks) (use pr that in auto)
  have w: "write_fixups n 0 bk buf = Some (None, b1)"
  proof (rule write_fixups_map)
    show "map_blocks (\<lambda>blk. case ntfs_mst_pre_write_fixup (Some blk) bk of (Some blk', None) \<Rightarrow> Some blk' | _ \<Rightarrow> None) n 0 bk buf = Some b1"
      using map_blocks_concat [of buf 0 n bk _ p] buf pr by (simp add: b1_def)
  qed
  have post: "post_fixups n 0 bk b1 = Some b2"
    unfolding post_fixups_map using map_blocks_concat [of b1 0 n bk _ r] len c1 pr by (simp add: b2_def)
  have rd: "read_fixups n 0 bk b1 = Some b2"
    unfolding read_fixups_map using map_blocks_concat [of b1 0 n bk _ r] len c1 pr by (simp add: b2_def)
  have s: "s64 (int n * int bk) = int (n * bk)"
    unfolding of_nat_mult [symmetric] by (rule s64_small [OF sz(5)])
  obtain v1 where v1: "ntfs_pwrite pwrite dsync v (int ofs) (int (n * bk)) b1 = Some (Inr (int (n * bk)), v1)" "dlive v1"
    using ntfs_pwrite_ok(2) [OF v(1,3) sz(6,5) len(1) v(2)] by blast
  note f = ntfs_pwrite_ok(1) [OF v(1,3) sz(6,5) len(1) v1(1)]
  have pw: "ntfs_mst_pwrite pwrite dsync v (int ofs) (int n) bk buf = Some (Inr (int n), b2, v1)"
  proof -
    have "\<not> int n * int bk \<le> 0" using sz(3,4) by (simp add: mult_le_0_iff)
    then show ?thesis
      using sz(2-4) w post v1(1) s by (simp add: ntfs_mst_pwrite_def NTFS_BLOCK_SIZE_def Let_def)
  qed
  obtain rr b v2 where p: "ntfs_pread pread v1 (int ofs) (int (n * bk)) buf' = Some (rr, b, v2)" "length b = n * bk"
     "\<And>k. rr = Inr k \<Longrightarrow> take (nat k) b = bytes_from (content v1) ofs (nat k)" "rr = Inr (int (n * bk))"
    using ntfs_pread_ok [of v1 ofs "n * bk" buf'] f sz(5,6) buf(2) v1(2) by (auto simp: follows_def)
  have "b = bytes_from (content v1) ofs (n * bk)"
    using p(3) [OF p(4)] p(2) unfolding nat_int by simp
  then have "b = b1"
    using f bytes_from_put [of "content v" ofs b1] len(1) by simp
  moreover have nn: "(int n * int bk < 0) = False" by (simp add: not_less)
  ultimately have "ntfs_mst_pread pread v1 (int ofs) (int n) bk buf' = Some (Inr (int n), b2, v2)"
    using p(1) rd sz(1-3) s unfolding p(4) by (simp add: nn ntfs_mst_pread_def NTFS_BLOCK_SIZE_def)
  moreover have "b2 ! (j * bk + i) = buf ! (j * bk + i)" if "j < n" "i < bk" "\<not> (usa_ofs (?blk j) \<le> i \<and> i < usa_ofs (?blk j) + 2 * (usa_fixups (?blk j) + 1))" for j i
  proof -
    have "chunk (j * bk) bk b2 = r j" unfolding b2_def by (rule concat_blocks) (use pr that in auto)
    moreover have "(j + 1) * bk \<le> n * bk" by (rule mult_le_mono1) (use that in simp)
    ultimately have "b2 ! (j * bk + i) = r j ! i" "buf ! (j * bk + i) = ?blk j ! i"
      using that(2) len(2) buf(1) nth_chunk [of i bk "j * bk" b2] nth_chunk [of i bk "j * bk" buf] by simp_all
    then show ?thesis using pr [OF that(1)] that(2,3) by simp
  qed
  ultimately show ?thesis using pw len(2) by blast
qed

end


section \<open>A device in memory\<close>

text \<open>A partition of 58 sectors of one byte behind a cache, with an allocator that never fails.\<close>

definition ram_heap :: "nat \<Rightarrow> (nat \<Rightarrow> u8) option" where
  "ram_heap n = Some (\<lambda>i. 0)"

definition ram_fd :: "(int \<Rightarrow> nat \<Rightarrow> bytes) ps3 gekko_fd" where
  "ram_fd = \<lparr>fd_interface = Some (Cached ram_cache), fd_startSector = 2, fd_hiddenSectors = 0, fd_sectorSize = 1, fd_sectorCount = 58,
     fd_pos = 0, fd_len = 58, fd_ino = 0, fd_cachePageCount = 1, fd_cachePageSize = 8\<rparr>"

definition ram_device :: "(int \<Rightarrow> nat \<Rightarrow> bytes) ps3 gekko_fd ntfs_device" where
  "ram_device = \<lparr>d_private = Some ram_fd, NDevOpen = True, NDevReadOnly = False, NDevDirty = False, NDevBlock = True, NDevSync = False\<rparr>"

text \<open>A block device on a USB disc whose descriptor fits the disc, its size and its bytes, and that it works.\<close>

abbreviation usb_valid :: "nat \<Rightarrow> 'k ps3 gekko_fd ntfs_device \<Rightarrow> bool" where
  "usb_valid fd \<equiv> gekko_valid (case_backing (\<lambda>p. dev_sectsize p ! fd) sectorSize) (case_backing (\<lambda>p. 0) startOfPartition)
     (case_backing (\<lambda>p. medium_end (ops p) (dev_fd p ! fd)) endOfPartition) (case_backing (ps3_valid fd) (ps3_cache_valid fd))"

abbreviation usb_size :: "nat \<Rightarrow> 'k ps3 gekko_fd ntfs_device \<Rightarrow> nat" where
  "usb_size fd \<equiv> gekko_size (case_backing (\<lambda>p. medium_end (ops p) (dev_fd p ! fd)) endOfPartition)"

abbreviation usb_content :: "nat \<Rightarrow> 'k ps3 gekko_fd ntfs_device \<Rightarrow> nat \<Rightarrow> u8" where
  "usb_content fd \<equiv> gekko_content (case_backing (ps3_sect fd) (cache_view (ps3_sect fd)))"

definition usb_live :: "nat \<Rightarrow> (nat \<Rightarrow> (nat \<Rightarrow> u8) option) \<Rightarrow> 'k ps3 gekko_fd ntfs_device \<Rightarrow> bool" where
  "usb_live fd heap v \<longleftrightarrow> case_backing (ps3_live fd) (\<lambda>c. ps3_live fd (disc c)) (backing_of v) \<and> (\<forall>n. alloc heap n \<noteq> None)"

abbreviation usb_pread :: "bool \<Rightarrow> nat \<Rightarrow> (nat \<Rightarrow> (nat \<Rightarrow> u8) option) \<Rightarrow> 'k ps3 gekko_fd ntfs_device \<Rightarrow> bytes \<Rightarrow> int \<Rightarrow> int
    \<Rightarrow> ((errno + int) \<times> bytes \<times> 'k ps3 gekko_fd ntfs_device) option" where
  "usb_pread un fd heap \<equiv> ntfs_device_gekko_io_pread (ps3_disc_ops un fd) (alloc heap)"

abbreviation usb_pwrite :: "bool \<Rightarrow> nat \<Rightarrow> (nat \<Rightarrow> (nat \<Rightarrow> u8) option) \<Rightarrow> 'k ps3 gekko_fd ntfs_device \<Rightarrow> bytes \<Rightarrow> int \<Rightarrow> int
    \<Rightarrow> ((errno + int) \<times> 'k ps3 gekko_fd ntfs_device) option" where
  "usb_pwrite un fd heap \<equiv> ntfs_device_gekko_io_pwrite (ps3_disc_ops un fd) (alloc heap)"

abbreviation usb_sync :: "bool \<Rightarrow> nat \<Rightarrow> 'k ps3 gekko_fd ntfs_device \<Rightarrow> ((errno + int) \<times> 'k ps3 gekko_fd ntfs_device) option" where
  "usb_sync un fd \<equiv> ntfs_device_gekko_io_sync (ps3_disc_ops un fd)"

lemma ram_device_ok: "usb_valid 0 ram_device" "usb_live 0 ram_heap ram_device" "\<not> NDevReadOnly ram_device" "usb_size 0 ram_device = 58"
proof -
  have "fd_of ram_device = ram_fd" by (simp add: fd_of_def ram_device_def)
  moreover have "backing_of ram_device = Cached ram_cache" by (simp add: backing_of_def calculation ram_fd_def)
  ultimately show "usb_valid 0 ram_device" "usb_live 0 ram_heap ram_device" "\<not> NDevReadOnly ram_device" "usb_size 0 ram_device = 58"
    using ram_cache_ok by (simp_all add: gekko_valid_def gekko_size_def usb_live_def alloc_def ram_heap_def, simp_all add: ram_device_def ram_fd_def)
qed

section \<open>Properties\<close>

text \<open>
  Bytes written with \<open>ntfs_pwrite\<close> at any offset and of any length, aligned or not, are in place: whatever range
  is read with \<open>ntfs_pread\<close> afterwards, it holds the new bytes where they were written and the old ones elsewhere.
\<close>

lemma device_write_then_read:
  assumes "usb_valid fd v" "usb_live fd heap v" "\<not> NDevReadOnly v"
    and "ofs + length buf \<le> usb_size fd v" "length buf < 2 ^ 31" "ofs' + n \<le> usb_size fd v" "n < 2 ^ 31" "length buf' = n"
  shows "\<exists>v1 v2. ntfs_pwrite (usb_pwrite un fd heap) (usb_sync un fd) v (int ofs) (int (length buf)) buf = Some (Inr (int (length buf)), v1)
     \<and> ntfs_pread (usb_pread un fd heap) v1 (int ofs') (int n) buf'
         = Some (Inr (int n), bytes_from (put_bytes (usb_content fd v) ofs buf) ofs' n, v2)"
proof -
  note live = assms(2) [unfolded usb_live_def]
  obtain v1 where w: "ntfs_pwrite (usb_pwrite un fd heap) (usb_sync un fd) v (int ofs) (int (length buf)) buf = Some (Inr (int (length buf)), v1)"
      "usb_live fd heap v1"
    using ps3_gekko.byte.ntfs_pwrite_ok(2) [OF assms(1,3,4,5) refl live, of un] unfolding usb_live_def by blast
  have v1: "usb_valid fd v1" "usb_size fd v1 = usb_size fd v" "usb_content fd v1 = put_bytes (usb_content fd v) ofs buf"
    using ps3_gekko.byte.ntfs_pwrite_ok(1) [OF assms(1,3,4,5) refl w(1)] by (auto simp: ps3_gekko.byte.follows_def)
  have a: "ofs' + n \<le> usb_size fd v1" using assms(6) v1(2) by simp
  obtain r b v2 where r: "ntfs_pread (usb_pread un fd heap) v1 (int ofs') (int n) buf' = Some (r, b, v2)" "length b = n"
     "\<And>k. r = Inr k \<Longrightarrow> take (nat k) b = bytes_from (usb_content fd v1) ofs' (nat k)" "r = Inr (int n)"
    using ps3_gekko.byte.ntfs_pread_ok [OF v1(1) a assms(7,8), of un heap] w(2) unfolding usb_live_def by blast
  then have "b = bytes_from (put_bytes (usb_content fd v) ofs buf) ofs' n"
    using r(3) [OF r(4)] v1(3) by simp
  then show ?thesis using w(1) r(1,4) by blast
qed

text \<open>
  C4. A device that works is an array of bytes: any sequence of reads, writes and syncs within its bounds gets the answers
  the array gives and leaves the contents of the array, whether a cache lies between the device and the disc or not, and
  whatever this cache holds. So a device with a cache and one without answer alike.
\<close>

theorem device_is_byte_array:
  assumes "usb_valid fd v" "usb_live fd heap v" "\<not> NDevReadOnly v" "list_all (request_fits (usb_size fd v)) rs"
  shows "\<exists>v'. serve_requests (usb_pread un fd heap) (usb_pwrite un fd heap) (usb_sync un fd) v rs
        = Some (fst (array_requests (usb_content fd v) rs), v')
     \<and> usb_content fd v' = snd (array_requests (usb_content fd v) rs)"
  using ps3_gekko.byte.serve_requests_ok [OF assms(1) assms(2) [unfolded usb_live_def] assms(3,4), of un] by blast

theorem device_is_byte_array_witness:
  "\<exists>v'. serve_requests (usb_pread True 0 ram_heap) (usb_pwrite True 0 ram_heap) (usb_sync True 0) ram_device
          [WriteAt 30 [7, 8], SyncAll, ReadAt 31 1] = Some ([Count 2, Count 0, Data [8]], v')"
proof -
  have "fst (array_requests f [WriteAt 30 [7, 8], SyncAll, ReadAt 31 1]) = [Count 2, Count 0, Data [8]]" for f
    by (simp add: bytes_from_def put_bytes_def)
  then show ?thesis
    using device_is_byte_array [OF ram_device_ok(1-3), of "[WriteAt 30 [7, 8], SyncAll, ReadAt 31 1]" True] ram_device_ok(4) by auto
qed

text \<open>
  C26. Protected records written with \<open>ntfs_mst_pwrite\<close> come back from \<open>ntfs_mst_pread\<close> as the very buffer the write
  left behind, and this buffer differs from the one before only in the update sequence arrays of the records.
\<close>

theorem device_mst_roundtrip:
  assumes "usb_valid fd v" "usb_live fd heap v" "\<not> NDevReadOnly v"
    and "(bk AND (bk - 1)) = 0" "bk mod 512 = 0" "0 < bk" "0 < n" "n * bk < 2 ^ 31" "ofs + n * bk \<le> usb_size fd v"
    and "length buf = n * bk" "length buf' = n * bk"
    and "\<And>j. j < n \<Longrightarrow> mst_layout (chunk (j * bk) bk buf) bk \<and> good_magic (chunk (j * bk) bk buf)"
  shows "\<exists>b2 v1 v2. ntfs_mst_pwrite (usb_pwrite un fd heap) (usb_sync un fd) v (int ofs) (int n) bk buf = Some (Inr (int n), b2, v1)
     \<and> ntfs_mst_pread (usb_pread un fd heap) v1 (int ofs) (int n) bk buf' = Some (Inr (int n), b2, v2) \<and> length b2 = n * bk
     \<and> (\<forall>j < n. \<forall>i < bk. \<not> (usa_ofs (chunk (j * bk) bk buf) \<le> i
            \<and> i < usa_ofs (chunk (j * bk) bk buf) + 2 * (usa_fixups (chunk (j * bk) bk buf) + 1)) \<longrightarrow>
          b2 ! (j * bk + i) = buf ! (j * bk + i))"
  using ps3_gekko.byte.mst_write_then_read [OF assms(1) assms(2) [unfolded usb_live_def] assms(3-12), of un] by blast

definition wide_dev :: "(int \<Rightarrow> nat \<Rightarrow> bytes) ps3" where
  "wide_dev = ram_dev \<lparr>ops := ram_ops \<lparr>medium_end := \<lambda>h. 4096\<rparr>\<rparr>"

definition wide_device :: "(int \<Rightarrow> nat \<Rightarrow> bytes) ps3 gekko_fd ntfs_device" where
  "wide_device = ram_device \<lparr>d_private := Some (ram_fd \<lparr>fd_interface := Some (NoCache wide_dev)\<rparr>)\<rparr>"

lemma wide_device_ok: "usb_valid 0 wide_device" "usb_live 0 ram_heap wide_device" "\<not> NDevReadOnly wide_device" "usb_size 0 wide_device = 4094"
proof -
  have "fd_of wide_device = ram_fd \<lparr>fd_interface := Some (NoCache wide_dev)\<rparr>" by (simp add: fd_of_def wide_device_def)
  moreover have "backing_of wide_device = NoCache wide_dev" by (simp add: backing_of_def calculation)
  moreover have "read_law (ram_ops \<lparr>medium_end := \<lambda>h. 4096\<rparr>)" "write_law (ram_ops \<lparr>medium_end := \<lambda>h. 4096\<rparr>)"
    by (auto simp: read_law_def write_law_def ram_ops_def put_sectors_def split: if_splits)
  then have "ps3_valid 0 wide_dev" "ps3_live 0 wide_dev"
    by (simp_all add: ps3_valid_def ps3_live_def wide_dev_def ram_dev_def) (simp_all add: ram_ops_def)
  ultimately show "usb_valid 0 wide_device" "usb_live 0 ram_heap wide_device" "\<not> NDevReadOnly wide_device" "usb_size 0 wide_device = 4094"
    by (simp_all add: gekko_valid_def gekko_size_def usb_live_def alloc_def ram_heap_def)
      (simp_all add: wide_device_def wide_dev_def ram_device_def ram_fd_def ram_dev_def ram_ops_def)
qed

theorem device_mst_roundtrip_witness:
  "\<exists>b2 v1 v2. ntfs_mst_pwrite (usb_pwrite True 0 ram_heap) (usb_sync True 0) wide_device (int 100) (int 1) 1024 (demo_record 7) = Some (Inr (int 1), b2, v1)
     \<and> ntfs_mst_pread (usb_pread True 0 ram_heap) v1 (int 100) (int 1) 1024 (replicate 1024 0) = Some (Inr (int 1), b2, v2)
     \<and> b2 ! 1000 = 5"
proof -
  have len: "length (demo_record 7) = 1024" by (simp add: demo_record_def)
  have c: "chunk 0 1024 (demo_record 7) = demo_record 7" using len chunk_full by metis
  have "(1024 :: nat) AND 1023 = 0" by simp
  then obtain b2 v1 v2 where *: "ntfs_mst_pwrite (usb_pwrite True 0 ram_heap) (usb_sync True 0) wide_device (int 100) (int 1) 1024 (demo_record 7) = Some (Inr (int 1), b2, v1)"
     "ntfs_mst_pread (usb_pread True 0 ram_heap) v1 (int 100) (int 1) 1024 (replicate 1024 0) = Some (Inr (int 1), b2, v2)"
     "\<forall>i < 1024. \<not> (usa_ofs (demo_record 7) \<le> i \<and> i < usa_ofs (demo_record 7) + 2 * (usa_fixups (demo_record 7) + 1)) \<longrightarrow>
          b2 ! i = demo_record 7 ! i"
    using device_mst_roundtrip [OF wide_device_ok(1-3), of 1024 1 100 "demo_record 7" "replicate 1024 0" True] wide_device_ok(4) len c
      demo_record_ok(1,2) [of 7] by auto
  then have "b2 ! 1000 = 5" using demo_record_ok(3,4) [of 7] by (simp add: demo_record_def)
  with *(1,2) show ?thesis by blast
qed

text \<open>
  \<open>ntfs_device_gekko_io_sync\<close> marks the device clean before it flushes the cache: when the flush fails, the next
  \<open>ntfs_device_sync\<close> reports success and does nothing, although the cache still holds what was not written.
\<close>

lemma failed_sync_is_not_retried:
  assumes "ntfs_device_gekko_io_sync I dev = Some (Inl EIO, dev')"
  shows "ntfs_device_sync (ntfs_device_gekko_io_sync I) dev' = Some (Inr 0, dev')"
proof -
  have "\<not> NDevDirty dev'"
    using assms by (auto simp: ntfs_device_gekko_io_sync_def Let_def set_backing_def split: if_splits option.splits backing.splits)
  then show ?thesis by (simp add: ntfs_device_sync_def)
qed

definition broken_ops :: "'k ps3 disc_ops" where
  "broken_ops = (ps3_disc_ops False 0) \<lparr>if_writeSectors := (\<lambda>d s n b. Some (False, d))\<rparr>"

definition dirty_device :: "(int \<Rightarrow> nat \<Rightarrow> bytes) ps3 gekko_fd ntfs_device" where
  "dirty_device = ram_device \<lparr>NDevDirty := True, d_private := Some (ram_fd \<lparr>fd_interface := Some (Cached (ram_cache
     \<lparr>cacheEntries := [\<lparr>ce_sector = 2, ce_count = 32, ce_last_access = 1, ce_dirty = True, ce_cache = replicate 32 7\<rparr>]\<rparr>))\<rparr>)\<rparr>"

text \<open>
  It also clears the state bit of the mount option \<open>sync\<close>: after the first sync, a write to a device mounted with
  that option is not synced any more.
\<close>

lemma sync_ends_sync_mode:
  assumes "ntfs_device_gekko_io_sync I dev = Some (r, dev')" "\<not> NDevReadOnly dev"
  shows "pwrite_sync (ntfs_device_gekko_io_sync I) (Inr written) dev' = Some (Inr written, dev')"
proof -
  have "\<not> NDevSync dev'"
    using assms by (auto simp: ntfs_device_gekko_io_sync_def Let_def set_backing_def split: option.splits backing.splits)
  then show ?thesis by (simp add: pwrite_sync_def)
qed

text \<open>
  \<open>ntfs_mst_pread\<close> with blocks of 0 bytes, for which its comment promises the result 0, divides by zero.
\<close>

lemma mst_pread_block_size_zero:
  "0 \<le> pos \<Longrightarrow> ntfs_mst_pread pread dev pos count 0 b = None"
  by (simp add: ntfs_mst_pread_def ntfs_pread_def s64_def)

end

