(* ===== verification/AttrMst.thy ===== *)
theory AttrMst
  imports DeviceIo "HOL-Library.Monad_Syntax"
begin

text \<open>
  \<open>ntfs_attr_mst_pread\<close> and \<open>ntfs_attr_mst_pwrite\<close> of \<open>libntfs_ext/source/attrib.c\<close>: records with an update sequence array, in an attribute.
  The reads and writes of the attribute itself are parameters: \<open>aread pos n dst\<close> is the result of \<open>ntfs_attr_pread\<close> and what is then in the
  buffer, \<open>awrite pos b v\<close> the result of \<open>ntfs_attr_pwrite\<close> and the state after it. \<open>None\<close> is a fault.
\<close>

definition ntfs_attr_mst_pread :: "(int \<Rightarrow> int \<Rightarrow> bytes \<Rightarrow> int \<times> bytes) \<Rightarrow> int \<Rightarrow> int \<Rightarrow> nat \<Rightarrow> bytes \<Rightarrow> (int \<times> bytes) option" where
  "ntfs_attr_mst_pread aread pos bk_cnt bk_size dst =
     (if bk_cnt < 0 \<or> bk_size mod NTFS_BLOCK_SIZE \<noteq> 0 then Some (- 1, dst)
      else (case aread pos (bk_cnt * int bk_size) dst of (br, dst) \<Rightarrow>
        if br \<le> 0 then Some (br, dst)
        else if bk_size = 0 then None
        else map_option (\<lambda>dst. (br div int bk_size, dst)) (read_fixups (nat (br div int bk_size)) 0 bk_size dst)))"

text \<open>The buffer is protected, written, and deprotected: the caller finds in it the new update sequence number.\<close>

definition ntfs_attr_mst_pwrite :: "(int \<Rightarrow> bytes \<Rightarrow> 'v \<Rightarrow> int \<times> 'v) \<Rightarrow> int \<Rightarrow> int \<Rightarrow> nat \<Rightarrow> bytes \<Rightarrow> 'v \<Rightarrow> (int \<times> bytes \<times> 'v) option" where
  "ntfs_attr_mst_pwrite awrite pos bk_cnt bk_size src v =
     (if bk_cnt < 0 \<or> bk_size mod NTFS_BLOCK_SIZE \<noteq> 0 then Some (- 1, src, v)
      else if bk_cnt = 0 then Some (0, src, v)
      else do {
        (err, b1) \<leftarrow> write_fixups (nat bk_cnt) 0 bk_size src;
        case err of Some (e, 0) \<Rightarrow> Some (- 1, b1, v)
        | _ \<Rightarrow> do {
            let bk_cnt = (case err of None \<Rightarrow> nat bk_cnt | Some (e, i) \<Rightarrow> i);
            data \<leftarrow> mem_get b1 0 (bk_cnt * bk_size);
            let (written, v) = awrite pos data v;
            b2 \<leftarrow> post_fixups bk_cnt 0 bk_size b1;
            if written \<le> 0 then Some (written, b2, v)
            else if bk_size = 0 then None
            else Some (written div int bk_size, b2, v) } })"

section \<open>One record\<close>

lemma mem_get_whole: "length b = n \<Longrightarrow> mem_get b 0 n = Some b"
  by (simp add: mem_get_def chunk_full)

lemma blit_whole: "length ys = length b \<Longrightarrow> blit b 0 ys = ys"
  by (simp add: blit_def)

text \<open>A record that is written is read back as the caller finds it in the buffer after the write: it differs from what the caller wrote in the
  update sequence array only.\<close>

lemma mst_write_one:
  assumes "mst_layout b n" "good_magic b"
  obtains p r where "ntfs_mst_pre_write_fixup (Some b) n = (Some p, None)" "length p = n" "length r = n"
    "\<And>pos v. ntfs_attr_mst_pwrite awrite pos 1 n b v = (case awrite pos p v of (w, v') \<Rightarrow> Some (if w \<le> 0 then w else w div int n, r, v'))"
    "\<And>aread pos dst. aread pos (int n) dst = (int n, p) \<Longrightarrow> ntfs_attr_mst_pread aread pos 1 n dst = Some (1, r)"
    "get16 r (usa_ofs b) = next_usn (get16 b (usa_ofs b))"
    "\<forall>i < n. \<not> (usa_ofs b \<le> i \<and> i < usa_ofs b + 2 * (usa_fixups b + 1)) \<longrightarrow> r ! i = b ! i"
proof -
  obtain p r where pr: "ntfs_mst_pre_write_fixup (Some b) n = (Some p, None)" "ntfs_mst_post_read_fixup p n = (r, None)"
    "ntfs_mst_post_write_fixup p = Some r" "length r = n" "get16 r (usa_ofs b) = next_usn (get16 b (usa_ofs b))"
    "\<forall>i < n. \<not> (usa_ofs b \<le> i \<and> i < usa_ofs b + 2 * (usa_fixups b + 1)) \<longrightarrow> r ! i = b ! i"
    using mst_roundtrip [OF assms] by blast
  have l: "length p = n" using pre_write_spec [OF assms] pr(1) by auto
  have n: "length b = n" "n mod NTFS_BLOCK_SIZE = 0" "0 < n"
    using assms(1) by (auto simp: mst_layout_def mst_bad_header_def)
  have "write_fixups 1 0 n b = Some (None, p)" "post_fixups 1 0 n p = Some r" "read_fixups 1 0 n p = Some r"
    using n l pr by (simp_all add: mem_get_whole blit_whole)
  note f = this
  have w: "ntfs_attr_mst_pwrite awrite pos 1 n b v = (case awrite pos p v of (w, v') \<Rightarrow> Some (if w \<le> 0 then w else w div int n, r, v'))" for pos v
    using n l f unfolding ntfs_attr_mst_pwrite_def by (simp add: mem_get_whole Let_def split: prod.split)
  have rd: "ntfs_attr_mst_pread aread pos 1 n dst = Some (1, r)" if "aread pos (int n) dst = (int n, p)" for aread pos dst
    using that n f unfolding ntfs_attr_mst_pread_def by simp
  show ?thesis using that [OF pr(1) l pr(4) w rd pr(5,6)] .
qed

end
