(* ===== verification/Runlist.thy ===== *)
theory Runlist
  imports NtfsPrelude
begin

text \<open>
  Runlists, \<^verbatim>\<open>libntfs_ext/source/runlist.c\<close> and \<^verbatim>\<open>runlist.h\<close>: the element type, the map from
  virtual to logical clusters that a runlist stands for, and the operations that work on one
  runlist: lookup, truncation, the test for sparse regions and the compressed size.

  A runlist is the list of the array's elements, the terminator (length 0) included; elements
  behind the terminator are spare memory. Cluster numbers are \<open>int\<close>: their sums are signed 64-bit
  sums of the C code, which are undefined when they overflow.
\<close>

section \<open>Elements and special cluster numbers\<close>

record runlist_element =
  rl_vcn :: int
  rl_lcn :: int
  rl_length :: int

type_synonym runlist = "runlist_element list"

definition LCN_HOLE :: int where "LCN_HOLE = -1"
definition LCN_RL_NOT_MAPPED :: int where "LCN_RL_NOT_MAPPED = -2"
definition LCN_ENOENT :: int where "LCN_ENOENT = -3"
definition LCN_EINVAL :: int where "LCN_EINVAL = -4"

lemmas lcn_defs = LCN_HOLE_def LCN_RL_NOT_MAPPED_def LCN_ENOENT_def LCN_EINVAL_def

abbreviation rle :: "int \<Rightarrow> int \<Rightarrow> int \<Rightarrow> runlist_element" where
  "rle v l n \<equiv> \<lparr>rl_vcn = v, rl_lcn = l, rl_length = n\<rparr>"

section \<open>What a runlist stands for\<close>

text \<open>The logical cluster (or the special value) that one run gives to cluster \<open>v\<close>.\<close>

definition run_lcn :: "runlist_element \<Rightarrow> int \<Rightarrow> int" where
  "run_lcn e v = (if 0 \<le> rl_lcn e then rl_lcn e + (v - rl_vcn e) else rl_lcn e)"

definition in_run :: "runlist_element \<Rightarrow> int \<Rightarrow> bool" where
  "in_run e v \<longleftrightarrow> rl_vcn e \<le> v \<and> v < rl_vcn e + rl_length e"

text \<open>The abstract map of a runlist: up to the terminator, the first run that holds \<open>v\<close>.\<close>

fun rl_map :: "runlist \<Rightarrow> int \<Rightarrow> int option" where
  "rl_map [] v = None"
| "rl_map (e # es) v =
     (if rl_length e = 0 then None else if in_run e v then Some (run_lcn e v) else rl_map es v)"

text \<open>\<open>contig a xs b\<close>: the runs \<open>xs\<close> are nonempty and cover \<open>[a, b)\<close> without gap or overlap.\<close>

fun contig :: "int \<Rightarrow> runlist \<Rightarrow> int \<Rightarrow> bool" where
  "contig a [] b \<longleftrightarrow> a = b"
| "contig a (e # es) b \<longleftrightarrow> rl_vcn e = a \<and> 0 < rl_length e \<and> contig (a + rl_length e) es b"

text \<open>A runlist that starts at \<open>a\<close>: contiguous runs, each mapped, a hole or not mapped, up to a
  terminator.\<close>

fun rl_ok :: "int \<Rightarrow> runlist \<Rightarrow> bool" where
  "rl_ok a [] \<longleftrightarrow> False"
| "rl_ok a (e # es) \<longleftrightarrow> rl_vcn e = a \<and>
     (if rl_length e = 0 then rl_lcn e < 0
      else 0 < rl_length e \<and> LCN_RL_NOT_MAPPED \<le> rl_lcn e \<and> rl_ok (a + rl_length e) es)"

text \<open>The first element of length 0.\<close>

fun rl_term :: "runlist \<Rightarrow> runlist_element" where
  "rl_term [] = rle 0 LCN_ENOENT 0"
| "rl_term (e # es) = (if rl_length e = 0 then e else rl_term es)"

definition rl_runs :: "runlist \<Rightarrow> runlist" where
  "rl_runs rl = takeWhile (\<lambda>e. rl_length e \<noteq> 0) rl"

section \<open>The operations on one runlist\<close>

text \<open>
  \<open>ntfs_rl_vcn_to_lcn\<close>: the loop, then the checks before it. The result is \<open>None\<close> when the scan
  runs off an array without terminator.
\<close>

fun vcn_scan :: "runlist \<Rightarrow> int \<Rightarrow> int option" where
  "vcn_scan [] v = None"
| "vcn_scan (e # es) v =
     (if rl_length e = 0 then Some (if rl_lcn e < 0 then rl_lcn e else LCN_ENOENT)
      else
       (case es of
          [] \<Rightarrow> None
        | f # _ \<Rightarrow>
           (if v < rl_vcn f
            then Some (if 0 \<le> rl_lcn e then rl_lcn e + (v - rl_vcn e) else rl_lcn e)
            else vcn_scan es v)))"

definition ntfs_rl_vcn_to_lcn :: "runlist option \<Rightarrow> int \<Rightarrow> int option" where
  "ntfs_rl_vcn_to_lcn p v =
     (if v < 0 then Some LCN_EINVAL
      else
       (case p of
          None \<Rightarrow> Some LCN_RL_NOT_MAPPED
        | Some [] \<Rightarrow> None
        | Some (e # es) \<Rightarrow> if v < rl_vcn e then Some LCN_ENOENT else vcn_scan (e # es) v))"

text \<open>\<open>ntfs_rl_truncate\<close>: find the run that holds \<open>start_vcn\<close>, shorten it and terminate the list
  behind it.\<close>

fun truncate_at :: "runlist \<Rightarrow> int \<Rightarrow> errno + runlist" where
  "truncate_at [] start_vcn = Inl FAULT"
| "truncate_at (e # es) start_vcn =
     (if rl_length e = 0 then Inl EIO
      else
       (case es of
          [] \<Rightarrow> Inl FAULT
        | f # fs \<Rightarrow>
           (if start_vcn < rl_vcn f then
             (let n = start_vcn - rl_vcn e
              in if n \<noteq> 0
                 then Inr (e\<lparr>rl_length := n\<rparr>
                       # f\<lparr>rl_vcn := start_vcn, rl_length := 0, rl_lcn := LCN_ENOENT\<rparr> # fs)
                 else Inr (e\<lparr>rl_length := 0, rl_lcn := LCN_ENOENT\<rparr> # es))
            else
             (case truncate_at es start_vcn of
                Inl err \<Rightarrow> Inl err
              | Inr es' \<Rightarrow> Inr (e # es')))))"

definition ntfs_rl_truncate :: "runlist option \<Rightarrow> int \<Rightarrow> errno + runlist" where
  "ntfs_rl_truncate arl start_vcn =
     (case arl of
        None \<Rightarrow> Inl EINVAL
      | Some [] \<Rightarrow> Inl FAULT
      | Some (e # es) \<Rightarrow>
         (if start_vcn < rl_vcn e then Inl EINVAL else truncate_at (e # es) start_vcn))"

text \<open>\<open>ntfs_rl_sparse\<close>: 1 if there is a hole, 0 if not.\<close>

fun sparse_scan :: "runlist \<Rightarrow> errno + bool" where
  "sparse_scan [] = Inl FAULT"
| "sparse_scan (e # es) =
     (if rl_length e = 0 then Inr False
      else if rl_lcn e < 0 then (if rl_lcn e \<noteq> LCN_HOLE then Inl EINVAL else Inr True)
      else sparse_scan es)"

definition ntfs_rl_sparse :: "runlist option \<Rightarrow> errno + bool" where
  "ntfs_rl_sparse p = (case p of None \<Rightarrow> Inl EINVAL | Some rl \<Rightarrow> sparse_scan rl)"

text \<open>\<open>ntfs_rl_get_compressed_size\<close>: the clusters of the runs that are not holes, in bytes.\<close>

fun compressed_scan :: "runlist \<Rightarrow> int \<Rightarrow> errno + int" where
  "compressed_scan [] acc = Inl FAULT"
| "compressed_scan (e # es) acc =
     (if rl_length e = 0 then Inr acc
      else if rl_lcn e < 0
      then (if rl_lcn e \<noteq> LCN_HOLE then Inl EINVAL else compressed_scan es acc)
      else compressed_scan es (acc + rl_length e))"

definition ntfs_rl_get_compressed_size :: "nat \<Rightarrow> runlist option \<Rightarrow> errno + int" where
  "ntfs_rl_get_compressed_size cluster_size_bits p =
     (case p of
        None \<Rightarrow> Inl EINVAL
      | Some rl \<Rightarrow>
         (case compressed_scan rl 0 of
            Inl err \<Rightarrow> Inl err
          | Inr n \<Rightarrow> Inr (n * 2 ^ cluster_size_bits)))"

section \<open>Facts about contiguous runs\<close>

lemma contig_append: "contig a (xs @ ys) c \<longleftrightarrow> (\<exists>b. contig a xs b \<and> contig b ys c)"
  by (induction xs arbitrary: a) auto

lemma contig_le: "contig a xs b \<Longrightarrow> a \<le> b"
  by (induction xs arbitrary: a) force+

lemma contig_det: "contig a xs b \<Longrightarrow> contig a xs c \<Longrightarrow> b = c"
  by (induction xs arbitrary: a) auto

lemma rl_map_None_out: "contig a xs b \<Longrightarrow> v < a \<or> b \<le> v \<Longrightarrow> rl_map xs v = None"
proof (induction xs arbitrary: a)
  case (Cons e es)
  then have "a + rl_length e \<le> b" using contig_le by auto
  with Cons show ?case by (auto simp: in_run_def)
qed simp

lemma rl_map_Some_in: "contig a xs b \<Longrightarrow> a \<le> v \<Longrightarrow> v < b \<Longrightarrow> rl_map xs v \<noteq> None"
  by (induction xs arbitrary: a) (auto simp: in_run_def)

lemma rl_map_append:
  "contig a xs b \<Longrightarrow> rl_map (xs @ ys) v = (if a \<le> v \<and> v < b then rl_map xs v else rl_map ys v)"
proof (induction xs arbitrary: a)
  case (Cons e es)
  then have "a + rl_length e \<le> b" using contig_le by auto
  with Cons show ?case by (auto simp: in_run_def)
qed auto

lemma rl_okI:
  assumes "contig a xs (rl_vcn t)" "rl_length t = 0" "rl_lcn t < 0"
    "\<forall>e\<in>set xs. LCN_RL_NOT_MAPPED \<le> rl_lcn e"
  shows "rl_ok a (xs @ t # js)"
  using assms by (induction xs arbitrary: a) auto

lemma rl_okE:
  assumes "rl_ok a rl"
  obtains xs t js where "rl = xs @ t # js" "contig a xs (rl_vcn t)" "rl_length t = 0"
    "rl_lcn t < 0" "\<forall>e\<in>set xs. LCN_RL_NOT_MAPPED \<le> rl_lcn e"
  using assms
proof (induction rl arbitrary: a thesis)
  case (Cons e es)
  show ?case
  proof (cases "rl_length e = 0")
    case True
    with Cons.prems show ?thesis by (intro Cons.prems(1) [of "[]" e es]) auto
  next
    case False
    show ?thesis
    proof (rule Cons.IH [of "a + rl_length e"])
      show "rl_ok (a + rl_length e) es"
        using False Cons.prems(2) by simp
      fix xs t js
      assume *: "es = xs @ t # js" "contig (a + rl_length e) xs (rl_vcn t)" "rl_length t = 0"
        "rl_lcn t < 0" "\<forall>e\<in>set xs. LCN_RL_NOT_MAPPED \<le> rl_lcn e"
      show ?thesis
        using False Cons.prems(2) * by (intro Cons.prems(1) [of "e # xs" t js]) auto
    qed
  qed
qed simp

lemma rl_term_append: "contig a xs b \<Longrightarrow> rl_length t = 0 \<Longrightarrow> rl_term (xs @ t # js) = t"
  by (induction xs arbitrary: a) auto

lemma rl_runs_append: "contig a xs b \<Longrightarrow> rl_length t = 0 \<Longrightarrow> rl_runs (xs @ t # js) = xs"
  unfolding rl_runs_def by (induction xs arbitrary: a) auto

lemma rl_map_runs: "contig a xs b \<Longrightarrow> rl_length t = 0 \<Longrightarrow> rl_map (xs @ t # js) v = rl_map xs v"
  by (induction xs arbitrary: a) auto

section \<open>Lookup\<close>

lemma rl_map_out: "rl_ok a rl \<Longrightarrow> v < a \<or> rl_vcn (rl_term rl) \<le> v \<Longrightarrow> rl_map rl v = None"
  by (elim rl_okE) (auto simp: rl_map_runs rl_term_append rl_map_None_out)

lemma rl_map_in: "rl_ok a rl \<Longrightarrow> a \<le> v \<Longrightarrow> v < rl_vcn (rl_term rl) \<Longrightarrow> rl_map rl v \<noteq> None"
  by (elim rl_okE) (simp add: rl_map_runs rl_term_append rl_map_Some_in)

text \<open>In a good runlist the start of the next element is the end of the run.\<close>

lemma rl_ok_next: "rl_ok a (f # fs) \<Longrightarrow> rl_vcn f = a"
  by simp

lemma vcn_scan_correct:
  "rl_ok a rl \<Longrightarrow> a \<le> v \<Longrightarrow>
   vcn_scan rl v = Some (case rl_map rl v of Some l \<Rightarrow> l | None \<Rightarrow> rl_lcn (rl_term rl))"
proof (induction rl arbitrary: a)
  case (Cons e es)
  show ?case
  proof (cases "rl_length e = 0")
    case False
    with Cons.prems obtain f fs where es: "es = f # fs" "rl_ok (a + rl_length e) es"
      by (cases es) auto
    with Cons.prems False have *: "rl_vcn e = a" "rl_vcn f = a + rl_length e"
      using rl_ok_next [of "a + rl_length e" f fs] by auto
    show ?thesis
    proof (cases "v < a + rl_length e")
      case True
      then show ?thesis
        using False Cons.prems(2) * es by (auto simp: in_run_def run_lcn_def)
    next
      case out: False
      then have "vcn_scan (e # es) v = vcn_scan es v" "rl_map (e # es) v = rl_map es v"
        using False Cons.prems(2) * es by (auto simp: in_run_def)
      then show ?thesis
        using Cons.IH [OF es(2)] out False by (auto split: option.split)
    qed
  qed (use Cons.prems in auto)
qed simp

text \<open>
  C30. Lookup is correct: on every good runlist the C scan returns the logical cluster of the run
  that holds the virtual cluster, the terminator's value behind the last run, and \<open>LCN_ENOENT\<close>
  before the first one.
\<close>

theorem vcn_to_lcn_correct:
  assumes "rl_ok a rl" "0 \<le> v"
  shows "ntfs_rl_vcn_to_lcn (Some rl) v =
    Some (if v < a then LCN_ENOENT
          else case rl_map rl v of Some l \<Rightarrow> l | None \<Rightarrow> rl_lcn (rl_term rl))"
proof -
  obtain e es where rl: "rl = e # es" "rl_vcn e = a"
    using assms(1) by (cases rl) auto
  show ?thesis
    using assms vcn_scan_correct [OF assms(1), of v] by (auto simp: ntfs_rl_vcn_to_lcn_def rl)
qed

definition demo_rl :: runlist where
  "demo_rl = [rle 0 100 4, rle 4 LCN_HOLE 6, rle 10 50 2, rle 12 LCN_ENOENT 0]"

lemma demo_rl_ok: "rl_ok 0 demo_rl"
  by (simp add: demo_rl_def lcn_defs)

theorem vcn_to_lcn_correct_witness:
  "ntfs_rl_vcn_to_lcn (Some demo_rl) 11 = Some 51 \<and> ntfs_rl_vcn_to_lcn (Some demo_rl) 12 = Some (-3)"
  using vcn_to_lcn_correct [OF demo_rl_ok, of 11] vcn_to_lcn_correct [OF demo_rl_ok, of 12]
  by (simp add: demo_rl_def in_run_def run_lcn_def lcn_defs)

section \<open>Truncation\<close>

lemma truncate_at_correct:
  assumes "rl_ok a rl" "a \<le> s" "s < rl_vcn (rl_term rl)"
  shows "\<exists>rl'. truncate_at rl s = Inr rl' \<and> rl_ok a rl' \<and> rl_term rl' = rle s LCN_ENOENT 0
    \<and> (\<forall>v. rl_map rl' v = (if v < s then rl_map rl v else None))"
  using assms
proof (induction rl arbitrary: a)
  case (Cons e es)
  have e: "rl_length e \<noteq> 0" "rl_vcn e = a" "0 < rl_length e" "LCN_RL_NOT_MAPPED \<le> rl_lcn e"
    using Cons.prems by (auto split: if_splits)
  have ok: "rl_ok (a + rl_length e) es"
    using Cons.prems(1) e by simp
  then obtain f fs where es: "es = f # fs" "rl_vcn f = a + rl_length e"
    by (cases es) auto
  show ?case
  proof (cases "s < rl_vcn f")
    case True
    have low: "rl_map es v = None" if "v < s" for v
      using rl_map_out [OF ok] that True es(2) by simp
    show ?thesis
    proof (cases "s = a")
      case True
      then have "truncate_at (e # es) s = Inr (e\<lparr>rl_length := 0, rl_lcn := LCN_ENOENT\<rparr> # es)"
        using e es by simp
      then show ?thesis
        using True e low by (auto simp: lcn_defs in_run_def)
    next
      case False
      then have "truncate_at (e # es) s = Inr (e\<lparr>rl_length := s - a\<rparr>
          # f\<lparr>rl_vcn := s, rl_length := 0, rl_lcn := LCN_ENOENT\<rparr> # fs)"
        using e es True by simp
      then show ?thesis
        using False True Cons.prems(2) e es low
        by (auto simp: lcn_defs in_run_def run_lcn_def)
    qed
  next
    case False
    have "rl_vcn (rl_term es) > s"
      using Cons.prems(3) e by simp
    then obtain es' where es': "truncate_at es s = Inr es'" "rl_ok (a + rl_length e) es'"
        "rl_term es' = rle s LCN_ENOENT 0"
        "\<And>v. rl_map es' v = (if v < s then rl_map es v else None)"
      using Cons.IH [OF ok] False es(2) by auto
    have "truncate_at (e # es) s = Inr (e # es')"
      using e es es'(1) False by simp
    then show ?thesis
      using e es' False es(2) by (auto simp: in_run_def)
  qed
qed simp

text \<open>
  C31. Truncation is correct: for every cluster inside the runlist the result is a good runlist that
  ends with \<open>LCN_ENOENT\<close> at \<open>start_vcn\<close> and maps exactly the clusters below it, as before.
\<close>

theorem truncate_correct:
  assumes "rl_ok a rl" "a \<le> start_vcn" "start_vcn < rl_vcn (rl_term rl)"
  shows "\<exists>rl'. ntfs_rl_truncate (Some rl) start_vcn = Inr rl' \<and> rl_ok a rl'
    \<and> rl_term rl' = rle start_vcn LCN_ENOENT 0
    \<and> (\<forall>v. rl_map rl' v = (if v < start_vcn then rl_map rl v else None))"
proof -
  obtain e es where rl: "rl = e # es" "rl_vcn e = a"
    using assms(1) by (cases rl) auto
  then have "ntfs_rl_truncate (Some rl) start_vcn = truncate_at rl start_vcn"
    using assms(2) by (simp add: ntfs_rl_truncate_def)
  then show ?thesis
    using truncate_at_correct [OF assms] by simp
qed

theorem truncate_correct_witness:
  "\<exists>rl'. ntfs_rl_truncate (Some demo_rl) 7 = Inr rl' \<and> rl_ok 0 rl' \<and> rl_map rl' 6 = Some LCN_HOLE
    \<and> rl_map rl' 7 = None"
  using truncate_correct [OF demo_rl_ok, of 7]
  by (auto simp: demo_rl_def lcn_defs in_run_def run_lcn_def)

section \<open>Compressed size\<close>

definition mapped_vcns :: "runlist \<Rightarrow> int set" where
  "mapped_vcns rl = {v. \<exists>l. rl_map rl v = Some l \<and> 0 \<le> l}"

lemma mapped_vcns_bounds: "rl_ok a rl \<Longrightarrow> mapped_vcns rl \<subseteq> {a..<rl_vcn (rl_term rl)}"
  by (rule subsetI, rule ccontr) (auto simp: mapped_vcns_def rl_map_out)

lemma compressed_scan_correct:
  assumes "rl_ok a rl" "\<forall>e\<in>set (rl_runs rl). rl_lcn e \<noteq> LCN_RL_NOT_MAPPED"
  shows "compressed_scan rl acc = Inr (acc + int (card (mapped_vcns rl)))"
  using assms
proof (induction rl arbitrary: a acc)
  case (Cons e es)
  show ?case
  proof (cases "rl_length e = 0")
    case True
    then show ?thesis by (simp add: mapped_vcns_def)
  next
    case False
    have ok: "rl_ok (a + rl_length e) es" and e: "rl_vcn e = a" "0 < rl_length e"
      using Cons.prems(1) False by auto
    have hole: "rl_lcn e < 0 \<Longrightarrow> rl_lcn e = LCN_HOLE"
      using Cons.prems False by (auto simp: lcn_defs rl_runs_def)
    let ?A = "if 0 \<le> rl_lcn e then {a..<a + rl_length e} else {}"
    have sub: "mapped_vcns es \<subseteq> {a + rl_length e..<rl_vcn (rl_term es)}"
      by (rule mapped_vcns_bounds [OF ok])
    then have fin: "finite (mapped_vcns es)"
      by (rule finite_subset) simp
    have "mapped_vcns (e # es) = ?A \<union> mapped_vcns es"
      using sub e False by (auto simp: mapped_vcns_def in_run_def run_lcn_def split: if_splits)
    moreover have "?A \<inter> mapped_vcns es = {}"
      using sub by auto
    ultimately have card: "card (mapped_vcns (e # es)) = card ?A + card (mapped_vcns es)"
      using card_Un_disjoint [of ?A "mapped_vcns es"] fin by simp
    have "\<forall>e\<in>set (rl_runs es). rl_lcn e \<noteq> LCN_RL_NOT_MAPPED"
      using Cons.prems(2) False by (simp add: rl_runs_def)
    then show ?thesis
      using Cons.IH [OF ok] False hole e card by auto
  qed
qed simp

text \<open>
  The compressed size of a fully mapped runlist is the number of virtual clusters that have a
  logical cluster, in bytes.
\<close>

lemma compressed_size_counts_clusters:
  assumes "rl_ok a rl" "\<forall>e\<in>set (rl_runs rl). rl_lcn e \<noteq> LCN_RL_NOT_MAPPED"
  shows "ntfs_rl_get_compressed_size bits (Some rl) = Inr (int (card (mapped_vcns rl)) * 2 ^ bits)"
  using compressed_scan_correct [OF assms, of 0] by (simp add: ntfs_rl_get_compressed_size_def)

end
