(* ===== verification/RunlistIo.thy ===== *)
theory RunlistIo
  imports DeviceIo Runlist
begin

text \<open>
  Scatter reads and writes, \<open>ntfs_rl_pread\<close> and \<open>ntfs_rl_pwrite\<close> of \<open>libntfs_ext/source/runlist.c\<close>: the bytes of a
  file, transferred run by run through the device functions of \<open>DeviceIo\<close>, and what they mean for the file.
\<close>

section \<open>The transfers\<close>

text \<open>An interrupted transfer is tried again, \<open>tries\<close> times at most.\<close>

primrec pread_retry :: "nat \<Rightarrow> ('p ntfs_device \<Rightarrow> bytes \<Rightarrow> int \<Rightarrow> int \<Rightarrow> ((errno + int) \<times> bytes \<times> 'p ntfs_device) option)
    \<Rightarrow> 'p ntfs_device \<Rightarrow> int \<Rightarrow> int \<Rightarrow> bytes \<Rightarrow> ((errno + int) \<times> bytes \<times> 'p ntfs_device) option" where
  "pread_retry 0 pread v pos n b = None"
| "pread_retry (Suc k) pread v pos n b = (case ntfs_pread pread v pos n b of None \<Rightarrow> None
     | Some (r, b', v') \<Rightarrow> if r = Inl EINTR then pread_retry k pread v' pos n b' else Some (r, b', v'))"

primrec pwrite_retry :: "nat \<Rightarrow> ('p ntfs_device \<Rightarrow> bytes \<Rightarrow> int \<Rightarrow> int \<Rightarrow> ((errno + int) \<times> 'p ntfs_device) option)
    \<Rightarrow> ('p ntfs_device \<Rightarrow> ((errno + int) \<times> 'p ntfs_device) option) \<Rightarrow> 'p ntfs_device \<Rightarrow> int \<Rightarrow> int \<Rightarrow> bytes
    \<Rightarrow> ((errno + int) \<times> 'p ntfs_device) option" where
  "pwrite_retry 0 pwrite dsync v pos n b = None"
| "pwrite_retry (Suc k) pwrite dsync v pos n b = (case ntfs_pwrite pwrite dsync v pos n b of None \<Rightarrow> None
     | Some (r, v') \<Rightarrow> if r = Inl EINTR then pwrite_retry k pwrite dsync v' pos n b else Some (r, v'))"

text \<open>The result at \<open>rl_err_out\<close>: what was transferred before the error, or the error.\<close>

definition rl_err_out :: "errno \<Rightarrow> int \<Rightarrow> errno + int" where
  "rl_err_out err tot = (if tot \<noteq> 0 then Inr tot else Inl err)"

text \<open>The run that holds \<open>pos\<close>, and where it starts; \<open>None\<close> when the array has no terminator.\<close>

fun rl_seek :: "nat \<Rightarrow> runlist \<Rightarrow> int \<Rightarrow> int \<Rightarrow> (runlist \<times> int) option" where
  "rl_seek bits [] ofs pos = None"
| "rl_seek bits (e # es) ofs pos =
     (if rl_length e \<noteq> 0 \<and> s64 (ofs + shl64 (rl_length e) bits) \<le> pos then rl_seek bits es (s64 (ofs + shl64 (rl_length e) bits)) pos
      else Some (e # es, ofs))"

fun rl_read_loop :: "nat \<Rightarrow> nat \<Rightarrow> ('p ntfs_device \<Rightarrow> bytes \<Rightarrow> int \<Rightarrow> int \<Rightarrow> ((errno + int) \<times> bytes \<times> 'p ntfs_device) option)
    \<Rightarrow> runlist \<Rightarrow> int \<Rightarrow> int \<Rightarrow> int \<Rightarrow> bytes \<Rightarrow> 'p ntfs_device \<Rightarrow> ((errno + int) \<times> bytes \<times> 'p ntfs_device) option" where
  "rl_read_loop tries bits pread [] ofs tot count b v = (if count = 0 then Some (Inr tot, b, v) else None)"
| "rl_read_loop tries bits pread (e # es) ofs tot count b v =
     (if count = 0 then Some (Inr tot, b, v)
      else if rl_length e = 0 then Some (rl_err_out EIO tot, b, v)
      else (let to_read = min count (s64 (shl64 (rl_length e) bits - ofs))
        in if rl_lcn e < 0 then
             (if rl_lcn e \<noteq> LCN_HOLE then Some (rl_err_out EIO tot, b, v)
              else if to_read < 0 then None
              else (case mem_put b (nat tot) (replicate (nat to_read) 0) of None \<Rightarrow> None
                | Some b' \<Rightarrow> rl_read_loop tries bits pread es 0 (tot + to_read) (count - to_read) b' v))
           else (case mem_get b (nat tot) (nat to_read) of None \<Rightarrow> None
             | Some part \<Rightarrow>
                 (case pread_retry tries pread v (s64 (shl64 (rl_lcn e) bits + ofs)) to_read part of None \<Rightarrow> None
                  | Some (Inl err, part', v') \<Rightarrow> Some (rl_err_out err tot, blit b (nat tot) part', v')
                  | Some (Inr bytes_read, part', v') \<Rightarrow>
                      if bytes_read > 0
                      then rl_read_loop tries bits pread es 0 (tot + bytes_read) (count - bytes_read) (blit b (nat tot) part') v'
                      else Some (rl_err_out EIO tot, blit b (nat tot) part', v')))))"

definition ntfs_rl_pread :: "nat \<Rightarrow> ('p ntfs_device \<Rightarrow> bytes \<Rightarrow> int \<Rightarrow> int \<Rightarrow> ((errno + int) \<times> bytes \<times> 'p ntfs_device) option)
    \<Rightarrow> ntfs_volume option \<Rightarrow> 'p ntfs_device \<Rightarrow> runlist option \<Rightarrow> int \<Rightarrow> int \<Rightarrow> bytes
    \<Rightarrow> ((errno + int) \<times> bytes \<times> 'p ntfs_device) option" where
  "ntfs_rl_pread tries pread vol v rl pos count b =
     (case (vol, rl) of (Some vl, Some rs) \<Rightarrow>
        if pos < 0 \<or> count < 0 then Some (Inl EINVAL, b, v)
        else if count = 0 then Some (Inr count, b, v)
        else (case rl_seek (cluster_size_bits vl) rs 0 pos of None \<Rightarrow> None
          | Some (rs', ofs) \<Rightarrow> rl_read_loop tries (cluster_size_bits vl) pread rs' (pos - ofs) 0 count b v)
      | _ \<Rightarrow> Some (Inl EINVAL, b, v))"

fun rl_write_loop :: "nat \<Rightarrow> nat \<Rightarrow> ('p ntfs_device \<Rightarrow> bytes \<Rightarrow> int \<Rightarrow> int \<Rightarrow> ((errno + int) \<times> 'p ntfs_device) option)
    \<Rightarrow> ('p ntfs_device \<Rightarrow> ((errno + int) \<times> 'p ntfs_device) option) \<Rightarrow> bool
    \<Rightarrow> runlist \<Rightarrow> int \<Rightarrow> int \<Rightarrow> int \<Rightarrow> bytes \<Rightarrow> 'p ntfs_device \<Rightarrow> ((errno + int) \<times> 'p ntfs_device) option" where
  "rl_write_loop tries bits pwrite dsync ro [] ofs tot count b v = (if count = 0 then Some (Inr tot, v) else None)"
| "rl_write_loop tries bits pwrite dsync ro (e # es) ofs tot count b v =
     (if count = 0 then Some (Inr tot, v)
      else if rl_length e = 0 then Some (rl_err_out EIO tot, v)
      else (let to_write = min count (s64 (shl64 (rl_length e) bits - ofs))
        in if rl_lcn e < 0 then
             (if rl_lcn e \<noteq> LCN_HOLE then Some (rl_err_out EIO tot, v)
              else rl_write_loop tries bits pwrite dsync ro es 0 (tot + to_write) (count - to_write) b v)
           else (case mem_get b (nat tot) (nat to_write) of None \<Rightarrow> None
             | Some part \<Rightarrow>
                 (case (if \<not> ro then pwrite_retry tries pwrite dsync v (s64 (shl64 (rl_lcn e) bits + ofs)) to_write part
                        else Some (Inr to_write, v)) of None \<Rightarrow> None
                  | Some (Inl err, v') \<Rightarrow> Some (rl_err_out err tot, v')
                  | Some (Inr written, v') \<Rightarrow>
                      if written > 0 then rl_write_loop tries bits pwrite dsync ro es 0 (tot + written) (count - written) b v'
                      else Some (rl_err_out EIO tot, v')))))"

definition ntfs_rl_pwrite :: "nat \<Rightarrow> ('p ntfs_device \<Rightarrow> bytes \<Rightarrow> int \<Rightarrow> int \<Rightarrow> ((errno + int) \<times> 'p ntfs_device) option)
    \<Rightarrow> ('p ntfs_device \<Rightarrow> ((errno + int) \<times> 'p ntfs_device) option) \<Rightarrow> bool
    \<Rightarrow> ntfs_volume option \<Rightarrow> 'p ntfs_device \<Rightarrow> runlist option \<Rightarrow> int \<Rightarrow> int \<Rightarrow> int \<Rightarrow> bytes
    \<Rightarrow> ((errno + int) \<times> 'p ntfs_device) option" where
  "ntfs_rl_pwrite tries pwrite dsync ro vol v rl ofs pos count b =
     (case (vol, rl) of (Some vl, Some rs) \<Rightarrow>
        if pos < 0 \<or> count < 0 then Some (Inl EINVAL, v)
        else if count = 0 then Some (Inr 0, v)
        else (case rl_seek (cluster_size_bits vl) rs ofs pos of None \<Rightarrow> None
          | Some (rs', ofs') \<Rightarrow> rl_write_loop tries (cluster_size_bits vl) pwrite dsync ro rs' (pos - ofs') 0 count b v)
      | _ \<Rightarrow> Some (Inl EINVAL, v))"

section \<open>The bytes of a file\<close>

text \<open>Where on the device byte \<open>q\<close> of a file lies, and its value: the bytes of holes are zero.\<close>

definition phys :: "nat \<Rightarrow> runlist \<Rightarrow> nat \<Rightarrow> nat option" where
  "phys bits rl q = (case rl_map rl (int (q div 2 ^ bits)) of None \<Rightarrow> None
     | Some l \<Rightarrow> if 0 \<le> l then Some (nat l * 2 ^ bits + q mod 2 ^ bits) else None)"

definition file_byte :: "(nat \<Rightarrow> u8) \<Rightarrow> nat \<Rightarrow> runlist \<Rightarrow> nat \<Rightarrow> u8" where
  "file_byte f bits rl q = (case phys bits rl q of None \<Rightarrow> 0 | Some x \<Rightarrow> f x)"

definition file_bytes :: "(nat \<Rightarrow> u8) \<Rightarrow> nat \<Rightarrow> runlist \<Rightarrow> nat \<Rightarrow> nat \<Rightarrow> bytes" where
  "file_bytes f bits rl pos n = map (file_byte f bits rl) [pos..<pos + n]"

text \<open>Every cluster of a range is a hole or lies on a device of \<open>z\<close> bytes.\<close>

definition on_device :: "nat \<Rightarrow> nat \<Rightarrow> runlist \<Rightarrow> nat \<Rightarrow> nat \<Rightarrow> bool" where
  "on_device z bits rl pos n \<longleftrightarrow> (\<forall>q. pos \<le> q \<longrightarrow> q < pos + n \<longrightarrow>
     (\<exists>l. rl_map rl (int (q div 2 ^ bits)) = Some l \<and> (l = LCN_HOLE \<or> 0 \<le> l \<and> (nat l + 1) * 2 ^ bits \<le> z)))"

text \<open>No two bytes of a range share a place on the device.\<close>

definition alias_free :: "nat \<Rightarrow> runlist \<Rightarrow> nat \<Rightarrow> nat \<Rightarrow> bool" where
  "alias_free bits rl pos n \<longleftrightarrow> (\<forall>q q' x. pos \<le> q \<longrightarrow> q < pos + n \<longrightarrow> pos \<le> q' \<longrightarrow> q' < pos + n \<longrightarrow>
     phys bits rl q = Some x \<longrightarrow> phys bits rl q' = Some x \<longrightarrow> q = q')"

lemma length_file_bytes [simp]: "length (file_bytes f bits rl pos n) = n"
  by (simp add: file_bytes_def)

lemma file_bytes_append: "file_bytes f bits rl pos m @ file_bytes f bits rl (pos + m) n = file_bytes f bits rl pos (m + n)"
  using upt_add_eq_append [of pos "pos + m" n] by (simp add: file_bytes_def add.assoc)

lemma file_bytes_cong: "(\<And>q. pos \<le> q \<Longrightarrow> q < pos + n \<Longrightarrow> file_byte f bits rl q = file_byte g bits rl' q) \<Longrightarrow>
    file_bytes f bits rl pos n = file_bytes g bits rl' pos n"
  by (simp add: file_bytes_def)

lemma div_mod_shift:
  fixes c :: nat
  assumes "a * c \<le> q"
  shows "(q div c - a) * c + q mod c = q - a * c"
proof -
  obtain r where q: "q = a * c + r" using assms le_Suc_ex by blast
  show ?thesis by (cases "c = 0") (simp_all add: q)
qed

lemma run_hit:
  fixes a len c :: nat
  assumes "rl_vcn e = int a" "rl_length e = int len" "a * c \<le> q" "q < (a + len) * c"
  shows "a \<le> q div c" "rl_map (e # es) (int (q div c)) = Some (run_lcn e (int (q div c)))" "0 < len"
proof -
  have c: "0 < c" using assms(4) by (cases "c = 0") auto
  show a: "a \<le> q div c" using assms(3) c by (simp add: less_eq_div_iff_mult_less_eq)
  have b: "q div c < a + len" using assms(4) c by (simp add: div_less_iff_less_mult)
  show l: "0 < len" using a b by simp
  show "rl_map (e # es) (int (q div c)) = Some (run_lcn e (int (q div c)))"
    using assms(1,2) a b l by (simp add: in_run_def)
qed

lemma phys_run:
  assumes "rl_vcn e = int a" "rl_length e = int len" "a * 2 ^ bits \<le> q" "q < (a + len) * 2 ^ bits"
  shows "phys bits (e # es) q = (if 0 \<le> rl_lcn e then Some (nat (rl_lcn e) * 2 ^ bits + (q - a * 2 ^ bits)) else None)"
proof -
  note h = run_hit [OF assms]
  show ?thesis
  proof (cases "0 \<le> rl_lcn e")
    case False
    then show ?thesis using h(2) by (simp add: phys_def run_lcn_def)
  next
    case True
    have k: "run_lcn e (int (q div 2 ^ bits)) = int (nat (rl_lcn e) + (q div 2 ^ bits - a))"
      using True h(1) assms(1) by (simp add: run_lcn_def of_nat_diff)
    have "(nat (rl_lcn e) + (q div 2 ^ bits - a)) * 2 ^ bits + q mod 2 ^ bits = nat (rl_lcn e) * 2 ^ bits + (q - a * 2 ^ bits)"
      using div_mod_shift [OF assms(3)] by (simp only: add_mult_distrib add.assoc)
    then show ?thesis
      using True by (simp only: phys_def h(2) option.case k nat_int of_nat_0_le_iff if_True)
  qed
qed

lemma phys_skip:
  assumes "rl_vcn e = int a" "rl_length e = int len" "0 < len" "(a + len) * 2 ^ bits \<le> q"
  shows "rl_map (e # es) (int (q div 2 ^ bits)) = rl_map es (int (q div 2 ^ bits))" "phys bits (e # es) q = phys bits es q"
proof -
  have "a + len \<le> q div 2 ^ bits" using assms(4) by (simp add: less_eq_div_iff_mult_less_eq)
  then show m: "rl_map (e # es) (int (q div 2 ^ bits)) = rl_map es (int (q div 2 ^ bits))"
    using assms(1-3) by (simp add: in_run_def)
  show "phys bits (e # es) q = phys bits es q" by (simp only: phys_def m)
qed

lemma in_s64_nat: "x < 2 ^ 63 \<Longrightarrow> in_s64 (int x)"
  by (simp add: in_s64_def)

lemma below_2_63: "int x < 2 ^ 63 \<Longrightarrow> x < 2 ^ 63"
  by simp

text \<open>A run behind the beginning of a good runlist.\<close>

lemma rl_ok_Cons_nat:
  assumes "rl_ok (int a) (e # es)" "rl_length e \<noteq> 0"
  shows "rl_vcn e = int a" "rl_length e = int (nat (rl_length e))" "0 < nat (rl_length e)" "LCN_RL_NOT_MAPPED \<le> rl_lcn e"
    "rl_ok (int (a + nat (rl_length e))) es" "rl_vcn (rl_term (e # es)) = rl_vcn (rl_term es)"
    "int (a + nat (rl_length e)) \<le> rl_vcn (rl_term es)"
proof -
  show 1: "rl_vcn e = int a" "rl_length e = int (nat (rl_length e))" "0 < nat (rl_length e)" "LCN_RL_NOT_MAPPED \<le> rl_lcn e"
    "rl_ok (int (a + nat (rl_length e))) es" "rl_vcn (rl_term (e # es)) = rl_vcn (rl_term es)"
    using assms by auto
  have "a' \<le> rl_vcn (rl_term rs)" if "rl_ok a' rs" for a' rs
    using that by (induction rs arbitrary: a') (fastforce split: if_splits)+
  then show "int (a + nat (rl_length e)) \<le> rl_vcn (rl_term es)" using 1(5) by blast
qed

text \<open>What a run contributes to a transfer of \<open>n\<close> bytes that begins \<open>ofs\<close> bytes into it.\<close>

lemma run_share:
  assumes ok: "rl_ok (int a) (e # es)" and n: "0 < n" and ofs: "ofs < nat (rl_length e) * 2 ^ bits"
    and dev: "on_device z bits (e # es) (a * 2 ^ bits + ofs) n" and z: "z < 2 ^ 63"
    and small: "rl_vcn (rl_term (e # es)) * 2 ^ bits < 2 ^ 63"
  defines "m \<equiv> min n (nat (rl_length e) * 2 ^ bits - ofs)" and "a' \<equiv> a + nat (rl_length e)"
  shows "rl_length e \<noteq> 0" "min (int n) (s64 (shl64 (rl_length e) bits - int ofs)) = int m" "0 < m" "m \<le> n"
    "rl_lcn e < 0 \<Longrightarrow> rl_lcn e = LCN_HOLE"
    "0 \<le> rl_lcn e \<Longrightarrow> s64 (shl64 (rl_lcn e) bits + int ofs) = int (nat (rl_lcn e) * 2 ^ bits + ofs)"
    "0 \<le> rl_lcn e \<Longrightarrow> nat (rl_lcn e) * 2 ^ bits + ofs + m \<le> z"
    "\<And>q. a * 2 ^ bits + ofs \<le> q \<Longrightarrow> q < a * 2 ^ bits + ofs + m \<Longrightarrow> phys bits (e # es) q =
       (if 0 \<le> rl_lcn e then Some (nat (rl_lcn e) * 2 ^ bits + (q - a * 2 ^ bits)) else None)"
    "\<And>q. a' * 2 ^ bits \<le> q \<Longrightarrow> phys bits (e # es) q = phys bits es q"
    "rl_ok (int a') es" "n - m = 0 \<or> 0 < nat (rl_length (hd es)) * 2 ^ bits" "es \<noteq> []"
    "n - m = 0 \<or> a' * 2 ^ bits = a * 2 ^ bits + ofs + m" "on_device z bits es (a' * 2 ^ bits) (n - m)"
    "rl_vcn (rl_term es) * 2 ^ bits < 2 ^ 63"
proof -
  let ?c = "2 ^ bits :: nat" and ?len = "nat (rl_length e)"
  show nz: "rl_length e \<noteq> 0" using ofs by auto
  note r = rl_ok_Cons_nat [OF ok nz]
  show m: "0 < m" "m \<le> n" using n ofs by (simp_all add: m_def)
  have step: "a' * ?c = a * ?c + ?len * ?c" by (simp add: a'_def add_mult_distrib)
  have top: "int (a' * ?c) < 2 ^ 63"
  proof -
    have "int a' * 2 ^ bits \<le> rl_vcn (rl_term es) * 2 ^ bits"
      using r(7) by (intro mult_right_mono) (simp_all add: a'_def)
    from le_less_trans [OF this small [unfolded r(6)]] show ?thesis by simp
  qed
  have top': "?len * ?c < 2 ^ 63"
  proof -
    have "a' * ?c < 2 ^ 63" by (rule below_2_63 [OF top])
    then show ?thesis unfolding step by linarith
  qed
  have len: "shl64 (rl_length e) bits = int (?len * ?c)"
  proof -
    have "in_s64 (int (?len * ?c))" by (rule in_s64_nat [OF top'])
    moreover have "rl_length e * 2 ^ bits = int (?len * ?c)" using r(2) by simp
    ultimately show ?thesis by (simp add: shl64_def)
  qed
  have "in_s64 (int (?len * ?c - ofs))" by (rule in_s64_nat) (use top' in linarith)
  then have "s64 (shl64 (rl_length e) bits - int ofs) = int (?len * ?c - ofs)"
    unfolding len using ofs by (simp add: of_nat_diff)
  then show "min (int n) (s64 (shl64 (rl_length e) bits - int ofs)) = int m" by (simp add: m_def of_nat_min)
  have fit: "ofs + m \<le> ?len * ?c" using ofs by (simp add: m_def)
  have range: "a * ?c \<le> q \<and> q < (a + ?len) * ?c" if "a * ?c + ofs \<le> q" "q < a * ?c + ofs + m" for q
    using that fit by (simp add: add_mult_distrib)
  show "phys bits (e # es) q = (if 0 \<le> rl_lcn e then Some (nat (rl_lcn e) * 2 ^ bits + (q - a * 2 ^ bits)) else None)"
    if "a * 2 ^ bits + ofs \<le> q" "q < a * 2 ^ bits + ofs + m" for q
    using phys_run [OF r(1,2)] range [OF that] by simp
  define last where "last = a * ?c + ofs + (m - 1)"
  have last: "a * ?c + ofs \<le> last" "last < a * ?c + ofs + m" "last < a * ?c + ofs + n" using m by (simp_all add: last_def)
  obtain l where l: "rl_map (e # es) (int (last div ?c)) = Some l" "l = LCN_HOLE \<or> 0 \<le> l \<and> (nat l + 1) * ?c \<le> z"
    using dev last(1,3) by (auto simp: on_device_def)
  note h = run_hit [OF r(1,2)]
  have run: "l = run_lcn e (int (last div ?c))" using h(2) range [OF last(1,2)] l(1) by simp
  show hole: "rl_lcn e = LCN_HOLE" if "rl_lcn e < 0" using that run l(2) by (auto simp: run_lcn_def)
  show bound: "nat (rl_lcn e) * 2 ^ bits + ofs + m \<le> z" if "0 \<le> rl_lcn e"
  proof -
    have p: "phys bits (e # es) last = Some (nat (rl_lcn e) * ?c + (last - a * ?c))"
      using phys_run [OF r(1,2)] range [OF last(1,2)] that by simp
    have "0 \<le> l" using run that h(1) range [OF last(1,2)] r(1) by (simp add: run_lcn_def)
    then have "(nat l + 1) * ?c \<le> z" "phys bits (e # es) last = Some (nat l * ?c + last mod ?c)"
      using l by (auto simp: LCN_HOLE_def phys_def)
    then have "nat (rl_lcn e) * ?c + (last - a * ?c) < z"
    proof -
      have "nat (rl_lcn e) * ?c + (last - a * ?c) = nat l * ?c + last mod ?c"
        using p \<open>phys bits (e # es) last = Some (nat l * ?c + last mod ?c)\<close> by simp
      moreover have "last mod ?c < ?c" by simp
      moreover have "nat l * ?c + ?c \<le> z" using \<open>(nat l + 1) * ?c \<le> z\<close> by (simp only: add_mult_distrib mult_1)
      ultimately show ?thesis by (simp only: less_le_trans [OF add_strict_left_mono])
    qed
    then show ?thesis using m(1) by (simp add: last_def)
  qed
  show "s64 (shl64 (rl_lcn e) bits + int ofs) = int (nat (rl_lcn e) * 2 ^ bits + ofs)" if pos: "0 \<le> rl_lcn e"
  proof -
    have "in_s64 (int (nat (rl_lcn e) * ?c))" "in_s64 (int (nat (rl_lcn e) * ?c + ofs))"
      by (rule in_s64_nat, use bound [OF pos] z in linarith)+
    moreover have "rl_lcn e * 2 ^ bits = int (nat (rl_lcn e) * ?c)" using pos by simp
    ultimately show ?thesis by (simp add: shl64_def)
  qed
  show skip: "phys bits (e # es) q = phys bits es q" if "a' * 2 ^ bits \<le> q" for q
    using phys_skip(2) [OF r(1,2,3)] that by (simp add: a'_def)
  show ok': "rl_ok (int a') es" using r(5) by (simp add: a'_def)
  then show ne: "es \<noteq> []" by auto
  show next_pos: "n - m = 0 \<or> a' * 2 ^ bits = a * 2 ^ bits + ofs + m"
    unfolding step using ofs by (auto simp: m_def)
  show dev': "on_device z bits es (a' * 2 ^ bits) (n - m)"
    unfolding on_device_def
  proof (intro allI impI)
    fix q assume q: "a' * 2 ^ bits \<le> q" "q < a' * 2 ^ bits + (n - m)"
    then have "a * ?c + ofs \<le> q" "q < a * ?c + ofs + n" using next_pos m(2) by auto
    then have "\<exists>l. rl_map (e # es) (int (q div 2 ^ bits)) = Some l \<and> (l = LCN_HOLE \<or> 0 \<le> l \<and> (nat l + 1) * 2 ^ bits \<le> z)"
      using dev unfolding on_device_def by blast
    then show "\<exists>l. rl_map es (int (q div 2 ^ bits)) = Some l \<and> (l = LCN_HOLE \<or> 0 \<le> l \<and> (nat l + 1) * 2 ^ bits \<le> z)"
      by (simp only: phys_skip(1) [OF r(1-3) q(1) [unfolded a'_def]])
  qed
  show "n - m = 0 \<or> 0 < nat (rl_length (hd es)) * 2 ^ bits"
  proof (cases "n - m = 0")
    case False
    then have "\<exists>l. rl_map es (int (a' * 2 ^ bits div 2 ^ bits)) = Some l"
      using dev' by (auto simp: on_device_def)
    then show ?thesis using ok' by (cases es) (auto split: if_splits)
  qed simp
  show "rl_vcn (rl_term es) * 2 ^ bits < 2 ^ 63" using small r(6) by simp
qed

context byte_device
begin

lemma rl_read_loop_ok:
  "rl_ok (int a) rl \<Longrightarrow> rl \<noteq> [] \<Longrightarrow> dvalid v \<Longrightarrow> dlive v \<Longrightarrow> length b = t + n \<Longrightarrow> n < 2 ^ 31 \<Longrightarrow>
   n = 0 \<or> ofs < nat (rl_length (hd rl)) * 2 ^ bits \<Longrightarrow> on_device (dsize v) bits rl (a * 2 ^ bits + ofs) n \<Longrightarrow>
   rl_vcn (rl_term rl) * 2 ^ bits < 2 ^ 63 \<Longrightarrow> dsize v < 2 ^ 63 \<Longrightarrow>
   \<exists>v'. rl_read_loop (Suc k) bits pread rl (int ofs) (int t) (int n) b v
        = Some (Inr (int (t + n)), take t b @ file_bytes (content v) bits rl (a * 2 ^ bits + ofs) n, v')
     \<and> follows v v' \<and> content v' = content v \<and> dlive v' \<and> same_mode v v'"
proof (induction rl arbitrary: a v b t n ofs)
  case Nil
  then show ?case by simp
next
  case (Cons e es)
  show ?case
  proof (cases "n = 0")
    case True
    then show ?thesis using Cons.prems by (auto simp: file_bytes_def follows_def)
  next
    case False
    let ?c = "2 ^ bits :: nat"
    define m where "m = min n (nat (rl_length e) * ?c - ofs)"
    define a' where "a' = a + nat (rl_length e)"
    have "0 < n" "ofs < nat (rl_length e) * ?c" using False Cons.prems(7) by simp_all
    note sh = run_share [OF Cons.prems(1) this Cons.prems(8,10,9), folded m_def a'_def]
    have bytes: "file_bytes f bits (e # es) (a * ?c + ofs) m @ file_bytes f bits es (a' * ?c) (n - m)
        = file_bytes f bits (e # es) (a * ?c + ofs) n" for f
    proof -
      have "file_bytes f bits es (a' * ?c) (n - m) = file_bytes f bits (e # es) (a * ?c + ofs + m) (n - m)"
        using sh(9,13) by (auto simp: file_byte_def file_bytes_def)
      then show ?thesis using file_bytes_append [of f bits "e # es" "a * ?c + ofs" m "n - m"] sh(4) by simp
    qed
    have IH: "\<exists>v'. rl_read_loop (Suc k) bits pread es 0 (int t + int m) (int n - int m) b1 v1
        = Some (Inr (int (t + n)), take (t + m) b1 @ file_bytes (content v1) bits es (a' * ?c) (n - m), v')
     \<and> follows v1 v' \<and> content v' = content v1 \<and> dlive v' \<and> same_mode v1 v'"
      if "dvalid v1" "dlive v1" "dsize v1 = dsize v" "length b1 = t + n" for v1 b1
      using Cons.IH [of a' v1 b1 "t + m" "n - m" 0] that sh(4,10-12,14,15) Cons.prems(6,10)
      by (simp add: of_nat_diff)
    note loop = rl_read_loop.simps(2) [of "Suc k" bits pread e es "int ofs" "int t" "int n" b v] Let_def sh(1,2)
    show ?thesis
    proof (cases "rl_lcn e < 0")
      case True
      let ?b = "blit b t (replicate m 0)"
      have "mem_put b t (replicate m 0) = Some ?b" using Cons.prems(5) sh(4) by (simp add: mem_put_def)
      then have step: "rl_read_loop (Suc k) bits pread (e # es) (int ofs) (int t) (int n) b v
          = rl_read_loop (Suc k) bits pread es 0 (int t + int m) (int n - int m) ?b v"
        using True False sh(5) by (simp add: loop)
      have "replicate m 0 = file_bytes (content v) bits (e # es) (a * ?c + ofs) m"
        using True sh(8) by (intro nth_equalityI) (simp_all add: file_bytes_def file_byte_def)
      moreover have "take (t + m) ?b = take t b @ replicate m 0" using Cons.prems(5) sh(4) by (simp add: blit_def)
      ultimately show ?thesis
        using IH [OF Cons.prems(3,4) refl, of ?b] Cons.prems(5) sh(4) bytes [of "content v"] unfolding step
        by (auto simp del: rl_read_loop.simps)
    next
      case real: False
      define pos where "pos = nat (rl_lcn e) * ?c + ofs"
      let ?part = "chunk t m b"
      have part: "mem_get b t m = Some ?part" "length ?part = m" using Cons.prems(5) sh(4) by (simp_all add: mem_get_def)
      have fit: "pos + m \<le> dsize v" "m < 2 ^ 31" using sh(4,7) real Cons.prems(6) by (simp_all add: pos_def)
      obtain b1 v1 where p: "ntfs_pread pread v (int pos) (int m) ?part = Some (Inr (int m), b1, v1)" "length b1 = m"
          "b1 = bytes_from (content v) pos m" "follows v v1" "content v1 = content v" "dlive v1" "same_mode v v1"
        using ntfs_pread_ok [OF Cons.prems(3) fit part(2)] Cons.prems(4) by fastforce
      let ?b = "blit b t b1"
      have at: "s64 (shl64 (rl_lcn e) bits + int ofs) = int pos" using sh(6) real by (simp add: pos_def)
      have step: "rl_read_loop (Suc k) bits pread (e # es) (int ofs) (int t) (int n) b v
          = rl_read_loop (Suc k) bits pread es 0 (int t + int m) (int n - int m) ?b v1"
        using real False sh(3) part(1) p(1) by (simp add: loop at)
      have "b1 = file_bytes (content v) bits (e # es) (a * ?c + ofs) m"
        using real sh(8) by (intro nth_equalityI) (simp_all add: p(3) file_bytes_def file_byte_def pos_def add.assoc)
      moreover have "take (t + m) ?b = take t b @ b1" using Cons.prems(5) sh(4) p(2) by (simp add: blit_def)
      moreover have "length ?b = t + n" using Cons.prems(5) sh(4) p(2) by simp
      ultimately show ?thesis
        using IH [of v1 ?b] p(4-7) bytes [of "content v"] same_mode_trans [OF p(7)] unfolding step by (auto simp: follows_def simp del: rl_read_loop.simps)
    qed
  qed
qed

text \<open>A write changes the bytes of the range that are on the device, and no other byte of the device.\<close>

lemma rl_write_loop_ok:
  "rl_ok (int a) rl \<Longrightarrow> rl \<noteq> [] \<Longrightarrow> dvalid v \<Longrightarrow> dlive v \<Longrightarrow> \<not> NDevReadOnly v \<Longrightarrow> length b = t + n \<Longrightarrow> n < 2 ^ 31 \<Longrightarrow>
   n = 0 \<or> ofs < nat (rl_length (hd rl)) * 2 ^ bits \<Longrightarrow> on_device (dsize v) bits rl (a * 2 ^ bits + ofs) n \<Longrightarrow>
   rl_vcn (rl_term rl) * 2 ^ bits < 2 ^ 63 \<Longrightarrow> dsize v < 2 ^ 63 \<Longrightarrow> alias_free bits rl (a * 2 ^ bits + ofs) n \<Longrightarrow>
   \<exists>v'. rl_write_loop (Suc k) bits pwrite dsync False rl (int ofs) (int t) (int n) b v = Some (Inr (int (t + n)), v')
     \<and> follows v v' \<and> dlive v' \<and> \<not> NDevReadOnly v'
     \<and> (\<forall>x. (\<forall>q. a * 2 ^ bits + ofs \<le> q \<longrightarrow> q < a * 2 ^ bits + ofs + n \<longrightarrow> phys bits rl q \<noteq> Some x) \<longrightarrow> content v' x = content v x)
     \<and> (\<forall>i x. i < n \<longrightarrow> phys bits rl (a * 2 ^ bits + ofs + i) = Some x \<longrightarrow> content v' x = b ! (t + i))"
proof (induction rl arbitrary: a v t n ofs)
  case Nil
  then show ?case by simp
next
  case (Cons e es)
  show ?case
  proof (cases "n = 0")
    case True
    then show ?thesis using Cons.prems by (auto simp: follows_def)
  next
    case False
    let ?c = "2 ^ bits :: nat"
    let ?P = "a * ?c + ofs"
    define m where "m = min n (nat (rl_length e) * ?c - ofs)"
    define a' where "a' = a + nat (rl_length e)"
    have "0 < n" "ofs < nat (rl_length e) * ?c" using False Cons.prems(8) by simp_all
    note sh = run_share [OF Cons.prems(1) this Cons.prems(9,11,10), folded m_def a'_def]
    have tail: "phys bits es (a' * ?c + i) = phys bits (e # es) (?P + (m + i))" if "i < n - m" for i
      using sh(9) [of "a' * ?c + i"] sh(13) that by (auto simp: add.assoc)
    have af: "alias_free bits es (a' * ?c) (n - m)"
      unfolding alias_free_def
    proof (intro allI impI)
      fix q q' x
      assume "a' * ?c \<le> q" "q < a' * ?c + (n - m)" "a' * ?c \<le> q'" "q' < a' * ?c + (n - m)"
        "phys bits es q = Some x" "phys bits es q' = Some x"
      moreover from this have "?P \<le> q" "q < ?P + n" "?P \<le> q'" "q' < ?P + n" using sh(4,13) by auto
      ultimately show "q = q'" using Cons.prems(12) sh(9) by (auto simp: alias_free_def)
    qed
    have IH: "\<exists>v'. rl_write_loop (Suc k) bits pwrite dsync False es 0 (int t + int m) (int n - int m) b v1 = Some (Inr (int (t + n)), v')
     \<and> follows v1 v' \<and> dlive v' \<and> \<not> NDevReadOnly v'
     \<and> (\<forall>x. (\<forall>q. a' * ?c \<le> q \<longrightarrow> q < a' * ?c + (n - m) \<longrightarrow> phys bits es q \<noteq> Some x) \<longrightarrow> content v' x = content v1 x)
     \<and> (\<forall>i x. i < n - m \<longrightarrow> phys bits es (a' * ?c + i) = Some x \<longrightarrow> content v' x = b ! (t + m + i))"
      if "dvalid v1" "dlive v1" "\<not> NDevReadOnly v1" "dsize v1 = dsize v" for v1
      using Cons.IH [of a' v1 "t + m" "n - m" 0] that sh(4,10-12,14,15) Cons.prems(6,7,11) af
      by (simp add: of_nat_diff)
    note loop = rl_write_loop.simps(2) [of "Suc k" bits pwrite dsync False e es "int ofs" "int t" "int n" b v] Let_def sh(1,2)
    have "\<exists>v1. rl_write_loop (Suc k) bits pwrite dsync False (e # es) (int ofs) (int t) (int n) b v
          = rl_write_loop (Suc k) bits pwrite dsync False es 0 (int t + int m) (int n - int m) b v1
        \<and> follows v v1 \<and> dlive v1 \<and> \<not> NDevReadOnly v1
        \<and> (\<forall>x. content v1 x = (if 0 \<le> rl_lcn e \<and> nat (rl_lcn e) * ?c + ofs \<le> x \<and> x < nat (rl_lcn e) * ?c + ofs + m
              then b ! (t + (x - (nat (rl_lcn e) * ?c + ofs))) else content v x))"
    proof (cases "rl_lcn e < 0")
      case True
      then have "rl_write_loop (Suc k) bits pwrite dsync False (e # es) (int ofs) (int t) (int n) b v
          = rl_write_loop (Suc k) bits pwrite dsync False es 0 (int t + int m) (int n - int m) b v"
        using False sh(5) by (simp add: loop)
      then show ?thesis using True Cons.prems(3-5) by (intro exI [of _ v]) (simp add: follows_def)
    next
      case real: False
      define pos where "pos = nat (rl_lcn e) * ?c + ofs"
      let ?part = "chunk t m b"
      have part: "mem_get b t m = Some ?part" "length ?part = m" using Cons.prems(6) sh(4) by (simp_all add: mem_get_def)
      have fit: "pos + m \<le> dsize v" "m < 2 ^ 31" using sh(4,7) real Cons.prems(7) by (simp_all add: pos_def)
      note w = ntfs_pwrite_ok [OF Cons.prems(3,5) fit part(2)]
      obtain v1 where p: "ntfs_pwrite pwrite dsync v (int pos) (int m) ?part = Some (Inr (int m), v1)" "dlive v1"
        using w(2) Cons.prems(4) by blast
      note p1 = w(1) [OF p(1)]
      have at: "s64 (shl64 (rl_lcn e) bits + int ofs) = int pos" using sh(6) real by (simp add: pos_def)
      have "rl_write_loop (Suc k) bits pwrite dsync False (e # es) (int ofs) (int t) (int n) b v
          = rl_write_loop (Suc k) bits pwrite dsync False es 0 (int t + int m) (int n - int m) b v1"
        using real False sh(3) part(1) p(1) by (simp add: loop at)
      moreover have "content v1 x = (if pos \<le> x \<and> x < pos + m then b ! (t + (x - pos)) else content v x)" for x
      proof (cases "pos \<le> x \<and> x < pos + m")
        case True
        then have "x - pos < m" "t + (x - pos) < length b" using Cons.prems(6) sh(4) by linarith+
        then show ?thesis using True p1 part(2) by (simp add: put_bytes_def nth_chunk)
      next
        case False
        then show ?thesis using p1 part(2) by (auto simp: put_bytes_def)
      qed
      ultimately show ?thesis using real p(2) p1 Cons.prems(5) by (intro exI [of _ v1]) (simp add: pos_def)
    qed
    then obtain v1 where step: "rl_write_loop (Suc k) bits pwrite dsync False (e # es) (int ofs) (int t) (int n) b v
          = rl_write_loop (Suc k) bits pwrite dsync False es 0 (int t + int m) (int n - int m) b v1"
        and v1: "follows v v1" "dlive v1" "\<not> NDevReadOnly v1"
        and here: "\<And>x. content v1 x = (if 0 \<le> rl_lcn e \<and> nat (rl_lcn e) * ?c + ofs \<le> x \<and> x < nat (rl_lcn e) * ?c + ofs + m
              then b ! (t + (x - (nat (rl_lcn e) * ?c + ofs))) else content v x)" by blast
    obtain w where w: "rl_write_loop (Suc k) bits pwrite dsync False es 0 (int t + int m) (int n - int m) b v1 = Some (Inr (int (t + n)), w)"
        "follows v1 w" "dlive w" "\<not> NDevReadOnly w"
        "\<And>x. (\<And>q. a' * ?c \<le> q \<Longrightarrow> q < a' * ?c + (n - m) \<Longrightarrow> phys bits es q \<noteq> Some x) \<Longrightarrow> content w x = content v1 x"
        "\<And>i x. i < n - m \<Longrightarrow> phys bits es (a' * ?c + i) = Some x \<Longrightarrow> content w x = b ! (t + m + i)"
      using IH [of v1] v1 by (auto simp: follows_def)
    have own: "phys bits (e # es) (?P + i) = (if 0 \<le> rl_lcn e then Some (nat (rl_lcn e) * ?c + ofs + i) else None)" if "i < m" for i
      using sh(8) [of "?P + i"] that by (simp add: add.assoc)
    have rest: "content w x = content v1 x" if "\<And>i. m \<le> i \<Longrightarrow> i < n \<Longrightarrow> phys bits (e # es) (?P + i) \<noteq> Some x" for x
    proof (rule w(5))
      fix q assume q: "a' * ?c \<le> q" "q < a' * ?c + (n - m)"
      then show "phys bits es q \<noteq> Some x"
        using tail [of "q - a' * ?c"] that [of "m + (q - a' * ?c)"] by auto
    qed
    have outside: "content w x = content v x"
      if "\<forall>q. ?P \<le> q \<longrightarrow> q < ?P + n \<longrightarrow> phys bits (e # es) q \<noteq> Some x" for x
    proof -
      have no: "phys bits (e # es) (?P + i) \<noteq> Some x" if "i < n" for i using \<open>\<forall>q. _\<close> that by simp
      have "\<not> (0 \<le> rl_lcn e \<and> nat (rl_lcn e) * ?c + ofs \<le> x \<and> x < nat (rl_lcn e) * ?c + ofs + m)"
      proof
        assume x: "0 \<le> rl_lcn e \<and> nat (rl_lcn e) * ?c + ofs \<le> x \<and> x < nat (rl_lcn e) * ?c + ofs + m"
        then obtain i where "x = nat (rl_lcn e) * ?c + ofs + i" using le_Suc_ex by blast
        then show False using own [of i] no [of i] x sh(4) by simp
      qed
      then show ?thesis using rest [of x] here [of x] no by auto
    qed
    have inside: "content w x = b ! (t + i)" if i: "i < n" "phys bits (e # es) (?P + i) = Some x" for i x
    proof (cases "i < m")
      case False
      then have "i - m < n - m" "phys bits es (a' * ?c + (i - m)) = Some x" using i tail [of "i - m"] by auto
      from w(6) [OF this] show ?thesis using False by simp
    next
      case True
      have "phys bits (e # es) (?P + j) \<noteq> Some x" if "m \<le> j" "j < n" for j
      proof
        assume "phys bits (e # es) (?P + j) = Some x"
        then have "?P + j = ?P + i"
          using Cons.prems(12) i that unfolding alias_free_def by (metis add_less_cancel_left le_add1)
        then show False using True that by simp
      qed
      then have "content w x = content v1 x" by (rule rest)
      then show ?thesis using own [OF True] i(2) here [of x] True by (auto split: if_splits)
    qed
    show ?thesis
      unfolding step using w(1-4) v1(1) outside inside by (auto simp: follows_def simp del: rl_write_loop.simps)
  qed
qed

lemma rl_seek_ok:
  "rl_ok (int a) rl \<Longrightarrow> a * 2 ^ bits \<le> pos \<Longrightarrow> int pos < rl_vcn (rl_term rl) * 2 ^ bits \<Longrightarrow> rl_vcn (rl_term rl) * 2 ^ bits < 2 ^ 63 \<Longrightarrow>
   \<exists>a' rl'. rl_seek bits rl (int (a * 2 ^ bits)) (int pos) = Some (rl', int (a' * 2 ^ bits)) \<and> rl_ok (int a') rl' \<and> rl' \<noteq> []
     \<and> a' * 2 ^ bits \<le> pos \<and> pos - a' * 2 ^ bits < nat (rl_length (hd rl')) * 2 ^ bits \<and> rl_vcn (rl_term rl') = rl_vcn (rl_term rl)
     \<and> (\<forall>q \<ge> a' * 2 ^ bits. rl_map rl' (int (q div 2 ^ bits)) = rl_map rl (int (q div 2 ^ bits)))"
proof (induction rl arbitrary: a)
  case Nil
  then show ?case by simp
next
  case (Cons e es)
  let ?c = "2 ^ bits :: nat" and ?len = "nat (rl_length e)"
  have nz: "rl_length e \<noteq> 0"
  proof
    assume "rl_length e = 0"
    then have "rl_vcn (rl_term (e # es)) = int a" using Cons.prems(1) by auto
    then have "int pos < int (a * ?c)" using Cons.prems(3) by simp
    then show False using Cons.prems(2) by linarith
  qed
  note r = rl_ok_Cons_nat [OF Cons.prems(1) nz]
  let ?a = "a + ?len"
  have "int ?a * 2 ^ bits \<le> rl_vcn (rl_term es) * 2 ^ bits" using r(7) by (intro mult_right_mono) simp_all
  from le_less_trans [OF this Cons.prems(4) [unfolded r(6)]] have "int (?a * ?c) < 2 ^ 63" by simp
  then have top: "?a * ?c < 2 ^ 63" by (rule below_2_63)
  have step: "?a * ?c = a * ?c + ?len * ?c" by (simp add: add_mult_distrib)
  have "in_s64 (int (?len * ?c))" "in_s64 (int (?a * ?c))"
    by (rule in_s64_nat, use top step in linarith)+
  moreover have "rl_length e * 2 ^ bits = int (?len * ?c)" using r(2) by simp
  moreover have "int (a * ?c) + int (?len * ?c) = int (?a * ?c)" by (simp only: step of_nat_add)
  ultimately have s: "s64 (int (a * ?c) + shl64 (rl_length e) bits) = int (?a * ?c)" by (simp add: shl64_def)
  show ?case
  proof (cases "?a * ?c \<le> pos")
    case True
    have "int (?a * ?c) \<le> int pos" using True by (simp only: of_nat_le_iff)
    then have go: "rl_seek bits (e # es) (int (a * ?c)) (int pos) = rl_seek bits es (int (?a * ?c)) (int pos)"
      using nz by (simp only: rl_seek.simps s if_True simp_thms)
    have pre: "int pos < rl_vcn (rl_term es) * 2 ^ bits" "rl_vcn (rl_term es) * 2 ^ bits < 2 ^ 63"
      using Cons.prems(3,4) unfolding r(6) by blast+
    obtain a' rl' where h: "rl_seek bits es (int (?a * ?c)) (int pos) = Some (rl', int (a' * ?c))" "rl_ok (int a') rl'" "rl' \<noteq> []"
      "a' * ?c \<le> pos" "pos - a' * ?c < nat (rl_length (hd rl')) * ?c" "rl_vcn (rl_term rl') = rl_vcn (rl_term es)"
      "\<And>q. a' * ?c \<le> q \<Longrightarrow> rl_map rl' (int (q div ?c)) = rl_map es (int (q div ?c))"
      using Cons.IH [OF r(5) True pre] by blast
    obtain f fs where h': "rl' = f # fs" "pos - a' * ?c < nat (rl_length f) * ?c" using h(3,5) by (cases rl') auto
    then have "rl_length f \<noteq> 0" by auto
    note f = rl_ok_Cons_nat(1,3) [OF h(2) [unfolded h'(1)] this]
    have "rl_map rl' (int (q div ?c)) = rl_map (e # es) (int (q div ?c))" if q: "a' * ?c \<le> q" for q
    proof (cases "?a * ?c \<le> q")
      case True
      then show ?thesis using h(7) [OF q] phys_skip(1) [OF r(1-3)] by simp
    next
      case False
      then have lt: "q div ?c < ?a" by (simp add: div_less_iff_less_mult)
      have "rl_map es (int (q div ?c)) = None"
        by (rule rl_map_out [OF r(5)], rule disjI1) (simp only: of_nat_less_iff lt)
      then have "rl_map rl' (int (q div ?c)) = None" by (rule trans [OF h(7) [OF q]])
      moreover have "a' \<le> q div ?c" using q by (simp add: less_eq_div_iff_mult_less_eq)
      moreover have "rl_map rl' (int (q div ?c)) \<noteq> None" if "int (q div ?c) < int a' + rl_length f"
        using that f \<open>a' \<le> q div ?c\<close> by (simp add: h'(1) in_run_def)
      ultimately have "int a' + rl_length f \<le> int (q div ?c)" by linarith
      then have "(a' + nat (rl_length f)) * ?c \<le> q div ?c * ?c"
        using f(2) by (intro mult_right_mono) linarith+
      also have "\<dots> \<le> q" by (simp add: div_times_less_eq_dividend)
      finally have "a' * ?c + nat (rl_length f) * ?c \<le> q" by (simp only: add_mult_distrib)
      then have "pos < q" using h(4) h'(2) by linarith
      then show ?thesis using True False by linarith
    qed
    then show ?thesis using go h(1-6) r(6) by auto
  next
    case False
    then have "\<not> int (?a * ?c) \<le> int pos" by (simp only: of_nat_le_iff not_False_eq_True)
    then have "rl_seek bits (e # es) (int (a * ?c)) (int pos) = Some (e # es, int (a * ?c))"
      by (simp only: rl_seek.simps s simp_thms if_False)
    moreover have "pos - a * ?c < ?len * ?c" using False Cons.prems(2) step by linarith
    ultimately show ?thesis using Cons.prems(1,2) by (intro exI [of _ a] exI [of _ "e # es"]) simp
  qed
qed

text \<open>The run found by \<open>rl_seek\<close> carries the range.\<close>

lemma rl_seek_range:
  assumes ok: "rl_ok (int a) rl" "a * 2 ^ bits \<le> pos" and n: "0 < n" and dev: "on_device z bits rl pos n"
    and small: "rl_vcn (rl_term rl) * 2 ^ bits < 2 ^ 63"
  obtains a' rl' ofs where "rl_seek bits rl (int (a * 2 ^ bits)) (int pos) = Some (rl', int (a' * 2 ^ bits))"
    "int pos - int (a' * 2 ^ bits) = int ofs" "a' * 2 ^ bits + ofs = pos" "rl_ok (int a') rl'" "rl' \<noteq> []"
    "ofs < nat (rl_length (hd rl')) * 2 ^ bits" "on_device z bits rl' pos n" "rl_vcn (rl_term rl') * 2 ^ bits < 2 ^ 63"
    "\<And>q. pos \<le> q \<Longrightarrow> phys bits rl' q = phys bits rl q"
proof -
  have "rl_map rl (int (pos div 2 ^ bits)) \<noteq> None" using dev n by (auto simp: on_device_def)
  then have "int (pos div 2 ^ bits) < rl_vcn (rl_term rl)" using rl_map_out [OF ok(1), of "int (pos div 2 ^ bits)"] by (meson linorder_not_less)
  then have "(int (pos div 2 ^ bits) + 1) * 2 ^ bits \<le> rl_vcn (rl_term rl) * 2 ^ bits" by (intro mult_right_mono) simp_all
  moreover have "int pos < (int (pos div 2 ^ bits) + 1) * 2 ^ bits"
  proof -
    have "pos < (pos div 2 ^ bits + 1) * 2 ^ bits" using div_less_iff_less_mult [of "2 ^ bits" pos "pos div 2 ^ bits + 1"] by simp
    then have "int pos < int ((pos div 2 ^ bits + 1) * 2 ^ bits)" by (simp only: of_nat_less_iff)
    then show ?thesis by (simp add: algebra_simps)
  qed
  ultimately have in_file: "int pos < rl_vcn (rl_term rl) * 2 ^ bits" by linarith
  obtain a' rl' where s: "rl_seek bits rl (int (a * 2 ^ bits)) (int pos) = Some (rl', int (a' * 2 ^ bits))" "rl_ok (int a') rl'" "rl' \<noteq> []"
      "a' * 2 ^ bits \<le> pos" "pos - a' * 2 ^ bits < nat (rl_length (hd rl')) * 2 ^ bits" "rl_vcn (rl_term rl') = rl_vcn (rl_term rl)"
      "\<And>q. a' * 2 ^ bits \<le> q \<Longrightarrow> rl_map rl' (int (q div 2 ^ bits)) = rl_map rl (int (q div 2 ^ bits))"
    using rl_seek_ok [OF ok in_file small] by blast
  have eq: "rl_map rl' (int (q div 2 ^ bits)) = rl_map rl (int (q div 2 ^ bits))" if "pos \<le> q" for q
    by (rule s(7)) (use that s(4) in linarith)
  show ?thesis
  proof (rule that [of rl' a' "pos - a' * 2 ^ bits"])
    show "int pos - int (a' * 2 ^ bits) = int (pos - a' * 2 ^ bits)" using s(4) by (simp only: of_nat_diff)
    show "a' * 2 ^ bits + (pos - a' * 2 ^ bits) = pos" using s(4) by simp
    show "on_device z bits rl' pos n" using dev eq unfolding on_device_def by metis
    show "phys bits rl' q = phys bits rl q" if "pos \<le> q" for q using eq [OF that] by (simp only: phys_def)
    show "rl_vcn (rl_term rl') * 2 ^ bits < 2 ^ 63" using small s(6) by (simp only: s(6))
  qed (use s in auto)
qed

lemma ntfs_rl_pread_ok:
  assumes v: "dvalid v" "dlive v" and b: "length b = n" "n < 2 ^ 31" and z: "dsize v < 2 ^ 63"
    and rl: "rl_ok 0 rl" "on_device (dsize v) (cluster_size_bits vol) rl pos n" "rl_vcn (rl_term rl) * 2 ^ cluster_size_bits vol < 2 ^ 63"
  shows "\<exists>v'. ntfs_rl_pread (Suc k) pread (Some vol) v (Some rl) (int pos) (int n) b
       = Some (Inr (int n), file_bytes (content v) (cluster_size_bits vol) rl pos n, v')
     \<and> follows v v' \<and> content v' = content v \<and> dlive v' \<and> same_mode v v'"
proof (cases "n = 0")
  case True
  then show ?thesis using v b by (simp add: ntfs_rl_pread_def file_bytes_def follows_def)
next
  case False
  then have n: "0 < n" by simp
  let ?bits = "cluster_size_bits vol"
  have ok: "rl_ok (int 0) rl" "0 * 2 ^ ?bits \<le> pos" using rl(1) by simp_all
  obtain a' rl' ofs where s: "rl_seek ?bits rl (int (0 * 2 ^ ?bits)) (int pos) = Some (rl', int (a' * 2 ^ ?bits))"
    "int pos - int (a' * 2 ^ ?bits) = int ofs" "a' * 2 ^ ?bits + ofs = pos" "rl_ok (int a') rl'" "rl' \<noteq> []"
    "ofs < nat (rl_length (hd rl')) * 2 ^ ?bits" "on_device (dsize v) ?bits rl' pos n" "rl_vcn (rl_term rl') * 2 ^ ?bits < 2 ^ 63"
    "\<And>q. pos \<le> q \<Longrightarrow> phys ?bits rl' q = phys ?bits rl q"
    by (rule rl_seek_range [OF ok n rl(2,3)]) blast
  have go: "ntfs_rl_pread (Suc k) pread (Some vol) v (Some rl) (int pos) (int n) b
      = rl_read_loop (Suc k) ?bits pread rl' (int ofs) (int 0) (int n) b v"
    using False s(1,2) by (simp add: ntfs_rl_pread_def)
  have "\<exists>v'. rl_read_loop (Suc k) ?bits pread rl' (int ofs) (int 0) (int n) b v
        = Some (Inr (int (0 + n)), take 0 b @ file_bytes (content v) ?bits rl' (a' * 2 ^ ?bits + ofs) n, v')
     \<and> follows v v' \<and> content v' = content v \<and> dlive v' \<and> same_mode v v'"
    using b s(6) by (intro rl_read_loop_ok [OF s(4,5) v _ b(2) _ _ s(8) z]) (simp_all add: s(3,7))
  moreover have "file_bytes (content v) ?bits rl' pos n = file_bytes (content v) ?bits rl pos n"
    by (rule file_bytes_cong) (simp add: file_byte_def s(9))
  ultimately show ?thesis unfolding go s(3) by simp
qed

lemma ntfs_rl_pwrite_ok:
  assumes v: "dvalid v" "dlive v" "\<not> NDevReadOnly v" and b: "length b = n" "n < 2 ^ 31" and z: "dsize v < 2 ^ 63"
    and rl: "rl_ok (int a) rl" "a * 2 ^ cluster_size_bits vol \<le> pos" "on_device (dsize v) (cluster_size_bits vol) rl pos n"
      "rl_vcn (rl_term rl) * 2 ^ cluster_size_bits vol < 2 ^ 63" "alias_free (cluster_size_bits vol) rl pos n"
  shows "\<exists>v'. ntfs_rl_pwrite (Suc k) pwrite dsync False (Some vol) v (Some rl) (int (a * 2 ^ cluster_size_bits vol)) (int pos) (int n) b
       = Some (Inr (int n), v') \<and> follows v v' \<and> dlive v' \<and> \<not> NDevReadOnly v'
     \<and> (\<forall>x. (\<forall>q. pos \<le> q \<longrightarrow> q < pos + n \<longrightarrow> phys (cluster_size_bits vol) rl q \<noteq> Some x) \<longrightarrow> content v' x = content v x)
     \<and> (\<forall>i x. i < n \<longrightarrow> phys (cluster_size_bits vol) rl (pos + i) = Some x \<longrightarrow> content v' x = b ! i)"
proof (cases "n = 0")
  case True
  then show ?thesis using v b by (simp add: ntfs_rl_pwrite_def follows_def)
next
  case False
  then have n: "0 < n" by simp
  let ?bits = "cluster_size_bits vol"
  obtain a' rl' ofs where s: "rl_seek ?bits rl (int (a * 2 ^ ?bits)) (int pos) = Some (rl', int (a' * 2 ^ ?bits))"
    "int pos - int (a' * 2 ^ ?bits) = int ofs" "a' * 2 ^ ?bits + ofs = pos" "rl_ok (int a') rl'" "rl' \<noteq> []"
    "ofs < nat (rl_length (hd rl')) * 2 ^ ?bits" "on_device (dsize v) ?bits rl' pos n" "rl_vcn (rl_term rl') * 2 ^ ?bits < 2 ^ 63"
    "\<And>q. pos \<le> q \<Longrightarrow> phys ?bits rl' q = phys ?bits rl q"
    by (rule rl_seek_range [OF rl(1,2) n rl(3,4)]) blast
  have go: "ntfs_rl_pwrite (Suc k) pwrite dsync False (Some vol) v (Some rl) (int (a * 2 ^ ?bits)) (int pos) (int n) b
      = rl_write_loop (Suc k) ?bits pwrite dsync False rl' (int ofs) (int 0) (int n) b v"
    using False s(1,2) by (simp add: ntfs_rl_pwrite_def)
  have af: "alias_free ?bits rl' pos n" using rl(5) s(9) unfolding alias_free_def by metis
  have "\<exists>v'. rl_write_loop (Suc k) ?bits pwrite dsync False rl' (int ofs) (int 0) (int n) b v = Some (Inr (int (0 + n)), v')
     \<and> follows v v' \<and> dlive v' \<and> \<not> NDevReadOnly v'
     \<and> (\<forall>x. (\<forall>q. a' * 2 ^ ?bits + ofs \<le> q \<longrightarrow> q < a' * 2 ^ ?bits + ofs + n \<longrightarrow> phys ?bits rl' q \<noteq> Some x) \<longrightarrow> content v' x = content v x)
     \<and> (\<forall>i x. i < n \<longrightarrow> phys ?bits rl' (a' * 2 ^ ?bits + ofs + i) = Some x \<longrightarrow> content v' x = b ! (0 + i))"
    using b s(6) by (intro rl_write_loop_ok [OF s(4,5) v _ b(2) _ _ s(8) z]) (simp_all add: s(3,7) af)
  then show ?thesis unfolding go s(3) using s(9) by simp
qed

text \<open>Written bytes come back; the bytes of holes were zero and stay so.\<close>

lemma rl_write_then_read:
  assumes v: "dvalid v" "dlive v" "\<not> NDevReadOnly v" and b: "length b = n" "length b' = n" "n < 2 ^ 31" and z: "dsize v < 2 ^ 63"
    and rl: "rl_ok 0 rl" "on_device (dsize v) (cluster_size_bits vol) rl pos n"
      "rl_vcn (rl_term rl) * 2 ^ cluster_size_bits vol < 2 ^ 63" "alias_free (cluster_size_bits vol) rl pos n"
    and holes: "\<And>i. i < n \<Longrightarrow> phys (cluster_size_bits vol) rl (pos + i) = None \<Longrightarrow> b ! i = 0"
  shows "\<exists>v1 v2. ntfs_rl_pwrite (Suc k) pwrite dsync False (Some vol) v (Some rl) 0 (int pos) (int n) b = Some (Inr (int n), v1)
     \<and> ntfs_rl_pread (Suc k) pread (Some vol) v1 (Some rl) (int pos) (int n) b' = Some (Inr (int n), b, v2)
     \<and> (\<forall>x. (\<forall>q. pos \<le> q \<longrightarrow> q < pos + n \<longrightarrow> phys (cluster_size_bits vol) rl q \<noteq> Some x) \<longrightarrow> content v2 x = content v x)"
proof -
  let ?bits = "cluster_size_bits vol"
  obtain v1 where w: "ntfs_rl_pwrite (Suc k) pwrite dsync False (Some vol) v (Some rl) 0 (int pos) (int n) b = Some (Inr (int n), v1)"
     "follows v v1" "dlive v1" "\<forall>x. (\<forall>q. pos \<le> q \<longrightarrow> q < pos + n \<longrightarrow> phys ?bits rl q \<noteq> Some x) \<longrightarrow> content v1 x = content v x"
     "\<And>i x. i < n \<Longrightarrow> phys ?bits rl (pos + i) = Some x \<Longrightarrow> content v1 x = b ! i"
    using ntfs_rl_pwrite_ok [OF v b(1,3) z, of 0 rl vol pos k] rl by auto
  have f: "dvalid v1" "dsize v1 = dsize v" using w(2) by (simp_all add: follows_def)
  obtain v2 where r: "ntfs_rl_pread (Suc k) pread (Some vol) v1 (Some rl) (int pos) (int n) b'
       = Some (Inr (int n), file_bytes (content v1) ?bits rl pos n, v2)" "content v2 = content v1"
    using ntfs_rl_pread_ok [OF f(1) w(3) b(2,3), of rl vol pos k] f(2) z rl by auto
  have "file_bytes (content v1) ?bits rl pos n = b"
  proof (rule nth_equalityI)
    show "file_bytes (content v1) ?bits rl pos n ! i = b ! i" if "i < length (file_bytes (content v1) ?bits rl pos n)" for i
      using that w(5) [of i] holes [of i] by (cases "phys ?bits rl (pos + i)") (simp_all add: file_bytes_def file_byte_def)
  qed (simp add: b)
  then show ?thesis using w(1,4) r by auto
qed

end

section \<open>Properties\<close>

text \<open>
  C22. On a device that works, \<open>ntfs_rl_pread\<close> delivers the bytes of the file: those of the clusters the runlist maps, wherever
  they lie on the device, and zeroes for its holes.
\<close>

theorem rl_pread_reads_file:
  assumes "usb_valid fd v" "usb_live fd heap v" "usb_size fd v < 2 ^ 63" "length b = n" "n < 2 ^ 31"
    and "rl_ok 0 rl" "on_device (usb_size fd v) (cluster_size_bits vol) rl pos n"
    and "rl_vcn (rl_term rl) * 2 ^ cluster_size_bits vol < 2 ^ 63"
  shows "\<exists>v'. ntfs_rl_pread (Suc k) (usb_pread un fd heap) (Some vol) v (Some rl) (int pos) (int n) b
       = Some (Inr (int n), file_bytes (usb_content fd v) (cluster_size_bits vol) rl pos n, v')"
  using ps3_gekko.byte.ntfs_rl_pread_ok [OF assms(1) assms(2) [unfolded usb_live_def] assms(4,5,3,6-8), of k un] by blast

text \<open>A fragmented file on the device in memory: a cluster of four bytes at 8, a hole, and a cluster at 3.\<close>

definition small_volume :: ntfs_volume where
  "small_volume = no_volume \<lparr>cluster_size := 4, cluster_size_bits := 2, nr_clusters := 14\<rparr>"

definition small_rl :: runlist where
  "small_rl = [rle 0 8 1, rle 1 LCN_HOLE 1, rle 2 3 1, rle 3 LCN_ENOENT 0]"

lemma small_rl_ok:
  "rl_ok 0 small_rl" "rl_vcn (rl_term small_rl) * 2 ^ cluster_size_bits small_volume < 2 ^ 63"
  "on_device 58 (cluster_size_bits small_volume) small_rl 2 8" "alias_free (cluster_size_bits small_volume) small_rl 2 8"
  "phys (cluster_size_bits small_volume) small_rl q = (if q < 4 then Some (32 + q) else if 8 \<le> q \<and> q < 12 then Some (4 + q) else None)"
proof -
  show "rl_ok 0 small_rl" "rl_vcn (rl_term small_rl) * 2 ^ cluster_size_bits small_volume < 2 ^ 63"
    by (simp_all add: small_rl_def lcn_defs small_volume_def)
  have bits: "cluster_size_bits small_volume = 2" by (simp add: small_volume_def)
  have m: "rl_map small_rl (int (q div 4)) = (if q < 4 then Some 8 else if q < 8 then Some LCN_HOLE else if q < 12 then Some 3 else None)" for q
    by (auto simp: small_rl_def in_run_def run_lcn_def lcn_defs)
  have p: "phys 2 small_rl q = (if q < 4 then Some (32 + q) else if 8 \<le> q \<and> q < 12 then Some (4 + q) else None)" for q
  proof -
    have "8 \<le> q \<Longrightarrow> q < 12 \<Longrightarrow> 12 + q mod 4 = 4 + q" by presburger
    then show ?thesis by (simp add: phys_def m LCN_HOLE_def)
  qed
  then show "phys (cluster_size_bits small_volume) small_rl q = (if q < 4 then Some (32 + q) else if 8 \<le> q \<and> q < 12 then Some (4 + q) else None)"
    by (simp add: bits)
  show "on_device 58 (cluster_size_bits small_volume) small_rl 2 8" by (auto simp: on_device_def bits m)
  show "alias_free (cluster_size_bits small_volume) small_rl 2 8" by (auto simp: alias_free_def bits p split: if_splits)
qed

theorem rl_pread_reads_file_witness:
  "\<exists>v'. ntfs_rl_pread (Suc 0) (usb_pread True 0 ram_heap) (Some small_volume) ram_device (Some small_rl) (int 2) (int 8) (replicate 8 1)
       = Some (Inr (int 8), file_bytes (usb_content 0 ram_device) (cluster_size_bits small_volume) small_rl 2 8, v')"
  by (rule rl_pread_reads_file [OF ram_device_ok(1,2) _ _ _ small_rl_ok(1) _ small_rl_ok(2)]) (simp_all add: ram_device_ok small_rl_ok(3))

text \<open>
  C1. What \<open>ntfs_rl_pwrite\<close> writes into a file whose clusters are all different, \<open>ntfs_rl_pread\<close> reads back, over all
  fragments of the range; the buffer must hold zeroes where the file has holes. No byte of the device outside the range changes.
\<close>

theorem rl_pwrite_pread_roundtrip:
  assumes "usb_valid fd v" "usb_live fd heap v" "\<not> NDevReadOnly v" "usb_size fd v < 2 ^ 63"
    and "length b = n" "length b' = n" "n < 2 ^ 31"
    and "rl_ok 0 rl" "on_device (usb_size fd v) (cluster_size_bits vol) rl pos n"
    and "rl_vcn (rl_term rl) * 2 ^ cluster_size_bits vol < 2 ^ 63" "alias_free (cluster_size_bits vol) rl pos n"
    and "\<And>i. i < n \<Longrightarrow> phys (cluster_size_bits vol) rl (pos + i) = None \<Longrightarrow> b ! i = 0"
  shows "\<exists>v1 v2. ntfs_rl_pwrite (Suc k) (usb_pwrite un fd heap) (usb_sync un fd) False (Some vol) v (Some rl) 0 (int pos) (int n) b
         = Some (Inr (int n), v1)
     \<and> ntfs_rl_pread (Suc k) (usb_pread un fd heap) (Some vol) v1 (Some rl) (int pos) (int n) b' = Some (Inr (int n), b, v2)
     \<and> (\<forall>x. (\<forall>q. pos \<le> q \<longrightarrow> q < pos + n \<longrightarrow> phys (cluster_size_bits vol) rl q \<noteq> Some x) \<longrightarrow> usb_content fd v2 x = usb_content fd v x)"
  by (rule ps3_gekko.byte.rl_write_then_read [OF assms(1) assms(2) [unfolded usb_live_def] assms(3,5-7,4,8-12)])

theorem rl_pwrite_pread_roundtrip_witness:
  "\<exists>v1 v2. ntfs_rl_pwrite (Suc 0) (usb_pwrite True 0 ram_heap) (usb_sync True 0) False (Some small_volume) ram_device (Some small_rl) 0
         (int 2) (int 8) [1, 2, 0, 0, 0, 0, 3, 4] = Some (Inr (int 8), v1)
     \<and> ntfs_rl_pread (Suc 0) (usb_pread True 0 ram_heap) (Some small_volume) v1 (Some small_rl) (int 2) (int 8) (replicate 8 9)
         = Some (Inr (int 8), [1, 2, 0, 0, 0, 0, 3, 4], v2)
     \<and> (\<forall>x. (\<forall>q. 2 \<le> q \<longrightarrow> q < 2 + 8 \<longrightarrow> phys (cluster_size_bits small_volume) small_rl q \<noteq> Some x) \<longrightarrow>
           usb_content 0 v2 x = usb_content 0 ram_device x)"
proof (rule rl_pwrite_pread_roundtrip [OF ram_device_ok(1-3) _ _ _ _ small_rl_ok(1) _ small_rl_ok(2)])
  show "[1, 2, 0, 0, 0, 0, 3, 4 :: u8] ! i = 0" if "i < 8" "phys (cluster_size_bits small_volume) small_rl (2 + i) = None" for i
    using that unfolding small_rl_ok(5) by (auto simp: less_Suc_eq numeral_eq_Suc split: if_splits)
qed (simp_all add: ram_device_ok small_rl_ok(3,4))

text \<open>A device whose bytes are their own addresses, which transfers two bytes at a time and fails at address 34.\<close>

definition flaky_pread :: "'p ntfs_device \<Rightarrow> bytes \<Rightarrow> int \<Rightarrow> int \<Rightarrow> ((errno + int) \<times> bytes \<times> 'p ntfs_device) option" where
  "flaky_pread v b n pos = Some (if pos = 34 then (Inl EIO, b, v)
     else (Inr (min n 2), map (\<lambda>i. word_of_int (pos + int i)) [0..<nat (min n 2)] @ drop (nat (min n 2)) b, v))"

text \<open>
  After a transfer that is cut short inside a run, \<open>ntfs_rl_pread\<close> goes on with the next run instead of the rest of this
  one: it reports the full count, with the bytes of the wrong place in the buffer.
\<close>

lemma rl_pread_short_transfer:
  "ntfs_rl_pread 1 flaky_pread (Some small_volume) ram_device (Some [rle 0 8 1, rle 1 3 1, rle 2 LCN_ENOENT 0]) 0 4 [0, 0, 0, 0]
     = Some (Inr 4, [32, 33, 12, 13], ram_device)"
proof -
  have steps: "ntfs_pread flaky_pread v 32 4 [0, 0, 0, 0] = Some (Inr 2, [32, 33, 0, 0], v)"
    "ntfs_pread flaky_pread v 12 2 [0, 0] = Some (Inr 2, [12, 13], v)" for v
    by (simp_all add: ntfs_pread_def flaky_pread_def mem_get_def chunk_def blit_def eval_nat_numeral)
  show ?thesis
    by (simp add: ntfs_rl_pread_def small_volume_def shl64_def s64_def Let_def steps mem_get_def chunk_def blit_def)
qed

end
