(* ===== verification/IndexInsert.thy ===== *)
theory IndexInsert
  imports IndexTree AttrMst RunlistIo
begin

unbundle bit_operations_syntax

text \<open>
  Growth of an index, from \<open>libntfs_ext/source/index.c\<close>: the bitmap of the blocks in use, \<open>ntfs_ir_insert_median\<close>,
  \<open>ntfs_ib_insert\<close> and \<open>ntfs_ib_split\<close>, which call each other up to the root. The state has the bitmap attribute, the buffer of the MFT record that
  holds the root, and the storage below the index allocation, whose blocks go through \<open>ntfs_attr_mst_pread\<close> and \<open>ntfs_attr_mst_pwrite\<close>.
\<close>

section \<open>The bitmap\<close>

text \<open>Division of C: it rounds towards 0.\<close>

definition c_div :: "int \<Rightarrow> int \<Rightarrow> int" where
  "c_div p b = (if p < 0 then - (- p div b) else p div b)"

definition ntfs_ibm_vcn_to_pos :: "index_context \<Rightarrow> int \<Rightarrow> int" where
  "ntfs_ibm_vcn_to_pos icx vcn = c_div (ntfs_ib_vcn_to_pos icx vcn) (int (icx_block_size icx))"

definition ntfs_ibm_pos_to_vcn :: "index_context \<Rightarrow> int \<Rightarrow> int" where
  "ntfs_ibm_pos_to_vcn icx pos = ntfs_ib_pos_to_vcn icx (s64 (pos * int (icx_block_size icx)))"

text \<open>\<open>bmp\<close> is the value of the bitmap attribute, if it can be opened. The calls on it: it can be made longer, with bytes of 0 (\<open>bi_grows\<close>), it can be
  read as a whole, and a byte of it can be read and written. The first component of a result tells whether the call failed; \<open>None\<close> is a shift by a
  negative number.\<close>

record bitmap_io =
  bi_grows :: bool
  bi_readall :: bool
  bi_pread :: "bytes \<Rightarrow> nat \<Rightarrow> bool"
  bi_pwrite :: "bytes \<Rightarrow> nat \<Rightarrow> bool"

definition ntfs_ibm_modify :: "bitmap_io \<Rightarrow> index_context \<Rightarrow> int \<Rightarrow> bool \<Rightarrow> bytes option \<Rightarrow> (bool \<times> bytes option) option" where
  "ntfs_ibm_modify io icx vcn on bmp =
     (let pos = ntfs_ibm_vcn_to_pos icx vcn; bpos = u32i (c_div pos 8)
      in if pos < 0 \<and> pos mod 8 \<noteq> 0 then None
      else let bit = push_bit (nat (pos mod 8)) 1
      in case bmp of None \<Rightarrow> Some (True, bmp)
      | Some b \<Rightarrow>
          if on \<and> length b < bpos + 1 \<and> \<not> bi_grows io then Some (True, bmp)
          else let b = (if on \<and> length b < bpos + 1 then b @ replicate ((length b + 8) div 8 * 8 - length b) 0 else b)
          in if bpos \<ge> length b \<or> \<not> bi_pread io b bpos \<or> \<not> bi_pwrite io b bpos then Some (True, Some b)
          else Some (False, Some (b[bpos := (if on then b ! bpos OR bit else b ! bpos AND NOT bit)])))"

definition ntfs_ibm_set :: "bitmap_io \<Rightarrow> index_context \<Rightarrow> int \<Rightarrow> bytes option \<Rightarrow> (bool \<times> bytes option) option" where
  "ntfs_ibm_set io icx vcn bmp = ntfs_ibm_modify io icx vcn True bmp"

definition ntfs_ibm_clear :: "bitmap_io \<Rightarrow> index_context \<Rightarrow> int \<Rightarrow> bytes option \<Rightarrow> (bool \<times> bytes option) option" where
  "ntfs_ibm_clear io icx vcn bmp = ntfs_ibm_modify io icx vcn False bmp"

text \<open>The loops of \<open>ntfs_ibm_get_free\<close> over the bits of a byte and over the bytes; the result is the number of the first bit that is clear.\<close>

function free_bit :: "u8 \<Rightarrow> nat \<Rightarrow> nat option" where
  "free_bit byte n = (if n \<ge> 8 then None else if \<not> bit byte n then Some n else free_bit byte (n + 1))"
  by pat_completeness auto
termination
  by (relation "measure (\<lambda>(byte, n). 8 - n)") auto

declare free_bit.simps [simp del]

primrec free_pos :: "bytes \<Rightarrow> nat \<Rightarrow> nat" where
  "free_pos [] n = n"
| "free_pos (x # xs) n = (if x = 255 then free_pos xs (n + 8) else case free_bit x 0 of Some i \<Rightarrow> n + i | None \<Rightarrow> free_pos xs (n + 8))"

definition ntfs_ibm_get_free :: "bitmap_io \<Rightarrow> index_context \<Rightarrow> bytes option \<Rightarrow> (int \<times> bytes option) option" where
  "ntfs_ibm_get_free io icx bmp = (case bmp of None \<Rightarrow> Some (- 1, None)
     | Some bm \<Rightarrow> if \<not> bi_readall io then Some (- 1, bmp) else do {
         let vcn = ntfs_ibm_pos_to_vcn icx (int (free_pos bm 0));
         (failed, bmp) \<leftarrow> ntfs_ibm_set io icx vcn bmp;
         Some (if failed then - 1 else vcn, bmp) })"

text \<open>The number of the first clear bit.\<close>

definition bit_at :: "bytes \<Rightarrow> nat \<Rightarrow> bool" where
  "bit_at bm p \<longleftrightarrow> p div 8 < length bm \<and> bit (bm ! (p div 8)) (p mod 8)"

lemma free_bit_ok:
  "n \<le> 8 \<Longrightarrow> case free_bit x n of Some i \<Rightarrow> n \<le> i \<and> i < 8 \<and> \<not> bit x i \<and> (\<forall>k. n \<le> k \<and> k < i \<longrightarrow> bit x k) | None \<Rightarrow> \<forall>k. n \<le> k \<and> k < 8 \<longrightarrow> bit x k"
proof (induction x n rule: free_bit.induct)
  case (1 x n)
  show ?case
  proof (cases "n < 8 \<and> bit x n")
    case True
    have "n \<le> k \<longleftrightarrow> n = k \<or> n + 1 \<le> k" for k by auto
    then show ?thesis using 1 True by (subst free_bit.simps) (auto split: option.splits)
  next
    case False
    then show ?thesis by (subst free_bit.simps) auto
  qed
qed

lemma all_ones: "(x :: u8) = 255 \<longleftrightarrow> (\<forall>k < 8. bit x k)"
proof -
  have "bit (255 :: u8) k" if "k < 8" for k
  proof -
    have m: "(255 :: u8) = - 1" by simp
    show ?thesis unfolding m using that by (simp only: bit_minus_1_iff possible_bit_word) simp
  qed
  then show ?thesis by (auto intro: bit_word_eqI)
qed

lemma free_pos_ok:
  "\<not> bit_at bm (free_pos bm n - n) \<and> (\<forall>k < free_pos bm n - n. bit_at bm k) \<and> n \<le> free_pos bm n \<and> free_pos bm n - n \<le> 8 * length bm"
proof (induction bm arbitrary: n)
  case (Cons x xs)
  have up: "bit_at (x # xs) k \<longleftrightarrow> (if k < 8 then bit x k else bit_at xs (k - 8))" for k
    by (cases "k < 8") (auto simp: bit_at_def nth_Cons' le_div_geq le_mod_geq)
  show ?case
  proof (cases "free_bit x 0")
    case None
    then have "\<forall>k < 8. bit x k" using free_bit_ok [of 0 x] by simp
    moreover have "free_pos (x # xs) n = free_pos xs (n + 8)" using None by simp
    moreover have "free_pos xs (n + 8) - n = free_pos xs (n + 8) - (n + 8) + 8" "n + 8 \<le> free_pos xs (n + 8)"
      using Cons.IH [of "n + 8"] by auto
    ultimately show ?thesis using Cons.IH [of "n + 8"] by (auto simp: up less_diff_conv2)
  next
    case (Some i)
    then have "i < 8" "\<not> bit x i" "\<forall>k < i. bit x k" using free_bit_ok [of 0 x] by auto
    moreover from this have "x \<noteq> 255" by (auto simp: all_ones)
    ultimately show ?thesis using Some by (simp add: up)
  qed
qed (simp add: bit_at_def)

section \<open>Insertion into blocks\<close>

datatype status = STATUS_OK | STATUS_ERROR | STATUS_KEEP_SEARCHING

record 'w index_store =
  is_bmp :: "bytes option"
  is_rec :: bytes
  is_dev :: 'w

text \<open>The calls out of \<open>index.c\<close>: \<open>ntfs_attr_pread\<close> and \<open>ntfs_attr_pwrite\<close> of the index allocation, those on the bitmap, memory (\<open>io_junk\<close>: what \<open>realloc\<close> leaves in it), the place of
  the \<open>INDEX_ROOT\<close> in the MFT record, and \<open>ntfs_ir_make_space\<close>.\<close>

record 'w index_ops =
  io_read :: "'w \<Rightarrow> int \<Rightarrow> int \<Rightarrow> bytes \<Rightarrow> int \<times> bytes"
  io_write :: "int \<Rightarrow> bytes \<Rightarrow> 'w \<Rightarrow> int \<times> 'w"
  io_bitmap :: bitmap_io
  io_room :: bool
  io_junk :: u8
  io_ir_lookup :: "bytes \<Rightarrow> nat option"
  io_make_space :: "nat \<Rightarrow> 'w index_store \<Rightarrow> status \<times> 'w index_store"

definition get_at :: "'a list \<Rightarrow> int \<Rightarrow> 'a option" where
  "get_at xs i = (if 0 \<le> i then elem xs (nat i) else None)"

definition ntfs_icx_parent_vcn :: "index_context \<Rightarrow> int option" where
  "ntfs_icx_parent_vcn icx = get_at (icx_parent_vcn icx) (icx_pindex icx)"

definition ntfs_icx_parent_pos :: "index_context \<Rightarrow> nat option" where
  "ntfs_icx_parent_pos icx = get_at (icx_parent_pos icx) (icx_pindex icx)"

text \<open>A block is read into new memory.\<close>

definition mst_block :: "'w index_ops \<Rightarrow> index_context \<Rightarrow> 'w \<Rightarrow> int \<Rightarrow> (int \<times> bytes) option" where
  "mst_block calls icx w vcn =
     ntfs_attr_mst_pread (io_read calls w) (ntfs_ib_vcn_to_pos icx vcn) 1 (icx_block_size icx) (replicate (icx_block_size icx) (io_junk calls))"

definition store_read :: "'w index_ops \<Rightarrow> index_context \<Rightarrow> 'w index_store \<Rightarrow> int \<Rightarrow> bytes option option" where
  "store_read calls icx v vcn = do {
     (br, ib) \<leftarrow> mst_block calls icx (is_dev v) vcn;
     ntfs_ib_read (\<lambda>pos n. if br = 1 then Some ib else None) icx vcn }"

definition store_write :: "'w index_ops \<Rightarrow> index_context \<Rightarrow> bytes \<Rightarrow> 'w index_store \<Rightarrow> (bool \<times> bytes \<times> 'w index_store) option" where
  "store_write calls icx ib v = map_option (\<lambda>(failed, ib, w). (failed, ib, v\<lparr>is_dev := w\<rparr>))
     (ntfs_ib_write (\<lambda>pos n. ntfs_attr_mst_pwrite (io_write calls) pos 1 n) icx ib (is_dev v))"

definition store_clear :: "'w index_ops \<Rightarrow> index_context \<Rightarrow> int \<Rightarrow> 'w index_store \<Rightarrow> 'w index_store option" where
  "store_clear calls icx vcn v = map_option (\<lambda>(failed, bmp). v\<lparr>is_bmp := bmp\<rparr>) (ntfs_ibm_clear (io_bitmap calls) icx vcn (is_bmp v))"

text \<open>\<open>median\<close> is an entry in the buffer \<open>src\<close>.\<close>

definition ntfs_ir_insert_median :: "'w index_ops \<Rightarrow> index_context \<Rightarrow> bytes \<Rightarrow> nat \<Rightarrow> int \<Rightarrow> 'w index_store \<Rightarrow> (status \<times> 'w index_store) option" where
  "ntfs_ir_insert_median calls icx src median new_vcn v =
     (case io_ir_lookup calls (is_rec v) of None \<Rightarrow> Some (STATUS_ERROR, v)
      | Some ir \<Rightarrow> do {
          il \<leftarrow> index_length (is_rec v) (ir + 16);
          l \<leftarrow> ie_length src median;
          f \<leftarrow> ie_flags src median;
          let new_size = u32 (il + l + (if (f AND INDEX_ENTRY_NODE) = 0 then 8 else 0));
          case io_make_space calls new_size v of (ret, v) \<Rightarrow>
            if ret \<noteq> STATUS_OK then Some (ret, v)
            else case io_ir_lookup calls (is_rec v) of None \<Rightarrow> Some (STATUS_ERROR, v)
            | Some ir \<Rightarrow> do {
                pos \<leftarrow> ntfs_icx_parent_pos icx;
                (failed, rc) \<leftarrow> ntfs_ih_insert (io_room calls) (io_junk calls) (is_rec v) (ir + 16) src median new_vcn pos;
                Some (if failed then STATUS_ERROR else STATUS_OK, v\<lparr>is_rec := rc\<rparr>) } })"

text \<open>\<open>ntfs_ib_insert\<close> and \<open>ntfs_ib_split\<close>; the split also returns the block it has cut.\<close>

function ntfs_ib_insert :: "'w index_ops \<Rightarrow> bytes \<Rightarrow> nat \<Rightarrow> int \<Rightarrow> index_context \<Rightarrow> 'w index_store \<Rightarrow> (status \<times> index_context \<times> 'w index_store) option"
  and ntfs_ib_split :: "'w index_ops \<Rightarrow> bytes \<Rightarrow> index_context \<Rightarrow> 'w index_store \<Rightarrow> (status \<times> bytes \<times> index_context \<times> 'w index_store) option" where
  "ntfs_ib_insert calls src ie new_vcn icx v =
     (if \<not> io_room calls then Some (STATUS_ERROR, icx, v)
      else do {
        old_vcn \<leftarrow> ntfs_icx_parent_vcn icx;
        r \<leftarrow> store_read calls icx v old_vcn;
        case r of None \<Rightarrow> Some (STATUS_ERROR, icx, v)
        | Some ib \<Rightarrow> do {
            idx_size \<leftarrow> index_length ib 24;
            allocated_size \<leftarrow> fetch32 ib 32;
            l \<leftarrow> ie_length src ie;
            if idx_size + l + 8 > allocated_size then do {
              (err, ib, icx, v) \<leftarrow> ntfs_ib_split calls ib icx v;
              Some (if err = STATUS_OK then STATUS_KEEP_SEARCHING else err, icx, v) }
            else do {
              pos \<leftarrow> ntfs_icx_parent_pos icx;
              (failed, ib) \<leftarrow> ntfs_ih_insert (io_room calls) (io_junk calls) ib 24 src ie new_vcn pos;
              if failed then Some (STATUS_ERROR, icx, v)
              else do {
                (failed, ib, v) \<leftarrow> store_write calls icx ib v;
                Some (if failed then STATUS_ERROR else STATUS_OK, icx, v) } } } })"
| "ntfs_ib_split calls ib icx v =
     (case ntfs_icx_parent_dec icx of
        (Some e, icx) \<Rightarrow> Some (STATUS_ERROR, ib, icx, v)
      | (None, icx) \<Rightarrow> do {
          median \<leftarrow> ntfs_ie_get_median ib 24;
          (new_vcn, bmp) \<leftarrow> ntfs_ibm_get_free (io_bitmap calls) icx (is_bmp v);
          let v = v\<lparr>is_bmp := bmp\<rparr>;
          if new_vcn = - 1 then Some (STATUS_ERROR, ib, icx, v)
          else do {
            (failed, v) \<leftarrow> ntfs_ib_copy_tail (io_room calls) (store_write calls icx) (icx_block_size icx) ib median new_vcn v;
            if failed then do { v \<leftarrow> store_clear calls icx new_vcn v; Some (STATUS_ERROR, ib, icx, v) }
            else do {
              pv \<leftarrow> ntfs_icx_parent_vcn icx;
              (ret, icx, v) \<leftarrow> (if pv = VCN_INDEX_ROOT_PARENT
                 then map_option (\<lambda>(ret, v). (ret, icx, v)) (ntfs_ir_insert_median calls icx ib median new_vcn v)
                 else ntfs_ib_insert calls ib median new_vcn icx v);
              if ret \<noteq> STATUS_OK then do { v \<leftarrow> store_clear calls icx new_vcn v; Some (ret, ib, icx, v) }
              else do {
                (failed, ib, v) \<leftarrow> ntfs_ib_cut_tail (store_write calls icx) ib median v;
                Some (if failed then STATUS_ERROR else STATUS_OK, ib, icx, v) } } } })"
  by pat_completeness auto
termination
  by (relation "measure (case_sum (\<lambda>(calls, src, ie, new_vcn, icx, v). 2 * nat (icx_pindex icx + 1) + 1) (\<lambda>(calls, ib, icx, v). 2 * nat (icx_pindex icx + 1)))")
    (auto simp: ntfs_icx_parent_dec_def Let_def split: if_splits)

declare ntfs_ib_insert.simps [simp del] ntfs_ib_split.simps [simp del]

section \<open>Storage\<close>

text \<open>What the split relies on of \<open>ntfs_attr_pread\<close> and \<open>ntfs_attr_pwrite\<close>: while the attribute and the device are \<open>sound\<close>, a write of \<open>n\<close> bytes to
  one of the positions \<open>P\<close>, where the attribute is or can grow, writes them all, they are read back as they were written, what could be read at the other
  positions is read as before, and the device is still sound. The protection of the blocks is not part of it: that is the code above.\<close>

definition store_law :: "'w index_ops \<Rightarrow> nat \<Rightarrow> int set \<Rightarrow> ('w \<Rightarrow> bool) \<Rightarrow> bool" where
  "store_law calls n P sound \<longleftrightarrow> (\<forall>w. \<forall>pos \<in> P. \<forall>b. sound w \<and> length b = n \<longrightarrow>
     (\<exists>w'. io_write calls pos b w = (int n, w') \<and> sound w'
       \<and> (\<forall>d. length d = n \<longrightarrow> io_read calls w' pos (int n) d = (int n, b))
       \<and> (\<forall>q \<in> P. \<forall>d. (pos + int n \<le> q \<or> q + int n \<le> pos) \<and> length d = n \<and> int n \<le> fst (io_read calls w q (int n) d) \<longrightarrow>
           io_read calls w' q (int n) d = io_read calls w q (int n) d)))"

text \<open>The blocks of the index, as they are read.\<close>

definition store_blocks :: "'w index_ops \<Rightarrow> index_context \<Rightarrow> 'w index_store \<Rightarrow> int \<Rightarrow> bytes option" where
  "store_blocks calls icx v vcn = (case mst_block calls icx (is_dev v) vcn of None \<Rightarrow> None | Some (br, b) \<Rightarrow> if br = 1 then Some b else None)"

definition apart :: "index_context \<Rightarrow> int \<Rightarrow> int \<Rightarrow> bool" where
  "apart icx a b \<longleftrightarrow> ntfs_ib_vcn_to_pos icx a + int (icx_block_size icx) \<le> ntfs_ib_vcn_to_pos icx b
     \<or> ntfs_ib_vcn_to_pos icx b + int (icx_block_size icx) \<le> ntfs_ib_vcn_to_pos icx a"

definition others :: "'w index_ops \<Rightarrow> index_context \<Rightarrow> 'w index_store \<Rightarrow> int set \<Rightarrow> int list \<Rightarrow> int \<Rightarrow> bytes option" where
  "others calls icx v P zs vcn = (if ntfs_ib_vcn_to_pos icx vcn \<in> P \<and> (\<forall>z \<in> set zs. apart icx vcn z) then store_blocks calls icx v vcn else None)"

lemma apart_sym: "apart icx a b = apart icx b a"
  by (auto simp: apart_def)

lemma pindex_irrelevant [simp]:
  "ntfs_ib_vcn_to_pos (icx\<lparr>icx_pindex := p\<rparr>) = ntfs_ib_vcn_to_pos icx" "blocks_at rd (icx\<lparr>icx_pindex := p\<rparr>) = blocks_at rd icx"
  "store_blocks calls (icx\<lparr>icx_pindex := p\<rparr>) v = store_blocks calls icx v" "apart (icx\<lparr>icx_pindex := p\<rparr>) = apart icx"
  "store_write calls (icx\<lparr>icx_pindex := p\<rparr>) = store_write calls icx" "store_read calls (icx\<lparr>icx_pindex := p\<rparr>) = store_read calls icx"
  by (auto simp: ntfs_ib_vcn_to_pos_def blocks_at_def store_blocks_def mst_block_def apart_def store_write_def store_read_def ntfs_ib_write_def ntfs_ib_read_def fun_eq_iff
    split: option.split Option.bind_split)

lemma ibm_pindex [simp]: "ntfs_ibm_get_free io (icx\<lparr>icx_pindex := p\<rparr>) bmp = ntfs_ibm_get_free io icx bmp"
  by (cases bmp) (simp_all add: ntfs_ibm_get_free_def ntfs_ibm_set_def ntfs_ibm_modify_def ntfs_ibm_vcn_to_pos_def ntfs_ibm_pos_to_vcn_def
    ntfs_ib_pos_to_vcn_def Let_def)

lemma block_vcn:
  assumes "is_block b vcn n" "in_s64 vcn"
  shows "s64 (int (get64 b 16)) = vcn"
proof -
  have "get64 b 16 = nat (vcn mod 2 ^ 64) mod 2 ^ 64"
    using assms(1) le_val_le_bytes [of 8 "nat (vcn mod 2 ^ 64)"] by (simp add: is_block_def lies_at_def get64_def)
  moreover have "nat (vcn mod 2 ^ 64) < 2 ^ 64" by (simp add: nat_less_iff)
  ultimately have "int (get64 b 16) = vcn mod 2 ^ 64" by simp
  then show ?thesis using assms(2) by (simp add: s64_def mod_simps in_s64_def)
qed

text \<open>A block with a node, as it is in storage.\<close>

definition block_at :: "(int \<Rightarrow> bytes option) \<Rightarrow> nat \<Rightarrow> int \<Rightarrow> bytes \<Rightarrow> nat \<Rightarrow> bytes list \<Rightarrow> bytes \<Rightarrow> bool" where
  "block_at rd n vcn b eo es t \<longleftrightarrow> in_s64 vcn \<and> rd vcn = Some b \<and> is_block b vcn n \<and> usa_ok b eo n \<and> node_at b 24 eo es t"

text \<open>A change of the update sequence array is none of the block.\<close>

lemma usa_change:
  assumes "is_block b vcn n" "usa_ok b eo n" "node_at b 24 eo es t" "length r = n"
    and same: "\<forall>i < n. \<not> (usa_ofs b \<le> i \<and> i < usa_ofs b + 2 * (usa_fixups b + 1)) \<longrightarrow> r ! i = b ! i"
  shows "is_block r vcn n" "usa_ok r eo n" "node_at r 24 eo es t" "r ! 36 = b ! 36"
proof -
  have l: "length b = n" and u: "40 \<le> usa_ofs b" "usa_ofs b + 2 * (usa_fixups b + 1) \<le> 24 + eo" and n: "40 < n"
    using assms(1,2) mst_layoutD(5,7) [of b n] by (auto simp: is_block_def usa_ok_def)
  have byte: "r ! i = b ! i" if "i < 40 \<or> 24 + eo \<le> i" "i < n" for i
    using same that u by auto
  have keep: "lies_at r i xs" if "lies_at b i xs" "i + length xs \<le> 40 \<or> 24 + eo \<le> i" for i xs
  proof -
    have "chunk i (length xs) r = chunk i (length xs) b"
      using that lies_at_mono [OF that(1)] l assms(4) by (intro chunk_eqI) (auto intro: byte)
    then show ?thesis using that(1) lies_at_mono [OF that(1)] l assms(4) by (simp add: lies_at_def)
  qed
  show "is_block r vcn n" using assms(1,4) by (auto simp: is_block_def intro: keep)
  show "usa_ok r eo n" using l n by (intro usa_ok_same [OF assms(2,4)] chunk_eqI) (auto simp: assms(4) intro: byte)
  show "node_at r 24 eo es t" using assms(3) by (auto simp: node_at_def simp del: lies_at_append intro: keep)
  show "r ! 36 = b ! 36" using n by (intro byte) auto
qed

lemma store_read_ok:
  assumes "store_blocks calls icx v vcn = Some b" "is_block b vcn n" "in_s64 vcn" "icx_block_size icx = n" "48 \<le> n" "n < 2 ^ 32"
  shows "store_read calls icx v vcn = Some (Some b)"
  using assms ia_check_ok [OF assms(2,3)] by (auto simp: store_blocks_def store_read_def ntfs_ib_read_def split: option.splits prod.splits if_splits)

text \<open>A block that is written is in storage afterwards as it is then in the buffer, with a new update sequence number.\<close>

lemma store_write_ok:
  assumes law: "store_law calls n P sound" "sound (is_dev v)" and n: "icx_block_size icx = n"
    and b: "is_block b vcn n" "in_s64 vcn" "usa_ok b eo n" "node_at b 24 eo es t" and P: "ntfs_ib_vcn_to_pos icx vcn \<in> P"
  obtains r v' where "store_write calls icx b v = Some (False, r, v')" "is_bmp v' = is_bmp v" "is_rec v' = is_rec v" "sound (is_dev v')"
    "block_at (store_blocks calls icx v') n vcn r eo es t" "r ! 36 = b ! 36"
    "\<forall>z x. ntfs_ib_vcn_to_pos icx z \<in> P \<longrightarrow> apart icx z vcn \<longrightarrow> store_blocks calls icx v z = Some x \<longrightarrow> store_blocks calls icx v' z = Some x"
proof -
  let ?pos = "ntfs_ib_vcn_to_pos icx vcn"
  have lay: "mst_layout b n" "0 < n" using b(3) by (auto simp: usa_ok_def mst_layout_def)
  obtain p r where m: "length p = n" "length r = n"
    "\<And>pos v. ntfs_attr_mst_pwrite (io_write calls) pos 1 n b v = (case io_write calls pos p v of (w, v') \<Rightarrow> Some (if w \<le> 0 then w else w div int n, r, v'))"
    "\<And>aread pos dst. aread pos (int n) dst = (int n, p) \<Longrightarrow> ntfs_attr_mst_pread aread pos 1 n dst = Some (1, r)"
    "\<forall>i < n. \<not> (usa_ofs b \<le> i \<and> i < usa_ofs b + 2 * (usa_fixups b + 1)) \<longrightarrow> r ! i = b ! i"
    by (rule mst_write_one [OF lay(1) block_magic [OF b(1)], where awrite = "io_write calls"]) blast
  obtain w where w: "io_write calls ?pos p (is_dev v) = (int n, w)" "sound w"
    "\<forall>d. length d = n \<longrightarrow> io_read calls w ?pos (int n) d = (int n, p)"
    "\<forall>q \<in> P. \<forall>d. (?pos + int n \<le> q \<or> q + int n \<le> ?pos) \<and> length d = n \<and> int n \<le> fst (io_read calls (is_dev v) q (int n) d) \<longrightarrow>
       io_read calls w q (int n) d = io_read calls (is_dev v) q (int n) d"
    using law P m(1) unfolding store_law_def by blast
  let ?v = "v\<lparr>is_dev := w\<rparr>"
  have wr: "store_write calls icx b v = Some (False, r, ?v)"
    using w(1) m(3) n lay(2) block_vcn [OF b(1,2)] by (simp add: store_write_def ntfs_ib_write_def)
  have "mst_block calls icx w vcn = Some (1, r)"
    unfolding mst_block_def n using w(3) by (intro m(4)) simp
  then have at: "block_at (store_blocks calls icx ?v) n vcn r eo es t" and r36: "r ! 36 = b ! 36"
    using usa_change [OF b(1,3,4) m(2,5)] b(2) by (simp_all add: block_at_def store_blocks_def)
  have frame: "store_blocks calls icx ?v z = Some x" if z: "apart icx z vcn" "store_blocks calls icx v z = Some x" "ntfs_ib_vcn_to_pos icx z \<in> P" for z x
  proof -
    let ?q = "ntfs_ib_vcn_to_pos icx z" and ?d = "replicate n (io_junk calls)"
    obtain y where y: "mst_block calls icx (is_dev v) z = Some (1, y)" using z(2) by (auto simp: store_blocks_def split: option.splits if_splits)
    have "int n \<le> br" if "0 < br" "br div int n = 1" for br :: int
      using that div_pos_pos_trivial [of br "int n"] by (cases "br < int n") auto
    with y have "int n \<le> fst (io_read calls (is_dev v) ?q (int n) ?d)"
      unfolding mst_block_def ntfs_attr_mst_pread_def n by (auto split: prod.splits if_splits)
    then have "io_read calls w ?q (int n) ?d = io_read calls (is_dev v) ?q (int n) ?d" using w(4) z(1,3) n unfolding apart_def by auto
    then have "mst_block calls icx w z = mst_block calls icx (is_dev v) z" unfolding mst_block_def ntfs_attr_mst_pread_def n by simp
    then show ?thesis using z(2) by (simp add: store_blocks_def)
  qed
  show ?thesis using that [OF wr _ _ _ at r36] w(2) frame by simp
qed

section \<open>The law on a run list\<close>

text \<open>An attribute whose clusters are all there, on the USB device of a PS3: reads and writes are those of \<open>ntfs_rl_pread\<close> and \<open>ntfs_rl_pwrite\<close>.\<close>

definition rl_read :: "('p ntfs_device \<Rightarrow> bytes \<Rightarrow> int \<Rightarrow> int \<Rightarrow> ((errno + int) \<times> bytes \<times> 'p ntfs_device) option) \<Rightarrow> ntfs_volume \<Rightarrow> runlist
    \<Rightarrow> 'p ntfs_device \<Rightarrow> int \<Rightarrow> int \<Rightarrow> bytes \<Rightarrow> int \<times> bytes" where
  "rl_read pread vol rl v pos n d = (case ntfs_rl_pread 1 pread (Some vol) v (Some rl) pos n d of
     Some (Inr br, b, v') \<Rightarrow> (br, b) | Some (Inl e, b, v') \<Rightarrow> (- 1, b) | None \<Rightarrow> (- 1, d))"

definition rl_write :: "('p ntfs_device \<Rightarrow> bytes \<Rightarrow> int \<Rightarrow> int \<Rightarrow> ((errno + int) \<times> 'p ntfs_device) option)
    \<Rightarrow> ('p ntfs_device \<Rightarrow> ((errno + int) \<times> 'p ntfs_device) option) \<Rightarrow> ntfs_volume \<Rightarrow> runlist \<Rightarrow> int \<Rightarrow> bytes \<Rightarrow> 'p ntfs_device \<Rightarrow> int \<times> 'p ntfs_device" where
  "rl_write pwrite dsync vol rl pos b v = (case ntfs_rl_pwrite 1 pwrite dsync False (Some vol) v (Some rl) 0 pos (int (length b)) b of
     Some (Inr w, v') \<Rightarrow> (w, v') | Some (Inl e, v') \<Rightarrow> (- 1, v') | None \<Rightarrow> (- 1, v))"

lemma on_device_part: "on_device z bits rl 0 L \<Longrightarrow> p + n \<le> L \<Longrightarrow> on_device z bits rl p n"
  by (auto simp: on_device_def)

lemma alias_free_part: "alias_free bits rl 0 L \<Longrightarrow> p + n \<le> L \<Longrightarrow> alias_free bits rl p n"
  unfolding alias_free_def
proof (intro allI impI)
  fix q q' x
  assume *: "\<forall>q q' x. 0 \<le> q \<longrightarrow> q < 0 + L \<longrightarrow> 0 \<le> q' \<longrightarrow> q' < 0 + L \<longrightarrow> phys bits rl q = Some x \<longrightarrow> phys bits rl q' = Some x \<longrightarrow> q = q'"
    and "p + n \<le> L" "q < p + n" "q' < p + n" "phys bits rl q = Some x" "phys bits rl q' = Some x"
  then have "q < 0 + L" "q' < 0 + L" by linarith+
  then show "q = q'" using * \<open>phys bits rl q = Some x\<close> \<open>phys bits rl q' = Some x\<close> by blast
qed

text \<open>The storage of the model satisfies the law.\<close>

lemma runlist_store_law:
  fixes calls :: "'a ps3 gekko_fd ntfs_device index_ops"
  assumes reads: "io_read calls = rl_read (usb_pread un fd heap) vol rl" and writes: "io_write calls = rl_write (usb_pwrite un fd heap) (usb_sync un fd) vol rl"
    and n: "n < 2 ^ 31" and z: "z < 2 ^ 63" and rl: "rl_ok 0 rl" "rl_vcn (rl_term rl) * 2 ^ cluster_size_bits vol < 2 ^ 63"
    and clusters: "on_device z (cluster_size_bits vol) rl 0 L" "alias_free (cluster_size_bits vol) rl 0 L" "\<And>q. q < L \<Longrightarrow> phys (cluster_size_bits vol) rl q \<noteq> None"
  shows "store_law calls n {pos. 0 \<le> pos \<and> pos + int n \<le> int L}
    (\<lambda>v. usb_valid fd v \<and> usb_live fd heap v \<and> \<not> NDevReadOnly v \<and> usb_size fd v = z)"
  unfolding store_law_def
proof (intro allI ballI impI, elim conjE)
  fix v :: "'a ps3 gekko_fd ntfs_device" and pos and b :: bytes
  assume "pos \<in> {pos. 0 \<le> pos \<and> pos + int n \<le> int L}" and v: "usb_valid fd v" "usb_live fd heap v" "\<not> NDevReadOnly v" "usb_size fd v = z" and b: "length b = n"
  then obtain p where p: "pos = int p" "p + n \<le> L" using zero_le_imp_eq_int [of pos] by auto
  let ?bits = "cluster_size_bits vol"
  note at = on_device_part [OF clusters(1)] alias_free_part [OF clusters(2)]
  obtain v' where w: "ntfs_rl_pwrite 1 (usb_pwrite un fd heap) (usb_sync un fd) False (Some vol) v (Some rl) 0 (int p) (int n) b = Some (Inr (int n), v')"
    "usb_valid fd v'" "usb_live fd heap v'" "\<not> NDevReadOnly v'" "usb_size fd v' = z"
    "\<forall>x. (\<forall>q. p \<le> q \<longrightarrow> q < p + n \<longrightarrow> phys ?bits rl q \<noteq> Some x) \<longrightarrow> usb_content fd v' x = usb_content fd v x"
    "\<forall>i x. i < n \<longrightarrow> phys ?bits rl (p + i) = Some x \<longrightarrow> usb_content fd v' x = b ! i"
    using ps3_gekko.byte.ntfs_rl_pwrite_ok [OF v(1) v(2) [unfolded usb_live_def] v(3) b n, of 0 rl vol p 0 un] v(4) z rl at [of p n, OF p(2)]
    by (auto simp: usb_live_def ps3_gekko.byte.follows_def)
  have rd: "rl_read (usb_pread un fd heap) vol rl u (int q) (int n) d = (int n, file_bytes (usb_content fd u) ?bits rl q n)"
    if "usb_valid fd u" "usb_live fd heap u" "usb_size fd u = z" "q + n \<le> L" "length d = n" for u q d
    using ps3_gekko.byte.ntfs_rl_pread_ok [OF that(1) that(2) [unfolded usb_live_def] that(5) n, of rl vol q 0 un] that(3,4) z rl at(1) [of q n]
    by (auto simp: rl_read_def)
  have "rl_write (usb_pwrite un fd heap) (usb_sync un fd) vol rl pos b v = (int n, v')" using w(1) b by (simp add: rl_write_def p(1))
  moreover have "rl_read (usb_pread un fd heap) vol rl v' pos (int n) d = (int n, b)" if "length d = n" for d
  proof -
    have "file_bytes (usb_content fd v') ?bits rl p n = b"
    proof (rule nth_equalityI)
      show "file_bytes (usb_content fd v') ?bits rl p n ! i = b ! i" if "i < length (file_bytes (usb_content fd v') ?bits rl p n)" for i
        using that w(7) clusters(3) [of "p + i"] p(2) by (auto simp: file_bytes_def file_byte_def)
    qed (simp add: b)
    then show ?thesis using rd [OF w(2,3,5) p(2) that] p(1) by simp
  qed
  moreover have "rl_read (usb_pread un fd heap) vol rl v' q (int n) d = rl_read (usb_pread un fd heap) vol rl v q (int n) d"
    if q: "q \<in> {pos. 0 \<le> pos \<and> pos + int n \<le> int L}" "pos + int n \<le> q \<or> q + int n \<le> pos" "length d = n" for q d
  proof -
    obtain k where k: "q = int k" "k + n \<le> L" "p + n \<le> k \<or> k + n \<le> p" using q(1,2) p(1) zero_le_imp_eq_int [of q] by auto
    have "file_bytes (usb_content fd v') ?bits rl k n = file_bytes (usb_content fd v) ?bits rl k n"
    proof (rule nth_equalityI)
      fix i assume i: "i < length (file_bytes (usb_content fd v') ?bits rl k n)"
      then obtain x where x: "phys ?bits rl (k + i) = Some x" using clusters(3) [of "k + i"] k(2) by auto
      have "phys ?bits rl j \<noteq> Some x" if "p \<le> j" "j < p + n" for j
      proof
        assume "phys ?bits rl j = Some x"
        then have "j = k + i" using clusters(2) x i k(2) p(2) that unfolding alias_free_def by (simp del: add_gr_0)
        then show False using that k(3) i by simp
      qed
      then show "file_bytes (usb_content fd v') ?bits rl k n ! i = file_bytes (usb_content fd v) ?bits rl k n ! i"
        using w(6) x i by (simp add: file_bytes_def file_byte_def)
    qed simp
    then show ?thesis using rd [OF w(2,3,5) k(2) q(3)] rd [OF v(1,2,4) k(2) q(3)] k(1) by simp
  qed
  ultimately show "\<exists>w'. io_write calls pos b v = (int n, w') \<and> (usb_valid fd w' \<and> usb_live fd heap w' \<and> \<not> NDevReadOnly w' \<and> usb_size fd w' = z)
      \<and> (\<forall>d. length d = n \<longrightarrow> io_read calls w' pos (int n) d = (int n, b))
      \<and> (\<forall>q \<in> {pos. 0 \<le> pos \<and> pos + int n \<le> int L}. \<forall>d. (pos + int n \<le> q \<or> q + int n \<le> pos) \<and> length d = n \<and> int n \<le> fst (io_read calls v q (int n) d) \<longrightarrow>
          io_read calls w' q (int n) d = io_read calls v q (int n) d)"
    using w(2-5) unfolding reads writes by blast
qed

section \<open>The trees of a split\<close>

lemma index_tree_mono:
  "index_tree rd n ok val h vcn ks \<Longrightarrow> (\<And>z b. rd z = Some b \<Longrightarrow> rd' z = Some b) \<Longrightarrow> index_tree rd' n ok val h vcn ks"
proof (induction rule: index_tree.induct)
  case (leaf vcn b eo es t)
  then show ?case by (intro index_tree.leaf) auto
next
  case (inner vcn b eo es t h kss)
  then show ?case by (intro index_tree.inner [where b = b and eo = eo and t = t]) (auto elim: list_all2_mono)
qed

lemma node_tree_mono:
  assumes "node_tree rd n ok val h es t ks" "\<And>z b. rd z = Some b \<Longrightarrow> rd' z = Some b"
  shows "node_tree rd' n ok val h es t ks"
proof (cases h)
  case (Suc h')
  have "index_tree rd n ok val h' vcn k \<Longrightarrow> index_tree rd' n ok val h' vcn k" for vcn k using index_tree_mono assms(2) by blast
  then have "list_all2 (\<lambda>e ks. index_tree rd n ok val h' (ie_vcn e) ks) es' kss \<Longrightarrow> list_all2 (\<lambda>e ks. index_tree rd' n ok val h' (ie_vcn e) ks) es' kss" for es' kss
    by (erule_tac list_all2_mono) simp
  then show ?thesis using assms(1) unfolding Suc node_tree_def by auto
qed (use assms(1) in \<open>simp add: node_tree_def\<close>)

lemma weave_split: "length kl = length vl \<Longrightarrow> weave (kl @ k # kr) (vl @ v # vr) = weave (kl @ [k]) vl @ v # weave kr vr"
  by (induction kl vl rule: list_induct2) simp_all

lemma weave_replace: "length kl = length vl \<Longrightarrow> weave (kl @ (a @ v # b) # kr) (vl @ vr) = weave (kl @ a # b # kr) (vl @ v # vr)"
proof (induction kl vl rule: list_induct2)
  case Nil
  then show ?case by (cases vr) simp_all
qed simp

lemma in_s64_ie_vcn [simp]: "in_s64 (ie_vcn e)"
  by (simp add: ie_vcn_def)

text \<open>The entries before the median and those after it.\<close>

lemma node_tree_split:
  assumes nt: "node_tree rd n ok val h (es @ m # es') t ks" and t: "entry_ok t" "is_last t"
  obtains kl kr where "ks = kl @ val (ie_key m) # kr" "node_tree rd n ok val h es (cut_last m t) kl" "node_tree rd n ok val h es' t kr"
proof (cases h)
  case 0
  have k: "keys_ok ok (es @ m # es')" "\<forall>e \<in> set (es @ m # es' @ [t]). \<not> is_node e" "ks = map (\<lambda>e. val (ie_key e)) (es @ m # es')"
    using nt unfolding 0 node_tree_def by auto
  then have "cut_last m t = t" by (simp add: cut_last_def)
  then show ?thesis using k by (intro that [of "map (\<lambda>e. val (ie_key e)) es" "map (\<lambda>e. val (ie_key e)) es'"]) (auto simp: node_tree_def 0 keys_ok_def)
next
  case (Suc h')
  let ?P = "\<lambda>e ks. index_tree rd n ok val h' (ie_vcn e) ks" and ?v = "\<lambda>e. val (ie_key e)"
  obtain kss where k: "keys_ok ok (es @ m # es')" "\<forall>e \<in> set (es @ m # es' @ [t]). is_node e \<and> 0 \<le> ie_vcn e"
    "list_all2 ?P (es @ m # es' @ [t]) kss" "ks = weave kss (map ?v (es @ m # es'))"
    using nt unfolding Suc node_tree_def by auto
  obtain kl km kr where kk: "kss = kl @ km # kr" "list_all2 ?P es kl" "?P m km" "list_all2 ?P (es' @ [t]) kr"
    using k(3) unfolding list_all2_append1 [of ?P es] list_all2_Cons1 by blast
  have tn: "is_node t" using k(2) by simp
  have c: "ie_vcn (cut_last m t) = ie_vcn m" "is_node (cut_last m t)" using with_vcn_fields(3,5) [OF t(1) tn] tn by (simp_all add: cut_last_def)
  have "ks = weave (kl @ [km]) (map ?v es) @ ?v m # weave kr (map ?v es')"
    unfolding k(4) kk(1) map_append list.map using list_all2_lengthD [OF kk(2)] by (intro weave_split) simp
  moreover have "node_tree rd n ok val h es (cut_last m t) (weave (kl @ [km]) (map ?v es))"
    unfolding Suc node_tree_def using k(1,2) kk(2,3) c by (auto simp: keys_ok_def intro!: exI [of _ "kl @ [km]"] list_all2_appendI)
  moreover have "node_tree rd n ok val h es' t (weave kr (map ?v es'))"
    unfolding Suc node_tree_def using k(1,2) kk(4) by (auto simp: keys_ok_def)
  ultimately show ?thesis by (rule that)
qed

text \<open>The parent of the block that is split, as one list of entries.\<close>

definition inner_node :: "(int \<Rightarrow> bytes option) \<Rightarrow> nat \<Rightarrow> (bytes \<Rightarrow> bool) \<Rightarrow> (bytes \<Rightarrow> 'k) \<Rightarrow> nat \<Rightarrow> bytes list \<Rightarrow> 'k list list \<Rightarrow> bool" where
  "inner_node rd n ok val h full kss \<longleftrightarrow> keys_ok ok (butlast full) \<and> (\<forall>e \<in> set full. is_node e \<and> 0 \<le> ie_vcn e)
     \<and> list_all2 (\<lambda>e ks. index_tree rd n ok val h (ie_vcn e) ks) full kss"

lemma inner_node_tree:
  "full \<noteq> [] \<Longrightarrow> inner_node rd n ok val h full kss \<Longrightarrow>
   node_tree rd n ok val (Suc h) (butlast full) (last full) (weave kss (map (\<lambda>e. val (ie_key e)) (butlast full)))"
  by (auto simp: inner_node_def node_tree_def)

lemma keys_ok_butlast:
  assumes "keys_ok ok (butlast (es @ e # es'))" "key_entry e \<Longrightarrow> key_entry e'" "ie_key e' = ie_key e" "key_entry x" "ok (ie_key x)"
  shows "keys_ok ok (butlast (es @ x # e' # es'))"
  using assms by (cases es' rule: rev_cases) (auto simp: keys_ok_def butlast_append)

lemma inner_node_split:
  assumes "list_all2 (\<lambda>e ks. index_tree rd n ok val h (ie_vcn e) ks) es kl" "list_all2 (\<lambda>e ks. index_tree rd n ok val h (ie_vcn e) ks) es' kr"
    and "keys_ok ok (butlast (es @ e # es'))" "\<forall>e \<in> set (es @ e # es'). is_node e \<and> 0 \<le> ie_vcn e" "entry_ok e"
    and "up_entry m x cv" "0 \<le> cv" "ok (ie_key m)" and "in_s64 nv" "0 \<le> nv"
    and "index_tree rd n ok val h cv a" "index_tree rd n ok val h nv b"
  shows "inner_node rd n ok val h (es @ x # with_vcn nv e # es') (kl @ a # b # kr)"
    "weave (kl @ a # b # kr) (map (\<lambda>e. val (ie_key e)) (butlast (es @ x # with_vcn nv e # es')))
     = weave (kl @ (a @ val (ie_key m) # b) # kr) (map (\<lambda>e. val (ie_key e)) (butlast (es @ e # es')))"
proof -
  have e: "is_node e" using assms(4) by simp
  note f = with_vcn_fields [OF assms(5) e, of nv]
  have key: "ie_key (with_vcn nv e) = ie_key e \<and> (key_entry e \<longrightarrow> key_entry (with_vcn nv e))" if "es' \<noteq> []"
    using assms(3) that f(6) by (auto simp: keys_ok_def butlast_append)
  have "keys_ok ok (butlast (es @ x # with_vcn nv e # es'))"
    using assms(3,6,8) key by (cases es' rule: rev_cases) (auto simp: keys_ok_def butlast_append up_entry_def)
  then show "inner_node rd n ok val h (es @ x # with_vcn nv e # es') (kl @ a # b # kr)"
    using assms f(3,5) by (auto simp: inner_node_def up_entry_def intro!: list_all2_appendI)
  have k: "map (\<lambda>e. val (ie_key e)) (butlast (es @ x # with_vcn nv e # es')) = map (\<lambda>e. val (ie_key e)) es @ val (ie_key m) # map (\<lambda>e. val (ie_key e)) (butlast (e # es'))"
    using assms(6) key by (auto simp: butlast_append up_entry_def)
  have "map (\<lambda>e. val (ie_key e)) (butlast (es @ e # es')) = map (\<lambda>e. val (ie_key e)) es @ map (\<lambda>e. val (ie_key e)) (butlast (e # es'))"
    by (simp add: butlast_append)
  then show "weave (kl @ a # b # kr) (map (\<lambda>e. val (ie_key e)) (butlast (es @ x # with_vcn nv e # es')))
     = weave (kl @ (a @ val (ie_key m) # b) # kr) (map (\<lambda>e. val (ie_key e)) (butlast (es @ e # es')))"
    unfolding k using weave_replace [of kl "map (\<lambda>e. val (ie_key e)) es" a "val (ie_key m)" b kr] list_all2_lengthD [OF assms(1)] by simp
qed

lemma block_at_tree:
  "block_at rd n vcn b eo es t \<Longrightarrow> (h \<noteq> 0 \<longrightarrow> unat (b ! 36) mod 2 = 1) \<Longrightarrow> node_tree rd n ok val h es t ks \<Longrightarrow> index_tree rd n ok val h vcn ks"
  unfolding index_tree_iff block_of_def block_at_def by blast

text \<open>\<open>ntfs_ib_insert\<close> into a parent with room.\<close>

lemma ib_insert_ok:
  assumes calls: "store_law calls n P sound" "io_room calls" "sound (is_dev v)" "ntfs_ib_vcn_to_pos icx pv \<in> P" and n: "icx_block_size icx = n" "48 \<le> n" "n < 2 ^ 32"
    and path: "ntfs_icx_parent_vcn icx = Some pv" "ntfs_icx_parent_pos icx = Some (length es)"
    and parent: "block_at (store_blocks calls icx v) n pv pb eo (butlast (es @ e # es')) (last (es @ e # es'))" and e: "is_node e"
    and m: "lies_at src p m" "key_entry m" "length m + 8 < 65536" and room: "eo + length (concat (es @ e # es')) + length m + 8 \<le> n - 24" and nv: "in_s64 nv"
  obtains b' x v' where "ntfs_ib_insert calls src p nv icx v = Some (STATUS_OK, icx, v')" "up_entry m x (ie_vcn e)" "is_bmp v' = is_bmp v" "sound (is_dev v')"
    "block_at (store_blocks calls icx v') n pv b' eo (butlast (es @ x # with_vcn nv e # es')) (last (es @ x # with_vcn nv e # es'))" "b' ! 36 = pb ! 36"
    "\<forall>z x. ntfs_ib_vcn_to_pos icx z \<in> P \<longrightarrow> apart icx z pv \<longrightarrow> store_blocks calls icx v z = Some x \<longrightarrow> store_blocks calls icx v' z = Some x"
proof -
  have pb: "in_s64 pv" "store_blocks calls icx v pv = Some pb" "is_block pb pv n" "node_of pb 24 eo (es @ e # es')" "length pb = n" "usa_ok pb eo n"
    using parent by (simp_all add: block_at_def node_of_def is_block_def)
  have mk: "entry_ok m" using m(2) by (simp add: key_entry_def)
  have node: "node_at pb 24 eo (butlast (es @ e # es')) (last (es @ e # es'))" using pb(4) by (simp add: node_of_def)
  have len: "eo + length (concat (butlast (es @ e # es')) @ last (es @ e # es')) = eo + length (concat (es @ e # es'))"
    by (subst concat_butlast) simp_all
  have rd: "store_read calls icx v pv = Some (Some pb)" by (rule store_read_ok [OF pb(2,3,1) n])
  have a: "fetch32 pb 32 = Some (n - 24)" using pb(3) n fetch32_lies [of pb 32 "n - 24"] by (simp add: is_block_def)
  let ?l = "if is_node m then length m else length m + 8"
  have c: "?l < 65536" "24 + eo + length (concat (es @ e # es')) + ?l \<le> length pb" "eo + length (concat (es @ e # es')) + ?l < 2 ^ 32"
    using m(3) room n(2,3) pb(5) by auto
  obtain b' x where b': "ntfs_ih_insert True (io_junk calls) pb 24 src p nv (length es) = Some (False, b')" "up_entry m x (ie_vcn e)"
    "node_of b' 24 eo (es @ x # with_vcn nv e # es')" "length b' = n" "\<forall>i. i < 24 \<or> 24 + 8 \<le> i \<and> i < 24 + eo \<longrightarrow> i < n \<longrightarrow> b' ! i = pb ! i"
    using ih_insert_ok [OF pb(4) e m(1,2) c nv, of "io_junk calls"] unfolding pb(5) by blast
  have eo: "16 \<le> eo" using node by (simp add: node_at_def)
  have ck: "chunk i k b' = chunk i k pb" if "i + k \<le> 24 \<or> 32 \<le> i \<and> i + k \<le> 40" for i k
    by (rule nth_equalityI) (use that b'(4,5) pb(5) eo in \<open>auto simp: nth_chunk\<close>)
  have blk: "is_block b' pv n" using pb(3,5) b'(4) ck [of 0 4] ck [of 16 8] ck [of 32 4] by (simp add: is_block_def lies_at_def)
  have usa: "usa_ok b' eo n" using pb(5) n(2) by (intro usa_ok_same [OF pb(6) b'(4)] ck) simp
  have node': "node_at b' 24 eo (butlast (es @ x # with_vcn nv e # es')) (last (es @ x # with_vcn nv e # es'))" using b'(3) by (simp add: node_of_def)
  obtain r v' where v': "store_write calls icx b' v = Some (False, r, v')" "is_bmp v' = is_bmp v" "sound (is_dev v')"
    "block_at (store_blocks calls icx v') n pv r eo (butlast (es @ x # with_vcn nv e # es')) (last (es @ x # with_vcn nv e # es'))" "r ! 36 = b' ! 36"
    "\<forall>z x. ntfs_ib_vcn_to_pos icx z \<in> P \<longrightarrow> apart icx z pv \<longrightarrow> store_blocks calls icx v z = Some x \<longrightarrow> store_blocks calls icx v' z = Some x"
    using store_write_ok [OF calls(1,3) n(1) blk pb(1) usa node' calls(4)] by metis
  have small: "\<not> eo + length (concat (es @ e # es')) + length m + 8 > n - 24" using room by simp
  have "ntfs_ib_insert calls src p nv icx v = Some (STATUS_OK, icx, v')"
    by (subst ntfs_ib_insert.simps)
      (simp only: calls(2) simp_thms if_False if_True path bind.bind_lunit rd option.case node_header(2) [OF node] len a entry_fields(1) [OF m(1) mk] small b'(1) v'(1) prod.case)
  moreover have "r ! 36 = pb ! 36" using b'(5) n(2) eo v'(5) by simp
  ultimately show ?thesis using that b'(2) v'(2,3,4,6) by blast
qed

text \<open>The writes of a split: the new block \<open>d\<close>, the parent \<open>b'\<close> and the block \<open>c'\<close> that was split, in this order.\<close>

lemma ib_split_ok:
  assumes calls: "store_law calls n P sound" "io_room calls" "sound (is_dev v)" "ntfs_ib_vcn_to_pos icx ` {pv, cv, nv} \<subseteq> P"
    and n: "icx_block_size icx = n" "n \<le> 65536"
    and path: "1 \<le> icx_pindex icx" "get_at (icx_parent_vcn icx) (icx_pindex icx - 1) = Some pv" "get_at (icx_parent_pos icx) (icx_pindex icx - 1) = Some (length as)"
      "pv \<noteq> VCN_INDEX_ROOT_PARENT"
    and child: "block_at (store_blocks calls icx v) n cv c eo (es @ m # es') t" "length es = length (es @ m # es') div 2" "block_eo n \<le> eo"
      "is_node t \<longrightarrow> is_node m" "length t \<le> length m" "key_entry m" "length m + 8 < 65536"
    and parent: "block_at (store_blocks calls icx v) n pv pb peo (butlast (as @ e # bs)) (last (as @ e # bs))" "is_node e"
    and room: "peo + length (concat (as @ e # bs)) + length m + 8 \<le> n - 24"
    and free: "ntfs_ibm_get_free (io_bitmap calls) icx (is_bmp v) = Some (nv, bmp')" "0 \<le> nv" "in_s64 nv" "apart icx nv cv" "apart icx nv pv" "apart icx cv pv"
  obtains b' c' d x v' where
    "ntfs_ib_split calls c icx v = Some (STATUS_OK, c', icx\<lparr>icx_pindex := icx_pindex icx - 1\<rparr>, v')" "is_bmp v' = bmp'" "up_entry m x (ie_vcn e)"
    "block_at (store_blocks calls icx v') n nv d (block_eo n) es' t" "unat (d ! 36) mod 2 = unat (c ! 36) mod 2"
    "block_at (store_blocks calls icx v') n pv b' peo (butlast (as @ x # with_vcn nv e # bs)) (last (as @ x # with_vcn nv e # bs))" "b' ! 36 = pb ! 36"
    "block_at (store_blocks calls icx v') n cv c' eo es (cut_last m t)" "c' ! 36 = c ! 36"
    "\<forall>z b. others calls icx v P [pv, cv, nv] z = Some b \<longrightarrow> store_blocks calls icx v' z = Some b"
proof -
  let ?icx = "icx\<lparr>icx_pindex := icx_pindex icx - 1\<rparr>" and ?p = "24 + eo + length (concat es)"
  have P: "ntfs_ib_vcn_to_pos icx pv \<in> P" "ntfs_ib_vcn_to_pos icx cv \<in> P" "ntfs_ib_vcn_to_pos icx nv \<in> P" using calls(4) by simp_all
  have c: "in_s64 cv" "store_blocks calls icx v cv = Some c" "is_block c cv n" "node_at c 24 eo (es @ m # es') t" "length c = n" "usa_ok c eo n"
    using child(1) by (simp_all add: block_at_def is_block_def)
  have sectors: "n mod 512 = 0" using c(6) by (simp add: usa_ok_def mst_layout_def mst_bad_header_def NTFS_BLOCK_SIZE_def)
  have "16 \<le> peo" using parent(1) by (simp add: block_at_def node_at_def)
  then have "24 \<le> n - 24" using room by linarith
  then have big: "48 \<le> n" by linarith
  have dec: "ntfs_icx_parent_dec icx = (None, ?icx)" using path(1) by (simp add: ntfs_icx_parent_dec_def)
  have med: "ntfs_ie_get_median c 24 = Some ?p"
    using get_median_ok [OF c(4)] unfolding child(2) [symmetric] by (simp only: entry_pos_append)
  have gf: "ntfs_ibm_get_free (io_bitmap calls) ?icx (is_bmp v) = Some (nv, bmp')"
    using free(1) by simp
  let ?v1 = "v\<lparr>is_bmp := bmp'\<rparr>"
  have sb1: "store_blocks calls icx ?v1 = store_blocks calls icx v" by (simp add: store_blocks_def fun_eq_iff)
  obtain d where d: "ntfs_ib_copy_tail True (store_write calls icx) n c ?p nv ?v1 = map_option (\<lambda>(failed, dst, v). (failed, v)) (store_write calls icx d ?v1)"
    "node_at d 24 (block_eo n) es' t" "is_block d nv n" "usa_ok d (block_eo n) n" "unat (d ! 36) mod 2 = unat (c ! 36) mod 2"
    using copy_tail_ok [OF c(4,5) n(2) child(3) refl sectors, where ib_write = "store_write calls icx" and vcn = nv and v = ?v1] by blast
  obtain d' v2 where v2: "store_write calls icx d ?v1 = Some (False, d', v2)" "is_bmp v2 = bmp'" "sound (is_dev v2)"
    "block_at (store_blocks calls icx v2) n nv d' (block_eo n) es' t" "d' ! 36 = d ! 36"
    "\<forall>z x. ntfs_ib_vcn_to_pos icx z \<in> P \<longrightarrow> apart icx z nv \<longrightarrow> store_blocks calls icx v z = Some x \<longrightarrow> store_blocks calls icx v2 z = Some x"
    using store_write_ok [OF calls(1) _ n(1) d(3) free(3) d(4,2) P(3), of ?v1] calls(3) sb1 by (auto, metis)
  have pv2: "block_at (store_blocks calls ?icx v2) n pv pb peo (butlast (as @ e # bs)) (last (as @ e # bs))"
    using parent(1) v2(6) free(5) P(1) by (simp add: block_at_def apart_sym)
  have nn: "icx_block_size ?icx = n" and pp: "ntfs_icx_parent_vcn ?icx = Some pv" "ntfs_icx_parent_pos ?icx = Some (length as)"
    using n(1) path(2,3) by (simp_all add: ntfs_icx_parent_vcn_def ntfs_icx_parent_pos_def)
  have n3: "n < 2 ^ 32" using n(2) by simp
  have med_at: "lies_at c ?p m" using node_split [OF c(4)] by simp
  have Pv: "ntfs_ib_vcn_to_pos ?icx pv \<in> P" using P(1) by simp
  obtain b' x v3 where v3: "ntfs_ib_insert calls c ?p nv ?icx v2 = Some (STATUS_OK, ?icx, v3)" "up_entry m x (ie_vcn e)" "is_bmp v3 = is_bmp v2" "sound (is_dev v3)"
    "block_at (store_blocks calls icx v3) n pv b' peo (butlast (as @ x # with_vcn nv e # bs)) (last (as @ x # with_vcn nv e # bs))" "b' ! 36 = pb ! 36"
    "\<forall>z x. ntfs_ib_vcn_to_pos icx z \<in> P \<longrightarrow> apart icx z pv \<longrightarrow> store_blocks calls icx v2 z = Some x \<longrightarrow> store_blocks calls icx v3 z = Some x"
    by (rule ib_insert_ok [OF calls(1,2) v2(3) Pv nn big n3 pp pv2 parent(2) med_at child(6,7) room free(3), unfolded pindex_irrelevant])
  obtain c1 where c1: "ntfs_ib_cut_tail (store_write calls icx) c ?p v3 = store_write calls icx c1 v3"
    "node_at c1 24 eo es (cut_last m t)" "is_block c1 cv n" "c1 ! 36 = c ! 36" "usa_ok c1 eo n"
    using cut_tail_ok [OF c(4) child(4,5) refl] c(3,5,6) by metis
  obtain c' v4 where v4: "store_write calls icx c1 v3 = Some (False, c', v4)" "is_bmp v4 = is_bmp v3"
    "block_at (store_blocks calls icx v4) n cv c' eo es (cut_last m t)" "c' ! 36 = c1 ! 36"
    "\<forall>z x. ntfs_ib_vcn_to_pos icx z \<in> P \<longrightarrow> apart icx z cv \<longrightarrow> store_blocks calls icx v3 z = Some x \<longrightarrow> store_blocks calls icx v4 z = Some x"
    using store_write_ok [OF calls(1) v3(4) n(1) c1(3) c(1) c1(5,2) P(2)] by (auto, metis)
  have f1: "ntfs_ib_split calls c icx v = Some (STATUS_OK, c', ?icx, v4)"
    using free(2) path(4) nn calls(2) d(1) v3(1) c1(1) by (subst ntfs_ib_split.simps) (simp add: dec med free(1) v2(1) v4(1) pp(1) Let_def)
  have f2: "block_at (store_blocks calls icx v4) n nv d' (block_eo n) es' t"
    using v4(5) v3(7) v2(4) free(4,5) P(3) by (simp add: block_at_def)
  have f3: "block_at (store_blocks calls icx v4) n pv b' peo (butlast (as @ x # with_vcn nv e # bs)) (last (as @ x # with_vcn nv e # bs))"
    using v4(5) v3(5) free(6) P(1) by (simp add: block_at_def apart_sym)
  have f5: "\<forall>z b. others calls icx v P [pv, cv, nv] z = Some b \<longrightarrow> store_blocks calls icx v4 z = Some b"
    using v4(5) v3(7) v2(6) by (simp add: others_def)
  have "is_bmp v4 = bmp'" using v2(2) v3(3) v4(2) by simp
  then show ?thesis using that [OF f1 _ v3(2) f2 _ f3 v3(6) v4(3) _ f5] d(5) v2(5) v4(4) c1(4) by simp
qed

lemma get_free_ok:
  assumes icx: "icx_block_size icx = 2 ^ k * 2 ^ icx_vcn_size_bits icx" and small: "int (8 * length bm + 8) * int (icx_block_size icx) < 2 ^ 63" "length bm < 2 ^ 32 - 8"
    and bm: "length bm mod 8 = 0" and io: "bi_grows io" "bi_readall io" "\<forall>b p. bi_pread io b p \<and> bi_pwrite io b p"
  shows "\<exists>bm'. ntfs_ibm_get_free io icx (Some bm) = Some (ntfs_ibm_pos_to_vcn icx (int (free_pos bm 0)), Some bm')
    \<and> \<not> bit_at bm (free_pos bm 0) \<and> (\<forall>p. bit_at bm' p \<longleftrightarrow> p = free_pos bm 0 \<or> bit_at bm p)
    \<and> ntfs_ibm_pos_to_vcn icx (int (free_pos bm 0)) = int (free_pos bm 0) * 2 ^ k
    \<and> (length bm' = length bm \<or> length bm' = length bm + 8 \<and> free_pos bm 0 = 8 * length bm)"
proof -
  let ?p = "free_pos bm 0" and ?B = "int (icx_block_size icx)"
  have f: "\<not> bit_at bm ?p" "?p \<le> 8 * length bm" using free_pos_ok [of bm 0] by simp_all
  have B: "0 < ?B" "?B = 2 ^ k * 2 ^ icx_vcn_size_bits icx" using icx by simp_all
  have pB: "int ?p * ?B < 2 ^ 63"
  proof -
    have "int ?p * ?B \<le> int (8 * length bm + 8) * ?B" using f(2) B(1) by (intro mult_right_mono) auto
    then show ?thesis using small by linarith
  qed
  have "0 \<le> int ?p * ?B" by simp
  then have s: "s64 (int ?p * ?B) = int ?p * ?B" using pB by (intro s64_id) (unfold in_s64_def, linarith)
  have vcn: "ntfs_ibm_pos_to_vcn icx (int ?p) = int ?p * 2 ^ k"
    unfolding ntfs_ibm_pos_to_vcn_def ntfs_ib_pos_to_vcn_def s using B(2) by simp
  have rt: "ntfs_ibm_vcn_to_pos icx (int ?p * 2 ^ k) = int ?p"
  proof -
    have "int ?p * 2 ^ k * 2 ^ icx_vcn_size_bits icx = int ?p * ?B" using B(2) by (simp add: mult.assoc)
    then have q: "ntfs_ib_vcn_to_pos icx (int ?p * 2 ^ k) = int ?p * ?B" using s by (simp only: ntfs_ib_vcn_to_pos_def)
    have "\<not> int ?p * ?B < 0" by (simp add: not_less)
    then show ?thesis unfolding ntfs_ibm_vcn_to_pos_def q c_div_def using B(1) by simp
  qed
  have u: "u32i (c_div (int ?p) 8) = ?p div 8"
    using f(2) small(2) by (subst u32i_id) (auto simp: c_div_def nat_div_distrib)
  have m: "nat (int ?p mod 8) = ?p mod 8" by (simp add: nat_mod_distrib)
  define b where "b = (if length bm < ?p div 8 + 1 then bm @ replicate ((length bm + 8) div 8 * 8 - length bm) 0 else bm)"
  have l: "?p div 8 < length b" and lb: "length b = length bm \<or> length b = length bm + 8 \<and> ?p = 8 * length bm"
    using f(2) bm by (auto simp: b_def mult.commute)
  have bits: "bit_at b q = bit_at bm q" for q by (auto simp: b_def bit_at_def nth_append)
  define bm' where "bm' = b[?p div 8 := b ! (?p div 8) OR push_bit (?p mod 8) 1]"
  have one: "bit (push_bit (?p mod 8) 1 :: u8) (q mod 8) \<longleftrightarrow> q mod 8 = ?p mod 8" for q
    by (auto simp: bit_push_bit_iff bit_1_iff simp del: push_bit_of_1)
  have bt: "bit_at bm' q \<longleftrightarrow> q = ?p \<or> bit_at bm q" for q
  proof (cases "q div 8 = ?p div 8")
    case True
    then have "q = ?p \<longleftrightarrow> q mod 8 = ?p mod 8" by (metis div_mult_mod_eq)
    then show ?thesis unfolding bits [of q, symmetric] unfolding bm'_def bit_at_def using True l by (simp add: bit_or_iff one disj_commute del: push_bit_of_1)
  next
    case False
    then have "q \<noteq> ?p" by auto
    then show ?thesis unfolding bits [of q, symmetric] unfolding bm'_def bit_at_def using False by simp
  qed
  moreover have "ntfs_ibm_get_free io icx (Some bm) = Some (ntfs_ibm_pos_to_vcn icx (int ?p), Some bm')"
    using l io unfolding ntfs_ibm_get_free_def ntfs_ibm_set_def ntfs_ibm_modify_def vcn rt u m Let_def option.case bm'_def b_def by simp
  moreover have "length bm' = length b" by (simp add: bm'_def)
  ultimately show ?thesis using f(1) vcn lb bt by auto
qed

section \<open>Properties\<close>

text \<open>
  C37. The block that \<open>ntfs_ibm_get_free\<close> returns was free in the bitmap, is in use afterwards, and nothing else in the bitmap has changed; a bitmap that is
  full grows by 8 bytes.
\<close>

theorem free_block_taken:
  assumes icx: "icx_block_size icx = 2 ^ k * 2 ^ icx_vcn_size_bits icx" and small: "int (8 * length bm + 8) * int (icx_block_size icx) < 2 ^ 63" "length bm < 2 ^ 32 - 8"
    and bm: "length bm mod 8 = 0" and io: "bi_grows io" "bi_readall io" "\<forall>b p. bi_pread io b p \<and> bi_pwrite io b p"
  shows "\<exists>bm'. ntfs_ibm_get_free io icx (Some bm) = Some (ntfs_ibm_pos_to_vcn icx (int (free_pos bm 0)), Some bm')
    \<and> \<not> bit_at bm (free_pos bm 0) \<and> (\<forall>p. bit_at bm' p \<longleftrightarrow> p = free_pos bm 0 \<or> bit_at bm p)
    \<and> ntfs_ibm_pos_to_vcn icx (int (free_pos bm 0)) = int (free_pos bm 0) * 2 ^ k
    \<and> (length bm' = length bm \<or> length bm' = length bm + 8 \<and> free_pos bm 0 = 8 * length bm)"
  by (rule get_free_ok [OF assms])

definition good_bitmap :: bitmap_io where
  "good_bitmap = \<lparr>bi_grows = True, bi_readall = True, bi_pread = (\<lambda>b p. True), bi_pwrite = (\<lambda>b p. True)\<rparr>"

theorem free_block_taken_witness:
  "\<exists>bm'. ntfs_ibm_get_free good_bitmap (fresh_icx\<lparr>icx_block_size := 512, icx_vcn_size_bits := 9\<rparr>) (Some [255, 255, 255, 255, 255, 255, 255, 255]) = Some (64, Some bm')
    \<and> (\<forall>p. bit_at bm' p \<longleftrightarrow> p = 64 \<or> bit_at [255, 255, 255, 255, 255, 255, 255, 255] p)"
  using free_block_taken [of "fresh_icx\<lparr>icx_block_size := 512, icx_vcn_size_bits := 9\<rparr>" 0 "[255, 255, 255, 255, 255, 255, 255, 255]" good_bitmap]
  by (auto simp: good_bitmap_def)

text \<open>
  C10. \<open>ntfs_ib_split\<close> of a block whose parent has room, on sound storage, where blocks are written by \<open>ntfs_attr_mst_pwrite\<close>: the tree below the parent
  holds the same keys after the split, in the same order; all that changes among the blocks of the index are the block, its parent and the new block, which is
  the one \<open>ntfs_ibm_get_free\<close> has taken from the bitmap; and the buffer of the caller is the block as it is then read from storage, with its new update
  sequence number. The update sequence arrays lie before the entries. The lemma \<open>runlist_store_law\<close> shows that attributes with a run list are such storage.
\<close>

theorem split_keeps_keys:
  assumes calls: "store_law calls n P sound" "io_room calls" "sound (is_dev v)" "ntfs_ib_vcn_to_pos icx ` {pv, cv, nv} \<subseteq> P"
    and n: "icx_block_size icx = n" "n \<le> 65536"
    and path: "1 \<le> icx_pindex icx" "get_at (icx_parent_vcn icx) (icx_pindex icx - 1) = Some pv" "get_at (icx_parent_pos icx) (icx_pindex icx - 1) = Some (length as)"
      "pv \<noteq> VCN_INDEX_ROOT_PARENT"
    and child: "block_at (store_blocks calls icx v) n cv c eo (es @ m # es') t" "length es = length (es @ m # es') div 2" "block_eo n \<le> eo"
      "length t \<le> length m" "length m + 8 < 65536" "h \<noteq> 0 \<longrightarrow> unat (c ! 36) mod 2 = 1"
      "node_tree (others calls icx v P [pv, cv, nv]) n ok val h (es @ m # es') t ks"
    and parent: "block_at (store_blocks calls icx v) n pv pb peo (butlast (as @ e # bs)) (last (as @ e # bs))" "unat (pb ! 36) mod 2 = 1"
      "keys_ok ok (butlast (as @ e # bs))" "\<forall>e \<in> set (as @ e # bs). is_node e \<and> 0 \<le> ie_vcn e" "ie_vcn e = cv"
      "list_all2 (\<lambda>e ks. index_tree (others calls icx v P [pv, cv, nv]) n ok val h (ie_vcn e) ks) (as @ bs) (kl @ kr)" "length kl = length as"
    and room: "peo + length (concat (as @ e # bs)) + length m + 8 \<le> n - 24"
    and free: "ntfs_ibm_get_free (io_bitmap calls) icx (is_bmp v) = Some (nv, bmp')" "0 \<le> nv" "in_s64 nv" "apart icx nv cv" "apart icx nv pv" "apart icx cv pv"
  shows "\<exists>c' v'. ntfs_ib_split calls c icx v = Some (STATUS_OK, c', icx\<lparr>icx_pindex := icx_pindex icx - 1\<rparr>, v') \<and> is_bmp v' = bmp' \<and> store_blocks calls icx v' cv = Some c'
    \<and> index_tree (store_blocks calls icx v') n ok val (Suc h) pv (weave (kl @ ks # kr) (map (\<lambda>e. val (ie_key e)) (butlast (as @ e # bs))))
    \<and> (\<forall>z b. others calls icx v P [pv, cv, nv] z = Some b \<longrightarrow> store_blocks calls icx v' z = Some b)"
proof -
  let ?o = "others calls icx v P [pv, cv, nv]"
  have m: "key_entry m" "ok (ie_key m)" using child(7) by (simp_all add: node_tree_def keys_ok_def)
  have mt: "is_node t \<longrightarrow> is_node m" using child(7) by (cases h) (simp_all add: node_tree_def)
  have t: "entry_ok t" "is_last t" using child(1) by (simp_all add: block_at_def node_at_def entries_def)
  have e: "is_node e" "0 \<le> cv" using parent(4,5) by auto
  have eok: "entry_ok e" using parent(1) node_of_entry(2) [of pb 24 peo as e bs] by (simp add: block_at_def node_of_def)
  obtain b' c' d x v' where s: "ntfs_ib_split calls c icx v = Some (STATUS_OK, c', icx\<lparr>icx_pindex := icx_pindex icx - 1\<rparr>, v')" "is_bmp v' = bmp'" "up_entry m x (ie_vcn e)"
    "block_at (store_blocks calls icx v') n nv d (block_eo n) es' t" "unat (d ! 36) mod 2 = unat (c ! 36) mod 2"
    "block_at (store_blocks calls icx v') n pv b' peo (butlast (as @ x # with_vcn nv e # bs)) (last (as @ x # with_vcn nv e # bs))" "b' ! 36 = pb ! 36"
    "block_at (store_blocks calls icx v') n cv c' eo es (cut_last m t)" "c' ! 36 = c ! 36"
    "\<forall>z b. ?o z = Some b \<longrightarrow> store_blocks calls icx v' z = Some b"
    by (rule ib_split_ok [OF calls n path child(1-3) mt child(4) m(1) child(5) parent(1) e(1) room free])
  let ?r = "store_blocks calls icx v'"
  have s10: "?o z = Some b \<Longrightarrow> ?r z = Some b" for z b using s(10) by blast
  obtain a b where k: "ks = a @ val (ie_key m) # b" "node_tree ?o n ok val h es (cut_last m t) a" "node_tree ?o n ok val h es' t b"
    using node_tree_split [OF child(7) t] by metis
  have left: "index_tree ?r n ok val h cv a"
    using block_at_tree [OF s(8) _ node_tree_mono [OF k(2) s10]] child(6) s(9) by simp
  have right: "index_tree ?r n ok val h nv b"
    using block_at_tree [OF s(4) _ node_tree_mono [OF k(3) s10]] child(6) s(5) by simp
  have "list_all2 (\<lambda>e ks. index_tree ?r n ok val h (ie_vcn e) ks) (as @ bs) (kl @ kr)"
    by (rule list_all2_mono [OF parent(6)]) (rule index_tree_mono [OF _ s10])
  then have subs: "list_all2 (\<lambda>e ks. index_tree ?r n ok val h (ie_vcn e) ks) as kl" "list_all2 (\<lambda>e ks. index_tree ?r n ok val h (ie_vcn e) ks) bs kr"
    using parent(7) by (simp_all add: list_all2_append)
  note sp = inner_node_split [OF subs parent(3,4) eok s(3) [unfolded parent(5)] e(2) m(2) free(3,2) left right]
  have "index_tree ?r n ok val (Suc h) pv (weave (kl @ a # b # kr) (map (\<lambda>e. val (ie_key e)) (butlast (as @ x # with_vcn nv e # bs))))"
    using block_at_tree [OF s(6) _ inner_node_tree [OF _ sp(1)]] s(7) parent(2) by simp
  moreover have "?r cv = Some c'" using s(8) by (simp add: block_at_def)
  ultimately show ?thesis using s(1,2,10) unfolding sp(2) k(1) by blast
qed

text \<open>An example: the index allocation is an array of three blocks. Block 1 has the names \<open>A\<close>, \<open>B\<close> and \<open>C\<close>, its parent, block 0, only the last entry;
  both are written as the code writes them.\<close>

definition example_read :: "bytes \<Rightarrow> int \<Rightarrow> int \<Rightarrow> bytes \<Rightarrow> int \<times> bytes" where
  "example_read w pos n d = (if 0 \<le> pos \<and> 0 \<le> n \<and> pos + n \<le> int (length w) then (n, chunk (nat pos) (nat n) w @ drop (nat n) d) else (- 1, d))"

definition example_write :: "int \<Rightarrow> bytes \<Rightarrow> bytes \<Rightarrow> int \<times> bytes" where
  "example_write pos b w = (if 0 \<le> pos \<and> pos + int (length b) \<le> int (length w) then (int (length b), blit w (nat pos) b) else (- 1, w))"

definition example_ops :: "bytes index_ops" where
  "example_ops = \<lparr>io_read = example_read, io_write = example_write, io_bitmap = good_bitmap, io_room = True, io_junk = 0,
     io_ir_lookup = (\<lambda>b. None), io_make_space = (\<lambda>n v. (STATUS_ERROR, v))\<rparr>"

definition example_parent :: bytes where
  "example_parent = example_block 0 1 [] (end_node_entry 1)"

definition example_child :: bytes where
  "example_child = example_block 1 0 [name_entry 65, name_entry 66, name_entry 67] end_entry"

definition example_store :: "bytes index_store" where
  "example_store = \<lparr>is_bmp = Some [3, 0, 0, 0, 0, 0, 0, 0], is_rec = [], is_dev = replicate 1536 0\<rparr>"

definition example_icx :: index_context where
  "example_icx = fresh_icx\<lparr>icx_block_size := 512, icx_vcn_size_bits := 9, icx_pindex := 2\<rparr>"

lemma example_pos: "ntfs_ib_vcn_to_pos example_icx 0 = 0" "ntfs_ib_vcn_to_pos example_icx 1 = 512" "ntfs_ib_vcn_to_pos example_icx 2 = 1024"
  by (simp_all add: ntfs_ib_vcn_to_pos_def example_icx_def s64_def)

lemma example_law: "store_law example_ops 512 {0, 512, 1024} (\<lambda>w. length w = 1536)"
  unfolding store_law_def
proof (intro allI ballI impI, elim conjE)
  fix w b :: bytes and pos :: int
  assume "pos \<in> {0, 512, 1024}" and l: "length w = 1536" "length b = 512"
  then have pos: "0 \<le> pos" "pos \<le> 1024" by auto
  let ?w = "blit w (nat pos) b"
  have "io_write example_ops pos b w = (int 512, ?w)" "length ?w = 1536" using l pos by (simp_all add: example_ops_def example_write_def)
  moreover have "\<forall>d. length d = 512 \<longrightarrow> io_read example_ops ?w pos (int 512) d = (int 512, b)"
    using l pos chunk_blit_same [of "nat pos" b w] by (simp add: example_ops_def example_read_def)
  moreover have "io_read example_ops ?w q (int 512) d = io_read example_ops w q (int 512) d"
    if q: "pos + int 512 \<le> q \<or> q + int 512 \<le> pos" "int 512 \<le> fst (io_read example_ops w q (int 512) d)" for q d
  proof -
    have r: "0 \<le> q" "q \<le> 1024" using q(2) l by (auto simp: example_ops_def example_read_def split: if_splits)
    have "chunk (nat q) 512 ?w = chunk (nat q) 512 w" using q(1) r l pos by (intro chunk_blit_other) auto
    then show ?thesis using l pos by (simp add: example_ops_def example_read_def)
  qed
  ultimately show "\<exists>w'. io_write example_ops pos b w = (int 512, w') \<and> length w' = 1536
      \<and> (\<forall>d. length d = 512 \<longrightarrow> io_read example_ops w' pos (int 512) d = (int 512, b))
      \<and> (\<forall>q \<in> {0, 512, 1024}. \<forall>d. (pos + int 512 \<le> q \<or> q + int 512 \<le> pos) \<and> length d = 512 \<and> int 512 \<le> fst (io_read example_ops w q (int 512) d) \<longrightarrow>
        io_read example_ops w' q (int 512) d = io_read example_ops w q (int 512) d)" by blast
qed

lemma example_free: "\<exists>bm'. ntfs_ibm_get_free good_bitmap example_icx (Some [3, 0, 0, 0, 0, 0, 0, 0]) = Some (2, bm')"
proof -
  have "free_pos [3, 0, 0, 0, 0, 0, 0, 0] 0 = 2"
    by (subst free_pos.simps, subst free_bit.simps, subst free_bit.simps, subst free_bit.simps) (simp add: bit_iff_odd)
  then show ?thesis
    using get_free_ok [of example_icx 0 "[3, 0, 0, 0, 0, 0, 0, 0]" good_bitmap] by (auto simp: example_icx_def good_bitmap_def)
qed

theorem split_keeps_keys_witness:
  "\<exists>p v1 c v c' v'. store_write example_ops example_icx example_parent example_store = Some (False, p, v1)
    \<and> store_write example_ops example_icx example_child v1 = Some (False, c, v)
    \<and> ntfs_ib_split example_ops c example_icx v = Some (STATUS_OK, c', example_icx\<lparr>icx_pindex := 1\<rparr>, v')
    \<and> index_tree (store_blocks example_ops example_icx v') 512 name_ok (name_val []) 1 0 [([65], [65]), ([66], [66]), ([67], [67])]"
proof -
  let ?es = "[name_entry 65]" and ?m = "name_entry 66" and ?es' = "[name_entry 67]" and ?e = "end_node_entry 1"
  note ne = name_entry_ok [of 65] name_entry_ok [of 66] name_entry_ok [of 67] and le = end_entry_ok and pe = end_node_entry_ok [of 1]
  have s: "in_s64 0" "in_s64 1" "in_s64 2" by (simp_all add: in_s64_def)
  have icx: "icx_block_size example_icx = 512" "icx_pindex example_icx = 2" "io_room example_ops"
    "get_at (icx_parent_vcn example_icx) (icx_pindex example_icx - 1) = Some 0" "get_at (icx_parent_pos example_icx) (icx_pindex example_icx - 1) = Some (length [])"
    by (simp_all add: example_icx_def fresh_icx_def example_ops_def get_at_def)
  have ap: "apart example_icx 2 1" "apart example_icx 2 0" "apart example_icx 1 0" "apart example_icx 0 1" using example_pos icx by (simp_all add: apart_def)
  have ents: "entries (?es @ ?m # ?es') end_entry" "entries [] ?e" using ne le pe by (auto simp: key_entry_def entries_def)
  have c: "node_at example_child 24 (block_eo 512) (?es @ ?m # ?es') end_entry" "is_block example_child 1 512" "usa_ok example_child (block_eo 512) 512"
    unfolding example_child_def using example_block_ok [of "?es @ ?m # ?es'" end_entry 0 1] ents ne le by (simp_all add: block_eo_512)
  have p: "node_at example_parent 24 (block_eo 512) [] ?e" "is_block example_parent 0 512" "unat (example_parent ! 36) = 1" "usa_ok example_parent (block_eo 512) 512"
    unfolding example_parent_def using example_block_ok [of "[]" ?e 1 0] ents pe by (simp_all add: block_eo_512)
  have dev: "length (is_dev example_store) = 1536" by (simp add: example_store_def)
  obtain pb v1 where v1: "store_write example_ops example_icx example_parent example_store = Some (False, pb, v1)" "is_bmp v1 = is_bmp example_store"
    "length (is_dev v1) = 1536" "block_at (store_blocks example_ops example_icx v1) 512 0 pb (block_eo 512) [] ?e" "pb ! 36 = example_parent ! 36"
    by (rule store_write_ok [OF example_law dev icx(1) p(2) s(1) p(4,1)]) (auto simp: example_pos)
  obtain cb v where v: "store_write example_ops example_icx example_child v1 = Some (False, cb, v)" "is_bmp v = is_bmp v1"
    "length (is_dev v) = 1536" "block_at (store_blocks example_ops example_icx v) 512 1 cb (block_eo 512) (?es @ ?m # ?es') end_entry"
    "\<forall>z x. ntfs_ib_vcn_to_pos example_icx z \<in> {0, 512, 1024} \<longrightarrow> apart example_icx z 1 \<longrightarrow> store_blocks example_ops example_icx v1 z = Some x \<longrightarrow> store_blocks example_ops example_icx v z = Some x"
    by (rule store_write_ok [OF example_law v1(3) icx(1) c(2) s(2) c(3,1)]) (auto simp: example_pos)
  have pos: "ntfs_ib_vcn_to_pos example_icx ` {0, 1, 2} \<subseteq> {0, 512, 1024}" by (simp add: example_pos)
  obtain bm' where free: "ntfs_ibm_get_free (io_bitmap example_ops) example_icx (is_bmp v) = Some (2, bm')"
    using example_free v(2) v1(2) by (auto simp: example_ops_def example_store_def)
  have parent: "block_at (store_blocks example_ops example_icx v) 512 0 pb (block_eo 512) (butlast ([] @ ?e # [])) (last ([] @ ?e # []))"
    using v1(4) v(5) ap(4) by (simp add: block_at_def example_pos)
  have tree: "node_tree (others example_ops example_icx v {0, 512, 1024} [0, 1, 2]) 512 name_ok (name_val []) 0 (?es @ ?m # ?es') end_entry [([65], [65]), ([66], [66]), ([67], [67])]"
    using ne le one_char_val [of 65] one_char_val [of 66] one_char_val [of 67] by (simp add: node_tree_def keys_ok_def)
  have "\<exists>c' v'. ntfs_ib_split example_ops cb example_icx v = Some (STATUS_OK, c', example_icx\<lparr>icx_pindex := 1\<rparr>, v')
    \<and> index_tree (store_blocks example_ops example_icx v') 512 name_ok (name_val []) 1 0 [([65], [65]), ([66], [66]), ([67], [67])]"
    using split_keeps_keys [OF example_law icx(3) v(3) pos icx(1) _ _ icx(4,5) _ v(4) _ _ _ _ _ tree parent _ _ _ _ _ _ _ free _ s(3) ap(1-3), of "[]"]
      p(3) pe s ne le icx(2) v1(5)
    by (auto simp: keys_ok_def VCN_INDEX_ROOT_PARENT_def block_eo_512)
  then show ?thesis using v1(1) v(1) by blast
qed

end
