(* ===== verification/Decompress.thy ===== *)
theory Decompress
  imports NtfsPrelude
begin

text \<open>
  Decompression of NTFS compression blocks, \<open>ntfs_decompress\<close> of \<open>libntfs_ext/source/compress.c\<close>, and the format
  it reads: what the tokens of a sub-block mean (\<open>lz_run\<close>) and how they are stored (\<open>enc\<close>). Positions are offsets
  into the two buffers; a buffer may be longer than the size the code is told, so that accesses past that size can be told from faults.
\<close>

section \<open>The code\<close>

definition NTFS_SB_SIZE :: nat where
  "NTFS_SB_SIZE = 4096"

definition NTFS_SB_SIZE_MASK :: nat where
  "NTFS_SB_SIZE_MASK = 0xfff"

definition NTFS_SB_IS_COMPRESSED :: nat where
  "NTFS_SB_IS_COMPRESSED = 0x8000"

text \<open>The loop that takes the logarithm of a position.\<close>

fun lg_loop :: "nat \<Rightarrow> nat" where
  "lg_loop i = (if i \<ge> 0x10 then Suc (lg_loop (i div 2)) else 0)"

declare lg_loop.simps [simp del]

text \<open>\<open>while (length--) *dest++ = *dest_back_addr++\<close>, and the two ways to copy a phrase.\<close>

primrec copy_bytes :: "nat \<Rightarrow> nat \<Rightarrow> nat \<Rightarrow> bytes \<Rightarrow> bytes option" where
  "copy_bytes 0 back d b = Some b"
| "copy_bytes (Suc n) back d b =
     Option.bind (mem_get b back 1) (\<lambda>x. Option.bind (mem_put b d x) (copy_bytes n (back + 1) (d + 1)))"

definition copy_phrase :: "nat \<Rightarrow> nat \<Rightarrow> nat \<Rightarrow> bytes \<Rightarrow> bytes option" where
  "copy_phrase len max_non_overlap d b =
     (let back = d - max_non_overlap in
      if len \<le> max_non_overlap then Option.bind (mem_get b back len) (mem_put b d)
      else Option.bind (mem_get b back max_non_overlap) (\<lambda>x. Option.bind (mem_put b d x)
             (copy_bytes (len - max_non_overlap) (back + max_non_overlap) (d + max_non_overlap))))"

text \<open>The state after a step, or \<open>goto return_overflow\<close> with the buffer as it is then.\<close>

datatype 'a flow = Go 'a | Overflow bytes

text \<open>One phrase token: \<open>cb\<close> is the source position, \<open>sb\<close> the start of the sub-block in the destination, \<open>d\<close> the
  position there.\<close>

definition phrase :: "bytes \<Rightarrow> nat \<Rightarrow> nat \<Rightarrow> bytes \<Rightarrow> nat \<Rightarrow> (bytes \<times> nat) flow option" where
  "phrase src cb sb b d =
     (if d = sb then Some (Overflow b)
      else let lg = lg_loop (d - sb - 1) in
        (case fetch16 src cb of None \<Rightarrow> None
         | Some pt \<Rightarrow>
             if d < sb + drop_bit (12 - lg) pt + 1 then Some (Overflow b)
             else let len = (pt AND drop_bit lg 0xfff) + 3 in
               if d + len > sb + NTFS_SB_SIZE then Some (Overflow b)
               else map_option (\<lambda>b'. Go (b', d + len)) (copy_phrase len (drop_bit (12 - lg) pt + 1) d b)))"

text \<open>The loop over the eight tokens of a tag, the loop over the tags of a sub-block that ends at \<open>ce\<close>, and the loop
  over the sub-blocks.\<close>

primrec tokens :: "nat \<Rightarrow> nat \<Rightarrow> bytes \<Rightarrow> nat \<Rightarrow> nat \<Rightarrow> nat \<Rightarrow> bytes \<Rightarrow> nat \<Rightarrow> (nat \<times> bytes \<times> nat) flow option" where
  "tokens 0 tag src cb ce sb b d = Some (Go (cb, b, d))"
| "tokens (Suc n) tag src cb ce sb b d =
     (if cb \<ge> ce \<or> d > sb + NTFS_SB_SIZE then Some (Go (cb, b, d))
      else if tag mod 2 = 0 then
        Option.bind (mem_get src cb 1) (\<lambda>x. Option.bind (mem_put b d x) (\<lambda>b'. tokens n (tag div 2) src (cb + 1) ce sb b' (d + 1)))
      else (case phrase src cb sb b d of None \<Rightarrow> None
        | Some (Overflow b') \<Rightarrow> Some (Overflow b')
        | Some (Go (b', d')) \<Rightarrow> tokens n (tag div 2) src (cb + 2) ce sb b' d'))"

lemma tokens_cb: "tokens n tag src cb ce sb b d = Some (Go (cb', b', d')) \<Longrightarrow> cb \<le> cb'"
  by (induction n arbitrary: tag cb b d)
    (fastforce split: if_splits option.splits flow.splits prod.splits simp: Option.bind_eq_Some_conv)+

function tag_loop :: "bytes \<Rightarrow> nat \<Rightarrow> nat \<Rightarrow> nat \<Rightarrow> bytes \<Rightarrow> nat \<Rightarrow> (bytes \<times> nat) flow option" where
  "tag_loop src cb ce sb b d =
     (if cb = ce then Some (Go (b, d))
      else if cb > ce \<or> d > sb + NTFS_SB_SIZE then Some (Overflow b)
      else case mem_get src cb 1 of None \<Rightarrow> None
        | Some t \<Rightarrow> (case tokens 8 (unat (hd t)) src (cb + 1) ce sb b d of None \<Rightarrow> None
            | Some (Overflow b') \<Rightarrow> Some (Overflow b')
            | Some (Go (cb', b', d')) \<Rightarrow> tag_loop src cb' ce sb b' d'))"
  by pat_completeness auto
termination
  by (relation "measure (\<lambda>(src, cb, ce, sb, b, d). ce - cb)") (auto dest: tokens_cb)

declare tag_loop.simps [simp del]

text \<open>The zeroes behind a sub-block that is not full.\<close>

definition fill_sb :: "nat \<Rightarrow> bytes \<Rightarrow> nat \<Rightarrow> (bytes \<times> nat) option" where
  "fill_sb sb b d =
     (if d < sb + NTFS_SB_SIZE then
        map_option (\<lambda>b'. (b', sb + NTFS_SB_SIZE)) (mem_put b d (replicate (sb + NTFS_SB_SIZE - d) 0))
      else Some (b, d))"

function sb_loop :: "bytes \<Rightarrow> nat \<Rightarrow> nat \<Rightarrow> nat \<Rightarrow> bytes \<Rightarrow> nat \<Rightarrow> ((errno + int) \<times> bytes) option" where
  "sb_loop src cb_end dest_end cb b d =
     (if cb = cb_end then Some (Inr 0, b)
      else case fetch16 src cb of None \<Rightarrow> None
        | Some h \<Rightarrow>
            if h = 0 \<or> d = dest_end then Some (Inr 0, b)
            else if d + NTFS_SB_SIZE > dest_end then Some (Inl EOVERFLOW, b)
            else if cb + 6 > cb_end then Some (Inl EOVERFLOW, b)
            else let ce = cb + (h AND NTFS_SB_SIZE_MASK) + 3 in
              if ce > cb_end then Some (Inl EOVERFLOW, b)
              else if (h AND NTFS_SB_IS_COMPRESSED) = 0 then
                (if ce \<noteq> cb + 2 + NTFS_SB_SIZE then Some (Inl EOVERFLOW, b)
                 else case Option.bind (mem_get src (cb + 2) NTFS_SB_SIZE) (mem_put b d) of None \<Rightarrow> None
                   | Some b' \<Rightarrow> sb_loop src cb_end dest_end ce b' (d + NTFS_SB_SIZE))
              else (case tag_loop src (cb + 2) ce d b d of None \<Rightarrow> None
                | Some (Overflow b') \<Rightarrow> Some (Inl EOVERFLOW, b')
                | Some (Go (b', d')) \<Rightarrow> (case fill_sb d b' d' of None \<Rightarrow> None
                    | Some (b'', d'') \<Rightarrow> sb_loop src cb_end dest_end ce b'' d'')))"
  by pat_completeness auto
termination
  by (relation "measure (\<lambda>(src, cb_end, dest_end, cb, b, d). cb_end - cb)") auto

declare sb_loop.simps [simp del]

definition ntfs_decompress :: "bytes \<Rightarrow> nat \<Rightarrow> bytes \<Rightarrow> nat \<Rightarrow> ((errno + int) \<times> bytes) option" where
  "ntfs_decompress dest dest_size cb_start cb_size = sb_loop cb_start cb_size dest_size 0 dest 0"

section \<open>The format\<close>

text \<open>A token adds a byte, or \<open>len\<close> bytes that repeat those \<open>off\<close> positions back, the new ones included.\<close>

datatype token = Symbol u8 | Phrase nat nat

primrec lz_copy :: "nat \<Rightarrow> nat \<Rightarrow> 'a list \<Rightarrow> 'a list" where
  "lz_copy 0 off out = out"
| "lz_copy (Suc n) off out = lz_copy n off (out @ [out ! (length out - off)])"

primrec lz_step :: "token \<Rightarrow> bytes \<Rightarrow> bytes" where
  "lz_step (Symbol c) out = out @ [c]"
| "lz_step (Phrase off len) out = lz_copy len off out"

definition lz_run :: "token list \<Rightarrow> bytes \<Rightarrow> bytes" where
  "lz_run = fold lz_step"

primrec tok_len :: "token \<Rightarrow> nat" where
  "tok_len (Symbol c) = 1"
| "tok_len (Phrase off len) = len"

text \<open>The tokens that can be stored at a position \<open>p\<close> of a sub-block, and how: a phrase takes two bytes, of which the
  upper \<open>4 + lg\<close> bits hold the offset and the lower \<open>12 - lg\<close> ones the length. Up to eight tokens follow a tag.\<close>

primrec tok_ok :: "nat \<Rightarrow> token \<Rightarrow> bool" where
  "tok_ok p (Symbol c) = (p < NTFS_SB_SIZE)"
| "tok_ok p (Phrase off len) =
     (0 < off \<and> off \<le> p \<and> 3 \<le> len \<and> len - 3 < 2 ^ (12 - lg_loop (p - 1)) \<and> p + len \<le> NTFS_SB_SIZE)"

fun toks_ok :: "nat \<Rightarrow> token list \<Rightarrow> bool" where
  "toks_ok p [] = True"
| "toks_ok p (t # ts) = (tok_ok p t \<and> toks_ok (p + tok_len t) ts)"

definition toks_len :: "token list \<Rightarrow> nat" where
  "toks_len ts = sum_list (map tok_len ts)"

primrec body :: "nat \<Rightarrow> token \<Rightarrow> bytes" where
  "body p (Symbol c) = [c]"
| "body p (Phrase off len) = le_bytes 2 ((off - 1) * 2 ^ (12 - lg_loop (p - 1)) + (len - 3))"

fun bodies :: "nat \<Rightarrow> token list \<Rightarrow> bytes" where
  "bodies p [] = []"
| "bodies p (t # ts) = body p t @ bodies (p + tok_len t) ts"

fun tag_of :: "token list \<Rightarrow> nat" where
  "tag_of [] = 0"
| "tag_of (Symbol c # ts) = 2 * tag_of ts"
| "tag_of (Phrase off len # ts) = 1 + 2 * tag_of ts"

fun enc :: "nat \<Rightarrow> token list \<Rightarrow> bytes" where
  "enc p ts = (if ts = [] then []
     else word_of_nat (tag_of (take 8 ts)) # bodies p (take 8 ts) @ enc (p + toks_len (take 8 ts)) (drop 8 ts))"

declare enc.simps [simp del]

lemma lz_copy_numeral: "lz_copy (numeral k) off out = lz_copy (pred_numeral k) off (out @ [out ! (length out - off)])"
  by (simp add: numeral_eq_Suc)

lemma lz_copy_add: "lz_copy (m + n) off out = lz_copy n off (lz_copy m off out)"
  by (induction m arbitrary: out) auto

lemma length_lz_copy [simp]: "length (lz_copy n off out) = length out + n"
  by (induction n arbitrary: out) auto

lemma length_lz_step [simp]: "length (lz_step t out) = length out + tok_len t"
  by (cases t) auto

lemma toks_len_simps [simp]: "toks_len [] = 0" "toks_len (t # ts) = tok_len t + toks_len ts"
    "toks_len (xs @ ys) = toks_len xs + toks_len ys"
  by (simp_all add: toks_len_def)

lemma lz_run_simps [simp]: "lz_run [] out = out" "lz_run (t # ts) out = lz_run ts (lz_step t out)"
    "lz_run (xs @ ys) out = lz_run ys (lz_run xs out)"
  by (simp_all add: lz_run_def)

lemma length_lz_run [simp]: "length (lz_run ts out) = length out + toks_len ts"
  by (induction ts arbitrary: out) auto

lemma bodies_append: "bodies p (xs @ ys) = bodies p xs @ bodies (p + toks_len xs) ys"
  by (induction xs arbitrary: p) (auto simp: add.assoc)

lemma toks_ok_append [simp]: "toks_ok p (xs @ ys) \<longleftrightarrow> toks_ok p xs \<and> toks_ok (p + toks_len xs) ys"
  by (induction xs arbitrary: p) (auto simp: add.assoc)

lemma tag_of_bound: "tag_of ts < 2 ^ length ts"
  by (induction ts rule: tag_of.induct) auto

lemma tag_of_append: "tag_of (xs @ ys) = tag_of xs + 2 ^ length xs * tag_of ys"
  by (induction xs rule: tag_of.induct) (auto simp: algebra_simps)

text \<open>A copy of at most \<open>off\<close> bytes is a copy of a slice.\<close>

lemma lz_copy_slice:
  "n \<le> off \<Longrightarrow> off \<le> length out \<Longrightarrow> lz_copy n off out = out @ chunk (length out - off) n out"
proof (induction n)
  case 0
  then show ?case by simp
next
  case (Suc n)
  have "lz_copy (Suc n) off out = lz_copy 1 off (lz_copy n off out)"
    using lz_copy_add [of n 1 off out] by simp
  also have "\<dots> = (out @ chunk (length out - off) n out) @ [(out @ chunk (length out - off) n out) ! (length out + n - off)]"
    using Suc by simp
  also have "(out @ chunk (length out - off) n out) ! (length out + n - off) = out ! (length out - off + n)"
  proof -
    have "length out + n - off = length out - off + n" "length out - off + n < length out" using Suc.prems by auto
    then show ?thesis by (simp add: nth_append)
  qed
  also have "(out @ chunk (length out - off) n out) @ [out ! (length out - off + n)] = out @ (chunk (length out - off) n out @ [out ! (length out - off + n)])"
    by simp
  also have "chunk (length out - off) n out @ [out ! (length out - off + n)] = chunk (length out - off) (Suc n) out"
    using Suc.prems chunk_append [of "length out - off" n out 1] by (simp add: chunk_def take_Suc hd_drop_conv_nth)
  finally show ?case by simp
qed

text \<open>The logarithm: positions after the first 16 have \<open>4 + lg_loop\<close> significant bits.\<close>

lemma lg_loop_bound: "i < 2 ^ (4 + lg_loop i)"
proof (induction i rule: lg_loop.induct)
  case (1 i)
  show ?case
  proof (cases "i \<ge> 0x10")
    case True
    have "i div 2 < 2 ^ (4 + lg_loop (i div 2))" using 1 True by simp
    then show ?thesis using True by (subst lg_loop.simps) (simp add: power_add)
  qed (simp add: lg_loop.simps)
qed

lemma lg_loop_le: "i < 2 ^ (4 + k) \<Longrightarrow> lg_loop i \<le> k"
proof (induction i arbitrary: k rule: lg_loop.induct)
  case (1 i)
  show ?case
  proof (cases "i \<ge> 0x10")
    case True
    then obtain k' where k: "k = Suc k'" using 1(2) by (cases k) auto
    then have "lg_loop (i div 2) \<le> k'" using 1 True by (simp add: power_add)
    then show ?thesis using True k by (subst lg_loop.simps) simp
  qed (simp add: lg_loop.simps)
qed

lemma lg_loop_eq: "i < 2 ^ (4 + k) \<Longrightarrow> k = 0 \<or> 2 ^ (3 + k) \<le> i \<Longrightarrow> lg_loop i = k"
proof -
  assume i: "i < 2 ^ (4 + k)" "k = 0 \<or> 2 ^ (3 + k) \<le> i"
  have "2 ^ (3 + k) < (2 :: nat) ^ (4 + lg_loop i)" if "k \<noteq> 0"
    using le_less_trans [OF _ lg_loop_bound] i(2) that by blast
  then have "k \<noteq> 0 \<Longrightarrow> 3 + k < 4 + lg_loop i" by simp
  then show ?thesis using lg_loop_le [OF i(1)] by (cases "k = 0") auto
qed

lemma mask_lg: "lg \<le> 12 \<Longrightarrow> pt AND drop_bit lg (0xfff :: nat) = pt mod 2 ^ (12 - lg)"
proof -
  assume "lg \<le> 12"
  moreover have "(0xfff :: nat) = mask 12" by (simp add: mask_eq_exp_minus_1)
  then have "drop_bit lg (0xfff :: nat) = mask (12 - lg)" by (simp only: drop_bit_mask_eq)
  ultimately show ?thesis by (simp add: take_bit_eq_mask [symmetric] take_bit_eq_mod)
qed

section \<open>The decoder implements the format\<close>

text \<open>Throughout, the destination is \<open>blit b0 sb out\<close>: the output \<open>out\<close> of the sub-block lies at its start \<open>sb\<close>.\<close>

lemma mem_put_out:
  "sb + length out + length xs \<le> length b0 \<Longrightarrow> mem_put (blit b0 sb out) (sb + length out) xs = Some (blit b0 sb (out @ xs))"
  by (simp add: mem_put_def blit_append)

lemma mem_get_out:
  "sb + length out \<le> length b0 \<Longrightarrow> i + n \<le> length out \<Longrightarrow> mem_get (blit b0 sb out) (sb + i) n = Some (chunk i n out)"
  by (auto simp: mem_get_def nth_blit nth_chunk add.assoc intro!: nth_equalityI)

lemma copy_bytes_out:
  "0 < off \<Longrightarrow> off \<le> length out \<Longrightarrow> sb + length out + n \<le> length b0 \<Longrightarrow>
   copy_bytes n (sb + (length out - off)) (sb + length out) (blit b0 sb out) = Some (blit b0 sb (lz_copy n off out))"
proof (induction n arbitrary: out)
  case 0
  then show ?case by simp
next
  case (Suc n)
  let ?o = "out @ [out ! (length out - off)]"
  have c: "chunk (length out - off) 1 out = [out ! (length out - off)]"
    using Suc.prems by (simp add: chunk_def take_Suc hd_drop_conv_nth)
  have ix: "sb + (length ?o - off) = sb + (length out - off) + 1" "sb + length ?o = sb + length out + 1" using Suc.prems by auto
  have get: "mem_get (blit b0 sb out) (sb + (length out - off)) 1 = Some [out ! (length out - off)]"
  proof -
    have "mem_get (blit b0 sb out) (sb + (length out - off)) 1 = Some (chunk (length out - off) 1 out)"
      using Suc.prems by (intro mem_get_out) auto
    then show ?thesis by (simp only: c)
  qed
  have put: "mem_put (blit b0 sb out) (sb + length out) [out ! (length out - off)] = Some (blit b0 sb ?o)"
    using mem_put_out [of sb out "[out ! (length out - off)]" b0] Suc.prems by simp
  have "copy_bytes n (sb + (length ?o - off)) (sb + length ?o) (blit b0 sb ?o) = Some (blit b0 sb (lz_copy n off ?o))"
    using Suc.prems by (intro Suc.IH) auto
  then show ?case by (simp only: copy_bytes.simps get put bind.bind_lunit ix lz_copy.simps)
qed

lemma copy_phrase_out:
  assumes "0 < off" "off \<le> length out" "sb + length out + len \<le> length b0"
  shows "copy_phrase len off (sb + length out) (blit b0 sb out) = Some (blit b0 sb (lz_copy len off out))"
proof -
  have d: "sb + length out - off = sb + (length out - off)" using assms(2) by simp
  show ?thesis
  proof (cases "len \<le> off")
    case True
    have get: "mem_get (blit b0 sb out) (sb + (length out - off)) len = Some (chunk (length out - off) len out)"
      using True assms by (intro mem_get_out) auto
    show ?thesis
      unfolding copy_phrase_def Let_def d get if_P [OF True] bind.bind_lunit lz_copy_slice [OF True assms(2)]
      using True assms by (intro mem_put_out) simp
  next
    case False
    let ?o = "lz_copy off off out"
    have o: "?o = out @ chunk (length out - off) off out" using assms by (simp add: lz_copy_slice)
    have len: "length ?o = length out + off" by simp
    have "copy_bytes (len - off) (sb + (length ?o - off)) (sb + length ?o) (blit b0 sb ?o) = Some (blit b0 sb (lz_copy (len - off) off ?o))"
      using assms False by (intro copy_bytes_out) auto
    moreover have "lz_copy (len - off) off ?o = lz_copy len off out"
      using False lz_copy_add [of off "len - off" off out] by simp
    moreover have "mem_put (blit b0 sb out) (sb + length out) (chunk (length out - off) off out) = Some (blit b0 sb ?o)"
      using assms False mem_put_out [of sb out "chunk (length out - off) off out" b0] by (simp add: o)
    moreover have "mem_get (blit b0 sb out) (sb + (length out - off)) off = Some (chunk (length out - off) off out)"
      using assms by (intro mem_get_out) auto
    moreover have "length ?o - off = length out" by simp
    ultimately show ?thesis
      unfolding copy_phrase_def Let_def d if_not_P [OF False] using assms(2) by (simp only: bind.bind_lunit len le_add_diff_inverse2 add.assoc)
  qed
qed

lemma length_body [simp]: "length (body p t) = (case t of Symbol c \<Rightarrow> 1 | Phrase off len \<Rightarrow> 2)"
  by (cases t) auto

text \<open>The two parts of a phrase token.\<close>

lemma pack_unpack:
  fixes a b :: nat
  assumes "b < 2 ^ k" "a < 2 ^ m"
  shows "(a * 2 ^ k + b) div 2 ^ k = a" "(a * 2 ^ k + b) mod 2 ^ k = b" "a * 2 ^ k + b < 2 ^ (m + k)"
proof -
  show "(a * 2 ^ k + b) div 2 ^ k = a" "(a * 2 ^ k + b) mod 2 ^ k = b" using assms(1) by simp_all
  have "a * 2 ^ k + b < (a + 1) * 2 ^ k" using assms(1) by (simp add: algebra_simps)
  also have "\<dots> \<le> 2 ^ m * 2 ^ k" using assms(2) by (intro mult_le_mono1) simp
  finally show "a * 2 ^ k + b < 2 ^ (m + k)" by (simp add: power_add)
qed

lemma phrase_fields:
  assumes "tok_ok p (Phrase off len)" "lg = lg_loop (p - 1)"
  shows "lg \<le> 8" "le_val (body p (Phrase off len)) div 2 ^ (12 - lg) = off - 1"
    and "le_val (body p (Phrase off len)) mod 2 ^ (12 - lg) = len - 3"
proof -
  have p: "p - 1 < 2 ^ (4 + 8)" "off - 1 < 2 ^ (4 + lg)"
    using assms lg_loop_bound [of "p - 1"] by (auto simp: NTFS_SB_SIZE_def)
  show lg: "lg \<le> 8" using lg_loop_le [OF p(1)] assms(2) by simp
  have len: "len - 3 < 2 ^ (12 - lg)" using assms by simp
  have "4 + lg + (12 - lg) = 16" using lg by simp
  then have "(off - 1) * 2 ^ (12 - lg) + (len - 3) < 2 ^ 16" using pack_unpack(3) [OF len p(2)] by simp
  then have "le_val (body p (Phrase off len)) = (off - 1) * 2 ^ (12 - lg) + (len - 3)"
    unfolding body.simps assms(2) le_val_le_bytes by simp
  then show "le_val (body p (Phrase off len)) div 2 ^ (12 - lg) = off - 1" "le_val (body p (Phrase off len)) mod 2 ^ (12 - lg) = len - 3"
    using pack_unpack(1,2) [OF len p(2)] by simp_all
qed

lemma phrase_out:
  assumes "tok_ok (length out) (Phrase off len)" "chunk cb 2 src = body (length out) (Phrase off len)" "cb + 2 \<le> length src"
    and "sb + NTFS_SB_SIZE \<le> length b0"
  shows "phrase src cb sb (blit b0 sb out) (sb + length out) = Some (Go (blit b0 sb (lz_copy len off out), sb + length out + len))"
proof -
  define lg where "lg = lg_loop (length out - 1)"
  define v where "v = le_val (body (length out) (Phrase off len))"
  have ok: "0 < off" "off \<le> length out" "3 \<le> len" "length out + len \<le> NTFS_SB_SIZE" using assms(1) by auto
  note f = phrase_fields [OF assms(1) lg_def, folded v_def]
  have lg: "lg_loop (sb + length out - sb - 1) = lg" by (simp add: lg_def)
  have get: "fetch16 src cb = Some v" using assms(2,3) by (simp add: fetch16_def mem_get_def v_def)
  have off: "drop_bit (12 - lg) v + 1 = off" using f(2) ok by (simp add: drop_bit_eq_div)
  have len: "(v AND drop_bit lg 0xfff) + 3 = len"
    using mask_lg [of lg v] f(1,3) ok(3) by linarith
  have "\<not> sb + length out < sb + drop_bit (12 - lg) v + 1" using off ok(2) by linarith
  moreover have "sb + length out \<noteq> sb" "\<not> sb + length out + len > sb + NTFS_SB_SIZE" using ok by auto
  moreover have "copy_phrase len off (sb + length out) (blit b0 sb out) = Some (blit b0 sb (lz_copy len off out))"
    using ok assms(4) by (intro copy_phrase_out) auto
  ultimately show ?thesis
    unfolding phrase_def Let_def lg get option.case len off by simp
qed

lemma even_split: "2 * a + b = c + 2 * d \<Longrightarrow> b < 2 \<Longrightarrow> c < 2 \<Longrightarrow> a = d \<and> b = (c :: nat)"
  by arith

lemma tokens_run:
  assumes "toks_ok (length out) ts" "lies_at src cb (bodies (length out) ts)" "tag mod 2 ^ length ts = tag_of ts"
    and "cb + length (bodies (length out) ts) \<le> ce" "sb + NTFS_SB_SIZE \<le> length b0"
  shows "tokens (length ts + n) tag src cb ce sb (blit b0 sb out) (sb + length out)
     = tokens n (tag div 2 ^ length ts) src (cb + length (bodies (length out) ts)) ce sb (blit b0 sb (lz_run ts out)) (sb + length (lz_run ts out))"
  using assms
proof (induction ts arbitrary: cb out tag)
  case Nil
  then show ?case by simp
next
  case (Cons t ts)
  have n: "length (t # ts) + n = Suc (length ts + n)" by simp
  let ?o = "lz_step t out" and ?tl = "tok_len t"
  have b: "lies_at src cb (body (length out) t)" "lies_at src (cb + length (body (length out) t)) (bodies (length ?o) ts)"
    using Cons.prems(2) by (auto simp del: length_body)
  have tg: "(tag div 2) mod 2 ^ length ts = tag_of ts \<and> tag mod 2 = (case t of Symbol c \<Rightarrow> 0 | Phrase _ _ \<Rightarrow> 1)"
  proof -
    have "2 * (tag div 2 mod 2 ^ length ts) + tag mod 2 = (case t of Symbol c \<Rightarrow> 0 | Phrase _ _ \<Rightarrow> 1) + 2 * tag_of ts"
      using Cons.prems(3) mod_mult2_eq [of tag 2 "2 ^ length ts"] by (cases t) simp_all
    moreover have "tag mod 2 < 2" by simp
    moreover have "(case t of Symbol c \<Rightarrow> 0 | Phrase _ _ \<Rightarrow> 1) < (2 :: nat)" by (cases t) auto
    ultimately show ?thesis by (rule even_split)
  qed
  have go: "\<not> (cb \<ge> ce \<or> sb + length out > sb + NTFS_SB_SIZE)"
    using Cons.prems(1,4) by (cases t) auto
  have IH: "tokens (length ts + n) (tag div 2) src (cb + length (body (length out) t)) ce sb (blit b0 sb ?o) (sb + length ?o)
     = tokens n (tag div 2 ^ length (t # ts)) src (cb + length (bodies (length out) (t # ts))) ce sb (blit b0 sb (lz_run ts ?o)) (sb + length (lz_run ts ?o))"
  proof -
    have "tag div 2 ^ length (t # ts) = tag div 2 div 2 ^ length ts"
      by (simp add: div_mult2_eq)
    moreover have "cb + length (bodies (length out) (t # ts)) = cb + length (body (length out) t) + length (bodies (length ?o) ts)" by simp
    moreover have "toks_ok (length ?o) ts" "cb + length (body (length out) t) + length (bodies (length ?o) ts) \<le> ce"
      using Cons.prems(1,4) by simp_all
    ultimately show ?thesis using Cons.IH [OF _ b(2)] tg Cons.prems(5) by (simp add: add.assoc)
  qed
  show ?case
  proof (cases t)
    case (Symbol c)
    have "mem_put (blit b0 sb out) (sb + length out) [c] = Some (blit b0 sb (out @ [c]))"
      using Cons.prems(1,5) Symbol by (intro mem_put_out) auto
    moreover have "mem_get src cb 1 = Some [c]" using b(1) Symbol by simp
    moreover have "tag mod 2 = 0" using tg Symbol by simp
    ultimately have "tokens (length (t # ts) + n) tag src cb ce sb (blit b0 sb out) (sb + length out)
       = tokens (length ts + n) (tag div 2) src (cb + 1) ce sb (blit b0 sb (out @ [c])) (sb + length out + 1)"
      by (simp only: n tokens.simps if_not_P [OF go] if_True bind.bind_lunit simp_thms)
    also have "\<dots> = tokens (length ts + n) (tag div 2) src (cb + length (body (length out) t)) ce sb (blit b0 sb ?o) (sb + length ?o)"
      using Symbol by simp
    finally show ?thesis using IH Symbol by simp
  next
    case (Phrase off len)
    have "phrase src cb sb (blit b0 sb out) (sb + length out) = Some (Go (blit b0 sb (lz_copy len off out), sb + length out + len))"
      using Cons.prems(1,5) b(1) Phrase lies_at_mono [OF b(1)] by (intro phrase_out) (auto simp: lies_at_def)
    moreover have "tag mod 2 \<noteq> 0" using tg Phrase by simp
    ultimately have "tokens (length (t # ts) + n) tag src cb ce sb (blit b0 sb out) (sb + length out)
       = tokens (length ts + n) (tag div 2) src (cb + 2) ce sb (blit b0 sb (lz_copy len off out)) (sb + length out + len)"
      by (simp only: n tokens.simps if_not_P [OF go] if_False option.case flow.case prod.case)
    also have "\<dots> = tokens (length ts + n) (tag div 2) src (cb + length (body (length out) t)) ce sb (blit b0 sb ?o) (sb + length ?o)"
      using Phrase by (simp add: add.assoc)
    finally show ?thesis using IH Phrase by (simp add: add.assoc)
  qed
qed

lemma tokens_out:
  assumes "toks_ok (length out) ts" "length ts \<le> n" "lies_at src cb (bodies (length out) ts)" "tag mod 2 ^ length ts = tag_of ts"
    and "cb + length (bodies (length out) ts) \<le> ce" "length ts = n \<or> cb + length (bodies (length out) ts) = ce"
    and "sb + NTFS_SB_SIZE \<le> length b0"
  shows "tokens n tag src cb ce sb (blit b0 sb out) (sb + length out)
     = Some (Go (cb + length (bodies (length out) ts), blit b0 sb (lz_run ts out), sb + length (lz_run ts out)))"
proof -
  have "tokens (n - length ts) tag' src (cb + length (bodies (length out) ts)) ce sb b d = Some (Go (cb + length (bodies (length out) ts), b, d))"
    for tag' b d
    using assms(2,6) by (cases "n - length ts") auto
  then show ?thesis
    using tokens_run [OF assms(1,3,4,5,7), of "n - length ts"] assms(2) by simp
qed

lemma enc_Nil [simp]: "enc p [] = []"
  by (simp add: enc.simps)

lemma tag_loop_out:
  assumes "toks_ok (length out) ts" "lies_at src cb (enc (length out) ts)" "ce = cb + length (enc (length out) ts)"
    and "sb + NTFS_SB_SIZE \<le> length b0"
  shows "tag_loop src cb ce sb (blit b0 sb out) (sb + length out) = Some (Go (blit b0 sb (lz_run ts out), sb + length (lz_run ts out)))"
  using assms
proof (induction "length ts" arbitrary: ts cb out rule: less_induct)
  case less
  show ?case
  proof (cases "ts = []")
    case True
    then show ?thesis using less.prems by (simp add: tag_loop.simps)
  next
    case False
    let ?h = "take 8 ts" and ?t = "drop 8 ts" and ?n = "length (bodies (length out) (take 8 ts))"
    let ?o = "lz_run ?h out" and ?tag = "word_of_nat (tag_of ?h) :: u8"
    have ts: "?h @ ?t = ts" by simp
    have p: "length out + toks_len ?h = length ?o" by simp
    have ok: "toks_ok (length out) ?h" "toks_ok (length ?o) ?t"
      using less.prems(1) toks_ok_append [of "length out" ?h ?t] by simp_all
    have e: "enc (length out) ts = ([?tag] @ bodies (length out) ?h) @ enc (length ?o) ?t"
      using False by (subst enc.simps) (simp del: length_lz_run add: p)
    have l: "mem_get src cb 1 = Some [?tag]" "lies_at src (cb + 1) (bodies (length out) ?h)" "lies_at src (cb + 1 + ?n) (enc (length ?o) ?t)"
      using less.prems(2) unfolding e lies_at_append by (simp_all add: add.assoc)
    have ce: "ce = cb + 1 + ?n + length (enc (length ?o) ?t)" using less.prems(3) unfolding e by simp
    have "tag_of ?h < 2 ^ length ?h" by (rule tag_of_bound)
    moreover have "(2 :: nat) ^ length ?h \<le> 2 ^ 8" by (intro power_increasing) auto
    ultimately have tag: "unat ?tag mod 2 ^ length ?h = tag_of ?h" by (simp add: unat_of_nat)
    have "tokens 8 (unat ?tag) src (cb + 1) ce sb (blit b0 sb out) (sb + length out)
       = Some (Go (cb + 1 + ?n, blit b0 sb ?o, sb + length ?o))"
    proof (rule tokens_out [OF ok(1) _ l(2) tag _ _ less.prems(4)])
      show "length ?h = 8 \<or> cb + 1 + ?n = ce" using ce by (cases "length ts \<le> 8") (auto simp: min_def)
    qed (use ce in auto)
    moreover have "tok_ok (length out) (hd ts)" using less.prems(1) False by (cases ts) auto
    then have "length out < NTFS_SB_SIZE" by (cases "hd ts") auto
    then have "\<not> (cb > ce \<or> sb + length out > sb + NTFS_SB_SIZE)" "cb \<noteq> ce" using ce by simp_all
    ultimately have "tag_loop src cb ce sb (blit b0 sb out) (sb + length out) = tag_loop src (cb + 1 + ?n) ce sb (blit b0 sb ?o) (sb + length ?o)"
      by (subst tag_loop.simps) (simp only: l(1) if_False option.case flow.case prod.case list.sel)
    also have "\<dots> = Some (Go (blit b0 sb (lz_run ?t ?o), sb + length (lz_run ?t ?o)))"
      using False ok(2) l(3) ce less.prems(4) by (intro less.hyps) auto
    finally show ?thesis using lz_run_simps(3) [of ?h ?t out] by (simp only: ts)
  qed
qed

lemma toks_len_bound: "toks_ok p ts \<Longrightarrow> ts \<noteq> [] \<Longrightarrow> p + toks_len ts \<le> NTFS_SB_SIZE"
proof (induction ts arbitrary: p)
  case (Cons t ts)
  have t: "p + tok_len t \<le> NTFS_SB_SIZE" using Cons.prems(1) by (cases t) auto
  show ?case
  proof (cases "ts = []")
    case False
    then show ?thesis using Cons.IH [of "p + tok_len t"] Cons.prems(1) by (simp add: add.assoc)
  qed (use t in simp)
qed simp

text \<open>The two kinds of sub-block and what a buffer of them holds: \<open>sb_bytes\<close> is a sub-block as it is stored, \<open>sb_data\<close>
  the 4096 bytes it stands for.\<close>

datatype subblock = Stored bytes | Packed "token list"

primrec sb_ok :: "subblock \<Rightarrow> bool" where
  "sb_ok (Stored xs) = (length xs = NTFS_SB_SIZE)"
| "sb_ok (Packed ts) = (toks_ok 0 ts \<and> ts \<noteq> [] \<and> length (enc 0 ts) \<le> NTFS_SB_SIZE)"

primrec sb_bytes :: "subblock \<Rightarrow> bytes" where
  "sb_bytes (Stored xs) = le_bytes 2 0x3fff @ xs"
| "sb_bytes (Packed ts) = le_bytes 2 (0xb000 + (length (enc 0 ts) - 1)) @ enc 0 ts"

definition pad_sb :: "bytes \<Rightarrow> bytes" where
  "pad_sb xs = xs @ replicate (NTFS_SB_SIZE - length xs) 0"

primrec sb_data :: "subblock \<Rightarrow> bytes" where
  "sb_data (Stored xs) = xs"
| "sb_data (Packed ts) = pad_sb (lz_run ts [])"

lemma packed_header:
  assumes "0 < n" "n \<le> NTFS_SB_SIZE" "h = 0xb000 + (n - 1)"
  shows "(h AND NTFS_SB_SIZE_MASK) + 3 = n + 2" "(h AND NTFS_SB_IS_COMPRESSED) \<noteq> 0" "h < 256 ^ 2" "h \<noteq> 0"
proof -
  have "h AND mask 12 = take_bit 12 h" by (simp add: take_bit_eq_mask)
  also have "\<dots> = n - 1"
  proof -
    have "h = (n - 1) + 11 * 4096" "n - 1 < 4096" using assms by (simp_all add: NTFS_SB_SIZE_def)
    then have "h mod 4096 = (n - 1) mod 4096" by (metis mod_mult_self1)
    then show ?thesis using \<open>n - 1 < 4096\<close> by (simp add: take_bit_eq_mod)
  qed
  also have "mask 12 = NTFS_SB_SIZE_MASK" by (simp add: mask_eq_exp_minus_1 NTFS_SB_SIZE_MASK_def)
  finally show "(h AND NTFS_SB_SIZE_MASK) + 3 = n + 2" using assms(1) by simp
  have "h div 2 ^ 15 = 1" using assms by (simp add: NTFS_SB_SIZE_def)
  then have "bit h 15" by (simp add: bit_iff_odd)
  then show "(h AND NTFS_SB_IS_COMPRESSED) \<noteq> 0"
    using and_exp_eq_0_iff_not_bit [of h 15] by (simp add: NTFS_SB_IS_COMPRESSED_def)
  show "h < 256 ^ 2" "h \<noteq> 0" using assms by (simp_all add: NTFS_SB_SIZE_def)
qed

lemma stored_header: "((0x3fff :: nat) AND NTFS_SB_SIZE_MASK) + 3 = NTFS_SB_SIZE + 2" "((0x3fff :: nat) AND NTFS_SB_IS_COMPRESSED) = 0"
  by (simp_all add: NTFS_SB_SIZE_MASK_def NTFS_SB_IS_COMPRESSED_def NTFS_SB_SIZE_def)

lemma length_enc_pos: "ts \<noteq> [] \<Longrightarrow> 2 \<le> length (enc p ts)"
proof -
  assume "ts \<noteq> []"
  then obtain t r where "take 8 ts = t # r" by (cases ts) auto
  moreover have "1 \<le> length (body p t)" by (cases t) auto
  ultimately show ?thesis by (subst enc.simps) (auto simp del: length_body)
qed

lemma length_sb_bytes: "sb_ok s \<Longrightarrow> 4 \<le> length (sb_bytes s)"
  using length_enc_pos [of _ 0] by (cases s) (auto simp: NTFS_SB_SIZE_def)

lemma length_sb_data: "sb_ok s \<Longrightarrow> length (sb_data s) = NTFS_SB_SIZE"
  using toks_len_bound [of 0] by (cases s) (auto simp: pad_sb_def)

lemma sb_step:
  assumes "sb_ok s" "lies_at src cb (sb_bytes s)" "cb + 6 \<le> cb_end" "cb + length (sb_bytes s) \<le> cb_end"
    and "sb + NTFS_SB_SIZE \<le> dest_end" "dest_end \<le> length b"
  shows "sb_loop src cb_end dest_end cb b sb
     = sb_loop src cb_end dest_end (cb + length (sb_bytes s)) (blit b sb (sb_data s)) (sb + NTFS_SB_SIZE)"
proof (cases s)
  case (Stored xs)
  have h: "fetch16 src cb = Some 0x3fff"
    using assms(2) Stored by (intro fetch16_lies [of _ _ _ xs]) simp_all
  have "mem_get src (cb + 2) NTFS_SB_SIZE = Some xs" using assms(1,2) Stored by simp
  moreover have "mem_put b sb xs = Some (blit b sb xs)"
    using assms Stored by (simp add: mem_put_def)
  moreover have "cb + length (sb_bytes s) = cb + 2 + NTFS_SB_SIZE" using assms(1) Stored by simp
  moreover have ne: "cb \<noteq> cb_end" "sb \<noteq> dest_end" "\<not> sb + NTFS_SB_SIZE > dest_end" "\<not> cb + 6 > cb_end" using assms by (auto simp: NTFS_SB_SIZE_def)
  moreover have "\<not> cb + 2 + NTFS_SB_SIZE > cb_end" using assms(1,4) Stored by simp
  moreover have len: "cb + (0x3fff AND NTFS_SB_SIZE_MASK) + 3 = cb + 2 + NTFS_SB_SIZE" using stored_header(1) by linarith
  ultimately show ?thesis
    by (subst sb_loop.simps) (simp add: h Let_def len ne stored_header(2) Stored del: sb_bytes.simps)
next
  case (Packed ts)
  let ?n = "length (enc 0 ts)"
  define h where "h = 0xb000 + (length (enc 0 ts) - 1)"
  have n: "0 < ?n" "?n \<le> NTFS_SB_SIZE" using assms(1) Packed length_enc_pos [of ts 0] by auto
  note hd = packed_header [OF n h_def]
  have h: "fetch16 src cb = Some h"
    using assms(2) Packed hd(3) by (intro fetch16_lies [of _ _ _ "enc 0 ts"]) (simp_all add: h_def)
  have len: "cb + (h AND NTFS_SB_SIZE_MASK) + 3 = cb + length (sb_bytes s)" using hd(1) Packed by simp
  have t: "tag_loop src (cb + 2) (cb + length (sb_bytes s)) sb (blit b sb []) (sb + length ([] :: bytes)) = Some (Go (blit b sb (lz_run ts []), sb + length (lz_run ts [])))"
    using assms Packed by (intro tag_loop_out) auto
  have lz: "length (lz_run ts []) \<le> NTFS_SB_SIZE" using assms(1) Packed toks_len_bound [of 0 ts] by auto
  have f: "fill_sb sb (blit b sb (lz_run ts [])) (sb + length (lz_run ts [])) = Some (blit b sb (sb_data s), sb + NTFS_SB_SIZE)"
    using lz assms Packed mem_put_out [of sb "lz_run ts []" "replicate (NTFS_SB_SIZE - length (lz_run ts [])) 0" b]
    by (auto simp: fill_sb_def pad_sb_def)
  have ne: "cb \<noteq> cb_end" "sb \<noteq> dest_end" "\<not> sb + NTFS_SB_SIZE > dest_end" "\<not> cb + 6 > cb_end" "\<not> cb + length (sb_bytes s) > cb_end"
    using assms by (auto simp: NTFS_SB_SIZE_def)
  show ?thesis
    using t f hd(2,4) ne by (subst sb_loop.simps) (simp add: h Let_def len del: sb_bytes.simps sb_data.simps)
qed

text \<open>A buffer of sub-blocks and two zero bytes behind them.\<close>

lemma sb_loop_out:
  assumes "list_all sb_ok ss" "lies_at src cb (concat (map sb_bytes ss) @ [0, 0])" "cb + length (concat (map sb_bytes ss)) + 2 \<le> cb_end"
    and "sb + length ss * NTFS_SB_SIZE \<le> dest_end" "dest_end \<le> length b"
  shows "sb_loop src cb_end dest_end cb b sb = Some (Inr 0, blit b sb (concat (map sb_data ss)))"
  using assms
proof (induction ss arbitrary: cb b sb)
  case Nil
  have "fetch16 src cb = Some 0" using Nil(2) by (intro fetch16_lies [of _ _ _ "[]"]) (simp_all add: numeral_2_eq_2)
  then show ?case by (subst sb_loop.simps) simp
next
  case (Cons s ss)
  have s: "sb_ok s" "4 \<le> length (sb_bytes s)" "length (sb_data s) = NTFS_SB_SIZE"
    using Cons.prems(1) length_sb_bytes length_sb_data by auto
  have l: "lies_at src cb (sb_bytes s)" "lies_at src (cb + length (sb_bytes s)) (concat (map sb_bytes ss) @ [0, 0])"
    using Cons.prems(2) by (auto simp: add.assoc)
  have "sb_loop src cb_end dest_end cb b sb
     = sb_loop src cb_end dest_end (cb + length (sb_bytes s)) (blit b sb (sb_data s)) (sb + NTFS_SB_SIZE)"
    using Cons.prems s l by (intro sb_step) auto
  also have "\<dots> = Some (Inr 0, blit (blit b sb (sb_data s)) (sb + NTFS_SB_SIZE) (concat (map sb_data ss)))"
    using Cons.prems s l by (intro Cons.IH) auto
  also have "blit (blit b sb (sb_data s)) (sb + NTFS_SB_SIZE) (concat (map sb_data ss)) = blit b sb (sb_data s @ concat (map sb_data ss))"
  proof -
    have "length (concat (map sb_data ss)) = length ss * NTFS_SB_SIZE"
      using Cons.prems(1) length_sb_data by (induction ss) auto
    then show ?thesis using Cons.prems(4,5) s(3) blit_append [of sb "sb_data s" "concat (map sb_data ss)" b] by simp
  qed
  finally show ?case by simp
qed

section \<open>Accesses\<close>

lemma copy_bytes_safe:
  "k + n \<le> length b \<Longrightarrow> d + n \<le> length b \<Longrightarrow> \<exists>b'. copy_bytes n k d b = Some b' \<and> length b' = length b"
proof (induction n arbitrary: k d b)
  case (Suc n)
  have g: "mem_get b k 1 = Some (chunk k 1 b)" using Suc.prems by (intro mem_get_SomeI) simp
  have p: "mem_put b d (chunk k 1 b) = Some (blit b d (chunk k 1 b))" using Suc.prems by (intro mem_put_SomeI) simp
  show ?case
    unfolding copy_bytes.simps g p bind.bind_lunit
    using Suc.IH [of "k + 1" "blit b d (chunk k 1 b)" "d + 1"] Suc.prems by simp
qed simp

lemma copy_phrase_safe:
  assumes "0 < off" "off \<le> d" "d + len \<le> length b"
  shows "\<exists>b'. copy_phrase len off d b = Some b' \<and> length b' = length b"
proof (cases "len \<le> off")
  case True
  then have "mem_get b (d - off) len = Some (chunk (d - off) len b)" using assms by (intro mem_get_SomeI) simp
  then show ?thesis using assms True by (simp add: copy_phrase_def Let_def mem_put_def)
next
  case False
  then have "mem_get b (d - off) off = Some (chunk (d - off) off b)" using assms by (intro mem_get_SomeI) simp
  moreover have "mem_put b d (chunk (d - off) off b) = Some (blit b d (chunk (d - off) off b))"
    using assms False by (intro mem_put_SomeI) simp
  ultimately show ?thesis
    using assms False copy_bytes_safe [of "d - off + off" "len - off" "blit b d (chunk (d - off) off b)" "d + off"]
    by (simp add: copy_phrase_def Let_def)
qed

text \<open>What a step may return: no fault, a buffer of the same length, a position in bounds.\<close>

definition flow_ok :: "nat \<Rightarrow> ('a \<Rightarrow> bool) \<Rightarrow> 'a flow option \<Rightarrow> bool" where
  "flow_ok n P r \<longleftrightarrow> (case r of None \<Rightarrow> False | Some (Overflow b') \<Rightarrow> length b' = n | Some (Go x) \<Rightarrow> P x)"

lemma flow_okE:
  assumes "flow_ok n P r"
  obtains (Overflow) b' where "r = Some (Overflow b')" "length b' = n" | (Go) x where "r = Some (Go x)" "P x"
  using assms by (auto simp: flow_ok_def split: option.splits flow.splits)

lemma phrase_safe:
  assumes "cb + 2 \<le> length src" "sb \<le> d" "sb + NTFS_SB_SIZE \<le> length b"
  shows "flow_ok (length b) (\<lambda>(b', d'). length b' = length b \<and> sb \<le> d' \<and> d' \<le> sb + NTFS_SB_SIZE) (phrase src cb sb b d)"
proof -
  define lg where "lg = lg_loop (d - sb - 1)"
  define pt where "pt = le_val (chunk cb 2 src)"
  define off where "off = drop_bit (12 - lg) pt + 1"
  define len where "len = (pt AND drop_bit lg 0xfff) + 3"
  have get: "fetch16 src cb = Some pt" using assms(1) by (simp add: fetch16_def mem_get_def pt_def)
  have ph: "phrase src cb sb b d = (if d = sb then Some (Overflow b) else if d < sb + off then Some (Overflow b)
      else if d + len > sb + NTFS_SB_SIZE then Some (Overflow b) else map_option (\<lambda>b'. Go (b', d + len)) (copy_phrase len off d b))"
    unfolding phrase_def Let_def lg_def [symmetric] get option.case by (simp only: off_def len_def add.assoc [symmetric])
  have "\<exists>b'. copy_phrase len off d b = Some b' \<and> length b' = length b" if "\<not> d < sb + off" "\<not> d + len > sb + NTFS_SB_SIZE"
    using that assms by (intro copy_phrase_safe) (auto simp: off_def)
  then show ?thesis unfolding ph using assms(2) by (auto simp: flow_ok_def)
qed

lemma tokens_safe:
  assumes "ce < length src" "sb \<le> d" "d \<le> sb + NTFS_SB_SIZE + 1" "sb + NTFS_SB_SIZE < length b"
  shows "flow_ok (length b) (\<lambda>(cb', b', d'). length b' = length b \<and> sb \<le> d' \<and> d' \<le> sb + NTFS_SB_SIZE + 1) (tokens n tag src cb ce sb b d)"
  using assms(2-)
proof (induction n arbitrary: tag cb b d)
  case 0
  then show ?case by (simp add: flow_ok_def)
next
  case (Suc n)
  show ?case
  proof (cases "cb \<ge> ce \<or> d > sb + NTFS_SB_SIZE")
    case True
    then show ?thesis using Suc.prems by (auto simp: flow_ok_def)
  next
    case go: False
    show ?thesis
    proof (cases "tag mod 2 = 0")
      case True
      have "mem_get src cb 1 = Some (chunk cb 1 src)" using go assms(1) by (intro mem_get_SomeI) simp
      moreover have "mem_put b d (chunk cb 1 src) = Some (blit b d (chunk cb 1 src))" using go Suc.prems by (intro mem_put_SomeI) (simp add: min_def)
      ultimately have "tokens (Suc n) tag src cb ce sb b d = tokens n (tag div 2) src (cb + 1) ce sb (blit b d (chunk cb 1 src)) (d + 1)"
        using go True by simp
      moreover have "length (blit b d (chunk cb 1 src)) = length b" using go Suc.prems by (intro length_blit) (simp add: min_def)
      ultimately show ?thesis
        using Suc.IH [of "d + 1" "blit b d (chunk cb 1 src)" "tag div 2" "cb + 1"] go Suc.prems by (simp add: flow_ok_def)
    next
      case False
      have "flow_ok (length b) (\<lambda>(b', d'). length b' = length b \<and> sb \<le> d' \<and> d' \<le> sb + NTFS_SB_SIZE) (phrase src cb sb b d)"
        using go assms(1) Suc.prems by (intro phrase_safe) auto
      then show ?thesis
      proof (cases rule: flow_okE)
        case (Overflow b')
        then show ?thesis using go False by (simp add: flow_ok_def)
      next
        case (Go x)
        then show ?thesis
          using go False Suc.IH [of "snd x" "fst x" "tag div 2" "cb + 2"] Suc.prems by (cases x) simp
      qed
    qed
  qed
qed

lemma tag_loop_safe:
  assumes "ce < length src" "sb \<le> d" "d \<le> sb + NTFS_SB_SIZE + 1" "sb + NTFS_SB_SIZE < length b"
  shows "flow_ok (length b) (\<lambda>(b', d'). length b' = length b \<and> sb \<le> d' \<and> d' \<le> sb + NTFS_SB_SIZE + 1) (tag_loop src cb ce sb b d)"
  using assms
proof (induction src cb ce sb b d rule: tag_loop.induct)
  case (1 src cb ce sb b d)
  show ?case
  proof (cases "cb = ce \<or> cb > ce \<or> d > sb + NTFS_SB_SIZE")
    case True
    then show ?thesis using 1(3,4) by (subst tag_loop.simps) (auto simp: flow_ok_def)
  next
    case False
    have get: "mem_get src cb 1 = Some (chunk cb 1 src)" using False 1(2) by (intro mem_get_SomeI) simp
    let ?r = "tokens 8 (unat (hd (chunk cb 1 src))) src (cb + 1) ce sb b d"
    have t: "flow_ok (length b) (\<lambda>(cb', b', d'). length b' = length b \<and> sb \<le> d' \<and> d' \<le> sb + NTFS_SB_SIZE + 1) ?r"
      using 1(2-5) by (intro tokens_safe) auto
    then show ?thesis
    proof (cases rule: flow_okE)
      case (Overflow b')
      then show ?thesis using False get by (subst tag_loop.simps) (simp add: flow_ok_def)
    next
      case (Go x)
      obtain cb' b' d' where x: "x = (cb', b', d')" by (cases x) auto
      have "tag_loop src cb ce sb b d = tag_loop src cb' ce sb b' d'"
        using False get Go(1) x by (subst tag_loop.simps) simp
      then show ?thesis
        using 1(1) [OF _ _ get Go(1) refl x [symmetric] refl] False Go(2) x 1(2,5) by simp
    qed
  qed
qed

lemma sb_loop_safe:
  assumes "cb \<le> cb_end" "cb_end < length src" "dest_end < length b"
  shows "\<exists>r b'. sb_loop src cb_end dest_end cb b d = Some (r, b') \<and> length b' = length b \<and> (r = Inr 0 \<or> r = Inl EOVERFLOW)"
  using assms
proof (induction src cb_end dest_end cb b d rule: sb_loop.induct)
  case (1 src cb_end dest_end cb b d)
  define h where "h = le_val (chunk cb 2 src)"
  define ce where "ce = cb + (h AND NTFS_SB_SIZE_MASK) + 3"
  show ?case
  proof (cases "cb = cb_end")
    case True
    then show ?thesis by (subst sb_loop.simps) simp
  next
    case cb: False
    then have h: "fetch16 src cb = Some h" using 1(3,4) by (simp add: fetch16_def mem_get_def h_def)
    note step = sb_loop.simps [of src cb_end dest_end cb b d, unfolded h option.case Let_def, folded ce_def]
    show ?thesis
    proof (cases "h = 0 \<or> d = dest_end \<or> d + NTFS_SB_SIZE > dest_end \<or> cb + 6 > cb_end \<or> ce > cb_end")
      case True
      then show ?thesis using cb by (auto simp: step)
    next
      case go: False
      show ?thesis
      proof (cases "(h AND NTFS_SB_IS_COMPRESSED) = 0")
        case True
        show ?thesis
        proof (cases "ce = cb + 2 + NTFS_SB_SIZE")
          case False
          then show ?thesis using cb go True by (auto simp: step)
        next
          case ce: True
          let ?b = "blit b d (chunk (cb + 2) NTFS_SB_SIZE src)"
          have c: "length (chunk (cb + 2) NTFS_SB_SIZE src) = NTFS_SB_SIZE" using ce go 1(4) by (auto simp: min_def)
          then have m: "Option.bind (mem_get src (cb + 2) NTFS_SB_SIZE) (mem_put b d) = Some ?b"
            using ce go 1(4,5) by (simp add: mem_get_def mem_put_def)
          have "sb_loop src cb_end dest_end cb b d = sb_loop src cb_end dest_end ce ?b (d + NTFS_SB_SIZE)"
            using cb go True ce m by (simp add: step)
          moreover have "length ?b = length b" using c go 1(5) by (intro length_blit) simp
          ultimately show ?thesis
            using 1(1) [OF cb h _ _ _ ce_def _ True _ m] go ce 1(4,5) by auto
        qed
      next
        case False
        have "flow_ok (length b) (\<lambda>(b', d'). length b' = length b \<and> d \<le> d' \<and> d' \<le> d + NTFS_SB_SIZE + 1) (tag_loop src (cb + 2) ce d b d)"
          using go 1(4,5) by (intro tag_loop_safe) auto
        then show ?thesis
        proof (cases rule: flow_okE)
          case (Overflow b')
          then show ?thesis using cb go False by (simp add: step)
        next
          case (Go x)
          obtain b' d' where x: "x = (b', d')" by (cases x)
          then have f: "\<exists>b'' d''. fill_sb d b' d' = Some (b'', d'') \<and> length b'' = length b"
            using Go(2) go 1(5) by (auto simp: fill_sb_def mem_put_def)
          then obtain b'' d'' where f: "fill_sb d b' d' = Some (b'', d'')" "length b'' = length b" by blast
          have "sb_loop src cb_end dest_end cb b d = sb_loop src cb_end dest_end ce b'' d''"
            using cb go False Go(1) x f(1) by (simp add: step)
          then show ?thesis
            using 1(2) [OF cb h _ _ _ ce_def _ False Go(1) refl x [symmetric] f(1) refl] go f(2) 1(4,5) by auto
        qed
      qed
    qed
  qed
qed

lemma le_bytes_2: "le_bytes 2 v = [word_of_nat v, word_of_nat (v div 256)]"
  by (simp add: numeral_2_eq_2)

section \<open>Properties\<close>

text \<open>
  C5. \<open>ntfs_decompress\<close> implements the format: for any well-formed sub-blocks, stored or packed into tags and
  tokens in any way, that are followed by two zero bytes, it returns 0 and leaves the 4096 bytes of every sub-block, the
  phrases expanded and the rest filled with zeroes, one after the other in the destination.
\<close>

theorem decompress_format:
  assumes "list_all sb_ok ss" "lies_at src 0 (concat (map sb_bytes ss) @ [0, 0])" "length (concat (map sb_bytes ss)) + 2 \<le> cb_size"
    and "length ss * NTFS_SB_SIZE \<le> dest_size" "dest_size \<le> length dest"
  shows "ntfs_decompress dest dest_size src cb_size = Some (Inr 0, blit dest 0 (concat (map sb_data ss)))"
  unfolding ntfs_decompress_def using assms by (intro sb_loop_out) auto

theorem decompress_format_witness:
  "ntfs_decompress (replicate 4096 7) 4096 [0x06, 0xb0, 0x04, 0x41, 0x42, 0x04, 0x10, 0x43, 0x44, 0, 0] 11
     = Some (Inr 0, [0x41, 0x42, 0x41, 0x42, 0x41, 0x42, 0x41, 0x42, 0x41, 0x43, 0x44] @ replicate 4085 0)"
proof -
  let ?ts = "[Symbol 0x41, Symbol 0x42, Phrase 2 7, Symbol 0x43, Symbol 0x44]"
  let ?s = "Packed ?ts"
  have e: "enc 0 ?ts = [0x04, 0x41, 0x42, 0x04, 0x10, 0x43, 0x44]" by (simp add: enc.simps lg_loop.simps le_bytes_2 toks_len_def)
  have b: "sb_bytes ?s = [0x06, 0xb0, 0x04, 0x41, 0x42, 0x04, 0x10, 0x43, 0x44]" by (simp add: e le_bytes_2)
  have l: "lz_run ?ts [] = [0x41, 0x42, 0x41, 0x42, 0x41, 0x42, 0x41, 0x42, 0x41, 0x43, 0x44]"
    by (simp add: lz_copy_numeral)
  have d: "sb_data ?s = [0x41, 0x42, 0x41, 0x42, 0x41, 0x42, 0x41, 0x42, 0x41, 0x43, 0x44] @ replicate 4085 0"
    by (simp add: l pad_sb_def NTFS_SB_SIZE_def del: lz_run_simps)
  have "sb_ok ?s" by (simp add: e NTFS_SB_SIZE_def lg_loop.simps)
  then show ?thesis
    using decompress_format [of "[?s]" "[0x06, 0xb0, 0x04, 0x41, 0x42, 0x04, 0x10, 0x43, 0x44, 0, 0]" 11 4096 "replicate 4096 7"] b d
    by (simp add: lies_at_def chunk_def NTFS_SB_SIZE_def blit_def del: sb_bytes.simps sb_data.simps sb_ok.simps)
qed

text \<open>
  C17. One byte more than the sizes given is enough: whatever bytes the compression block holds, if one byte can be read
  behind it and one byte written behind the destination, decompression ends with 0 or \<open>EOVERFLOW\<close> and accesses nothing outside.
  Both bytes are needed, see \<open>decompress_reads_behind_source\<close> and the overrun of the destination below.
\<close>

theorem decompress_memory_safe:
  assumes "cb_size < length src" "dest_size < length dest"
  shows "\<exists>r b. ntfs_decompress dest dest_size src cb_size = Some (r, b) \<and> length b = length dest \<and> (r = Inr 0 \<or> r = Inl EOVERFLOW)"
  unfolding ntfs_decompress_def using assms by (intro sb_loop_safe) auto

theorem decompress_memory_safe_witness:
  "\<exists>r b. ntfs_decompress (replicate 4097 0) 4096 [0x04, 0xb0, 0xff, 1, 2, 3, 4, 5, 6] 8 = Some (r, b) \<and> length b = 4097
     \<and> (r = Inr 0 \<or> r = Inl EOVERFLOW)"
  using decompress_memory_safe [of 8 "[0x04, 0xb0, 0xff, 1, 2, 3, 4, 5, 6]" 4096 "replicate 4097 0"] by simp

text \<open>
  A phrase token in the last byte of a block: only \<open>cb < cb_sb_end\<close> is checked before its two bytes are fetched, so its high
  byte is read behind the block, a fault for a block of exactly \<open>cb_size\<close> bytes.
\<close>

lemma decompress_reads_behind_source:
  "ntfs_decompress dest NTFS_SB_SIZE [4, 0xb0, 8, 1, 2, 3, 0] 7 = None"
proof -
  let ?src = "[4, 0xb0, 8, 1, 2, 3, 0] :: bytes"
  have f: "fetch16 ?src 0 = Some 0xb004" "fetch16 ?src 6 = None" by (simp_all add: fetch16_def mem_get_def chunk_def)
  have "phrase ?src 6 0 b (Suc (Suc (Suc 0))) = None" for b by (simp add: phrase_def f)
  then have t: "tokens (Suc (Suc (Suc (Suc m)))) 8 ?src 3 7 0 dest 0 = None" for m
    by (simp add: mem_get_def chunk_def NTFS_SB_SIZE_def Option.bind_eq_None_conv)
  have "n = Suc (Suc (Suc (Suc 4))) \<Longrightarrow> tokens n 8 ?src 3 7 0 dest 0 = None" for n using t [of 4] by (simp only:)
  from this [of 8] have "tokens 8 8 ?src 3 7 0 dest 0 = None" by simp
  then have "tag_loop ?src 2 7 0 dest 0 = None"
    by (subst tag_loop.simps) (simp add: mem_get_def chunk_def)
  moreover have "((0xb004 :: nat) AND NTFS_SB_SIZE_MASK) = 4" "((0xb004 :: nat) AND NTFS_SB_IS_COMPRESSED) \<noteq> 0"
    by (simp_all add: NTFS_SB_SIZE_MASK_def NTFS_SB_IS_COMPRESSED_def)
  ultimately show ?thesis
    unfolding ntfs_decompress_def by (subst sb_loop.simps) (simp add: f(1) Let_def NTFS_SB_SIZE_def numeral_2_eq_2)
qed

text \<open>A sub-block that the tokens of its only tag fill before the last symbol.\<close>

lemma length_bodies: "length (bodies p ts) \<le> 2 * length ts"
proof (induction ts arbitrary: p)
  case (Cons t ts)
  have "length (body p t) \<le> 2" by (cases t) auto
  then show ?case using Cons [of "p + tok_len t"] by (simp del: length_body)
qed simp

lemma overrun_tag_loop:
  assumes "toks_ok 0 ts" "toks_len ts = NTFS_SB_SIZE" "length ts < 8" "lies_at src 2 (word_of_nat (tag_of ts) # bodies 0 ts @ [c])"
    and "ce = length (bodies 0 ts) + 4" "NTFS_SB_SIZE \<le> length b"
  shows "tag_loop src 2 ce 0 b 0 = map_option (\<lambda>b'. Go (b', NTFS_SB_SIZE + 1)) (mem_put (blit b 0 (lz_run ts [])) NTFS_SB_SIZE [c])"
proof -
  let ?out = "lz_run ts []" and ?n = "length (bodies 0 ts)" and ?tag = "word_of_nat (tag_of ts) :: u8"
  have l: "mem_get src 2 1 = Some [?tag]" "lies_at src 3 (bodies 0 ts)" "mem_get src (3 + ?n) 1 = Some [c]"
    using assms(4) lies_at_append [of src 2 "[?tag]" "bodies 0 ts @ [c]"] by (simp_all add: eval_nat_numeral)
  obtain m where m: "8 = length ts + Suc m" using assms(3) by (metis less_imp_Suc_add add_Suc_right)
  have "tag_of ts < 2 ^ length ts" by (rule tag_of_bound)
  moreover have "(2 :: nat) ^ length ts \<le> 2 ^ 8" using assms(3) by (intro power_increasing) auto
  ultimately have tag: "unat ?tag = tag_of ts" "tag_of ts mod 2 ^ length ts = tag_of ts" "tag_of ts div 2 ^ length ts = 0"
    by (auto simp: unat_of_nat)
  have "tokens 8 (unat ?tag) src 3 ce 0 b 0 = tokens (length ts + Suc m) (tag_of ts) src 3 ce 0 (blit b 0 []) (0 + length ([] :: bytes))"
    by (simp only: tag(1) m) simp
  also have "\<dots> = tokens (Suc m) (tag_of ts div 2 ^ length ts) src (3 + length (bodies (length ([] :: bytes)) ts)) ce 0 (blit b 0 ?out) (0 + length ?out)"
    using assms(1,5,6) l(2) tag(2) by (intro tokens_run) auto
  also have "\<dots> = tokens (Suc m) 0 src (3 + ?n) ce 0 (blit b 0 ?out) NTFS_SB_SIZE"
    using assms(2) tag(3) by simp
  also have "\<dots> = map_option (\<lambda>b'. Go (ce, b', NTFS_SB_SIZE + 1)) (mem_put (blit b 0 ?out) NTFS_SB_SIZE [c])"
    using l(3) assms(5) by (cases m; cases "mem_put (blit b 0 ?out) NTFS_SB_SIZE [c]") (simp_all add: add.commute)
  finally have t: "tokens 8 (unat ?tag) src 3 ce 0 b 0 = map_option (\<lambda>b'. Go (ce, b', NTFS_SB_SIZE + 1)) (mem_put (blit b 0 ?out) NTFS_SB_SIZE [c])" .
  have "2 \<noteq> ce" "\<not> (2 > ce \<or> 0 > 0 + NTFS_SB_SIZE)" using assms(5) by simp_all
  then have "tag_loop src 2 ce 0 b 0 = (case tokens 8 (unat ?tag) src (2 + 1) ce 0 b 0 of None \<Rightarrow> None
      | Some (Overflow b') \<Rightarrow> Some (Overflow b') | Some (Go (cb', b', d')) \<Rightarrow> tag_loop src cb' ce 0 b' d')"
    by (subst tag_loop.simps) (simp only: l(1) if_False option.case list.sel)
  also have "tokens 8 (unat ?tag) src (2 + 1) ce 0 b 0 = map_option (\<lambda>b'. Go (ce, b', NTFS_SB_SIZE + 1)) (mem_put (blit b 0 ?out) NTFS_SB_SIZE [c])"
    using t by (simp only: eval_nat_numeral add_Suc_right add_0_right One_nat_def)
  finally show ?thesis
    by (cases "mem_put (blit b 0 ?out) NTFS_SB_SIZE [c]") (simp_all add: tag_loop.simps)
qed

text \<open>
  C36. The spare byte is needed: \<open>dest > dest_sb_end\<close> lets a symbol through when the sub-block is full. After tokens that
  fill the sub-block, one more symbol in the same tag is written behind it; in the last sub-block this is the byte behind a
  destination of exactly \<open>dest_size\<close> bytes, and \<open>ntfs_decompress\<close> returns 0.
\<close>

theorem decompress_overruns_destination:
  assumes "toks_ok 0 ts" "toks_len ts = NTFS_SB_SIZE" "length ts < 8" "length dest = NTFS_SB_SIZE + 1"
    and "cb = le_bytes 2 (0xb000 + length (bodies 0 ts) + 1) @ word_of_nat (tag_of ts) # bodies 0 ts @ [c]"
  shows "ntfs_decompress dest NTFS_SB_SIZE cb (length cb) = Some (Inr 0, lz_run ts [] @ [c])
     \<and> ntfs_decompress (take NTFS_SB_SIZE dest) NTFS_SB_SIZE cb (length cb) = None"
proof -
  let ?out = "lz_run ts []" and ?n = "length (bodies 0 ts)"
  define h where "h = 0xb000 + (?n + 2 - 1)"
  obtain x t r where ts: "ts = Symbol x # t # r"
  proof (cases ts)
    case (Cons t1 r1)
    then show ?thesis using assms(1,2) that by (cases t1; cases r1) (auto simp: NTFS_SB_SIZE_def)
  qed (use assms(2) in \<open>auto simp: NTFS_SB_SIZE_def\<close>)
  then have n: "2 \<le> ?n" by (cases t) auto
  have n2: "?n + 2 \<le> NTFS_SB_SIZE" using length_bodies [of 0 ts] assms(3) by (simp add: NTFS_SB_SIZE_def)
  note hd = packed_header [OF _ n2 h_def, simplified]
  have cb: "cb = le_bytes 2 h @ word_of_nat (tag_of ts) # bodies 0 ts @ [c]" "length cb = ?n + 4" by (simp_all add: assms(5) h_def)
  have fetch: "fetch16 cb 0 = Some h"
    using hd(3) by (intro fetch16_lies [of _ _ _ "word_of_nat (tag_of ts) # bodies 0 ts @ [c]"]) (simp_all add: cb(1) lies_at_def chunk_def)
  have l: "lies_at cb 2 (word_of_nat (tag_of ts) # bodies 0 ts @ [c])" by (simp add: cb(1) lies_at_def chunk_def)
  have tag: "tag_loop cb 2 (length cb) 0 b 0 = map_option (\<lambda>b'. Go (b', NTFS_SB_SIZE + 1)) (mem_put (blit b 0 ?out) NTFS_SB_SIZE [c])"
    if "NTFS_SB_SIZE \<le> length b" for b
    using assms(1-3) l cb(2) that by (intro overrun_tag_loop) auto
  have sb: "ntfs_decompress b NTFS_SB_SIZE cb (length cb) = map_option (Pair (Inr 0)) (mem_put (blit b 0 ?out) NTFS_SB_SIZE [c])"
    if "NTFS_SB_SIZE \<le> length b" for b
  proof -
    have ce: "0 + (h AND NTFS_SB_SIZE_MASK) + 3 = length cb" using hd(1) cb(2) by simp
    have tl: "tag_loop cb (0 + 2) (length cb) 0 b 0 = map_option (\<lambda>b'. Go (b', NTFS_SB_SIZE + 1)) (mem_put (blit b 0 ?out) NTFS_SB_SIZE [c])"
      using tag [OF that] by (simp only: add_0)
    have "sb_loop cb (length cb) NTFS_SB_SIZE (length cb) b'' d'' = Some (Inr 0, b'')" for b'' d''
      by (subst sb_loop.simps) simp
    moreover have "0 \<noteq> length cb" "\<not> (h = 0 \<or> 0 = NTFS_SB_SIZE)" "\<not> 0 + NTFS_SB_SIZE > NTFS_SB_SIZE" "\<not> 0 + 6 > length cb" "\<not> length cb > length cb"
      using hd(4) n cb(2) by (simp_all add: NTFS_SB_SIZE_def)
    ultimately show ?thesis
      unfolding ntfs_decompress_def sb_loop.simps [of cb "length cb" NTFS_SB_SIZE 0 b 0] fetch option.case Let_def ce tl
      using hd(2) by (cases "mem_put (blit b 0 ?out) NTFS_SB_SIZE [c]") (simp_all add: fill_sb_def)
  qed
  have out: "length ?out = NTFS_SB_SIZE" using assms(2) by simp
  have "blit dest 0 ?out = ?out @ drop NTFS_SB_SIZE dest" "blit (take NTFS_SB_SIZE dest) 0 ?out = ?out"
    using out assms(4) by (simp_all add: blit_def)
  then show ?thesis
    using sb [of dest] sb [of "take NTFS_SB_SIZE dest"] out assms(4) by (simp add: mem_put_def blit_def)
qed

theorem decompress_overruns_destination_witness:
  "ntfs_decompress (replicate 4096 0) 4096 [4, 0xb0, 2, 0, 0xfc, 0xf, 0x2a] 7 = None"
proof -
  let ?ts = "[Symbol 0, Phrase 1 4095]"
  define cb :: bytes where "cb = [4, 0xb0, 2, 0, 0xfc, 0xf, 0x2a]"
  have "bodies 0 ?ts = [0, 0xfc, 0xf]" by (simp add: le_bytes_2 lg_loop.simps)
  then have cb: "cb = le_bytes 2 (0xb000 + length (bodies 0 ?ts) + 1) @ word_of_nat (tag_of ?ts) # bodies 0 ?ts @ [0x2a]" "length cb = 7"
    by (simp_all add: le_bytes_2 cb_def)
  have "toks_ok 0 ?ts" "toks_len ?ts = NTFS_SB_SIZE" by (simp_all add: NTFS_SB_SIZE_def lg_loop.simps)
  then have "ntfs_decompress (take NTFS_SB_SIZE (replicate 4097 0)) NTFS_SB_SIZE cb (length cb) = None"
    by (rule decompress_overruns_destination [OF _ _ _ _ cb(1), THEN conjunct2]) (simp_all add: NTFS_SB_SIZE_def)
  then show ?thesis by (simp add: cb(2) NTFS_SB_SIZE_def) (simp add: cb_def)
qed

end
