(* ===== verification/CompressBlock.thy ===== *)
theory CompressBlock
  imports Decompress "HOL-Library.Monad_Syntax"
begin

text \<open>
  Compression of a block of at most 4096 bytes, \<open>ntfs_best_match\<close> and \<open>ntfs_compress_block\<close> of
  \<open>libntfs_ext/source/compress.c\<close>. The pointers of the search are positions in the input buffer: \<open>p1[j]\<close> with the negative
  \<open>j\<close> of the code is the byte at \<open>p = maxpos + j\<close>, so \<open>j < 0\<close> is \<open>p < maxpos\<close>. Every access is checked, and \<open>None\<close> is an access
  outside a buffer or array, or a loop that does not end within its fuel.
\<close>

section \<open>The code\<close>

record compress_context =
  cc_inbuf :: bytes
  cc_bufsize :: nat
  cc_size :: nat
  cc_rel :: int
  cc_mxsz :: nat
  cc_head :: "int list"
  cc_lson :: "int list"
  cc_rson :: "int list"

text \<open>\<open>do { } while ((p1[j] == p2[j]) && (++j < 0))\<close>, where \<open>p2\<close> is \<open>delta\<close> bytes before \<open>p1\<close>.\<close>

function match_end :: "bytes \<Rightarrow> nat \<Rightarrow> nat \<Rightarrow> nat \<Rightarrow> nat option" where
  "match_end inbuf delta maxpos p =
     (if p \<ge> maxpos then Some p
      else do { a \<leftarrow> elem inbuf p; b \<leftarrow> elem inbuf (p - delta);
                if a = b then match_end inbuf delta maxpos (p + 1) else Some p })"
  by pat_completeness auto
termination
  by (relation "measure (\<lambda>(inbuf, delta, maxpos, p). maxpos - p)") auto

declare match_end.simps [simp del]

text \<open>The walk in the tree. It returns the end of the best match and its node, and the context with the new node.\<close>

primrec search :: "nat \<Rightarrow> compress_context \<Rightarrow> nat \<Rightarrow> nat \<Rightarrow> nat \<Rightarrow> nat \<Rightarrow> nat \<Rightarrow> (nat \<times> nat \<times> compress_context) option" where
  "search 0 c i maxpos node best bestnode = None"
| "search (Suc fuel) c i maxpos node best bestnode = do {
     p \<leftarrow> match_end (cc_inbuf c) (i - node) maxpos (i + 1);
     let (best, bestnode) = (if p > best then (p, node) else (best, bestnode));
     left \<leftarrow> (if p < maxpos then do { a \<leftarrow> elem (cc_inbuf c) p; b \<leftarrow> elem (cc_inbuf c) (p - (i - node)); Some (a < b) } else Some False);
     next \<leftarrow> elem (if left then cc_lson c else cc_rson c) node;
     if next \<ge> 0 \<and> p < maxpos then search fuel c i maxpos (nat next) best bestnode
     else Some (best, bestnode,
       if next \<ge> 0 then c
       else if left then c\<lparr>cc_lson := (cc_lson c)[node := int i]\<rparr> else c\<lparr>cc_rson := (cc_rson c)[node := int i]\<rparr>) }"

definition ntfs_best_match :: "compress_context \<Rightarrow> nat \<Rightarrow> compress_context option" where
  "ntfs_best_match c i = do {
     x \<leftarrow> elem (cc_inbuf c) i;
     node \<leftarrow> elem (cc_head c) (unat x);
     if node \<ge> 0 then do {
       let maxpos = min (cc_bufsize c) (i + cc_mxsz c);
       (best, bestnode, c) \<leftarrow> (if i + 1 < maxpos then search NTFS_SB_SIZE c i maxpos (nat node) (i + 1) (nat node)
                               else Some (i + 1, nat node, c));
       Some (c\<lparr>cc_size := best - i, cc_rel := int bestnode - int i\<rparr>) }
     else Some (c\<lparr>cc_head := (cc_head c)[unat x := int i], cc_size := 0, cc_rel := 0\<rparr>) }"

text \<open>The variables of \<open>ntfs_compress_block\<close>; \<open>mxoff\<close> is always \<open>1 << bp\<close>. \<open>cs_done\<close> is the last position searched.\<close>

record comp_state =
  cs_ctx :: compress_context
  cs_i :: nat
  cs_bp :: nat
  cs_done :: int
  cs_xout :: nat
  cs_ptag :: nat
  cs_tag :: nat
  cs_ntag :: nat
  cs_out :: bytes

text \<open>The loop that adjusts the longest match to the position, and the one that enters the positions up to it.\<close>

function adjust :: "nat \<Rightarrow> nat \<Rightarrow> nat \<Rightarrow> nat \<times> nat" where
  "adjust i bp mxsz = (if 2 ^ bp < i then adjust i (bp + 1) ((mxsz + 2) div 2) else (bp, mxsz))"
  by pat_completeness auto
termination
  by (relation "measure (\<lambda>(i, bp, mxsz). i - 2 ^ bp)") (auto intro: diff_less_mono2)

declare adjust.simps [simp del]

primrec catch_up :: "nat \<Rightarrow> int \<Rightarrow> compress_context \<Rightarrow> compress_context option" where
  "catch_up 0 dn c = Some c"
| "catch_up (Suc n) dn c = do { c \<leftarrow> ntfs_best_match c (nat (dn + 1)); catch_up n (dn + 1) c }"

definition cap_match :: "nat \<Rightarrow> nat \<Rightarrow> nat \<Rightarrow> nat" where
  "cap_match i mx j = (if j - i > mx then i + mx else j)"

text \<open>The output of a single byte, of a phrase that ends before \<open>j\<close>, and of the tag.\<close>

definition put_symbol :: "comp_state \<Rightarrow> comp_state option" where
  "put_symbol s = do {
     x \<leftarrow> elem (cc_inbuf (cs_ctx s)) (cs_i s);
     out \<leftarrow> mem_put (cs_out s) (cs_xout s) [x];
     Some (s\<lparr>cs_out := out, cs_xout := cs_xout s + 1, cs_i := cs_i s + 1\<rparr>) }"

definition put_phrase :: "int \<Rightarrow> nat \<Rightarrow> comp_state \<Rightarrow> comp_state option" where
  "put_phrase offs j s = do {
     let q = u32i (NOT offs * 2 ^ (16 - cs_bp s) + (int j - int (cs_i s) - 3));
     out \<leftarrow> mem_put (cs_out s) (cs_xout s) [word_of_nat q];
     out \<leftarrow> mem_put out (cs_xout s + 1) [word_of_nat (q div 256)];
     Some (s\<lparr>cs_out := out, cs_xout := cs_xout s + 2, cs_tag := cs_tag s OR 2 ^ (8 - cs_ntag s), cs_i := j\<rparr>) }"

definition put_tag :: "comp_state \<Rightarrow> comp_state option" where
  "put_tag s =
     (if cs_ntag s = 1 then do {
        out \<leftarrow> mem_put (cs_out s) (cs_ptag s) [word_of_nat (cs_tag s)];
        Some (s\<lparr>cs_out := out, cs_ntag := 8, cs_ptag := cs_xout s, cs_xout := cs_xout s + 1, cs_tag := 0\<rparr>) }
      else Some (s\<lparr>cs_ntag := cs_ntag s - 1\<rparr>))"

text \<open>One round of the main loop: \<open>comp_find\<close> is its first part, up to the best match at the position.\<close>

definition comp_find :: "comp_state \<Rightarrow> comp_state option" where
  "comp_find s = do {
     let (bp, mxsz) = adjust (cs_i s) (cs_bp s) (cc_mxsz (cs_ctx s));
     c \<leftarrow> catch_up (nat (int (cs_i s) - cs_done s)) (cs_done s) ((cs_ctx s)\<lparr>cc_mxsz := mxsz\<rparr>);
     Some (s\<lparr>cs_bp := bp, cs_ctx := c, cs_done := max (cs_done s) (int (cs_i s))\<rparr>) }"

definition comp_emit :: "comp_state \<Rightarrow> comp_state option" where
  "comp_emit s =
     (let i = cs_i s; mxsz = cc_mxsz (cs_ctx s); j = cap_match i mxsz (i + cc_size (cs_ctx s)) in
      if j - i > 2 then do {
        let offs = cc_rel (cs_ctx s);
        c \<leftarrow> ntfs_best_match (cs_ctx s) (i + 1);
        let s = s\<lparr>cs_ctx := c, cs_done := int (i + 1)\<rparr>;
        let mxsz2 = (if 2 ^ cs_bp s \<le> i then (mxsz + 2) div 2 else mxsz);
        let k = cap_match i mxsz2 (i + 1 + cc_size c);
        if k > j + 1 then put_symbol s else put_phrase offs j s }
      else put_symbol s)"

primrec comp_loop :: "nat \<Rightarrow> nat \<Rightarrow> comp_state \<Rightarrow> comp_state option" where
  "comp_loop 0 bufsize s = (if cs_i s < bufsize \<and> cs_xout s < NTFS_SB_SIZE + 2 then None else Some s)"
| "comp_loop (Suc fuel) bufsize s =
     (if cs_i s < bufsize \<and> cs_xout s < NTFS_SB_SIZE + 2
      then do { s \<leftarrow> comp_find s; s \<leftarrow> comp_emit s; s \<leftarrow> put_tag s; comp_loop fuel bufsize s }
      else Some s)"

text \<open>The header and what follows it when compression does not help.\<close>

definition comp_finish :: "bytes \<Rightarrow> nat \<Rightarrow> comp_state \<Rightarrow> (nat \<times> bytes) option" where
  "comp_finish inbuf bufsize s = do {
     (xout, out) \<leftarrow> (if cs_ntag s = 8 then Some (cs_xout s - 1, cs_out s)
                      else do { out \<leftarrow> mem_put (cs_out s) (cs_ptag s) [word_of_nat (cs_tag s)]; Some (cs_xout s, out) });
     if cs_i s \<ge> bufsize \<and> xout < NTFS_SB_SIZE + 2 then do {
       let h = u32i (int xout - 3);
       out \<leftarrow> mem_put out 0 [word_of_nat h, word_of_nat (0xb0 + (h div 256) mod 16)];
       Some (xout, out) }
     else do {
       x \<leftarrow> mem_get inbuf 0 bufsize;
       out \<leftarrow> mem_put out 2 x;
       out \<leftarrow> mem_put out (bufsize + 2) (replicate (NTFS_SB_SIZE - bufsize) 0);
       out \<leftarrow> mem_put out 0 [0xff, 0x3f];
       Some (NTFS_SB_SIZE + 2, out) } }"

definition comp_start :: "bytes \<Rightarrow> nat \<Rightarrow> bytes \<Rightarrow> comp_state" where
  "comp_start inbuf bufsize outbuf =
     \<lparr>cs_ctx = \<lparr>cc_inbuf = inbuf, cc_bufsize = bufsize, cc_size = 0, cc_rel = 0, cc_mxsz = 2 ^ (16 - 4) + 2,
        cc_head = replicate 256 (- 1), cc_lson = replicate NTFS_SB_SIZE (- 1), cc_rson = replicate NTFS_SB_SIZE (- 1)\<rparr>,
      cs_i = 0, cs_bp = 4, cs_done = - 1, cs_xout = 3, cs_ptag = 2, cs_tag = 0, cs_ntag = 8, cs_out = outbuf\<rparr>"

text \<open>\<open>room\<close>: the context could be allocated; without it the result is 0, and \<open>errno\<close> is \<open>ENOMEM\<close>.\<close>

definition ntfs_compress_block :: "bool \<Rightarrow> bytes \<Rightarrow> nat \<Rightarrow> bytes \<Rightarrow> (nat \<times> bytes) option" where
  "ntfs_compress_block room inbuf bufsize outbuf =
     (if room then do { s \<leftarrow> comp_loop bufsize bufsize (comp_start inbuf bufsize outbuf); comp_finish inbuf bufsize s }
      else Some (0, outbuf))"

section \<open>The search\<close>

text \<open>\<open>is_match inbuf i off len\<close>: from \<open>i\<close> the input repeats itself for \<open>len\<close> bytes, \<open>off\<close> positions back.\<close>

definition is_match :: "bytes \<Rightarrow> nat \<Rightarrow> nat \<Rightarrow> nat \<Rightarrow> bool" where
  "is_match inbuf i off len \<longleftrightarrow> 0 < off \<and> off \<le> i \<and> i + len \<le> length inbuf \<and> (\<forall>t < len. inbuf ! (i + t) = inbuf ! (i + t - off))"

text \<open>The trees hold positions before \<open>k\<close>: a root begins with its byte, a node is later than its parent and begins alike.\<close>

definition node_ok :: "nat \<Rightarrow> bytes \<Rightarrow> nat \<Rightarrow> int \<Rightarrow> bool" where
  "node_ok k inbuf n v \<longleftrightarrow> v < 0 \<or> int n < v \<and> v < int k \<and> inbuf ! nat v = inbuf ! n"

definition tree_ok :: "nat \<Rightarrow> compress_context \<Rightarrow> bool" where
  "tree_ok k c \<longleftrightarrow> length (cc_head c) = 256 \<and> length (cc_lson c) = NTFS_SB_SIZE \<and> length (cc_rson c) = NTFS_SB_SIZE
     \<and> cc_bufsize c \<le> length (cc_inbuf c) \<and> cc_bufsize c \<le> NTFS_SB_SIZE
     \<and> (\<forall>x < 256. cc_head c ! x < int k \<and> (0 \<le> cc_head c ! x \<longrightarrow> unat (cc_inbuf c ! nat (cc_head c ! x)) = x))
     \<and> (\<forall>n < NTFS_SB_SIZE. node_ok k (cc_inbuf c) n (cc_lson c ! n) \<and> node_ok k (cc_inbuf c) n (cc_rson c ! n))"

lemma tree_ok_mxsz [simp]: "tree_ok k (c\<lparr>cc_mxsz := m\<rparr>) = tree_ok k c"
  by (simp add: tree_ok_def)

text \<open>What the search leaves alone.\<close>

definition same_input :: "compress_context \<Rightarrow> compress_context \<Rightarrow> bool" where
  "same_input c c' \<longleftrightarrow> cc_inbuf c' = cc_inbuf c \<and> cc_bufsize c' = cc_bufsize c \<and> cc_mxsz c' = cc_mxsz c"

lemma same_input_refl [simp]: "same_input c c"
  by (simp add: same_input_def)

lemma same_input_trans: "same_input a b \<Longrightarrow> same_input b c \<Longrightarrow> same_input a c"
  by (simp add: same_input_def)

lemma match_end_ok:
  assumes "p \<le> maxpos" "maxpos \<le> length inbuf"
  shows "\<exists>e. match_end inbuf delta maxpos p = Some e \<and> p \<le> e \<and> e \<le> maxpos \<and> (\<forall>t. p \<le> t \<and> t < e \<longrightarrow> inbuf ! t = inbuf ! (t - delta))"
  using assms
proof (induction inbuf delta maxpos p rule: match_end.induct)
  case (1 inbuf delta maxpos p)
  show ?case
  proof (cases "p \<ge> maxpos")
    case True
    then have "match_end inbuf delta maxpos p = Some p" by (subst match_end.simps) simp
    then show ?thesis using 1(2) by auto
  next
    case False
    then have el: "elem inbuf p = Some (inbuf ! p)" "elem inbuf (p - delta) = Some (inbuf ! (p - delta))" using 1(3) by simp_all
    show ?thesis
    proof (cases "inbuf ! p = inbuf ! (p - delta)")
      case True
      obtain e where e: "match_end inbuf delta maxpos (p + 1) = Some e" "p + 1 \<le> e" "e \<le> maxpos"
          "\<forall>t. p + 1 \<le> t \<and> t < e \<longrightarrow> inbuf ! t = inbuf ! (t - delta)"
        using 1(1) [OF False el True] False 1(3) by auto
      have "match_end inbuf delta maxpos p = Some e" using False True el e(1) by (subst match_end.simps) simp
      moreover have "inbuf ! t = inbuf ! (t - delta)" if "p \<le> t" "t < e" for t
        using e(4) True that by (cases "t = p") auto
      ultimately show ?thesis using e(2,3) by auto
    next
      case ne: False
      then have "match_end inbuf delta maxpos p = Some p" using False el by (subst match_end.simps) simp
      then show ?thesis using 1(2) by auto
    qed
  qed
qed

lemma tree_ok_later: "tree_ok k c \<Longrightarrow> k \<le> k' \<Longrightarrow> tree_ok k' c"
  by (fastforce simp: tree_ok_def node_ok_def)

lemma tree_ok_enter:
  assumes "tree_ok i c" "n < i" "i < cc_bufsize c" "cc_inbuf c ! n = cc_inbuf c ! i"
  shows "tree_ok (i + 1) (c\<lparr>cc_lson := (cc_lson c)[n := int i]\<rparr>)" "tree_ok (i + 1) (c\<lparr>cc_rson := (cc_rson c)[n := int i]\<rparr>)"
proof -
  have t: "tree_ok (i + 1) c" using assms(1) by (rule tree_ok_later) simp
  have "node_ok (i + 1) (cc_inbuf c) n (int i)" using assms(2,4) by (simp add: node_ok_def)
  moreover have "n < NTFS_SB_SIZE" using assms(1-3) by (simp add: tree_ok_def)
  ultimately show "tree_ok (i + 1) (c\<lparr>cc_lson := (cc_lson c)[n := int i]\<rparr>)" "tree_ok (i + 1) (c\<lparr>cc_rson := (cc_rson c)[n := int i]\<rparr>)"
    using t by (auto simp: tree_ok_def nth_list_update)
qed

lemma search_ok:
  assumes "tree_ok i c" "maxpos \<le> cc_bufsize c" "i + 1 < maxpos" "node < i" "cc_inbuf c ! node = cc_inbuf c ! i"
    and "i + 1 \<le> best" "best \<le> maxpos" "bestnode < i" "is_match (cc_inbuf c) i (i - bestnode) (best - i)" "i \<le> node + fuel"
  shows "\<exists>best' bestnode' c'. search fuel c i maxpos node best bestnode = Some (best', bestnode', c') \<and> tree_ok (i + 1) c' \<and> same_input c c'
     \<and> i + 1 \<le> best' \<and> best' \<le> maxpos \<and> bestnode' < i \<and> is_match (cc_inbuf c) i (i - bestnode') (best' - i)"
  using assms(4-)
proof (induction fuel arbitrary: node best bestnode)
  case 0
  then show ?case by simp
next
  case (Suc fuel)
  have b: "maxpos \<le> length (cc_inbuf c)" "i < cc_bufsize c" "i < NTFS_SB_SIZE" "length (cc_lson c) = NTFS_SB_SIZE" "length (cc_rson c) = NTFS_SB_SIZE"
    using assms(1-3) by (auto simp: tree_ok_def)
  obtain p where p: "match_end (cc_inbuf c) (i - node) maxpos (i + 1) = Some p" "i + 1 \<le> p" "p \<le> maxpos"
      "\<forall>t. i + 1 \<le> t \<and> t < p \<longrightarrow> cc_inbuf c ! t = cc_inbuf c ! (t - (i - node))"
    using match_end_ok [of "i + 1" maxpos "cc_inbuf c" "i - node"] assms(3) b(1) by auto
  have m: "is_match (cc_inbuf c) i (i - node) (p - i)"
    unfolding is_match_def
  proof (intro conjI allI impI)
    fix t assume "t < p - i"
    then show "cc_inbuf c ! (i + t) = cc_inbuf c ! (i + t - (i - node))"
      using p(4) Suc.prems(1,2) by (cases "t = 0") auto
  qed (use Suc.prems(1) p(2,3) b(1) in auto)
  define bst where "bst = (if p > best then (p, node) else (best, bestnode))"
  then have bst: "i + 1 \<le> fst bst" "fst bst \<le> maxpos" "snd bst < i" "is_match (cc_inbuf c) i (i - snd bst) (fst bst - i)"
    using Suc.prems m p(2,3) by auto
  define left where "left = (p < maxpos \<and> cc_inbuf c ! p < cc_inbuf c ! (p - (i - node)))"
  then have left: "(if p < maxpos then do { a \<leftarrow> elem (cc_inbuf c) p; b \<leftarrow> elem (cc_inbuf c) (p - (i - node)); Some (a < b) } else Some False) = Some left"
    using b(1) by auto
  define nxt where "nxt = (if left then cc_lson c else cc_rson c) ! node"
  then have nxt: "elem (if left then cc_lson c else cc_rson c) node = Some nxt" using b Suc.prems(1) by simp
  have nk: "node_ok i (cc_inbuf c) node nxt" using assms(1) b(3) Suc.prems(1) by (auto simp: tree_ok_def nxt_def)
  have step: "search (Suc fuel) c i maxpos node best bestnode =
     (if nxt \<ge> 0 \<and> p < maxpos then search fuel c i maxpos (nat nxt) (fst bst) (snd bst)
      else Some (fst bst, snd bst,
        if nxt \<ge> 0 then c
        else if left then c\<lparr>cc_lson := (cc_lson c)[node := int i]\<rparr> else c\<lparr>cc_rson := (cc_rson c)[node := int i]\<rparr>))"
    unfolding search.simps p(1) bind.bind_lunit Let_def bst_def [symmetric] left nxt by (cases bst) (simp only: prod.case bind.bind_lunit fst_conv snd_conv left nxt)
  show ?case
  proof (cases "nxt \<ge> 0 \<and> p < maxpos")
    case True
    have "nat nxt < i" "cc_inbuf c ! nat nxt = cc_inbuf c ! i" "i \<le> nat nxt + fuel"
      using nk True Suc.prems(2,7) by (auto simp: node_ok_def)
    then show ?thesis
      unfolding step if_P [OF True] using bst by (intro Suc.IH)
  next
    case False
    have "tree_ok (i + 1) c" using assms(1) by (rule tree_ok_later) simp
    then have "tree_ok (i + 1) (if nxt \<ge> 0 then c
        else if left then c\<lparr>cc_lson := (cc_lson c)[node := int i]\<rparr> else c\<lparr>cc_rson := (cc_rson c)[node := int i]\<rparr>)"
      using tree_ok_enter [OF assms(1) Suc.prems(1) b(2) Suc.prems(2)] by simp
    moreover have "same_input c (if nxt \<ge> 0 then c
        else if left then c\<lparr>cc_lson := (cc_lson c)[node := int i]\<rparr> else c\<lparr>cc_rson := (cc_rson c)[node := int i]\<rparr>)"
      by (simp add: same_input_def)
    ultimately show ?thesis
      unfolding step if_not_P [OF False] using bst by blast
  qed
qed

text \<open>\<open>found i c\<close>: the context holds a match at \<open>i\<close>, or no match.\<close>

definition found :: "nat \<Rightarrow> compress_context \<Rightarrow> bool" where
  "found i c \<longleftrightarrow> i + cc_size c \<le> cc_bufsize c
     \<and> (cc_size c = 0 \<or> cc_rel c < 0 \<and> is_match (cc_inbuf c) i (nat (- cc_rel c)) (cc_size c))"

lemma best_match_ok:
  assumes "tree_ok i c" "i < cc_bufsize c" "0 < cc_mxsz c"
  shows "\<exists>c'. ntfs_best_match c i = Some c' \<and> tree_ok (i + 1) c' \<and> same_input c c' \<and> found i c'"
proof -
  let ?x = "unat (cc_inbuf c ! i)" and ?maxpos = "min (cc_bufsize c) (i + cc_mxsz c)"
  have b: "i < length (cc_inbuf c)" "length (cc_head c) = 256" "cc_bufsize c \<le> length (cc_inbuf c)" "cc_bufsize c \<le> NTFS_SB_SIZE"
    using assms(1,2) by (auto simp: tree_ok_def)
  let ?node = "cc_head c ! ?x"
  have el: "elem (cc_inbuf c) i = Some (cc_inbuf c ! i)" "elem (cc_head c) ?x = Some ?node" using b by simp_all
  have later: "tree_ok (i + 1) c" using assms(1) by (rule tree_ok_later) simp
  have node: "0 \<le> ?node \<Longrightarrow> nat ?node < i \<and> cc_inbuf c ! nat ?node = cc_inbuf c ! i"
  proof -
    assume n: "0 \<le> ?node"
    have "\<forall>x < 256. cc_head c ! x < int i \<and> (0 \<le> cc_head c ! x \<longrightarrow> unat (cc_inbuf c ! nat (cc_head c ! x)) = x)"
      using assms(1) by (simp add: tree_ok_def)
    then have "?node < int i \<and> unat (cc_inbuf c ! nat ?node) = ?x" using n unat_u8_lt [of "cc_inbuf c ! i"] by blast
    then show ?thesis using n by (simp add: word_unat_eq_iff nat_less_iff)
  qed
  show ?thesis
  proof (cases "0 \<le> ?node")
    case True
    have m: "is_match (cc_inbuf c) i (i - nat ?node) (i + 1 - i)"
      using node [OF True] b(1) by (auto simp: is_match_def)
    have "\<exists>best bestnode c'. (if i + 1 < ?maxpos then search NTFS_SB_SIZE c i ?maxpos (nat ?node) (i + 1) (nat ?node) else Some (i + 1, nat ?node, c))
        = Some (best, bestnode, c') \<and> tree_ok (i + 1) c' \<and> same_input c c' \<and> i + 1 \<le> best \<and> best \<le> ?maxpos \<and> bestnode < i
        \<and> is_match (cc_inbuf c) i (i - bestnode) (best - i)"
    proof (cases "i + 1 < ?maxpos")
      case go: True
      have "i \<le> nat ?node + NTFS_SB_SIZE" using assms(2) b(4) by simp
      then show ?thesis
        using search_ok [OF assms(1) _ go, of "nat ?node" "i + 1" "nat ?node" NTFS_SB_SIZE] node [OF True] m go by simp
    next
      case False
      then show ?thesis using later node [OF True] m assms(2,3) by auto
    qed
    then obtain best bestnode c' where r: "(if i + 1 < ?maxpos then search NTFS_SB_SIZE c i ?maxpos (nat ?node) (i + 1) (nat ?node)
        else Some (i + 1, nat ?node, c)) = Some (best, bestnode, c')" "tree_ok (i + 1) c'" "same_input c c'"
        "i + 1 \<le> best" "best \<le> ?maxpos" "bestnode < i" "is_match (cc_inbuf c) i (i - bestnode) (best - i)"
      by blast
    let ?c = "c'\<lparr>cc_size := best - i, cc_rel := int bestnode - int i\<rparr>"
    have "ntfs_best_match c i = Some ?c"
      unfolding ntfs_best_match_def el bind.bind_lunit Let_def if_P [OF True] r(1) by simp
    moreover have "tree_ok (i + 1) ?c" using r(2) by (simp add: tree_ok_def)
    moreover have "nat (int i - int bestnode) = i - bestnode" by simp
    then have "found i ?c" using r(3-7) by (simp add: found_def same_input_def)
    ultimately show ?thesis using r(3) by (simp add: same_input_def)
  next
    case False
    let ?c = "c\<lparr>cc_head := (cc_head c)[?x := int i], cc_size := 0, cc_rel := 0\<rparr>"
    have "ntfs_best_match c i = Some ?c"
      unfolding ntfs_best_match_def el bind.bind_lunit if_not_P [OF False] by simp
    moreover have "tree_ok (i + 1) ?c" using later b(2) by (auto simp: tree_ok_def nth_list_update)
    ultimately show ?thesis using assms(2) by (simp add: same_input_def found_def)
  qed
qed

lemma catch_up_ok:
  assumes "tree_ok (nat (dn + 1)) c" "- 1 \<le> dn" "nat (dn + 1) + n \<le> cc_bufsize c" "0 < cc_mxsz c"
  shows "\<exists>c'. catch_up n dn c = Some c' \<and> tree_ok (nat (dn + 1) + n) c' \<and> same_input c c' \<and> (if n = 0 then c' = c else found (nat (dn + 1) + n - 1) c')"
  using assms
proof (induction n arbitrary: dn c)
  case 0
  then show ?case by simp
next
  case (Suc n)
  let ?k = "nat (dn + 1)"
  obtain c1 where c1: "ntfs_best_match c ?k = Some c1" "tree_ok (?k + 1) c1" "same_input c c1" "found ?k c1"
    using best_match_ok [of ?k c] Suc.prems by auto
  have k: "nat (dn + 1 + 1) = ?k + 1" using Suc.prems(2) by simp
  have "\<exists>c'. catch_up n (dn + 1) c1 = Some c' \<and> tree_ok (nat (dn + 1 + 1) + n) c' \<and> same_input c1 c'
      \<and> (if n = 0 then c' = c1 else found (nat (dn + 1 + 1) + n - 1) c')"
    using Suc.prems c1(2,3) k by (intro Suc.IH) (auto simp: same_input_def)
  then obtain c' where c': "catch_up n (dn + 1) c1 = Some c'" "tree_ok (?k + 1 + n) c'" "same_input c1 c'"
      "if n = 0 then c' = c1 else found (?k + 1 + n - 1) c'"
    unfolding k by blast
  have "found (?k + Suc n - 1) c'" using c'(4) c1(4) by (cases "n = 0") auto
  then show ?case
    using c1(1) c'(1,2) same_input_trans [OF c1(3) c'(3)] by simp
qed

text \<open>The number of bits for the offset, and the longest match with the bits left.\<close>

definition bits_ok :: "nat \<Rightarrow> nat \<Rightarrow> nat \<Rightarrow> bool" where
  "bits_ok i bp mxsz \<longleftrightarrow> 4 \<le> bp \<and> mxsz = 2 ^ (16 - bp) + 2 \<and> (bp = 4 \<or> 2 ^ (bp - 1) < i)"

lemma bits_bound: "bits_ok i bp mxsz \<Longrightarrow> i \<le> NTFS_SB_SIZE \<Longrightarrow> bp \<le> 12"
proof -
  assume b: "bits_ok i bp mxsz" "i \<le> NTFS_SB_SIZE"
  show "bp \<le> 12"
  proof (rule ccontr)
    assume "\<not> bp \<le> 12"
    then have "(2 :: nat) ^ 12 \<le> 2 ^ (bp - 1)" "bp \<noteq> 4" using power_increasing [of 12 "bp - 1" "2 :: nat"] by auto
    then show False using b by (auto simp: bits_ok_def NTFS_SB_SIZE_def)
  qed
qed

lemma adjust_ok:
  assumes "bits_ok i bp mxsz" "i \<le> NTFS_SB_SIZE"
  shows "\<exists>bp' mxsz'. adjust i bp mxsz = (bp', mxsz') \<and> bits_ok i bp' mxsz' \<and> i \<le> 2 ^ bp'"
  using assms
proof (induction i bp mxsz rule: adjust.induct)
  case (1 i bp mxsz)
  show ?case
  proof (cases "2 ^ bp < i")
    case True
    then have "(2 :: nat) ^ bp < 2 ^ 12" using 1(3) by (simp add: NTFS_SB_SIZE_def)
    then have "bp < 12" by (rule power_less_imp_less_exp [rotated]) simp
    then have "(2 :: nat) ^ (16 - bp) = 2 * 2 ^ (16 - (bp + 1))" by (simp flip: power_Suc add: Suc_diff_Suc)
    then have "bits_ok i (bp + 1) ((mxsz + 2) div 2)" using 1(2) True by (simp add: bits_ok_def)
    then show ?thesis using 1(1) [OF True] 1(3) True by (subst adjust.simps) simp
  next
    case False
    then show ?thesis using 1(2) by (subst adjust.simps) simp
  qed
qed

lemma bits_lg: "bits_ok i bp mxsz \<Longrightarrow> i \<le> 2 ^ bp \<Longrightarrow> 0 < i \<Longrightarrow> lg_loop (i - 1) = bp - 4"
proof (rule lg_loop_eq)
  assume b: "bits_ok i bp mxsz" "i \<le> 2 ^ bp" "0 < i"
  have e: "4 + (bp - 4) = bp" using b(1) by (simp add: bits_ok_def)
  have "i - 1 < 2 ^ bp" using b(2,3) by simp
  then show "i - 1 < 2 ^ (4 + (bp - 4))" by (simp only: e)
  show "bp - 4 = 0 \<or> 2 ^ (3 + (bp - 4)) \<le> i - 1"
  proof (cases "bp = 4")
    case False
    then have "3 + (bp - 4) = bp - 1" "2 ^ (bp - 1) < i" using b(1) by (auto simp: bits_ok_def)
    moreover from this(2) have "2 ^ (bp - 1) \<le> i - 1" by linarith
    ultimately show ?thesis by (simp only: simp_thms)
  qed simp
qed

section \<open>The output\<close>

lemma enc_append: "8 dvd length xs \<Longrightarrow> enc p (xs @ ys) = enc p xs @ enc (p + toks_len xs) ys"
proof (induction p xs rule: enc.induct)
  case (1 p xs)
  show ?case
  proof (cases "xs = []")
    case False
    then have "8 \<le> length xs" using dvd_imp_le [OF 1(2)] by simp
    then have "take 8 (xs @ ys) = take 8 xs" "drop 8 (xs @ ys) = drop 8 xs @ ys" by simp_all
    moreover have "8 dvd length (drop 8 xs)" using 1(2) \<open>8 \<le> length xs\<close> by (simp add: dvd_diff_nat)
    moreover have "toks_len (take 8 xs) + toks_len (drop 8 xs) = toks_len xs"
      using toks_len_simps(3) [of "take 8 xs" "drop 8 xs"] by simp
    ultimately show ?thesis
      using 1(1) False by (subst enc.simps, subst (2) enc.simps) (simp add: add.assoc del: take_append drop_append)
  qed simp
qed

lemma enc_group: "ts \<noteq> [] \<Longrightarrow> length ts \<le> 8 \<Longrightarrow> enc p ts = word_of_nat (tag_of ts) # bodies p ts"
  by (subst enc.simps) simp

lemma lz_copy_match:
  "is_match inbuf i off len \<Longrightarrow> lz_copy len off (take i inbuf) = take (i + len) inbuf"
proof (induction len)
  case 0
  then show ?case by simp
next
  case (Suc len)
  have m: "is_match inbuf i off len" "inbuf ! (i + len) = inbuf ! (i + len - off)" "i + len < length inbuf" "0 < off" "off \<le> i"
    using Suc.prems by (auto simp: is_match_def)
  have "lz_copy (Suc len) off (take i inbuf) = lz_copy 1 off (lz_copy len off (take i inbuf))"
    using lz_copy_add [of len 1 off "take i inbuf"] by simp
  also have "\<dots> = take (i + len) inbuf @ [take (i + len) inbuf ! (i + len - off)]" using Suc.IH [OF m(1)] m(3) by simp
  also have "take (i + len) inbuf ! (i + len - off) = inbuf ! (i + len)" using m by simp
  also have "take (i + len) inbuf @ [inbuf ! (i + len)] = take (i + Suc len) inbuf"
    using m(3) by (simp add: take_Suc_conv_app_nth)
  finally show ?case .
qed

text \<open>The output so far: whole groups of eight tokens, and a group whose tag is not stored yet.\<close>

definition out_ok :: "token list \<Rightarrow> token list \<Rightarrow> comp_state \<Rightarrow> bool" where
  "out_ok full part s \<longleftrightarrow> 8 dvd length full \<and> toks_ok 0 (full @ part) \<and> toks_len (full @ part) = cs_i s
     \<and> cs_i s \<le> length (cc_inbuf (cs_ctx s)) \<and> lz_run (full @ part) [] = take (cs_i s) (cc_inbuf (cs_ctx s))
     \<and> NTFS_SB_SIZE + 4 \<le> length (cs_out s) \<and> lies_at (cs_out s) 2 (enc 0 full) \<and> cs_ptag s = 2 + length (enc 0 full)
     \<and> lies_at (cs_out s) (cs_ptag s + 1) (bodies (toks_len full) part)
     \<and> cs_xout s = cs_ptag s + 1 + length (bodies (toks_len full) part) \<and> cs_tag s = tag_of part"

lemma put_symbol_ok:
  assumes "out_ok full part s" "cs_i s < length (cc_inbuf (cs_ctx s))" "cs_i s < NTFS_SB_SIZE" "cs_xout s < NTFS_SB_SIZE + 2"
  shows "\<exists>s'. put_symbol s = Some s' \<and> out_ok full (part @ [Symbol (cc_inbuf (cs_ctx s) ! cs_i s)]) s' \<and> cs_i s' = cs_i s + 1
     \<and> cs_ctx s' = cs_ctx s \<and> cs_done s' = cs_done s \<and> cs_bp s' = cs_bp s \<and> cs_ntag s' = cs_ntag s \<and> length (cs_out s') = length (cs_out s)"
proof -
  let ?x = "cc_inbuf (cs_ctx s) ! cs_i s" and ?out = "blit (cs_out s) (cs_xout s) [cc_inbuf (cs_ctx s) ! cs_i s]"
  let ?s = "s\<lparr>cs_out := ?out, cs_xout := cs_xout s + 1, cs_i := cs_i s + 1\<rparr>"
  note o = assms(1) [unfolded out_ok_def]
  have len: "cs_xout s + length [?x] \<le> length (cs_out s)" using o assms(4) by simp
  have "put_symbol s = Some ?s"
    using assms(2) len by (simp add: put_symbol_def mem_put_def)
  moreover have "lies_at ?out 2 (enc 0 full)" "lies_at ?out (cs_ptag s + 1) (bodies (toks_len full) part)" "lies_at ?out (cs_xout s) [?x]"
    using o len by (auto intro!: lies_at_blit_other lies_at_blit)
  then have "out_ok full (part @ [Symbol ?x]) ?s"
    using o assms(2,3) len unfolding out_ok_def
    by (simp add: bodies_append tag_of_append take_Suc_conv_app_nth del: append_assoc add: append_assoc [symmetric])
  ultimately show ?thesis using len by auto
qed

lemma or_exp: "a < 2 ^ k \<Longrightarrow> a OR 2 ^ k = a + 2 ^ (k :: nat)" for a :: nat
proof -
  assume "a < 2 ^ k"
  then have "\<not> bit a k" by (simp add: bit_iff_odd)
  then have "a AND 2 ^ k = 0" by (simp add: and_exp_eq_0_iff_not_bit)
  then show ?thesis by (simp add: disjunctive_add_eq_or)
qed

lemma put_phrase_ok:
  assumes "out_ok full part s" "is_match (cc_inbuf (cs_ctx s)) (cs_i s) off len" "offs = - int off" "3 \<le> len" "len \<le> mxsz"
    and "bits_ok (cs_i s) (cs_bp s) mxsz" "cs_i s \<le> 2 ^ cs_bp s" "cs_i s + len \<le> NTFS_SB_SIZE" "cs_xout s < NTFS_SB_SIZE + 2"
    and "length part < 8" "cs_ntag s = 8 - length part"
  shows "\<exists>s'. put_phrase offs (cs_i s + len) s = Some s' \<and> out_ok full (part @ [Phrase off len]) s' \<and> cs_i s' = cs_i s + len
     \<and> cs_ctx s' = cs_ctx s \<and> cs_done s' = cs_done s \<and> cs_bp s' = cs_bp s \<and> cs_ntag s' = cs_ntag s \<and> length (cs_out s') = length (cs_out s)"
proof -
  let ?i = "cs_i s" and ?bp = "cs_bp s"
  have off: "0 < off" "off \<le> ?i" "?i + len \<le> length (cc_inbuf (cs_ctx s))" using assms(2) by (auto simp: is_match_def)
  have bp: "4 \<le> ?bp" "?bp \<le> 12" using bits_bound [OF assms(6)] assms(6,8) by (auto simp: bits_ok_def)
  have lg: "lg_loop (?i - 1) = ?bp - 4" using bits_lg [OF assms(6,7)] off by simp
  have k: "16 - ?bp = 12 - lg_loop (?i - 1)" using lg bp by simp
  have len: "len - 3 < 2 ^ (12 - lg_loop (?i - 1))" using assms(4-6) unfolding bits_ok_def k by simp
  define q where "q = (off - 1) * 2 ^ (12 - lg_loop (?i - 1)) + (len - 3)"
  have "off - 1 < 2 ^ (4 + lg_loop (?i - 1))" using lg_loop_bound [of "?i - 1"] off by simp
  moreover have "4 + lg_loop (?i - 1) + (12 - lg_loop (?i - 1)) = 16" using lg bp by simp
  ultimately have q16: "q < 2 ^ 16" using pack_unpack(3) [OF len] unfolding q_def by metis
  have "NOT offs * 2 ^ (16 - ?bp) + (int (?i + len) - int ?i - 3) = int q"
    using off(1) assms(4) by (simp add: assms(3) not_int_def q_def k of_nat_diff)
  then have q: "u32i (NOT offs * 2 ^ (16 - ?bp) + (int (?i + len) - int ?i - 3)) = q" using q16 by (simp add: u32i_def)
  have body: "body ?i (Phrase off len) = [word_of_nat q, word_of_nat (q div 256)]" by (simp add: q_def le_bytes_2)
  note o = assms(1) [unfolded out_ok_def]
  let ?out = "blit (cs_out s) (cs_xout s) [word_of_nat q, word_of_nat (q div 256)]"
  let ?s = "s\<lparr>cs_out := ?out, cs_xout := cs_xout s + 2, cs_tag := cs_tag s OR 2 ^ (8 - cs_ntag s), cs_i := ?i + len\<rparr>"
  have room: "cs_xout s + length [word_of_nat q :: u8, word_of_nat (q div 256)] \<le> length (cs_out s)" using o assms(9) by simp
  have "blit (blit (cs_out s) (cs_xout s) [word_of_nat q]) (cs_xout s + 1) [word_of_nat (q div 256)] = ?out"
    using blit_append [of "cs_xout s" "[word_of_nat q]" "[word_of_nat (q div 256)]" "cs_out s"] room by simp
  then have "put_phrase offs (?i + len) s = Some ?s"
    using room unfolding put_phrase_def Let_def q by (simp add: mem_put_def)
  moreover have "cs_tag s OR 2 ^ (8 - cs_ntag s) = tag_of (part @ [Phrase off len])"
  proof -
    have "8 - cs_ntag s = length part" using assms(10,11) by simp
    then show ?thesis using o or_exp [OF tag_of_bound [of part]] by (simp add: tag_of_append)
  qed
  moreover have "lies_at ?out 2 (enc 0 full)" "lies_at ?out (cs_ptag s + 1) (bodies (toks_len full) part)"
      "lies_at ?out (cs_xout s) (body ?i (Phrase off len))"
    using o room unfolding body by (auto intro!: lies_at_blit_other lies_at_blit simp del: lies_at_Cons)
  moreover have "length (body ?i (Phrase off len)) = 2" by simp
  moreover have "lz_copy len off (take ?i (cc_inbuf (cs_ctx s))) = take (?i + len) (cc_inbuf (cs_ctx s))"
    using assms(2) by (rule lz_copy_match)
  ultimately have "out_ok full (part @ [Phrase off len]) ?s"
    using o off len assms(4,8) room unfolding out_ok_def
    by (simp add: bodies_append take_Suc_conv_app_nth del: append_assoc body.simps length_body add: append_assoc [symmetric])
  then show ?thesis using \<open>put_phrase offs (?i + len) s = Some ?s\<close> room by auto
qed

text \<open>The tag is stored after the eighth token.\<close>

lemma put_tag_ok:
  assumes "out_ok full part s" "part \<noteq> []" "length part \<le> 8" "cs_ntag s = 9 - length part" "cs_xout s < NTFS_SB_SIZE + 4"
  shows "\<exists>s' full' part'. put_tag s = Some s' \<and> out_ok full' part' s' \<and> full' @ part' = full @ part \<and> length part' < 8
     \<and> cs_ntag s' = 8 - length part' \<and> cs_i s' = cs_i s \<and> cs_ctx s' = cs_ctx s \<and> cs_done s' = cs_done s \<and> cs_bp s' = cs_bp s
     \<and> length (cs_out s') = length (cs_out s)"
proof (cases "length part = 8")
  case False
  let ?s = "s\<lparr>cs_ntag := cs_ntag s - 1\<rparr>"
  have "cs_ntag s \<noteq> 1" using False assms(3,4) by simp
  then have "put_tag s = Some ?s" by (simp add: put_tag_def)
  moreover have "out_ok full part ?s" using assms(1) by (auto simp: out_ok_def)
  ultimately show ?thesis using False assms(2-4) by force
next
  case True
  note o = assms(1) [unfolded out_ok_def]
  let ?tag = "[word_of_nat (cs_tag s)] :: bytes"
  let ?out = "blit (cs_out s) (cs_ptag s) ?tag"
  let ?s = "s\<lparr>cs_out := ?out, cs_ntag := 8, cs_ptag := cs_xout s, cs_xout := cs_xout s + 1, cs_tag := 0\<rparr>"
  have room: "cs_ptag s + length ?tag \<le> length (cs_out s)" using o assms(5) by simp
  have s: "put_tag s = Some ?s" using True assms(4) room by (simp add: put_tag_def mem_put_def)
  have e: "enc 0 (full @ part) = enc 0 full @ ?tag @ bodies (toks_len full) part"
    using o enc_append [of full 0 part] enc_group [OF assms(2,3)] by simp
  have "lies_at ?out 2 (enc 0 full)" "lies_at ?out (cs_ptag s + 1) (bodies (toks_len full) part)" "lies_at ?out (cs_ptag s) ?tag"
    using o room by (auto intro!: lies_at_blit_other lies_at_blit)
  moreover have "cs_ptag s = 2 + length (enc 0 full)" using o by simp
  ultimately have "lies_at ?out 2 (enc 0 (full @ part))" unfolding e lies_at_append by simp
  moreover have "cs_xout s = 2 + length (enc 0 (full @ part))" using o unfolding e by simp
  moreover have "8 dvd length (full @ part)" using o True by simp
  ultimately have "out_ok (full @ part) [] ?s"
    using o room assms(5) unfolding out_ok_def by simp
  then show ?thesis using s room by force
qed

section \<open>The main loop\<close>

text \<open>The state of the search between two rounds: all positions up to \<open>cs_done\<close> are in the trees.\<close>

definition find_ok :: "comp_state \<Rightarrow> bool" where
  "find_ok s \<longleftrightarrow> - 1 \<le> cs_done s \<and> cs_done s \<le> int (cs_i s) \<and> tree_ok (nat (cs_done s + 1)) (cs_ctx s)
     \<and> cs_done s < int (cc_bufsize (cs_ctx s)) \<and> (cs_done s = int (cs_i s) \<longrightarrow> found (cs_i s) (cs_ctx s))
     \<and> bits_ok (cs_i s) (cs_bp s) (cc_mxsz (cs_ctx s))"

lemma bits_pos: "bits_ok i bp mxsz \<Longrightarrow> 0 < mxsz"
  by (simp add: bits_ok_def)

lemma comp_find_ok:
  assumes "find_ok s" "cs_i s < cc_bufsize (cs_ctx s)"
  shows "\<exists>c bp. comp_find s = Some (s\<lparr>cs_bp := bp, cs_ctx := c, cs_done := int (cs_i s)\<rparr>) \<and> tree_ok (cs_i s + 1) c \<and> found (cs_i s) c
     \<and> cc_inbuf c = cc_inbuf (cs_ctx s) \<and> cc_bufsize c = cc_bufsize (cs_ctx s) \<and> bits_ok (cs_i s) bp (cc_mxsz c) \<and> cs_i s \<le> 2 ^ bp"
proof -
  let ?i = "cs_i s" and ?c = "cs_ctx s" and ?dn = "cs_done s"
  note f = assms(1) [unfolded find_ok_def]
  have i: "?i \<le> NTFS_SB_SIZE" using f assms(2) by (simp add: tree_ok_def)
  obtain bp mxsz where a: "adjust ?i (cs_bp s) (cc_mxsz ?c) = (bp, mxsz)" "bits_ok ?i bp mxsz" "?i \<le> 2 ^ bp"
    using adjust_ok [OF _ i] f by blast
  let ?c1 = "?c\<lparr>cc_mxsz := mxsz\<rparr>" and ?n = "nat (int ?i - ?dn)"
  have t: "tree_ok (nat (?dn + 1)) ?c1" using f by simp
  have k: "nat (?dn + 1) + ?n = ?i + 1" using f by (subst nat_add_distrib [symmetric]) auto
  obtain c where c: "catch_up ?n ?dn ?c1 = Some c" "tree_ok (?i + 1) c" "same_input ?c1 c" "if ?n = 0 then c = ?c1 else found (?i + 1 - 1) c"
    using catch_up_ok [OF t, of ?n] f assms(2) bits_pos [OF a(2)] unfolding k by auto
  have "found ?i c"
  proof (cases "?n = 0")
    case True
    then have "found ?i ?c" "c = ?c1" using f c(4) by auto
    then show ?thesis by (simp add: found_def)
  qed (use c(4) in simp)
  moreover have "comp_find s = Some (s\<lparr>cs_bp := bp, cs_ctx := c, cs_done := int ?i\<rparr>)"
    unfolding comp_find_def Let_def a(1) using c(1) f by (simp add: max_def)
  ultimately show ?thesis using c(2,3) a(2,3) by (auto simp: same_input_def)
qed

lemma comp_emit_ok:
  assumes "tree_ok (cs_i s + 1) (cs_ctx s)" "found (cs_i s) (cs_ctx s)" "bits_ok (cs_i s) (cs_bp s) (cc_mxsz (cs_ctx s))"
    and "cs_i s \<le> 2 ^ cs_bp s" "cs_done s = int (cs_i s)" "cs_i s < cc_bufsize (cs_ctx s)"
    and "out_ok full part s" "length part < 8" "cs_ntag s = 8 - length part" "cs_xout s < NTFS_SB_SIZE + 2"
  shows "\<exists>s' t. comp_emit s = Some s' \<and> find_ok s' \<and> out_ok full (part @ [t]) s' \<and> cs_ntag s' = cs_ntag s \<and> cs_i s < cs_i s'
     \<and> cs_i s' \<le> cc_bufsize (cs_ctx s') \<and> cc_inbuf (cs_ctx s') = cc_inbuf (cs_ctx s) \<and> cc_bufsize (cs_ctx s') = cc_bufsize (cs_ctx s)
     \<and> length (cs_out s') = length (cs_out s)"
proof -
  let ?i = "cs_i s" and ?c = "cs_ctx s"
  define j where "j = cap_match ?i (cc_mxsz ?c) (?i + cc_size ?c)"
  have b: "cc_bufsize ?c \<le> length (cc_inbuf ?c)" "cc_bufsize ?c \<le> NTFS_SB_SIZE" using assms(1) by (auto simp: tree_ok_def)
  have bits: "bits_ok i (cs_bp s) (cc_mxsz ?c)" if "?i \<le> i" for i using assms(3) that by (auto simp: bits_ok_def)
  show ?thesis
  proof (cases "j - ?i > 2")
    case False
    obtain s' where s': "put_symbol s = Some s'" "out_ok full (part @ [Symbol (cc_inbuf ?c ! ?i)]) s'" "cs_i s' = ?i + 1" "cs_ctx s' = ?c"
        "cs_done s' = cs_done s" "cs_bp s' = cs_bp s" "cs_ntag s' = cs_ntag s" "length (cs_out s') = length (cs_out s)"
      using put_symbol_ok [OF assms(7) _ _ assms(10)] assms(6) b by auto
    have "find_ok s'" using s' assms(1,5,6) bits [of "?i + 1"] by (simp add: find_ok_def nat_add_distrib)
    moreover have "comp_emit s = put_symbol s" using False by (simp add: comp_emit_def Let_def j_def)
    ultimately show ?thesis using s' assms(6) by auto
  next
    case True
    have j: "j \<le> ?i + cc_size ?c" "j \<le> ?i + cc_mxsz ?c" using True by (auto simp: j_def cap_match_def)
    have sz: "cc_size ?c \<noteq> 0" using j True by auto
    then have m: "cc_rel ?c < 0" "is_match (cc_inbuf ?c) ?i (nat (- cc_rel ?c)) (cc_size ?c)" "?i + cc_size ?c \<le> cc_bufsize ?c"
      using assms(2) by (auto simp: found_def)
    have i1: "?i + 1 < cc_bufsize ?c" using m(3) j True by linarith
    obtain c where c: "ntfs_best_match ?c (?i + 1) = Some c" "tree_ok (?i + 1 + 1) c" "same_input ?c c" "found (?i + 1) c"
      using best_match_ok [OF assms(1) i1] bits_pos [OF assms(3)] by auto
    let ?s = "s\<lparr>cs_ctx := c, cs_done := int (?i + 1)\<rparr>"
    have o: "out_ok full part ?s" using assms(7) c(3) by (auto simp: out_ok_def same_input_def)
    have c': "cc_inbuf c = cc_inbuf ?c" "cc_bufsize c = cc_bufsize ?c" "cc_mxsz c = cc_mxsz ?c" using c(3) by (auto simp: same_input_def)
    define k where "k = cap_match ?i (if 2 ^ cs_bp s \<le> ?i then (cc_mxsz ?c + 2) div 2 else cc_mxsz ?c) (?i + 1 + cc_size c)"
    have e: "comp_emit s = (if k > j + 1 then put_symbol ?s else put_phrase (cc_rel ?c) j ?s)"
      using True c(1) by (simp add: comp_emit_def Let_def j_def k_def)
    show ?thesis
    proof (cases "k > j + 1")
      case True
      obtain s' where s': "put_symbol ?s = Some s'" "out_ok full (part @ [Symbol (cc_inbuf c ! ?i)]) s'" "cs_i s' = ?i + 1" "cs_ctx s' = c"
          "cs_done s' = int (?i + 1)" "cs_bp s' = cs_bp s" "cs_ntag s' = cs_ntag s" "length (cs_out s') = length (cs_out s)"
        using put_symbol_ok [OF o] assms(6,10) b c' by auto
      have "find_ok s'" using s' c(2,4) c' i1 bits [of "?i + 1"] by (simp add: find_ok_def nat_add_distrib)
      then show ?thesis using e True s' c' assms(6) by auto
    next
      case False
      have off: "is_match (cc_inbuf ?c) ?i (nat (- cc_rel ?c)) (j - ?i)" using m(2) j(1) by (auto simp: is_match_def)
      have "\<exists>s'. put_phrase (cc_rel ?c) (?i + (j - ?i)) ?s = Some s' \<and> out_ok full (part @ [Phrase (nat (- cc_rel ?c)) (j - ?i)]) s' \<and> cs_i s' = ?i + (j - ?i)
          \<and> cs_ctx s' = c \<and> cs_done s' = int (?i + 1) \<and> cs_bp s' = cs_bp s \<and> cs_ntag s' = cs_ntag s \<and> length (cs_out s') = length (cs_out s)"
        using put_phrase_ok [OF o, of "nat (- cc_rel ?c)" "j - ?i" "cc_rel ?c" "cc_mxsz ?c"] off m \<open>j - ?i > 2\<close> j assms(3,4,8-10) b c' by simp
      then obtain s' where s': "put_phrase (cc_rel ?c) j ?s = Some s'" "out_ok full (part @ [Phrase (nat (- cc_rel ?c)) (j - ?i)]) s'" "cs_i s' = j"
          "cs_ctx s' = c" "cs_done s' = int (?i + 1)" "cs_bp s' = cs_bp s" "cs_ntag s' = cs_ntag s" "length (cs_out s') = length (cs_out s)"
        using \<open>j - ?i > 2\<close> by auto
      have "int (?i + 1) < int j" using \<open>j - ?i > 2\<close> by linarith
      then have "find_ok s'" using s' c(2) c' i1 bits [of j] by (simp add: find_ok_def nat_add_distrib)
      then show ?thesis using e False s' c' m(3) j(1) \<open>j - ?i > 2\<close> by auto
    qed
  qed
qed

text \<open>The invariant of the loop, and that \<open>bufsize\<close> rounds are enough.\<close>

definition comp_ok :: "bytes \<Rightarrow> nat \<Rightarrow> token list \<Rightarrow> token list \<Rightarrow> comp_state \<Rightarrow> bool" where
  "comp_ok inbuf bufsize full part s \<longleftrightarrow> find_ok s \<and> out_ok full part s \<and> length part < 8 \<and> cs_ntag s = 8 - length part
     \<and> cc_inbuf (cs_ctx s) = inbuf \<and> cc_bufsize (cs_ctx s) = bufsize \<and> cs_i s \<le> bufsize"

lemma comp_round_ok:
  assumes "comp_ok inbuf bufsize full part s" "cs_i s < bufsize" "cs_xout s < NTFS_SB_SIZE + 2"
  shows "\<exists>s1 s2 s3 full' part'. comp_find s = Some s1 \<and> comp_emit s1 = Some s2 \<and> put_tag s2 = Some s3
     \<and> comp_ok inbuf bufsize full' part' s3 \<and> cs_i s < cs_i s3 \<and> length (cs_out s3) = length (cs_out s)"
proof -
  note c = assms(1) [unfolded comp_ok_def]
  obtain ctx bp where f: "comp_find s = Some (s\<lparr>cs_bp := bp, cs_ctx := ctx, cs_done := int (cs_i s)\<rparr>)" "tree_ok (cs_i s + 1) ctx" "found (cs_i s) ctx"
      "cc_inbuf ctx = inbuf" "cc_bufsize ctx = bufsize" "bits_ok (cs_i s) bp (cc_mxsz ctx)" "cs_i s \<le> 2 ^ bp"
    using comp_find_ok [of s] c assms(2) by auto
  let ?s = "s\<lparr>cs_bp := bp, cs_ctx := ctx, cs_done := int (cs_i s)\<rparr>"
  have o: "out_ok full part ?s" using c f(4) by (auto simp: out_ok_def)
  obtain s2 t where s2: "comp_emit ?s = Some s2" "find_ok s2" "out_ok full (part @ [t]) s2" "cs_ntag s2 = cs_ntag s" "cs_i s < cs_i s2"
      "cs_i s2 \<le> bufsize" "cc_inbuf (cs_ctx s2) = inbuf" "cc_bufsize (cs_ctx s2) = bufsize" "length (cs_out s2) = length (cs_out s)"
    using comp_emit_ok [of ?s full part] o f(2-) assms(2,3) c by auto
  have "cs_xout s2 \<le> cs_xout s + 2"
  proof -
    have p: "cs_ptag s2 = cs_ptag s" using s2(3) c by (simp add: out_ok_def)
    have "length (body (toks_len full + toks_len part) t) \<le> 2" by (cases t) auto
    then show ?thesis using s2(3) c p by (simp add: out_ok_def bodies_append del: length_body)
  qed
  then obtain s3 full' part' where s3: "put_tag s2 = Some s3" "out_ok full' part' s3" "length part' < 8" "cs_ntag s3 = 8 - length part'"
      "cs_i s3 = cs_i s2" "cs_ctx s3 = cs_ctx s2" "cs_done s3 = cs_done s2" "cs_bp s3 = cs_bp s2" "length (cs_out s3) = length (cs_out s2)"
    using put_tag_ok [OF s2(3)] c s2(4) assms(3) by auto
  have "comp_ok inbuf bufsize full' part' s3" using s2 s3 by (simp add: comp_ok_def find_ok_def)
  then show ?thesis using f(1) s2(1,5,9) s3(1,5,9) by auto
qed

lemma comp_loop_ok:
  "comp_ok inbuf bufsize full part s \<Longrightarrow> bufsize - cs_i s \<le> fuel \<Longrightarrow>
   \<exists>s' full' part'. comp_loop fuel bufsize s = Some s' \<and> comp_ok inbuf bufsize full' part' s' \<and> length (cs_out s') = length (cs_out s)
     \<and> (bufsize \<le> cs_i s' \<or> NTFS_SB_SIZE + 2 \<le> cs_xout s')"
proof (induction fuel arbitrary: full part s)
  case 0
  then show ?case by force
next
  case (Suc fuel)
  show ?case
  proof (cases "cs_i s < bufsize \<and> cs_xout s < NTFS_SB_SIZE + 2")
    case True
    obtain s1 s2 s3 full' part' where r: "comp_find s = Some s1" "comp_emit s1 = Some s2" "put_tag s2 = Some s3"
        "comp_ok inbuf bufsize full' part' s3" "cs_i s < cs_i s3" "length (cs_out s3) = length (cs_out s)"
      using comp_round_ok [OF Suc.prems(1)] True by blast
    have "comp_loop (Suc fuel) bufsize s = comp_loop fuel bufsize s3" using True r(1-3) by simp
    moreover have "bufsize - cs_i s3 \<le> fuel" using r(5) Suc.prems(2) True by linarith
    ultimately show ?thesis using Suc.IH [OF r(4)] r(6) by simp
  next
    case False
    then have "comp_loop (Suc fuel) bufsize s = Some s" by (simp only: comp_loop.simps if_not_P if_False)
    then show ?thesis using False Suc.prems(1) by fastforce
  qed
qed

lemma comp_start_ok:
  assumes "bufsize \<le> length inbuf" "bufsize \<le> NTFS_SB_SIZE" "0 < bufsize" "NTFS_SB_SIZE + 4 \<le> length outbuf"
  shows "comp_ok inbuf bufsize [] [] (comp_start inbuf bufsize outbuf)"
proof -
  have t: "tree_ok 0 (cs_ctx (comp_start inbuf bufsize outbuf))"
    using assms by (simp add: tree_ok_def comp_start_def node_ok_def)
  show ?thesis
    using assms t by (simp add: comp_ok_def find_ok_def out_ok_def comp_start_def bits_ok_def)
qed

section \<open>The block\<close>

lemma header_bytes:
  assumes "h < NTFS_SB_SIZE"
  shows "[word_of_nat h, word_of_nat (0xb0 + (h div 256) mod 16)] = le_bytes 2 (0xb000 + h)"
proof -
  have "(0xb000 + h) div 256 = 0xb0 + (h div 256) mod 16" using assms by (simp add: NTFS_SB_SIZE_def)
  moreover have "(word_of_nat (0xb000 + h) :: u8) = word_of_nat h"
  proof -
    have "(h + 176 * 2 ^ 8) mod 2 ^ 8 = h mod 2 ^ 8" by (rule mod_mult_self1)
    moreover have "h + 176 * 2 ^ 8 = 0xb000 + h" by simp
    ultimately have "(0xb000 + h) mod 2 ^ LENGTH(8) = h mod 2 ^ LENGTH(8)" by (simp only: len_num0 len_bit0 len_num1) simp
    then show ?thesis by (simp only: word_unat_eq_iff unat_of_nat)
  qed
  ultimately show ?thesis by (simp only: le_bytes_2)
qed

text \<open>What the code does with the last tag.\<close>

lemma last_tag_ok:
  assumes "comp_ok inbuf bufsize full part s"
  shows "\<exists>out. (if cs_ntag s = 8 then Some (cs_xout s - 1, cs_out s)
      else do { out \<leftarrow> mem_put (cs_out s) (cs_ptag s) [word_of_nat (cs_tag s)]; Some (cs_xout s, out) }) = Some (2 + length (enc 0 (full @ part)), out)
     \<and> lies_at out 2 (enc 0 (full @ part)) \<and> length out = length (cs_out s)"
proof (cases "part = []")
  case True
  then show ?thesis using assms by (auto simp: comp_ok_def out_ok_def)
next
  case False
  note c = assms [unfolded comp_ok_def]
  note o = conjunct1 [OF conjunct2 [OF c], unfolded out_ok_def]
  let ?tag = "[word_of_nat (cs_tag s)] :: bytes"
  let ?out = "blit (cs_out s) (cs_ptag s) ?tag"
  have lies: "cs_ptag s + 1 + length (bodies (toks_len full) part) \<le> length (cs_out s)" using o lies_at_mono by blast
  then have room: "cs_ptag s + length ?tag \<le> length (cs_out s)" by simp
  have "1 \<le> length part" using False by (cases part) auto
  then have ntag: "cs_ntag s \<noteq> 8" using c by auto
  have e: "enc 0 (full @ part) = enc 0 full @ ?tag @ bodies (toks_len full) part"
    using o c enc_append [of full 0 part] enc_group [OF False] by simp
  have "lies_at ?out 2 (enc 0 full)" "lies_at ?out (cs_ptag s + 1) (bodies (toks_len full) part)" "lies_at ?out (cs_ptag s) ?tag"
    using o room by (auto intro!: lies_at_blit_other lies_at_blit)
  moreover have p: "cs_ptag s = 2 + length (enc 0 full)" using o by simp
  ultimately have "lies_at ?out 2 (enc 0 (full @ part))" unfolding e lies_at_append by simp
  moreover have "cs_xout s = 2 + length (enc 0 (full @ part))" using o p unfolding e by simp
  moreover have "mem_put (cs_out s) (cs_ptag s) ?tag = Some ?out" using room by (rule mem_put_SomeI)
  ultimately show ?thesis using ntag room by simp
qed

definition is_block :: "bytes \<Rightarrow> nat \<Rightarrow> bytes \<Rightarrow> subblock \<Rightarrow> bool" where
  "is_block inbuf sz out b \<longleftrightarrow> sb_ok b \<and> lies_at out 0 (sb_bytes b) \<and> sz = length (sb_bytes b) \<and> sb_data b = pad_sb inbuf"

lemma stored_block_ok:
  assumes "bufsize \<le> length inbuf" "bufsize \<le> NTFS_SB_SIZE" "NTFS_SB_SIZE + 4 \<le> length out"
  shows "\<exists>out'. do { x \<leftarrow> mem_get inbuf 0 bufsize; out \<leftarrow> mem_put out 2 x; out \<leftarrow> mem_put out (bufsize + 2) (replicate (NTFS_SB_SIZE - bufsize) 0);
       out \<leftarrow> mem_put out 0 [0xff, 0x3f]; Some (NTFS_SB_SIZE + 2, out) } = Some (NTFS_SB_SIZE + 2, out')
     \<and> is_block (take bufsize inbuf) (NTFS_SB_SIZE + 2) out' (Stored (pad_sb (take bufsize inbuf))) \<and> length out' = length out"
proof -
  let ?x = "take bufsize inbuf" and ?z = "replicate (NTFS_SB_SIZE - bufsize) 0 :: bytes"
  let ?o1 = "blit out 2 ?x"
  let ?o2 = "blit ?o1 (bufsize + 2) ?z"
  have len: "length ?x = bufsize" "2 + length ?x \<le> length out" "bufsize + 2 + length ?z \<le> length out" using assms by auto
  have o2: "?o2 = blit out 2 (?x @ ?z)" using len blit_append [of 2 ?x ?z out] by (simp add: add.commute)
  have m: "mem_get inbuf 0 bufsize = Some ?x" "mem_put out 2 ?x = Some ?o1" "mem_put ?o1 (bufsize + 2) ?z = Some (blit out 2 (?x @ ?z))"
      "mem_put (blit out 2 (?x @ ?z)) 0 [0xff, 0x3f] = Some (blit (blit out 2 (?x @ ?z)) 0 [0xff, 0x3f])"
    unfolding o2 [symmetric] using len assms(1) by (simp_all add: mem_get_def mem_put_def chunk_def)
  have pad: "pad_sb ?x = ?x @ ?z" using len by (simp add: pad_sb_def)
  have "lies_at (blit (blit out 2 (?x @ ?z)) 0 [0xff, 0x3f]) 2 (?x @ ?z)"
    using len by (intro lies_at_blit_other lies_at_blit) simp_all
  moreover have "lies_at (blit (blit out 2 (?x @ ?z)) 0 [0xff, 0x3f]) 0 [0xff, 0x3f]" using len by (intro lies_at_blit) simp
  ultimately have l: "lies_at (blit (blit out 2 (?x @ ?z)) 0 [0xff, 0x3f]) 0 ([0xff, 0x3f] @ ?x @ ?z)"
    by (simp only: lies_at_append list.size add_0 One_nat_def add_Suc_right add_0_right numeral_2_eq_2 Suc_1 simp_thms)
  have "le_bytes 2 0x3fff = [0xff, 0x3f :: u8]" by (simp add: le_bytes_2)
  then have "is_block ?x (NTFS_SB_SIZE + 2) (blit (blit out 2 (?x @ ?z)) 0 [0xff, 0x3f]) (Stored (pad_sb ?x))"
    using l len assms(2) by (simp only: is_block_def sb_bytes.simps sb_ok.simps sb_data.simps pad) simp
  then show ?thesis using m len by simp
qed

lemma packed_block_ok:
  assumes "toks_ok 0 ts" "ts \<noteq> []" "lz_run ts [] = xs" "lies_at out 2 (enc 0 ts)" "2 + length (enc 0 ts) < NTFS_SB_SIZE + 2"
  shows "\<exists>out'. do { let h = u32i (int (2 + length (enc 0 ts)) - 3);
       out \<leftarrow> mem_put out 0 [word_of_nat h, word_of_nat (0xb0 + (h div 256) mod 16)]; Some (2 + length (enc 0 ts), out) } = Some (2 + length (enc 0 ts), out')
     \<and> is_block xs (2 + length (enc 0 ts)) out' (Packed ts) \<and> length out' = length out"
proof -
  let ?n = "length (enc 0 ts)"
  define h where "h = ?n - 1"
  define hd where "hd = le_bytes 2 (0xb000 + h)"
  have n: "2 \<le> ?n" using assms(2) by (rule length_enc_pos)
  then have "int (2 + ?n) - 3 = int h" by (simp add: h_def of_nat_diff)
  moreover have "h < 4096" using assms(5) n by (simp add: h_def NTFS_SB_SIZE_def)
  then have "u32i (int h) = h" using u32i_id [of "int h"] by simp
  ultimately have h: "u32i (int (2 + ?n) - 3) = h" "h < NTFS_SB_SIZE" using n assms(5) by (simp_all add: h_def)
  have hb: "[word_of_nat h, word_of_nat (0xb0 + (h div 256) mod 16)] = hd" unfolding hd_def by (rule header_bytes [OF h(2)])
  have len: "length hd = 2" by (simp add: hd_def)
  have room: "0 + length hd \<le> length out" using lies_at_mono [OF assms(4)] by (simp add: len)
  have "lies_at (blit out 0 hd) 2 (enc 0 ts)" using assms(4) room len by (intro lies_at_blit_other) auto
  then have "lies_at (blit out 0 hd) 0 (hd @ enc 0 ts)" using lies_at_blit [OF room] by (simp only: lies_at_append len add_0 simp_thms)
  then have "is_block xs (2 + ?n) (blit out 0 hd) (Packed ts)"
    using assms(1-3,5) by (simp add: is_block_def hd_def h_def del: le_bytes.simps lies_at_append)
  moreover have "mem_put out 0 hd = Some (blit out 0 hd)" using room by (rule mem_put_SomeI)
  ultimately show ?thesis unfolding h(1) Let_def hb using room by simp
qed

lemma compress_block_ok:
  assumes "0 < bufsize" "bufsize \<le> NTFS_SB_SIZE" "bufsize \<le> length inbuf" "NTFS_SB_SIZE + 4 \<le> length outbuf"
  shows "\<exists>sz out b. ntfs_compress_block True inbuf bufsize outbuf = Some (sz, out) \<and> is_block (take bufsize inbuf) sz out b \<and> length out = length outbuf
     \<and> sz \<le> NTFS_SB_SIZE + 2"
proof -
  obtain s full part where s: "comp_loop bufsize bufsize (comp_start inbuf bufsize outbuf) = Some s" "comp_ok inbuf bufsize full part s"
      "length (cs_out s) = length outbuf"
    using comp_loop_ok [OF comp_start_ok [OF assms(3,2,1,4)], of bufsize] by (auto simp: comp_start_def)
  let ?ts = "full @ part"
  obtain out where o: "(if cs_ntag s = 8 then Some (cs_xout s - 1, cs_out s)
      else do { out \<leftarrow> mem_put (cs_out s) (cs_ptag s) [word_of_nat (cs_tag s)]; Some (cs_xout s, out) }) = Some (2 + length (enc 0 ?ts), out)"
      "lies_at out 2 (enc 0 ?ts)" "length out = length outbuf"
    using last_tag_ok [OF s(2)] s(3) by auto
  let ?x = "2 + length (enc 0 ?ts)"
  have e: "ntfs_compress_block True inbuf bufsize outbuf = comp_finish inbuf bufsize s" using s(1) by (simp add: ntfs_compress_block_def)
  show ?thesis
  proof (cases "cs_i s \<ge> bufsize \<and> ?x < NTFS_SB_SIZE + 2")
    case True
    have t: "toks_ok 0 ?ts" "toks_len ?ts = cs_i s" "lz_run ?ts [] = take (cs_i s) inbuf" "cs_i s \<le> bufsize"
      using s(2) by (auto simp: comp_ok_def out_ok_def)
    then have i: "cs_i s = bufsize" using True by simp
    then have ne: "?ts \<noteq> []" using t(2) assms(1) by auto
    show ?thesis
      using packed_block_ok [OF t(1) ne t(3) o(2)] True i o(3)
      unfolding e comp_finish_def o(1) bind.bind_lunit prod.case if_P [OF True] by fastforce
  next
    case False
    show ?thesis
      using stored_block_ok [OF assms(3,2), of out] assms(4) o(3)
      unfolding e comp_finish_def o(1) bind.bind_lunit prod.case if_not_P [OF False] by fastforce
  qed
qed

section \<open>Properties\<close>

text \<open>
  C3. A block that \<open>ntfs_compress_block\<close> compressed, followed by the two zero bytes that \<open>ntfs_comp_set\<close> adds, is
  decompressed by \<open>ntfs_decompress\<close> to the input, filled with zeroes to 4096 bytes, for every input of at most 4096 bytes: compression
  always ends, stays within an output buffer of 4100 bytes and returns a size between 4 and 4098.
\<close>

theorem compress_decompress_roundtrip:
  assumes "0 < bufsize" "bufsize \<le> NTFS_SB_SIZE" "bufsize \<le> length inbuf" "NTFS_SB_SIZE + 4 \<le> length outbuf"
    and "length dest = NTFS_SB_SIZE"
  shows "\<exists>sz out. ntfs_compress_block True inbuf bufsize outbuf = Some (sz, out) \<and> length out = length outbuf \<and> 4 \<le> sz \<and> sz \<le> NTFS_SB_SIZE + 2
     \<and> ntfs_decompress dest NTFS_SB_SIZE (take sz out @ [0, 0]) (sz + 2) = Some (Inr 0, take bufsize inbuf @ replicate (NTFS_SB_SIZE - bufsize) 0)"
proof -
  obtain sz out b where c: "ntfs_compress_block True inbuf bufsize outbuf = Some (sz, out)" "is_block (take bufsize inbuf) sz out b"
      "length out = length outbuf" "sz \<le> NTFS_SB_SIZE + 2"
    using compress_block_ok [OF assms(1-4)] by blast
  note b = c(2) [unfolded is_block_def]
  have "take sz out = sb_bytes b" using b by (simp add: lies_at_def chunk_def)
  then have "ntfs_decompress dest NTFS_SB_SIZE (take sz out @ [0, 0]) (sz + 2) = Some (Inr 0, blit dest 0 (concat (map sb_data [b])))"
    unfolding ntfs_decompress_def using b assms(5) by (intro sb_loop_out) (auto simp: lies_at_def chunk_def)
  also have "blit dest 0 (concat (map sb_data [b])) = take bufsize inbuf @ replicate (NTFS_SB_SIZE - bufsize) 0"
    using b assms by (simp add: pad_sb_def blit_def)
  finally have "ntfs_decompress dest NTFS_SB_SIZE (take sz out @ [0, 0]) (sz + 2)
     = Some (Inr 0, take bufsize inbuf @ replicate (NTFS_SB_SIZE - bufsize) 0)" .
  moreover have "4 \<le> sz" using b length_sb_bytes by auto
  ultimately show ?thesis using c by blast
qed

theorem compress_decompress_roundtrip_witness:
  "\<exists>sz out. ntfs_compress_block True (replicate 100 7) 100 (replicate 4100 0) = Some (sz, out) \<and> sz \<le> 4098
     \<and> ntfs_decompress (replicate 4096 9) 4096 (take sz out @ [0, 0]) (sz + 2) = Some (Inr 0, replicate 100 7 @ replicate 3996 0)"
  using compress_decompress_roundtrip [of 100 "replicate 100 7" "replicate 4100 0" "replicate 4096 9"]
  by (auto simp: NTFS_SB_SIZE_def)

end
