(* ===== verification/CompSet.thy ===== *)
theory CompSet
  imports RunlistIo CompressBlock
begin

text \<open>
  Writing a compression block, \<open>ntfs_comp_set\<close> of \<open>libntfs_ext/source/compress.c\<close>, with the transfers of clusters
  \<open>read_clusters\<close> and \<open>write_clusters\<close>. The contents of the buffer that \<open>ntfs_malloc\<close> returns are a parameter, since bytes of
  it that were never set are written to the disc.
\<close>

section \<open>The transfers\<close>

text \<open>The loops over the runs; \<open>offs\<close> is 0 after the first. \<open>None\<close> is an access outside the buffer, or behind the last run.\<close>

fun read_clusters :: "('p ntfs_device \<Rightarrow> bytes \<Rightarrow> int \<Rightarrow> int \<Rightarrow> ((errno + int) \<times> bytes \<times> 'p ntfs_device) option)
    \<Rightarrow> nat \<Rightarrow> runlist \<Rightarrow> int \<Rightarrow> nat \<Rightarrow> nat \<Rightarrow> bytes \<Rightarrow> 'p ntfs_device \<Rightarrow> (nat \<times> bytes \<times> 'p ntfs_device) option" where
  "read_clusters pread bits [] offs to_read got inbuf v = None"
| "read_clusters pread bits (e # es) offs to_read got inbuf v =
     (let count = u32i (int (u32i (shl64 (rl_length e) bits)) - offs); xpos = s64 (shl64 (rl_lcn e) bits + offs);
          count = (if u32i (int to_read - int got) < count then u32i (int to_read - int got) else count)
      in do {
        part \<leftarrow> mem_get inbuf got count;
        (r, part, v) \<leftarrow> ntfs_pread pread v xpos (int count) part;
        let xgot = (case r of Inl e \<Rightarrow> - 1 | Inr k \<Rightarrow> s32 k);
        let inbuf = blit inbuf got part;
        if xgot = s32 (int count) then
          (if u32 (got + count) < to_read then read_clusters pread bits es 0 to_read (u32 (got + count)) inbuf v
           else Some (u32 (got + count), inbuf, v))
        else Some (got, inbuf, v) })"

fun write_clusters :: "('p ntfs_device \<Rightarrow> bytes \<Rightarrow> int \<Rightarrow> int \<Rightarrow> ((errno + int) \<times> 'p ntfs_device) option)
    \<Rightarrow> ('p ntfs_device \<Rightarrow> ((errno + int) \<times> 'p ntfs_device) option)
    \<Rightarrow> nat \<Rightarrow> runlist \<Rightarrow> int \<Rightarrow> int \<Rightarrow> int \<Rightarrow> bytes \<Rightarrow> 'p ntfs_device \<Rightarrow> (int \<times> 'p ntfs_device) option" where
  "write_clusters pwrite dsync bits [] offs to_write put outbuf v = None"
| "write_clusters pwrite dsync bits (e # es) offs to_write put outbuf v =
     (let count = s32 (s32 (shl64 (rl_length e) bits) - offs); xpos = s64 (shl64 (rl_lcn e) bits + offs);
          count = (if s32 (to_write - put) < count then s32 (to_write - put) else count)
      in do {
        part \<leftarrow> mem_get outbuf (nat put) (nat count);
        (r, v) \<leftarrow> ntfs_pwrite pwrite dsync v xpos count part;
        let xput = (case r of Inl e \<Rightarrow> - 1 | Inr k \<Rightarrow> s32 k);
        if xput = count then
          (if s32 (put + count) < to_write then write_clusters pwrite dsync bits es 0 to_write (s32 (put + count)) outbuf v
           else Some (s32 (put + count), v))
        else Some (put, v) })"

section \<open>The compression block\<close>

text \<open>The encodings of blocks of zeroes.\<close>

definition onezero :: bytes where "onezero = [0x01, 0xb0, 0x00, 0x00]"
definition twozeroes :: bytes where "twozeroes = [0x02, 0xb0, 0x00, 0x00, 0x00]"
definition morezeroes :: bytes where "morezeroes = [0x03, 0xb0, 0x02, 0x00]"

definition zero_block :: "nat \<Rightarrow> bytes \<Rightarrow> bool" where
  "zero_block sz pbuf \<longleftrightarrow> sz = 4 \<and> take 4 pbuf = onezero \<or> sz = 5 \<and> take 5 pbuf = twozeroes \<or> sz = 6 \<and> take 4 pbuf = morezeroes"

text \<open>The loop over the blocks: whether it failed, \<open>compsz\<close>, \<open>allzeroes\<close> and the output buffer. \<open>room p\<close> tells whether the
  context for the block at \<open>p\<close> can be allocated.\<close>

function comp_blocks :: "(nat \<Rightarrow> bool) \<Rightarrow> bytes \<Rightarrow> nat \<Rightarrow> nat \<Rightarrow> nat \<Rightarrow> nat \<Rightarrow> nat \<Rightarrow> bool \<Rightarrow> bytes \<Rightarrow> (bool \<times> nat \<times> bool \<times> bytes) option" where
  "comp_blocks room inbuf insz cbs clsz p compsz allzeroes outbuf =
     (if p < insz then do {
        let bsz = (if p + NTFS_SB_SIZE < insz then NTFS_SB_SIZE else insz - p);
        (sz, pbuf) \<leftarrow> ntfs_compress_block (room p) (drop p inbuf) bsz (drop compsz outbuf);
        let outbuf = take compsz outbuf @ pbuf;
        if sz = 0 \<or> compsz + sz + clsz + 2 > cbs then Some (True, compsz, allzeroes, outbuf)
        else comp_blocks room inbuf insz cbs clsz (p + NTFS_SB_SIZE) (compsz + sz) (allzeroes \<and> zero_block sz pbuf) outbuf }
      else Some (False, compsz, allzeroes, outbuf))"
  by pat_completeness auto
termination
  by (relation "measure (\<lambda>(room, inbuf, insz, cbs, clsz, p, compsz, allzeroes, outbuf). insz - p)") (auto simp: NTFS_SB_SIZE_def)

declare comp_blocks.simps [simp del]

text \<open>\<open>heap\<close> gives the memory for the output buffer, with its contents, or nothing.\<close>

definition ntfs_comp_set :: "('p ntfs_device \<Rightarrow> bytes \<Rightarrow> int \<Rightarrow> int \<Rightarrow> ((errno + int) \<times> 'p ntfs_device) option)
    \<Rightarrow> ('p ntfs_device \<Rightarrow> ((errno + int) \<times> 'p ntfs_device) option) \<Rightarrow> (nat \<Rightarrow> bool) \<Rightarrow> (nat \<Rightarrow> bytes option)
    \<Rightarrow> nat \<Rightarrow> nat \<Rightarrow> runlist \<Rightarrow> int \<Rightarrow> nat \<Rightarrow> bytes \<Rightarrow> 'p ntfs_device \<Rightarrow> (int \<times> 'p ntfs_device) option" where
  "ntfs_comp_set pwrite dsync room heap bits cbs rl offs insz inbuf v =
     (let clsz = 2 ^ bits in
      case heap (cbs + 2 * (cbs div NTFS_SB_SIZE) + 2) of None \<Rightarrow> Some (- 1, v)
      | Some outbuf \<Rightarrow> do {
          (fail, compsz, allzeroes, outbuf) \<leftarrow> comp_blocks room inbuf insz cbs clsz 0 0 True outbuf;
          if fail then Some (- 1, v)
          else if allzeroes then Some (0, v)
          else do {
            outbuf \<leftarrow> mem_put outbuf compsz [0, 0];
            let rounded = ((compsz + 2 - 1) OR (clsz - 1)) + 1;
            (written, v) \<leftarrow> write_clusters pwrite dsync bits rl offs (int rounded) 0 outbuf v;
            Some (if written \<noteq> int rounded then - 2 else written, v) } })"

section \<open>Blocks of zeroes\<close>

lemma lz_copy_zeroes: "out = replicate n 0 \<Longrightarrow> 0 < off \<Longrightarrow> off \<le> n \<Longrightarrow> lz_copy k off out = replicate (n + k) (0 :: u8)"
proof (induction k arbitrary: n out)
  case (Suc k)
  have "out @ [out ! (length out - off)] = replicate (Suc n) 0"
    using Suc.prems by (simp add: replicate_append_same)
  then show ?case using Suc.IH [of _ "Suc n"] Suc.prems by simp
qed simp

lemma enc_small:
  assumes "length (enc 0 ts) \<le> 4" "toks_ok 0 ts" "ts \<noteq> []"
  obtains c where "ts = [Symbol c]" "enc 0 ts = [0, c]"
  | c1 c2 where "ts = [Symbol c1, Symbol c2]" "enc 0 ts = [0, c1, c2]"
  | c1 c2 c3 where "ts = [Symbol c1, Symbol c2, Symbol c3]" "enc 0 ts = [0, c1, c2, c3]"
  | c off len where "ts = [Symbol c, Phrase off len]" "take 2 (enc 0 ts) = [2, c]" "0 < off" "off \<le> 1" "length (enc 0 ts) = 4"
proof -
  have b1: "1 \<le> length (body p t)" for p t by (cases t) auto
  have bl: "length r \<le> length (bodies p r)" for p r
  proof (induction r arbitrary: p)
    case (Cons t r)
    then show ?case using add_mono [OF b1 [of p t] Cons [of "p + tok_len t"]] by (simp del: length_body)
  qed simp
  have "length ts < 8"
  proof (rule ccontr)
    assume "\<not> length ts < 8"
    then have "8 \<le> length (bodies 0 (take 8 ts))" using bl [of "take 8 ts" 0] by simp
    then show False using assms(1,3) by (subst (asm) enc.simps) simp
  qed
  then have e: "enc 0 ts = word_of_nat (tag_of ts) # bodies 0 ts" using enc_group [of ts 0] assms(3) by simp
  obtain t r where ts: "ts = t # r" using assms(3) by (cases ts) auto
  obtain c where t: "t = Symbol c" using assms(2) ts by (cases t) auto
  have len: "length (bodies 1 r) \<le> 2" using assms(1) e ts t by simp
  then have "length r \<le> 2" using bl [of r 1] by simp
  then consider "r = []" | x where "r = [x]" | x y where "r = [x, y]"
    by (cases r; cases "tl r"; cases "tl (tl r)") auto
  then show thesis
  proof cases
    case 1
    then show ?thesis using that(1) [of c] e ts t by simp
  next
    case (2 x)
    then show ?thesis
      using that(2) [of c] that(4) [of c] e ts t assms(2) by (cases x) (auto simp: le_bytes_2 numeral_2_eq_2)
  next
    case (3 x y)
    then obtain c1 c2 where "x = Symbol c1" "y = Symbol c2" using len by (cases x; cases y) auto
    then show ?thesis using that(3) [of c c1 c2] 3 e ts t by simp
  qed
qed

lemma zero_block_ok:
  assumes "is_block x sz out b" "zero_block sz out"
  shows "sb_data b = replicate NTFS_SB_SIZE 0"
proof -
  note b = assms(1) [unfolded is_block_def]
  have sz: "sz \<le> 6" using assms(2) by (auto simp: zero_block_def)
  then obtain ts where ts: "b = Packed ts" using b by (cases b) (auto simp: NTFS_SB_SIZE_def)
  have ok: "toks_ok 0 ts" "ts \<noteq> []" "length (enc 0 ts) \<le> 4" using b ts sz by auto
  have out: "take sz out = le_bytes 2 (0xb000 + (length (enc 0 ts) - 1)) @ enc 0 ts" "sz = 2 + length (enc 0 ts)"
    using b ts by (auto simp: lies_at_def chunk_def simp del: le_bytes.simps)
  have "drop 2 (take sz out) = enc 0 ts" unfolding out(1) by simp
  then have e: "enc 0 ts = take (sz - 2) (drop 2 out)" by (simp add: drop_take)
  have lz: "lz_run ts [] = replicate n 0 \<Longrightarrow> n \<le> NTFS_SB_SIZE \<Longrightarrow> sb_data b = replicate NTFS_SB_SIZE 0" for n
    unfolding ts by (simp add: pad_sb_def replicate_add [symmetric] del: lz_run_simps)
  have n: "toks_len ts \<le> NTFS_SB_SIZE" using toks_len_bound [OF ok(1,2)] by simp
  show ?thesis
  proof (rule enc_small [OF ok(3,1,2)])
    fix c assume *: "ts = [Symbol c]" "enc 0 ts = [0, c]"
    then have "take 4 out = onezero" using assms(2) out(2) by (auto simp: zero_block_def)
    then have "take 2 (drop 2 out) = [0, 0]" by (simp add: onezero_def take_drop)
    then have "c = 0" using * e out(2) by simp
    then show ?thesis using lz [of 1] * by (simp add: NTFS_SB_SIZE_def)
  next
    fix c1 c2 assume *: "ts = [Symbol c1, Symbol c2]" "enc 0 ts = [0, c1, c2]"
    then have "take 5 out = twozeroes" using assms(2) out(2) by (auto simp: zero_block_def)
    then have "take 3 (drop 2 out) = [0, 0, 0]" by (simp add: twozeroes_def take_drop)
    then have "c1 = 0" "c2 = 0" using * e out(2) by simp_all
    then show ?thesis using lz [of 2] * by (simp add: NTFS_SB_SIZE_def numeral_2_eq_2)
  next
    fix c1 c2 c3 assume *: "ts = [Symbol c1, Symbol c2, Symbol c3]" "enc 0 ts = [0, c1, c2, c3]"
    then have m: "take 4 out = morezeroes" using assms(2) out(2) by (auto simp: zero_block_def)
    have "take 2 (enc 0 ts) = take 2 (drop 2 (take 4 out))" using * e out(2) by (simp add: take_drop)
    then show ?thesis using * m by (simp add: morezeroes_def)
  next
    fix c off len assume *: "ts = [Symbol c, Phrase off len]" "take 2 (enc 0 ts) = [2, c]" "0 < off" "off \<le> 1" "length (enc 0 ts) = 4"
    then have m: "take 4 out = morezeroes" using assms(2) out(2) by (auto simp: zero_block_def)
    have "take 2 (enc 0 ts) = take 2 (drop 2 (take 4 out))" using * e out(2) by (simp add: take_drop)
    then have "c = 0" using * m by (simp add: morezeroes_def)
    then have "lz_run ts [] = replicate (1 + len) 0" using * lz_copy_zeroes [of "[0]" 1 off len] by simp
    then show ?thesis using lz [of "1 + len"] n * by simp
  qed
qed

section \<open>The compressed set\<close>

text \<open>The input with zeroes behind it, of which the blocks are pieces.\<close>

definition padded :: "bytes \<Rightarrow> nat \<Rightarrow> bytes" where
  "padded inbuf insz = take insz inbuf @ replicate NTFS_SB_SIZE 0"

text \<open>The input with zeroes up to the end of its last block.\<close>

definition whole_blocks :: "bytes \<Rightarrow> nat \<Rightarrow> bytes" where
  "whole_blocks inbuf insz = take insz inbuf @ replicate ((NTFS_SB_SIZE - insz mod NTFS_SB_SIZE) mod NTFS_SB_SIZE) 0"

lemma padded_whole_blocks:
  assumes "insz \<le> n * NTFS_SB_SIZE" "n * NTFS_SB_SIZE < insz + NTFS_SB_SIZE" "insz \<le> length inbuf"
  shows "take (n * NTFS_SB_SIZE) (padded inbuf insz) = whole_blocks inbuf insz"
proof -
  define q where "q = insz div NTFS_SB_SIZE"
  define r where "r = insz mod NTFS_SB_SIZE"
  have i: "insz = q * NTFS_SB_SIZE + r" "r < NTFS_SB_SIZE" unfolding q_def r_def by (simp_all add: NTFS_SB_SIZE_def)
  have "n * NTFS_SB_SIZE - insz = (NTFS_SB_SIZE - r) mod NTFS_SB_SIZE"
  proof (cases "r = 0")
    case True
    then have "q \<le> n" "n < q + 1" using assms(1,2) i by (simp_all add: NTFS_SB_SIZE_def)
    then show ?thesis using True i by simp
  next
    case False
    then have "q < n" "n < q + 2" using assms(1,2) i by (simp_all add: NTFS_SB_SIZE_def)
    then have "n = q + 1" by simp
    then show ?thesis using False i by simp
  qed
  then show ?thesis using assms by (simp add: padded_def whole_blocks_def r_def)
qed

lemma pad_piece:
  assumes "p < insz" "insz \<le> length inbuf" "bsz = (if p + NTFS_SB_SIZE < insz then NTFS_SB_SIZE else insz - p)"
  shows "pad_sb (take bsz (drop p inbuf)) = chunk p NTFS_SB_SIZE (padded inbuf insz)" "0 < bsz" "bsz \<le> NTFS_SB_SIZE" "bsz \<le> length (drop p inbuf)"
proof -
  show "0 < bsz" "bsz \<le> NTFS_SB_SIZE" "bsz \<le> length (drop p inbuf)" using assms by (auto simp: NTFS_SB_SIZE_def)
  have d: "drop p (padded inbuf insz) = take (insz - p) (drop p inbuf) @ replicate NTFS_SB_SIZE 0"
    using assms(1,2) by (simp add: padded_def drop_take)
  show "pad_sb (take bsz (drop p inbuf)) = chunk p NTFS_SB_SIZE (padded inbuf insz)"
  proof (cases "p + NTFS_SB_SIZE < insz")
    case True
    then show ?thesis using assms unfolding chunk_def d pad_sb_def by simp
  next
    case False
    then have "bsz = insz - p" "insz - p \<le> NTFS_SB_SIZE" "length (take (insz - p) (drop p inbuf)) = insz - p" using assms by auto
    then show ?thesis unfolding chunk_def d pad_sb_def by simp
  qed
qed

definition set_ok :: "bytes \<Rightarrow> nat \<Rightarrow> nat \<Rightarrow> bytes \<Rightarrow> subblock list \<Rightarrow> bool" where
  "set_ok inbuf insz compsz outbuf ss \<longleftrightarrow> list_all sb_ok ss \<and> lies_at outbuf 0 (concat (map sb_bytes ss))
     \<and> compsz = length (concat (map sb_bytes ss)) \<and> compsz \<le> length ss * (NTFS_SB_SIZE + 2)
     \<and> concat (map sb_data ss) = take (length ss * NTFS_SB_SIZE) (padded inbuf insz)"

definition all_zero :: "bytes \<Rightarrow> bool" where
  "all_zero xs \<longleftrightarrow> (\<forall>x \<in> set xs. x = 0)"

lemma set_ok_snoc:
  assumes "set_ok inbuf insz compsz outbuf ss" "is_block (take bsz (drop p inbuf)) sz pbuf b" "p = length ss * NTFS_SB_SIZE"
    and "pad_sb (take bsz (drop p inbuf)) = chunk p NTFS_SB_SIZE (padded inbuf insz)" "compsz \<le> length outbuf" "sz \<le> NTFS_SB_SIZE + 2"
  shows "set_ok inbuf insz (compsz + sz) (take compsz outbuf @ pbuf) (ss @ [b])"
proof -
  note s = assms(1) [unfolded set_ok_def] and b = assms(2) [unfolded is_block_def]
  have "lies_at (take compsz outbuf @ pbuf) 0 (concat (map sb_bytes ss) @ sb_bytes b)"
    unfolding lies_at_append using s b assms(5) by (auto simp: lies_at_def chunk_def)
  moreover have "take (length ss * NTFS_SB_SIZE) (padded inbuf insz) @ chunk p NTFS_SB_SIZE (padded inbuf insz)
      = take (length (ss @ [b]) * NTFS_SB_SIZE) (padded inbuf insz)"
    by (simp add: assms(3) chunk_def take_add [symmetric] add.commute)
  ultimately show ?thesis using s b assms(4,6) by (simp add: set_ok_def)
qed

lemma comp_blocks_ok:
  assumes "set_ok inbuf insz compsz outbuf ss" "p = length ss * NTFS_SB_SIZE" "insz \<le> length inbuf" "insz \<le> cbs" "cbs = m * NTFS_SB_SIZE"
    and "length outbuf = cbs + 2 * m + 2" "p < insz + NTFS_SB_SIZE" "allz \<longrightarrow> all_zero (concat (map sb_data ss))" "0 < length ss \<longrightarrow> compsz + clsz + 2 \<le> cbs"
  shows "\<exists>fail compsz' allz' out' ss'. comp_blocks room inbuf insz cbs clsz p compsz allz outbuf = Some (fail, compsz', allz', out')
     \<and> (\<not> fail \<longrightarrow> set_ok inbuf insz compsz' out' ss' \<and> insz \<le> length ss' * NTFS_SB_SIZE \<and> length ss' * NTFS_SB_SIZE < insz + NTFS_SB_SIZE
          \<and> length out' = cbs + 2 * m + 2 \<and> (allz' \<longrightarrow> all_zero (concat (map sb_data ss'))) \<and> (0 < length ss' \<longrightarrow> compsz' + clsz + 2 \<le> cbs))"
  using assms
proof (induction room inbuf insz cbs clsz p compsz allz outbuf arbitrary: ss rule: comp_blocks.induct)
  case (1 room inbuf insz cbs clsz p compsz allz outbuf)
  show ?case
  proof (cases "p < insz")
    case False
    then have "comp_blocks room inbuf insz cbs clsz p compsz allz outbuf = Some (False, compsz, allz, outbuf)"
      by (subst comp_blocks.simps) simp
    then show ?thesis
      using False 1(2-10) by (intro exI [of _ False] exI [of _ compsz] exI [of _ allz] exI [of _ outbuf] exI [of _ ss]) simp
  next
    case True
    define bsz where "bsz = (if p + NTFS_SB_SIZE < insz then NTFS_SB_SIZE else insz - p)"
    note pp = pad_piece [OF True 1(4) bsz_def]
    have "length ss * NTFS_SB_SIZE < m * NTFS_SB_SIZE" using True 1(3,5,6) by linarith
    then have "length ss < m" by simp
    then have len: "compsz + (NTFS_SB_SIZE + 4) \<le> length outbuf"
      using 1(2,6,7) mult_le_mono1 [of "length ss + 1" m "NTFS_SB_SIZE + 2"] by (simp add: set_ok_def algebra_simps)
    show ?thesis
    proof (cases "room p")
      case False
      then have "comp_blocks room inbuf insz cbs clsz p compsz allz outbuf = Some (True, compsz, allz, outbuf)"
        using True by (subst comp_blocks.simps) (simp add: ntfs_compress_block_def Let_def)
      then show ?thesis by blast
    next
      case room: True
      obtain sz pbuf b where c: "ntfs_compress_block (room p) (drop p inbuf) bsz (drop compsz outbuf) = Some (sz, pbuf)"
          "is_block (take bsz (drop p inbuf)) sz pbuf b" "length pbuf = length outbuf - compsz" "sz \<le> NTFS_SB_SIZE + 2"
      proof -
        have "NTFS_SB_SIZE + 4 \<le> length (drop compsz outbuf)" unfolding length_drop using len by linarith
        then show ?thesis using that compress_block_ok [OF pp(2-4), of "drop compsz outbuf"] room by (auto simp del: One_nat_def)
      qed
      let ?out = "take compsz outbuf @ pbuf"
      have step: "comp_blocks room inbuf insz cbs clsz p compsz allz outbuf =
         (if sz = 0 \<or> compsz + sz + clsz + 2 > cbs then Some (True, compsz, allz, ?out)
          else comp_blocks room inbuf insz cbs clsz (p + NTFS_SB_SIZE) (compsz + sz) (allz \<and> zero_block sz pbuf) ?out)"
        using True c(1) by (subst comp_blocks.simps) (simp add: Let_def bsz_def)
      show ?thesis
      proof (cases "sz = 0 \<or> compsz + sz + clsz + 2 > cbs")
        case True
        then show ?thesis unfolding step by simp blast
      next
        case go: False
        have s: "set_ok inbuf insz (compsz + sz) ?out (ss @ [b])"
          using set_ok_snoc [OF 1(2) c(2) 1(3) pp(1) _ c(4)] len by simp
        have z: "(allz \<and> zero_block sz pbuf) \<longrightarrow> all_zero (concat (map sb_data (ss @ [b])))"
          using 1(9) zero_block_ok [OF c(2)] by (auto simp: all_zero_def)
        show ?thesis
          unfolding step if_not_P [OF go]
          using True go s z 1(3-7) c(3) len
          by (intro 1(1) [OF True bsz_def c(1) refl refl go]) auto
      qed
    qed
  qed
qed

section \<open>Clusters on the device\<close>

text \<open>The pieces of the device that a transfer of \<open>n\<close> bytes from offset \<open>offs\<close> of the first run touches, and what it puts
  there or gets.\<close>

fun extents :: "nat \<Rightarrow> runlist \<Rightarrow> nat \<Rightarrow> nat \<Rightarrow> (nat \<times> nat) list" where
  "extents bits [] offs n = []"
| "extents bits (e # es) offs n =
     (let c = min (nat (rl_length e) * 2 ^ bits - offs) n
      in (nat (rl_lcn e) * 2 ^ bits + offs, c) # (if c < n then extents bits es 0 (n - c) else []))"

text \<open>Every run is allocated and lies on a device of \<open>z\<close> bytes, and none has 2 GB or more.\<close>

fun runs_fit :: "nat \<Rightarrow> nat \<Rightarrow> runlist \<Rightarrow> nat \<Rightarrow> nat \<Rightarrow> bool" where
  "runs_fit z bits [] offs n = False"
| "runs_fit z bits (e # es) offs n =
     (let l = nat (rl_length e) * 2 ^ bits; x = nat (rl_lcn e) * 2 ^ bits
      in 0 \<le> rl_lcn e \<and> 0 \<le> rl_length e \<and> l < 2 ^ 31 \<and> offs < l \<and> x + l \<le> z \<and> (l - offs < n \<longrightarrow> runs_fit z bits es 0 (n - (l - offs))))"

fun put_exts :: "(nat \<Rightarrow> u8) \<Rightarrow> (nat \<times> nat) list \<Rightarrow> bytes \<Rightarrow> nat \<Rightarrow> u8" where
  "put_exts g [] b = g"
| "put_exts g ((x, c) # es) b = put_exts (put_bytes g x (take c b)) es (drop c b)"

fun get_exts :: "(nat \<Rightarrow> u8) \<Rightarrow> (nat \<times> nat) list \<Rightarrow> bytes" where
  "get_exts g [] = []"
| "get_exts g ((x, c) # es) = bytes_from g x c @ get_exts g es"

fun apart :: "(nat \<times> nat) list \<Rightarrow> bool" where
  "apart [] = True"
| "apart ((x, c) # es) = ((\<forall>(y, d) \<in> set es. x + c \<le> y \<or> y + d \<le> x) \<and> apart es)"

lemma put_exts_other: "(\<forall>(y, d) \<in> set es. k < y \<or> y + d \<le> k) \<Longrightarrow> put_exts g es b k = g k"
proof (induction g es b arbitrary: rule: put_exts.induct)
  case (2 g x c es b)
  then have "put_bytes g x (take c b) k = g k" by (auto simp: put_bytes_def)
  then show ?case using 2 by simp
qed simp

lemma get_put_exts: "apart es \<Longrightarrow> length b = sum_list (map snd es) \<Longrightarrow> get_exts (put_exts g es b) es = b"
proof (induction g es b rule: put_exts.induct)
  case (2 g x c es b)
  let ?g = "put_exts (put_bytes g x (take c b)) es (drop c b)"
  have c: "length (take c b) = c" using 2(3) by simp
  have "?g k = put_bytes g x (take c b) k" if "x \<le> k" "k < x + c" for k
    using 2(2) that by (intro put_exts_other) fastforce
  then have "bytes_from ?g x c = bytes_from (put_bytes g x (take c b)) x c" by (intro bytes_from_cong) auto
  also have "\<dots> = take c b" using bytes_from_put [of g x "take c b"] c by simp
  finally show ?case using 2 by simp
qed simp

lemma extents_sum: "runs_fit z bits rl offs n \<Longrightarrow> sum_list (map snd (extents bits rl offs n)) = n"
proof (induction bits rl offs n rule: extents.induct)
  case (2 bits e es offs n)
  define c where "c = nat (rl_length e) * 2 ^ bits - offs"
  have e: "extents bits (e # es) offs n = (nat (rl_lcn e) * 2 ^ bits + offs, min c n) # (if min c n < n then extents bits es 0 (n - min c n) else [])"
    by (simp add: c_def Let_def)
  have r: "c < n \<Longrightarrow> runs_fit z bits es 0 (n - c)" using 2(2) unfolding c_def runs_fit.simps Let_def by blast
  have "min c n < n \<Longrightarrow> runs_fit z bits es 0 (n - min c n) \<Longrightarrow> sum_list (map snd (extents bits es 0 (n - min c n))) = n - min c n"
    using 2(1) [OF refl] unfolding c_def by blast
  then show ?case using r unfolding e by (cases "c < n") (simp_all add: min_def)
qed simp

lemma shl64_nat: "0 \<le> x \<Longrightarrow> nat x * 2 ^ bits < 2 ^ 63 \<Longrightarrow> shl64 x bits = int (nat x * 2 ^ bits)"
proof -
  assume x: "0 \<le> x" "nat x * 2 ^ bits < 2 ^ 63"
  then have "x * 2 ^ bits = int (nat x * 2 ^ bits)" by simp
  moreover have "in_s64 (int (nat x * 2 ^ bits))" by (rule in_s64_nat [OF x(2)])
  ultimately show ?thesis unfolding shl64_def by (metis s64_id)
qed

text \<open>One run: its bytes from the offset, or as many as are asked for.\<close>

lemma run_count:
  assumes "runs_fit z bits (e # es) offs n" "z < 2 ^ 63" "0 < n" "n < 2 ^ 31"
  shows "\<exists>x c. extents bits (e # es) offs n = (x, c) # (if c < n then extents bits es 0 (n - c) else []) \<and> 0 < c \<and> c \<le> n \<and> x + c \<le> z
     \<and> (c < n \<longrightarrow> runs_fit z bits es 0 (n - c)) \<and> s64 (shl64 (rl_lcn e) bits + int offs) = int x
     \<and> (let count = s32 (s32 (shl64 (rl_length e) bits) - int offs) in if s32 (int n) < count then s32 (int n) else count) = int c
     \<and> (let count = u32i (int (u32i (shl64 (rl_length e) bits)) - int offs) in if u32i (int n) < count then u32i (int n) else count) = c"
proof -
  define l where "l = nat (rl_length e) * 2 ^ bits"
  define y where "y = nat (rl_lcn e) * 2 ^ bits"
  define c where "c = min (l - offs) n"
  have f: "0 \<le> rl_lcn e" "0 \<le> rl_length e" "l < 2 ^ 31" "offs < l" "y + l \<le> z" "l - offs < n \<longrightarrow> runs_fit z bits es 0 (n - (l - offs))"
    using assms(1) unfolding runs_fit.simps Let_def l_def y_def by blast+
  have len: "shl64 (rl_length e) bits = int l" using f(2,3) unfolding l_def by (intro shl64_nat) auto
  have "y < 2 ^ 63" using f(4,5) assms(2) by linarith
  then have lcn: "shl64 (rl_lcn e) bits = int y" using f(1) unfolding y_def by (intro shl64_nat) auto
  have "y + offs < 2 ^ 63" using f(4,5) assms(2) by linarith
  then have "s64 (int y + int offs) = int (y + offs)" using in_s64_nat [of "y + offs"] by simp
  then have x: "s64 (shl64 (rl_lcn e) bits + int offs) = int (y + offs)" by (simp only: lcn)
  have diff: "int l - int offs = int (l - offs)" using f(4) by simp
  have s: "s32 (int k) = int k" "u32i (int k) = k" if "k < 2 ^ 31" for k
    using that s32_id [of "int k"] u32i_id [of "int k"] by simp_all
  have sl: "l - offs < 2 ^ 31" using f(3) by simp
  have cnt: "(let count = s32 (s32 (shl64 (rl_length e) bits) - int offs) in if s32 (int n) < count then s32 (int n) else count) = int c"
    unfolding len s [OF f(3)] diff s [OF sl] s [OF assms(4)] Let_def c_def by (simp add: min_def)
  have cnt': "(let count = u32i (int (u32i (shl64 (rl_length e) bits)) - int offs) in if u32i (int n) < count then u32i (int n) else count) = c"
    unfolding len s [OF f(3)] diff s [OF sl] s [OF assms(4)] Let_def c_def by (simp add: min_def)
  have e: "extents bits (e # es) offs n = (y + offs, c) # (if c < n then extents bits es 0 (n - c) else [])"
    unfolding extents.simps Let_def l_def [symmetric] y_def [symmetric] c_def [symmetric] by (rule refl)
  have "c < n \<longrightarrow> runs_fit z bits es 0 (n - c)" using f(6) unfolding c_def by (simp add: min_def split: if_splits)
  moreover have "0 < c" "c \<le> n" "y + offs + c \<le> z" using f(4,5) assms(3) by (auto simp: c_def)
  ultimately show ?thesis using e x cnt cnt' by blast
qed

context byte_device
begin

lemma write_clusters_ok:
  assumes "dvalid v" "dlive v" "\<not> NDevReadOnly v" "dsize v < 2 ^ 63" "runs_fit (dsize v) bits rl offs n" "0 < n" "put + n < 2 ^ 31" "put + n \<le> length outbuf"
  shows "\<exists>v'. write_clusters pwrite dsync bits rl (int offs) (int (put + n)) (int put) outbuf v = Some (int (put + n), v')
     \<and> dlive v' \<and> follows v v' \<and> content v' = put_exts (content v) (extents bits rl offs n) (chunk put n outbuf)"
  using assms
proof (induction rl arbitrary: v offs n put)
  case Nil
  then show ?case by simp
next
  case (Cons e es)
  have n31: "n < 2 ^ 31" using Cons.prems(7) by simp
  obtain c x where c: "extents bits (e # es) offs n = (x, c) # (if c < n then extents bits es 0 (n - c) else [])" "0 < c" "c \<le> n" "x + c \<le> dsize v"
      "c < n \<Longrightarrow> runs_fit (dsize v) bits es 0 (n - c)" "s64 (shl64 (rl_lcn e) bits + int offs) = int x"
      "(let count = s32 (s32 (shl64 (rl_length e) bits) - int offs) in if s32 (int n) < count then s32 (int n) else count) = int c"
    using run_count [OF Cons.prems(5,4,6) n31] by (elim exE conjE) (rule that; blast)
  let ?part = "chunk put c outbuf"
  have part: "mem_get outbuf put c = Some ?part" "length ?part = c" using c(3) Cons.prems(8) by (simp_all add: mem_get_def)
  obtain v1 where w: "ntfs_pwrite pwrite dsync v (int x) (int c) ?part = Some (Inr (int c), v1)" "dlive v1"
    using ntfs_pwrite_ok(2) [OF Cons.prems(1,3) c(4) _ part(2)] Cons.prems(2) c(3) n31 by auto
  have v1: "follows v v1" "content v1 = put_bytes (content v) x ?part" "NDevReadOnly v1 = NDevReadOnly v"
    using ntfs_pwrite_ok(1) [OF Cons.prems(1,3) c(4) _ part(2) w(1)] c(3) n31 by auto
  have small: "s32 (int c) = int c" "s32 (int put + int c) = int (put + c)" "int (put + n) - int put = int n"
    using c(3) Cons.prems(7) by (auto intro: s32_id)
  have step: "write_clusters pwrite dsync bits (e # es) (int offs) (int (put + n)) (int put) outbuf v =
     (if int (put + c) < int (put + n) then write_clusters pwrite dsync bits es 0 (int (put + n)) (int (put + c)) outbuf v1 else Some (int (put + c), v1))"
    unfolding write_clusters.simps small(3) c(6) using c(7) part(1) w(1) small(1,2) by (simp add: Let_def)
  show ?case
  proof (cases "c < n")
    case True
    have s: "int (put + n) = int ((put + c) + (n - c))" using True by simp
    have "\<exists>v'. write_clusters pwrite dsync bits es (int 0) (int ((put + c) + (n - c))) (int (put + c)) outbuf v1 = Some (int ((put + c) + (n - c)), v')
        \<and> dlive v' \<and> follows v1 v' \<and> content v' = put_exts (content v1) (extents bits es 0 (n - c)) (chunk (put + c) (n - c) outbuf)"
      using Cons.prems v1 w(2) True c(5) by (intro Cons.IH) (auto simp: follows_def)
    then obtain v' where v': "write_clusters pwrite dsync bits es 0 (int (put + n)) (int (put + c)) outbuf v1 = Some (int (put + n), v')" "dlive v'" "follows v1 v'"
        "content v' = put_exts (content v1) (extents bits es 0 (n - c)) (chunk (put + c) (n - c) outbuf)"
      unfolding s by auto
    moreover have "take c (chunk put n outbuf) = ?part" "drop c (chunk put n outbuf) = chunk (put + c) (n - c) outbuf"
      using True by (simp_all add: chunk_def drop_take add.commute)
    ultimately show ?thesis using True v1 unfolding step c(1) by (auto simp: follows_def)
  next
    case False
    then have "c = n" using c(3) by simp
    then show ?thesis using v1 w(2) part(2) unfolding step c(1) by simp
  qed
qed

lemma read_clusters_ok:
  assumes "dvalid v" "dlive v" "dsize v < 2 ^ 63" "runs_fit (dsize v) bits rl offs n" "0 < n" "got + n < 2 ^ 31" "got + n \<le> length inbuf"
  shows "\<exists>v'. read_clusters pread bits rl (int offs) (got + n) got inbuf v = Some (got + n, blit inbuf got (get_exts (content v) (extents bits rl offs n)), v')
     \<and> dlive v' \<and> follows v v' \<and> content v' = content v"
  using assms
proof (induction rl arbitrary: v offs n got inbuf)
  case Nil
  then show ?case by simp
next
  case (Cons e es)
  have n31: "n < 2 ^ 31" using Cons.prems(6) by simp
  obtain c x where c: "extents bits (e # es) offs n = (x, c) # (if c < n then extents bits es 0 (n - c) else [])" "0 < c" "c \<le> n" "x + c \<le> dsize v"
      "c < n \<Longrightarrow> runs_fit (dsize v) bits es 0 (n - c)" "s64 (shl64 (rl_lcn e) bits + int offs) = int x"
      "(let count = u32i (int (u32i (shl64 (rl_length e) bits)) - int offs) in if u32i (int n) < count then u32i (int n) else count) = c"
    using run_count [OF Cons.prems(4,3,5) n31] by (elim exE conjE) (rule that; blast)
  let ?part = "chunk got c inbuf"
  have part: "mem_get inbuf got c = Some ?part" "length ?part = c" using c(3) Cons.prems(7) by (simp_all add: mem_get_def)
  have c31: "c < 2 ^ 31" using c(3) n31 by simp
  obtain b v1 where r: "ntfs_pread pread v (int x) (int c) ?part = Some (Inr (int c), b, v1)" "length b = c" "b = bytes_from (content v) x c"
      "follows v v1" "content v1 = content v" "dlive v1"
    using ntfs_pread_ok [OF Cons.prems(1) c(4) c31 part(2)] Cons.prems(2) by auto
  have small: "s32 (int c) = int c" "u32 (got + c) = got + c" "int (got + n) - int got = int n"
    using c(3) Cons.prems(6) s32_id [of "int c"] by auto
  let ?b = "blit inbuf got b"
  have step: "read_clusters pread bits (e # es) (int offs) (got + n) got inbuf v =
     (if got + c < got + n then read_clusters pread bits es 0 (got + n) (got + c) ?b v1 else Some (got + c, ?b, v1))"
    unfolding read_clusters.simps small(3) c(6) using c(7) part(1) r(1) small(1,2) by (simp add: Let_def)
  show ?case
  proof (cases "c < n")
    case True
    have s: "got + n = (got + c) + (n - c)" using True by simp
    have rec: "\<exists>v'. read_clusters pread bits es (int 0) ((got + c) + (n - c)) (got + c) ?b v1
        = Some ((got + c) + (n - c), blit ?b (got + c) (get_exts (content v1) (extents bits es 0 (n - c))), v')
        \<and> dlive v' \<and> follows v1 v' \<and> content v' = content v1"
      using Cons.prems r(2,4-6) True c(5) by (intro Cons.IH) (auto simp: follows_def)
    let ?rest = "get_exts (content v) (extents bits es 0 (n - c))"
    have "length (get_exts g xs) = sum_list (map snd xs)" for g xs by (induction g xs rule: get_exts.induct) auto
    then have len: "length ?rest = n - c" using extents_sum [OF c(5) [OF True]] by simp
    have bl: "blit ?b (got + c) ?rest = blit inbuf got (b @ ?rest)"
      using r(2) Cons.prems(7) c(3) blit_append [of got b ?rest inbuf] len by simp
    obtain v' where v': "read_clusters pread bits es 0 (got + n) (got + c) ?b v1 = Some (got + n, blit inbuf got (b @ ?rest), v')"
        "dlive v'" "follows v1 v'" "content v' = content v1"
      using rec unfolding s [symmetric] r(5) bl by auto
    have "get_exts (content v) ((x, c) # extents bits es 0 (n - c)) = b @ ?rest" by (simp add: r(3))
    then show ?thesis unfolding step c(1) if_P [OF True] using True v' r(4,5) by (simp add: follows_def)
  next
    case False
    then have "c = n" using c(3) by simp
    then show ?thesis using r(3-6) unfolding step c(1) by simp
  qed
qed

end

section \<open>Writing a set and reading it back\<close>

text \<open>The size rounded up to whole clusters.\<close>

lemma or_mask: "a OR (2 ^ k - 1) = (a div 2 ^ k) * 2 ^ k + (2 ^ k - 1)" for a :: nat
proof -
  have "a OR mask k = push_bit k (drop_bit k a) OR mask k" by (auto simp: bit_eq_iff bit_simps)
  moreover have "push_bit k (drop_bit k a) AND mask k = 0" by (auto simp: bit_eq_iff bit_simps)
  ultimately show ?thesis
    by (simp add: disjunctive_add_eq_or [symmetric] push_bit_eq_mult drop_bit_eq_div mask_eq_exp_minus_1)
qed

lemma round_up:
  fixes x :: nat
  assumes "0 < x" "r = ((x - 1) OR (2 ^ bits - 1)) + 1"
  shows "x \<le> r" "r < x + 2 ^ bits" "2 ^ bits dvd r"
proof -
  define q where "q = (x - 1) div 2 ^ bits"
  have r: "r = q * 2 ^ bits + 2 ^ bits" unfolding assms(2) or_mask q_def by simp
  have "q * 2 ^ bits + (x - 1) mod 2 ^ bits = x - 1" unfolding q_def by (rule div_mult_mod_eq)
  moreover have "(x - 1) mod 2 ^ bits < 2 ^ bits" by simp
  ultimately show "x \<le> r" "r < x + 2 ^ bits" unfolding r using assms(1) by linarith+
  show "2 ^ bits dvd r" unfolding r by simp
qed

lemma runs_fit_less: "runs_fit z bits rl offs n \<Longrightarrow> m \<le> n \<Longrightarrow> runs_fit z bits rl offs m"
proof (induction z bits rl offs n arbitrary: m rule: runs_fit.induct)
  case (2 z bits e es offs n)
  define c where "c = nat (rl_length e) * 2 ^ bits - offs"
  have IH: "c < n \<Longrightarrow> runs_fit z bits es 0 (n - c) \<Longrightarrow> k \<le> n - c \<Longrightarrow> runs_fit z bits es 0 k" for k
    using 2(1) [OF refl refl] unfolding c_def by blast
  have "c < m \<longrightarrow> runs_fit z bits es 0 (m - c)"
    using IH [of "m - c"] 2(2,3) unfolding runs_fit.simps Let_def c_def [symmetric] by auto
  then show ?case using 2(2) unfolding runs_fit.simps Let_def c_def [symmetric] by blast
qed simp

lemma extents_less: "m \<le> n \<Longrightarrow> (y, d) \<in> set (extents bits rl offs m) \<Longrightarrow> \<exists>d' \<ge> d. (y, d') \<in> set (extents bits rl offs n)"
proof (induction bits rl offs n arbitrary: m rule: extents.induct)
  case (2 bits e es offs n)
  define c where "c = nat (rl_length e) * 2 ^ bits - offs"
  have e: "extents bits (e # es) offs k = (nat (rl_lcn e) * 2 ^ bits + offs, min c k) # (if c < k then extents bits es 0 (k - c) else [])" for k
    by (simp add: c_def Let_def)
  have IH: "c < n \<Longrightarrow> k \<le> n - c \<Longrightarrow> (y, d) \<in> set (extents bits es 0 k) \<Longrightarrow> \<exists>d' \<ge> d. (y, d') \<in> set (extents bits es 0 (n - c))" for k
    using 2(1) [OF refl, folded c_def, of k] by (simp add: min_def)
  show ?case
  proof (cases "(y, d) = (nat (rl_lcn e) * 2 ^ bits + offs, min c m)")
    case True
    then show ?thesis unfolding e using 2(2) by (intro exI [of _ "min c n"]) auto
  next
    case False
    then have "c < m" "(y, d) \<in> set (extents bits es 0 (m - c))" using 2(3) unfolding e by (auto split: if_splits)
    then show ?thesis using IH [of "m - c"] 2(2) unfolding e by fastforce
  qed
qed simp

lemma apart_less: "apart (extents bits rl offs n) \<Longrightarrow> m \<le> n \<Longrightarrow> apart (extents bits rl offs m)"
proof (induction bits rl offs n arbitrary: m rule: extents.induct)
  case (2 bits e es offs n)
  define c where "c = nat (rl_length e) * 2 ^ bits - offs"
  define x where "x = nat (rl_lcn e) * 2 ^ bits + offs"
  have e: "extents bits (e # es) offs k = (x, min c k) # (if c < k then extents bits es 0 (k - c) else [])" for k
    by (simp add: c_def x_def Let_def)
  show ?case
  proof (cases "c < m")
    case True
    then have n: "c < n" "m - c \<le> n - c" using 2(3) by auto
    have a: "\<forall>(y, d) \<in> set (extents bits es 0 (n - c)). x + c \<le> y \<or> y + d \<le> x" "apart (extents bits es 0 (n - c))"
      using 2(2) n(1) unfolding e by (auto simp: min_def)
    have "apart (extents bits es 0 (m - c))" using 2(1) [OF refl, folded c_def, of "m - c"] a(2) n by (simp add: min_def)
    moreover have "x + c \<le> y \<or> y + d \<le> x" if "(y, d) \<in> set (extents bits es 0 (m - c))" for y d
      using extents_less [OF n(2) that] a(1) by fastforce
    ultimately show ?thesis using True unfolding e by (auto simp: min_def)
  next
    case False
    then show ?thesis unfolding e by simp
  qed
qed simp

text \<open>What is written decodes to the input.\<close>

lemma set_ok_decodes:
  assumes "set_ok inbuf insz compsz outbuf ss" "insz \<le> length ss * NTFS_SB_SIZE" "length ss * NTFS_SB_SIZE \<le> length dest" "insz \<le> length inbuf"
    and "lies_at cb 0 (concat (map sb_bytes ss) @ [0, 0])" "compsz + 2 \<le> k" "length dest = cbs" "length ss * NTFS_SB_SIZE < insz + NTFS_SB_SIZE"
  shows "ntfs_decompress dest cbs cb k = Some (Inr 0, blit dest 0 (whole_blocks inbuf insz))"
proof -
  note s = assms(1) [unfolded set_ok_def]
  have "ntfs_decompress dest cbs cb k = Some (Inr 0, blit dest 0 (concat (map sb_data ss)))"
    unfolding ntfs_decompress_def using s assms by (intro sb_loop_out) auto
  moreover have "concat (map sb_data ss) = whole_blocks inbuf insz"
    using s padded_whole_blocks [OF assms(2,8,4)] by simp
  ultimately show ?thesis by simp
qed

context byte_device
begin

lemma comp_set_ok:
  assumes "dvalid v" "dlive v" "\<not> NDevReadOnly v" "dsize v < 2 ^ 63"
    and "cbs = m * NTFS_SB_SIZE" "cbs < 2 ^ 31" "0 < insz" "insz \<le> cbs" "insz \<le> length inbuf" "runs_fit (dsize v) bits rl offs cbs"
    and "\<And>n b. heap n = Some b \<Longrightarrow> length b = n"
  shows "\<exists>r v'. ntfs_comp_set pwrite dsync room heap bits cbs rl (int offs) insz inbuf v = Some (r, v')
     \<and> (r = - 1 \<and> v' = v \<or> r = 0 \<and> v' = v \<and> all_zero (take insz inbuf)
        \<or> (\<exists>k out. r = int k \<and> 0 < k \<and> k < cbs \<and> 2 ^ bits dvd k \<and> dlive v' \<and> follows v v'
            \<and> content v' = put_exts (content v) (extents bits rl offs k) out \<and> length out = k
            \<and> (\<forall>dest. length dest = cbs \<longrightarrow> ntfs_decompress dest cbs out k = Some (Inr 0, blit dest 0 (whole_blocks inbuf insz)))))"
proof (cases "heap (cbs + 2 * (cbs div NTFS_SB_SIZE) + 2)")
  case None
  then show ?thesis by (simp add: ntfs_comp_set_def Let_def)
next
  case (Some outbuf)
  have m: "cbs div NTFS_SB_SIZE = m" using assms(5) by (simp add: NTFS_SB_SIZE_def)
  have len: "length outbuf = cbs + 2 * m + 2" using assms(11) [OF Some] m by simp
  have "set_ok inbuf insz 0 outbuf []" by (simp add: set_ok_def)
  obtain fail compsz allz out ss where c: "comp_blocks room inbuf insz cbs (2 ^ bits) 0 0 True outbuf = Some (fail, compsz, allz, out)"
      "\<not> fail \<longrightarrow> set_ok inbuf insz compsz out ss \<and> insz \<le> length ss * NTFS_SB_SIZE \<and> length ss * NTFS_SB_SIZE < insz + NTFS_SB_SIZE
        \<and> length out = cbs + 2 * m + 2 \<and> (allz \<longrightarrow> all_zero (concat (map sb_data ss))) \<and> (0 < length ss \<longrightarrow> compsz + 2 ^ bits + 2 \<le> cbs)"
  proof -
    have "0 = length ([] :: subblock list) * NTFS_SB_SIZE" "0 < insz + NTFS_SB_SIZE" "True \<longrightarrow> all_zero (concat (map sb_data []))"
        "0 < length ([] :: subblock list) \<longrightarrow> 0 + 2 ^ bits + 2 \<le> cbs"
      using assms(7) by (auto simp: all_zero_def)
    from comp_blocks_ok [OF \<open>set_ok inbuf insz 0 outbuf []\<close> this(1) assms(9,8,5) len this(2,3,4), of room] show ?thesis
      using that by blast
  qed
  show ?thesis
  proof (cases fail)
    case True
    then show ?thesis using c(1) Some by (simp add: ntfs_comp_set_def Let_def)
  next
    case ok: False
    then have s: "set_ok inbuf insz compsz out ss" "insz \<le> length ss * NTFS_SB_SIZE" "length ss * NTFS_SB_SIZE < insz + NTFS_SB_SIZE"
        "length out = cbs + 2 * m + 2" "allz \<longrightarrow> all_zero (concat (map sb_data ss))" "0 < length ss \<longrightarrow> compsz + 2 ^ bits + 2 \<le> cbs"
      using c(2) by auto
    have ss: "0 < length ss" using s(2) assms(7) by (cases ss) auto
    have fill: "length ss * NTFS_SB_SIZE \<le> cbs"
    proof -
      have "length ss * NTFS_SB_SIZE < (m + 1) * NTFS_SB_SIZE" using s(3) assms(5,8) by simp
      then have "length ss < m + 1" by (simp only: mult_less_cancel2)
      then have "length ss \<le> m" by simp
      then show ?thesis unfolding assms(5) by simp
    qed
    show ?thesis
    proof (cases allz)
      case True
      have "concat (map sb_data ss) = take (length ss * NTFS_SB_SIZE) (padded inbuf insz)" using s(1) by (simp add: set_ok_def)
      then have "take insz (concat (map sb_data ss)) = take insz inbuf" using s(2) assms(9) by (simp add: padded_def min_def)
      then have "all_zero (take insz inbuf)" using s(5) True by (metis all_zero_def in_set_takeD)
      then show ?thesis using c(1) Some True ok by (simp add: ntfs_comp_set_def Let_def)
    next
      case False
      define k where "k = ((compsz + 2 - 1) OR (2 ^ bits - 1)) + 1"
      have k: "compsz + 2 \<le> k" "k < compsz + 2 + 2 ^ bits" "2 ^ bits dvd k" using round_up [OF _ k_def] by auto
      let ?out = "blit out compsz [0, 0]"
      have room: "compsz + length [0, 0 :: u8] \<le> length out" and kc: "k < cbs" using k s(4,6) ss by auto
      have l: "lies_at ?out 0 (concat (map sb_bytes ss) @ [0, 0])"
        using s(1) lies_at_blit [OF room] lies_at_blit_other [of out 0 "concat (map sb_bytes ss)" compsz "[0, 0]"] room
        unfolding set_ok_def lies_at_append by simp
      have o: "length ?out = length out" using room by (rule length_blit)
      have klen: "0 + k \<le> length ?out" using kc s(4) o by linarith
      have "runs_fit (dsize v) bits rl offs k" using assms(10) by (rule runs_fit_less) (use kc in simp)
      then obtain v' where w: "write_clusters pwrite dsync bits rl (int offs) (int (0 + k)) (int 0) ?out v = Some (int (0 + k), v')" "dlive v'" "follows v v'"
          "content v' = put_exts (content v) (extents bits rl offs k) (chunk 0 k ?out)"
        using write_clusters_ok [OF assms(1-4), of bits rl offs k 0 ?out] klen k(1) kc assms(6) by auto
      have w1: "write_clusters pwrite dsync bits rl (int offs) (int k) 0 ?out v = Some (int k, v')" using w(1) by simp
      have "ntfs_comp_set pwrite dsync room heap bits cbs rl (int offs) insz inbuf v = Some (int k, v')"
        using w1 by (simp only: ntfs_comp_set_def Let_def Some option.case c(1) bind.bind_lunit prod.case ok False if_False mem_put_SomeI [OF room]
            k_def [symmetric] simp_thms)
      moreover have "lies_at (chunk 0 k ?out) 0 (concat (map sb_bytes ss) @ [0, 0])"
      proof -
        have "length (concat (map sb_bytes ss) @ [0, 0]) \<le> k" using s(1) k(1) by (simp add: set_ok_def)
        then show ?thesis using l klen by (simp add: lies_at_def chunk_def min_def del: lies_at_append)
      qed
      then have "ntfs_decompress dest cbs (chunk 0 k ?out) k = Some (Inr 0, blit dest 0 (whole_blocks inbuf insz))"
        if "length dest = cbs" for dest
        using that fill s(3) by (intro set_ok_decodes [OF s(1,2) _ assms(9) _ k(1)]) auto
      moreover have "length (chunk 0 k ?out) = k" using klen by simp
      ultimately show ?thesis using w(2-4) k(1,3) kc by fastforce
    qed
  qed
qed

end

section \<open>Properties\<close>

text \<open>
  C2. Writing a compression block to the clusters of a device that works and reading the clusters back gives the data: for
  every input, \<open>ntfs_comp_set\<close> either leaves the device alone, because the data do not shrink by a cluster, memory is short (-1) or all of it
  is zero (0), or it writes whole clusters, fewer than the block has, whose bytes \<open>ntfs_decompress\<close> turns into the input: the
  destination then holds the data, zeroes up to the end of their last block of 4096 bytes, and behind it what it held before.
\<close>

theorem comp_set_roundtrip:
  assumes "usb_valid fd v" "usb_live fd heap v" "\<not> NDevReadOnly v" "usb_size fd v < 2 ^ 63"
    and "cbs = m * NTFS_SB_SIZE" "cbs < 2 ^ 31" "0 < insz" "insz \<le> cbs" "insz \<le> length inbuf"
    and "runs_fit (usb_size fd v) bits rl offs cbs" "apart (extents bits rl offs cbs)" "\<And>n b. mem n = Some b \<Longrightarrow> length b = n"
  shows "\<exists>r v'. ntfs_comp_set (usb_pwrite un fd heap) (usb_sync un fd) room mem bits cbs rl (int offs) insz inbuf v = Some (r, v')
     \<and> (r = - 1 \<and> v' = v \<or> r = 0 \<and> v' = v \<and> all_zero (take insz inbuf)
        \<or> (\<exists>k. r = int k \<and> 0 < k \<and> k < cbs \<and> 2 ^ bits dvd k
            \<and> (\<forall>cb dest. length cb = k \<longrightarrow> length dest = cbs \<longrightarrow>
                 (\<exists>out v2. read_clusters (usb_pread un fd heap) bits rl (int offs) k 0 cb v' = Some (k, out, v2)
                   \<and> ntfs_decompress dest cbs out k = Some (Inr 0, blit dest 0 (whole_blocks inbuf insz))))))"
proof -
  note live = assms(2) [unfolded usb_live_def]
  obtain r v' where c: "ntfs_comp_set (usb_pwrite un fd heap) (usb_sync un fd) room mem bits cbs rl (int offs) insz inbuf v = Some (r, v')"
      "r = - 1 \<and> v' = v \<or> r = 0 \<and> v' = v \<and> all_zero (take insz inbuf)
        \<or> (\<exists>k out. r = int k \<and> 0 < k \<and> k < cbs \<and> 2 ^ bits dvd k \<and> usb_live fd heap v' \<and> usb_valid fd v' \<and> usb_size fd v' = usb_size fd v
            \<and> usb_content fd v' = put_exts (usb_content fd v) (extents bits rl offs k) out \<and> length out = k
            \<and> (\<forall>dest. length dest = cbs \<longrightarrow> ntfs_decompress dest cbs out k = Some (Inr 0, blit dest 0 (whole_blocks inbuf insz))))"
    using ps3_gekko.byte.comp_set_ok [OF assms(1) live assms(3-10,12)] unfolding ps3_gekko.byte.follows_def usb_live_def by blast
  have "\<exists>out v2. read_clusters (usb_pread un fd heap) bits rl (int offs) k 0 cb v' = Some (k, out, v2)
      \<and> ntfs_decompress dest cbs out k = Some (Inr 0, blit dest 0 (whole_blocks inbuf insz))"
    if k: "0 < k" "k < cbs" "usb_live fd heap v'" "usb_valid fd v'" "usb_size fd v' = usb_size fd v"
        "usb_content fd v' = put_exts (usb_content fd v) (extents bits rl offs k) out" "length out = k"
        "ntfs_decompress dest cbs out k = Some (Inr 0, blit dest 0 (whole_blocks inbuf insz))" and cb: "length cb = k"
    for k out cb dest
  proof -
    have f: "runs_fit (usb_size fd v') bits rl offs k" unfolding k(5) by (rule runs_fit_less [OF assms(10)]) (use k(2) in simp)
    have a: "apart (extents bits rl offs k)" by (rule apart_less [OF assms(11)]) (use k(2) in simp)
    have read: "\<exists>v2. read_clusters (usb_pread un fd heap) bits rl (int offs) (0 + k) 0 cb v'
        = Some (0 + k, blit cb 0 (get_exts (usb_content fd v') (extents bits rl offs k)), v2)"
    proof -
      have "usb_size fd v' < 2 ^ 63" "0 + k < 2 ^ 31" "0 + k \<le> length cb" using assms(4,6) k(2,5) cb by auto
      note r = ps3_gekko.byte.read_clusters_ok [OF k(4) k(3) [unfolded usb_live_def] this(1) f k(1) this(2,3), of un]
      show ?thesis using r by blast
    qed
    have "length out = sum_list (map snd (extents bits rl offs k))" using extents_sum [OF f] k(7) by simp
    then have get: "get_exts (usb_content fd v') (extents bits rl offs k) = out" unfolding k(6) by (rule get_put_exts [OF a])
    have "blit cb 0 out = out" using cb k(7) by (simp add: blit_def)
    then obtain v2 where "read_clusters (usb_pread un fd heap) bits rl (int offs) k 0 cb v' = Some (k, out, v2)"
      using read unfolding get add_0 by auto
    then show ?thesis using k(8) by blast
  qed
  note again = this
  show ?thesis
  proof (cases "r = - 1 \<and> v' = v \<or> r = 0 \<and> v' = v \<and> all_zero (take insz inbuf)")
    case True
    then show ?thesis using c(1) by blast
  next
    case False
    then obtain k out where k: "r = int k" "0 < k" "k < cbs" "2 ^ bits dvd k" "usb_live fd heap v'" "usb_valid fd v'" "usb_size fd v' = usb_size fd v"
        "usb_content fd v' = put_exts (usb_content fd v) (extents bits rl offs k) out" "length out = k"
        "\<forall>dest. length dest = cbs \<longrightarrow> ntfs_decompress dest cbs out k = Some (Inr 0, blit dest 0 (whole_blocks inbuf insz))"
      using c(2) by (elim disjE exE conjE) (blast | simp)+
    have "\<forall>cb dest. length cb = k \<longrightarrow> length dest = cbs \<longrightarrow> (\<exists>out v2. read_clusters (usb_pread un fd heap) bits rl (int offs) k 0 cb v' = Some (k, out, v2)
        \<and> ntfs_decompress dest cbs out k = Some (Inr 0, blit dest 0 (whole_blocks inbuf insz)))"
      using again [OF k(2,3,5-9)] k(10) by simp
    then show ?thesis using c(1) k(1-4) by (intro exI [of _ r] exI [of _ v'] conjI disjI2 exI [of _ k]) simp_all
  qed
qed

definition comp_dev :: "(int \<Rightarrow> nat \<Rightarrow> bytes) ps3" where
  "comp_dev = ram_dev \<lparr>ops := ram_ops \<lparr>medium_end := \<lambda>h. 16384\<rparr>\<rparr>"

definition comp_device :: "(int \<Rightarrow> nat \<Rightarrow> bytes) ps3 gekko_fd ntfs_device" where
  "comp_device = ram_device \<lparr>d_private := Some (ram_fd \<lparr>fd_interface := Some (NoCache comp_dev)\<rparr>)\<rparr>"

lemma comp_device_ok: "usb_valid 0 comp_device" "usb_live 0 ram_heap comp_device" "\<not> NDevReadOnly comp_device" "usb_size 0 comp_device = 16382"
proof -
  have "fd_of comp_device = ram_fd \<lparr>fd_interface := Some (NoCache comp_dev)\<rparr>" by (simp add: fd_of_def comp_device_def)
  moreover have "backing_of comp_device = NoCache comp_dev" by (simp add: backing_of_def calculation)
  moreover have "read_law (ram_ops \<lparr>medium_end := \<lambda>h. 16384\<rparr>)" "write_law (ram_ops \<lparr>medium_end := \<lambda>h. 16384\<rparr>)"
    by (auto simp: read_law_def write_law_def ram_ops_def put_sectors_def split: if_splits)
  then have "ps3_valid 0 comp_dev" "ps3_live 0 comp_dev"
    by (simp_all add: ps3_valid_def ps3_live_def comp_dev_def ram_dev_def) (simp_all add: ram_ops_def)
  ultimately show "usb_valid 0 comp_device" "usb_live 0 ram_heap comp_device" "\<not> NDevReadOnly comp_device" "usb_size 0 comp_device = 16382"
    by (simp_all add: gekko_valid_def gekko_size_def usb_live_def alloc_def ram_heap_def)
      (simp_all add: comp_device_def comp_dev_def ram_device_def ram_fd_def ram_dev_def ram_ops_def)
qed

theorem comp_set_roundtrip_witness:
  "\<exists>r v'. ntfs_comp_set (usb_pwrite True 0 ram_heap) (usb_sync True 0) (\<lambda>p. True) (\<lambda>n. Some (replicate n 0)) 9 8192 [rle 0 1 16] (int 0)
       5000 (replicate 5000 7) comp_device = Some (r, v')
     \<and> (r = - 1 \<and> v' = comp_device \<or> r = 0 \<and> v' = comp_device \<and> all_zero (take 5000 (replicate 5000 7))
        \<or> (\<exists>k. r = int k \<and> 0 < k \<and> k < 8192 \<and> 2 ^ 9 dvd k
            \<and> (\<forall>cb dest. length cb = k \<longrightarrow> length dest = 8192 \<longrightarrow>
                 (\<exists>out v2. read_clusters (usb_pread True 0 ram_heap) 9 [rle 0 1 16] (int 0) k 0 cb v' = Some (k, out, v2)
                   \<and> ntfs_decompress dest 8192 out k = Some (Inr 0, blit dest 0 (whole_blocks (replicate 5000 7) 5000))))))"
proof (rule comp_set_roundtrip [OF comp_device_ok(1-3)])
  show "8192 = (2 :: nat) * NTFS_SB_SIZE" by (simp add: NTFS_SB_SIZE_def)
qed (simp_all add: comp_device_ok(4) Let_def)

end
