(* ===== verification/UtfConv.thy ===== *)
theory UtfConv
  imports Collate
begin

text \<open>
  The conversion of names between UTF-16 and UTF-8, the second part of \<open>libntfs_ext/source/unistr.c\<close> (with \<open>NOREVBOM\<close> 0): the sizes, the
  two conversions, and the upper case of a UTF-8 name. A C string is its memory from the pointer on, the terminator included; \<open>None\<close> is an access
  outside it, outside the buffer of the result, or to memory that was freed. \<open>room\<close> says whether \<open>ntfs_malloc\<close> finds memory, and the fresh
  bytes of a block are \<open>junk\<close>.
\<close>

section \<open>The conversions\<close>

definition PATH_MAX :: nat where
  "PATH_MAX = 4096"

text \<open>A value stored into a \<open>char\<close>.\<close>

definition byte :: "nat \<Rightarrow> u8" where
  "byte x = word_of_nat x"

fun utf16_size_loop :: "ntfschar list \<Rightarrow> nat \<Rightarrow> nat \<Rightarrow> bool \<Rightarrow> nat \<Rightarrow> (errno + nat) option" where
  "utf16_size_loop ins 0 outs_len surrog count = Some (if surrog then Inl EILSEQ else Inr count)"
| "utf16_size_loop [] (Suc n) outs_len surrog count = None"
| "utf16_size_loop (w # ins) (Suc n) outs_len surrog count =
     (let c = unat w;
          next = (\<lambda>surrog count. if count > outs_len then Some (Inl ENAMETOOLONG) else utf16_size_loop ins n outs_len surrog count) in
      if c = 0 then Some (if surrog then Inl EILSEQ else Inr count)
      else if surrog then (if c \<ge> 0xdc00 \<and> c < 0xe000 then next False (count + 4) else Some (Inl EILSEQ))
      else if c < 0x80 then next False (count + 1)
      else if c < 0x800 then next False (count + 2)
      else if c < 0xd800 then next False (count + 3)
      else if c < 0xdc00 then next True count
      else if c \<ge> 0xe000 then next False (count + 3)
      else Some (Inl EILSEQ))"

definition utf16_to_utf8_size :: "ntfschar list \<Rightarrow> nat \<Rightarrow> nat \<Rightarrow> (errno + nat) option" where
  "utf16_to_utf8_size ins ins_len outs_len = utf16_size_loop ins ins_len outs_len False 0"

text \<open>The bytes written for a character outside the surrogates, and for the second half of a pair.\<close>

definition three_bytes :: "nat \<Rightarrow> bytes" where
  "three_bytes c = [byte (0xe0 OR drop_bit 12 c), byte (0x80 OR (drop_bit 6 c AND 0x3f)), byte (0x80 OR (c AND 0x3f))]"

definition two_bytes :: "nat \<Rightarrow> bytes" where
  "two_bytes c = [byte (0xc0 OR (drop_bit 6 c AND 0x3f)), byte (0x80 OR (c AND 0x3f))]"

definition pair_bytes :: "nat \<Rightarrow> nat \<Rightarrow> bytes" where
  "pair_bytes halfpair c =
     [byte (0xf0 + (drop_bit 8 (halfpair + 64) AND 7)), byte (0x80 + (drop_bit 2 (halfpair + 64) AND 63)),
      byte (0x80 + (drop_bit 6 c AND 15) + push_bit 4 (halfpair AND 3)), byte (0x80 + (c AND 63))]"

fun utf16_loop :: "ntfschar list \<Rightarrow> nat \<Rightarrow> nat \<Rightarrow> bytes \<Rightarrow> nat \<Rightarrow> (errno + bytes \<times> nat) option" where
  "utf16_loop ins 0 halfpair outs t = map_option (\<lambda>outs. Inr (outs, t)) (mem_put outs t [0])"
| "utf16_loop [] (Suc n) halfpair outs t = None"
| "utf16_loop (w # ins) (Suc n) halfpair outs t =
     (let c = unat w;
          put = (\<lambda>xs. mem_put outs t xs \<bind> (\<lambda>outs. utf16_loop ins n 0 outs (t + length xs))) in
      if c = 0 then map_option (\<lambda>outs. Inr (outs, t)) (mem_put outs t [0])
      else if halfpair \<noteq> 0 then (if c \<ge> 0xdc00 \<and> c < 0xe000 then put (pair_bytes halfpair c) else Some (Inl EILSEQ))
      else if c < 0x80 then put [byte c]
      else if c < 0x800 then put (two_bytes c)
      else if c < 0xd800 then put (three_bytes c)
      else if c < 0xdc00 then utf16_loop ins n c outs t
      else if c \<ge> 0xe000 then put (three_bytes c)
      else Some (Inl EILSEQ))"

text \<open>\<open>outs\<close> is \<open>None\<close> for \<open>*outs = NULL\<close>, the buffer of \<open>outs_len\<close> bytes else; the result is the buffer and the length.\<close>

definition ntfs_utf16_to_utf8 :: "bool \<Rightarrow> u8 \<Rightarrow> ntfschar list \<Rightarrow> nat \<Rightarrow> bytes option \<Rightarrow> nat \<Rightarrow> (errno + bytes \<times> nat) option" where
  "ntfs_utf16_to_utf8 room junk ins ins_len outs outs_len =
     utf16_to_utf8_size ins ins_len (if outs = None then PATH_MAX else outs_len) \<bind>
     case_sum (\<lambda>e. Some (Inl e))
       (\<lambda>sz. case outs of
          None \<Rightarrow> if room then utf16_loop ins ins_len 0 (replicate (sz + 1) junk) 0 else Some (Inl ENOMEM)
        | Some buf \<Rightarrow> utf16_loop ins ins_len 0 buf 0)"

fun utf8_size_loop :: "bytes \<Rightarrow> nat \<Rightarrow> (errno + nat) option" where
  "utf8_size_loop [] count = None"
| "utf8_size_loop (b # s) count =
     (if b = 0 then Some (Inr count)
      else if count + 1 \<ge> PATH_MAX then Some (Inl ENAMETOOLONG)
      else if unat b < 0xc0 then utf8_size_loop s (count + 1)
      else if unat b \<ge> 0xf5 then Some (Inl EILSEQ)
      else (case s of [] \<Rightarrow> None | b1 # s1 \<Rightarrow>
        if b1 = 0 then Some (Inr (count + 1))
        else (case s1 of [] \<Rightarrow> None | b2 # s2 \<Rightarrow>
          if b2 = 0 then Some (Inr (count + 1))
          else if unat b < 0xe0 then utf8_size_loop s1 (count + 1)
          else (case s2 of [] \<Rightarrow> None | b3 # s3 \<Rightarrow>
            if b3 = 0 then Some (Inr (count + 1))
            else if unat b < 0xf0 then utf8_size_loop s2 (count + 1)
            else if count + 2 \<ge> PATH_MAX then Some (Inl ENAMETOOLONG)
            else utf8_size_loop s3 (count + 2)))))"

definition utf8_to_utf16_size :: "bytes \<Rightarrow> (errno + nat) option" where
  "utf8_to_utf16_size s = utf8_size_loop s 0"

text \<open>The loop's tests \<open>(s[i] & 0xC0) == 0x80\<close> and bits \<open>s[i] & 0x3F\<close>.\<close>

definition is_cont :: "bytes \<Rightarrow> nat \<Rightarrow> bool option" where
  "is_cont s i = map_option (\<lambda>b. (unat b AND 0xc0) = 0x80) (elem s i)"

definition low6 :: "bytes \<Rightarrow> nat \<Rightarrow> nat" where
  "low6 s i = unat (s ! i) AND 0x3f"

text \<open>\<open>Some None\<close> is the return value -1; \<open>Some (Some (n, wc))\<close> the number \<open>n\<close> of bytes and \<open>*wc\<close>.\<close>

definition utf8_to_unicode :: "bytes \<Rightarrow> (nat \<times> nat) option option" where
  "utf8_to_unicode s = do {
     b \<leftarrow> elem s 0;
     let byte = unat b;
     if byte = 0 then Some (Some (0, 0))
     else if byte < 0x80 then Some (Some (1, byte))
     else if byte < 0xc2 then Some None
     else if byte < 0xe0 then do {
       c1 \<leftarrow> is_cont s 1;
       Some (if c1 then Some (2, push_bit 6 (byte AND 0x1f) OR low6 s 1) else None) }
     else if byte < 0xf0 then do {
       c1 \<leftarrow> is_cont s 1;
       c2 \<leftarrow> (if c1 then is_cont s 2 else Some False);
       let wc = push_bit 12 (byte AND 0x0f) OR push_bit 6 (low6 s 1) OR low6 s 2;
       Some (if c2 \<and> (wc \<ge> 0x800 \<and> wc \<le> 0xd7ff \<or> wc \<ge> 0xe000 \<and> wc \<le> 0xffff) then Some (3, wc) else None) }
     else if byte < 0xf5 then do {
       c1 \<leftarrow> is_cont s 1;
       c2 \<leftarrow> (if c1 then is_cont s 2 else Some False);
       c3 \<leftarrow> (if c2 then is_cont s 3 else Some False);
       let wc = push_bit 18 (byte AND 0x07) OR push_bit 12 (low6 s 1) OR push_bit 6 (low6 s 2) OR low6 s 3;
       Some (if c3 \<and> wc \<le> 0x10ffff \<and> wc \<ge> 0x10000 then Some (4, wc) else None) }
     else Some None }"

lemma is_cont_Some: "is_cont s i = Some b \<Longrightarrow> i < length s"
  by (auto simp: is_cont_def elem_def split: if_splits)

lemma utf8_to_unicode_length: "utf8_to_unicode s = Some (Some (n, wc)) \<Longrightarrow> n \<le> length s"
  by (auto simp: utf8_to_unicode_def Let_def elem_def bind_eq_Some_conv Suc_le_eq split: if_splits dest!: is_cont_Some)

text \<open>The loops of \<open>ntfs_utf8_to_utf16\<close> and \<open>ntfs_uppercase_mbs\<close>: the buffer and the next position, and \<open>None\<close> for an invalid sequence.\<close>

definition put16 :: "ntfschar list \<Rightarrow> nat \<Rightarrow> ntfschar list \<Rightarrow> ntfschar list option" where
  "put16 b i xs = (if i + length xs \<le> length b then Some (blit b i xs) else None)"

definition units :: "nat \<Rightarrow> ntfschar list" where
  "units wc = (if wc < 0x10000 then [word_of_nat wc]
     else [word_of_nat (drop_bit 10 (wc - 0x10000) + 0xd800), word_of_nat (((wc - 0x10000) AND 0x3ff) + 0xdc00)])"

function utf8_loop :: "bytes \<Rightarrow> ntfschar list \<Rightarrow> nat \<Rightarrow> (ntfschar list \<times> nat) option option" where
  "utf8_loop s outs pos =
     (case utf8_to_unicode s of
        None \<Rightarrow> None
      | Some None \<Rightarrow> Some None
      | Some (Some (m, wc)) \<Rightarrow>
          if m = 0 then map_option (\<lambda>outs. Some (outs, pos)) (put16 outs pos [0])
          else put16 outs pos (units wc) \<bind> (\<lambda>outs. utf8_loop (drop m s) outs (pos + length (units wc))))"
  by pat_completeness auto
termination
  by (relation "measure (length \<circ> fst)") (auto dest: utf8_to_unicode_length)

declare utf8_loop.simps [simp del]

definition ntfs_utf8_to_utf16 :: "bool \<Rightarrow> ntfschar \<Rightarrow> bytes \<Rightarrow> ntfschar list option \<Rightarrow> (errno + ntfschar list \<times> nat) option" where
  "ntfs_utf8_to_utf16 room junk ins outs =
     utf8_to_utf16_size ins \<bind>
     case_sum (\<lambda>e. Some (Inl e))
       (\<lambda>shorts. case outs of
          None \<Rightarrow> if room then map_option (case_option (Inl EILSEQ) Inr) (utf8_loop ins (replicate (shorts + 1) junk) 0) else Some (Inl ENOMEM)
        | Some buf \<Rightarrow> map_option (case_option (Inl EILSEQ) Inr) (utf8_loop ins buf 0))"

definition upper_bytes :: "nat \<Rightarrow> bytes" where
  "upper_bytes wc = (if wc < 0x80 then [byte wc]
     else if wc < 0x800 then two_bytes wc
     else if wc < 0x10000 then three_bytes wc
     else [byte (0xf0 OR (drop_bit 18 wc AND 7)), byte (0x80 OR (drop_bit 12 wc AND 63)),
           byte (0x80 OR (drop_bit 6 wc AND 0x3f)), byte (0x80 OR (wc AND 0x3f))])"

text \<open>The result of the loop: whether the last \<open>n\<close> is negative, the buffer and \<open>t\<close>.\<close>

function upper_loop :: "ntfschar list \<Rightarrow> nat \<Rightarrow> bytes \<Rightarrow> bytes \<Rightarrow> nat \<Rightarrow> (bool \<times> bytes \<times> nat) option" where
  "upper_loop upcase upcase_size s upp t =
     (case utf8_to_unicode s of
        None \<Rightarrow> None
      | Some None \<Rightarrow> Some (True, upp, t)
      | Some (Some (n, wc)) \<Rightarrow>
          if n = 0 then Some (False, upp, t)
          else do {
            wc \<leftarrow> (if wc < upcase_size then map_option unat (elem upcase wc) else Some wc);
            upp \<leftarrow> mem_put upp t (upper_bytes wc);
            upper_loop upcase upcase_size (drop n s) upp (t + length (upper_bytes wc)) })"
  by pat_completeness auto
termination
  by (relation "measure (length \<circ> fst \<circ> snd \<circ> snd)") (auto dest: utf8_to_unicode_length)

declare upper_loop.simps [simp del]

fun strlen :: "bytes \<Rightarrow> nat option" where
  "strlen [] = None"
| "strlen (b # s) = (if b = 0 then Some 0 else map_option Suc (strlen s))"

text \<open>After an invalid sequence \<open>upp\<close> is freed, and \<open>*t = 0\<close> still writes to it.\<close>

definition ntfs_uppercase_mbs :: "bool \<Rightarrow> u8 \<Rightarrow> bytes \<Rightarrow> ntfschar list \<Rightarrow> nat \<Rightarrow> bytes option option" where
  "ntfs_uppercase_mbs room junk low upcase upcase_size = do {
     sz \<leftarrow> strlen low;
     if room then do {
       (bad, upp, t) \<leftarrow> upper_loop upcase upcase_size low (replicate (3 * sz + 1) junk) 0;
       let upp = (if bad then [] else upp);
       map_option Some (mem_put upp t [0]) }
     else Some None }"

section \<open>Code points\<close>

text \<open>The Unicode scalar values, and their forms in RFC 3629 and RFC 2781.\<close>

definition scalar :: "nat \<Rightarrow> bool" where
  "scalar p \<longleftrightarrow> 0 < p \<and> p < 0x110000 \<and> \<not> (0xd800 \<le> p \<and> p < 0xe000)"

definition utf8 :: "nat \<Rightarrow> bytes" where
  "utf8 p = map byte (if p < 0x80 then [p]
     else if p < 0x800 then [0xc0 + p div 64, 0x80 + p mod 64]
     else if p < 0x10000 then [0xe0 + p div 4096, 0x80 + p div 64 mod 64, 0x80 + p mod 64]
     else [0xf0 + p div 262144, 0x80 + p div 4096 mod 64, 0x80 + p div 64 mod 64, 0x80 + p mod 64])"

definition utf16 :: "nat \<Rightarrow> ntfschar list" where
  "utf16 p = map word_of_nat (if p < 0x10000 then [p] else [0xd800 + (p - 0x10000) div 1024, 0xdc00 + p mod 1024])"

section \<open>Bit fields\<close>

lemma and_low:
  fixes n :: nat
  shows "n AND 7 = n mod 8" "n AND 15 = n mod 16" "n AND 31 = n mod 32" "n AND 63 = n mod 64" "n AND 3 = n mod 4" "n AND 1023 = n mod 1024"
  using take_bit_eq_mask [of 3 n] take_bit_eq_mask [of 4 n] take_bit_eq_mask [of 5 n] take_bit_eq_mask [of 6 n] take_bit_eq_mask [of 2 n]
    take_bit_eq_mask [of 10 n]
  by (simp_all add: mask_eq_exp_minus_1 take_bit_eq_mod)

lemma and_high: "(n :: nat) AND 192 = 64 * (n div 64 mod 4)"
proof -
  have "n AND 192 = push_bit 6 (drop_bit 6 (n AND 192)) + take_bit 6 (n AND 192)" by (rule bits_ident [symmetric])
  also have "\<dots> = push_bit 6 (drop_bit 6 n AND 3)" by (simp add: take_bit_and drop_bit_and)
  finally show ?thesis by (simp add: and_low push_bit_eq_mult drop_bit_eq_div)
qed

lemma or_add: "x < 2 ^ k \<Longrightarrow> (a :: nat) * 2 ^ k OR x = a * 2 ^ k + x"
proof -
  assume x: "x < 2 ^ k"
  have "push_bit k a AND take_bit k x = 0" by (auto simp: bit_eq_iff bit_simps)
  then show ?thesis using x by (simp add: disjunctive_add_eq_or [symmetric] push_bit_eq_mult take_bit_nat_eq_self)
qed

lemma or_high:
  fixes x :: nat
  shows "x < 64 \<Longrightarrow> 128 OR x = 128 + x" "x < 64 \<Longrightarrow> 192 OR x = 192 + x" "x < 16 \<Longrightarrow> 224 OR x = 224 + x" "x < 16 \<Longrightarrow> 240 OR x = 240 + x"
  using or_add [of x 6 2] or_add [of x 6 3] or_add [of x 4 14] or_add [of x 4 15] by simp_all

lemma or_fields:
  fixes a :: nat
  shows "x < 64 \<Longrightarrow> a * 64 OR x = a * 64 + x" "x < 4096 \<Longrightarrow> a * 4096 OR x = a * 4096 + x"
    "x < 262144 \<Longrightarrow> a * 262144 OR x = a * 262144 + x"
  using or_add [of x 6 a] or_add [of x 12 a] or_add [of x 18 a] by simp_all

lemma unat_byte: "x < 256 \<Longrightarrow> unat (byte x) = x"
  by (simp add: byte_def unat_of_nat)

lemmas bits = and_low and_high or_high or_fields push_bit_eq_mult drop_bit_eq_div

lemma field_div: "(x :: nat) < k \<Longrightarrow> (a * k + x) div k = a" "(x :: nat) < k \<Longrightarrow> (a * k + x) mod k = x"
  by simp_all

lemma digits:
  fixes p :: nat
  obtains a b c d where "p = a * 262144 + b * 4096 + c * 64 + d" "b < 64" "c < 64" "d < 64"
    "p div 262144 = a" "p div 4096 = a * 64 + b" "p div 64 = a * 4096 + b * 64 + c" "p mod 64 = d"
proof
  let ?a = "p div 262144" and ?b = "p div 4096 mod 64" and ?c = "p div 64 mod 64" and ?d = "p mod 64"
  show "?b < 64" "?c < 64" "?d < 64" "p div 262144 = ?a" "p mod 64 = ?d" by simp_all
  show 1: "p div 4096 = ?a * 64 + ?b" using div_mult2_eq [of p 4096 64] by simp
  have "p div 64 = 64 * (p div 64 div 64) + ?c" "p div 64 div 64 = p div 4096" using div_mult2_eq [of p 64 64] by simp_all
  then show 2: "p div 64 = ?a * 4096 + ?b * 64 + ?c" using 1 by linarith
  show "p = ?a * 262144 + ?b * 4096 + ?c * 64 + ?d" using 2 mult_div_mod_eq [of 64 p] by linarith
qed

lemma of_digits:
  fixes p :: nat
  assumes "p = a * 262144 + b * 4096 + c * 64 + d" "b < 64" "c < 64" "d < 64"
  shows "p mod 64 = d" "p div 64 mod 64 = c" "p div 4096 mod 64 = b" "p div 262144 = a"
proof -
  have p: "p = ((a * 64 + b) * 64 + c) * 64 + d" using assms(1) by simp
  show "p mod 64 = d" unfolding p by (rule field_div(2)) (rule assms(4))
  have 1: "p div 64 = (a * 64 + b) * 64 + c" using field_div(1) [OF assms(4)] p by simp
  show "p div 64 mod 64 = c" unfolding 1 by (rule field_div(2)) (rule assms(3))
  have 2: "p div 4096 = a * 64 + b" using field_div(1) [OF assms(3), of "a * 64 + b"] 1 div_mult2_eq [of p 64 64] by simp
  show "p div 4096 mod 64 = b" unfolding 2 by (rule field_div(2)) (rule assms(2))
  show "p div 262144 = a" using 2 field_div(1) [OF assms(2)] div_mult2_eq [of p 4096 64] by simp
qed

lemma digits4: "(n :: nat) = n div 256 * 256 + n div 4 mod 64 * 4 + n mod 4"
proof -
  have "n = 4 * (n div 4) + n mod 4" "n div 4 = 64 * (n div 4 div 64) + n div 4 mod 64" "n div 4 div 64 = n div 256"
    using div_mult2_eq [of n 4 64] by simp_all
  then show ?thesis by linarith
qed

section \<open>One character\<close>

text \<open>The bytes the code writes are those of RFC 3629.\<close>

lemma two_bytes_utf8: "0x80 \<le> p \<Longrightarrow> p < 0x800 \<Longrightarrow> two_bytes p = utf8 p"
  by (simp add: two_bytes_def utf8_def bits)

lemma three_bytes_utf8: "0x800 \<le> p \<Longrightarrow> p < 0x10000 \<Longrightarrow> three_bytes p = utf8 p"
  by (simp add: three_bytes_def utf8_def bits div_less)

lemma pair_bytes_utf8:
  assumes "0xd800 \<le> h" "h < 0xdc00" "0xdc00 \<le> l" "l < 0xe000"
  shows "pair_bytes h l = utf8 (0x10000 + (h - 0xd800) * 1024 + (l - 0xdc00))"
proof -
  obtain a b c where x: "h - 55232 = a * 256 + b * 4 + c" "b < 64" "c < 4"
    by (rule that [OF digits4]) simp_all
  obtain e f where y: "l - 56320 = e * 64 + f" "f < 64" "e < 16"
    using that [of "(l - 56320) div 64" "(l - 56320) mod 64"] assms by simp
  have h: "h = 55232 + (a * 256 + b * 4 + c)" and l: "l = 56320 + (e * 64 + f)" using x y assms by linarith+
  have "a < 5" using h assms by linarith
  have "h + 64 = (216 + a) * 256 + (b * 4 + c)" "h + 64 = ((216 + a) * 64 + b) * 4 + c" "h = (13808 + a * 64 + b) * 4 + c"
      "l = (880 + e) * 64 + f" "b * 4 + c < 256" "216 + a = 27 * 8 + a" "880 + e = 55 * 16 + e"
    using x(2,3) by (simp_all add: h l)
  note eqs = this
  have "(h + 64) div 256 = 27 * 8 + a" unfolding eqs(1) field_div(1) [OF eqs(5)] by (rule eqs(6))
  moreover have "(h + 64) div 4 = (216 + a) * 64 + b" unfolding eqs(2) by (rule field_div(1)) (rule x(3))
  moreover have "h mod 4 = c" unfolding eqs(3) by (rule field_div(2)) (rule x(3))
  moreover have "l div 64 = 55 * 16 + e" unfolding eqs(4) field_div(1) [OF y(2)] by (rule eqs(7))
  moreover have "l mod 64 = f" unfolding eqs(4) by (rule field_div(2)) (rule y(2))
  ultimately have "drop_bit 8 (h + 64) AND 7 = a" "drop_bit 2 (h + 64) AND 63 = b" "h AND 3 = c" "drop_bit 6 l AND 15 = e" "l AND 63 = f"
    using x(2) y(3) \<open>a < 5\<close> field_div(2) [of a 8 27] field_div(2) [of b 64 "216 + a"] field_div(2) [of e 16 55]
    by (simp_all add: and_low drop_bit_eq_div)
  moreover define q where "q = 0x10000 + (h - 0xd800) * 1024 + (l - 0xdc00)"
  moreover have "h - 55296 + 64 = a * 256 + b * 4 + c" using h assms by linarith
  then have "(h - 55296) * 1024 + 64 * 1024 = (a * 256 + b * 4 + c) * 1024" unfolding add_mult_distrib [symmetric] by (rule arg_cong)
  then have p: "q = a * 262144 + b * 4096 + (c * 16 + e) * 64 + f" unfolding q_def y(1) by (simp add: algebra_simps)
  moreover have "c * 16 + e < 64" using x y by linarith
  moreover have "65536 \<le> q" unfolding q_def by linarith
  ultimately show ?thesis
    using of_digits [OF p x(2) _ y(2)] unfolding q_def [symmetric] by (simp add: pair_bytes_def utf8_def push_bit_eq_mult add_ac)
qed

lemma upper_bytes_utf8: "p < 0x110000 \<Longrightarrow> upper_bytes p = utf8 p"
  by (auto simp: upper_bytes_def two_bytes_utf8 three_bytes_utf8) (simp_all add: utf8_def bits)

lemma unat_unit: "x < 65536 \<Longrightarrow> unat (word_of_nat x :: ntfschar) = x"
  by (simp add: unat_of_nat)

lemma units_utf16: "units p = utf16 p"
proof (cases "p < 0x10000")
  case False
  then obtain q where "p = q + 64 * 1024" using le_Suc_ex [of "0x10000" p] by (auto simp: add.commute)
  moreover have "(q + 64 * 1024) mod 1024 = q mod 1024" by (rule mod_mult_self1)
  ultimately show ?thesis by (simp add: units_def utf16_def bits add.commute)
qed (simp add: units_def utf16_def)

lemma is_cont_byte: "i < length s \<Longrightarrow> s ! i = byte (128 + x) \<Longrightarrow> x < 64 \<Longrightarrow> is_cont s i = Some True"
  by (simp add: is_cont_def unat_byte bits)

lemma low6_byte: "s ! i = byte (128 + x) \<Longrightarrow> x < 64 \<Longrightarrow> low6 s i = x"
  using field_div(2) [of x 64 2] by (simp add: low6_def unat_byte bits)

lemma decode2:
  assumes "2 \<le> c" "c < 32" "d < 64"
  shows "utf8_to_unicode (byte (192 + c) # byte (128 + d) # s) = Some (Some (2, c * 64 + d))"
  using assms is_cont_byte [of 1 "byte (192 + c) # byte (128 + d) # s" d] low6_byte [of "byte (192 + c) # byte (128 + d) # s" 1 d]
    field_div(2) [of c 32 6]
  by (simp add: utf8_to_unicode_def unat_byte bits)

lemma decode3:
  assumes "b < 16" "c < 64" "d < 64" "p = b * 4096 + c * 64 + d" "0x800 \<le> p" "\<not> (0xd800 \<le> p \<and> p < 0xe000)"
  shows "utf8_to_unicode (byte (224 + b) # byte (128 + c) # byte (128 + d) # s) = Some (Some (3, p))"
proof -
  define t where "t = byte (224 + b) # byte (128 + c) # byte (128 + d) # s"
  have "is_cont t 1 = Some True" "is_cont t 2 = Some True" "low6 t 1 = c" "low6 t 2 = d" "elem t 0 = Some (byte (224 + b))"
    using assms is_cont_byte [of 1 t c] low6_byte [of t 1 c] is_cont_byte [of 2 t d] low6_byte [of t 2 d] by (simp_all add: t_def)
  moreover have "p \<le> 0xffff" "p \<le> 0xd7ff \<or> p \<ge> 0xe000" using assms by linarith+
  ultimately show ?thesis unfolding t_def [symmetric] using assms field_div(2) [of b 16 14]
    by (simp add: utf8_to_unicode_def unat_byte bits Let_def add.assoc)
qed

lemma decode4:
  assumes "a < 5" "b < 64" "c < 64" "d < 64" "p = a * 262144 + b * 4096 + c * 64 + d" "0x10000 \<le> p" "p < 0x110000"
  shows "utf8_to_unicode (byte (240 + a) # byte (128 + b) # byte (128 + c) # byte (128 + d) # s) = Some (Some (4, p))"
proof -
  define t where "t = byte (240 + a) # byte (128 + b) # byte (128 + c) # byte (128 + d) # s"
  have "is_cont t 1 = Some True" "is_cont t 2 = Some True" "is_cont t 3 = Some True" "low6 t 1 = b" "low6 t 2 = c" "low6 t 3 = d"
      "elem t 0 = Some (byte (240 + a))"
    using assms is_cont_byte [of 1 t b] low6_byte [of t 1 b] is_cont_byte [of 2 t c] low6_byte [of t 2 c] is_cont_byte [of 3 t d] low6_byte [of t 3 d]
    by (simp_all add: t_def)
  then show ?thesis unfolding t_def [symmetric] using assms field_div(2) [of a 8 30]
    by (simp add: utf8_to_unicode_def unat_byte bits Let_def add.assoc)
qed

lemma utf8_2: "2 \<le> c \<Longrightarrow> c < 32 \<Longrightarrow> d < 64 \<Longrightarrow> utf8 (c * 64 + d) = [byte (192 + c), byte (128 + d)]"
  using field_div [of d 64 c] by (simp add: utf8_def)

lemma utf8_3:
  assumes "c < 64" "d < 64" "p = b * 4096 + c * 64 + d" "0x800 \<le> p" "p < 0x10000"
  shows "utf8 p = [byte (224 + b), byte (128 + c), byte (128 + d)]"
proof -
  have "p div 4096 = b" using assms(1,2) field_div(1) [of "c * 64 + d" 4096 b] by (simp add: assms(3) add.assoc)
  moreover have "p = 0 * 262144 + b * 4096 + c * 64 + d" "b < 64" using assms(3,5) by linarith+
  note of_digits [OF this assms(1,2)]
  ultimately show ?thesis using assms(4,5) by (simp add: utf8_def)
qed

lemma utf8_4:
  assumes "p = a * 262144 + b * 4096 + c * 64 + d" "b < 64" "c < 64" "d < 64" "0x10000 \<le> p"
  shows "utf8 p = [byte (240 + a), byte (128 + b), byte (128 + c), byte (128 + d)]"
  using of_digits [OF assms(1-4)] assms(5) by (simp add: utf8_def)

lemma utf8_cases:
  assumes "scalar p"
  obtains (one) "0 < p" "p < 0x80" "utf8 p = [byte p]"
  | (two) c d where "2 \<le> c" "c < 32" "d < 64" "p = c * 64 + d" "0x80 \<le> p" "p < 0x800" "utf8 p = [byte (192 + c), byte (128 + d)]"
  | (three) b c d where "b < 16" "c < 64" "d < 64" "p = b * 4096 + c * 64 + d" "0x800 \<le> p" "p < 0x10000"
      "utf8 p = [byte (224 + b), byte (128 + c), byte (128 + d)]"
  | (four) a b c d where "a < 5" "b < 64" "c < 64" "d < 64" "p = a * 262144 + b * 4096 + c * 64 + d" "0x10000 \<le> p"
      "utf8 p = [byte (240 + a), byte (128 + b), byte (128 + c), byte (128 + d)]"
proof -
  have p: "0 < p" "p < 0x110000" using assms by (simp_all add: scalar_def)
  obtain a b c d where dig: "p = a * 262144 + b * 4096 + c * 64 + d" "b < 64" "c < 64" "d < 64" by (rule digits)
  consider "p < 0x80" | "0x80 \<le> p" "p < 0x800" | "0x800 \<le> p" "p < 0x10000" | "0x10000 \<le> p" by linarith
  then show ?thesis
  proof cases
    case 1
    then show ?thesis using one p by (simp add: utf8_def)
  next
    case 2
    then have "a = 0" "b = 0" using dig by linarith+
    then have z: "p = c * 64 + d" "c < 32" "2 \<le> c" using dig 2 by linarith+
    show ?thesis using two [OF z(3,2) dig(4) z(1) 2] utf8_2 [OF z(3,2) dig(4)] by (simp add: z(1))
  next
    case 3
    then have "a = 0" using dig by linarith
    then have z: "p = b * 4096 + c * 64 + d" "b < 16" using dig 3 by linarith+
    show ?thesis by (rule three [OF z(2) dig(3,4) z(1) 3 utf8_3 [OF dig(3,4) z(1) 3]])
  next
    case 4
    then have "a < 5" using dig p by linarith
    then show ?thesis by (rule four [OF _ dig(2,3,4,1) 4 utf8_4 [OF dig 4]])
  qed
qed

lemma utf8_to_unicode_utf8:
  assumes "scalar p"
  shows "utf8_to_unicode (utf8 p @ s) = Some (Some (length (utf8 p), p))"
  using assms
proof (cases rule: utf8_cases)
  case one
  then show ?thesis by (simp add: utf8_to_unicode_def unat_byte)
next
  case (two c d)
  then show ?thesis using decode2 [OF two(1-3), of s] by simp
next
  case (three b c d)
  then show ?thesis using decode3 [OF three(1-5), of s] assms by (simp add: scalar_def)
next
  case (four a b c d)
  then show ?thesis using decode4 [OF four(1-6), of s] assms by (simp add: scalar_def)
qed

lemma is_cont_True:
  assumes "is_cont s i = Some True"
  shows "i < length s \<and> low6 s i < 64 \<and> s ! i = byte (128 + low6 s i)"
proof -
  let ?b = "unat (s ! i)"
  have i: "i < length s" "?b div 64 mod 4 = 2" using assms by (auto simp: is_cont_def elem_def bits split: if_splits)
  have "?b < 256" by simp
  then have "?b div 64 < 4" by linarith
  then have "?b div 64 = 2" using i by simp
  then have e: "128 + ?b mod 64 = ?b" using mult_div_mod_eq [of 64 ?b] by linarith
  have "s ! i = byte (128 + ?b mod 64)" unfolding e byte_def by simp
  then show ?thesis using i by (simp add: low6_def bits)
qed

lemma byte_lead:
  assumes "k * m \<le> unat (b :: u8)" "unat b < k * m + m"
  shows "b = byte (k * m + unat b mod m)" "k * m + unat b mod m = unat b"
proof -
  have "m > 0" using assms by (cases m) auto
  then have "unat b div m = k" using assms by (intro div_nat_eqI) (simp_all add: mult.commute)
  then show e: "k * m + unat b mod m = unat b" using div_mult_mod_eq [of "unat b" m] by simp
  show "b = byte (k * m + unat b mod m)" unfolding e byte_def by simp
qed

text \<open>What \<open>utf8_to_unicode\<close> accepts is RFC 3629.\<close>

lemma utf8_to_unicode_Some:
  assumes "utf8_to_unicode s = Some (Some (n, p))" "n \<noteq> 0"
  shows "scalar p \<and> n = length (utf8 p) \<and> (\<exists>r. s = utf8 p @ r)"
proof -
  obtain b t where s: "s = b # t" using assms by (cases s) (auto simp: utf8_to_unicode_def elem_def)
  let ?b = "unat b"
  have nth: "i < length s \<Longrightarrow> drop i s = s ! i # drop (Suc i) s" for i by (rule Cons_nth_drop_Suc [symmetric])
  have s0: "drop 1 s = t" "s ! 0 = b" "elem s 0 = Some b" using s by simp_all
  consider (one) "0 < ?b" "?b < 0x80" "n = 1" "p = ?b"
    | (two) "0xc2 \<le> ?b" "?b < 0xe0" "is_cont s 1 = Some True" "n = 2" "p = (?b mod 32) * 64 OR low6 s 1"
    | (three) "0xe0 \<le> ?b" "?b < 0xf0" "is_cont s 1 = Some True" "is_cont s 2 = Some True" "n = 3"
        "p = (?b mod 16) * 4096 OR low6 s 1 * 64 OR low6 s 2" "0x800 \<le> p \<and> p \<le> 0xd7ff \<or> 0xe000 \<le> p \<and> p \<le> 0xffff"
    | (four) "0xf0 \<le> ?b" "?b < 0xf5" "is_cont s 1 = Some True" "is_cont s 2 = Some True" "is_cont s 3 = Some True" "n = 4"
        "p = (?b mod 8) * 262144 OR low6 s 1 * 4096 OR low6 s 2 * 64 OR low6 s 3" "p \<le> 0x10ffff" "0x10000 \<le> p"
    using assms unfolding utf8_to_unicode_def s0(3) by (auto simp: Let_def bind_eq_Some_conv and_low push_bit_eq_mult split: if_splits intro: that)
  then show ?thesis
  proof cases
    case one
    then show ?thesis by (simp add: scalar_def utf8_def s byte_def)
  next
    case two
    note c = is_cont_True [OF two(3)]
    have p: "p = (?b mod 32) * 64 + low6 s 1" using two(5) c by (simp add: bits)
    have b: "b = byte (192 + ?b mod 32)" "192 + ?b mod 32 = ?b" using byte_lead [of 6 32 b] two by simp_all
    have l: "2 \<le> ?b mod 32" "?b mod 32 < 32" using b two by simp_all
    have "s = b # byte (128 + low6 s 1) # drop 2 s" using s nth [of 1] c s0 by (simp add: numeral_2_eq_2)
    moreover have "utf8 p = [b, byte (128 + low6 s 1)]" using utf8_2 [OF l, of "low6 s 1"] c b(1) p by simp
    moreover have "0x80 \<le> p" "p < 0x800" using l c p by linarith+
    ultimately show ?thesis using two(4) unfolding scalar_def by auto
  next
    case three
    note c = is_cont_True [OF three(3)] is_cont_True [OF three(4)]
    have b: "b = byte (224 + ?b mod 16)" using byte_lead [of 14 16 b] three by simp
    have l: "?b mod 16 < 16" by simp
    have p: "p = (?b mod 16) * 4096 + low6 s 1 * 64 + low6 s 2" using three(6) c l by (simp add: bits or.assoc)
    have "s = b # byte (128 + low6 s 1) # byte (128 + low6 s 2) # drop 3 s" using s nth [of 1] nth [of 2] c s0 by (simp add: numeral_2_eq_2 numeral_3_eq_3)
    moreover have "utf8 p = [b, byte (128 + low6 s 1), byte (128 + low6 s 2)]" using utf8_3 [OF _ _ p] c b three(7) by auto
    moreover have "scalar p" using three(7) by (auto simp: scalar_def)
    ultimately show ?thesis using three(5) by auto
  next
    case four
    note c = is_cont_True [OF four(3)] is_cont_True [OF four(4)] is_cont_True [OF four(5)]
    have b: "b = byte (240 + ?b mod 8)" using byte_lead [of 30 8 b] four by simp
    have p: "p = (?b mod 8) * 262144 + low6 s 1 * 4096 + low6 s 2 * 64 + low6 s 3" using four(7) c by (simp add: bits or.assoc)
    have "s = b # byte (128 + low6 s 1) # byte (128 + low6 s 2) # byte (128 + low6 s 3) # drop 4 s"
      using s nth [of 1] nth [of 2] nth [of 3] c s0 by (simp add: eval_nat_numeral)
    moreover have "utf8 p = [b, byte (128 + low6 s 1), byte (128 + low6 s 2), byte (128 + low6 s 3)]" using utf8_4 [OF p] c b four(9) by auto
    moreover have "scalar p" using four(8,9) by (auto simp: scalar_def)
    ultimately show ?thesis using four(6) by auto
  qed
qed

section \<open>The loops on well-formed strings\<close>

definition utf8s :: "nat list \<Rightarrow> bytes" where
  "utf8s ps = concat (map utf8 ps)"

definition utf16s :: "nat list \<Rightarrow> ntfschar list" where
  "utf16s ps = concat (map utf16 ps)"

lemma utf_Cons [simp]: "utf8s [] = []" "utf8s (p # ps) = utf8 p @ utf8s ps" "utf16s [] = []" "utf16s (p # ps) = utf16 p @ utf16s ps"
  by (simp_all add: utf8s_def utf16s_def)

lemma scalarD: "scalar p \<Longrightarrow> 0 < p" "scalar p \<Longrightarrow> p < 0x110000" "scalar p \<Longrightarrow> p < 0xd800 \<or> 0xe000 \<le> p"
  by (auto simp: scalar_def)

text \<open>The two halves of a pair.\<close>

lemma utf16_pair:
  assumes "0x10000 \<le> p" "p < 0x110000"
  obtains h l where "utf16 p = [word_of_nat h, word_of_nat l]" "0xd800 \<le> h" "h < 0xdc00" "0xdc00 \<le> l" "l < 0xe000"
    "p = 0x10000 + (h - 0xd800) * 1024 + (l - 0xdc00)" "unat (word_of_nat h :: ntfschar) = h" "unat (word_of_nat l :: ntfschar) = l"
proof
  let ?h = "0xd800 + (p - 0x10000) div 1024" and ?l = "0xdc00 + p mod 1024"
  obtain q where q: "p = q + 64 * 1024" using le_Suc_ex [of "0x10000" p] assms by (auto simp: add.commute)
  have m: "p mod 1024 = q mod 1024" unfolding q by (rule mod_mult_self1)
  show "utf16 p = [word_of_nat ?h, word_of_nat ?l]" using assms by (simp add: utf16_def)
  show "0xd800 \<le> ?h" "0xdc00 \<le> ?l" by simp_all
  have "(p - 0x10000) div 1024 < 1024" using assms by (simp add: div_less_iff_less_mult)
  then show h: "?h < 0xdc00" by simp
  show l: "?l < 0xe000" by simp
  show "p = 0x10000 + (?h - 0xd800) * 1024 + (?l - 0xdc00)" using q m mult_div_mod_eq [of 1024 q] by simp
  show "unat (word_of_nat ?h :: ntfschar) = ?h" "unat (word_of_nat ?l :: ntfschar) = ?l" using h l by (simp_all only: unat_unit)
qed

lemma length_utf8: "length (utf8 p) = (if p < 0x80 then 1 else if p < 0x800 then 2 else if p < 0x10000 then 3 else 4)"
  by (simp add: utf8_def)

lemma utf16_unit: "p < 0x10000 \<Longrightarrow> utf16 p = [word_of_nat p]"
  by (simp add: utf16_def)

lemma size_step:
  assumes "scalar p" "count \<le> L"
  shows "utf16_size_loop (utf16 p @ us) (length (utf16 p) + n) L False count
       = (if count + length (utf8 p) > L then Some (Inl ENAMETOOLONG) else utf16_size_loop us n L False (count + length (utf8 p)))"
proof (cases "p < 0x10000")
  case True
  then show ?thesis using scalarD [OF assms(1)] by (auto simp: utf16_unit length_utf8 unat_unit Let_def)
next
  case False
  then obtain h l where "utf16 p = [word_of_nat h, word_of_nat l]" "0xd800 \<le> h" "h < 0xdc00" "0xdc00 \<le> l" "l < 0xe000"
    "unat (word_of_nat h :: ntfschar) = h" "unat (word_of_nat l :: ntfschar) = l"
    using utf16_pair [of p] scalarD(2) [OF assms(1)] by (metis not_less)
  then show ?thesis using False assms(2) by (simp add: length_utf8)
qed

lemma utf16_step:
  assumes "scalar p"
  shows "utf16_loop (utf16 p @ us) (length (utf16 p) + n) 0 outs t
       = mem_put outs t (utf8 p) \<bind> (\<lambda>outs. utf16_loop us n 0 outs (t + length (utf8 p)))"
proof (cases "p < 0x10000")
  case True
  have "p < 0x80 \<Longrightarrow> [byte p] = utf8 p" by (simp add: utf8_def)
  then show ?thesis
    using True scalarD [OF assms(1)] by (auto simp: utf16_unit unat_unit Let_def two_bytes_utf8 three_bytes_utf8)
next
  case False
  then obtain h l where "utf16 p = [word_of_nat h, word_of_nat l]" "0xd800 \<le> h" "h < 0xdc00" "0xdc00 \<le> l" "l < 0xe000"
    and p: "p = 0x10000 + (h - 0xd800) * 1024 + (l - 0xdc00)"
    and "unat (word_of_nat h :: ntfschar) = h" "unat (word_of_nat l :: ntfschar) = l"
    using utf16_pair [of p] scalarD(2) [OF assms(1)] by (metis not_less)
  then show ?thesis using pair_bytes_utf8 [of h l] by (simp add: Let_def)
qed

lemma utf8_step:
  assumes "scalar p"
  shows "utf8_loop (utf8 p @ s) outs pos = put16 outs pos (utf16 p) \<bind> (\<lambda>outs. utf8_loop s outs (pos + length (utf16 p)))"
proof -
  have "length (utf8 p) \<noteq> 0" by (simp add: length_utf8)
  then show ?thesis
    by (subst utf8_loop.simps) (simp add: utf8_to_unicode_utf8 [OF assms] units_utf16)
qed

lemma byte_0 [simp]: "0 < x \<Longrightarrow> x < 256 \<Longrightarrow> byte x \<noteq> 0"
  using unat_byte [of x] by auto

lemma utf8_size_step:
  assumes "scalar p" "s \<noteq> []"
  shows "utf8_size_loop (utf8 p @ s) count
       = (if count + length (utf16 p) \<ge> PATH_MAX then Some (Inl ENAMETOOLONG) else utf8_size_loop s (count + length (utf16 p)))"
  using assms(1)
proof (cases rule: utf8_cases)
  case one
  then show ?thesis by (simp add: utf16_def unat_byte)
next
  case (two c d)
  then show ?thesis using assms(2) by (cases s) (simp_all add: utf16_def unat_byte)
next
  case (three b c d)
  then show ?thesis using assms(2) by (cases s) (simp_all add: utf16_def unat_byte)
next
  case (four a b c d)
  then show ?thesis using assms(2) by (cases s) (simp_all add: utf16_def unat_byte)
qed

text \<open>The result of a loop over whole characters: by induction on them.\<close>

lemma mem_put_app: "mem_put outs t (xs @ ys) = mem_put outs t xs \<bind> (\<lambda>outs. mem_put outs (t + length xs) ys)"
  by (auto simp: mem_put_def blit_append add.assoc)

lemma put16_app: "put16 outs t (xs @ ys) = put16 outs t xs \<bind> (\<lambda>outs. put16 outs (t + length xs) ys)"
  by (auto simp: put16_def blit_append add.assoc)

lemma size_steps:
  assumes "list_all scalar ps" "count \<le> L"
  shows "utf16_size_loop (utf16s ps @ us) (length (utf16s ps) + n) L False count
       = (if count + length (utf8s ps) > L then Some (Inl ENAMETOOLONG) else utf16_size_loop us n L False (count + length (utf8s ps)))"
  using assms by (induction ps arbitrary: count) (simp_all add: size_step add.assoc)

lemma utf16_steps:
  "list_all scalar ps \<Longrightarrow> t \<le> length outs \<Longrightarrow> utf16_loop (utf16s ps @ us) (length (utf16s ps) + n) 0 outs t
     = mem_put outs t (utf8s ps) \<bind> (\<lambda>outs. utf16_loop us n 0 outs (t + length (utf8s ps)))"
proof (induction ps arbitrary: outs t)
  case Nil
  then show ?case by (simp add: mem_put_def)
next
  case (Cons p ps)
  then show ?case by (cases "mem_put outs t (utf8 p)") (auto simp: utf16_step mem_put_app add.assoc mem_put_def blit_append split: if_splits)
qed

lemma utf8_steps:
  "list_all scalar ps \<Longrightarrow> pos \<le> length outs \<Longrightarrow> utf8_loop (utf8s ps @ s) outs pos = put16 outs pos (utf16s ps) \<bind> (\<lambda>outs. utf8_loop s outs (pos + length (utf16s ps)))"
proof (induction ps arbitrary: outs pos)
  case Nil
  then show ?case by (simp add: put16_def)
next
  case (Cons p ps)
  then show ?case by (cases "put16 outs pos (utf16 p)") (auto simp: utf8_step put16_app add.assoc put16_def blit_append split: if_splits)
qed

lemma utf8_size_steps:
  "list_all scalar ps \<Longrightarrow> s \<noteq> [] \<Longrightarrow> count < PATH_MAX \<Longrightarrow> utf8_size_loop (utf8s ps @ s) count
     = (if count + length (utf16s ps) \<ge> PATH_MAX then Some (Inl ENAMETOOLONG) else utf8_size_loop s (count + length (utf16s ps)))"
  by (induction ps arbitrary: count) (simp_all add: utf8_size_step add.assoc)

section \<open>Ill-formed strings\<close>

text \<open>A string starts with a surrogate that is no half of a pair.\<close>

definition lone :: "ntfschar list \<Rightarrow> bool" where
  "lone us = (case us of [] \<Rightarrow> False
     | w # us' \<Rightarrow> 0xd800 \<le> unat w \<and> unat w < 0xe000 \<and> (0xdc00 \<le> unat w \<or> us' = [] \<or> \<not> (0xdc00 \<le> unat (hd us') \<and> unat (hd us') < 0xe000)))"

lemma utf16_scan:
  "0 \<notin> set us \<Longrightarrow> \<exists>ps us'. list_all scalar ps \<and> us = utf16s ps @ us' \<and> (us' = [] \<or> lone us')"
proof (induction us rule: length_induct)
  case (1 us)
  show ?case
  proof (cases "us = [] \<or> lone us")
    case True
    then show ?thesis by (intro exI [of _ "[]"] exI [of _ us]) auto
  next
    case False
    then obtain w v where us: "us = w # v" by (cases us) auto
    have w: "0 < unat w" "unat w < 65536" using 1(2) us unsigned_less [of w, where 'a = nat] by (auto simp: unat_gt_0)
    have "\<exists>p r. scalar p \<and> us = utf16 p @ r"
    proof (cases "0xd800 \<le> unat w \<and> unat w < 0xe000")
      case True
      then obtain x r where v: "v = x # r" "unat w < 0xdc00" "0xdc00 \<le> unat x" "unat x < 0xe000"
        using False us by (cases v) (auto simp: lone_def)
      then obtain a b where ab: "unat w = 0xd800 + a" "unat x = 0xdc00 + b" using True by (metis le_Suc_ex)
      then have lt: "a < 1024" "b < 1024" using v by simp_all
      let ?p = "(64 + a) * 1024 + b"
      have div: "?p mod 1024 = b" "(a * 1024 + b) div 1024 = a" using lt by (simp_all only: field_div)
      have sub: "?p - 0x10000 = a * 1024 + b" and ge: "\<not> ?p < 0x10000" and "scalar ?p" using lt by (simp_all add: scalar_def)
      moreover have "word_of_nat (0xd800 + a) = w" "word_of_nat (0xdc00 + b) = x" unfolding ab [symmetric] by simp_all
      then have "utf16 ?p = [w, x]" by (simp only: utf16_def sub div ge if_False list.map)
      ultimately show ?thesis using us v by (intro exI [of _ ?p] exI [of _ r]) simp
    next
      case False
      then have "scalar (unat w)" "utf16 (unat w) = [w]" using w by (auto simp: scalar_def utf16_def)
      then show ?thesis using us by auto
    qed
    then obtain p r where pr: "scalar p" "us = utf16 p @ r" by blast
    then have "length r < length us" "0 \<notin> set r" using 1(2) by (auto simp: utf16_def)
    then obtain ps us' where "list_all scalar ps" "r = utf16s ps @ us'" "us' = [] \<or> lone us'" using 1(1) by blast
    then show ?thesis using pr by (intro exI [of _ "p # ps"] exI [of _ us']) simp
  qed
qed

lemma size_lone:
  assumes "lone us" "0 \<notin> set us" "count \<le> L"
  shows "utf16_size_loop us (length us) L False count = Some (Inl EILSEQ)"
proof -
  obtain w v where us: "us = w # v" using assms(1) by (cases us) (auto simp: lone_def)
  have w: "0 < unat w" using assms(2) us by (auto simp: unat_gt_0)
  show ?thesis
  proof (cases v)
    case Nil
    then show ?thesis using assms(1,3) w us by (auto simp: lone_def Let_def)
  next
    case (Cons x r)
    then have "0 < unat x" using assms(2) us by (auto simp: unat_gt_0)
    then show ?thesis using assms(1,3) w us Cons by (auto simp: lone_def Let_def)
  qed
qed

text \<open>The string of a name: up to the first null character.\<close>

definition chars :: "ntfschar list \<Rightarrow> nat \<Rightarrow> ntfschar list" where
  "chars ins ins_len = takeWhile (\<lambda>w. w \<noteq> 0) (take ins_len ins)"

lemma chars_simps [simp]: "chars ins 0 = []" "chars (w # ins) (Suc n) = (if w = 0 then [] else w # chars ins n)"
  by (simp_all add: chars_def)

lemma size_chars:
  "n \<le> length ins \<Longrightarrow> utf16_size_loop ins n L surrog count = utf16_size_loop (chars ins n) (length (chars ins n)) L surrog count"
  by (induction ins n L surrog count rule: utf16_size_loop.induct) (auto simp: Let_def unat_eq_0)

lemma utf16_chars:
  "n \<le> length ins \<Longrightarrow> utf16_loop ins n h outs t = utf16_loop (chars ins n) (length (chars ins n)) h outs t"
proof (induction ins arbitrary: n h outs t)
  case (Cons w ins)
  then show ?case by (cases n) (simp_all add: Let_def unat_eq_0)
qed simp

lemma null_chars: "0 \<notin> set (chars ins n)"
  by (auto simp: chars_def dest: set_takeWhileD)

lemma utf16_to_utf8_ok:
  assumes "ins_len \<le> length ins" "chars ins ins_len = utf16s ps @ us" "list_all scalar ps" "us = [] \<or> lone us"
  shows "utf16_to_utf8_size ins ins_len L
       = Some (if length (utf8s ps) > L then Inl ENAMETOOLONG else if us \<noteq> [] then Inl EILSEQ else Inr (length (utf8s ps)))"
    and "us = [] \<Longrightarrow> utf16_loop ins ins_len 0 outs 0 = map_option (\<lambda>outs. Inr (outs, length (utf8s ps))) (mem_put outs 0 (utf8s ps @ [0]))"
proof -
  have "0 \<notin> set us" using null_chars [of ins ins_len] assms(2) by simp
  then show "utf16_to_utf8_size ins ins_len L
       = Some (if length (utf8s ps) > L then Inl ENAMETOOLONG else if us \<noteq> [] then Inl EILSEQ else Inr (length (utf8s ps)))"
    using size_steps [OF assms(3), of 0 L us "length us"] size_lone [of us "length (utf8s ps)" L] assms(4)
    by (auto simp: utf16_to_utf8_size_def size_chars [OF assms(1)] assms(2))
  show "us = [] \<Longrightarrow> utf16_loop ins ins_len 0 outs 0 = map_option (\<lambda>outs. Inr (outs, length (utf8s ps))) (mem_put outs 0 (utf8s ps @ [0]))"
    using utf16_steps [OF assms(3), of 0 outs "[]" 0]
    by (cases "mem_put outs 0 (utf8s ps)") (simp_all add: utf16_chars [OF assms(1)] assms(2) mem_put_app)
qed

lemma utf8_to_unicode_total:
  assumes "0 \<in> set s"
  shows "utf8_to_unicode s \<noteq> None"
proof -
  have nz: "is_cont s i = Some True \<Longrightarrow> s ! i \<noteq> 0" for i by (auto simp: is_cont_def elem_def split: if_splits)
  obtain n where n: "n < length s" "s ! n = 0" using assms by (auto simp: in_set_conv_nth)
  have step: "\<exists>c. is_cont s i = Some c" if "\<forall>j < i. s ! j \<noteq> 0" for i
    using that n by (auto simp: is_cont_def elem_def) (meson linorder_not_less le_less_trans)
  have "s ! 0 \<noteq> 0 \<Longrightarrow> \<exists>c. is_cont s 1 = Some c" by (rule step) simp
  moreover have "s ! 0 \<noteq> 0 \<Longrightarrow> is_cont s 1 = Some True \<Longrightarrow> \<exists>c. is_cont s 2 = Some c"
    by (rule step) (use nz [of 1] in \<open>auto simp: less_2_cases_iff\<close>)
  moreover have "s ! 0 \<noteq> 0 \<Longrightarrow> is_cont s 1 = Some True \<Longrightarrow> is_cont s 2 = Some True \<Longrightarrow> \<exists>c. is_cont s 3 = Some c"
    by (rule step) (use nz [of 1] nz [of 2] in \<open>auto simp: numeral_3_eq_3 less_Suc_eq numeral_2_eq_2\<close>)
  moreover have "elem s 0 = Some (s ! 0)" using n by (intro elem_Some) auto
  ultimately show ?thesis by (cases "s ! 0 = 0") (auto simp: utf8_to_unicode_def Let_def unat_gt_0 split: if_splits)
qed

lemma utf8_scan:
  "0 \<in> set s \<Longrightarrow> \<exists>ps t. list_all scalar ps \<and> s = utf8s ps @ t \<and> 0 \<in> set t \<and> (hd t = 0 \<or> utf8_to_unicode t = Some None)"
proof (induction s rule: length_induct)
  case (1 s)
  obtain z where z: "utf8_to_unicode s = Some z" using utf8_to_unicode_total [OF 1(2)] by auto
  show ?case
  proof (cases "z = None \<or> hd s = 0")
    case True
    then show ?thesis using 1(2) z by (intro exI [of _ "[]"] exI [of _ s]) auto
  next
    case False
    then obtain m p where m: "utf8_to_unicode s = Some (Some (m, p))" "hd s \<noteq> 0" using z by auto
    have "m \<noteq> 0" using m 1(2) by (cases s) (auto simp: utf8_to_unicode_def bind_eq_Some_conv Let_def unat_eq_0 split: if_splits)
    then obtain r where r: "scalar p" "s = utf8 p @ r" using utf8_to_unicode_Some [OF m(1)] by blast
    have "0 \<notin> set (utf8 p)" using r(1) by (cases rule: utf8_cases) auto
    then have "0 \<in> set r" "length r < length s" using 1(2) r by (auto simp: length_utf8)
    then obtain ps t where "list_all scalar ps" "r = utf8s ps @ t" "0 \<in> set t" "hd t = 0 \<or> utf8_to_unicode t = Some None" using 1(1) by blast
    then show ?thesis using r by (intro exI [of _ "p # ps"] exI [of _ t]) simp
  qed
qed

lemma utf8_size_total: "0 \<in> set s \<Longrightarrow> utf8_size_loop s count \<noteq> None"
proof (induction s count rule: utf8_size_loop.induct)
  case (2 b s count)
  show ?case by (subst utf8_size_loop.simps(2)) (use 2 in \<open>auto simp del: utf8_size_loop.simps split: list.splits\<close>)
qed simp

lemma utf8_size_next:
  assumes "utf8_size_loop (b # s) count = Some r"
  shows "r = Inr count \<or> r = Inr (Suc count) \<or> r = Inl ENAMETOOLONG \<or> r = Inl EILSEQ
    \<or> (\<exists>s'. length s' \<le> length s \<and> (utf8_size_loop s' (Suc count) = Some r \<or> utf8_size_loop s' (Suc (Suc count)) = Some r))"
  using assms unfolding utf8_size_loop.simps(2)
  by (auto split: list.split_asm if_split_asm simp del: utf8_size_loop.simps)

lemma utf8_size_result:
  "utf8_size_loop s count = Some r \<Longrightarrow> r = Inl EILSEQ \<or> r = Inl ENAMETOOLONG \<or> (\<exists>c\<ge>count. r = Inr c)"
proof (induction s arbitrary: count rule: length_induct)
  case (1 s)
  then obtain b v where s: "s = b # v" by (cases s) auto
  from utf8_size_next [OF 1(2) [unfolded s]] show ?case
  proof (elim disjE)
    assume "\<exists>s'. length s' \<le> length v \<and> (utf8_size_loop s' (Suc count) = Some r \<or> utf8_size_loop s' (Suc (Suc count)) = Some r)"
    then obtain s' k where "length s' < length s" "utf8_size_loop s' k = Some r" "count \<le> k" using s by (auto simp: less_Suc_eq_le)
    with 1(1) have "r = Inl EILSEQ \<or> r = Inl ENAMETOOLONG \<or> (\<exists>c\<ge>k. r = Inr c)" by blast
    then show ?thesis using \<open>count \<le> k\<close> by (auto intro: le_trans)
  qed auto
qed

lemma length_utf: "length (utf16 p) \<le> length (utf8 p)"
  by (simp add: utf16_def utf8_def)

lemma utf8_size_ok:
  assumes "list_all scalar ps" "t \<noteq> []"
  shows "utf8_to_utf16_size (utf8s ps @ t) = (if length (utf16s ps) \<ge> PATH_MAX then Some (Inl ENAMETOOLONG) else utf8_size_loop t (length (utf16s ps)))"
  using utf8_size_steps [OF assms, of 0] by (simp add: utf8_to_utf16_size_def PATH_MAX_def)

lemma put16_fresh:
  "length us \<le> n \<Longrightarrow> put16 (replicate (n + 1) junk) 0 us = Some (us @ replicate (n + 1 - length us) junk)"
  by (simp add: put16_def blit_def del: replicate.simps)

lemma utf8_to_utf16_ok:
  assumes "list_all scalar ps"
  shows "ntfs_utf8_to_utf16 True junk (utf8s ps @ 0 # t) None
    = Some (if length (utf16s ps) \<ge> PATH_MAX then Inl ENAMETOOLONG else Inr (utf16s ps @ [0], length (utf16s ps)))"
proof -
  have z: "utf8_to_unicode (0 # t) = Some (Some (0, 0))" by (simp add: utf8_to_unicode_def)
  have "utf8_loop (0 # t) (utf16s ps @ [junk]) (length (utf16s ps)) = Some (Some (utf16s ps @ [0], length (utf16s ps)))"
    by (subst utf8_loop.simps) (simp add: z put16_def blit_def)
  moreover have "replicate (Suc 0) junk = [junk]" by simp
  ultimately show ?thesis
    using put16_fresh [of "utf16s ps" "length (utf16s ps)" junk] utf8_steps [OF assms, of 0 _ "0 # t"]
    by (simp add: ntfs_utf8_to_utf16_def utf8_size_ok [OF assms] del: replicate.simps)
qed

section \<open>Properties\<close>

text \<open>
  C18. The conversion to UTF-8 is exact: any name is well-formed UTF-16 of some characters up to its end, its first null character or its first lone
  surrogate. It is converted to their UTF-8 of RFC 3629, with the terminator and the length; a name with a lone surrogate is \<open>EILSEQ\<close>, and one
  that needs more than \<open>PATH_MAX\<close> bytes before is \<open>ENAMETOOLONG\<close>. No access is outside the name or the buffer that is allocated. In a buffer
  of the caller the terminator has no place when the text is as long as the buffer, which is not an error: it is written behind it.
\<close>

theorem utf16_to_utf8_exact:
  assumes "ins_len \<le> length ins"
  shows "\<exists>ps us. list_all scalar ps \<and> chars ins ins_len = utf16s ps @ us \<and> (us = [] \<or> lone us)
    \<and> ntfs_utf16_to_utf8 True junk ins ins_len None outs_len
        = Some (if length (utf8s ps) > PATH_MAX then Inl ENAMETOOLONG else if us \<noteq> [] then Inl EILSEQ else Inr (utf8s ps @ [0], length (utf8s ps)))
    \<and> (us = [] \<longrightarrow> ntfs_utf16_to_utf8 room junk ins ins_len (Some buf) (length buf)
        = (if length (utf8s ps) > length buf then Some (Inl ENAMETOOLONG) else if length (utf8s ps) = length buf then None
           else Some (Inr (blit buf 0 (utf8s ps @ [0]), length (utf8s ps)))))"
proof -
  obtain ps us where ok: "list_all scalar ps" "chars ins ins_len = utf16s ps @ us" "us = [] \<or> lone us"
    using utf16_scan [OF null_chars] by blast
  note r = utf16_to_utf8_ok [OF assms ok(2,1,3)]
  have m: "mem_put (replicate (Suc n) junk) 0 (utf8s ps @ [0]) = Some (utf8s ps @ [0])" if "n = length (utf8s ps)" for n using that by (simp add: mem_put_def blit_def del: replicate.simps)
  have "mem_put buf 0 (utf8s ps @ [0]) = (if length (utf8s ps) < length buf then Some (blit buf 0 (utf8s ps @ [0])) else None)"
    by (simp add: mem_put_def Suc_le_eq)
  then show ?thesis
    using r(2) by (intro exI [of _ ps] exI [of _ us]) (simp add: ok ntfs_utf16_to_utf8_def r(1) m del: replicate.simps)
qed

theorem utf16_to_utf8_exact_witness:
  "\<exists>ps us. list_all scalar ps \<and> chars [0xd83d, 0xde00, 0x41, 0, 7] 5 = utf16s ps @ us \<and> (us = [] \<or> lone us)
    \<and> ntfs_utf16_to_utf8 True 0 [0xd83d, 0xde00, 0x41, 0, 7] 5 None 0
        = Some (if length (utf8s ps) > PATH_MAX then Inl ENAMETOOLONG else if us \<noteq> [] then Inl EILSEQ else Inr (utf8s ps @ [0], length (utf8s ps)))
    \<and> (us = [] \<longrightarrow> ntfs_utf16_to_utf8 True 0 [0xd83d, 0xde00, 0x41, 0, 7] 5 (Some [1, 2, 3]) (length [1, 2, 3 :: u8])
        = (if length (utf8s ps) > length [1, 2, 3 :: u8] then Some (Inl ENAMETOOLONG) else if length (utf8s ps) = length [1, 2, 3 :: u8] then None
           else Some (Inr (blit [1, 2, 3] 0 (utf8s ps @ [0]), length (utf8s ps)))))"
  by (rule utf16_to_utf8_exact) simp

lemma null_utf8s: "list_all scalar ps \<Longrightarrow> 0 \<notin> set (utf8s ps)"
proof (induction ps)
  case (Cons p ps)
  have "0 \<notin> set (utf8 p)" by (rule utf8_cases [of p]) (use Cons in auto)
  then show ?case using Cons by simp
qed simp

text \<open>The strings of RFC 3629: the bytes up to the terminator are the encodings of scalar values.\<close>

definition is_utf8 :: "bytes \<Rightarrow> nat list \<Rightarrow> bool" where
  "is_utf8 s ps \<longleftrightarrow> list_all scalar ps \<and> takeWhile (\<lambda>b. b \<noteq> 0) s = utf8s ps"

lemma is_utf8_string: "0 \<in> set s \<Longrightarrow> is_utf8 s ps \<Longrightarrow> \<exists>t. s = utf8s ps @ 0 # t"
proof -
  assume z: "0 \<in> set s" and u: "is_utf8 s ps"
  have "dropWhile (\<lambda>b. b \<noteq> 0) s \<noteq> []" using z by (auto simp: dropWhile_eq_Nil_conv)
  then obtain b t where d: "dropWhile (\<lambda>b. b \<noteq> 0) s = b # t" by (cases "dropWhile (\<lambda>b. b \<noteq> 0) s") auto
  then have "b = 0" using hd_dropWhile [of "\<lambda>b. b \<noteq> 0" s] by simp
  then show ?thesis using takeWhile_dropWhile_id [of "\<lambda>b. b \<noteq> 0" s] d u by (metis is_utf8_def)
qed

text \<open>
  C6. The conversion of a C string to UTF-16 accepts just UTF-8 as RFC 3629 defines it, given by the encoding \<open>utf8\<close> of each scalar
  value (so no overlong form, no surrogate, nothing behind U+10FFFF). If the string is the encoding of the characters \<open>ps\<close>, the
  result is the UTF-16 of \<open>ps\<close>, or \<open>ENAMETOOLONG\<close> if that has \<open>PATH_MAX\<close> units or more; if it is not the encoding of
  any characters, the result is \<open>EILSEQ\<close> or \<open>ENAMETOOLONG\<close>. The size computed first is
  enough for what is written, also for a string that turns out to be ill-formed, and no read is behind the terminator.
\<close>

theorem utf8_to_utf16_exact:
  assumes "0 \<in> set s"
  shows "(\<forall>ps. is_utf8 s ps \<longrightarrow> ntfs_utf8_to_utf16 True junk s None
        = Some (if length (utf16s ps) \<ge> PATH_MAX then Inl ENAMETOOLONG else Inr (utf16s ps @ [0], length (utf16s ps))))
    \<and> ((\<nexists>ps. is_utf8 s ps) \<longrightarrow> ntfs_utf8_to_utf16 True junk s None \<in> {Some (Inl EILSEQ), Some (Inl ENAMETOOLONG)})"
proof -
  obtain ps t where ok: "list_all scalar ps" "s = utf8s ps @ t" "0 \<in> set t" "hd t = 0 \<or> utf8_to_unicode t = Some None"
    using utf8_scan [OF assms] by blast
  then obtain b t' where t: "t = b # t'" by (cases t) auto
  have "is_utf8 s ps" if "hd t = 0"
    using that ok(1,2) t null_utf8s [OF ok(1)] by (auto simp: is_utf8_def takeWhile_append)
  moreover have "ntfs_utf8_to_utf16 True junk s None \<in> {Some (Inl EILSEQ), Some (Inl ENAMETOOLONG)}" if "hd t \<noteq> 0"
  proof -
    have z: "utf8_to_unicode t = Some None" using that ok(4) by simp
    have "utf8_loop t outs pos = Some None" for outs pos by (subst utf8_loop.simps) (simp add: z)
    then have "utf8_loop s outs 0 = map_option (\<lambda>_. None) (put16 outs 0 (utf16s ps))" for outs
      using utf8_steps [OF ok(1), of 0 outs t] by (cases "put16 outs 0 (utf16s ps)") (simp_all add: ok(2))
    moreover obtain r where "utf8_size_loop t (length (utf16s ps)) = Some r" using utf8_size_total [OF ok(3)] by blast
    ultimately show ?thesis
      using utf8_size_result [of t "length (utf16s ps)" r] put16_fresh [of "utf16s ps"] t
      by (auto simp: ntfs_utf8_to_utf16_def utf8_size_ok [OF ok(1)] ok(2) simp del: replicate.simps)
  qed
  moreover have "ntfs_utf8_to_utf16 True junk s None
        = Some (if length (utf16s qs) \<ge> PATH_MAX then Inl ENAMETOOLONG else Inr (utf16s qs @ [0], length (utf16s qs)))"
    if q: "is_utf8 s qs" for qs
  proof -
    have "list_all scalar qs" using q by (simp add: is_utf8_def)
    then show ?thesis using is_utf8_string [OF assms q] utf8_to_utf16_ok by metis
  qed
  ultimately show ?thesis by blast
qed

theorem utf8_to_utf16_exact_witness:
  "ntfs_utf8_to_utf16 True 0 [0x41, 0xc3, 0xa9, 0] None = Some (Inr ([0x41, 0xe9, 0], 2))"
proof -
  have "is_utf8 [0x41, 0xc3, 0xa9, 0] [0x41, 0xe9]"
    by (simp add: is_utf8_def scalar_def utf8s_def utf8_def byte_def)
  moreover have "utf16s [0x41, 0xe9] = [0x41, 0xe9]" by (simp add: utf16s_def utf16_def)
  ultimately show ?thesis
    using utf8_to_utf16_exact [of "[0x41, 0xc3, 0xa9, 0]" 0] by (force simp: PATH_MAX_def)
qed

text \<open>
  C19. Converting a name to UTF-8 and back gives the name: for a name without null characters that is converted to UTF-8.
\<close>

theorem utf_roundtrip:
  assumes "ntfs_utf16_to_utf8 True junk us (length us) None 0 = Some (Inr (s, n))" "0 \<notin> set us" "length us < PATH_MAX"
  shows "ntfs_utf8_to_utf16 True junk' s None = Some (Inr (us @ [0], length us))"
proof -
  obtain ps us' where ok: "list_all scalar ps" "chars us (length us) = utf16s ps @ us'" "us' = [] \<or> lone us'"
    using utf16_scan [OF null_chars] by blast
  have us: "chars us (length us) = us" using assms(2) by (auto simp: chars_def takeWhile_eq_all_conv)
  note r = utf16_to_utf8_ok [OF order_refl ok(2,1,3)]
  have e: "us' = []" using assms(1) by (auto simp: ntfs_utf16_to_utf8_def r(1) split: if_splits)
  moreover have "s = utf8s ps @ [0]"
    using assms(1) by (auto simp: ntfs_utf16_to_utf8_def r(1) r(2) [OF e] mem_put_def blit_def split: if_splits)
  ultimately show ?thesis using utf8_to_utf16_ok [OF ok(1), of junk' "[]"] ok(2) us assms(3) by simp
qed

theorem utf_roundtrip_witness:
  "\<exists>s n. ntfs_utf16_to_utf8 True 0 [0xd83d, 0xde00] (length [0xd83d, 0xde00 :: ntfschar]) None 0 = Some (Inr (s, n))
     \<and> ntfs_utf8_to_utf16 True 7 s None = Some (Inr ([0xd83d, 0xde00] @ [0], length [0xd83d, 0xde00 :: ntfschar]))"
proof -
  have "ntfs_utf16_to_utf8 True 0 [0xd83d, 0xde00] (length [0xd83d, 0xde00 :: ntfschar]) None 0 = Some (Inr ([0xf0, 0x9f, 0x98, 0x80, 0], 4))"
    by (simp add: ntfs_utf16_to_utf8_def utf16_to_utf8_size_def PATH_MAX_def pair_bytes_def mem_put_def blit_def byte_def)
  then show ?thesis using utf_roundtrip [of 0 "[0xd83d, 0xde00]" _ _ 7] by (auto simp: PATH_MAX_def)
qed

section \<open>Upper case\<close>

definition up :: "ntfschar list \<Rightarrow> nat \<Rightarrow> nat \<Rightarrow> nat" where
  "up upcase upcase_size p = (if p < upcase_size then unat (upcase ! p) else p)"

lemma unat_ntfschar: "unat (w :: ntfschar) < 0x10000"
  using unsigned_less [of w, where 'a = nat] by simp

lemma upper_steps:
  assumes "list_all scalar ps" "upcase_size \<le> length upcase" "t \<le> length upp"
  shows "upper_loop upcase upcase_size (utf8s ps @ s) upp t
       = mem_put upp t (utf8s (map (up upcase upcase_size) ps))
         \<bind> (\<lambda>upp. upper_loop upcase upcase_size s upp (t + length (utf8s (map (up upcase upcase_size) ps))))"
  using assms(1,3)
proof (induction ps arbitrary: upp t)
  case Nil
  then show ?case by (simp add: mem_put_def)
next
  case (Cons p ps)
  then have "up upcase upcase_size p < 0x110000" using unat_ntfschar [of "upcase ! p"] by (simp add: up_def scalar_def)
  then have "upper_bytes (up upcase upcase_size p) = utf8 (up upcase upcase_size p)" by (rule upper_bytes_utf8)
  moreover have "length (utf8 p) \<noteq> 0" by (simp add: length_utf8)
  moreover have "(if p < upcase_size then map_option unat (elem upcase p) else Some p) = Some (up upcase upcase_size p)"
    using assms(2) by (simp add: up_def)
  ultimately have "upper_loop upcase upcase_size (utf8s (p # ps) @ s) upp t
      = mem_put upp t (utf8 (up upcase upcase_size p))
        \<bind> (\<lambda>upp. upper_loop upcase upcase_size (utf8s ps @ s) upp (t + length (utf8 (up upcase upcase_size p))))"
    using Cons.prems by (subst upper_loop.simps) (simp add: utf8_to_unicode_utf8)
  then show ?case using Cons
    by (cases "mem_put upp t (utf8 (up upcase upcase_size p))") (auto simp: mem_put_app add.assoc mem_put_def blit_append split: if_splits)
qed

lemma length_up: "length (utf8s (map (up upcase upcase_size) ps)) \<le> 3 * length (utf8s ps)"
proof (induction ps)
  case (Cons p ps)
  have "length (utf8 (up upcase upcase_size p)) \<le> 3 * length (utf8 p)"
    using unat_ntfschar [of "upcase ! p"] by (simp add: up_def length_utf8)
  then show ?case using Cons by simp
qed simp

lemma strlen_app: "0 \<notin> set xs \<Longrightarrow> strlen (xs @ 0 # t) = Some (length xs)"
  by (induction xs) auto

text \<open>
  C25. \<open>ntfs_uppercase_mbs\<close> of well-formed UTF-8 is the UTF-8 of the characters in upper case, terminated, in a buffer that is always
  large enough. Of anything else it has no result: it frees the buffer and then writes the terminator to it.
\<close>

theorem uppercase_mbs_exact:
  assumes "0 \<in> set s" "upcase_size \<le> length upcase"
  shows "\<exists>ps t. list_all scalar ps \<and> s = utf8s ps @ t \<and> (hd t = 0 \<or> utf8_to_unicode t = Some None)
    \<and> ntfs_uppercase_mbs True junk s upcase upcase_size
      = (if hd t = 0 then Some (Some (utf8s (map (up upcase upcase_size) ps)
           @ 0 # replicate (3 * length (utf8s ps) - length (utf8s (map (up upcase upcase_size) ps))) junk)) else None)"
proof -
  obtain ps t where ok: "list_all scalar ps" "s = utf8s ps @ t" "0 \<in> set t" "hd t = 0 \<or> utf8_to_unicode t = Some None"
    using utf8_scan [OF assms(1)] by blast
  then obtain b t' where t: "t = b # t'" by (cases t) auto
  let ?u = "utf8s (map (up upcase upcase_size) ps)" and ?n = "3 * length (utf8s ps)"
  have loop: "upper_loop upcase upcase_size s upp 0 = mem_put upp 0 ?u \<bind> (\<lambda>upp. upper_loop upcase upcase_size t upp (length ?u))" for upp
    using upper_steps [OF ok(1) assms(2), of 0 upp t] by (simp add: ok(2))
  have "ntfs_uppercase_mbs True junk s upcase upcase_size = (if hd t = 0 then Some (Some (?u @ 0 # replicate (?n - length ?u) junk)) else None)"
  proof (cases "hd t = 0")
    case True
    then have z: "upper_loop upcase upcase_size t upp k = Some (False, upp, k)" for upp k
      by (subst upper_loop.simps) (simp add: t utf8_to_unicode_def)
    have len: "strlen s = Some (length (utf8s ps))" using strlen_app [OF null_utf8s [OF ok(1)]] True t ok(2) by simp
    have "Suc ?n - length ?u = Suc (?n - length ?u)" "drop (Suc (length ?u)) (replicate (Suc ?n) junk) = replicate (?n - length ?u) junk"
      using length_up [of upcase upcase_size ps] by (simp_all add: Suc_diff_le del: replicate.simps)
    then show ?thesis
      using True length_up [of upcase upcase_size ps] by (simp add: ntfs_uppercase_mbs_def len loop z mem_put_def blit_def)
  next
    case False
    then have z: "upper_loop upcase upcase_size t upp k = Some (True, upp, k)" for upp k
      by (subst upper_loop.simps) (use ok(4) in simp)
    show ?thesis using False by (auto simp: ntfs_uppercase_mbs_def loop z mem_put_def bind_eq_None_conv)
  qed
  then show ?thesis using ok by blast
qed

theorem uppercase_mbs_exact_witness:
  "\<exists>ps t. list_all scalar ps \<and> [0x61, 0xc3, 0xa9, 0 :: u8] = utf8s ps @ t \<and> (hd t = 0 \<or> utf8_to_unicode t = Some None)
    \<and> ntfs_uppercase_mbs True 1 [0x61, 0xc3, 0xa9, 0] ascii_upcase 128
      = (if hd t = 0 then Some (Some (utf8s (map (up ascii_upcase 128) ps)
           @ 0 # replicate (3 * length (utf8s ps) - length (utf8s (map (up ascii_upcase 128) ps))) 1)) else None)"
  by (rule uppercase_mbs_exact) (simp_all add: ascii_upcase_def)

end
