(* ===== verification/RunlistMerge.thy ===== *)
theory RunlistMerge
  imports Runlist
begin

text \<open>
  Merging two runlists, \<^verbatim>\<open>ntfs_runlists_merge\<close> of \<^verbatim>\<open>libntfs_ext/source/runlist.c\<close> with its four
  helpers. A runlist here is the whole allocated array. \<open>ntfs_rl_realloc\<close> hands out memory in
  blocks of 4096 bytes; the contents of the new slots and whether \<open>realloc\<close> succeeds are those
  of the allocator state \<open>H\<close>, about which nothing is assumed. An index outside the array is
  \<open>FAULT\<close>.
\<close>

section \<open>Memory\<close>

record rl_heap =
  heap_ok :: bool
  heap_spare :: "nat \<Rightarrow> runlist_element"

text \<open>\<open>(n * sizeof(runlist_element) + 0xfff) & ~0xfff\<close>; an element has 24 bytes.\<close>

definition rl_bytes :: "nat \<Rightarrow> nat" where
  "rl_bytes n = (n * 24 + 4095) div 4096 * 4096"

definition rl_capacity :: "nat \<Rightarrow> nat" where
  "rl_capacity n = rl_bytes n div 24"

definition ntfs_rl_realloc :: "rl_heap \<Rightarrow> runlist \<Rightarrow> nat \<Rightarrow> nat \<Rightarrow> runlist option" where
  "ntfs_rl_realloc H rl old_size new_size =
     (if rl_bytes old_size = rl_bytes new_size \<or> heap_ok H
      then Some (rl @ map (heap_spare H) [length rl..<rl_capacity new_size]) else None)"

definition ntfs_rl_mm :: "runlist \<Rightarrow> nat \<Rightarrow> nat \<Rightarrow> nat \<Rightarrow> runlist" where
  "ntfs_rl_mm base dst src n =
     (if dst \<noteq> src \<and> 0 < n then blit base dst (chunk src n base) else base)"

definition ntfs_rl_mc :: "runlist \<Rightarrow> nat \<Rightarrow> runlist \<Rightarrow> nat \<Rightarrow> nat \<Rightarrow> runlist" where
  "ntfs_rl_mc dstbase dst srcbase src n =
     (if 0 < n then blit dstbase dst (chunk src n srcbase) else dstbase)"

section \<open>Joining adjacent runs\<close>

definition ntfs_rl_are_mergeable :: "runlist_element \<Rightarrow> runlist_element \<Rightarrow> bool" where
  "ntfs_rl_are_mergeable dst src =
     (if rl_lcn dst = LCN_RL_NOT_MAPPED \<and> rl_lcn src = LCN_RL_NOT_MAPPED then True
      else if rl_vcn dst + rl_length dst \<noteq> rl_vcn src then False
      else if 0 \<le> rl_lcn dst \<and> 0 \<le> rl_lcn src \<and> rl_lcn dst + rl_length dst = rl_lcn src then True
      else if rl_lcn dst = LCN_HOLE \<and> rl_lcn src = LCN_HOLE then True
      else False)"

definition rl_merge_elem :: "runlist_element \<Rightarrow> runlist_element \<Rightarrow> runlist_element" where
  "rl_merge_elem dst src = dst\<lparr>rl_length := rl_length dst + rl_length src\<rparr>"

section \<open>The four ways to insert runs\<close>

text \<open>\<open>nat\<close> subtraction in the sizes is safe: a size that is not positive moves nothing.\<close>

text \<open>"We may have changed the length of the file, so fix the end marker".\<close>

definition fix_end_marker :: "runlist \<Rightarrow> nat \<Rightarrow> runlist" where
  "fix_end_marker d marker =
     (if rl_lcn (d ! marker) = LCN_ENOENT
      then d[marker := (d ! marker)
             \<lparr>rl_vcn := rl_vcn (d ! (marker - 1)) + rl_length (d ! (marker - 1))\<rparr>]
      else d)"

definition ntfs_rl_append ::
    "rl_heap \<Rightarrow> runlist option \<Rightarrow> nat \<Rightarrow> runlist option \<Rightarrow> nat \<Rightarrow> nat \<Rightarrow> errno + runlist" where
  "ntfs_rl_append H dstp dsize srcp ssize loc =
     (case (dstp, srcp) of
        (Some dst, Some src) \<Rightarrow>
         (if \<not> (0 < ssize \<and> ssize \<le> length src \<and> loc < dsize \<and> dsize \<le> length dst) then Inl FAULT
          else
           (let right = (loc + 1 < dsize \<and> ntfs_rl_are_mergeable (src ! (ssize - 1)) (dst ! (loc + 1)));
                r = of_bool right
            in case ntfs_rl_realloc H dst dsize (dsize + ssize - r) of
                 None \<Rightarrow> Inl ENOMEM
               | Some d0 \<Rightarrow>
                  (let src = (if right
                              then src[ssize - 1 := rl_merge_elem (src ! (ssize - 1)) (d0 ! (loc + 1))]
                              else src);
                       marker = loc + ssize + 1;
                       d1 = ntfs_rl_mm d0 marker (loc + 1 + r) (dsize - loc - 1 - r);
                       d2 = ntfs_rl_mc d1 (loc + 1) src 0 ssize;
                       d3 = d2[loc := (d2 ! loc)\<lparr>rl_length := rl_vcn (d2 ! (loc + 1)) - rl_vcn (d2 ! loc)\<rparr>]
                   in if length d3 \<le> marker then Inl FAULT
                      else Inr (fix_end_marker d3 marker))))
      | _ \<Rightarrow> Inl EINVAL)"

text \<open>\<open>ntfs_rl_insert\<close> in its steps: move the tail and copy the source, adjust the first run behind
  the insertion, fill a discontinuity with an unmapped run.\<close>

definition ins_move :: "runlist \<Rightarrow> nat \<Rightarrow> runlist \<Rightarrow> nat \<Rightarrow> nat \<Rightarrow> bool \<Rightarrow> bool \<Rightarrow> runlist" where
  "ins_move d0 dsize src ssize loc left disc =
     (let l = of_bool left; g = of_bool disc;
          d0 = (if left then d0[loc - 1 := rl_merge_elem (d0 ! (loc - 1)) (src ! 0)] else d0);
          d1 = ntfs_rl_mm d0 (loc + ssize - l + g) loc (dsize - loc)
      in ntfs_rl_mc d1 (loc + g) src l (ssize - l))"

definition ins_adjust :: "runlist \<Rightarrow> nat \<Rightarrow> errno + runlist" where
  "ins_adjust d2 marker =
     (let d3 = d2[marker := (d2 ! marker)
                 \<lparr>rl_vcn := rl_vcn (d2 ! (marker - 1)) + rl_length (d2 ! (marker - 1))\<rparr>]
      in if rl_lcn (d3 ! marker) = LCN_HOLE \<or> rl_lcn (d3 ! marker) = LCN_RL_NOT_MAPPED
         then (if length d3 \<le> marker + 1 then Inl FAULT
               else Inr (d3[marker := (d3 ! marker)
                     \<lparr>rl_length := rl_vcn (d3 ! (marker + 1)) - rl_vcn (d3 ! marker)\<rparr>]))
         else Inr d3)"

definition ins_gap :: "runlist \<Rightarrow> nat \<Rightarrow> runlist" where
  "ins_gap d loc =
     (if 0 < loc
      then (let v = rl_vcn (d ! (loc - 1)) + rl_length (d ! (loc - 1))
            in d[loc := rle v LCN_RL_NOT_MAPPED (rl_vcn (d ! (loc + 1)) - v)])
      else d[loc := rle 0 LCN_RL_NOT_MAPPED (rl_vcn (d ! (loc + 1)))])"

definition ntfs_rl_insert ::
    "rl_heap \<Rightarrow> runlist option \<Rightarrow> nat \<Rightarrow> runlist option \<Rightarrow> nat \<Rightarrow> nat \<Rightarrow> errno + runlist" where
  "ntfs_rl_insert H dstp dsize srcp ssize loc =
     (case (dstp, srcp) of
        (Some dst, Some src) \<Rightarrow>
         (if \<not> (0 < ssize \<and> ssize \<le> length src \<and> loc < dsize \<and> dsize \<le> length dst) then Inl FAULT
          else
           (let left = (loc \<noteq> 0 \<and> ntfs_rl_are_mergeable (dst ! (loc - 1)) (src ! 0));
                merged_length = rl_length (dst ! (loc - 1)) + (if left then rl_length (src ! 0) else 0);
                disc = (if loc = 0 then 0 < rl_vcn (src ! 0)
                        else rl_vcn (dst ! (loc - 1)) + merged_length < rl_vcn (src ! 0))
            in case ntfs_rl_realloc H dst dsize (dsize + ssize - of_bool left + of_bool disc) of
                 None \<Rightarrow> Inl ENOMEM
               | Some d0 \<Rightarrow>
                  (case ins_adjust (ins_move d0 dsize src ssize loc left disc)
                          (loc + ssize - of_bool left + of_bool disc) of
                     Inl err \<Rightarrow> Inl err
                   | Inr d4 \<Rightarrow> Inr (if disc then ins_gap d4 loc else d4))))
      | _ \<Rightarrow> Inl EINVAL)"

definition rep_move :: "runlist \<Rightarrow> nat \<Rightarrow> runlist \<Rightarrow> nat \<Rightarrow> nat \<Rightarrow> bool \<Rightarrow> bool \<Rightarrow> runlist" where
  "rep_move d0 dsize src ssize loc left right =
     (let l = of_bool left; r = of_bool right;
          src = (if right then src[ssize - 1 := rl_merge_elem (src ! (ssize - 1)) (d0 ! (loc + 1))]
                 else src);
          d0 = (if left then d0[loc - 1 := rl_merge_elem (d0 ! (loc - 1)) (src ! 0)] else d0);
          d1 = ntfs_rl_mm d0 (loc + ssize - l) (loc + r + 1) (dsize - (loc + r + 1))
      in ntfs_rl_mc d1 loc src l (ssize - l))"

definition ntfs_rl_replace ::
    "rl_heap \<Rightarrow> runlist option \<Rightarrow> nat \<Rightarrow> runlist option \<Rightarrow> nat \<Rightarrow> nat \<Rightarrow> errno + runlist" where
  "ntfs_rl_replace H dstp dsize srcp ssize loc =
     (case (dstp, srcp) of
        (Some dst, Some src) \<Rightarrow>
         (if \<not> (0 < ssize \<and> ssize \<le> length src \<and> loc < dsize \<and> dsize \<le> length dst) then Inl FAULT
          else
           (let right = (loc + 1 < dsize \<and> ntfs_rl_are_mergeable (src ! (ssize - 1)) (dst ! (loc + 1)));
                left = (0 < loc \<and> ntfs_rl_are_mergeable (dst ! (loc - 1)) (src ! 0))
            in case (if 1 + of_bool left + of_bool right < ssize
                     then ntfs_rl_realloc H dst dsize (dsize + (ssize - 1 - of_bool left - of_bool right))
                     else Some dst) of
                 None \<Rightarrow> Inl ENOMEM
               | Some d0 \<Rightarrow>
                  (let d2 = rep_move d0 dsize src ssize loc left right
                   in Inr (if 0 < dsize - (loc + of_bool right + 1)
                           then fix_end_marker d2 (loc + ssize - of_bool left) else d2))))
      | _ \<Rightarrow> Inl EINVAL)"

text \<open>"Adjust the size of the holes either size of @src".\<close>

definition split_adjust :: "runlist \<Rightarrow> nat \<Rightarrow> nat \<Rightarrow> errno + runlist" where
  "split_adjust d2 ssize loc =
     (let d3 = d2[loc := (d2 ! loc)\<lparr>rl_length := rl_vcn (d2 ! (loc + 1)) - rl_vcn (d2 ! loc)\<rparr>];
          m = loc + ssize + 1;
          d4 = d3[m := (d3 ! m)
                \<lparr>rl_vcn := rl_vcn (d3 ! (loc + ssize)) + rl_length (d3 ! (loc + ssize))\<rparr>]
      in if length d4 \<le> loc + ssize + 2 then Inl FAULT
         else Inr (d4[m := (d4 ! m)
                \<lparr>rl_length := rl_vcn (d4 ! (loc + ssize + 2)) - rl_vcn (d4 ! m)\<rparr>]))"

definition ntfs_rl_split ::
    "rl_heap \<Rightarrow> runlist option \<Rightarrow> nat \<Rightarrow> runlist option \<Rightarrow> nat \<Rightarrow> nat \<Rightarrow> errno + runlist" where
  "ntfs_rl_split H dstp dsize srcp ssize loc =
     (case (dstp, srcp) of
        (Some dst, Some src) \<Rightarrow>
         (if \<not> (0 < ssize \<and> ssize \<le> length src \<and> loc < dsize \<and> dsize \<le> length dst) then Inl FAULT
          else
           (case ntfs_rl_realloc H dst dsize (dsize + ssize + 1) of
              None \<Rightarrow> Inl ENOMEM
            | Some d0 \<Rightarrow>
               (let d1 = ntfs_rl_mm d0 (loc + 1 + ssize) loc (dsize - loc)
                in split_adjust (ntfs_rl_mc d1 (loc + 1) src 0 ssize) ssize loc)))
      | _ \<Rightarrow> Inl EINVAL)"

section \<open>The merge\<close>

text \<open>\<open>for (i = start; rl[i].length; i++)\<close>: the index of the next terminator, counted from the
  start of the given list; it is the list's length when the scan runs off the array.\<close>

definition rl_scan_end :: "runlist \<Rightarrow> nat" where
  "rl_scan_end rl = length (takeWhile (\<lambda>e. rl_length e \<noteq> 0) rl)"

text \<open>\<open>for (sfinal = send; sfinal >= 0 && srl[sfinal].lcn < LCN_HOLE; sfinal--)\<close>: the number of
  elements up to and including \<open>sfinal\<close> (0 stands for \<open>sfinal = -1\<close>).\<close>

fun count_final :: "runlist \<Rightarrow> nat \<Rightarrow> nat" where
  "count_final srl 0 = 0"
| "count_final srl (Suc n) =
     (if rl_lcn (srl ! n) < LCN_HOLE then count_final srl n else Suc n)"

text \<open>The first mapping: complete a source runlist that does not start at cluster 0.\<close>

definition merge_first :: "rl_heap \<Rightarrow> runlist \<Rightarrow> errno + runlist" where
  "merge_first H srl =
     (case srl of
        [] \<Rightarrow> Inl FAULT
      | e # _ \<Rightarrow>
         (if rl_vcn e \<noteq> 0 then
           (let dend = rl_scan_end srl + 1
            in if length srl < dend then Inl FAULT
               else case ntfs_rl_realloc H srl dend (dend + 1) of
                      None \<Rightarrow> Inl ENOMEM
                    | Some d \<Rightarrow>
                       (let d1 = ntfs_rl_mm d 1 0 dend
                        in Inr (d1[0 := rle 0 LCN_RL_NOT_MAPPED (rl_vcn (d1 ! 1))])))
          else Inr srl))"

text \<open>The \<open>marker\<close> code: the source ends with \<open>LCN_ENOENT\<close> at \<open>marker_vcn\<close>. A failed allocation
  here forces a segmentation fault in the C code.\<close>

definition merge_marker :: "rl_heap \<Rightarrow> runlist \<Rightarrow> nat \<Rightarrow> int \<Rightarrow> errno + runlist" where
  "merge_marker H drl dend marker_vcn =
     (let ds = dend + rl_scan_end (drop dend drl)
      in if length drl \<le> ds then Inl FAULT
         else if marker_vcn < rl_vcn (drl ! ds) then Inr drl
         else if rl_vcn (drl ! ds) = marker_vcn
         then Inr (drl[ds := (drl ! ds)\<lparr>rl_lcn := LCN_ENOENT\<rparr>])
         else if rl_lcn (drl ! ds) = LCN_ENOENT \<and> ds = 0 then Inl FAULT
         else
          (let slots = of_bool (rl_lcn (drl ! ds) = LCN_ENOENT) :: nat;
               ds = ds - slots;
               step = (if rl_lcn (drl ! ds) \<noteq> LCN_RL_NOT_MAPPED
                       then (if slots = 0
                             then (case ntfs_rl_realloc H drl ds (ds + 2) of
                                     None \<Rightarrow> None
                                   | Some d \<Rightarrow>
                                      Some (d[ds + 1 := (d ! (ds + 1))
                                         \<lparr>rl_vcn := rl_vcn (d ! ds) + rl_length (d ! ds),
                                          rl_lcn := LCN_RL_NOT_MAPPED\<rparr>], ds + 1, 1))
                             else Some (drl[ds + 1 := (drl ! (ds + 1))\<lparr>rl_lcn := LCN_RL_NOT_MAPPED\<rparr>],
                                        ds + 1, 0))
                       else Some (drl, ds, slots))
           in case step of
                None \<Rightarrow> Inl FAULT
              | Some (d, ds, slots) \<Rightarrow>
                 (let d = d[ds := (d ! ds)\<lparr>rl_length := marker_vcn - rl_vcn (d ! ds)\<rparr>];
                      ds = ds + 1
                  in case (if slots = 0 then ntfs_rl_realloc H d ds (ds + 1) else Some d) of
                       None \<Rightarrow> Inl FAULT
                     | Some d \<Rightarrow>
                        (if length d \<le> ds then Inl FAULT
                         else Inr (d[ds := rle marker_vcn LCN_ENOENT 0])))))"

text \<open>The choice between the four helpers.\<close>

definition merge_dispatch ::
    "rl_heap \<Rightarrow> runlist \<Rightarrow> nat \<Rightarrow> runlist \<Rightarrow> nat \<Rightarrow> nat \<Rightarrow> bool \<Rightarrow> bool \<Rightarrow> errno + runlist" where
  "merge_dispatch H drl ds src ss dins start finish =
     (if start
      then (if finish then ntfs_rl_replace H (Some drl) ds (Some src) ss dins
            else ntfs_rl_insert H (Some drl) ds (Some src) ss dins)
      else (if finish then ntfs_rl_append H (Some drl) ds (Some src) ss dins
            else ntfs_rl_split H (Some drl) ds (Some src) ss dins))"

definition ntfs_runlists_merge_i ::
    "rl_heap \<Rightarrow> runlist option \<Rightarrow> runlist option \<Rightarrow> errno + runlist option" where
  "ntfs_runlists_merge_i H drlp srlp =
     (case srlp of
        None \<Rightarrow> Inr drlp
      | Some srl \<Rightarrow>
         (case drlp of
            None \<Rightarrow> (case merge_first H srl of Inl err \<Rightarrow> Inl err | Inr rl \<Rightarrow> Inr (Some rl))
          | Some drl \<Rightarrow>
             (let si = length (takeWhile (\<lambda>e. rl_length e \<noteq> 0 \<and> rl_lcn e < LCN_HOLE) srl)
              in if length srl \<le> si then Inl FAULT
                 else if rl_length (srl ! si) = 0 then Inl EINVAL
                 else
                  (let sstart = si;
                       s = rl_vcn (srl ! sstart);
                       dins = length (takeWhile (\<lambda>e. rl_length e \<noteq> 0 \<and> rl_vcn e + rl_length e \<le> s) drl)
                   in if length drl \<le> dins then Inl FAULT
                      else if rl_vcn (drl ! dins) = s \<and> 0 \<le> rl_lcn (drl ! dins)
                              \<and> 0 \<le> rl_lcn (srl ! si)
                      then Inl ERANGE
                      else
                       (let send = si + rl_scan_end (drop si srl);
                            dend = dins + rl_scan_end (drop dins drl)
                        in if length srl \<le> send \<or> length drl \<le> dend then Inl FAULT
                           else
                            (let marker = (rl_lcn (srl ! send) = LCN_ENOENT);
                                 marker_vcn = rl_vcn (srl ! send);
                                 D = drl ! dins; last = srl ! (send - 1);
                                 ds = dend + 1;
                                 ss = count_final srl (send + 1) - sstart;
                                 start = (rl_lcn D < LCN_RL_NOT_MAPPED \<or> rl_vcn D = s);
                                 finish = (LCN_RL_NOT_MAPPED \<le> rl_lcn D
                                   \<and> rl_vcn D + rl_length D \<le> rl_vcn last + rl_length last);
                                 ss = (if finish \<and> rl_length D = 0 then ss + 1 else ss);
                                 finish = (if marker \<and> rl_vcn last < rl_vcn D + rl_length D
                                           then False else finish)
                             in case merge_dispatch H drl ds (drop sstart srl) ss dins start finish of
                                  Inl err \<Rightarrow> Inl err
                                | Inr res \<Rightarrow>
                                   (if marker
                                    then (case merge_marker H res dend marker_vcn of
                                            Inl err \<Rightarrow> Inl err
                                          | Inr res' \<Rightarrow> Inr (Some res'))
                                    else Inr (Some res))))))))"

definition ntfs_runlists_merge ::
    "rl_heap \<Rightarrow> runlist option \<Rightarrow> runlist option \<Rightarrow> errno + runlist option" where
  "ntfs_runlists_merge H drl srl = ntfs_runlists_merge_i H drl srl"

section \<open>Array facts\<close>

lemma nth_at: "n = length A \<Longrightarrow> (A @ y # B) ! n = y"
  by simp

lemma upd_at: "n = length A \<Longrightarrow> (A @ y # B)[n := z] = A @ z # B"
  by simp

lemma rl_capacity_ge: "n \<le> rl_capacity n"
proof -
  have "n * 24 + 4095 < ((n * 24 + 4095) div 4096 + 1) * 4096"
    by (metis Suc_eq_plus1 dividend_less_times_div mult.commute mult_Suc_right
        zero_less_numeral add.commute)
  then have "n * 24 \<le> rl_bytes n"
    unfolding rl_bytes_def by simp
  then show ?thesis
    unfolding rl_capacity_def by (simp add: less_eq_div_iff_mult_less_eq)
qed

lemma rl_realloc_ok:
  assumes "heap_ok H"
  obtains J where "ntfs_rl_realloc H rl old new = Some (rl @ J)" "new \<le> length rl + length J"
proof -
  have "new \<le> length rl + length (map (heap_spare H) [length rl..<rl_capacity new])"
    using rl_capacity_ge [of new] by simp
  with assms show ?thesis
    using that by (simp add: ntfs_rl_realloc_def)
qed

lemma mm_eq: "src + n \<le> length base \<Longrightarrow> ntfs_rl_mm base dst src n = blit base dst (chunk src n base)"
  by (auto simp: ntfs_rl_mm_def blit_def chunk_def min_def)
    (metis add.commute append_take_drop_id drop_drop)

lemma mc_eq: "ntfs_rl_mc base dst srcbase src n = blit base dst (chunk src n srcbase)"
  by (simp add: ntfs_rl_mc_def)

text \<open>Moving the tail \<open>Q\<close> behind \<open>g\<close> kept elements and the new runs \<open>S\<close>.\<close>

lemma gap_blit:
  assumes "g + length S \<le> length M + length J"
  shows "\<exists>J'. blit (blit (P @ M @ Q @ J) (length P + g + length S) Q) (length P + g) S
    = P @ take g (M @ Q @ J) @ S @ Q @ J'"
proof -
  define B where "B = P @ M @ Q @ J"
  define B1 where "B1 = blit B (length P + g + length S) Q"
  have le: "length P + g + length S \<le> length B"
    using assms by (simp add: B_def)
  have "B1 = take (length P + g + length S) B @ Q @ drop (length P + g + length S + length Q) B"
    by (simp add: B1_def blit_def)
  then have "blit B1 (length P + g) S = take (length P + g) B @ S @ Q
      @ drop (length P + g + length S + length Q) B"
    using le by (simp add: blit_def min_def)
  moreover have "take (length P + g) B = P @ take g (M @ Q @ J)"
    by (simp add: B_def)
  ultimately show ?thesis
    unfolding B1_def B_def by (intro exI) simp
qed

lemma gap_move:
  assumes "g + length S \<le> length M + length J" "chunk l (length S) src = S"
    "m = length P + g + length S" "i = length P + length M" "n = length Q" "j = length P + g"
    "k = length S"
  shows "\<exists>J'. ntfs_rl_mc (ntfs_rl_mm (P @ M @ Q @ J) m i n) j src l k
    = P @ take g (M @ Q @ J) @ S @ Q @ J'"
proof -
  have "ntfs_rl_mm (P @ M @ Q @ J) m i n = blit (P @ M @ Q @ J) m Q"
    using assms(4,5) by (subst mm_eq) (simp_all add: chunk_def)
  then show ?thesis
    using gap_blit [OF assms(1)] assms(2,3,6,7) by (simp add: mc_eq)
qed

section \<open>Joining runs where they are adjacent\<close>

definition join :: "runlist \<Rightarrow> runlist \<Rightarrow> runlist" where
  "join xs ys =
     (if xs \<noteq> [] \<and> ys \<noteq> [] \<and> ntfs_rl_are_mergeable (last xs) (hd ys)
      then butlast xs @ rl_merge_elem (last xs) (hd ys) # tl ys else xs @ ys)"

lemma merge_elem_sel [simp]:
  "rl_vcn (rl_merge_elem e f) = rl_vcn e" "rl_lcn (rl_merge_elem e f) = rl_lcn e"
  "rl_length (rl_merge_elem e f) = rl_length e + rl_length f"
  by (simp_all add: rl_merge_elem_def)

text \<open>Two runs that may be merged and are not both unmapped are aligned and of one kind.\<close>

lemma mergeableD:
  assumes "ntfs_rl_are_mergeable e f" "LCN_HOLE \<le> rl_lcn e \<or> LCN_HOLE \<le> rl_lcn f"
  shows "rl_vcn f = rl_vcn e + rl_length e"
    "(0 \<le> rl_lcn e \<and> rl_lcn f = rl_lcn e + rl_length e \<and> 0 \<le> rl_lcn f)
      \<or> (rl_lcn e = LCN_HOLE \<and> rl_lcn f = LCN_HOLE)"
  using assms by (auto simp: ntfs_rl_are_mergeable_def lcn_defs split: if_splits)

lemma rl_map_merged:
  assumes "ntfs_rl_are_mergeable e f" "LCN_HOLE \<le> rl_lcn e \<or> LCN_HOLE \<le> rl_lcn f"
    "0 < rl_length e" "0 < rl_length f"
  shows "rl_map (P @ rl_merge_elem e f # Q) v = rl_map (P @ e # f # Q) v"
proof (induction P)
  case Nil
  then show ?case
    using mergeableD [OF assms(1,2)] assms(3,4)
    by (auto simp: in_run_def run_lcn_def lcn_defs)
qed simp

lemma rl_ok_merged:
  assumes "ntfs_rl_are_mergeable e f" "LCN_HOLE \<le> rl_lcn e \<or> LCN_HOLE \<le> rl_lcn f"
    "0 < rl_length e" "0 < rl_length f"
  shows "rl_ok a (P @ rl_merge_elem e f # Q) = rl_ok a (P @ e # f # Q)"
proof (induction P arbitrary: a)
  case Nil
  then show ?case
    using mergeableD [OF assms(1,2)] assms(3,4) by (auto simp: lcn_defs add.assoc)
qed simp

lemma rl_term_merged:
  assumes "0 < rl_length e" "0 < rl_length f"
  shows "rl_term (P @ rl_merge_elem e f # Q) = rl_term (P @ e # f # Q)"
  using assms by (induction P) auto

definition good_joint :: "runlist \<Rightarrow> runlist \<Rightarrow> bool" where
  "good_joint xs ys \<longleftrightarrow> (xs \<noteq> [] \<longrightarrow> ys \<noteq> [] \<longrightarrow> ntfs_rl_are_mergeable (last xs) (hd ys) \<longrightarrow>
     0 < rl_length (last xs) \<and> 0 < rl_length (hd ys)
     \<and> (LCN_HOLE \<le> rl_lcn (last xs) \<or> LCN_HOLE \<le> rl_lcn (hd ys)))"

lemma join_cases:
  assumes "good_joint xs ys"
  obtains "join xs ys = xs @ ys"
  | P e f Q where "join xs ys = P @ rl_merge_elem e f # Q" "xs @ ys = P @ e # f # Q"
      "ntfs_rl_are_mergeable e f" "LCN_HOLE \<le> rl_lcn e \<or> LCN_HOLE \<le> rl_lcn f"
      "0 < rl_length e" "0 < rl_length f" "xs = P @ [e]" "ys = f # Q"
proof (cases "xs \<noteq> [] \<and> ys \<noteq> [] \<and> ntfs_rl_are_mergeable (last xs) (hd ys)")
  case True
  show ?thesis
  proof (rule that(2) [of "butlast xs" "last xs" "hd ys" "tl ys"])
    show "xs @ ys = butlast xs @ last xs # hd ys # tl ys"
      using True by (metis append_butlast_last_id append_eq_append_conv2 append_Cons
          append_Nil list.collapse)
  qed (use True assms in \<open>auto simp: join_def good_joint_def\<close>)
next
  case False
  then show ?thesis using that(1) by (auto simp: join_def)
qed

text \<open>Joining changes neither the map nor the terminator, wherever it happens in the list.\<close>

lemma join_sound:
  assumes "good_joint xs ys"
  shows "rl_map (A @ join xs ys @ B) v = rl_map (A @ xs @ ys @ B) v"
    "rl_ok a (A @ join xs ys @ B) = rl_ok a (A @ xs @ ys @ B)"
    "rl_term (A @ join xs ys @ B) = rl_term (A @ xs @ ys @ B)"
proof -
  have "rl_map (A @ join xs ys @ B) v = rl_map (A @ xs @ ys @ B) v
      \<and> rl_ok a (A @ join xs ys @ B) = rl_ok a (A @ xs @ ys @ B)
      \<and> rl_term (A @ join xs ys @ B) = rl_term (A @ xs @ ys @ B)"
    using assms
  proof (cases rule: join_cases)
    case (2 P e f Q)
    then show ?thesis
      using rl_map_merged [OF 2(3-6), of "A @ P" "Q @ B" v]
        rl_ok_merged [OF 2(3-6), of a "A @ P" "Q @ B"]
        rl_term_merged [OF 2(5,6), of "A @ P" "Q @ B"] by simp
  qed simp
  then show "rl_map (A @ join xs ys @ B) v = rl_map (A @ xs @ ys @ B) v"
    "rl_ok a (A @ join xs ys @ B) = rl_ok a (A @ xs @ ys @ B)"
    "rl_term (A @ join xs ys @ B) = rl_term (A @ xs @ ys @ B)"
    by simp_all
qed

section \<open>Closed forms of the four helpers\<close>

text \<open>The source runs after the merge at their right end, and what is left of the tail.\<close>

definition right_src :: "runlist \<Rightarrow> runlist \<Rightarrow> runlist" where
  "right_src R Y = (if Y \<noteq> [] \<and> ntfs_rl_are_mergeable (last R) (hd Y)
     then butlast R @ [rl_merge_elem (last R) (hd Y)] else R)"

definition right_rest :: "runlist \<Rightarrow> runlist \<Rightarrow> runlist" where
  "right_rest R Y = (if Y \<noteq> [] \<and> ntfs_rl_are_mergeable (last R) (hd Y) then tl Y else Y)"

lemma join_right: "R \<noteq> [] \<Longrightarrow> join R Y = right_src R Y @ right_rest R Y"
  by (simp add: join_def right_src_def right_rest_def)

lemma right_src_simps [simp]:
  assumes "R \<noteq> []"
  shows "length (right_src R Y) = length R" "right_src R Y \<noteq> []"
    "rl_vcn (hd (right_src R Y)) = rl_vcn (hd R)" "rl_lcn (hd (right_src R Y)) = rl_lcn (hd R)"
proof -
  show len: "length (right_src R Y) = length R"
    using assms by (simp add: right_src_def Suc_leI)
  then show "right_src R Y \<noteq> []"
    using assms by auto
  show "rl_vcn (hd (right_src R Y)) = rl_vcn (hd R)" "rl_lcn (hd (right_src R Y)) = rl_lcn (hd R)"
    using assms by (cases R; cases "tl R"; simp add: right_src_def)+
qed

lemma right_upd:
  assumes "R \<noteq> []"
  shows "(R @ K)[length R - Suc 0 := rl_merge_elem (last R) f]
    = (butlast R @ [rl_merge_elem (last R) f]) @ K"
    "(R @ K) ! (length R - Suc 0) = last R"
  using assms by (induction R rule: rev_induct) (auto simp: nth_append)

lemma nth_at_end: "P \<noteq> [] \<Longrightarrow> i = length P - 1 \<Longrightarrow> (P @ Z) ! i = last P"
  by (simp add: nth_append last_conv_nth)

lemma fix_end_marker_id:
  assumes "d = P @ y # Z" "P \<noteq> []" "m = length P"
    "rl_lcn y = LCN_ENOENT \<longrightarrow> rl_vcn y = rl_vcn (last P) + rl_length (last P)"
  shows "fix_end_marker d m = d"
proof -
  have "d ! (m - 1) = last P"
    unfolding assms(1) using assms(2,3) by (intro nth_at_end) auto
  then show ?thesis
    using assms by (cases y) (auto simp: fix_end_marker_def)
qed

lemma right_split:
  assumes "Y \<noteq> []"
  shows "Y = (if ntfs_rl_are_mergeable (last R) (hd Y) then [hd Y] else []) @ right_rest R Y"
  using assms by (simp add: right_rest_def)

lemma right_src_eq:
  assumes "R \<noteq> []" "Y \<noteq> []" "right \<longleftrightarrow> ntfs_rl_are_mergeable (last R) (hd Y)" "f = hd Y"
  shows "(if right then (R @ K)[length R - 1 := rl_merge_elem ((R @ K) ! (length R - 1)) f] else R @ K)
    = right_src R Y @ K"
  using assms right_upd by (auto simp: right_src_def)

lemma ntfs_rl_append_eq:
  assumes "0 < ssize" "ssize \<le> length src" "loc < dsize" "dsize \<le> length dst"
    and "(loc + 1 < dsize \<and> ntfs_rl_are_mergeable (src ! (ssize - 1)) (dst ! (loc + 1))) = right"
    and "ntfs_rl_realloc H dst dsize (dsize + ssize - of_bool right) = Some d0"
    and "(if right then src[ssize - 1 := rl_merge_elem (src ! (ssize - 1)) (d0 ! (loc + 1))] else src) = src'"
    and "ntfs_rl_mc (ntfs_rl_mm d0 (loc + ssize + 1) (loc + 1 + of_bool right)
      (dsize - loc - 1 - of_bool right)) (loc + 1) src' 0 ssize = d2"
    and "d2[loc := (d2 ! loc)\<lparr>rl_length := rl_vcn (d2 ! (loc + 1)) - rl_vcn (d2 ! loc)\<rparr>] = d3"
    and "loc + ssize + 1 < length d3"
  shows "ntfs_rl_append H (Some dst) dsize (Some src) ssize loc = Inr (fix_end_marker d3 (loc + ssize + 1))"
  using assms(1-4,10) by (simp only: ntfs_rl_append_def Let_def option.case prod.case assms(5-9)) simp

lemma append_closed:
  assumes "heap_ok H" "R \<noteq> []" "Y \<noteq> []" "right_rest R Y \<noteq> []"
    and fx: "rl_lcn (hd (right_rest R Y)) = LCN_ENOENT \<longrightarrow> rl_vcn (hd (right_rest R Y))
      = rl_vcn (last (right_src R Y)) + rl_length (last (right_src R Y))"
  shows "\<exists>J'. ntfs_rl_append H (Some (X @ D # Y @ J)) (length X + 1 + length Y) (Some (R @ K))
      (length R) (length X)
    = Inr (X @ D\<lparr>rl_length := rl_vcn (hd R) - rl_vcn D\<rparr> # join R Y @ J')"
proof -
  define right where "right \<longleftrightarrow> ntfs_rl_are_mergeable (last R) (hd Y)"
  define R' Y' M where "R' = right_src R Y" and "Y' = right_rest R Y"
    and "M = (if right then [hd Y] else [])"
  have Y: "Y = M @ Y'"
    using right_split [OF assms(3), of R] by (simp add: M_def Y'_def right_def)
  have lens: "length Y = of_bool right + length Y'" "length M = of_bool right"
    "length R' = length R"
    using arg_cong [OF Y, of length] assms(2) by (auto simp: M_def R'_def)
  have R': "R' \<noteq> []" "rl_vcn (hd R') = rl_vcn (hd R)"
    using assms(2) by (simp_all add: R'_def)
  obtain J0 where J0: "ntfs_rl_realloc H (X @ D # Y @ J) (length X + 1 + length Y)
        (length X + 1 + length Y + length R - of_bool right) = Some ((X @ D # Y @ J) @ J0)"
      "length X + 1 + length Y + length R - of_bool right \<le> length (X @ D # Y @ J) + length J0"
    using rl_realloc_ok [OF assms(1)] by metis
  have room: "length R \<le> of_bool right + length J + length J0"
    using J0(2) by (cases right) simp_all
  have "\<exists>J'. ntfs_rl_mc (ntfs_rl_mm ((X @ [D]) @ M @ Y' @ (J @ J0)) (length X + length R + 1)
      (length X + 1 + of_bool right) (length X + 1 + length Y - length X - 1 - of_bool right))
      (length X + 1) (R' @ K) 0 (length R)
      = (X @ [D]) @ take 0 (M @ Y' @ (J @ J0)) @ R' @ Y' @ J'"
    by (rule gap_move) (use room lens in \<open>simp_all add: chunk_def\<close>)
  then obtain J' where J': "ntfs_rl_mc (ntfs_rl_mm ((X @ D # Y @ J) @ J0) (length X + length R + 1)
      (length X + 1 + of_bool right) (length X + 1 + length Y - length X - 1 - of_bool right))
      (length X + 1) (R' @ K) 0 (length R) = X @ D # R' @ Y' @ J'"
    using Y by auto
  let ?D = "D\<lparr>rl_length := rl_vcn (hd R) - rl_vcn D\<rparr>"
  have "ntfs_rl_append H (Some (X @ D # Y @ J)) (length X + 1 + length Y) (Some (R @ K)) (length R)
      (length X) = Inr (fix_end_marker (X @ ?D # R' @ Y' @ J') (length X + length R + 1))"
  proof (rule ntfs_rl_append_eq [OF _ _ _ _ _ J0(1) _ J'])
    show "(if right then (R @ K)[length R - 1 := rl_merge_elem ((R @ K) ! (length R - 1))
        (((X @ D # Y @ J) @ J0) ! (length X + 1))] else R @ K) = R' @ K"
      using right_src_eq [OF assms(2,3) right_def] assms(3) unfolding R'_def
      by (cases Y) (simp_all add: nth_append)
    show "(length X + 1 < length X + 1 + length Y \<and> ntfs_rl_are_mergeable ((R @ K) ! (length R - 1))
        ((X @ D # Y @ J) ! (length X + 1))) = right"
      using assms(2,3) right_upd(2) [of R] by (cases Y) (simp_all add: right_def nth_append)
    have "(X @ D # R' @ Y' @ J') ! (length X + 1) = hd R'"
      using R'(1) by (cases R') (simp_all add: nth_append)
    then show "(X @ D # R' @ Y' @ J')[length X := ((X @ D # R' @ Y' @ J') ! length X)\<lparr>rl_length :=
        rl_vcn ((X @ D # R' @ Y' @ J') ! (length X + 1)) - rl_vcn ((X @ D # R' @ Y' @ J') ! length X)\<rparr>]
        = X @ ?D # R' @ Y' @ J'"
      using R'(2) by simp
    show "length X + length R + 1 < length (X @ ?D # R' @ Y' @ J')"
      using assms(4) lens(3) by (auto simp: Y'_def Suc_le_eq)
  qed (use assms(2) in auto)
  moreover have "fix_end_marker (X @ ?D # R' @ Y' @ J') (length X + length R + 1) = X @ ?D # R' @ Y' @ J'"
  proof (rule fix_end_marker_id [of _ "X @ ?D # R'" "hd Y'" "tl Y' @ J'"])
    show "X @ ?D # R' @ Y' @ J' = (X @ ?D # R') @ hd Y' # tl Y' @ J'"
      using assms(4) by (simp add: Y'_def)
  qed (use fx R'(1) lens(3) in \<open>auto simp: R'_def Y'_def\<close>)
  ultimately show ?thesis
    using join_right [OF assms(2), of Y] by (auto simp: R'_def Y'_def)
qed

lemma ntfs_rl_insert_eq:
  assumes "0 < ssize" "ssize \<le> length src" "loc < dsize" "dsize \<le> length dst"
    and "(loc \<noteq> 0 \<and> ntfs_rl_are_mergeable (dst ! (loc - 1)) (src ! 0)) = left"
    and "(if loc = 0 then 0 < rl_vcn (src ! 0)
           else rl_vcn (dst ! (loc - 1)) + (rl_length (dst ! (loc - 1))
             + (if left then rl_length (src ! 0) else 0)) < rl_vcn (src ! 0)) = disc"
    and "ntfs_rl_realloc H dst dsize (dsize + ssize - of_bool left + of_bool disc) = Some d0"
    and "ins_adjust (ins_move d0 dsize src ssize loc left disc)
           (loc + ssize - of_bool left + of_bool disc) = Inr d4"
  shows "ntfs_rl_insert H (Some dst) dsize (Some src) ssize loc =
    Inr (if disc then ins_gap d4 loc else d4)"
  using assms(1-4) by (simp only: ntfs_rl_insert_def Let_def option.case prod.case assms(5-8) sum.case) simp

text \<open>The destination up to the insertion point and the source after a merge at their joint.\<close>

definition left_dst :: "runlist \<Rightarrow> runlist \<Rightarrow> runlist" where
  "left_dst X R = (if X \<noteq> [] \<and> ntfs_rl_are_mergeable (last X) (hd R)
     then butlast X @ [rl_merge_elem (last X) (hd R)] else X)"

definition left_src :: "runlist \<Rightarrow> runlist \<Rightarrow> runlist" where
  "left_src X R = (if X \<noteq> [] \<and> ntfs_rl_are_mergeable (last X) (hd R) then tl R else R)"

lemma join_left: "R \<noteq> [] \<Longrightarrow> join X R = left_dst X R @ left_src X R"
  by (simp add: join_def left_dst_def left_src_def)

lemma length_left_dst [simp]: "length (left_dst X R) = length X"
  by (auto simp: left_dst_def Suc_leI)

lemma last_nth: "X \<noteq> [] \<Longrightarrow> (X @ Z) ! (length X - 1) = last X"
  by (simp add: nth_append last_conv_nth)

lemma last_upd: "X \<noteq> [] \<Longrightarrow> (X @ Z)[length X - 1 := x] = (butlast X @ [x]) @ Z"
  by (cases X rule: rev_cases) simp_all

text \<open>The run behind the inserted ones starts where they end and, unless it is a terminator,
  still ends where it did.\<close>

definition ins_next :: "runlist_element \<Rightarrow> runlist \<Rightarrow> int \<Rightarrow> runlist_element" where
  "ins_next D Y t = (if rl_lcn D = LCN_HOLE \<or> rl_lcn D = LCN_RL_NOT_MAPPED
     then D\<lparr>rl_vcn := t, rl_length := rl_vcn (hd Y) - t\<rparr> else D\<lparr>rl_vcn := t\<rparr>)"

definition rl_end :: "runlist \<Rightarrow> int" where
  "rl_end xs = rl_vcn (last xs) + rl_length (last xs)"

text \<open>The two adjustments of the element at the marker.\<close>

lemma ins_adjust_eq:
  assumes "L \<noteq> []" "marker = length L"
    "rl_lcn D = LCN_HOLE \<or> rl_lcn D = LCN_RL_NOT_MAPPED \<longrightarrow> Y \<noteq> []"
  shows "ins_adjust (L @ D # Y @ J) marker = Inr (L @ ins_next D Y (rl_end L) # Y @ J)"
proof -
  have "(L @ D # Y @ J) ! (marker - 1) = last L"
    using assms(1,2) last_nth [of L "D # Y @ J"] by simp
  then have d3: "(L @ D # Y @ J)[marker := ((L @ D # Y @ J) ! marker)
      \<lparr>rl_vcn := rl_vcn ((L @ D # Y @ J) ! (marker - 1)) + rl_length ((L @ D # Y @ J) ! (marker - 1))\<rparr>]
      = L @ D\<lparr>rl_vcn := rl_end L\<rparr> # Y @ J"
    using assms(2) by (simp add: rl_end_def)
  show ?thesis
    unfolding ins_adjust_def Let_def d3 using assms(2,3)
    by (cases Y) (auto simp: ins_next_def nth_append)
qed

lemma ins_move_eq:
  assumes "R \<noteq> []" "left \<longleftrightarrow> X \<noteq> [] \<and> ntfs_rl_are_mergeable (last X) (hd R)" "disc \<longrightarrow> \<not> left"
    "length R + of_bool disc \<le> length J + of_bool left" "dsize = length X + 1 + length Y"
  shows "\<exists>J'. ins_move (X @ D # Y @ J) dsize (R @ K) (length R) (length X) left disc
    = (if disc then X @ D # R else join X R) @ D # Y @ J'"
proof -
  define l g :: nat where "l = of_bool left" and "g = of_bool disc"
  define P S where "P = left_dst X R" and "S = left_src X R"
  have hd: "(R @ K) ! 0 = hd R"
    using assms(1) by (cases R) auto
  have d0: "(if left then (X @ D # Y @ J)[length X - 1 := rl_merge_elem ((X @ D # Y @ J) ! (length X - 1))
      ((R @ K) ! 0)] else X @ D # Y @ J) = P @ [] @ (D # Y) @ J"
    using assms(2) hd last_nth [of X "D # Y @ J"] last_upd [of X "D # Y @ J"]
    by (cases left) (auto simp: P_def left_dst_def)
  have lens: "length S = length R - l" "l \<le> length R" "length P = length X"
    using assms(1,2) by (auto simp: S_def P_def left_src_def l_def Suc_leI)
  have "\<exists>J'. ntfs_rl_mc (ntfs_rl_mm (P @ [] @ (D # Y) @ J) (length X + length R - l + g)
      (length X) (dsize - length X)) (length X + g) (R @ K) l (length R - l)
      = P @ take g ([] @ (D # Y) @ J) @ S @ (D # Y) @ J'"
  proof (rule gap_move)
    show "chunk l (length S) (R @ K) = S"
      using assms(1,2) by (auto simp: S_def left_src_def l_def chunk_def neq_Nil_conv)
  qed (use assms lens in \<open>auto simp: l_def g_def\<close>)
  then obtain J' where "ins_move (X @ D # Y @ J) dsize (R @ K) (length R) (length X) left disc
      = P @ take g (D # Y @ J) @ S @ (D # Y) @ J'"
    unfolding ins_move_def Let_def d0 l_def g_def by auto
  then show ?thesis
    using assms(1,2,3) join_left [of R X]
    by (cases disc) (auto simp: g_def P_def S_def left_dst_def left_src_def)
qed

lemma length_join: "length (join X R) =
    length X + length R - of_bool (X \<noteq> [] \<and> R \<noteq> [] \<and> ntfs_rl_are_mergeable (last X) (hd R))"
  by (cases X) (auto simp: join_def)

lemma insert_closed:
  assumes "heap_ok H" "R \<noteq> []"
    and Y: "rl_lcn D = LCN_HOLE \<or> rl_lcn D = LCN_RL_NOT_MAPPED \<longrightarrow> Y \<noteq> []"
    and nodisc: "\<not> (if X = [] then 0 < rl_vcn (hd R) else rl_end X < rl_vcn (hd R))"
    and len: "0 < rl_length (hd R)"
  shows "\<exists>J'. ntfs_rl_insert H (Some (X @ D # Y @ J)) (length X + 1 + length Y) (Some (R @ K))
      (length R) (length X)
    = Inr (join X R @ ins_next D Y (rl_end (join X R)) # Y @ J')"
proof -
  define left where "left = (X \<noteq> [] \<and> ntfs_rl_are_mergeable (last X) (hd R))"
  have hd: "(R @ K) ! 0 = hd R"
    using assms(2) by (cases R) auto
  obtain J0 where J0: "ntfs_rl_realloc H (X @ D # Y @ J) (length X + 1 + length Y)
        (length X + 1 + length Y + length R - of_bool left + of_bool False) = Some ((X @ D # Y @ J) @ J0)"
      "length X + 1 + length Y + length R - of_bool left + of_bool False \<le> length (X @ D # Y @ J) + length J0"
    using rl_realloc_ok [OF assms(1)] by metis
  have "length R + of_bool False \<le> length (J @ J0) + of_bool left"
    using J0(2) by (cases left) simp_all
  then obtain J' where J': "ins_move (X @ D # Y @ J @ J0) (length X + 1 + length Y) (R @ K) (length R)
      (length X) left False = join X R @ D # Y @ J'"
    using ins_move_eq [OF assms(2) left_def, of False "J @ J0" "length X + 1 + length Y" Y D K] by auto
  have ne: "join X R \<noteq> []"
    using assms(2) by (auto simp: join_def)
  have "ntfs_rl_insert H (Some (X @ D # Y @ J)) (length X + 1 + length Y) (Some (R @ K))
      (length R) (length X) = Inr (if False then ins_gap (join X R @ ins_next D Y (rl_end (join X R)) # Y @ J')
        (length X) else join X R @ ins_next D Y (rl_end (join X R)) # Y @ J')"
  proof (rule ntfs_rl_insert_eq [where left = left and disc = False])
    show "ins_adjust (ins_move ((X @ D # Y @ J) @ J0) (length X + 1 + length Y) (R @ K) (length R)
        (length X) left False) (length X + length R - of_bool left + of_bool False)
      = Inr (join X R @ ins_next D Y (rl_end (join X R)) # Y @ J')"
      using J' ins_adjust_eq [OF ne _ Y] assms(2) length_join [of X R] by (simp add: left_def)
    show "(if length X = 0 then 0 < rl_vcn ((R @ K) ! 0)
       else rl_vcn ((X @ D # Y @ J) ! (length X - 1)) + (rl_length ((X @ D # Y @ J) ! (length X - 1))
         + (if left then rl_length ((R @ K) ! 0) else 0)) < rl_vcn ((R @ K) ! 0)) = False"
      using nodisc hd last_nth [of X "D # Y @ J"] len by (auto simp: rl_end_def)
    show "(length X \<noteq> 0 \<and> ntfs_rl_are_mergeable ((X @ D # Y @ J) ! (length X - 1)) ((R @ K) ! 0)) = left"
      using hd last_nth [of X "D # Y @ J"] by (auto simp: left_def)
  qed (use assms(2) J0(1) in auto)
  then show ?thesis by auto
qed

lemma insert_disc_closed:
  assumes "heap_ok H" "R \<noteq> []"
    and Y: "rl_lcn D = LCN_HOLE \<or> rl_lcn D = LCN_RL_NOT_MAPPED \<longrightarrow> Y \<noteq> []"
    and disc: "if X = [] then 0 < rl_vcn (hd R) else rl_end X < rl_vcn (hd R)"
    and lcn: "LCN_HOLE \<le> rl_lcn (hd R)"
  defines "v \<equiv> if X = [] then 0 else rl_end X"
  shows "\<exists>J'. ntfs_rl_insert H (Some (X @ D # Y @ J)) (length X + 1 + length Y) (Some (R @ K))
      (length R) (length X)
    = Inr (X @ rle v LCN_RL_NOT_MAPPED (rl_vcn (hd R) - v) # R @ ins_next D Y (rl_end R) # Y @ J')"
proof -
  have hd: "(R @ K) ! 0 = hd R"
    using assms(2) by (cases R) auto
  have left: "\<not> (X \<noteq> [] \<and> ntfs_rl_are_mergeable (last X) (hd R))"
    using mergeableD(1) [of "last X" "hd R"] disc lcn by (auto simp: rl_end_def)
  obtain J0 where J0: "ntfs_rl_realloc H (X @ D # Y @ J) (length X + 1 + length Y)
        (length X + 1 + length Y + length R - of_bool False + of_bool True) = Some ((X @ D # Y @ J) @ J0)"
      "length X + 1 + length Y + length R - of_bool False + of_bool True \<le> length (X @ D # Y @ J) + length J0"
    using rl_realloc_ok [OF assms(1)] by metis
  obtain J' where J': "ins_move (X @ D # Y @ J @ J0) (length X + 1 + length Y) (R @ K) (length R)
      (length X) False True = (X @ D # R) @ D # Y @ J'"
    using ins_move_eq [of R False X True "J @ J0" "length X + 1 + length Y" Y D K] assms(2) J0(2) left
    by auto
  let ?d4 = "(X @ D # R) @ ins_next D Y (rl_end R) # Y @ J'"
  have "ntfs_rl_insert H (Some (X @ D # Y @ J)) (length X + 1 + length Y) (Some (R @ K))
      (length R) (length X) = Inr (if True then ins_gap ?d4 (length X) else ?d4)"
  proof (rule ntfs_rl_insert_eq [where left = False and disc = True])
    have "rl_end (X @ D # R) = rl_end R"
      using assms(2) by (simp add: rl_end_def)
    then show "ins_adjust (ins_move ((X @ D # Y @ J) @ J0) (length X + 1 + length Y) (R @ K) (length R)
        (length X) False True) (length X + length R - of_bool False + of_bool True) = Inr ?d4"
      using J' ins_adjust_eq [of "X @ D # R" _ D Y J', OF _ _ Y] by simp
    show "(if length X = 0 then 0 < rl_vcn ((R @ K) ! 0)
       else rl_vcn ((X @ D # Y @ J) ! (length X - 1)) + (rl_length ((X @ D # Y @ J) ! (length X - 1))
         + (if False then rl_length ((R @ K) ! 0) else 0)) < rl_vcn ((R @ K) ! 0)) = True"
      using disc hd last_nth [of X "D # Y @ J"] by (auto simp: rl_end_def)
    show "(length X \<noteq> 0 \<and> ntfs_rl_are_mergeable ((X @ D # Y @ J) ! (length X - 1)) ((R @ K) ! 0)) = False"
      using hd last_nth [of X "D # Y @ J"] left by auto
  qed (use assms(2) J0(1) in auto)
  moreover have "?d4 ! (length X + 1) = hd R"
    using assms(2) by (cases R) (auto simp: nth_append)
  moreover have "X \<noteq> [] \<Longrightarrow> ?d4 ! (length X - 1) = last X"
    using last_nth [of X "D # R @ ins_next D Y (rl_end R) # Y @ J'"] by simp
  ultimately show ?thesis
    by (auto simp: ins_gap_def v_def rl_end_def Let_def)
qed

lemma ntfs_rl_replace_eq:
  assumes "0 < ssize" "ssize \<le> length src" "loc < dsize" "dsize \<le> length dst"
    and "(loc + 1 < dsize \<and> ntfs_rl_are_mergeable (src ! (ssize - 1)) (dst ! (loc + 1))) = right"
    and "(0 < loc \<and> ntfs_rl_are_mergeable (dst ! (loc - 1)) (src ! 0)) = left"
    and "(if 1 + of_bool left + of_bool right < ssize
          then ntfs_rl_realloc H dst dsize (dsize + (ssize - 1 - of_bool left - of_bool right))
          else Some dst) = Some d0"
    and "rep_move d0 dsize src ssize loc left right = d2"
  shows "ntfs_rl_replace H (Some dst) dsize (Some src) ssize loc =
    Inr (if 0 < dsize - (loc + of_bool right + 1)
         then fix_end_marker d2 (loc + ssize - of_bool left) else d2)"
  using assms(1-4) by (simp only: ntfs_rl_replace_def Let_def option.case prod.case assms(5-8)) simp

lemma left_cong:
  assumes "rl_vcn (hd R') = rl_vcn (hd R)" "rl_lcn (hd R') = rl_lcn (hd R)"
  shows "ntfs_rl_are_mergeable x (hd R') = ntfs_rl_are_mergeable x (hd R)"
  using assms by (simp add: ntfs_rl_are_mergeable_def)

lemma rep_move_eq:
  assumes "R \<noteq> []" "Y \<noteq> []" "right \<longleftrightarrow> ntfs_rl_are_mergeable (last R) (hd Y)"
    "left \<longleftrightarrow> X \<noteq> [] \<and> ntfs_rl_are_mergeable (last X) (hd R)"
    "length R \<le> 1 + of_bool left + of_bool right + length J" "dsize = length X + 1 + length Y"
  shows "\<exists>J'. rep_move (X @ D # Y @ J) dsize (R @ K) (length R) (length X) left right
    = join X (right_src R Y) @ right_rest R Y @ J'"
proof -
  define l :: nat where "l = of_bool left"
  define R' Y' M where "R' = right_src R Y" and "Y' = right_rest R Y"
    and "M = (if right then [hd Y] else [])"
  define P S where "P = left_dst X R'" and "S = left_src X R'"
  have Y: "Y = M @ Y'"
    using right_split [OF assms(2), of R] assms(3) by (simp add: M_def Y'_def)
  have R': "length R' = length R" "R' \<noteq> []" "rl_vcn (hd R') = rl_vcn (hd R)"
      "rl_lcn (hd R') = rl_lcn (hd R)"
    using assms(1) by (simp_all add: R'_def)
  have left: "left \<longleftrightarrow> X \<noteq> [] \<and> ntfs_rl_are_mergeable (last X) (hd R')"
    using left_cong [OF R'(3,4)] assms(4) by simp
  have lens: "length Y = of_bool right + length Y'" "length M = of_bool right" "length P = length X"
      "length S = length R - l" "l \<le> length R"
    using arg_cong [OF Y, of length] R'(1,2) left assms(1)
    by (auto simp: M_def P_def S_def left_src_def l_def Suc_leI)
  have src: "(if right then (R @ K)[length R - 1 := rl_merge_elem ((R @ K) ! (length R - 1))
      ((X @ D # Y @ J) ! (length X + 1))] else R @ K) = R' @ K"
    using right_src_eq [OF assms(1-3)] assms(2) unfolding R'_def
    by (cases Y) (simp_all add: nth_append)
  have hd: "(R' @ K) ! 0 = hd R'"
    using R'(2) by (cases R') auto
  have d0: "(if left then (X @ D # Y @ J)[length X - 1 := rl_merge_elem ((X @ D # Y @ J) ! (length X - 1))
      ((R' @ K) ! 0)] else X @ D # Y @ J) = P @ ([D] @ M) @ Y' @ J"
    using left hd last_nth [of X "D # Y @ J"] last_upd [of X "D # Y @ J"] Y
    by (cases left) (auto simp: P_def left_dst_def)
  have "\<exists>J'. ntfs_rl_mc (ntfs_rl_mm (P @ ([D] @ M) @ Y' @ J) (length X + length R - l)
      (length X + of_bool right + 1) (dsize - (length X + of_bool right + 1))) (length X) (R' @ K) l
      (length R - l) = P @ take 0 (([D] @ M) @ Y' @ J) @ S @ Y' @ J'"
  proof (rule gap_move)
    show "chunk l (length S) (R' @ K) = S"
      using R'(2) left by (auto simp: S_def left_src_def l_def chunk_def neq_Nil_conv)
  qed (use assms lens in \<open>auto simp: l_def\<close>)
  then obtain J' where "rep_move (X @ D # Y @ J) dsize (R @ K) (length R) (length X) left right
      = P @ S @ Y' @ J'"
    unfolding rep_move_def Let_def src d0 l_def by auto
  then show ?thesis
    using join_left [OF R'(2), of X] by (auto simp: P_def S_def R'_def Y'_def)
qed

lemma replace_closed:
  assumes "heap_ok H" "R \<noteq> []" "Y \<noteq> []" "right_rest R Y \<noteq> []"
    and fx: "rl_lcn (hd (right_rest R Y)) = LCN_ENOENT \<longrightarrow> rl_vcn (hd (right_rest R Y))
      = rl_end (join X (right_src R Y))"
  shows "\<exists>J'. ntfs_rl_replace H (Some (X @ D # Y @ J)) (length X + 1 + length Y) (Some (R @ K))
      (length R) (length X)
    = Inr (join X (right_src R Y) @ right_rest R Y @ J')"
proof -
  define right left where "right \<longleftrightarrow> ntfs_rl_are_mergeable (last R) (hd Y)"
    and "left \<longleftrightarrow> X \<noteq> [] \<and> ntfs_rl_are_mergeable (last X) (hd R)"
  define L where "L = join X (right_src R Y)"
  obtain J0 where J0: "(if 1 + of_bool left + of_bool right < length R
          then ntfs_rl_realloc H (X @ D # Y @ J) (length X + 1 + length Y)
            (length X + 1 + length Y + (length R - 1 - of_bool left - of_bool right))
          else Some (X @ D # Y @ J)) = Some ((X @ D # Y @ J) @ J0)"
      "length R \<le> 1 + of_bool left + of_bool right + length (J @ J0)"
  proof (cases "1 + of_bool left + of_bool right < length R")
    case True
    obtain J0 where "ntfs_rl_realloc H (X @ D # Y @ J) (length X + 1 + length Y)
            (length X + 1 + length Y + (length R - 1 - of_bool left - of_bool right))
        = Some ((X @ D # Y @ J) @ J0)"
      "length X + 1 + length Y + (length R - 1 - of_bool left - of_bool right)
        \<le> length (X @ D # Y @ J) + length J0"
      using rl_realloc_ok [OF assms(1)] by metis
    with True show ?thesis by (intro that [of J0]) auto
  next
    case False
    then show ?thesis by (intro that [of "[]"]) auto
  qed
  obtain J' where J': "rep_move ((X @ D # Y @ J) @ J0) (length X + 1 + length Y) (R @ K) (length R)
      (length X) left right = L @ right_rest R Y @ J'"
    using rep_move_eq [OF assms(2,3) right_def left_def J0(2) refl, of D K] by (auto simp: L_def)
  have lL: "length L = length X + length R - of_bool left" "L \<noteq> []"
    using assms(2) length_join [of X "right_src R Y"]
      left_cong [OF right_src_simps(3,4) [OF assms(2)], of "last X" Y]
    by (auto simp: L_def left_def join_def)
  have "length (right_rest R Y) = length Y - of_bool right"
    by (simp add: right_rest_def right_def assms(3))
  moreover have "0 < length (right_rest R Y)"
    using assms(4) by simp
  ultimately have pos: "0 < length X + 1 + length Y - (length X + of_bool right + 1)"
    by linarith
  have "ntfs_rl_replace H (Some (X @ D # Y @ J)) (length X + 1 + length Y) (Some (R @ K))
      (length R) (length X) = Inr (if 0 < length X + 1 + length Y - (length X + of_bool right + 1)
      then fix_end_marker (L @ right_rest R Y @ J') (length X + length R - of_bool left)
      else L @ right_rest R Y @ J')"
  proof (rule ntfs_rl_replace_eq [OF _ _ _ _ _ _ J0(1) J'])
    show "(length X + 1 < length X + 1 + length Y \<and> ntfs_rl_are_mergeable ((R @ K) ! (length R - 1))
        ((X @ D # Y @ J) ! (length X + 1))) = right"
      using assms(2,3) right_upd(2) [of R] by (cases Y) (simp_all add: right_def nth_append)
    show "(0 < length X \<and> ntfs_rl_are_mergeable ((X @ D # Y @ J) ! (length X - 1)) ((R @ K) ! 0)) = left"
      using last_nth [of X "D # Y @ J"] assms(2) by (cases R) (auto simp: left_def)
  qed (use assms(2) in auto)
  moreover have "fix_end_marker (L @ right_rest R Y @ J') (length X + length R - of_bool left)
      = L @ right_rest R Y @ J'"
    using assms(4) lL fx
    by (intro fix_end_marker_id [of _ L "hd (right_rest R Y)" "tl (right_rest R Y) @ J'"])
      (auto simp: rl_end_def L_def)
  ultimately show ?thesis
    using pos by (auto simp: L_def)
qed

lemma split_adjust_eq:
  assumes "R \<noteq> []" "Y \<noteq> []"
  shows "split_adjust (X @ D # R @ D # Y @ J) (length R) (length X)
    = Inr (X @ D\<lparr>rl_length := rl_vcn (hd R) - rl_vcn D\<rparr> # R
        @ D\<lparr>rl_vcn := rl_end R, rl_length := rl_vcn (hd Y) - rl_end R\<rparr> # Y @ J)"
proof -
  define D1 where "D1 = D\<lparr>rl_length := rl_vcn (hd R) - rl_vcn D\<rparr>"
  define m where "m = length X + length R + 1"
  have "(X @ D # R @ D # Y @ J) ! (length X + 1) = hd R"
    using assms(1) by (cases R) (auto simp: nth_append)
  then have d3: "(X @ D # R @ D # Y @ J)[length X := ((X @ D # R @ D # Y @ J) ! length X)\<lparr>rl_length :=
      rl_vcn ((X @ D # R @ D # Y @ J) ! (length X + 1)) - rl_vcn ((X @ D # R @ D # Y @ J) ! length X)\<rparr>]
      = X @ D1 # R @ D # Y @ J"
    by (simp add: D1_def)
  have lastR: "(X @ D1 # R @ Z) ! (length X + length R) = last R" for Z
    using nth_at_end [of "X @ D1 # R" "length X + length R" Z] assms(1) by simp
  have at: "(X @ D1 # R @ y # Z) ! m = y" "(X @ D1 # R @ y # Z)[m := z] = X @ D1 # R @ z # Z" for y z Z
    using nth_at [of m "X @ D1 # R"] upd_at [of m "X @ D1 # R"] by (simp_all add: m_def)
  have nx: "(X @ D1 # R @ y # Y @ Z) ! (length X + length R + 2) = hd Y" for y Z
    using nth_at [of "length X + length R + 2" "X @ D1 # R @ [y]" "hd Y" "tl Y @ Z"] assms(2)
    by (cases Y) simp_all
  show ?thesis
    unfolding split_adjust_def Let_def d3 m_def [symmetric] lastR at nx
    using assms(2) by (simp add: rl_end_def D1_def Suc_le_eq)
qed

lemma split_closed:
  assumes "heap_ok H" "R \<noteq> []" "Y \<noteq> []"
  shows "\<exists>J'. ntfs_rl_split H (Some (X @ D # Y @ J)) (length X + 1 + length Y) (Some (R @ K))
      (length R) (length X)
    = Inr (X @ D\<lparr>rl_length := rl_vcn (hd R) - rl_vcn D\<rparr> # R
        @ D\<lparr>rl_vcn := rl_end R, rl_length := rl_vcn (hd Y) - rl_end R\<rparr> # Y @ J')"
proof -
  obtain J0 where J0: "ntfs_rl_realloc H (X @ D # Y @ J) (length X + 1 + length Y)
        (length X + 1 + length Y + length R + 1) = Some ((X @ D # Y @ J) @ J0)"
      "length X + 1 + length Y + length R + 1 \<le> length (X @ D # Y @ J) + length J0"
    using rl_realloc_ok [OF assms(1)] by metis
  have "\<exists>J'. ntfs_rl_mc (ntfs_rl_mm (X @ [] @ (D # Y) @ (J @ J0)) (length X + 1 + length R) (length X)
      (length X + 1 + length Y - length X)) (length X + 1) (R @ K) 0 (length R)
      = X @ take 1 ([] @ (D # Y) @ (J @ J0)) @ R @ (D # Y) @ J'"
    by (rule gap_move) (use J0(2) in \<open>simp_all add: chunk_def\<close>)
  then obtain J' where J': "ntfs_rl_mc (ntfs_rl_mm ((X @ D # Y @ J) @ J0) (length X + 1 + length R)
      (length X) (length X + 1 + length Y - length X)) (length X + 1) (R @ K) 0 (length R)
      = X @ D # R @ D # Y @ J'"
    by auto
  show ?thesis
    using assms(2) unfolding ntfs_rl_split_def Let_def option.case prod.case J0(1) J'
      split_adjust_eq [OF assms(2,3)] by (intro exI [of _ J']) simp
qed

section \<open>The merge is correct\<close>

lemma contig_elem:
  "contig a xs b \<Longrightarrow> e \<in> set xs \<Longrightarrow> 0 < rl_length e \<and> a \<le> rl_vcn e \<and> rl_vcn e + rl_length e \<le> b"
proof (induction xs arbitrary: a)
  case (Cons x xs)
  then have "a + rl_length x \<le> b" using contig_le by auto
  with Cons show ?case by fastforce
qed simp

lemma rl_end_contig: "contig a xs b \<Longrightarrow> xs \<noteq> [] \<Longrightarrow> rl_end xs = b"
  unfolding rl_end_def by (induction xs arbitrary: a) auto

lemma contig_hd: "contig a xs b \<Longrightarrow> xs \<noteq> [] \<Longrightarrow> rl_vcn (hd xs) = a"
  by (cases xs) auto

lemma contig_merged:
  assumes "ntfs_rl_are_mergeable e f" "LCN_HOLE \<le> rl_lcn e \<or> LCN_HOLE \<le> rl_lcn f"
    "0 < rl_length e" "0 < rl_length f"
  shows "contig a (P @ rl_merge_elem e f # Q) b = contig a (P @ e # f # Q) b"
proof (induction P arbitrary: a)
  case Nil
  then show ?case
    using mergeableD [OF assms(1,2)] assms(3,4) by (auto simp: add.assoc)
qed simp

lemma contig_join:
  assumes "good_joint xs ys"
  shows "contig a (join xs ys) b = contig a (xs @ ys) b"
  using assms
proof (cases rule: join_cases)
  case (2 P e f Q)
  then show ?thesis using contig_merged by simp
qed simp

lemma good_joint_contig:
  assumes "contig a xs b" "contig c ys d" "(\<forall>e\<in>set xs. LCN_HOLE \<le> rl_lcn e) \<or> (\<forall>e\<in>set ys. LCN_HOLE \<le> rl_lcn e)"
  shows "good_joint xs ys"
  using assms(3) contig_elem [OF assms(1), of "last xs"] contig_elem [OF assms(2), of "hd ys"]
  by (auto simp: good_joint_def)

lemma scan_end_eq: "contig a xs b \<Longrightarrow> rl_length T = 0 \<Longrightarrow> rl_scan_end (xs @ T # K) = length xs"
  using rl_runs_append [of a xs b T K] by (simp add: rl_scan_end_def rl_runs_def)

lemma takeWhile_stop: "(\<And>x. x \<in> set xs \<Longrightarrow> P x) \<Longrightarrow> \<not> P y \<Longrightarrow> takeWhile P (xs @ y # ys) = xs"
  by simp

text \<open>With the source \<open>U @ R @ T # K\<close> (unmapped start \<open>U\<close>, mapped runs \<open>R\<close>, terminator \<open>T\<close>) and
  the destination \<open>X @ D # Y @ J\<close> cut at the insertion point, the merge is one of the helpers.\<close>

lemma merge_to_dispatch:
  assumes U: "\<forall>u\<in>set U. rl_length u \<noteq> 0 \<and> rl_lcn u < LCN_HOLE"
    and R: "R \<noteq> []" "\<forall>e\<in>set R. LCN_HOLE \<le> rl_lcn e" "contig s R t"
    and T: "rl_length T = 0" "rl_lcn T = LCN_RL_NOT_MAPPED"
    and X: "\<forall>e\<in>set X. rl_length e \<noteq> 0 \<and> rl_vcn e + rl_length e \<le> s"
    and D: "rl_length D = 0 \<or> s < rl_vcn D + rl_length D" "rl_lcn D < 0"
      "rl_lcn D < LCN_RL_NOT_MAPPED \<or> rl_length D \<noteq> 0"
    and Y: "rl_scan_end (D # Y @ J) = length Y"
  shows "ntfs_runlists_merge H (Some (X @ D # Y @ J)) (Some (U @ R @ T # K)) =
    (case merge_dispatch H (X @ D # Y @ J) (length X + 1 + length Y) (R @ T # K) (length R) (length X)
            (rl_lcn D < LCN_RL_NOT_MAPPED \<or> rl_vcn D = s)
            (LCN_RL_NOT_MAPPED \<le> rl_lcn D \<and> rl_vcn D + rl_length D \<le> t) of
       Inl err \<Rightarrow> Inl err | Inr res \<Rightarrow> Inr (Some res))"
proof -
  let ?srl = "U @ R @ T # K" and ?drl = "X @ D # Y @ J"
  obtain r R' where r: "R = r # R'" "rl_vcn r = s" "rl_length r \<noteq> 0" "LCN_HOLE \<le> rl_lcn r"
    using R by (cases R) auto
  have 1: "length (takeWhile (\<lambda>e. rl_length e \<noteq> 0 \<and> rl_lcn e < LCN_HOLE) ?srl) = length U"
    using takeWhile_stop [of U "\<lambda>e. rl_length e \<noteq> 0 \<and> rl_lcn e < LCN_HOLE" r "R' @ T # K"] U r by simp
  have 2: "?srl ! length U = r"
    using r(1) by simp
  have 3: "length (takeWhile (\<lambda>e. rl_length e \<noteq> 0 \<and> rl_vcn e + rl_length e \<le> s) ?drl) = length X"
    using takeWhile_stop [of X "\<lambda>e. rl_length e \<noteq> 0 \<and> rl_vcn e + rl_length e \<le> s" D "Y @ J"] X D(1) by auto
  have 4: "rl_scan_end (R @ T # K) = length R" "rl_scan_end (D # Y @ J) = length Y"
    using scan_end_eq [OF R(3) T(1), of K] Y by simp_all
  have 5: "?srl ! (length U + length R) = T"
    using nth_at [of "length U + length R" "U @ R" T K] by simp
  have 6: "?srl ! (length U + length R - 1) = last R"
    using nth_at_end [of "U @ R" "length U + length R - 1" "T # K"] R(1) by simp
  have "count_final ?srl (length U + length R + 1) = length U + length R"
  proof -
    obtain n where n: "length U + length R = Suc n"
      using R(1) by (cases R) auto
    then have "?srl ! n = last R"
      using 6 by simp
    then show ?thesis
      using n 5 T(2) R(1,2) last_in_set [OF R(1)] by (fastforce simp: lcn_defs)
  qed
  then have 7: "count_final ?srl (length U + length R + 1) - length U = length R"
    by simp
  have 8: "rl_vcn (last R) + rl_length (last R) = t"
    using rl_end_contig [OF R(3,1)] by (simp add: rl_end_def)
  have 9: "length X + length Y + 1 = length X + 1 + length Y"
    by simp
  have b: "(rl_lcn T = LCN_ENOENT) = False" "(rl_vcn D = s \<and> 0 \<le> rl_lcn D \<and> 0 \<le> rl_lcn r) = False"
    "(length ?drl \<le> length X) = False" "(length ?srl \<le> length U) = False" "(rl_length r = 0) = False"
    "(length ?srl \<le> length U + length R \<or> length ?drl \<le> length X + length Y) = False"
    "((LCN_RL_NOT_MAPPED \<le> rl_lcn D \<and> rl_vcn D + rl_length D \<le> t) \<and> rl_length D = 0) = False"
    using r T D by (auto simp: lcn_defs)
  have c: "?drl ! length X = D" "drop (length U) ?srl = R @ T # K"
    "drop (length X) ?drl = D # Y @ J"
    by simp_all
  show ?thesis
    unfolding ntfs_runlists_merge_def ntfs_runlists_merge_i_def option.case Let_def 1 2 3 c 4 5 6 7 8 9 r(2)
      b if_False simp_thms ..
qed

text \<open>What stands between \<open>X\<close> and \<open>Y\<close> after the merge into the hole \<open>D\<close>.\<close>

definition fill_hole :: "runlist_element \<Rightarrow> int \<Rightarrow> runlist \<Rightarrow> int \<Rightarrow> runlist" where
  "fill_hole D s R t =
     (if rl_vcn D < s then [D\<lparr>rl_length := s - rl_vcn D\<rparr>] else []) @ R
     @ (if t < rl_vcn D + rl_length D
        then [D\<lparr>rl_vcn := t, rl_length := rl_vcn D + rl_length D - t\<rparr>] else [])"

lemma fill_hole_props:
  assumes "contig s R t" "rl_vcn D \<le> s" "t \<le> rl_vcn D + rl_length D" "rl_lcn D < 0" "R \<noteq> []"
  shows "contig (rl_vcn D) (fill_hole D s R t) (rl_vcn D + rl_length D)"
    "rl_vcn D \<le> v \<Longrightarrow> v < rl_vcn D + rl_length D \<Longrightarrow>
      rl_map (fill_hole D s R t) v = (if s \<le> v \<and> v < t then rl_map R v else Some (rl_lcn D))"
proof -
  show "contig (rl_vcn D) (fill_hole D s R t) (rl_vcn D + rl_length D)"
    using assms contig_le [OF assms(1)] by (auto simp: fill_hole_def contig_append)
  assume v: "rl_vcn D \<le> v" "v < rl_vcn D + rl_length D"
  let ?Z = "if t < rl_vcn D + rl_length D
        then [D\<lparr>rl_vcn := t, rl_length := rl_vcn D + rl_length D - t\<rparr>] else []"
  have RZ: "rl_map (R @ ?Z) v = (if v < t then rl_map R v else Some (rl_lcn D))" if "s \<le> v"
    using that v assms(4) rl_map_append [OF assms(1), of ?Z v] by (auto simp: in_run_def run_lcn_def)
  show "rl_map (fill_hole D s R t) v = (if s \<le> v \<and> v < t then rl_map R v else Some (rl_lcn D))"
  proof (cases "s \<le> v")
    case True
    then show ?thesis
      using RZ by (auto simp: fill_hole_def in_run_def)
  next
    case False
    then show ?thesis
      using v assms(4) by (auto simp: fill_hole_def in_run_def run_lcn_def)
  qed
qed

lemma spliced_map:
  assumes "contig 0 X p" "contig p Z q" "contig q Y e" "rl_length T = 0"
  shows "rl_map (X @ Z @ Y @ T # J) v =
    (if 0 \<le> v \<and> v < p then rl_map X v else if p \<le> v \<and> v < q then rl_map Z v else rl_map Y v)"
  using rl_map_append [OF assms(1), of "Z @ Y @ T # J" v] rl_map_append [OF assms(2), of "Y @ T # J" v]
    rl_map_runs [OF assms(3,4), of J v] by simp

text \<open>In every case the helper's result stands for the spliced list.\<close>

definition same_rl :: "runlist \<Rightarrow> runlist \<Rightarrow> bool" where
  "same_rl rl rl' \<longleftrightarrow> (\<forall>v. rl_map rl v = rl_map rl' v) \<and> (rl_ok 0 rl \<longleftrightarrow> rl_ok 0 rl')
     \<and> rl_term rl = rl_term rl'"

lemma same_rl_join: "good_joint xs ys \<Longrightarrow> same_rl (A @ join xs ys @ B) (A @ xs @ ys @ B)"
  using join_sound by (simp add: same_rl_def)

lemma same_rl_join0: "good_joint xs ys \<Longrightarrow> same_rl (join xs ys @ B) (xs @ ys @ B)"
  using same_rl_join [of xs ys "[]" B] by simp

lemma same_rl_trans: "same_rl a b \<Longrightarrow> same_rl b c \<Longrightarrow> same_rl a c"
  by (simp add: same_rl_def)

text \<open>The situation of a merge into a hole or an unmapped run \<open>D\<close>.\<close>

definition hole_setup :: "runlist \<Rightarrow> runlist_element \<Rightarrow> runlist \<Rightarrow> runlist_element
    \<Rightarrow> int \<Rightarrow> runlist \<Rightarrow> int \<Rightarrow> bool" where
  "hole_setup X D Y1 T s R t \<longleftrightarrow> contig 0 X (rl_vcn D) \<and> R \<noteq> [] \<and> contig s R t
     \<and> (\<forall>x\<in>set R. LCN_HOLE \<le> rl_lcn x) \<and> (\<forall>x\<in>set (X @ Y1). LCN_RL_NOT_MAPPED \<le> rl_lcn x)
     \<and> rl_vcn D \<le> s \<and> t \<le> rl_vcn D + rl_length D
     \<and> (rl_lcn D = LCN_HOLE \<or> rl_lcn D = LCN_RL_NOT_MAPPED)
     \<and> contig (rl_vcn D + rl_length D) Y1 (rl_vcn T) \<and> rl_length T = 0 \<and> rl_lcn T = LCN_ENOENT"

lemma hole_setupD:
  assumes "hole_setup X D Y1 T s R t"
  shows "contig 0 X (rl_vcn D)" "R \<noteq> []" "contig s R t" "\<forall>x\<in>set R. LCN_HOLE \<le> rl_lcn x"
    "\<forall>x\<in>set (X @ Y1). LCN_RL_NOT_MAPPED \<le> rl_lcn x" "rl_vcn D \<le> s"
    "t \<le> rl_vcn D + rl_length D" "rl_lcn D = LCN_HOLE \<or> rl_lcn D = LCN_RL_NOT_MAPPED"
    "contig (rl_vcn D + rl_length D) Y1 (rl_vcn T)" "rl_length T = 0" "rl_lcn T = LCN_ENOENT"
    "s < t" "0 < rl_length D" "rl_lcn D < 0"
proof -
  show *: "contig 0 X (rl_vcn D)" "R \<noteq> []" "contig s R t" "\<forall>x\<in>set R. LCN_HOLE \<le> rl_lcn x"
    "\<forall>x\<in>set (X @ Y1). LCN_RL_NOT_MAPPED \<le> rl_lcn x" "rl_vcn D \<le> s"
    "t \<le> rl_vcn D + rl_length D" "rl_lcn D = LCN_HOLE \<or> rl_lcn D = LCN_RL_NOT_MAPPED"
    "contig (rl_vcn D + rl_length D) Y1 (rl_vcn T)" "rl_length T = 0" "rl_lcn T = LCN_ENOENT"
    using assms by (auto simp: hole_setup_def)
  show "s < t"
    using * contig_elem [OF *(3) hd_in_set [OF *(2)]] contig_hd [OF *(3,2)] by auto
  then show "0 < rl_length D" "rl_lcn D < 0"
    using * by (auto simp: lcn_defs)
qed

lemma right_rest_T:
  assumes "hole_setup X D Y1 T s R t"
  shows "right_rest R (Y1 @ [T]) = right_rest R Y1 @ [T]" "right_src R (Y1 @ [T]) = right_src R Y1"
proof -
  note h = hole_setupD [OF assms]
  have "\<not> ntfs_rl_are_mergeable (last R) T"
    using mergeableD(2) [of "last R" T] h(2,4,11) by (auto simp: lcn_defs)
  then show "right_rest R (Y1 @ [T]) = right_rest R Y1 @ [T]"
    "right_src R (Y1 @ [T]) = right_src R Y1"
    by (cases Y1; auto simp: right_rest_def right_src_def)+
qed

lemma right_src_hd_pos:
  assumes "R \<noteq> []" "0 < rl_length (hd R)" "Y \<noteq> [] \<longrightarrow> 0 < rl_length (hd Y)"
  shows "0 < rl_length (hd (right_src R Y))"
proof (cases "butlast R = []")
  case True
  then have "R = [hd R]"
    using assms(1) by (cases R) (auto split: if_splits)
  then have "last R = hd R" by (metis last.simps)
  then show ?thesis
    using assms True by (auto simp: right_src_def)
next
  case False
  then have "hd (butlast R) = hd R"
    by (cases R) (auto split: if_splits)
  then show ?thesis
    using assms False by (simp add: right_src_def)
qed

lemma joints:
  assumes "hole_setup X D Y1 T s R t"
  shows "good_joint R Y1" "good_joint X R" "good_joint X (right_src R Y1)"
proof -
  note h = hole_setupD [OF assms]
  show RY: "good_joint R Y1" and XR: "good_joint X R"
    using good_joint_contig [OF h(3,9)] good_joint_contig [OF h(1,3)] h(4) by auto
  have "0 < rl_length (hd R)" "Y1 \<noteq> [] \<longrightarrow> 0 < rl_length (hd Y1)"
    using contig_elem [OF h(3) hd_in_set [OF h(2)]] contig_elem [OF h(9) hd_in_set] by blast+
  then have "0 < rl_length (hd (right_src R Y1))"
    by (rule right_src_hd_pos [OF h(2)])
  then show "good_joint X (right_src R Y1)"
    using XR h(2) left_cong [OF right_src_simps(3,4) [OF h(2)], of "last X" Y1]
    by (simp add: good_joint_def)
qed

text \<open>When the source reaches the end of the hole, the end marker is already right.\<close>

lemma right_end:
  assumes "hole_setup X D Y1 T s R t" "t = rl_vcn D + rl_length D"
  shows "\<exists>b. contig s (right_src R Y1) b \<and> contig b (right_rest R Y1) (rl_vcn T)
    \<and> (rl_lcn (hd (right_rest R Y1 @ [T])) = LCN_ENOENT \<longrightarrow> rl_vcn (hd (right_rest R Y1 @ [T])) = b)"
proof -
  note h = hole_setupD [OF assms(1)]
  have "contig s (R @ Y1) (rl_vcn T)"
    using h(3,9) assms(2) by (auto simp: contig_append)
  then obtain b where b: "contig s (right_src R Y1) b" "contig b (right_rest R Y1) (rl_vcn T)"
    using contig_join [OF joints(1) [OF assms(1)], of s "rl_vcn T"] join_right [OF h(2), of Y1]
    by (auto simp: contig_append)
  then show ?thesis
    using contig_hd [OF b(2)] by (cases "right_rest R Y1 = []") auto
qed

text \<open>The four cases of the merge into a hole.\<close>

lemma merge_replace:
  assumes "hole_setup X D Y1 T s R t" "heap_ok H" "s = rl_vcn D" "t = rl_vcn D + rl_length D"
  shows "\<exists>J' rl. ntfs_rl_replace H (Some (X @ D # (Y1 @ [T]) @ J)) (length X + 1 + length (Y1 @ [T]))
      (Some (R @ K)) (length R) (length X) = Inr rl
    \<and> same_rl rl (X @ fill_hole D s R t @ Y1 @ T # J')"
proof -
  note h = hole_setupD [OF assms(1)] and j = joints [OF assms(1)] and rT = right_rest_T [OF assms(1)]
  obtain b where b: "contig s (right_src R Y1) b"
      "rl_lcn (hd (right_rest R Y1 @ [T])) = LCN_ENOENT \<longrightarrow> rl_vcn (hd (right_rest R Y1 @ [T])) = b"
    using right_end [OF assms(1,4)] by blast
  have "contig 0 (join X (right_src R Y1)) b"
    using contig_join [OF j(3), of 0 b] h(1) b(1) assms(3) by (auto simp: contig_append)
  then have "rl_end (join X (right_src R Y1)) = b"
    using rl_end_contig h(2) by (fastforce simp: join_def)
  then obtain J' where J': "ntfs_rl_replace H (Some (X @ D # (Y1 @ [T]) @ J)) (length X + 1 + length (Y1 @ [T]))
      (Some (R @ K)) (length R) (length X) = Inr (join X (right_src R Y1) @ (right_rest R Y1 @ [T]) @ J')"
    using replace_closed [OF assms(2) h(2), of "Y1 @ [T]" X D J K] b(2) unfolding rT by auto
  have "same_rl (join X (right_src R Y1) @ right_rest R Y1 @ [T] @ J') (X @ R @ Y1 @ [T] @ J')"
    using same_rl_trans [OF same_rl_join0 [OF j(3)]] same_rl_join [OF j(1), of X "[T] @ J'"]
      join_right [OF h(2), of Y1] by simp
  then show ?thesis
    using J' assms(3,4) by (auto simp: fill_hole_def)
qed

lemma merge_insert:
  assumes "hole_setup X D Y1 T s R t" "heap_ok H" "s = rl_vcn D" "t < rl_vcn D + rl_length D"
  shows "\<exists>J' rl. ntfs_rl_insert H (Some (X @ D # (Y1 @ [T]) @ J)) (length X + 1 + length (Y1 @ [T]))
      (Some (R @ K)) (length R) (length X) = Inr rl
    \<and> same_rl rl (X @ fill_hole D s R t @ Y1 @ T # J')"
proof -
  note h = hole_setupD [OF assms(1)] and j = joints [OF assms(1)]
  have "contig 0 (join X R) t"
    using contig_join [OF j(2), of 0 t] h(1,3) assms(3) by (auto simp: contig_append)
  then have e: "rl_end (join X R) = t"
    using rl_end_contig h(2) by (fastforce simp: join_def)
  have hdY: "rl_vcn (hd (Y1 @ [T])) = rl_vcn D + rl_length D"
    using h(9) by (cases Y1) auto
  have "\<not> (if X = [] then 0 < rl_vcn (hd R) else rl_end X < rl_vcn (hd R))"
    using rl_end_contig [OF h(1)] contig_hd [OF h(3,2)] h(1) assms(3) by auto
  moreover have "0 < rl_length (hd R)"
    using contig_elem [OF h(3) hd_in_set [OF h(2)]] by blast
  ultimately obtain J' where J': "ntfs_rl_insert H (Some (X @ D # (Y1 @ [T]) @ J)) (length X + 1 + length (Y1 @ [T]))
      (Some (R @ K)) (length R) (length X) = Inr (join X R @ ins_next D (Y1 @ [T]) t # (Y1 @ [T]) @ J')"
    using insert_closed [OF assms(2) h(2), of D "Y1 @ [T]" X J K] e by auto
  have "same_rl (join X R @ ins_next D (Y1 @ [T]) t # (Y1 @ [T]) @ J')
      (X @ R @ ins_next D (Y1 @ [T]) t # (Y1 @ [T]) @ J')"
    by (rule same_rl_join0 [OF j(2)])
  then show ?thesis
    using J' assms(3,4) h(8) hdY by (auto simp: fill_hole_def ins_next_def)
qed

lemma merge_append:
  assumes "hole_setup X D Y1 T s R t" "heap_ok H" "rl_vcn D < s" "t = rl_vcn D + rl_length D"
  shows "\<exists>J' rl. ntfs_rl_append H (Some (X @ D # (Y1 @ [T]) @ J)) (length X + 1 + length (Y1 @ [T]))
      (Some (R @ K)) (length R) (length X) = Inr rl
    \<and> same_rl rl (X @ fill_hole D s R t @ Y1 @ T # J')"
proof -
  note h = hole_setupD [OF assms(1)] and j = joints [OF assms(1)] and rT = right_rest_T [OF assms(1)]
  obtain b where b: "contig s (right_src R Y1) b"
      "rl_lcn (hd (right_rest R Y1 @ [T])) = LCN_ENOENT \<longrightarrow> rl_vcn (hd (right_rest R Y1 @ [T])) = b"
    using right_end [OF assms(1,4)] by blast
  have "rl_vcn (last (right_src R Y1)) + rl_length (last (right_src R Y1)) = b"
    using rl_end_contig [OF b(1)] h(2) by (simp add: rl_end_def)
  moreover have "rl_vcn (hd R) = s"
    by (rule contig_hd [OF h(3,2)])
  moreover have "join R (Y1 @ [T]) = join R Y1 @ [T]"
    using join_right [OF h(2)] rT by simp
  ultimately obtain J' where J': "ntfs_rl_append H (Some (X @ D # (Y1 @ [T]) @ J)) (length X + 1 + length (Y1 @ [T]))
      (Some (R @ K)) (length R) (length X)
      = Inr (X @ D\<lparr>rl_length := s - rl_vcn D\<rparr> # (join R Y1 @ [T]) @ J')"
    using append_closed [OF assms(2) h(2), of "Y1 @ [T]" X D J K] b(2) unfolding rT by auto
  have "same_rl ((X @ [D\<lparr>rl_length := s - rl_vcn D\<rparr>]) @ join R Y1 @ [T] @ J')
      ((X @ [D\<lparr>rl_length := s - rl_vcn D\<rparr>]) @ R @ Y1 @ [T] @ J')"
    by (rule same_rl_join [OF j(1)])
  then show ?thesis
    using J' assms(3,4) by (auto simp: fill_hole_def)
qed

lemma merge_split:
  assumes "hole_setup X D Y1 T s R t" "heap_ok H" "rl_vcn D < s" "t < rl_vcn D + rl_length D"
  shows "\<exists>J' rl. ntfs_rl_split H (Some (X @ D # (Y1 @ [T]) @ J)) (length X + 1 + length (Y1 @ [T]))
      (Some (R @ K)) (length R) (length X) = Inr rl
    \<and> same_rl rl (X @ fill_hole D s R t @ Y1 @ T # J')"
proof -
  note h = hole_setupD [OF assms(1)]
  have "rl_vcn (hd (Y1 @ [T])) = rl_vcn D + rl_length D"
    using h(9) by (cases Y1) auto
  then obtain J' where "ntfs_rl_split H (Some (X @ D # (Y1 @ [T]) @ J)) (length X + 1 + length (Y1 @ [T]))
      (Some (R @ K)) (length R) (length X) = Inr (X @ fill_hole D s R t @ Y1 @ T # J')"
    using split_closed [OF assms(2) h(2), of "Y1 @ [T]" X D J K] contig_hd [OF h(3,2)]
      rl_end_contig [OF h(3,2)] assms(3,4) by (auto simp: fill_hole_def)
  then show ?thesis
    by (auto simp: same_rl_def)
qed

lemma merge_into_hole:
  assumes "hole_setup X D Y1 T s R t" "heap_ok H"
    and U: "\<forall>u\<in>set U. rl_length u \<noteq> 0 \<and> rl_lcn u < LCN_HOLE"
    and S: "rl_length S = 0" "rl_lcn S = LCN_RL_NOT_MAPPED"
  shows "\<exists>rl J'. ntfs_runlists_merge H (Some (X @ D # Y1 @ T # J)) (Some (U @ R @ S # K)) = Inr (Some rl)
    \<and> same_rl rl (X @ fill_hole D s R t @ Y1 @ T # J')"
proof -
  note h = hole_setupD [OF assms(1)]
  have "rl_scan_end (D # (Y1 @ [T]) @ J) = length (Y1 @ [T])"
    using scan_end_eq [of "rl_vcn D" "D # Y1" "rl_vcn T" T J] h(9,10,13) by simp
  moreover have "\<forall>e\<in>set X. rl_length e \<noteq> 0 \<and> rl_vcn e + rl_length e \<le> s"
    using contig_elem [OF h(1)] h(6) by fastforce
  ultimately have "ntfs_runlists_merge H (Some (X @ D # (Y1 @ [T]) @ J)) (Some (U @ R @ S # K)) =
    (case merge_dispatch H (X @ D # (Y1 @ [T]) @ J) (length X + 1 + length (Y1 @ [T])) (R @ S # K)
            (length R) (length X)
            (rl_lcn D < LCN_RL_NOT_MAPPED \<or> rl_vcn D = s)
            (LCN_RL_NOT_MAPPED \<le> rl_lcn D \<and> rl_vcn D + rl_length D \<le> t) of
       Inl err \<Rightarrow> Inl err | Inr res \<Rightarrow> Inr (Some res))"
    using h S by (intro merge_to_dispatch [OF U]) auto
  moreover have "(rl_lcn D < LCN_RL_NOT_MAPPED \<or> rl_vcn D = s) = (s = rl_vcn D)"
      "(LCN_RL_NOT_MAPPED \<le> rl_lcn D \<and> rl_vcn D + rl_length D \<le> t) = (t = rl_vcn D + rl_length D)"
    using h(7,8) by (auto simp: lcn_defs)
  moreover have "\<exists>J' rl. merge_dispatch H (X @ D # (Y1 @ [T]) @ J) (length X + 1 + length (Y1 @ [T]))
      (R @ S # K) (length R) (length X) (s = rl_vcn D) (t = rl_vcn D + rl_length D) = Inr rl
    \<and> same_rl rl (X @ fill_hole D s R t @ Y1 @ T # J')"
    using merge_replace [OF assms(1,2), of J "S # K"] merge_insert [OF assms(1,2), of J "S # K"]
      merge_append [OF assms(1,2), of J "S # K"] merge_split [OF assms(1,2), of J "S # K"] h(6,7)
    by (cases "s = rl_vcn D"; cases "t = rl_vcn D + rl_length D") (auto simp: merge_dispatch_def)
  ultimately show ?thesis by auto
qed

section \<open>Properties of the merge\<close>

lemma same_rlD:
  assumes "same_rl rl rl'"
  shows "rl_map rl v = rl_map rl' v" "rl_ok 0 rl = rl_ok 0 rl'" "rl_term rl = rl_term rl'"
  using assms by (simp_all add: same_rl_def)

lemma contig_same_end: "contig a xs b \<Longrightarrow> c = b \<Longrightarrow> contig a xs c"
  by simp

text \<open>
  C14. Merging into a hole is correct: when the runs \<open>R\<close> of the source (behind an optional unmapped
  start \<open>U\<close>) cover clusters inside one hole or unmapped run \<open>D\<close> of the destination, and the source ends with an unmapped
  terminator \<open>S\<close>, as the runlists of newly allocated clusters and of every extent but the first do, the merge
  succeeds for every allocator state in which \<open>realloc\<close> succeeds, whichever of replace, insert,
  append and split it takes, and the result is a good runlist with the same terminator that maps
  the new clusters as the source does and all others as before. A source with the terminator \<open>LCN_ENOENT\<close> is not
  covered: see \<open>merge_marker_leaves_empty_run\<close>.
\<close>

theorem runlists_merge_fills_hole:
  assumes "heap_ok H" "rl_ok 0 drl" "rl_lcn (rl_term drl) = LCN_ENOENT"
    and D: "D \<in> set (rl_runs drl)" "rl_lcn D < 0" "rl_vcn D \<le> s" "t \<le> rl_vcn D + rl_length D"
    and U: "\<forall>u\<in>set U. rl_length u \<noteq> 0 \<and> rl_lcn u < LCN_HOLE"
    and R: "R \<noteq> []" "contig s R t" "\<forall>e\<in>set R. LCN_HOLE \<le> rl_lcn e"
    and S: "rl_length S = 0" "rl_lcn S = LCN_RL_NOT_MAPPED"
  shows "\<exists>rl. ntfs_runlists_merge H (Some drl) (Some (U @ R @ S # K)) = Inr (Some rl)
    \<and> rl_ok 0 rl \<and> rl_term rl = rl_term drl
    \<and> (\<forall>v. rl_map rl v = (if s \<le> v \<and> v < t then rl_map R v else rl_map drl v))"
proof -
  obtain xs T J where drl: "drl = xs @ T # J" "contig 0 xs (rl_vcn T)" "rl_length T = 0"
      "\<forall>e\<in>set xs. LCN_RL_NOT_MAPPED \<le> rl_lcn e"
    using rl_okE [OF assms(2)] by metis
  then have T: "rl_lcn T = LCN_ENOENT" "rl_term drl = T"
    using assms(3) rl_term_append [OF drl(2,3)] by auto
  have "D \<in> set xs"
    using D(1) rl_runs_append [OF drl(2,3)] drl(1) by simp
  then obtain X Y1 where xs: "xs = X @ D # Y1"
    by (auto simp: in_set_conv_decomp)
  have hs: "hole_setup X D Y1 T s R t"
    using drl xs D R T unfolding hole_setup_def by (auto simp: contig_append lcn_defs)
  note h = hole_setupD [OF hs]
  obtain rl J' where rl: "ntfs_runlists_merge H (Some drl) (Some (U @ R @ S # K)) = Inr (Some rl)"
      "same_rl rl (X @ fill_hole D s R t @ Y1 @ T # J')"
    using merge_into_hole [OF hs assms(1) U S, of J K] drl(1) xs by auto
  note f = fill_hole_props [OF h(3,6,7,14,2)]
  have "contig 0 (X @ fill_hole D s R t @ Y1) (rl_vcn T)"
    using h(1,9) f(1) by (auto simp: contig_append)
  moreover have "\<forall>e\<in>set (X @ fill_hole D s R t @ Y1). LCN_RL_NOT_MAPPED \<le> rl_lcn e"
    using h(4,5,8) by (auto simp: fill_hole_def lcn_defs)
  ultimately have ok: "rl_ok 0 (X @ fill_hole D s R t @ Y1 @ T # J')"
      "rl_term (X @ fill_hole D s R t @ Y1 @ T # J') = T"
    using rl_okI [of 0 "X @ fill_hole D s R t @ Y1" T J'] rl_term_append [OF _ h(10)] h(10,11)
    by (fastforce simp: lcn_defs)+
  have old: "rl_map drl v = (if 0 \<le> v \<and> v < rl_vcn D then rl_map X v
      else if rl_vcn D \<le> v \<and> v < rl_vcn D + rl_length D then rl_map [D] v else rl_map Y1 v)" for v
    using spliced_map [OF h(1) _ h(9,10), of "[D]" J v] h(13) drl(1) xs by simp
  have new: "rl_map rl v = (if 0 \<le> v \<and> v < rl_vcn D then rl_map X v
      else if rl_vcn D \<le> v \<and> v < rl_vcn D + rl_length D then rl_map (fill_hole D s R t) v
      else rl_map Y1 v)" for v
    using same_rlD(1) [OF rl(2)] spliced_map [OF h(1) f(1) h(9,10)] by simp
  have "rl_map rl v = (if s \<le> v \<and> v < t then rl_map R v else rl_map drl v)" for v
    unfolding old new using f(2) [of v] h(6,7,13,14) by (auto simp: in_run_def run_lcn_def)
  then show ?thesis
    using rl(1) same_rlD(2,3) [OF rl(2)] ok T(2) by auto
qed

definition demo_heap :: rl_heap where
  "demo_heap = \<lparr>heap_ok = True, heap_spare = (\<lambda>_. rle 9 9 9)\<rparr>"

lemma demo_rl_facts: "rl_term demo_rl = rle 12 LCN_ENOENT 0" "rle 4 LCN_HOLE 6 \<in> set (rl_runs demo_rl)"
  by (simp_all add: demo_rl_def rl_runs_def)

theorem runlists_merge_fills_hole_witness:
  "\<exists>rl. ntfs_runlists_merge demo_heap (Some demo_rl) (Some [rle 4 104 2, rle 6 LCN_RL_NOT_MAPPED 0])
      = Inr (Some rl) \<and> rl_map rl 5 = Some 105 \<and> rl_map rl 6 = Some LCN_HOLE"
proof -
  obtain rl where "ntfs_runlists_merge demo_heap (Some demo_rl) (Some [rle 4 104 2, rle 6 LCN_RL_NOT_MAPPED 0])
      = Inr (Some rl)"
    "\<forall>v. rl_map rl v = (if 4 \<le> v \<and> v < 6 then rl_map [rle 4 104 2] v else rl_map demo_rl v)"
    using runlists_merge_fills_hole [of demo_heap demo_rl "rle 4 LCN_HOLE 6" 4 6 "[]" "[rle 4 104 2]"
      "rle 6 LCN_RL_NOT_MAPPED 0" "[]"] demo_rl_ok demo_rl_facts by (auto simp: demo_heap_def lcn_defs)
  then show ?thesis
    by (simp add: demo_rl_def in_run_def run_lcn_def lcn_defs)
qed

text \<open>
  C29. Merging behind the end is correct: source runs that start at or behind the end of a runlist
  terminated by \<open>LCN_ENOENT\<close> are appended, a gap is filled with an unmapped run, and the terminator
  moves to the end of the new runs.
\<close>

theorem runlists_merge_extends:
  assumes "heap_ok H" "rl_ok 0 drl" "rl_lcn (rl_term drl) = LCN_ENOENT" "rl_vcn (rl_term drl) \<le> s"
    and U: "\<forall>u\<in>set U. rl_length u \<noteq> 0 \<and> rl_lcn u < LCN_HOLE"
    and R: "R \<noteq> []" "contig s R t" "\<forall>e\<in>set R. LCN_HOLE \<le> rl_lcn e"
    and S: "rl_length S = 0" "rl_lcn S = LCN_RL_NOT_MAPPED"
  shows "\<exists>rl. ntfs_runlists_merge H (Some drl) (Some (U @ R @ S # K)) = Inr (Some rl)
    \<and> rl_ok 0 rl \<and> rl_term rl = rle t LCN_ENOENT 0
    \<and> (\<forall>v. rl_map rl v = (if s \<le> v \<and> v < t then rl_map R v
        else if rl_vcn (rl_term drl) \<le> v \<and> v < s then Some LCN_RL_NOT_MAPPED else rl_map drl v))"
proof -
  obtain X T J where drl: "drl = X @ T # J" "contig 0 X (rl_vcn T)" "rl_length T = 0"
      "\<forall>e\<in>set X. LCN_RL_NOT_MAPPED \<le> rl_lcn e"
    using rl_okE [OF assms(2)] by metis
  have T: "rl_lcn T = LCN_ENOENT" "rl_term drl = T" "rl_vcn T \<le> s"
    using assms(3,4) rl_term_append [OF drl(2,3)] drl(1) by auto
  have Xs: "\<forall>e\<in>set X. rl_length e \<noteq> 0 \<and> rl_vcn e + rl_length e \<le> s"
    using contig_elem [OF drl(2)] T(3) by fastforce
  have disp: "ntfs_runlists_merge H (Some drl) (Some (U @ R @ S # K)) =
    (case ntfs_rl_insert H (Some (X @ T # [] @ J)) (length X + 1 + length []) (Some (R @ S # K))
        (length R) (length X) of Inl err \<Rightarrow> Inl err | Inr res \<Rightarrow> Inr (Some res))"
    using merge_to_dispatch [OF U R(1,3,2) S Xs, of T "[]" J H K] drl(1,3) T(1)
    by (simp add: merge_dispatch_def rl_scan_end_def lcn_defs)
  define G where "G = (if rl_vcn T < s then [rle (rl_vcn T) LCN_RL_NOT_MAPPED (s - rl_vcn T)] else [])"
  have hdR: "rl_vcn (hd R) = s" "0 < rl_length (hd R)" "LCN_HOLE \<le> rl_lcn (hd R)" "rl_end R = t"
    using contig_hd [OF R(2,1)] contig_elem [OF R(2) hd_in_set [OF R(1)]] R(1,3)
      rl_end_contig [OF R(2,1)] by auto
  have endX: "(if X = [] then 0 else rl_end X) = rl_vcn T"
    using drl(2) rl_end_contig [OF drl(2)] by auto
  have nT: "rl_lcn T = LCN_HOLE \<or> rl_lcn T = LCN_RL_NOT_MAPPED \<longrightarrow> [] \<noteq> ([] :: runlist)"
    using T(1) by (simp add: lcn_defs)
  have next_T: "ins_next T [] t = T\<lparr>rl_vcn := t\<rparr>"
    using T(1) by (simp add: ins_next_def lcn_defs)
  have cR: "contig 0 (X @ G @ R) t"
    using drl(2) R(2) T(3) by (auto simp: G_def contig_append)
  have "\<exists>rl J'. ntfs_rl_insert H (Some (X @ T # [] @ J)) (length X + 1 + length []) (Some (R @ S # K))
        (length R) (length X) = Inr rl \<and> same_rl rl (X @ G @ R @ T\<lparr>rl_vcn := t\<rparr> # J')"
  proof (cases "rl_vcn T < s")
    case True
    have "if X = [] then 0 < rl_vcn (hd R) else rl_end X < rl_vcn (hd R)"
      using endX hdR(1) True by (auto split: if_splits)
    then show ?thesis
      using insert_disc_closed [OF assms(1) R(1) nT _ hdR(3), of X J "S # K"] endX hdR(1,4) next_T True
      by (auto simp: G_def same_rl_def)
  next
    case False
    then have nd: "\<not> (if X = [] then 0 < rl_vcn (hd R) else rl_end X < rl_vcn (hd R))" and G: "G = []"
      using endX hdR(1) by (auto simp: G_def split: if_splits)
    have j: "good_joint X R"
      using good_joint_contig [OF drl(2) R(2)] R(3) by blast
    have "rl_end (join X R) = t"
      using rl_end_contig [of 0 "join X R" t] contig_join [OF j, of 0 t] cR G R(1)
      by (auto simp: join_def)
    then show ?thesis
      using insert_closed [OF assms(1) R(1) nT nd hdR(2), of J "S # K"] next_T same_rl_join0 [OF j] G
      by fastforce
  qed
  then obtain rl J' where rl: "ntfs_runlists_merge H (Some drl) (Some (U @ R @ S # K)) = Inr (Some rl)"
      "same_rl rl ((X @ G @ R) @ T\<lparr>rl_vcn := t\<rparr> # J')"
    using disp by auto
  have "\<forall>e\<in>set (X @ G @ R). LCN_RL_NOT_MAPPED \<le> rl_lcn e"
    using drl(4) R(3) by (fastforce simp: G_def lcn_defs)
  then have ok: "rl_ok 0 rl"
    using same_rlD(2) [OF rl(2)] rl_okI [of 0 "X @ G @ R" "T\<lparr>rl_vcn := t\<rparr>" J'] cR drl(3) T(1)
    by (simp add: lcn_defs)
  have trm: "rl_term rl = rle t LCN_ENOENT 0"
    using same_rlD(3) [OF rl(2)] rl_term_append [OF cR, of "T\<lparr>rl_vcn := t\<rparr>" J'] drl(3) T(1)
    by (cases T) simp
  have old: "rl_map drl v = rl_map X v" for v
    using drl(1) rl_map_runs [OF drl(2,3)] by simp
  have "rl_map rl v = (if s \<le> v \<and> v < t then rl_map R v
        else if rl_vcn T \<le> v \<and> v < s then Some LCN_RL_NOT_MAPPED else rl_map drl v)" for v
  proof -
    have "rl_map rl v = rl_map (X @ G @ R) v"
      using same_rlD(1) [OF rl(2)] rl_map_runs [OF cR, of "T\<lparr>rl_vcn := t\<rparr>" J' v] drl(3) by simp
    also have "\<dots> = (if 0 \<le> v \<and> v < rl_vcn T then rl_map X v else rl_map (G @ R) v)"
      by (rule rl_map_append [OF drl(2)])
    also have "rl_map (G @ R) v = (if rl_vcn T \<le> v \<and> v < s then Some LCN_RL_NOT_MAPPED else rl_map R v)"
      by (auto simp: G_def in_run_def run_lcn_def lcn_defs)
    finally show ?thesis
      using rl_map_None_out [OF R(2), of v] rl_map_None_out [OF drl(2), of v] old T(3)
        contig_le [OF drl(2)] by auto
  qed
  then show ?thesis
    using rl(1) ok trm T(2) by auto
qed

theorem runlists_merge_extends_witness:
  "\<exists>rl. ntfs_runlists_merge demo_heap (Some demo_rl) (Some [rle 20 7 2, rle 22 LCN_RL_NOT_MAPPED 0])
      = Inr (Some rl) \<and> rl_map rl 21 = Some 8 \<and> rl_map rl 15 = Some LCN_RL_NOT_MAPPED"
proof -
  obtain rl where "ntfs_runlists_merge demo_heap (Some demo_rl) (Some [rle 20 7 2, rle 22 LCN_RL_NOT_MAPPED 0])
      = Inr (Some rl)"
    "\<forall>v. rl_map rl v = (if 20 \<le> v \<and> v < 22 then rl_map [rle 20 7 2] v
        else if rl_vcn (rl_term demo_rl) \<le> v \<and> v < 20 then Some LCN_RL_NOT_MAPPED else rl_map demo_rl v)"
    using runlists_merge_extends [of demo_heap demo_rl 20 "[]" "[rle 20 7 2]" 22
      "rle 22 LCN_RL_NOT_MAPPED 0" "[]"] demo_rl_ok demo_rl_facts by (auto simp: demo_heap_def lcn_defs)
  then show ?thesis
    using demo_rl_facts by (simp add: in_run_def run_lcn_def)
qed

text \<open>
  Overlaps are detected only where two mapped runs start at the same cluster: a source that
  starts inside a mapped run is spliced into it without an error, and the clusters behind it are
  then mapped to the wrong place (here cluster 8, which was at 58, is at 50).
\<close>

lemma merge_overlap_not_detected:
  "rl_map [rle 0 50 10, rle 10 LCN_ENOENT 0] 8 = Some 58
    \<and> (case ntfs_runlists_merge demo_heap (Some [rle 0 50 10, rle 10 LCN_ENOENT 0])
          (Some [rle 5 90 3, rle 8 LCN_RL_NOT_MAPPED 0]) of
         Inr (Some rl) \<Rightarrow> rl_map rl 8 = Some 50 | _ \<Rightarrow> False)"
  by code_simp

text \<open>
  A source that ends with \<open>LCN_ENOENT\<close> and fills a hole to its end is merged with \<open>ntfs_rl_insert\<close> instead of
  \<open>ntfs_rl_replace\<close>, because the marker clears \<open>finish\<close>. It leaves a hole of length 0 behind the new runs, which every
  function takes for the terminator: the clusters behind it are lost (here cluster 12, which was at 302).
\<close>

lemma merge_marker_leaves_empty_run:
  "rl_map [rle 0 100 4, rle 4 LCN_HOLE 6, rle 10 300 5, rle 15 LCN_ENOENT 0] 12 = Some 302
    \<and> (case ntfs_runlists_merge demo_heap (Some [rle 0 100 4, rle 4 LCN_HOLE 6, rle 10 300 5, rle 15 LCN_ENOENT 0])
          (Some [rle 4 200 6, rle 10 LCN_ENOENT 0]) of
         Inr (Some rl) \<Rightarrow> rl ! 2 = rle 10 LCN_HOLE 0 \<and> rl_map rl 12 = None | _ \<Rightarrow> False)"
  by code_simp

end
