(* ===== verification/MappingPairs.thy ===== *)
theory MappingPairs
  imports RunlistMerge
begin

text \<open>
  Mapping pairs, the on-disk form of a runlist (\<open>libntfs_ext/source/runlist.c\<close>): a header byte with
  the sizes of two little-endian signed numbers, the length of the run and the change of the logical
  cluster; a zero byte ends the array.

  A destination buffer is the list of its \<open>dst_len\<close> bytes (a negative \<open>dst_len\<close> is an empty one). A
  pointer into the runlist is the rest of the list from there. Sums of cluster numbers are reduced to
  a signed 64-bit number by \<open>s64\<close>.
\<close>

section \<open>Numbers of as few bytes as possible\<close>

text \<open>The loop \<open>do { i++; l >>= 8; } while (l)\<close>.\<close>

fun nsb_loop :: "nat \<Rightarrow> nat \<Rightarrow> nat" where
  "nsb_loop i l = (if l div 256 = 0 then i + 1 else nsb_loop (i + 1) (l div 256))"

declare nsb_loop.simps [simp del]

definition ntfs_get_nr_significant_bytes :: "int \<Rightarrow> nat" where
  "ntfs_get_nr_significant_bytes n =
     (let l = nat (if n < 0 then - n - 1 else n)
      in if l \<ge> 128 then nsb_loop 1 (l div 128) else 1)"

text \<open>\<open>*dst++ = l\<close> as long as the number does not fit the last byte written. The result is the buffer
  and the number of bytes, or \<open>None\<close> for \<open>ENOSPC\<close>.\<close>

function wsb_loop :: "bytes \<Rightarrow> nat \<Rightarrow> int \<Rightarrow> nat \<Rightarrow> bytes \<times> nat option" where
  "wsb_loop buf dst l i =
     (if l > 0x7f \<or> l < - 0x80 then
        if dst \<ge> length buf then (buf, None)
        else wsb_loop (buf[dst := word_of_int (l div 256)]) (dst + 1) (l div 256) (i + 1)
      else (buf, Some i))"
  by pat_completeness auto
termination
  by (relation "measure (\<lambda>(buf, dst, l, i). nat \<bar>l\<bar>)") auto

declare wsb_loop.simps [simp del]

definition ntfs_write_significant_bytes :: "bytes \<Rightarrow> nat \<Rightarrow> int \<Rightarrow> bytes \<times> nat option" where
  "ntfs_write_significant_bytes buf dst n =
     (if dst \<ge> length buf then (buf, None)
      else wsb_loop (buf[dst := word_of_int n]) (dst + 1) n 1)"

section \<open>Building the array\<close>

text \<open>Skip to the element that contains \<open>start_vcn\<close>.\<close>

fun rl_skip :: "int \<Rightarrow> runlist \<Rightarrow> runlist option" where
  "rl_skip v [] = None"
| "rl_skip v (r # rs) =
     (if rl_length r \<noteq> 0
      then (case rs of [] \<Rightarrow> None | r' # _ \<Rightarrow> if v \<ge> rl_vcn r' then rl_skip v rs else Some (r # rs))
      else Some (r # rs))"

text \<open>\<open>start_vcn\<close> lies outside the runlist.\<close>

definition bad_start :: "int \<Rightarrow> runlist_element \<Rightarrow> bool" where
  "bad_start v r \<longleftrightarrow> (rl_length r = 0 \<and> v > rl_vcn r) \<or> v < rl_vcn r"

definition bad_run :: "runlist_element \<Rightarrow> bool" where
  "bad_run r \<longleftrightarrow> rl_length r < 0 \<or> rl_lcn r < LCN_HOLE"

definition run_error :: "runlist_element \<Rightarrow> errno" where
  "run_error r = (if rl_lcn r = LCN_RL_NOT_MAPPED then EINVAL else EIO)"

text \<open>The change of \<open>lcn\<close> that is stored, if any: \<open>major_ver\<close> is the NTFS version of the volume.\<close>

definition stores_lcn :: "nat \<Rightarrow> runlist_element \<Rightarrow> bool" where
  "stores_lcn major_ver r \<longleftrightarrow> rl_lcn r \<ge> 0 \<or> major_ver < 3"

text \<open>\<open>ntfs_get_size_for_mapping_pairs\<close>: the loop over the full runs, the partial run, the function.\<close>

fun size_loop :: "nat \<Rightarrow> int \<Rightarrow> int \<Rightarrow> runlist \<Rightarrow> int \<Rightarrow> errno + int" where
  "size_loop ver max_size rls [] prev_lcn = Inl FAULT"
| "size_loop ver max_size rls (r # rs) prev_lcn =
     (if rl_length r = 0 \<or> rls > max_size then Inr rls
      else if bad_run r then Inl (run_error r)
      else (let rls1 = rls + 1 + int (ntfs_get_nr_significant_bytes (rl_length r))
            in if stores_lcn ver r
               then size_loop ver max_size
                      (rls1 + int (ntfs_get_nr_significant_bytes (s64 (rl_lcn r - prev_lcn)))) rs (rl_lcn r)
               else size_loop ver max_size rls1 rs prev_lcn))"

definition size_first :: "nat \<Rightarrow> runlist_element \<Rightarrow> int \<Rightarrow> errno + int \<times> int" where
  "size_first ver r start_vcn =
     (if bad_run r then Inl (run_error r)
      else (let delta = s64 (start_vcn - rl_vcn r);
                rls = 1 + 1 + int (ntfs_get_nr_significant_bytes (s64 (rl_length r - delta)))
            in if stores_lcn ver r
               then (let prev_lcn = (if rl_lcn r \<ge> 0 then s64 (rl_lcn r + delta) else rl_lcn r)
                     in Inr (rls + int (ntfs_get_nr_significant_bytes prev_lcn), prev_lcn))
               else Inr (rls, 0)))"

definition ntfs_get_size_for_mapping_pairs :: "nat \<Rightarrow> runlist option \<Rightarrow> int \<Rightarrow> int \<Rightarrow> errno + int" where
  "ntfs_get_size_for_mapping_pairs ver rl start_vcn max_size =
     (if start_vcn < 0 then Inl EINVAL
      else case rl of
        None \<Rightarrow> if start_vcn \<noteq> 0 then Inl EINVAL else Inr 1
      | Some rl0 \<Rightarrow>
          (case rl_skip start_vcn rl0 of
             None \<Rightarrow> Inl FAULT
           | Some [] \<Rightarrow> Inl FAULT
           | Some (r # rs) \<Rightarrow>
               if bad_start start_vcn r then Inl EINVAL
               else if start_vcn > rl_vcn r then
                 (case size_first ver r start_vcn of Inl e \<Rightarrow> Inl e
                  | Inr (rls, prev_lcn) \<Rightarrow> size_loop ver max_size rls rs prev_lcn)
               else size_loop ver max_size 1 (r # rs) 0))"

text \<open>One mapping pair at \<open>dst\<close>: the two numbers, then the header byte. \<open>None\<close> is \<open>ENOSPC\<close>.\<close>

definition build_pair :: "bytes \<Rightarrow> nat \<Rightarrow> int \<Rightarrow> int option \<Rightarrow> bytes \<times> nat option" where
  "build_pair buf dst n lcn =
     (case ntfs_write_significant_bytes buf (dst + 1) n of
        (b1, None) \<Rightarrow> (b1, None)
      | (b1, Some len_len) \<Rightarrow>
          (case (case lcn of None \<Rightarrow> (b1, Some 0)
                 | Some x \<Rightarrow> ntfs_write_significant_bytes b1 (dst + 1 + len_len) x) of
             (b2, None) \<Rightarrow> (b2, None)
           | (b2, Some lcn_len) \<Rightarrow>
               (let dst_next = dst + len_len + lcn_len + 1
                in if dst_next \<ge> length b2 then (b2, None)
                   else (b2[dst := word_of_nat (lcn_len * 16 + len_len)], Some dst_next))))"

text \<open>The result of the build: the error, the buffer and the rest of the runlist that was not stored
  (\<open>stop_rl\<close>, where the code sets it).\<close>

type_synonym build_result = "errno option \<times> bytes \<times> runlist option"

definition put_end :: "errno option \<Rightarrow> bytes \<Rightarrow> nat \<Rightarrow> runlist option \<Rightarrow> build_result" where
  "put_end e buf dst stop = (if dst < length buf then (e, buf[dst := 0], stop) else (Some FAULT, buf, stop))"

fun build_loop :: "nat \<Rightarrow> bytes \<Rightarrow> nat \<Rightarrow> runlist \<Rightarrow> int \<Rightarrow> build_result" where
  "build_loop ver buf dst [] prev_lcn = (Some FAULT, buf, None)"
| "build_loop ver buf dst (r # rs) prev_lcn =
     (if rl_length r = 0 then put_end None buf dst (Some (r # rs))
      else if bad_run r then (Some (run_error r), buf, None)
      else (case build_pair buf dst (rl_length r)
                   (if stores_lcn ver r then Some (s64 (rl_lcn r - prev_lcn)) else None) of
              (b, None) \<Rightarrow> put_end (Some ENOSPC) b dst (Some (r # rs))
            | (b, Some dst') \<Rightarrow> build_loop ver b dst' rs (if stores_lcn ver r then rl_lcn r else prev_lcn)))"

definition build_first :: "nat \<Rightarrow> bytes \<Rightarrow> runlist_element \<Rightarrow> runlist \<Rightarrow> int \<Rightarrow> build_result" where
  "build_first ver buf r rs start_vcn =
     (if bad_run r then (Some (run_error r), buf, None)
      else (let delta = s64 (start_vcn - rl_vcn r);
                prev_lcn = (if rl_lcn r \<ge> 0 then s64 (rl_lcn r + delta) else rl_lcn r)
            in case build_pair buf 0 (s64 (rl_length r - delta))
                      (if stores_lcn ver r then Some prev_lcn else None) of
                 (b, None) \<Rightarrow> put_end (Some ENOSPC) b 0 (Some (r # rs))
               | (b, Some dst') \<Rightarrow> build_loop ver b dst' rs (if stores_lcn ver r then prev_lcn else 0)))"

definition ntfs_mapping_pairs_build :: "nat \<Rightarrow> bytes \<Rightarrow> runlist option \<Rightarrow> int \<Rightarrow> build_result" where
  "ntfs_mapping_pairs_build ver buf rl start_vcn =
     (if start_vcn < 0 then (Some EINVAL, buf, None)
      else case rl of
        None \<Rightarrow> if start_vcn \<noteq> 0 then (Some EINVAL, buf, None)
                else if length buf < 1 then (Some ENOSPC, buf, None) else put_end None buf 0 None
      | Some rl0 \<Rightarrow>
          (case rl_skip start_vcn rl0 of
             None \<Rightarrow> (Some FAULT, buf, None)
           | Some [] \<Rightarrow> (Some FAULT, buf, None)
           | Some (r # rs) \<Rightarrow>
               if bad_start start_vcn r then (Some EINVAL, buf, None)
               else if start_vcn > rl_vcn r then build_first ver buf r rs start_vcn
               else build_loop ver buf 0 (r # rs) 0))"

section \<open>Reading the array\<close>

text \<open>The fields of the attribute record that the code reads, and \<open>at_mem\<close>, the memory from the start
  of the record.\<close>

record attr_record =
  at_non_resident :: bool
  at_lowest_vcn :: int
  at_highest_vcn :: int
  at_allocated_size :: int
  at_mapping_pairs_offset :: nat
  at_length :: nat
  at_mem :: bytes

definition mem_at :: "bytes \<Rightarrow> nat \<Rightarrow> u8 option" where
  "mem_at m i = (if i < length m then Some (m ! i) else None)"

text \<open>A little-endian number, from its last byte downwards: the bytes at \<open>base + lo + 1 .. base + hi\<close>.\<close>

fun mp_more :: "bytes \<Rightarrow> nat \<Rightarrow> nat \<Rightarrow> int \<Rightarrow> int option" where
  "mp_more m p 0 acc = Some acc"
| "mp_more m p (Suc k) acc = (case mem_at m (p + Suc k) of None \<Rightarrow> None
     | Some y \<Rightarrow> mp_more m p k (s64 (s64 (acc * 256) + uint y)))"

definition mp_value :: "bytes \<Rightarrow> nat \<Rightarrow> nat \<Rightarrow> nat \<Rightarrow> int option" where
  "mp_value m buf lo hi = (case mem_at m (buf + hi) of None \<Rightarrow> None
     | Some x \<Rightarrow> mp_more m (buf + lo) (hi - 1 - lo) (sint x))"

text \<open>Store \<open>rl[rlpos]\<close>; \<open>rlpos\<close> is a 16-bit integer, the array is as long as the elements stored.\<close>

definition rl_put :: "runlist \<Rightarrow> nat \<Rightarrow> runlist_element \<Rightarrow> runlist" where
  "rl_put rl rlpos e = (if rlpos < length rl then rl[rlpos := e] else rl @ [e])"

definition next_pos :: "nat \<Rightarrow> nat" where
  "next_pos rlpos = (rlpos + 1) mod 65536"

text \<open>One mapping pair at \<open>buf\<close> with header \<open>h\<close>: the length of the run and its \<open>lcn\<close>, with the new
  current \<open>lcn\<close>.\<close>

definition mp_pair :: "bytes \<Rightarrow> nat \<Rightarrow> nat \<Rightarrow> nat \<Rightarrow> int \<Rightarrow> errno + int \<times> int \<times> int" where
  "mp_pair m attr_end buf h lcn =
     (let b = h mod 16; b2 = h div 16
      in case (if b = 0 then Inr (- 1) else if buf + b > attr_end then Inl EIO
               else case mp_value m buf 0 b of None \<Rightarrow> Inl FAULT | Some n \<Rightarrow> Inr n) of
           Inl e \<Rightarrow> Inl e
         | Inr n \<Rightarrow>
             if n < 0 then Inl EIO
             else if b2 = 0 then Inr (n, LCN_HOLE, lcn)
             else if buf + (b + b2) > attr_end then Inl EIO
             else (case mp_value m buf b (b + b2) of None \<Rightarrow> Inl FAULT
                   | Some d \<Rightarrow> if s64 (lcn + d) < - 1 then Inl EIO
                               else Inr (n, s64 (lcn + d), s64 (lcn + d))))"

text \<open>The loop over the pairs. \<open>alloc n\<close> says whether \<open>n\<close> bytes can be had for the runlist. The result
  is the runlist with the next free element, the current \<open>vcn\<close> and where the reading stopped.\<close>

function mp_loop ::
  "(nat \<Rightarrow> bool) \<Rightarrow> bytes \<Rightarrow> nat \<Rightarrow> nat \<Rightarrow> int \<Rightarrow> int \<Rightarrow> runlist \<Rightarrow> nat \<Rightarrow> nat \<Rightarrow> errno + runlist \<times> nat \<times> int \<times> nat" where
  "mp_loop alloc m attr_end buf vcn lcn rl rlpos rlsize =
     (if buf < attr_end then
        (case mem_at m buf of
           None \<Rightarrow> Inl FAULT
         | Some h \<Rightarrow>
             if h = 0 then Inr (rl, rlpos, vcn, buf)
             else (let rlsize' = (if (rlpos + 3) * 24 > rlsize then rlsize + 4096 else rlsize)
                   in if rlsize' \<noteq> rlsize \<and> \<not> alloc rlsize' then Inl ENOMEM
                      else (case mp_pair m attr_end buf (unat h) lcn of
                              Inl e \<Rightarrow> Inl e
                            | Inr (n, l, lcn') \<Rightarrow>
                                mp_loop alloc m attr_end (buf + unat h mod 16 + unat h div 16 + 1) (s64 (vcn + n)) lcn'
                                  (rl_put rl rlpos (rle vcn l n)) (next_pos rlpos) rlsize')))
      else Inr (rl, rlpos, vcn, buf))"
  by pat_completeness auto
termination
  by (relation "measure (\<lambda>(alloc, m, attr_end, buf, vcn, lcn, rl, rlpos, rlsize). attr_end - buf)") auto

declare mp_loop.simps [simp del]

text \<open>The volume's cluster size, and the terminator of the runlist.\<close>

definition mp_finish :: "nat \<Rightarrow> attr_record \<Rightarrow> runlist \<Rightarrow> nat \<Rightarrow> int \<Rightarrow> errno + runlist" where
  "mp_finish cluster_size_bits a rl rlpos vcn =
     (let deltaxcn = at_highest_vcn a
      in if deltaxcn \<noteq> 0 \<and> s64 (vcn - 1) \<noteq> deltaxcn then Inl EIO
         else if at_lowest_vcn a = 0 then
           (let max_cluster = s64 (at_allocated_size a + 2 ^ cluster_size_bits - 1) div 2 ^ cluster_size_bits - 1
            in if deltaxcn \<noteq> 0 \<and> deltaxcn < max_cluster then
                 (let n = s64 (max_cluster - deltaxcn)
                  in Inr (rl_put (rl_put rl rlpos (rle vcn LCN_RL_NOT_MAPPED n)) (next_pos rlpos)
                            (rle (s64 (vcn + n)) LCN_ENOENT 0)))
               else if deltaxcn \<noteq> 0 \<and> deltaxcn > max_cluster then Inl EIO
               else Inr (rl_put rl rlpos (rle vcn LCN_ENOENT 0)))
         else Inr (rl_put rl rlpos (rle vcn LCN_RL_NOT_MAPPED 0)))"

definition mapping_pairs_decode :: "(nat \<Rightarrow> bool) \<Rightarrow> nat \<Rightarrow> attr_record \<Rightarrow> errno + runlist" where
  "mapping_pairs_decode alloc cluster_size_bits a =
     (if \<not> at_non_resident a \<or> at_lowest_vcn a < 0 then Inl EINVAL
      else (let vcn = at_lowest_vcn a; buf = at_mapping_pairs_offset a; attr_end = at_length a
            in if buf > attr_end then Inl EIO
               else if \<not> alloc 4096 then Inl ENOMEM
               else (case (if vcn \<noteq> 0 then mp_loop alloc (at_mem a) attr_end buf vcn 0 [rle 0 LCN_RL_NOT_MAPPED vcn] 1 4096
                           else mp_loop alloc (at_mem a) attr_end buf vcn 0 [] 0 4096) of
                       Inl e \<Rightarrow> Inl e
                     | Inr (rl, rlpos, vcn', buf') \<Rightarrow>
                         if buf' \<ge> attr_end then Inl EIO else mp_finish cluster_size_bits a rl rlpos vcn')))"

definition ntfs_mapping_pairs_decompress ::
  "rl_heap \<Rightarrow> (nat \<Rightarrow> bool) \<Rightarrow> nat \<Rightarrow> attr_record option \<Rightarrow> runlist option \<Rightarrow> errno + runlist option" where
  "ntfs_mapping_pairs_decompress H alloc cluster_size_bits attr old_rl =
     (case attr of None \<Rightarrow> Inl EINVAL
      | Some a \<Rightarrow>
         (case mapping_pairs_decode alloc cluster_size_bits a of
            Inl e \<Rightarrow> Inl e
          | Inr rl \<Rightarrow> (case old_rl of None \<Rightarrow> Inr (Some rl) | Some old \<Rightarrow> ntfs_runlists_merge H (Some old) (Some rl))))"

section \<open>The shortest form of a number\<close>

function sig_bytes :: "int \<Rightarrow> bytes" where
  "sig_bytes l = word_of_int l # (if l > 0x7f \<or> l < - 0x80 then sig_bytes (l div 256) else [])"
  by pat_completeness auto
termination
  by (relation "measure (\<lambda>l. nat \<bar>l\<bar>)") auto

declare sig_bytes.simps [simp del]

lemma sig_bytes_Cons: "sig_bytes l = word_of_int l # tl (sig_bytes l)"
  by (subst (1 2) sig_bytes.simps) simp

lemma sig_bytes_neq_Nil [simp]: "sig_bytes l \<noteq> []"
  by (subst sig_bytes.simps) simp

lemma tl_sig_bytes: "tl (sig_bytes l) = (if l > 0x7f \<or> l < - 0x80 then sig_bytes (l div 256) else [])"
  by (subst sig_bytes.simps) simp

lemma length_sig_bytes_pos [simp]: "0 < length (sig_bytes l)"
  by simp

lemma length_sig_bytes_le:
  "- (128 * 256 ^ k) \<le> l \<Longrightarrow> l < 128 * 256 ^ k \<Longrightarrow> length (sig_bytes l) \<le> k + 1"
proof (induction k arbitrary: l)
  case 0
  then show ?case by (subst sig_bytes.simps) auto
next
  case (Suc k)
  have "- (128 * 256 ^ k) \<le> l div 256" "l div 256 < 128 * 256 ^ k"
    using Suc.prems by (auto simp: int_div_less_self div_less_iff_less_mult zdiv_mono1)
  then have "length (sig_bytes (l div 256)) \<le> k + 1"
    by (rule Suc.IH)
  then show ?case
    by (subst sig_bytes.simps) auto
qed

lemma length_sig_bytes_s64: "in_s64 l \<Longrightarrow> length (sig_bytes l) \<le> 8"
  using length_sig_bytes_le [of 7 l] by (simp add: in_s64_def)

lemma length_sig_bytes_neg: "l < 0 \<Longrightarrow> length (sig_bytes l) = length (sig_bytes (- l - 1))"
proof (induction "nat \<bar>l\<bar>" arbitrary: l rule: less_induct)
  case less
  have dm: "256 * q + r = l \<Longrightarrow> - l - 1 = 256 * (- q - 1) + (255 - r)" for q r :: int
    by simp
  have div: "(- l - 1) div 256 = - (l div 256) - 1"
    by (rule int_div_pos_eq [OF dm [of "l div 256" "l mod 256"]]) simp_all
  show ?case
  proof (cases "l < - 128")
    case True
    have "length (sig_bytes (l div 256)) = length (sig_bytes (- (l div 256) - 1))"
      by (rule less.hyps) (use True in auto)
    then show ?thesis
      using True by (subst (1 2) sig_bytes.simps) (simp add: div)
  next
    case False
    then show ?thesis
      using less.prems by (subst (1 2) sig_bytes.simps) simp
  qed
qed

lemma nsb_loop_sig: "128 \<le> l \<Longrightarrow> nsb_loop i (l div 128) = i + length (sig_bytes (int l)) - 1"
proof (induction l arbitrary: i rule: less_induct)
  case (less l)
  have d: "l div 128 div 256 = l div 256 div 128"
    by (simp add: div_mult2_eq [symmetric])
  have sig: "length (sig_bytes (int l)) = 1 + length (sig_bytes (int (l div 256)))"
    using less.prems by (subst sig_bytes.simps) (simp add: zdiv_int)
  show ?case
  proof (cases "128 \<le> l div 256")
    case True
    then have "nsb_loop (i + 1) (l div 256 div 128) = i + 1 + length (sig_bytes (int (l div 256))) - 1"
      using less.prems by (intro less.IH) auto
    then show ?thesis
      using True sig div_le_mono [OF True, of 128] unfolding nsb_loop.simps [of i] d by simp
  next
    case False
    then have "length (sig_bytes (int (l div 256))) = 1"
      by (subst sig_bytes.simps) simp
    then show ?thesis
      using False sig unfolding nsb_loop.simps [of i] d by simp
  qed
qed

lemma nr_significant_eq: "ntfs_get_nr_significant_bytes n = length (sig_bytes n)"
proof -
  have pos: "(let l = nat n in if l \<ge> 128 then nsb_loop 1 (l div 128) else 1) = length (sig_bytes n)" if "0 \<le> n" for n
    using that nsb_loop_sig [of "nat n" 1] by (cases "128 \<le> n") (auto simp: Let_def sig_bytes.simps [of n])
  show ?thesis
    using pos [of n] pos [of "- n - 1"] length_sig_bytes_neg [of n]
    by (cases "n < 0") (simp_all add: ntfs_get_nr_significant_bytes_def)
qed

subsection \<open>Writing\<close>

lemma blit_update:
  "dst + 1 + length xs \<le> length buf \<Longrightarrow> blit (buf[dst := x]) (dst + 1) xs = blit buf dst (x # xs)"
  by (simp add: blit_def upd_conv_take_nth_drop add.commute)

lemma wsb_loop_spec:
  "dst \<le> length buf \<Longrightarrow>
   (dst + length (tl (sig_bytes l)) \<le> length buf \<longrightarrow>
      wsb_loop buf dst l i = (blit buf dst (tl (sig_bytes l)), Some (i + length (tl (sig_bytes l))))) \<and>
   (length buf < dst + length (tl (sig_bytes l)) \<longrightarrow>
      (\<exists>b. wsb_loop buf dst l i = (b, None) \<and> length b = length buf \<and> (\<forall>k < dst. b ! k = buf ! k)))"
proof (induction buf dst l i rule: wsb_loop.induct)
  case (1 buf dst l i)
  let ?m = "l div 256" and ?b = "buf[dst := word_of_int (l div 256)]"
  show ?case
  proof (cases "l > 0x7f \<or> l < - 0x80")
    case False
    then have "tl (sig_bytes l) = []" by (simp add: tl_sig_bytes)
    then show ?thesis
      using False 1(2) by (auto simp: wsb_loop.simps [of buf dst l i])
  next
    case True
    then have tl: "tl (sig_bytes l) = word_of_int ?m # tl (sig_bytes ?m)"
      using sig_bytes_Cons [of ?m] by (simp add: tl_sig_bytes)
    show ?thesis
    proof (cases "length buf \<le> dst")
      case out: True
      then show ?thesis using True tl 1(2) by (auto simp: wsb_loop.simps [of buf dst l i])
    next
      case False
      have rec: "wsb_loop buf dst l i = wsb_loop ?b (dst + 1) ?m (i + 1)"
        using True False by (simp add: wsb_loop.simps [of buf dst l i])
      show ?thesis
        using 1(1) [OF True] False unfolding rec tl by (auto simp: blit_update [simplified] nth_list_update)
    qed
  qed
qed

lemma write_sig_ok:
  assumes "dst + length (sig_bytes n) \<le> length buf"
  shows "ntfs_write_significant_bytes buf dst n = (blit buf dst (sig_bytes n), Some (length (sig_bytes n)))"
proof -
  define t where "t = tl (sig_bytes n)"
  have s: "sig_bytes n = word_of_int n # t"
    unfolding t_def by (rule sig_bytes_Cons)
  have "wsb_loop (buf[dst := word_of_int n]) (dst + 1) n 1 = (blit (buf[dst := word_of_int n]) (dst + 1) t, Some (1 + length t))"
    using wsb_loop_spec [where dst = "dst + 1" and l = n and buf = "buf[dst := word_of_int n]" and i = 1] assms
    unfolding t_def [symmetric] s by simp
  moreover have "blit (buf[dst := word_of_int n]) (dst + 1) t = blit buf dst (sig_bytes n)"
    using blit_update [of dst t buf "word_of_int n"] assms unfolding s by simp
  ultimately show ?thesis
    using assms unfolding s by (simp add: ntfs_write_significant_bytes_def)
qed

lemma write_sig_full:
  assumes "length buf < dst + length (sig_bytes n)"
  shows "\<exists>b. ntfs_write_significant_bytes buf dst n = (b, None) \<and> length b = length buf \<and> (\<forall>k < dst. b ! k = buf ! k)"
proof (cases "length buf \<le> dst")
  case True
  then show ?thesis by (simp add: ntfs_write_significant_bytes_def)
next
  case False
  define t where "t = tl (sig_bytes n)"
  have s: "sig_bytes n = word_of_int n # t"
    unfolding t_def by (rule sig_bytes_Cons)
  show ?thesis
    using wsb_loop_spec [where dst = "dst + 1" and l = n and buf = "buf[dst := word_of_int n]" and i = 1] assms False
    unfolding t_def [symmetric] s by (auto simp: ntfs_write_significant_bytes_def)
qed

subsection \<open>Reading\<close>

text \<open>The number a little-endian byte string stands for, its last byte signed.\<close>

fun sig_val :: "bytes \<Rightarrow> int" where
  "sig_val [] = 0"
| "sig_val [x] = sint x"
| "sig_val (y # x # bs) = s64 (s64 (sig_val (x # bs) * 256) + uint y)"

lemma sig_val_Cons: "bs \<noteq> [] \<Longrightarrow> sig_val (y # bs) = s64 (s64 (sig_val bs * 256) + uint y)"
  by (cases bs) simp_all

lemma s64_mult256: "in_s64 l \<Longrightarrow> s64 (l div 256 * 256) = l div 256 * 256"
proof -
  assume "in_s64 l"
  then have "- (2 ^ 63) div 256 \<le> l div 256" "l div 256 \<le> (2 ^ 63 - 1) div 256"
    unfolding in_s64_def by (auto intro: zdiv_mono1)
  then show ?thesis
    by (intro s64_id) (simp add: in_s64_def)
qed

lemma sig_val_sig_bytes: "in_s64 l \<Longrightarrow> sig_val (sig_bytes l) = l"
proof (induction l rule: sig_bytes.induct)
  case (1 l)
  show ?case
  proof (cases "l > 0x7f \<or> l < - 0x80")
    case False
    then have "sint (word_of_int l :: u8) = l"
      by (simp add: signed_of_int signed_take_bit_int_eq_self)
    then show ?thesis
      using False by (subst sig_bytes.simps) auto
  next
    case True
    have "in_s64 (l div 256)"
      using 1(2) by (auto simp: in_s64_def)
    then have IH: "sig_val (sig_bytes (l div 256)) = l div 256"
      using 1(1) True by blast
    have "uint (word_of_int l :: u8) = l mod 256"
      by (simp add: uint_word_of_int)
    then have "sig_val (word_of_int l # sig_bytes (l div 256)) = s64 (l div 256 * 256 + l mod 256)"
      using IH s64_mult256 [OF 1(2)] by (simp add: sig_val_Cons)
    then show ?thesis
      using True 1(2) by (subst sig_bytes.simps) auto
  qed
qed

lemma mp_more_spec:
  "t \<noteq> [] \<Longrightarrow> p + k < length m \<Longrightarrow> mp_more m p k (sig_val t) = Some (sig_val (chunk (p + 1) k m @ t))"
proof (induction k arbitrary: t)
  case 0
  then show ?case by simp
next
  case (Suc k)
  have c: "chunk (p + 1) (Suc k) m = chunk (p + 1) k m @ [m ! (p + Suc k)]"
    using Suc.prems chunk_append [of "p + 1" k m 1]
    by (simp add: chunk_def take_Suc_conv_app_nth)
  have "mp_more m p k (sig_val (m ! (p + Suc k) # t)) = Some (sig_val (chunk (p + 1) k m @ m ! (p + Suc k) # t))"
    by (rule Suc.IH) (use Suc.prems in auto)
  then show ?case
    using Suc.prems c by (simp add: mem_at_def sig_val_Cons)
qed

lemma mp_value_spec:
  assumes "lo < hi" "buf + hi < length m"
  shows "mp_value m buf lo hi = Some (sig_val (chunk (buf + lo + 1) (hi - lo) m))"
proof -
  have c: "chunk (buf + lo + 1) (hi - lo) m = chunk (buf + lo + 1) (hi - 1 - lo) m @ [m ! (buf + hi)]"
  proof -
    have "hi - lo = Suc (hi - 1 - lo)" "buf + lo + 1 + (hi - 1 - lo) = buf + hi"
      using assms by auto
    then show ?thesis
      using assms by (simp add: chunk_def take_Suc_conv_app_nth)
  qed
  have "mp_more m (buf + lo) (hi - 1 - lo) (sig_val [m ! (buf + hi)])
      = Some (sig_val (chunk (buf + lo + 1) (hi - 1 - lo) m @ [m ! (buf + hi)]))"
    by (rule mp_more_spec) (use assms in auto)
  then show ?thesis
    using assms c by (simp add: mp_value_def mem_at_def)
qed

lemma mp_value_sig:
  assumes "in_s64 x" "chunk (buf + lo + 1) (length (sig_bytes x)) m = sig_bytes x"
  shows "mp_value m buf lo (lo + length (sig_bytes x)) = Some x"
proof -
  have "min L (n - p) = L \<Longrightarrow> 0 < L \<Longrightarrow> p + L \<le> n" for L n p :: nat
    by linarith
  from this [of "length (sig_bytes x)" "length m" "buf + lo + 1"] assms(2)
  have "buf + (lo + length (sig_bytes x)) < length m"
    using length_chunk [of "buf + lo + 1" "length (sig_bytes x)" m] by simp
  then show ?thesis
    using mp_value_spec [of lo "lo + length (sig_bytes x)" buf m] assms sig_val_sig_bytes by simp
qed

section \<open>The array of a runlist\<close>

definition pair_bytes :: "int \<Rightarrow> int option \<Rightarrow> bytes" where
  "pair_bytes n lcn =
     (let l = (case lcn of None \<Rightarrow> [] | Some x \<Rightarrow> sig_bytes x)
      in word_of_nat (length l * 16 + length (sig_bytes n)) # sig_bytes n @ l)"

definition lcn_change :: "nat \<Rightarrow> int \<Rightarrow> runlist_element \<Rightarrow> int option" where
  "lcn_change ver prev r = (if stores_lcn ver r then Some (s64 (rl_lcn r - prev)) else None)"

definition next_prev :: "nat \<Rightarrow> int \<Rightarrow> runlist_element \<Rightarrow> int" where
  "next_prev ver prev r = (if stores_lcn ver r then rl_lcn r else prev)"

fun mp_bytes :: "nat \<Rightarrow> int \<Rightarrow> runlist \<Rightarrow> bytes" where
  "mp_bytes ver prev [] = []"
| "mp_bytes ver prev (r # rs) = pair_bytes (rl_length r) (lcn_change ver prev r) @ mp_bytes ver (next_prev ver prev r) rs"

lemma pair_bytes_nonempty [simp]: "pair_bytes n lcn \<noteq> []"
  by (simp add: pair_bytes_def Let_def)

lemma blit_head:
  "dst + length xs + 1 \<le> length b \<Longrightarrow> (blit b (dst + 1) xs)[dst := y] = blit b dst (y # xs)"
  by (rule nth_equalityI) (auto simp: nth_blit nth_list_update nth_Cons')

lemma build_pair_ok:
  assumes "dst + length (pair_bytes n lcn) < length buf"
  shows "build_pair buf dst n lcn = (blit buf dst (pair_bytes n lcn), Some (dst + length (pair_bytes n lcn)))"
proof -
  define l where "l = (case lcn of None \<Rightarrow> [] | Some x \<Rightarrow> sig_bytes x)"
  have len: "length (pair_bytes n lcn) = 1 + length (sig_bytes n) + length l"
    by (simp add: pair_bytes_def Let_def l_def)
  let ?b1 = "blit buf (dst + 1) (sig_bytes n)"
  have w1: "ntfs_write_significant_bytes buf (dst + 1) n = (?b1, Some (length (sig_bytes n)))"
    by (rule write_sig_ok) (use assms len in simp)
  have l1: "length ?b1 = length buf"
    using assms len by simp
  have w2: "(case lcn of None \<Rightarrow> (?b1, Some 0) | Some x \<Rightarrow> ntfs_write_significant_bytes ?b1 (dst + 1 + length (sig_bytes n)) x)
      = (blit ?b1 (dst + 1 + length (sig_bytes n)) l, Some (length l))"
    using assms len l1 write_sig_ok [of "dst + 1 + length (sig_bytes n)" _ ?b1]
    by (cases lcn) (simp_all add: l_def)
  have b2: "blit ?b1 (dst + 1 + length (sig_bytes n)) l = blit buf (dst + 1) (sig_bytes n @ l)"
    using assms len by (intro nth_equalityI) (auto simp: nth_blit nth_append)
  have hd: "(blit buf (dst + 1) (sig_bytes n @ l))[dst := word_of_nat (length l * 16 + length (sig_bytes n))]
      = blit buf dst (pair_bytes n lcn)"
    by (subst blit_head) (use assms len in \<open>simp_all add: pair_bytes_def Let_def l_def\<close>)
  have "length (blit buf (dst + 1) (sig_bytes n @ l)) = length buf"
    using assms len by simp
  then show ?thesis
    unfolding build_pair_def w1 prod.case option.case w2 Let_def b2 hd using assms len by simp
qed

lemma build_pair_full:
  assumes "length buf \<le> dst + length (pair_bytes n lcn)"
  shows "\<exists>b. build_pair buf dst n lcn = (b, None) \<and> length b = length buf \<and> (\<forall>k < dst. b ! k = buf ! k)"
proof (cases "dst + 1 + length (sig_bytes n) \<le> length buf")
  case False
  then show ?thesis
    using write_sig_full [of buf "dst + 1" n] by (force simp: build_pair_def)
next
  case True
  let ?b1 = "blit buf (dst + 1) (sig_bytes n)"
  have w1: "ntfs_write_significant_bytes buf (dst + 1) n = (?b1, Some (length (sig_bytes n)))"
    by (rule write_sig_ok) (use True in simp)
  have l1: "length ?b1 = length buf" "\<And>k. k < dst \<Longrightarrow> ?b1 ! k = buf ! k"
    using True by (auto simp: nth_blit)
  show ?thesis
  proof (cases lcn)
    case None
    then show ?thesis
      using assms l1 unfolding build_pair_def w1 by (auto simp: pair_bytes_def)
  next
    case (Some x)
    show ?thesis
    proof (cases "dst + 1 + length (sig_bytes n) + length (sig_bytes x) \<le> length buf")
      case False
      then show ?thesis
        using write_sig_full [of ?b1 "dst + 1 + length (sig_bytes n)" x] l1 Some unfolding build_pair_def w1 by force
    next
      case fits: True
      let ?b2 = "blit ?b1 (dst + 1 + length (sig_bytes n)) (sig_bytes x)"
      have w2: "ntfs_write_significant_bytes ?b1 (dst + 1 + length (sig_bytes n)) x = (?b2, Some (length (sig_bytes x)))"
        by (rule write_sig_ok) (use fits l1 in simp)
      have "length ?b2 = length buf" "\<And>k. k < dst \<Longrightarrow> ?b2 ! k = buf ! k"
        using fits l1 True by (auto simp: nth_blit)
      then show ?thesis
        using assms Some unfolding build_pair_def w1 by (auto simp: pair_bytes_def Let_def w2 [simplified])
    qed
  qed
qed

section \<open>What the build does\<close>

text \<open>The runlist has a terminator and no run before it is bad.\<close>

fun runs_good :: "runlist \<Rightarrow> bool" where
  "runs_good [] \<longleftrightarrow> False"
| "runs_good (r # rs) \<longleftrightarrow> rl_length r = 0 \<or> \<not> bad_run r \<and> runs_good rs"

lemma build_loop_Cons:
  "rl_length r \<noteq> 0 \<Longrightarrow> \<not> bad_run r \<Longrightarrow> build_loop ver buf dst (r # rs) prev =
     (case build_pair buf dst (rl_length r) (lcn_change ver prev r) of
        (b, None) \<Rightarrow> put_end (Some ENOSPC) b dst (Some (r # rs))
      | (b, Some dst') \<Rightarrow> build_loop ver b dst' rs (next_prev ver prev r))"
  unfolding lcn_change_def next_prev_def build_loop.simps by (simp only: if_False)

text \<open>At every end of the loop the buffer holds the array of the runs before \<open>stop_rl\<close>, terminated.\<close>

lemma build_loop_spec:
  "runs_good rl \<Longrightarrow> dst < length buf \<Longrightarrow>
   \<exists>pre suf b. rl = pre @ suf \<and> suf \<noteq> [] \<and> (\<forall>r \<in> set pre. rl_length r \<noteq> 0)
     \<and> build_loop ver buf dst rl prev = ((if rl_length (hd suf) = 0 then None else Some ENOSPC), b, Some suf)
     \<and> length b = length buf \<and> dst + length (mp_bytes ver prev pre) < length buf
     \<and> (rl_length (hd suf) \<noteq> 0 \<longrightarrow> length buf \<le> dst + length (mp_bytes ver prev (pre @ [hd suf])))
     \<and> chunk dst (length (mp_bytes ver prev pre) + 1) b = mp_bytes ver prev pre @ [0]
     \<and> (\<forall>k < dst. b ! k = buf ! k)"
proof (induction rl arbitrary: dst buf prev)
  case Nil
  then show ?case by simp
next
  case (Cons r rs)
  have term0: "chunk dst 1 (b[dst := 0]) = [0]" if "dst < length b" for b :: bytes
    using that by (simp add: chunk_def take_Suc_conv_app_nth)
  show ?case
  proof (cases "rl_length r = 0")
    case True
    then show ?thesis
      using Cons.prems term0
      by (intro exI [of _ "[]"] exI [of _ "r # rs"] exI [of _ "buf[dst := 0]"]) (auto simp: put_end_def)
  next
    case False
    define p where "p = pair_bytes (rl_length r) (lcn_change ver prev r)"
    have good: "\<not> bad_run r" "runs_good rs"
      using Cons.prems False by auto
    show ?thesis
    proof (cases "dst + length p < length buf")
      case fits: True
      let ?b = "blit buf dst p"
      have step: "build_loop ver buf dst (r # rs) prev = build_loop ver ?b (dst + length p) rs (next_prev ver prev r)"
        using build_pair_ok [of dst "rl_length r" "lcn_change ver prev r" buf] fits False good
        by (simp add: p_def [symmetric] build_loop_Cons del: build_loop.simps)
      have lb: "length ?b = length buf" using fits by simp
      obtain pre suf b where IH: "rs = pre @ suf" "suf \<noteq> []" "\<forall>r \<in> set pre. rl_length r \<noteq> 0"
        "build_loop ver ?b (dst + length p) rs (next_prev ver prev r)
            = ((if rl_length (hd suf) = 0 then None else Some ENOSPC), b, Some suf)"
        "length b = length ?b" "dst + length p + length (mp_bytes ver (next_prev ver prev r) pre) < length ?b"
        "rl_length (hd suf) \<noteq> 0 \<longrightarrow>
           length ?b \<le> dst + length p + length (mp_bytes ver (next_prev ver prev r) (pre @ [hd suf]))"
        "chunk (dst + length p) (length (mp_bytes ver (next_prev ver prev r) pre) + 1) b
            = mp_bytes ver (next_prev ver prev r) pre @ [0]"
        "\<forall>k < dst + length p. b ! k = ?b ! k"
        using Cons.IH [of "dst + length p" ?b "next_prev ver prev r"] good fits lb by auto
      let ?q = "mp_bytes ver (next_prev ver prev r) pre"
      have "chunk dst (length p) b = chunk dst (length p) ?b"
        using IH(5,9) fits by (intro chunk_eqI) auto
      also have "\<dots> = p"
        by (rule chunk_blit_same) (use fits in simp)
      finally have "chunk dst (length p + (length ?q + 1)) b = p @ ?q @ [0]"
        using IH(8) chunk_append [of dst "length p" b "length ?q + 1"] by simp
      moreover have "\<forall>k < dst. b ! k = buf ! k"
        using IH(9) fits by (auto simp: nth_blit)
      ultimately show ?thesis
        using IH lb False step p_def
        by (intro exI [of _ "r # pre"] exI [of _ suf] exI [of _ b]) (auto simp: add.assoc)
    next
      case full: False
      obtain b where b: "build_pair buf dst (rl_length r) (lcn_change ver prev r) = (b, None)" "length b = length buf"
          "\<forall>k < dst. b ! k = buf ! k"
        using build_pair_full [of buf dst "rl_length r" "lcn_change ver prev r"] full by (auto simp: p_def)
      then have "build_loop ver buf dst (r # rs) prev = (Some ENOSPC, b[dst := 0], Some (r # rs))"
        using False good Cons.prems by (simp add: build_loop_Cons put_end_def del: build_loop.simps)
      then show ?thesis
        using False full b Cons.prems term0
        by (intro exI [of _ "[]"] exI [of _ "r # rs"] exI [of _ "b[dst := 0]"])
          (auto simp: p_def nth_list_update)
    qed
  qed
qed

section \<open>What the size is\<close>

lemma size_loop_spec:
  "runs_good rl \<Longrightarrow> rls + int (length (mp_bytes ver prev (rl_runs rl))) \<le> max_size \<Longrightarrow>
   size_loop ver max_size rls rl prev = Inr (rls + int (length (mp_bytes ver prev (rl_runs rl))))"
proof (induction rl arbitrary: rls prev)
  case Nil
  then show ?case by simp
next
  case (Cons r rs)
  show ?case
  proof (cases "rl_length r = 0")
    case True
    then show ?thesis by (simp add: rl_runs_def)
  next
    case False
    let ?p = "pair_bytes (rl_length r) (lcn_change ver prev r)"
    have runs: "rl_runs (r # rs) = r # rl_runs rs"
      using False by (simp add: rl_runs_def)
    have good: "\<not> bad_run r" "runs_good rs" "\<not> rls > max_size"
      using Cons.prems False by auto
    have len: "int (length ?p) = 1 + int (ntfs_get_nr_significant_bytes (rl_length r)) +
        (if stores_lcn ver r then int (ntfs_get_nr_significant_bytes (s64 (rl_lcn r - prev))) else 0)"
      by (simp add: pair_bytes_def Let_def lcn_change_def nr_significant_eq)
    have "size_loop ver max_size (rls + int (length ?p)) rs (next_prev ver prev r)
        = Inr (rls + int (length ?p) + int (length (mp_bytes ver (next_prev ver prev r) (rl_runs rs))))"
      by (rule Cons.IH) (use Cons.prems good runs in auto)
    moreover have "size_loop ver max_size rls (r # rs) prev
        = size_loop ver max_size (rls + int (length ?p)) rs (next_prev ver prev r)"
      using False good unfolding len next_prev_def by (simp add: algebra_simps Let_def)
    ultimately show ?thesis
      unfolding runs by (simp add: algebra_simps)
  qed
qed

section \<open>What the loop reads\<close>

text \<open>Runs that can be stored and read back: positive lengths, clusters that lie on a volume.\<close>

definition run_fits :: "runlist_element \<Rightarrow> bool" where
  "run_fits r \<longleftrightarrow> 0 < rl_length r \<and> rl_length r < 2 ^ 62 \<and> - 1 \<le> rl_lcn r \<and> rl_lcn r < 2 ^ 62"

lemma chunk_append_left: "chunk i n m = xs @ ys \<Longrightarrow> chunk i (length xs) m = xs"
  by (metis append_eq_conv_conj chunk_def length_append length_chunk min.absorb_iff1 min.cobounded1 take_take le_add1 chunk_full)

lemma chunk_append_right: "chunk i n m = xs @ ys \<Longrightarrow> chunk (i + length xs) (length ys) m = ys"
proof -
  assume a: "chunk i n m = xs @ ys"
  then have n: "length xs + length ys \<le> n"
    using length_chunk [of i n m] by simp
  have "chunk (length xs) (length ys) (chunk i n m) = ys"
    unfolding a by (simp add: chunk_def)
  then show ?thesis
    using chunk_chunk [of "length xs" "length ys" n i m] n by simp
qed

lemma chunk_nonempty: "chunk i n m = x # xs \<Longrightarrow> i < length m \<and> m ! i = x"
  by (cases "i < length m") (auto simp: chunk_def take_Cons' Cons_nth_drop_Suc [symmetric] split: if_splits)

lemma mp_pair_ok:
  assumes r: "run_fits r" and prev: "- 1 \<le> prev" "prev < 2 ^ 62"
    and c: "chunk buf (length (pair_bytes (rl_length r) (lcn_change ver prev r))) m
      = pair_bytes (rl_length r) (lcn_change ver prev r)"
    and e: "buf + length (pair_bytes (rl_length r) (lcn_change ver prev r)) \<le> attr_end + 1"
  shows "buf < length m" "m ! buf \<noteq> 0"
    "mp_pair m attr_end buf (unat (m ! buf)) prev = Inr (rl_length r, rl_lcn r, next_prev ver prev r)"
    "unat (m ! buf) mod 16 + unat (m ! buf) div 16 + 1 = length (pair_bytes (rl_length r) (lcn_change ver prev r))"
proof -
  define n where "n = sig_bytes (rl_length r)"
  define l where "l = (case lcn_change ver prev r of None \<Rightarrow> [] | Some x \<Rightarrow> sig_bytes x)"
  define h where "h = length l * 16 + length n"
  have len_r: "in_s64 (rl_length r)" "in_s64 (rl_lcn r - prev)"
    using r prev by (auto simp: run_fits_def in_s64_def)
  have ln: "0 < length n" "length n \<le> 8"
    using length_sig_bytes_s64 [OF len_r(1)] by (simp_all add: n_def)
  have ll: "length l \<le> 8"
    using length_sig_bytes_s64 [of "s64 (rl_lcn r - prev)"] by (simp add: l_def lcn_change_def)
  have p: "pair_bytes (rl_length r) (lcn_change ver prev r) = word_of_nat h # n @ l"
    by (simp add: pair_bytes_def Let_def n_def l_def h_def)
  have at: "buf < length m \<and> m ! buf = word_of_nat h"
    using chunk_nonempty [of buf _ m] c unfolding p by blast
  have hn: "unat (m ! buf) = h"
  proof -
    have "h < 256" using ln ll by (simp add: h_def)
    then have "unat (word_of_nat h :: u8) = h" by (simp add: unat_of_nat)
    then show ?thesis using at by simp
  qed
  have hm: "h mod 16 = length n" "h div 16 = length l"
    using ln by (simp_all add: h_def)
  show "buf < length m" using at by blast
  show "m ! buf \<noteq> 0"
    using hn ln by (metis h_def add_is_0 less_numeral_extra(3) unat_0)
  show "unat (m ! buf) mod 16 + unat (m ! buf) div 16 + 1 = length (pair_bytes (rl_length r) (lcn_change ver prev r))"
    unfolding hn hm p by simp
  have c1: "chunk (buf + 1) (length (n @ l)) m = n @ l"
    using chunk_append_right [of buf _ m "[word_of_nat h]" "n @ l"] c unfolding p by simp
  have vn: "mp_value m buf 0 (length n) = Some (rl_length r)"
    using mp_value_sig [OF len_r(1), of buf 0 m] chunk_append_left [OF c1] by (simp add: n_def)
  have e': "\<not> buf + length n > attr_end" "\<not> buf + (length n + length l) > attr_end"
    using e unfolding p by simp_all
  have pos: "0 < rl_length r" using r by (simp add: run_fits_def)
  show "mp_pair m attr_end buf (unat (m ! buf)) prev = Inr (rl_length r, rl_lcn r, next_prev ver prev r)"
  proof (cases "stores_lcn ver r")
    case False
    then have "l = []" "rl_lcn r = LCN_HOLE"
      using r by (auto simp: l_def lcn_change_def stores_lcn_def run_fits_def LCN_HOLE_def)
    then show ?thesis
      using e' vn pos ln False unfolding mp_pair_def hn Let_def hm by (simp add: next_prev_def)
  next
    case True
    then have l: "l = sig_bytes (rl_lcn r - prev)"
      using len_r by (simp add: l_def lcn_change_def)
    have vl: "mp_value m buf (length n) (length n + length l) = Some (rl_lcn r - prev)"
      using mp_value_sig [OF len_r(2), of buf "length n" m] chunk_append_right [OF c1]
      by (simp add: l add.commute add.left_commute)
    have lcn: "s64 (prev + (rl_lcn r - prev)) = rl_lcn r" "\<not> rl_lcn r < - 1"
      using r by (simp_all add: run_fits_def in_s64_def)
    have "0 < length l" by (simp add: l)
    then show ?thesis
      using e' vn vl pos ln lcn True unfolding mp_pair_def hn Let_def hm by (simp add: next_prev_def)
  qed
qed

lemma mp_loop_end: "buf < attr_end \<Longrightarrow> buf < length m \<Longrightarrow> m ! buf = 0 \<Longrightarrow>
    mp_loop alloc m attr_end buf vcn lcn rl rlpos sz = Inr (rl, rlpos, vcn, buf)"
  by (simp add: mp_loop.simps [of alloc m attr_end buf] mem_at_def)

lemma mp_loop_ok:
  "contig vcn rs vend \<Longrightarrow> 0 \<le> vcn \<Longrightarrow> vend < 2 ^ 62 \<Longrightarrow> \<forall>r \<in> set rs. run_fits r \<Longrightarrow> - 1 \<le> prev \<Longrightarrow> prev < 2 ^ 62 \<Longrightarrow>
   (\<And>n. alloc n) \<Longrightarrow> chunk buf (length (mp_bytes ver prev rs) + 1) m = mp_bytes ver prev rs @ [0] \<Longrightarrow>
   buf + length (mp_bytes ver prev rs) < attr_end \<Longrightarrow> length rl + length rs < 65536 \<Longrightarrow>
   mp_loop alloc m attr_end buf vcn prev rl (length rl) sz
     = Inr (rl @ rs, length rl + length rs, vend, buf + length (mp_bytes ver prev rs))"
proof (induction rs arbitrary: vcn prev buf rl sz)
  case Nil
  then show ?case
    using chunk_nonempty [of buf 1 m 0 "[]"] by (simp add: mp_loop_end)
next
  case (Cons r rs)
  define p where "p = pair_bytes (rl_length r) (lcn_change ver prev r)"
  let ?q = "mp_bytes ver (next_prev ver prev r) rs"
  have r: "run_fits r" "rl_vcn r = vcn" "contig (vcn + rl_length r) rs vend"
    using Cons.prems by auto
  have all: "chunk buf (length (p @ ?q @ [0])) m = p @ ?q @ [0]"
    using Cons.prems(8) by (simp add: p_def)
  have cp: "chunk buf (length p) m = p"
    using chunk_append_left [OF all] .
  have cq: "chunk (buf + length p) (length (?q @ [0])) m = ?q @ [0]"
    using chunk_append_right [OF all] .
  note pair = mp_pair_ok [OF r(1) Cons.prems(5,6) cp [unfolded p_def], folded p_def]
  have e: "buf + length p \<le> attr_end + 1" "buf < attr_end" "buf + length p + length ?q < attr_end"
    using Cons.prems(9) by (simp_all add: p_def)
  have vle: "vcn + rl_length r \<le> vend"
  proof -
    have "contig a xs b \<Longrightarrow> a \<le> b" for a b xs
      by (induction xs arbitrary: a) force+
    then show ?thesis using r(3) by blast
  qed
  have vcn: "s64 (vcn + rl_length r) = vcn + rl_length r"
    using vle Cons.prems r by (intro s64_id) (auto simp: in_s64_def run_fits_def)
  have rr: "\<lparr>rl_vcn = vcn, rl_lcn = rl_lcn r, rl_length = rl_length r\<rparr> = r"
    using r(2) by simp
  have put: "rl_put rl (length rl) r = rl @ [r]" "next_pos (length rl) = length (rl @ [r])"
    using Cons.prems(10) by (simp_all add: rl_put_def next_pos_def)
  have adv: "Suc (buf + unat (m ! buf) mod 16 + unat (m ! buf) div 16) = buf + length p"
    using pair(4) [OF e(1)] by simp
  have "mp_loop alloc m attr_end buf vcn prev rl (length rl) sz
      = mp_loop alloc m attr_end (buf + length p) (vcn + rl_length r) (next_prev ver prev r)
          (rl @ [r]) (length (rl @ [r])) (if (length rl + 3) * 24 > sz then sz + 4096 else sz)"
    using pair(1,2) [OF e(1)] e(2) Cons.prems(7)
    unfolding mp_loop.simps [of alloc m attr_end buf] mem_at_def Let_def
    by (simp add: pair(3) [OF e(1)] vcn adv rr put del: Suc_eq_plus1 length_append)
  also have "\<dots> = Inr ((rl @ [r]) @ rs, length (rl @ [r]) + length rs, vend, buf + length p + length ?q)"
    by (rule Cons.IH) (use Cons.prems r cq e in \<open>auto simp: next_prev_def run_fits_def\<close>)
  finally show ?case
    by (simp add: p_def)
qed

section \<open>Properties\<close>

lemma rl_skip_start:
  "rl_vcn r = a \<Longrightarrow> contig a (r # rs) b \<Longrightarrow> rl_skip a (r # rs @ [rle b l 0]) = Some (r # rs @ [rle b l 0])"
  by (cases rs) auto

lemma runs_good_append:
  "\<forall>r \<in> set rs. run_fits r \<Longrightarrow> rl_length t = 0 \<Longrightarrow> runs_good (rs @ [t])"
  by (induction rs) (auto simp: run_fits_def bad_run_def LCN_HOLE_def)

lemma runs_of_good_append:
  "\<forall>r \<in> set rs. run_fits r \<Longrightarrow> rl_length t = 0 \<Longrightarrow> rl_runs (rs @ [t]) = rs"
  by (induction rs) (auto simp: run_fits_def rl_runs_def)

lemma build_start:
  assumes "contig 0 rs b" "\<forall>r \<in> set rs. run_fits r"
  shows "ntfs_mapping_pairs_build ver buf (Some (rs @ [rle b l 0])) 0 = build_loop ver buf 0 (rs @ [rle b l 0]) 0"
proof (cases rs)
  case Nil
  then show ?thesis using assms by (simp add: ntfs_mapping_pairs_build_def bad_start_def)
next
  case (Cons r rs')
  have "rl_vcn r = 0" "rl_length r > 0"
    using assms Cons by auto
  then show ?thesis
    using rl_skip_start [of r 0 rs' b l] assms(1) Cons by (simp add: ntfs_mapping_pairs_build_def bad_start_def)
qed

lemma size_start:
  assumes "contig 0 rs b" "\<forall>r \<in> set rs. run_fits r"
  shows "ntfs_get_size_for_mapping_pairs ver (Some (rs @ [rle b l 0])) 0 max_size
    = size_loop ver max_size 1 (rs @ [rle b l 0]) 0"
proof (cases rs)
  case Nil
  then show ?thesis using assms by (simp add: ntfs_get_size_for_mapping_pairs_def bad_start_def)
next
  case (Cons r rs')
  have "rl_vcn r = 0" "rl_length r > 0"
    using assms Cons by auto
  then show ?thesis
    using rl_skip_start [of r 0 rs' b l] assms(1) Cons
    by (simp add: ntfs_get_size_for_mapping_pairs_def bad_start_def)
qed

text \<open>
  C27. The size is right: for a runlist of storable runs from cluster 0, what
  \<open>ntfs_get_size_for_mapping_pairs\<close> computes is exactly the number of bytes \<open>ntfs_mapping_pairs_build\<close>
  needs. With at least that many bytes the build succeeds, has stored all runs and ends with the
  zero byte; with fewer it reports \<open>ENOSPC\<close>, and what it leaves in the buffer is the terminated array
  of the runs before \<open>stop_rl\<close>, which is never more than the buffer holds.
\<close>

theorem mapping_pairs_size_exact:
  assumes "contig 0 rs vend" "\<forall>r \<in> set rs. run_fits r"
    and "ntfs_get_size_for_mapping_pairs ver (Some (rs @ [rle vend l 0])) 0 max_size = Inr n" "n \<le> max_size"
    and "0 < length buf"
  shows "\<exists>pre suf b. rs = pre @ suf
    \<and> ntfs_mapping_pairs_build ver buf (Some (rs @ [rle vend l 0])) 0
        = ((if n \<le> int (length buf) then None else Some ENOSPC), b, Some (suf @ [rle vend l 0]))
    \<and> (n \<le> int (length buf) \<longrightarrow> suf = []) \<and> length b = length buf
    \<and> take (length (mp_bytes ver 0 pre) + 1) b = mp_bytes ver 0 pre @ [0]"
proof -
  let ?rl = "rs @ [rle vend l 0]"
  have good: "runs_good ?rl" and runs: "rl_runs ?rl = rs"
    using runs_good_append [OF assms(2)] runs_of_good_append [OF assms(2)] by simp_all
  have n: "n = 1 + int (length (mp_bytes ver 0 rs))"
  proof -
    have mono: "size_loop ver max_size rls rl prev = Inr n \<Longrightarrow> n \<le> max_size \<Longrightarrow>
        n = rls + int (length (mp_bytes ver prev (rl_runs rl)))" for rls rl prev
    proof (induction rl arbitrary: rls prev)
      case (Cons r rl)
      show ?case
      proof (cases "rl_length r = 0")
        case True
        then show ?thesis using Cons.prems by (simp add: rl_runs_def)
      next
        case False
        then have "\<not> rls > max_size" "\<not> bad_run r"
          using Cons.prems by (auto split: if_splits)
        then have "size_loop ver max_size (rls + int (length (pair_bytes (rl_length r) (lcn_change ver prev r)))) rl
            (next_prev ver prev r) = Inr n"
          using Cons.prems False
          by (auto simp: pair_bytes_def lcn_change_def next_prev_def nr_significant_eq Let_def algebra_simps split: if_splits)
        from Cons.IH [OF this Cons.prems(2)] show ?thesis
          using False by (simp add: rl_runs_def)
      qed
    qed simp
    show ?thesis
      using mono [of 1 ?rl 0] assms(3,4) size_start [OF assms(1,2)] runs by simp
  qed
  obtain pre suf b where s: "?rl = pre @ suf" "suf \<noteq> []" "\<forall>r \<in> set pre. rl_length r \<noteq> 0"
     "build_loop ver buf 0 ?rl 0 = ((if rl_length (hd suf) = 0 then None else Some ENOSPC), b, Some suf)"
     "length b = length buf" "length (mp_bytes ver 0 pre) < length buf"
     "rl_length (hd suf) \<noteq> 0 \<longrightarrow> length buf \<le> length (mp_bytes ver 0 (pre @ [hd suf]))"
     "chunk 0 (length (mp_bytes ver 0 pre) + 1) b = mp_bytes ver 0 pre @ [0]"
    using build_loop_spec [OF good assms(5), of ver 0, unfolded add_0] by blast
  obtain suf' where suf: "rs = pre @ suf'" "suf = suf' @ [rle vend l 0]"
    using s(1,2) by (metis append_eq_append_conv2 append_butlast_last_id butlast_append last_appendR last_snoc butlast_snoc)
  have app: "mp_bytes ver prev (xs @ ys) = mp_bytes ver prev xs @ mp_bytes ver (fold (\<lambda>r p. next_prev ver p r) xs prev) ys"
    for prev xs ys
    by (induction xs arbitrary: prev) simp_all
  have "rl_length (hd suf) = 0 \<longleftrightarrow> suf' = []"
  proof (cases suf')
    case (Cons r rs')
    then have "run_fits r" using assms(2) suf by simp
    then show ?thesis using Cons suf by (simp add: run_fits_def)
  qed (simp add: suf)
  moreover have "suf' = [] \<longleftrightarrow> n \<le> int (length buf)"
  proof (cases suf')
    case Nil
    then show ?thesis using s(6) suf n by simp
  next
    case (Cons r rs')
    then have "length (mp_bytes ver 0 (pre @ [r])) \<le> length (mp_bytes ver 0 rs)"
      using suf app [of 0 "pre @ [r]" rs'] by simp
    moreover have "rl_length (hd suf) \<noteq> 0"
      using \<open>rl_length (hd suf) = 0 \<longleftrightarrow> suf' = []\<close> Cons by simp
    ultimately show ?thesis
      using s(7) Cons suf n by auto
  qed
  ultimately show ?thesis
    using s suf build_start [OF assms(1,2)] by (auto simp: chunk_def)
qed

theorem mapping_pairs_size_exact_witness:
  "ntfs_get_size_for_mapping_pairs 3 (Some [rle 0 5 3, rle 3 (- 1) 4, rle 7 1000 300, rle 307 LCN_ENOENT 0]) 0 100 = Inr 11
   \<and> (\<exists>b stop. ntfs_mapping_pairs_build 3 (replicate 20 9)
         (Some [rle 0 5 3, rle 3 (- 1) 4, rle 7 1000 300, rle 307 LCN_ENOENT 0]) 0 = (None, b, stop))"
proof -
  let ?rs = "[rle 0 5 3, rle 3 (- 1) 4, rle 7 1000 300]"
  have s: "ntfs_get_size_for_mapping_pairs 3 (Some (?rs @ [rle 307 LCN_ENOENT 0])) 0 100 = Inr 11"
    by code_simp
  have fits: "contig 0 ?rs 307" "\<forall>r \<in> set ?rs. run_fits r"
    by (simp_all add: run_fits_def)
  obtain b stop where "ntfs_mapping_pairs_build 3 (replicate 20 9) (Some (?rs @ [rle 307 LCN_ENOENT 0])) 0 = (None, b, stop)"
    using mapping_pairs_size_exact [OF fits s, of "replicate 20 9"] by auto
  with s show ?thesis by simp
qed

text \<open>
  C12. Round trip: an attribute whose mapping pairs \<open>ntfs_mapping_pairs_build\<close> has written for a
  runlist from cluster 0, with the matching \<open>highest_vcn\<close> and \<open>allocated_size\<close>, is read back by
  \<open>ntfs_mapping_pairs_decompress\<close> as exactly that runlist, holes included, on every NTFS version.
\<close>

theorem mapping_pairs_roundtrip:
  assumes "contig 0 rs vend" "\<forall>r \<in> set rs. run_fits r" "rs \<noteq> []" "vend < 2 ^ 62" "length rs < 65536"
    and "ntfs_mapping_pairs_build ver buf (Some (rs @ [rle vend LCN_ENOENT 0])) 0 = (None, b, stop)" "0 < length buf"
    and "at_non_resident a" "at_lowest_vcn a = 0" "at_highest_vcn a = vend - 1"
    and "at_allocated_size a = vend * 2 ^ bits" "in_s64 (vend * 2 ^ bits + 2 ^ bits)"
    and "chunk (at_mapping_pairs_offset a) (length b) (at_mem a) = b"
    and "at_length a = at_mapping_pairs_offset a + length b" "\<forall>n. alloc n"
  shows "ntfs_mapping_pairs_decompress H alloc bits (Some a) None = Inr (Some (rs @ [rle vend LCN_ENOENT 0]))"
proof -
  let ?rl = "rs @ [rle vend LCN_ENOENT 0]" and ?o = "at_mapping_pairs_offset a"
  have good: "runs_good ?rl" using runs_good_append [OF assms(2)] by simp
  obtain pre suf b' where s: "?rl = pre @ suf" "suf \<noteq> []" "\<forall>r \<in> set pre. rl_length r \<noteq> 0"
     "build_loop ver buf 0 ?rl 0 = ((if rl_length (hd suf) = 0 then None else Some ENOSPC), b', Some suf)"
     "length b' = length buf" "length (mp_bytes ver 0 pre) < length buf"
     "chunk 0 (length (mp_bytes ver 0 pre) + 1) b' = mp_bytes ver 0 pre @ [0]"
    using build_loop_spec [OF good assms(7), of ver 0, unfolded add_0] by blast
  have b': "b' = b" "rl_length (hd suf) = 0"
    using s(4) assms(6) build_start [OF assms(1,2)] by (auto split: if_splits)
  have "pre = rs"
  proof -
    have "\<forall>r \<in> set rs. rl_length r \<noteq> 0" using assms(2) by (auto simp: run_fits_def)
    then have "takeWhile (\<lambda>r. rl_length r \<noteq> 0) ?rl = rs" by simp
    moreover have "takeWhile (\<lambda>r. rl_length r \<noteq> 0) (pre @ suf) = pre"
      using s(2,3) b'(2) by (cases suf) simp_all
    ultimately show ?thesis using s(1) by simp
  qed
  note s = s [unfolded this b'(1)]
  have c: "chunk ?o (length (mp_bytes ver 0 rs) + 1) (at_mem a) = mp_bytes ver 0 rs @ [0]"
    using s(5,6,7) assms(13) chunk_chunk [of 0 "length (mp_bytes ver 0 rs) + 1" "length b" ?o "at_mem a"] by simp
  have loop: "mp_loop alloc (at_mem a) (at_length a) ?o 0 0 [] 0 4096
      = Inr (rs, length rs, vend, ?o + length (mp_bytes ver 0 rs))"
    using mp_loop_ok [OF assms(1) _ assms(4,2), where prev = 0 and alloc = alloc and buf = ?o and m = "at_mem a"
        and ver = ver and attr_end = "at_length a" and rl = "[]" and sz = 4096]
      c assms(5,14,15) s(5,6) by simp
  have vend: "0 < vend"
  proof -
    have le: "contig a xs b \<Longrightarrow> a \<le> b" for a b xs
      by (induction xs arbitrary: a) force+
    have "contig a xs b \<Longrightarrow> xs \<noteq> [] \<Longrightarrow> a < b" for a b xs
      using le by (cases xs) force+
    then show ?thesis using assms(1,3) by blast
  qed
  have "(vend * 2 ^ bits + 2 ^ bits - 1) div 2 ^ bits = vend"
    by (rule int_div_pos_eq [of _ _ _ "2 ^ bits - 1"]) (simp_all add: mult.commute)
  moreover have "s64 (vend * 2 ^ bits + 2 ^ bits - 1) = vend * 2 ^ bits + 2 ^ bits - 1"
  proof -
    have "0 \<le> vend * 2 ^ bits" "(0 :: int) < 2 ^ bits" using vend by simp_all
    then show ?thesis
      using assms(12) by (intro s64_id) (simp only: in_s64_def, linarith)
  qed
  moreover have "s64 (vend - 1) = vend - 1"
    using vend assms(4) by (intro s64_id) (auto simp: in_s64_def)
  ultimately have fin: "mp_finish bits a rs (length rs) vend = Inr ?rl"
    by (simp add: mp_finish_def assms(9-11) rl_put_def Let_def)
  have "mapping_pairs_decode alloc bits a = Inr ?rl"
    using loop fin assms(8,9,14,15) s(5,6) by (simp add: mapping_pairs_decode_def Let_def)
  then show ?thesis by (simp add: ntfs_mapping_pairs_decompress_def)
qed

theorem mapping_pairs_roundtrip_witness:
  "ntfs_mapping_pairs_decompress demo_heap (\<lambda>n. True) 12
     (Some \<lparr>at_non_resident = True, at_lowest_vcn = 0, at_highest_vcn = 306, at_allocated_size = 307 * 2 ^ 12,
            at_mapping_pairs_offset = 1, at_length = 12,
            at_mem = 77 # [0x11, 3, 5, 0x01, 4, 0x22, 0x2c, 1, 0xe3, 3, 0]\<rparr>) None
   = Inr (Some ([rle 0 5 3, rle 3 (- 1) 4, rle 7 1000 300] @ [rle 307 LCN_ENOENT 0]))"
proof -
  let ?rs = "[rle 0 5 3, rle 3 (- 1) 4, rle 7 1000 300]"
  have b: "ntfs_mapping_pairs_build 3 (replicate 11 9) (Some (?rs @ [rle 307 LCN_ENOENT 0])) 0
      = (None, [0x11, 3, 5, 0x01, 4, 0x22, 0x2c, 1, 0xe3, 3, 0], Some [rle 307 LCN_ENOENT 0])"
    by code_simp
  have fits: "contig 0 ?rs 307" "\<forall>r \<in> set ?rs. run_fits r"
    by (simp_all add: run_fits_def)
  show ?thesis
    by (rule mapping_pairs_roundtrip [OF fits _ _ _ b]) (simp_all add: in_s64_def chunk_def)
qed

text \<open>
  The bounds check of the decompressor is off by one: a pair whose numbers end exactly at the end
  of the attribute passes \<open>buf + b > attr_end\<close>, and the byte behind the attribute is read. The record
  here is all the memory there is.
\<close>

lemma mapping_pairs_overread:
  "ntfs_mapping_pairs_decompress demo_heap (\<lambda>n. True) 12
     (Some \<lparr>at_non_resident = True, at_lowest_vcn = 0, at_highest_vcn = 0, at_allocated_size = 4096,
            at_mapping_pairs_offset = 2, at_length = 4, at_mem = [0, 0, 0x02, 5]\<rparr>) None = Inl FAULT"
  by (simp add: ntfs_mapping_pairs_decompress_def mapping_pairs_decode_def mp_loop.simps mem_at_def mp_pair_def
      mp_value_def Let_def)

text \<open>
  A zero-length pair is accepted in the middle of the array and becomes a terminator: the runs
  behind it are in the runlist that is returned, but no lookup finds them.
\<close>

lemma mapping_pairs_zero_run_hides_rest:
  "\<exists>rl. ntfs_mapping_pairs_decompress demo_heap (\<lambda>n. True) 12
     (Some \<lparr>at_non_resident = True, at_lowest_vcn = 0, at_highest_vcn = 3, at_allocated_size = 4 * 4096,
            at_mapping_pairs_offset = 0, at_length = 10,
            at_mem = [0x11, 2, 40, 0x01, 0, 0x11, 2, 20, 0, 0]\<rparr>) None = Inr (Some rl)
    \<and> rle 2 60 2 \<in> set rl \<and> ntfs_rl_vcn_to_lcn (Some rl) 3 \<noteq> Some 61"
proof -
  have "mapping_pairs_decode (\<lambda>n. True) 12 \<lparr>at_non_resident = True, at_lowest_vcn = 0, at_highest_vcn = 3,
      at_allocated_size = 4 * 4096, at_mapping_pairs_offset = 0, at_length = 10,
      at_mem = [0x11, 2, 40, 0x01, 0, 0x11, 2, 20, 0, 0]\<rparr>
    = Inr [rle 0 40 2, rle 2 (- 1) 0, rle 2 60 2, rle 4 LCN_ENOENT 0]"
    by (simp add: mapping_pairs_decode_def mp_loop.simps mem_at_def mp_pair_def mp_finish_def rl_put_def next_pos_def
        mp_value_def Let_def s64_def LCN_HOLE_def)
  then show ?thesis
    by (simp add: ntfs_mapping_pairs_decompress_def ntfs_rl_vcn_to_lcn_def)
qed

end
