(* ===== verification/RawSecIso.thy ===== *)
theory RawSecIso
  imports NtfsPrelude
begin

text \<open>
  The disc emulation plugin (\<open>source/rawseciso/main.c\<close>), first part: the image on the storage
  device as a list of sections, \<open>get_next_read\<close> and \<open>process_read_iso_cmd\<close>, which copies a byte range
  of the image into the buffer of the request by reading whole 512-byte sectors. Sections that start
  at sector \<open>0xFFFFFFFF\<close> are holes of a sparse image and read as zeros, as does everything behind
  the last section.

  The device read \<open>sys_storage_read\<close> is a system call: it is the parameter \<open>dev\<close>, which returns
  the call's status, the number of sectors it reports and the bytes it has stored. The unsigned
  integers of the code are natural numbers, reduced by \<open>u32\<close> and \<open>u64\<close> wherever the code stores a
  sum or a product. A buffer access outside the buffer is \<open>None\<close>.
\<close>

section \<open>The code\<close>

text \<open>\<open>dev sector n = (ret, r, data)\<close>: the status of the call, the sectors it reports, and what it
  stored.\<close>

type_synonym storage = "nat \<Rightarrow> nat \<Rightarrow> int \<times> nat \<times> bytes"

text \<open>The module's globals \<open>sections\<close> and \<open>sections_size\<close> (both of \<open>num_sections\<close> entries).\<close>

record iso_image =
  sections :: "nat list"
  sections_size :: "nat list"

fun gnr_scan :: "nat list \<Rightarrow> nat \<Rightarrow> nat \<Rightarrow> nat \<Rightarrow> nat \<Rightarrow> nat \<times> nat \<times> int" where
  "gnr_scan [] i base discoffset bufsize = (0, bufsize, - 1)"
| "gnr_scan (sz # szs) i base discoffset bufsize =
     (let last = u64 (base + sz * 512)
      in if base \<le> discoffset \<and> discoffset < last
         then (let maxfileread = last - discoffset
               in (discoffset - base, if bufsize > maxfileread then maxfileread else bufsize, int i))
         else gnr_scan szs (i + 1) (u64 (base + sz * 512)) discoffset bufsize)"

definition get_next_read :: "iso_image \<Rightarrow> nat \<Rightarrow> nat \<Rightarrow> nat \<times> nat \<times> int" where
  "get_next_read im discoffset bufsize = gnr_scan (sections_size im) 0 0 discoffset bufsize"

text \<open>The variables of one round of the loop: the buffer and the index \<open>buf\<close> points to, \<open>offset\<close>,
  \<open>pos\<close>, \<open>remaining\<close> and \<open>readsize\<close>.\<close>

record rd_state =
  rs_buf :: bytes
  rs_ptr :: nat
  rs_offset :: nat
  rs_pos :: nat
  rs_remaining :: nat
  rs_readsize :: nat

definition advance :: "rd_state \<Rightarrow> bytes \<Rightarrow> nat \<Rightarrow> rd_state" where
  "advance s b n = s \<lparr>rs_buf := b, rs_ptr := rs_ptr s + n, rs_offset := u64 (rs_offset s + n),
     rs_pos := u64 (rs_pos s + n), rs_remaining := rs_remaining s - n,
     rs_readsize := rs_readsize s - n\<rparr>"

text \<open>Result of a part of the round: \<open>Inl\<close> returns from the function, \<open>Inr\<close> goes on.\<close>

type_synonym rd_result = "((int \<times> bytes) + rd_state) option"

text \<open>The sector that holds a misaligned start (\<open>pos & 511\<close>).\<close>

definition iso_head :: "storage \<Rightarrow> nat \<Rightarrow> rd_state \<Rightarrow> rd_result" where
  "iso_head dev start s =
     (if rs_pos s mod 512 = 0 then Some (Inr s)
      else (case dev (u32 (start + rs_pos s div 512)) 1 of (ret, r, tmp) \<Rightarrow>
             if ret \<noteq> 0 \<or> r \<noteq> 1 then Some (Inl (- 1, rs_buf s))
             else (let csize0 = 512 - rs_pos s mod 512;
                       csize = (if csize0 > rs_readsize s then rs_readsize s else csize0)
                   in case mem_get (take 512 tmp) (rs_pos s mod 512) csize of None \<Rightarrow> None
                    | Some xs \<Rightarrow> (case mem_put (rs_buf s) (rs_ptr s) xs of None \<Rightarrow> None
                        | Some b \<Rightarrow> Some (Inr (advance s b csize))))))"

text \<open>The whole sectors, read straight into the buffer.\<close>

definition iso_body :: "storage \<Rightarrow> nat \<Rightarrow> rd_state \<Rightarrow> rd_result" where
  "iso_body dev start s =
     (let n = u32 (rs_readsize s div 512)
      in if n = 0 then Some (Inr s)
         else (case dev (u32 (start + rs_pos s div 512)) n of (ret, r, data) \<Rightarrow>
               (case mem_put (rs_buf s) (rs_ptr s) (take (n * 512) data) of None \<Rightarrow> None
                | Some b \<Rightarrow> if ret \<noteq> 0 \<or> r \<noteq> n then Some (Inl (- 1, b))
                    else Some (Inr (advance s b (u32 (n * 512)))))))"

text \<open>The sector of which only the start is wanted.\<close>

definition iso_tail :: "storage \<Rightarrow> nat \<Rightarrow> rd_state \<Rightarrow> rd_result" where
  "iso_tail dev start s =
     (if rs_readsize s = 0 then Some (Inr s)
      else (case dev (u32 (start + rs_pos s div 512)) 1 of (ret, r, tmp) \<Rightarrow>
             if ret \<noteq> 0 \<or> r \<noteq> 1 then Some (Inl (- 1, rs_buf s))
             else (case mem_get (take 512 tmp) 0 (rs_readsize s) of None \<Rightarrow> None
                    | Some xs \<Rightarrow> (case mem_put (rs_buf s) (rs_ptr s) xs of None \<Rightarrow> None
                        | Some b \<Rightarrow> Some (Inr (advance s b (rs_readsize s)))))))"

definition rd_bind :: "rd_result \<Rightarrow> (rd_state \<Rightarrow> rd_result) \<Rightarrow> rd_result" where
  "rd_bind m f = (case m of None \<Rightarrow> None | Some (Inl x) \<Rightarrow> Some (Inl x) | Some (Inr s) \<Rightarrow> f s)"

text \<open>A run of a section that is not a hole. The code guards the last two parts once more by
  \<open>readsize > 0\<close>, which each of them implies.\<close>

definition iso_data :: "storage \<Rightarrow> nat \<Rightarrow> rd_state \<Rightarrow> rd_result" where
  "iso_data dev start s =
     rd_bind (iso_head dev start s) (\<lambda>s. rd_bind (iso_body dev start s) (iso_tail dev start))"

text \<open>\<open>memset\<close> of a hole.\<close>

definition iso_zero :: "rd_state \<Rightarrow> rd_result" where
  "iso_zero s = (case mem_put (rs_buf s) (rs_ptr s) (replicate (rs_readsize s) 0) of None \<Rightarrow> None
     | Some b \<Rightarrow> Some (Inr (advance s b (rs_readsize s))))"

text \<open>One round of the loop. \<open>sections[idx]\<close> is read only for an index that \<open>get_next_read\<close> found.\<close>

definition iso_round :: "storage \<Rightarrow> iso_image \<Rightarrow> rd_state \<Rightarrow> rd_result" where
  "iso_round dev im s =
     (case get_next_read im (rs_offset s) (rs_remaining s) of (pos, readsize, idx) \<Rightarrow>
        if idx = - 1 then iso_zero (s \<lparr>rs_pos := pos, rs_readsize := readsize\<rparr>)
        else if length (sections im) \<le> nat idx then None
        else if sections im ! nat idx = 0xFFFFFFFF
          then iso_zero (s \<lparr>rs_pos := pos, rs_readsize := readsize\<rparr>)
        else iso_data dev (sections im ! nat idx) (s \<lparr>rs_pos := pos, rs_readsize := readsize\<rparr>))"

subsection \<open>Every round makes progress\<close>

lemma gnr_scan_pos:
  "0 < n \<Longrightarrow> gnr_scan szs i base off n = (pos, m, idx) \<Longrightarrow> 0 < m \<and> m \<le> n"
  by (induction szs i base off n rule: gnr_scan.induct) (auto simp: Let_def split: if_splits)

lemma rd_bind_Inr:
  "rd_bind m f = Some (Inr s') \<longleftrightarrow> (\<exists>s. m = Some (Inr s) \<and> f s = Some (Inr s'))"
  by (auto simp: rd_bind_def split: option.splits sum.splits)

lemma iso_head_le:
  "iso_head dev st s = Some (Inr s') \<Longrightarrow> rs_readsize s \<le> rs_remaining s \<Longrightarrow>
   \<exists>c \<le> rs_readsize s. rs_remaining s' = rs_remaining s - c \<and> rs_readsize s' = rs_readsize s - c"
  by (rule exI [of _ "if rs_pos s mod 512 = 0 then 0 else min (512 - rs_pos s mod 512) (rs_readsize s)"])
    (auto simp: min_def iso_head_def advance_def Let_def split: if_splits prod.splits option.splits)

lemma iso_body_le:
  assumes "iso_body dev st s = Some (Inr s')" "rs_readsize s \<le> rs_remaining s"
  shows "\<exists>c \<le> rs_readsize s. rs_remaining s' = rs_remaining s - c \<and> rs_readsize s' = rs_readsize s - c"
proof -
  have "u32 (u32 (rs_readsize s div 512) * 512) \<le> rs_readsize s"
    using u32_le [of "u32 (rs_readsize s div 512) * 512"] u32_le [of "rs_readsize s div 512"] by linarith
  then show ?thesis
    using assms by (auto simp: iso_body_def advance_def Let_def split: if_splits prod.splits option.splits)
qed

lemma iso_tail_le:
  "iso_tail dev st s = Some (Inr s') \<Longrightarrow> rs_remaining s' = rs_remaining s - rs_readsize s"
  by (auto simp: iso_tail_def advance_def split: if_splits prod.splits option.splits)

lemma iso_round_progress:
  assumes "iso_round dev im s = Some (Inr s')" "0 < rs_remaining s"
  shows "rs_remaining s' < rs_remaining s"
proof -
  obtain pos m idx where g: "get_next_read im (rs_offset s) (rs_remaining s) = (pos, m, idx)"
    using prod_cases3 by blast
  then have m: "0 < m" "m \<le> rs_remaining s"
    using gnr_scan_pos assms(2) unfolding get_next_read_def by blast+
  define s1 where "s1 = s \<lparr>rs_pos := pos, rs_readsize := m\<rparr>"
  have s1: "rs_remaining s1 = rs_remaining s" "rs_readsize s1 = m"
    by (simp_all add: s1_def)
  have "iso_zero s1 = Some (Inr s') \<or> (\<exists>st. iso_data dev st s1 = Some (Inr s'))"
    using assms(1) unfolding iso_round_def g prod.case s1_def [symmetric] by (auto split: if_splits)
  then consider (zero) "iso_zero s1 = Some (Inr s')"
    | (data) st s2 s3 where "iso_head dev st s1 = Some (Inr s2)"
        "iso_body dev st s2 = Some (Inr s3)" "iso_tail dev st s3 = Some (Inr s')"
    unfolding iso_data_def rd_bind_Inr by blast
  then show ?thesis
  proof cases
    case zero
    then show ?thesis using m s1 by (auto simp: iso_zero_def advance_def split: option.splits)
  next
    case data
    obtain c where c: "c \<le> m" "rs_remaining s2 = rs_remaining s - c" "rs_readsize s2 = m - c"
      using iso_head_le [OF data(1)] m s1 by auto
    obtain d where d: "d \<le> m - c" "rs_remaining s3 = rs_remaining s2 - d" "rs_readsize s3 = m - c - d"
      using iso_body_le [OF data(2)] c m that by (metis diff_le_mono)
    show ?thesis using iso_tail_le [OF data(3)] c d m by auto
  qed
qed

subsection \<open>The loop\<close>

function iso_loop :: "storage \<Rightarrow> iso_image \<Rightarrow> rd_state \<Rightarrow> (int \<times> bytes) option" where
  "iso_loop dev im s =
     (if rs_remaining s = 0 then Some (0, rs_buf s)
      else (case iso_round dev im s of None \<Rightarrow> None
            | Some (Inl x) \<Rightarrow> Some x
            | Some (Inr s') \<Rightarrow> iso_loop dev im s'))"
  by pat_completeness auto
termination
  by (relation "measure (\<lambda>(dev, im, s). rs_remaining s)") (auto simp: iso_round_progress)

declare iso_loop.simps [simp del]

text \<open>The request buffer is the part of \<open>buf\<close> from index \<open>ptr\<close>; the result is the return value and
  the buffer after the call.\<close>

definition process_read_iso_cmd ::
  "storage \<times> iso_image \<Rightarrow> bytes \<Rightarrow> nat \<Rightarrow> nat \<Rightarrow> nat \<Rightarrow> (int \<times> bytes) option" where
  "process_read_iso_cmd di buf ptr offset sz =
     iso_loop (fst di) (snd di)
       \<lparr>rs_buf = buf, rs_ptr = ptr, rs_offset = offset, rs_pos = 0, rs_remaining = sz, rs_readsize = 0\<rparr>"

section \<open>What the image contains\<close>

text \<open>\<open>img s\<close> is the content of device sector \<open>s\<close>. The byte at position \<open>p\<close> of a section, and the
  byte at an offset of the whole image.\<close>

definition section_byte :: "(nat \<Rightarrow> bytes) \<Rightarrow> nat \<Rightarrow> nat \<Rightarrow> u8" where
  "section_byte img st p = (if st = 0xFFFFFFFF then 0 else img (st + p div 512) ! (p mod 512))"

fun iso_byte :: "(nat \<Rightarrow> bytes) \<Rightarrow> nat list \<Rightarrow> nat list \<Rightarrow> nat \<Rightarrow> u8" where
  "iso_byte img (st # sts) (sz # szs) i =
     (if i < sz * 512 then section_byte img st i else iso_byte img sts szs (i - sz * 512))"
| "iso_byte img _ _ i = 0"

text \<open>A device that delivers what it reports, and one whose reads all succeed.\<close>

definition dev_honest :: "(nat \<Rightarrow> bytes) \<Rightarrow> storage \<Rightarrow> bool" where
  "dev_honest img dev \<longleftrightarrow> (\<forall>s n data. dev s n = (0, n, data) \<longrightarrow>
     length data = n * 512 \<and> (\<forall>i < n * 512. data ! i = img (s + i div 512) ! (i mod 512)))"

definition dev_live :: "storage \<Rightarrow> bool" where
  "dev_live dev \<longleftrightarrow> (\<forall>s n. \<exists>data. dev s n = (0, n, data))"

text \<open>The argument block fits the 32-bit sector numbers.\<close>

definition image_ok :: "iso_image \<Rightarrow> bool" where
  "image_ok im \<longleftrightarrow> length (sections im) = length (sections_size im) \<and>
     sum_list (sections_size im) * 512 < 2 ^ 63 \<and>
     (\<forall>k < length (sections im). sections im ! k = 0xFFFFFFFF \<or>
        sections im ! k + sections_size im ! k \<le> 2 ^ 32)"

section \<open>The search for the section\<close>

lemma gnr_scan_spec:
  assumes "base \<le> off" "base + sum_list szs * 512 < 2 ^ 63" "length sts = length szs" "0 < n"
  shows "(\<exists>k p. k < length szs \<and> p < szs ! k * 512
            \<and> gnr_scan szs i base off n = (p, min n (szs ! k * 512 - p), int (i + k))
            \<and> (\<forall>j < szs ! k * 512 - p. iso_byte img sts szs (off - base + j) = section_byte img (sts ! k) (p + j)))
       \<or> (gnr_scan szs i base off n = (0, n, - 1) \<and> (\<forall>j. iso_byte img sts szs (off - base + j) = 0))"
  using assms
proof (induction szs arbitrary: sts i base)
  case Nil
  then show ?case by simp
next
  case (Cons sz szs)
  obtain st sts' where sts: "sts = st # sts'" "length sts' = length szs"
    using Cons.prems(3) by (cases sts) auto
  have u: "u64 (base + sz * 512) = base + sz * 512"
    using Cons.prems(2) by (simp add: algebra_simps)
  show ?case
  proof (cases "off < base + sz * 512")
    case True
    then have "gnr_scan (sz # szs) i base off n = (off - base, min n (sz * 512 - (off - base)), int (i + 0))"
      using Cons.prems(1) by (auto simp: u Let_def)
    then show ?thesis
      using True Cons.prems(1) sts by (intro disjI1 exI [of _ 0] exI [of _ "off - base"]) auto
  next
    case False
    let ?b = "base + sz * 512"
    have g: "gnr_scan (sz # szs) i base off n = gnr_scan szs (i + 1) ?b off n"
      using False by (simp add: u Let_def)
    have byte: "iso_byte img sts (sz # szs) (off - base + j) = iso_byte img sts' szs (off - ?b + j)" for j
    proof -
      have "\<not> off - base + j < sz * 512" "off - base + j - sz * 512 = off - ?b + j"
        using False by linarith+
      then show ?thesis by (simp only: sts iso_byte.simps if_False)
    qed
    have IH: "(\<exists>k p. k < length szs \<and> p < szs ! k * 512
            \<and> gnr_scan szs (i + 1) ?b off n = (p, min n (szs ! k * 512 - p), int (i + 1 + k))
            \<and> (\<forall>j < szs ! k * 512 - p. iso_byte img sts' szs (off - ?b + j) = section_byte img (sts' ! k) (p + j)))
       \<or> (gnr_scan szs (i + 1) ?b off n = (0, n, - 1) \<and> (\<forall>j. iso_byte img sts' szs (off - ?b + j) = 0))"
      by (rule Cons.IH) (use False Cons.prems sts in \<open>auto simp: algebra_simps\<close>)
    show ?thesis
      using IH
    proof (elim disjE exE conjE)
      fix k p
      assume "k < length szs" "p < szs ! k * 512"
        "gnr_scan szs (i + 1) ?b off n = (p, min n (szs ! k * 512 - p), int (i + 1 + k))"
        "\<forall>j < szs ! k * 512 - p. iso_byte img sts' szs (off - ?b + j) = section_byte img (sts' ! k) (p + j)"
      then show ?thesis
        unfolding g byte by (intro disjI1 exI [of _ "Suc k"] exI [of _ p]) (simp add: sts)
    next
      assume "gnr_scan szs (i + 1) ?b off n = (0, n, - 1)" "\<forall>j. iso_byte img sts' szs (off - ?b + j) = 0"
      then show ?thesis
        unfolding g byte by blast
    qed
  qed
qed

section \<open>One section\<close>

definition fill :: "(nat \<Rightarrow> u8) \<Rightarrow> rd_state \<Rightarrow> nat \<Rightarrow> rd_state" where
  "fill g s n = advance s (blit (rs_buf s) (rs_ptr s) (map g [rs_pos s..<rs_pos s + n])) n"

definition frame :: "rd_state \<Rightarrow> bytes \<Rightarrow> bool" where
  "frame s b \<longleftrightarrow> length b = length (rs_buf s) \<and>
     (\<forall>k < length b. k < rs_ptr s \<or> rs_ptr s + rs_remaining s \<le> k \<longrightarrow> b ! k = rs_buf s ! k)"

definition st_ok :: "rd_state \<Rightarrow> bool" where
  "st_ok s \<longleftrightarrow> rs_ptr s + rs_remaining s \<le> length (rs_buf s) \<and> rs_readsize s \<le> rs_remaining s
     \<and> rs_remaining s < 2 ^ 32 \<and> rs_offset s + rs_remaining s < 2 ^ 64 \<and> rs_pos s + rs_readsize s < 2 ^ 64"

text \<open>A part of the round either fails, because a read failed, and leaves the bytes outside the
  request alone, or has copied the next \<open>n\<close> bytes of the content \<open>g\<close> of the section.\<close>

definition failed :: "storage \<Rightarrow> rd_state \<Rightarrow> rd_result \<Rightarrow> bool" where
  "failed dev s r \<longleftrightarrow> (\<exists>b. r = Some (Inl (- 1, b)) \<and> \<not> dev_live dev \<and> frame s b)"

lemma blit_blit_adjacent:
  "i + length xs + length ys \<le> length b \<Longrightarrow> blit (blit b i xs) (i + length xs) ys = blit b i (xs @ ys)"
  by (rule nth_equalityI) (auto simp: nth_blit nth_append)

lemma fill_0: "st_ok s \<Longrightarrow> fill g s 0 = s"
  by (simp add: fill_def advance_def st_ok_def)

lemma st_ok_fill: "st_ok s \<Longrightarrow> n \<le> rs_readsize s \<Longrightarrow> st_ok (fill g s n)"
  by (auto simp: fill_def advance_def st_ok_def)

lemma fill_fill:
  assumes "st_ok s" "n + m \<le> rs_readsize s"
  shows "fill g (fill g s n) m = fill g s (n + m)"
proof -
  have "map g [rs_pos s..<rs_pos s + n] @ map g [rs_pos s + n..<rs_pos s + n + m]
      = map g [rs_pos s..<rs_pos s + (n + m)]"
    by (simp only: map_append [symmetric] upt_add_eq_append [OF le_add1, symmetric] add.assoc [symmetric])
  moreover have "blit (blit (rs_buf s) (rs_ptr s) (map g [rs_pos s..<rs_pos s + n])) (rs_ptr s + n)
      (map g [rs_pos s + n..<rs_pos s + n + m])
    = blit (rs_buf s) (rs_ptr s) (map g [rs_pos s..<rs_pos s + n] @ map g [rs_pos s + n..<rs_pos s + n + m])"
    using blit_blit_adjacent [of "rs_ptr s" "map g [rs_pos s..<rs_pos s + n]"
        "map g [rs_pos s + n..<rs_pos s + n + m]" "rs_buf s"] assms
    by (simp add: st_ok_def)
  moreover have "u64 (rs_pos s + n) = rs_pos s + n" "u64 (rs_offset s + n) = rs_offset s + n"
    using assms by (simp_all add: st_ok_def)
  ultimately show ?thesis
    by (simp add: fill_def advance_def add.assoc)
qed

lemma fill_sel [simp]:
  "rs_remaining (fill g s n) = rs_remaining s - n" "rs_readsize (fill g s n) = rs_readsize s - n"
  by (simp_all add: fill_def advance_def)

lemma fill_pos: "st_ok s \<Longrightarrow> n \<le> rs_readsize s \<Longrightarrow> rs_pos (fill g s n) = rs_pos s + n"
  by (simp add: fill_def advance_def st_ok_def)

lemma frame_refl: "frame s (rs_buf s)"
  by (simp add: frame_def)

lemma frame_fill: "frame (fill g s n) b \<Longrightarrow> st_ok s \<Longrightarrow> n \<le> rs_readsize s \<Longrightarrow> frame s b"
  by (auto simp: frame_def fill_def advance_def st_ok_def nth_blit)

lemma failed_fill: "failed dev (fill g s n) r \<Longrightarrow> st_ok s \<Longrightarrow> n \<le> rs_readsize s \<Longrightarrow> failed dev s r"
  using frame_fill by (auto simp: failed_def)

text \<open>What a successful read of sectors gives of the section that starts at \<open>st\<close>.\<close>

definition sect_ok :: "nat \<Rightarrow> rd_state \<Rightarrow> bool" where
  "sect_ok st s \<longleftrightarrow> st \<noteq> 0xFFFFFFFF \<and> 512 * st + rs_pos s + rs_readsize s \<le> 512 * 2 ^ 32"

lemma sect_ok_fill: "sect_ok st s \<Longrightarrow> st_ok s \<Longrightarrow> n \<le> rs_readsize s \<Longrightarrow> sect_ok st (fill g s n)"
  by (simp add: sect_ok_def fill_pos)

lemma sect_ok_sector:
  assumes "sect_ok st s" "0 < rs_readsize s"
  shows "u32 (st + rs_pos s div 512) = st + rs_pos s div 512"
proof -
  have a: "512 * d \<le> p \<Longrightarrow> 512 * st + p + r \<le> 512 * m \<Longrightarrow> 0 < r \<Longrightarrow> st + d < m" for d p r m :: nat
    by linarith
  have "st + rs_pos s div 512 < 2 ^ 32"
    by (rule a [of _ "rs_pos s" "rs_readsize s"]) (use assms in \<open>simp_all add: sect_ok_def\<close>)
  then show ?thesis by (rule u32_id)
qed

lemma read_chunk:
  assumes h: "dev_honest img dev" and d: "dev (st + p div 512) n = (0, n, data)"
    and st: "st \<noteq> 0xFFFFFFFF" and c: "p mod 512 + c \<le> n * 512"
  shows "mem_get (take (n * 512) data) (p mod 512) c = Some (map (section_byte img st) [p..<p + c])"
proof -
  have l: "length data = n * 512"
    and b: "\<And>i. i < n * 512 \<Longrightarrow> data ! i = img (st + p div 512 + i div 512) ! (i mod 512)"
    using h d unfolding dev_honest_def by blast+
  have "chunk (p mod 512) c data ! k = map (section_byte img st) [p..<p + c] ! k" if "k < c" for k
  proof -
    have "(p + k) div 512 = p div 512 + (p mod 512 + k) div 512"
      using div_mult_self4 [of 512 "p div 512" "p mod 512 + k"]
      by (metis add.assoc mult_div_mod_eq numeral_eq_iff semiring_norm(85) zero_neq_numeral)
    moreover have "(p + k) mod 512 = (p mod 512 + k) mod 512"
      by (simp add: mod_simps)
    ultimately
    show ?thesis
      using that c st l b [of "p mod 512 + k"]
      by (simp add: nth_chunk section_byte_def add.assoc)
  qed
  then have "chunk (p mod 512) c data = map (section_byte img st) [p..<p + c]"
    using l c by (intro nth_equalityI) auto
  then show ?thesis
    using l c by (simp add: mem_get_def)
qed

lemma mem_put_ok: "st_ok s \<Longrightarrow> length xs \<le> rs_remaining s \<Longrightarrow>
   mem_put (rs_buf s) (rs_ptr s) xs = Some (blit (rs_buf s) (rs_ptr s) xs)"
  by (simp add: mem_put_def st_ok_def)


lemma iso_head_spec:
  assumes h: "dev_honest img dev" and s: "st_ok s" "sect_ok st s" "0 < rs_readsize s"
  shows "failed dev s (iso_head dev st s) \<or>
    (\<exists>n \<le> rs_readsize s. iso_head dev st s = Some (Inr (fill (section_byte img st) s n))
       \<and> (n = rs_readsize s \<or> (rs_pos s + n) mod 512 = 0))"
proof (cases "rs_pos s mod 512 = 0")
  case True
  then show ?thesis
    using s fill_0 [of s] by (intro disjI2 exI [of _ 0]) (simp add: iso_head_def)
next
  case False
  obtain ret r tmp where d: "dev (st + rs_pos s div 512) 1 = (ret, r, tmp)"
    using prod_cases3 by blast
  define c where "c = min (512 - rs_pos s mod 512) (rs_readsize s)"
  have c: "c \<le> rs_readsize s" "rs_pos s mod 512 + c \<le> 512"
    using mod_less_divisor [of 512 "rs_pos s"] by (auto simp: c_def)
  show ?thesis
  proof (cases "ret = 0 \<and> r = 1")
    case True
    have "mem_get (take (1 * 512) tmp) (rs_pos s mod 512) c
        = Some (map (section_byte img st) [rs_pos s..<rs_pos s + c])"
      by (rule read_chunk [OF h]) (use d True s c in \<open>auto simp: sect_ok_def\<close>)
    moreover have "(if 512 - rs_pos s mod 512 > rs_readsize s then rs_readsize s
        else 512 - rs_pos s mod 512) = c"
      by (auto simp: c_def)
    ultimately have "iso_head dev st s = Some (Inr (fill (section_byte img st) s c))"
      using False True d s c mem_put_ok [of s "map (section_byte img st) [rs_pos s..<rs_pos s + c]"]
      unfolding iso_head_def Let_def by (simp add: sect_ok_sector fill_def st_ok_def)
    moreover have "c = rs_readsize s \<or> (rs_pos s + c) mod 512 = 0"
    proof (cases "rs_readsize s \<le> 512 - rs_pos s mod 512")
      case False
      have gen: "512 * q + r = a \<Longrightarrow> r < 512 \<Longrightarrow> a + (512 - r) = 512 * (q + 1)" for a q r :: nat
        by (simp only: distrib_left mult_1_right)
      have "rs_pos s + (512 - rs_pos s mod 512) = 512 * (rs_pos s div 512 + 1)"
        by (rule gen) simp_all
      then have "(rs_pos s + (512 - rs_pos s mod 512)) mod 512 = 0"
        by (simp only: mod_mult_self1_is_0)
      then show ?thesis using False by (simp add: c_def min_def)
    qed (simp add: c_def)
    ultimately show ?thesis by (intro disjI2 exI [of _ c]) (simp add: c)
  next
    case fail: False
    then have "\<not> dev_live dev"
      using d unfolding dev_live_def by (metis prod.inject)
    then show ?thesis
      using False d fail s by (auto simp: failed_def frame_refl iso_head_def sect_ok_sector)
  qed
qed

lemma iso_body_spec:
  assumes h: "dev_honest img dev" and s: "st_ok s" "sect_ok st s"
    and al: "rs_readsize s = 0 \<or> rs_pos s mod 512 = 0"
  shows "failed dev s (iso_body dev st s) \<or>
    (\<exists>n \<le> rs_readsize s. iso_body dev st s = Some (Inr (fill (section_byte img st) s n))
       \<and> (rs_readsize s - n < 512) \<and> (n = rs_readsize s \<or> (rs_pos s + n) mod 512 = 0))"
proof -
  define n where "n = rs_readsize s div 512"
  have lt: "rs_readsize s < 2 ^ 32"
    using s(1) by (simp add: st_ok_def)
  have n: "u32 n = n" "u32 (n * 512) = n * 512" "n * 512 \<le> rs_readsize s" "rs_readsize s - n * 512 < 512"
  proof -
    show le: "n * 512 \<le> rs_readsize s" by (simp add: n_def)
    show "u32 (n * 512) = n * 512" using le lt by (intro u32_id) linarith
    show "u32 n = n" using le lt by (intro u32_id) linarith
    show "rs_readsize s - n * 512 < 512" by (simp add: n_def minus_div_mult_eq_mod)
  qed
  show ?thesis
  proof (cases "n = 0")
    case True
    then show ?thesis
      using n al s fill_0 [of s] by (intro disjI2 exI [of _ 0]) (auto simp: iso_body_def n_def [symmetric])
  next
    case False
    obtain ret r data where d: "dev (st + rs_pos s div 512) n = (ret, r, data)"
      using prod_cases3 by blast
    have pos: "0 < rs_readsize s" "rs_pos s mod 512 = 0"
      using False al by (auto simp: n_def)
    have put: "mem_put (rs_buf s) (rs_ptr s) (take (n * 512) data)
        = Some (blit (rs_buf s) (rs_ptr s) (take (n * 512) data))"
      using s n by (intro mem_put_ok) (auto simp: st_ok_def)
    have body: "iso_body dev st s =
       (if ret \<noteq> 0 \<or> r \<noteq> n then Some (Inl (- 1, blit (rs_buf s) (rs_ptr s) (take (n * 512) data)))
        else Some (Inr (advance s (blit (rs_buf s) (rs_ptr s) (take (n * 512) data)) (n * 512))))"
      using False n s pos d put
      by (simp add: iso_body_def n_def [symmetric] sect_ok_sector)
    show ?thesis
    proof (cases "ret = 0 \<and> r = n")
      case True
      have "mem_get (take (n * 512) data) (rs_pos s mod 512) (n * 512)
          = Some (map (section_byte img st) [rs_pos s..<rs_pos s + n * 512])"
        by (rule read_chunk [OF h]) (use d True s pos in \<open>auto simp: sect_ok_def\<close>)
      then have "take (n * 512) data = map (section_byte img st) [rs_pos s..<rs_pos s + n * 512]"
        using pos by (auto simp: mem_get_def chunk_def split: if_splits)
      then have "iso_body dev st s = Some (Inr (fill (section_byte img st) s (n * 512)))"
        using body True by (simp add: fill_def)
      moreover have "(rs_pos s + n * 512) mod 512 = 0"
        using pos by simp
      ultimately show ?thesis
        using n by (intro disjI2 exI [of _ "n * 512"]) simp
    next
      case fail: False
      then have "\<not> dev_live dev"
        using d unfolding dev_live_def by (metis prod.inject)
      moreover have "frame s (blit (rs_buf s) (rs_ptr s) (take (n * 512) data))"
        using s n by (auto simp: frame_def st_ok_def nth_blit)
      ultimately show ?thesis
        using body fail by (auto simp: failed_def)
    qed
  qed
qed

lemma iso_tail_spec:
  assumes h: "dev_honest img dev" and s: "st_ok s" "sect_ok st s" "rs_readsize s < 512"
    and al: "rs_readsize s = 0 \<or> rs_pos s mod 512 = 0"
  shows "failed dev s (iso_tail dev st s) \<or>
    iso_tail dev st s = Some (Inr (fill (section_byte img st) s (rs_readsize s)))"
proof (cases "rs_readsize s = 0")
  case True
  then show ?thesis using fill_0 [of s] s by (simp add: iso_tail_def)
next
  case False
  obtain ret r tmp where d: "dev (st + rs_pos s div 512) 1 = (ret, r, tmp)"
    using prod_cases3 by blast
  let ?c = "rs_readsize s"
  show ?thesis
  proof (cases "ret = 0 \<and> r = 1")
    case True
    have "mem_get (take (1 * 512) tmp) (rs_pos s mod 512) ?c
        = Some (map (section_byte img st) [rs_pos s..<rs_pos s + ?c])"
      by (rule read_chunk [OF h]) (use d True False al s in \<open>auto simp: sect_ok_def\<close>)
    then show ?thesis
      using False True d s al mem_put_ok [of s "map (section_byte img st) [rs_pos s..<rs_pos s + ?c]"]
      by (simp add: iso_tail_def sect_ok_sector fill_def st_ok_def)
  next
    case fail: False
    then have "\<not> dev_live dev"
      using d unfolding dev_live_def by (metis prod.inject)
    then show ?thesis
      using False d fail s by (auto simp: failed_def frame_refl iso_tail_def sect_ok_sector)
  qed
qed

lemma iso_data_spec:
  assumes h: "dev_honest img dev" and s: "st_ok s" "sect_ok st s" "0 < rs_readsize s"
  shows "failed dev s (iso_data dev st s) \<or>
    iso_data dev st s = Some (Inr (fill (section_byte img st) s (rs_readsize s)))"
proof -
  let ?g = "section_byte img st"
  consider (f1) "failed dev s (iso_head dev st s)"
    | (n1) n where "n \<le> rs_readsize s" "iso_head dev st s = Some (Inr (fill ?g s n))"
        "n = rs_readsize s \<or> (rs_pos s + n) mod 512 = 0"
    using iso_head_spec [OF h s] by metis
  then show ?thesis
  proof cases
    case f1
    then show ?thesis by (auto simp: iso_data_def rd_bind_def failed_def)
  next
    case n1
    define s1 where "s1 = fill ?g s n"
    have s1: "st_ok s1" "sect_ok st s1" "rs_readsize s1 = 0 \<or> rs_pos s1 mod 512 = 0"
        "rs_readsize s1 = rs_readsize s - n"
      using n1 s by (auto simp: s1_def st_ok_fill sect_ok_fill fill_pos)
    consider (f2) "failed dev s1 (iso_body dev st s1)"
      | (n2) m where "m \<le> rs_readsize s1" "iso_body dev st s1 = Some (Inr (fill ?g s1 m))"
          "rs_readsize s1 - m < 512" "m = rs_readsize s1 \<or> (rs_pos s1 + m) mod 512 = 0"
      using iso_body_spec [OF h s1(1-3)] by metis
    then show ?thesis
    proof cases
      case f2
      then have "failed dev s (iso_body dev st s1)"
        using failed_fill n1 s unfolding s1_def by blast
      then show ?thesis
        using n1 by (auto simp: iso_data_def rd_bind_def failed_def s1_def)
    next
      case n2
      define s2 where "s2 = fill ?g s1 m"
      have s2: "st_ok s2" "sect_ok st s2" "rs_readsize s2 < 512" "rs_readsize s2 = 0 \<or> rs_pos s2 mod 512 = 0"
        using n2 s1 by (auto simp: s2_def st_ok_fill sect_ok_fill fill_pos)
      have eq: "iso_data dev st s = iso_tail dev st s2"
        using n1 n2 by (simp add: iso_data_def rd_bind_def s1_def s2_def)
      have s2s: "s2 = fill ?g s (n + m)" "n + m \<le> rs_readsize s"
        using fill_fill [of s n m ?g] n1(1) n2(1) s(1) s1(4) unfolding s2_def s1_def by simp_all
      have full: "fill ?g s2 (rs_readsize s2) = fill ?g s (rs_readsize s)"
        using fill_fill [of s "n + m" "rs_readsize s - (n + m)" ?g] s(1) s2s(2) unfolding s2s(1) by simp
      show ?thesis
        using iso_tail_spec [OF h s2] failed_fill [of dev ?g s "n + m"] s s2s unfolding eq full by metis
    qed
  qed
qed

section \<open>The whole request\<close>

definition request_ok :: "rd_state \<Rightarrow> bool" where
  "request_ok s \<longleftrightarrow> rs_ptr s + rs_remaining s \<le> length (rs_buf s) \<and> rs_remaining s < 2 ^ 32
     \<and> rs_offset s + rs_remaining s < 2 ^ 64"

abbreviation image_byte :: "(nat \<Rightarrow> bytes) \<Rightarrow> iso_image \<Rightarrow> nat \<Rightarrow> u8" where
  "image_byte img im \<equiv> iso_byte img (sections im) (sections_size im)"

lemma iso_zero_spec:
  "st_ok s \<Longrightarrow> iso_zero s = Some (Inr (advance s (blit (rs_buf s) (rs_ptr s) (replicate (rs_readsize s) 0)) (rs_readsize s)))"
  by (simp add: iso_zero_def mem_put_ok st_ok_def)

lemma map_zero_upt: "(\<And>i. i < n \<Longrightarrow> f (a + i) = 0) \<Longrightarrow> map f [a..<a + n] = replicate n 0"
  by (rule nth_equalityI) auto

lemma iso_round_spec:
  assumes h: "dev_honest img dev" and im: "image_ok im" and s: "request_ok s" "0 < rs_remaining s"
  shows "failed dev s (iso_round dev im s) \<or>
    (\<exists>n s'. 0 < n \<and> n \<le> rs_remaining s \<and> iso_round dev im s = Some (Inr s')
       \<and> rs_buf s' = blit (rs_buf s) (rs_ptr s) (map (image_byte img im) [rs_offset s..<rs_offset s + n])
       \<and> rs_ptr s' = rs_ptr s + n \<and> rs_offset s' = rs_offset s + n \<and> rs_remaining s' = rs_remaining s - n)"
proof -
  let ?off = "rs_offset s" and ?rem = "rs_remaining s" and ?szs = "sections_size im" and ?sts = "sections im"
  have len: "length ?sts = length ?szs" and sum: "0 + sum_list ?szs * 512 < 2 ^ 63"
    using im by (auto simp: image_ok_def)
  consider (hit) k p where "k < length ?szs" "p < ?szs ! k * 512"
      "get_next_read im ?off ?rem = (p, min ?rem (?szs ! k * 512 - p), int k)"
      "\<forall>j < ?szs ! k * 512 - p. image_byte img im (?off + j) = section_byte img (?sts ! k) (p + j)"
    | (miss) "get_next_read im ?off ?rem = (0, ?rem, - 1)" "\<forall>j. image_byte img im (?off + j) = 0"
    using gnr_scan_spec [OF _ sum len s(2), where off = ?off and img = img and i = 0] unfolding get_next_read_def by auto
  then show ?thesis
  proof cases
    case miss
    define s1 where "s1 = s \<lparr>rs_pos := 0, rs_readsize := ?rem\<rparr>"
    have "st_ok s1" using s by (simp add: st_ok_def request_ok_def s1_def)
    then have "iso_round dev im s = Some (Inr (advance s1 (blit (rs_buf s1) (rs_ptr s1) (replicate (rs_readsize s1) 0)) (rs_readsize s1)))"
      by (simp add: iso_round_def miss s1_def [symmetric] iso_zero_spec)
    then show ?thesis
      using s miss(2) map_zero_upt [of ?rem "image_byte img im" ?off]
      by (intro disjI2 exI [of _ ?rem] exI) (auto simp: s1_def advance_def request_ok_def)
  next
    case hit
    define n where "n = min ?rem (?szs ! k * 512 - p)"
    define s1 where "s1 = s \<lparr>rs_pos := p, rs_readsize := n\<rparr>"
    have n: "0 < n" "n \<le> ?rem" "p + n \<le> ?szs ! k * 512"
      using hit(2) s(2) by (auto simp: n_def)
    have "?szs ! k \<le> sum_list ?szs"
      using hit(1) by (simp add: elem_le_sum_list)
    then have big: "?szs ! k * 512 < 2 ^ 63"
      using sum by linarith
    have s1: "st_ok s1" "rs_buf s1 = rs_buf s" "rs_ptr s1 = rs_ptr s" "rs_readsize s1 = n"
        "rs_remaining s1 = ?rem" "rs_offset s1 = ?off" "rs_pos s1 = p"
      using s n big by (auto simp: st_ok_def request_ok_def s1_def)
    have bytes: "map (image_byte img im) [?off..<?off + n] = map (section_byte img (?sts ! k)) [p..<p + n]"
      using hit(4) n by (intro nth_equalityI) auto
    have r: "iso_round dev im s = (if ?sts ! k = 0xFFFFFFFF then iso_zero s1 else iso_data dev (?sts ! k) s1)"
      using hit(1) len unfolding iso_round_def hit(3) prod.case n_def [symmetric] s1_def [symmetric] by simp
    have done_case: ?thesis if "iso_round dev im s = Some (Inr (fill (section_byte img (?sts ! k)) s1 n))"
      using that n s1 s bytes
      by (intro disjI2 exI [of _ n] exI) (auto simp: fill_def advance_def request_ok_def)
    show ?thesis
    proof (cases "?sts ! k = 0xFFFFFFFF")
      case True
      have "map (section_byte img (?sts ! k)) [p..<p + n] = replicate n 0"
        by (rule map_zero_upt) (simp add: section_byte_def True)
      then have "iso_round dev im s = Some (Inr (fill (section_byte img (?sts ! k)) s1 n))"
        using r True s1 iso_zero_spec [OF s1(1)] by (simp add: fill_def)
      then show ?thesis by (rule done_case)
    next
      case False
      have "?sts ! k + ?szs ! k \<le> 2 ^ 32"
        using im False hit(1) len by (auto simp: image_ok_def)
      then have "sect_ok (?sts ! k) s1"
        using False n s1 unfolding sect_ok_def by auto
      then have "failed dev s1 (iso_data dev (?sts ! k) s1) \<or>
          iso_data dev (?sts ! k) s1 = Some (Inr (fill (section_byte img (?sts ! k)) s1 n))"
        using iso_data_spec [OF h s1(1)] n s1(4) by simp
      then show ?thesis
        using r False done_case s1 by (auto simp: failed_def frame_def)
    qed
  qed
qed

lemma iso_loop_spec:
  assumes h: "dev_honest img dev" and im: "image_ok im" and s: "request_ok s"
  shows "\<exists>ret b. iso_loop dev im s = Some (ret, b) \<and> frame s b \<and> (ret = 0 \<or> ret = - 1 \<and> \<not> dev_live dev)
     \<and> (ret = 0 \<longrightarrow> b = blit (rs_buf s) (rs_ptr s)
          (map (image_byte img im) [rs_offset s..<rs_offset s + rs_remaining s]))"
  using s
proof (induction "rs_remaining s" arbitrary: s rule: less_induct)
  case less
  let ?f = "image_byte img im"
  show ?case
  proof (cases "rs_remaining s = 0")
    case True
    then show ?thesis by (simp add: iso_loop.simps [of dev im s] frame_refl)
  next
    case False
    then have pos: "0 < rs_remaining s" by simp
    consider (f) "failed dev s (iso_round dev im s)"
      | (n) n s' where "0 < n" "n \<le> rs_remaining s" "iso_round dev im s = Some (Inr s')"
        "rs_buf s' = blit (rs_buf s) (rs_ptr s) (map ?f [rs_offset s..<rs_offset s + n])"
        "rs_ptr s' = rs_ptr s + n" "rs_offset s' = rs_offset s + n" "rs_remaining s' = rs_remaining s - n"
      using iso_round_spec [OF h im less.prems pos] by blast
    then show ?thesis
    proof cases
      case f
      then show ?thesis
        using False by (auto simp: iso_loop.simps [of dev im s] failed_def)
    next
      case n
      have req: "request_ok s'"
        using n less.prems by (auto simp: request_ok_def)
      obtain ret b where IH: "iso_loop dev im s' = Some (ret, b)" "frame s' b"
          "ret = 0 \<or> ret = - 1 \<and> \<not> dev_live dev"
          "ret = 0 \<longrightarrow> b = blit (rs_buf s') (rs_ptr s') (map ?f [rs_offset s'..<rs_offset s' + rs_remaining s'])"
        using less.hyps [of s'] n req pos by auto
      have loop: "iso_loop dev im s = Some (ret, b)"
        using False n(3) IH(1) by (simp add: iso_loop.simps [of dev im s])
      have fr: "frame s b"
        using IH(2) n less.prems by (auto simp: frame_def nth_blit request_ok_def)
      have split: "map ?f [rs_offset s..<rs_offset s + rs_remaining s]
          = map ?f [rs_offset s..<rs_offset s + n] @ map ?f [rs_offset s'..<rs_offset s' + rs_remaining s']"
        using n upt_add_eq_append [of "rs_offset s" "rs_offset s + n" "rs_remaining s - n"]
        by (simp flip: map_append)
      have "blit (rs_buf s') (rs_ptr s') (map ?f [rs_offset s'..<rs_offset s' + rs_remaining s'])
          = blit (rs_buf s) (rs_ptr s) (map ?f [rs_offset s..<rs_offset s + rs_remaining s])"
        using blit_blit_adjacent [of "rs_ptr s" "map ?f [rs_offset s..<rs_offset s + n]"
            "map ?f [rs_offset s'..<rs_offset s' + rs_remaining s']" "rs_buf s"] n less.prems
        unfolding split n(4) n(5) by (auto simp: request_ok_def)
      then show ?thesis
        using loop fr IH by auto
    qed
  qed
qed

section \<open>The reader that the CD commands use\<close>

text \<open>
  \<open>rd d buf ptr off n\<close> reads \<open>n\<close> bytes at offset \<open>off\<close> of the disc \<open>d\<close> into the buffer at \<open>ptr\<close>;
  \<open>content d c\<close> says that the byte at offset \<open>i\<close> is \<open>c i\<close>, and \<open>live d\<close> that the device does not fail.
\<close>

locale disc_reader =
  fixes rd :: "'d \<Rightarrow> bytes \<Rightarrow> nat \<Rightarrow> nat \<Rightarrow> nat \<Rightarrow> (int \<times> bytes) option"
    and content :: "'d \<Rightarrow> (nat \<Rightarrow> u8) \<Rightarrow> bool"
    and live :: "'d \<Rightarrow> bool"
  assumes rd_returns: "content d c \<Longrightarrow> ptr + n \<le> length buf \<Longrightarrow> n < 2 ^ 32 \<Longrightarrow> off + n < 2 ^ 64 \<Longrightarrow>
      \<exists>ret b. rd d buf ptr off n = Some (ret, b)"
    and rd_length: "content d c \<Longrightarrow> ptr + n \<le> length buf \<Longrightarrow> n < 2 ^ 32 \<Longrightarrow> off + n < 2 ^ 64 \<Longrightarrow>
      rd d buf ptr off n = Some (ret, b) \<Longrightarrow> length b = length buf"
    and rd_frame: "content d c \<Longrightarrow> ptr + n \<le> length buf \<Longrightarrow> n < 2 ^ 32 \<Longrightarrow> off + n < 2 ^ 64 \<Longrightarrow>
      rd d buf ptr off n = Some (ret, b) \<Longrightarrow> k < length buf \<Longrightarrow> k < ptr \<or> ptr + n \<le> k \<Longrightarrow> b ! k = buf ! k"
    and rd_live: "content d c \<Longrightarrow> ptr + n \<le> length buf \<Longrightarrow> n < 2 ^ 32 \<Longrightarrow> off + n < 2 ^ 64 \<Longrightarrow>
      live d \<Longrightarrow> rd d buf ptr off n = Some (ret, b) \<Longrightarrow> ret = 0"
    and rd_content: "content d c \<Longrightarrow> ptr + n \<le> length buf \<Longrightarrow> n < 2 ^ 32 \<Longrightarrow> off + n < 2 ^ 64 \<Longrightarrow>
      rd d buf ptr off n = Some (0, b) \<Longrightarrow> b = blit buf ptr (map c [off..<off + n])"
begin

lemma rd_ok:
  assumes "content d c" "live d" "ptr + n \<le> length buf" "n < 2 ^ 32" "off + n < 2 ^ 64"
  shows "rd d buf ptr off n = Some (0, blit buf ptr (map c [off..<off + n]))"
  using assms rd_returns rd_live rd_content by metis

end

definition iso_content :: "storage \<times> iso_image \<Rightarrow> (nat \<Rightarrow> u8) \<Rightarrow> bool" where
  "iso_content di c \<longleftrightarrow> (\<exists>img. dev_honest img (fst di) \<and> image_ok (snd di) \<and> c = image_byte img (snd di))"

lemma process_read_iso_spec:
  assumes c: "iso_content di c" and b: "ptr + sz \<le> length buf" "sz < 2 ^ 32" "off + sz < 2 ^ 64"
  shows "\<exists>ret b. process_read_iso_cmd di buf ptr off sz = Some (ret, b) \<and> length b = length buf
     \<and> (\<forall>k < length buf. k < ptr \<or> ptr + sz \<le> k \<longrightarrow> b ! k = buf ! k)
     \<and> (ret = 0 \<or> ret = - 1 \<and> \<not> dev_live (fst di))
     \<and> (ret = 0 \<longrightarrow> b = blit buf ptr (map c [off..<off + sz]))"
proof -
  obtain img where img: "dev_honest img (fst di)" "image_ok (snd di)" "c = image_byte img (snd di)"
    using c by (auto simp: iso_content_def)
  let ?s = "\<lparr>rs_buf = buf, rs_ptr = ptr, rs_offset = off, rs_pos = 0, rs_remaining = sz, rs_readsize = 0\<rparr>"
  have "request_ok ?s"
    using b by (simp add: request_ok_def)
  then show ?thesis
    using iso_loop_spec [OF img(1,2), of ?s] unfolding process_read_iso_cmd_def img(3)
    by (auto simp: frame_def)
qed

interpretation iso: disc_reader process_read_iso_cmd iso_content "\<lambda>di. dev_live (fst di)"
proof
  fix di :: "storage \<times> iso_image" and c ptr n and buf :: bytes and off ret b k
  assume a: "iso_content di c" "ptr + n \<le> length buf" "n < 2 ^ 32" "off + n < 2 ^ 64"
  note spec = process_read_iso_spec [OF a]
  show "\<exists>ret b. process_read_iso_cmd di buf ptr off n = Some (ret, b)"
    using spec by blast
  show "length b = length buf" if "process_read_iso_cmd di buf ptr off n = Some (ret, b)"
    using spec that by auto
  show "b ! k = buf ! k" if "process_read_iso_cmd di buf ptr off n = Some (ret, b)" "k < length buf"
      "k < ptr \<or> ptr + n \<le> k"
    using spec that by auto
  show "ret = 0" if "dev_live (fst di)" "process_read_iso_cmd di buf ptr off n = Some (ret, b)"
    using spec that by auto
  show "b = blit buf ptr (map c [off..<off + n])" if "process_read_iso_cmd di buf ptr off n = Some (0, b)"
    using spec that by auto
qed

section \<open>Properties\<close>

definition demo_dev :: "(nat \<Rightarrow> bytes) \<Rightarrow> storage" where
  "demo_dev img s n = (0, n, concat (map (\<lambda>k. take 512 (img k)) [s..<s + n]))"

definition demo_image :: iso_image where
  "demo_image = \<lparr>sections = [7, 0xFFFFFFFF, 40], sections_size = [2, 1, 3]\<rparr>"

lemma nth_concat_sectors:
  assumes "\<And>k. length (img k) = 512"
  shows "i < n * 512 \<Longrightarrow> concat (map (\<lambda>k. take 512 (img k)) [s..<s + n]) ! i = img (s + i div 512) ! (i mod 512)"
proof (induction n arbitrary: i)
  case 0
  then show ?case by simp
next
  case (Suc n)
  have l: "length (concat (map (\<lambda>k. take 512 (img k)) [s..<s + n])) = n * 512"
    by (induction n) (simp_all add: assms)
  show ?case
  proof (cases "i < n * 512")
    case True
    then show ?thesis using Suc.IH [OF True] l by (simp add: nth_append)
  next
    case False
    define j where "j = i - n * 512"
    have j: "i = n * 512 + j" "j < 512"
      using False Suc.prems by (simp_all add: j_def)
    show ?thesis
      using l j assms by (simp add: nth_append)
  qed
qed

lemma demo_dev_honest: "(\<And>k. length (img k) = 512) \<Longrightarrow> dev_honest img (demo_dev img)"
proof -
  assume a: "\<And>k. length (img k) = 512"
  have "length (concat (map (\<lambda>k. take 512 (img k)) [s..<s + n])) = n * 512" for s n
    by (induction n) (simp_all add: a)
  then show ?thesis
    using nth_concat_sectors [of img, OF a] by (auto simp: dev_honest_def demo_dev_def)
qed

text \<open>
  C20. A disc read is correct: for every device that delivers what it reports, every section table and
  every request that fits its buffer, \<open>process_read_iso_cmd\<close> returns, changes nothing outside the
  requested part of the buffer, and on success has stored exactly the requested bytes of the image
  there (mapped sectors, zeros for holes and behind the last section), for every alignment of the
  request to the sectors. It returns \<open>-1\<close> only if a device read failed.
\<close>

theorem read_iso_correct:
  assumes "dev_honest img dev" "image_ok im" "ptr + sz \<le> length buf" "sz < 2 ^ 32" "off + sz < 2 ^ 64"
  shows "\<exists>ret b. process_read_iso_cmd (dev, im) buf ptr off sz = Some (ret, b)
     \<and> length b = length buf
     \<and> (\<forall>k < length buf. k < ptr \<or> ptr + sz \<le> k \<longrightarrow> b ! k = buf ! k)
     \<and> (ret = 0 \<or> ret = - 1 \<and> \<not> dev_live dev)
     \<and> (ret = 0 \<longrightarrow> (\<forall>k < sz. b ! (ptr + k) = image_byte img im (off + k)))"
proof -
  have "iso_content (dev, im) (image_byte img im)"
    using assms by (auto simp: iso_content_def)
  from process_read_iso_spec [OF this assms(3-5)] obtain ret b where
    r: "process_read_iso_cmd (dev, im) buf ptr off sz = Some (ret, b)" "length b = length buf"
      "\<forall>k < length buf. k < ptr \<or> ptr + sz \<le> k \<longrightarrow> b ! k = buf ! k"
      "ret = 0 \<or> ret = - 1 \<and> \<not> dev_live dev"
    and v: "ret = 0 \<longrightarrow> b = blit buf ptr (map (image_byte img im) [off..<off + sz])"
    by auto
  have "ret = 0 \<longrightarrow> (\<forall>k < sz. b ! (ptr + k) = image_byte img im (off + k))"
    using v assms(3) by (auto simp: nth_blit)
  with r show ?thesis by blast
qed

theorem read_iso_correct_witness:
  "\<exists>ret b. process_read_iso_cmd (demo_dev (\<lambda>k. replicate 512 (word_of_nat k)), demo_image)
      (replicate 2000 9) 3 1000 1100 = Some (ret, b) \<and> b ! (3 + 10) = 8 \<and> b ! (3 + 30) = 0 \<and> b ! (3 + 600) = 40
      \<and> b ! 2 = 9"
proof -
  let ?img = "\<lambda>k. replicate 512 (word_of_nat k) :: bytes"
  have live: "dev_live (demo_dev ?img)"
    by (simp add: dev_live_def demo_dev_def)
  have "image_ok demo_image"
    by (simp add: image_ok_def demo_image_def less_Suc_eq numeral_3_eq_3)
  then obtain b where r: "process_read_iso_cmd (demo_dev ?img, demo_image) (replicate 2000 9) 3 1000 1100 = Some (0, b)"
      "\<forall>k < 2000. k < 3 \<or> 1103 \<le> k \<longrightarrow> b ! k = 9"
      "\<forall>k < 1100. b ! (3 + k) = image_byte ?img demo_image (1000 + k)"
    using read_iso_correct [of ?img "demo_dev ?img" demo_image 3 1100 "replicate 2000 9" 1000] live
      demo_dev_honest [of ?img] by auto
  have "b ! (3 + 10) = 8" "b ! (3 + 30) = 0" "b ! (3 + 600) = 40" "b ! 2 = 9"
    using r(2) r(3) [rule_format, of 10] r(3) [rule_format, of 30] r(3) [rule_format, of 600]
    by (simp_all add: demo_image_def section_byte_def)
  with r(1) show ?thesis by blast
qed

end
