(* ===== verification/RawSecCd.thy ===== *)
theory RawSecCd
  imports RawSecIso
begin

text \<open>
  The disc emulation plugin, second part: the reads of a CD image, whose file holds raw sectors of
  2352 bytes. \<open>process_read_cd_2048_cmd\<close> delivers the 2048 user bytes of each sector, stripping
  headers in place; \<open>process_read_cd_2352_cmd\<close> delivers raw sectors and keeps the last 64 sectors it
  has read in a cache.

  Both call \<open>process_read_iso_cmd\<close>; they are stated over the reader \<open>rd\<close> of \<open>disc_reader\<close>, and the
  commands of the code are their instances at \<open>process_read_iso_cmd\<close>.
\<close>

section \<open>Integers of the code\<close>

text \<open>The macro \<open>ABS\<close> on an \<open>int\<close>. The negation of the least \<open>int\<close> is undefined in C; the model
  takes the two's complement result.\<close>

definition abs32 :: "int \<Rightarrow> int" where
  "abs32 a = (if a < 0 then s32 (- a) else a)"

definition CD_CACHE_SIZE :: nat where
  "CD_CACHE_SIZE = 64"

section \<open>2048-byte sectors\<close>

text \<open>The byte loop \<open>my_memcpy\<close>, source and destination in the same buffer.\<close>

fun my_memcpy :: "bytes \<Rightarrow> nat \<Rightarrow> nat \<Rightarrow> nat \<Rightarrow> bytes option" where
  "my_memcpy b dst src 0 = Some b"
| "my_memcpy b dst src (Suc n) =
     (if dst < length b \<and> src < length b then my_memcpy (b[dst := b ! src]) (dst + 1) (src + 1) n else None)"

fun cd2048_strip :: "bytes \<Rightarrow> nat \<Rightarrow> nat \<Rightarrow> nat \<Rightarrow> bytes option" where
  "cd2048_strip b inp out 0 = Some b"
| "cd2048_strip b inp out (Suc n) = (case my_memcpy b out (inp + 24) 2048 of None \<Rightarrow> None
     | Some b' \<Rightarrow> cd2048_strip b' (inp + 2352) (out + 2048) n)"

text \<open>The sectors whose raw form does not fit the request are read one by one. The status of the
  read is dropped.\<close>

fun cd2048_rest ::
  "('d \<Rightarrow> bytes \<Rightarrow> nat \<Rightarrow> nat \<Rightarrow> nat \<Rightarrow> (int \<times> bytes) option) \<Rightarrow> 'd \<Rightarrow> bytes \<Rightarrow> nat \<Rightarrow> nat \<Rightarrow> nat \<Rightarrow> bytes option" where
  "cd2048_rest rd d b out start 0 = Some b"
| "cd2048_rest rd d b out start (Suc n) = (case rd d b out (u32 (u32 (start * 2352) + 24)) 2048 of None \<Rightarrow> None
     | Some (ret, b') \<Rightarrow> cd2048_rest rd d b' (out + 2048) (u32 (start + 1)) n)"

definition read_cd_2048 ::
  "('d \<Rightarrow> bytes \<Rightarrow> nat \<Rightarrow> nat \<Rightarrow> nat \<Rightarrow> (int \<times> bytes) option) \<Rightarrow> 'd \<Rightarrow> bytes \<Rightarrow> nat \<Rightarrow> nat \<Rightarrow> (int \<times> bytes) option" where
  "read_cd_2048 rd d buf start_sector sector_count =
     (let capacity = u32 (sector_count * 2048);
          fit = capacity div 2352;
          rest = sector_count - fit
      in case (if fit > 0
               then (case rd d buf 0 (u32 (start_sector * 2352)) (u32 (fit * 2352)) of None \<Rightarrow> None
                     | Some (ret, b) \<Rightarrow> cd2048_strip b 0 0 fit)
               else Some buf) of None \<Rightarrow> None
         | Some b \<Rightarrow> (case cd2048_rest rd d b (fit * 2048) (u32 (start_sector + fit)) rest of None \<Rightarrow> None
             | Some b' \<Rightarrow> Some (0, b')))"

definition process_read_cd_2048_cmd ::
  "storage \<times> iso_image \<Rightarrow> bytes \<Rightarrow> nat \<Rightarrow> nat \<Rightarrow> (int \<times> bytes) option" where
  "process_read_cd_2048_cmd = read_cd_2048 process_read_iso_cmd"

section \<open>2352-byte sectors and the cache\<close>

text \<open>The globals \<open>cd_cache\<close> (\<open>None\<close> is \<open>NULL\<close>) and \<open>cached_cd_sector\<close>.\<close>

record cd_state =
  cd_cache :: "bytes option"
  cached_cd_sector :: nat

definition cd_init :: cd_state where
  "cd_init = \<lparr>cd_cache = None, cached_cd_sector = 0x80000000\<rparr>"

text \<open>What the request shares with the cached sectors: \<open>dif\<close>, the offset of \<open>copy_ptr\<close> from
  \<open>cd_cache\<close>, \<open>copy_offset\<close> and \<open>copy_size\<close>.\<close>

definition cd_hit :: "nat \<Rightarrow> nat \<Rightarrow> nat \<Rightarrow> (int \<times> int \<times> nat \<times> nat) option" where
  "cd_hit cached sector remaining =
     (let dif = s32 (int cached - int sector)
      in if abs32 dif < int CD_CACHE_SIZE then
           if dif > 0 then
             (if dif < s32 (int remaining) then Some (dif, 0, nat dif, u32i (int remaining - dif)) else None)
           else Some (dif, s32 (s32 (- dif) * 2352), 0, u32i (min (s32 (int remaining)) (int CD_CACHE_SIZE + dif)))
         else None)"

text \<open>The copy out of the cache. The result is the buffer, the index \<open>buf\<close> points to afterwards, the
  next sector, the sectors that remain and whether the request is complete.\<close>

definition cd_serve :: "cd_state \<Rightarrow> bytes \<Rightarrow> nat \<Rightarrow> nat \<Rightarrow> (bytes \<times> nat \<times> nat \<times> nat \<times> bool) option" where
  "cd_serve st buf sector remaining =
     (case cd_hit (cached_cd_sector st) sector remaining of None \<Rightarrow> Some (buf, 0, sector, remaining, False)
      | Some (dif, copy_ptr, copy_offset, copy_size) \<Rightarrow>
         (case cd_cache st of
            None \<Rightarrow> if copy_ptr = 0 then Some (buf, 0, sector, remaining, False) else None
          | Some m \<Rightarrow>
             (case (if copy_ptr < 0 then None else mem_get m (nat copy_ptr) (u32 (copy_size * 2352))) of None \<Rightarrow> None
              | Some xs \<Rightarrow>
                 (case mem_put buf (u32 (copy_offset * 2352)) xs of None \<Rightarrow> None
                  | Some b \<Rightarrow>
                     if remaining = copy_size then Some (b, 0, sector, remaining, True)
                     else (let remaining' = u32i (int remaining - int copy_size);
                               newsector = u32 (cached_cd_sector st + CD_CACHE_SIZE)
                           in if dif \<le> 0
                              then Some (b, u32 (u32i (int newsector - int sector) * 2352), newsector, remaining', False)
                              else Some (b, 0, sector, remaining', False))))))"

text \<open>The cache is allocated at the first use (\<open>alloc\<close> is the result of \<open>sys_memory_allocate\<close>: the
  status and the new memory), then loaded with the 64 sectors from \<open>sector\<close>, whether or not the disc
  has them.\<close>

definition cd_load ::
  "('d \<Rightarrow> bytes \<Rightarrow> nat \<Rightarrow> nat \<Rightarrow> nat \<Rightarrow> (int \<times> bytes) option) \<Rightarrow> int \<times> bytes \<Rightarrow> 'd \<Rightarrow> cd_state
     \<Rightarrow> bytes \<Rightarrow> nat \<Rightarrow> nat \<Rightarrow> nat \<Rightarrow> (int \<times> bytes \<times> cd_state) option" where
  "cd_load rd alloc d st buf ptr sector remaining =
     (case (case cd_cache st of Some m \<Rightarrow> Inr m
            | None \<Rightarrow> if fst alloc \<noteq> 0 then Inl (fst alloc) else Inr (snd alloc)) of
        Inl ret \<Rightarrow> Some (ret, buf, st)
      | Inr m \<Rightarrow>
         (case rd d m 0 (u32 (sector * 2352)) (CD_CACHE_SIZE * 2352) of None \<Rightarrow> None
          | Some (ret, m') \<Rightarrow>
             if ret \<noteq> 0 then Some (- 1, buf, st \<lparr>cd_cache := Some m'\<rparr>)
             else (case mem_get m' 0 (u32 (remaining * 2352)) of None \<Rightarrow> None
                   | Some xs \<Rightarrow> (case mem_put buf ptr xs of None \<Rightarrow> None
                       | Some b \<Rightarrow> Some (0, b, \<lparr>cd_cache = Some m', cached_cd_sector = sector\<rparr>)))))"

definition read_cd_2352 ::
  "('d \<Rightarrow> bytes \<Rightarrow> nat \<Rightarrow> nat \<Rightarrow> nat \<Rightarrow> (int \<times> bytes) option) \<Rightarrow> int \<times> bytes \<Rightarrow> 'd \<Rightarrow> cd_state
     \<Rightarrow> bytes \<Rightarrow> nat \<Rightarrow> nat \<Rightarrow> (int \<times> bytes \<times> cd_state) option" where
  "read_cd_2352 rd alloc d st buf sector remaining =
     (if remaining \<le> CD_CACHE_SIZE then
        (case cd_serve st buf sector remaining of None \<Rightarrow> None
         | Some (b, ptr, sector', remaining', True) \<Rightarrow> Some (0, b, st)
         | Some (b, ptr, sector', remaining', False) \<Rightarrow> cd_load rd alloc d st b ptr sector' remaining')
      else (case rd d buf 0 (u32 (sector * 2352)) (u32 (remaining * 2352)) of None \<Rightarrow> None
            | Some (ret, b) \<Rightarrow> Some (ret, b, st)))"

definition process_read_cd_2352_cmd ::
  "int \<times> bytes \<Rightarrow> storage \<times> iso_image \<Rightarrow> cd_state \<Rightarrow> bytes \<Rightarrow> nat \<Rightarrow> nat \<Rightarrow> (int \<times> bytes \<times> cd_state) option" where
  "process_read_cd_2352_cmd = read_cd_2352 process_read_iso_cmd"

section \<open>Stripping in place\<close>

lemma my_memcpy_spec:
  "dst \<le> src \<Longrightarrow> src + n \<le> length b \<Longrightarrow> my_memcpy b dst src n = Some (blit b dst (chunk src n b))"
proof (induction n arbitrary: b dst src)
  case 0
  then show ?case by simp
next
  case (Suc n)
  let ?b = "b[dst := b ! src]"
  have "my_memcpy ?b (dst + 1) (src + 1) n = Some (blit ?b (dst + 1) (chunk (src + 1) n ?b))"
    by (rule Suc.IH) (use Suc.prems in auto)
  moreover have "blit ?b (dst + 1) (chunk (src + 1) n ?b) = blit b dst (chunk src (Suc n) b)"
  proof (rule nth_equalityI)
    fix k
    assume "k < length (blit ?b (dst + 1) (chunk (src + 1) n ?b))"
    then have k: "k < length b"
      using Suc.prems by simp
    consider "k = dst" | "dst < k" "k < dst + Suc n" | "k < dst \<or> dst + Suc n \<le> k" by linarith
    then show "blit ?b (dst + 1) (chunk (src + 1) n ?b) ! k = blit b dst (chunk src (Suc n) b) ! k"
      by cases (use k Suc.prems in \<open>auto simp: nth_blit nth_chunk Suc_diff_Suc\<close>)
  qed (use Suc.prems in simp)
  ultimately show ?case using Suc.prems by simp
qed

lemma cd2048_strip_spec:
  "out \<le> inp \<Longrightarrow> inp + n * 2352 \<le> length b \<Longrightarrow>
   \<exists>b'. cd2048_strip b inp out n = Some b' \<and> length b' = length b
      \<and> (\<forall>k < n. \<forall>j < 2048. b' ! (out + k * 2048 + j) = b ! (inp + k * 2352 + 24 + j))
      \<and> (\<forall>x < length b. x < out \<or> out + n * 2048 \<le> x \<longrightarrow> b' ! x = b ! x)"
proof (induction n arbitrary: b inp out)
  case 0
  then show ?case by simp
next
  case (Suc n)
  let ?b = "blit b out (chunk (inp + 24) 2048 b)"
  have len: "length ?b = length b" "length (chunk (inp + 24) 2048 b) = 2048"
    using Suc.prems by simp_all
  have cpy: "my_memcpy b out (inp + 24) 2048 = Some ?b"
    by (rule my_memcpy_spec) (use Suc.prems in auto)
  obtain b' where b': "cd2048_strip ?b (inp + 2352) (out + 2048) n = Some b'" "length b' = length ?b"
      "\<And>k j. k < n \<Longrightarrow> j < 2048 \<Longrightarrow> b' ! (out + 2048 + k * 2048 + j) = ?b ! (inp + 2352 + k * 2352 + 24 + j)"
      "\<And>x. x < length ?b \<Longrightarrow> x < out + 2048 \<or> out + 2048 + n * 2048 \<le> x \<Longrightarrow> b' ! x = ?b ! x"
    using Suc.IH [of "out + 2048" "inp + 2352" ?b] Suc.prems len by auto
  have "b' ! (out + k * 2048 + j) = b ! (inp + k * 2352 + 24 + j)" if kj: "k < Suc n" "j < 2048" for k j
  proof (cases k)
    case 0
    have "b' ! (out + j) = ?b ! (out + j)"
      by (rule b'(4)) (use Suc.prems kj len in auto)
    also have "\<dots> = b ! (inp + 24 + j)"
      using Suc.prems kj len by (simp add: nth_blit nth_chunk add.assoc)
    finally show ?thesis using 0 by simp
  next
    case (Suc k')
    have lt: "inp + 2352 + k' * 2352 + 24 + j < length b"
    proof -
      have "k' * 2352 + 2352 \<le> n * 2352" using Suc kj by simp
      then show ?thesis using Suc.prems kj by simp
    qed
    have "?b ! (inp + 2352 + k' * 2352 + 24 + j) = b ! (inp + 2352 + k' * 2352 + 24 + j)"
      using lt Suc.prems len by (simp add: nth_blit)
    then show ?thesis
      using b'(3) [of k' j] Suc kj by (simp add: algebra_simps)
  qed
  moreover have "b' ! x = b ! x" if "x < length b" "x < out \<or> out + Suc n * 2048 \<le> x" for x
    using b'(4) [of x] that Suc.prems len by (auto simp: nth_blit)
  ultimately show ?case
    using cpy b'(1,2) len by auto
qed

section \<open>The commands over any correct reader\<close>

text \<open>The cache holds the 64 sectors from \<open>cached_cd_sector\<close>, or has not been allocated yet.\<close>

definition coherent :: "(nat \<Rightarrow> u8) \<Rightarrow> cd_state \<Rightarrow> bool" where
  "coherent c st \<longleftrightarrow> (case cd_cache st of
     None \<Rightarrow> cached_cd_sector st = 0x80000000
   | Some m \<Rightarrow> CD_CACHE_SIZE * 2352 \<le> length m \<and> (cached_cd_sector st + 64) * 2352 < 2 ^ 32 \<and>
       (\<forall>i < CD_CACHE_SIZE * 2352. m ! i = c (cached_cd_sector st * 2352 + i)))"

lemma cd_hit_eq:
  assumes "cached < 2 ^ 21" "sector < 2 ^ 21" "remaining \<le> 64"
  shows "cd_hit cached sector remaining =
    (if sector < cached then
       (if cached < sector + remaining
        then Some (int cached - int sector, 0, cached - sector, sector + remaining - cached) else None)
     else if sector < cached + 64
     then Some (int cached - int sector, int ((sector - cached) * 2352), 0, min remaining (cached + 64 - sector))
     else None)"
proof -
  let ?d = "int cached - int sector"
  have d: "s32 ?d = ?d" "abs32 ?d = \<bar>?d\<bar>" "s32 (int remaining) = int remaining"
    using assms by (auto simp: s32_id abs32_def)
  consider "sector < cached" "cached < sector + remaining" | "sector < cached" "\<not> cached < sector + remaining"
    | "\<not> sector < cached" "sector < cached + 64" | "\<not> sector < cached" "\<not> sector < cached + 64"
    by blast
  then show ?thesis
  proof cases
    case 1
    then show ?thesis
      unfolding cd_hit_def Let_def d using assms by (auto simp: CD_CACHE_SIZE_def u32i_def nat_diff_distrib)
  next
    case 2
    then show ?thesis
      unfolding cd_hit_def Let_def d using assms by (auto simp: CD_CACHE_SIZE_def)
  next
    case 3
    have "s32 (s32 (- ?d) * 2352) = int ((sector - cached) * 2352)"
      using 3 assms by (simp add: s32_id of_nat_diff)
    moreover have "u32i (min (s32 (int remaining)) (int CD_CACHE_SIZE + ?d)) = min remaining (cached + 64 - sector)"
      using 3 assms unfolding d(3) by (auto simp: u32i_def CD_CACHE_SIZE_def min_def)
    ultimately show ?thesis
      unfolding cd_hit_def Let_def d(1,2) using 3 by (auto simp: CD_CACHE_SIZE_def)
  next
    case 4
    then show ?thesis
      unfolding cd_hit_def Let_def d using assms by (auto simp: CD_CACHE_SIZE_def)
  qed
qed

text \<open>\<open>sectors_at c off w n ptr b\<close>: from \<open>ptr\<close> the buffer holds the first \<open>w\<close> bytes behind \<open>off\<close> of each
  of \<open>n\<close> raw sectors.\<close>

definition sectors_at :: "(nat \<Rightarrow> u8) \<Rightarrow> nat \<Rightarrow> nat \<Rightarrow> nat \<Rightarrow> nat \<Rightarrow> nat \<Rightarrow> bytes \<Rightarrow> bool" where
  "sectors_at c hdr w start n ptr b \<longleftrightarrow>
     (\<forall>k < n. \<forall>j < w. b ! (ptr + k * w + j) = c ((start + k) * 2352 + hdr + j))"

context disc_reader
begin

lemma cd2048_rest_ok:
  assumes "content d c" "live d"
  shows "out + n * 2048 \<le> length b \<Longrightarrow> (start + n) * 2352 < 2 ^ 32 \<Longrightarrow>
    \<exists>b'. cd2048_rest rd d b out start n = Some b' \<and> length b' = length b
      \<and> sectors_at c 24 2048 start n out b'
      \<and> (\<forall>x < length b. x < out \<or> out + n * 2048 \<le> x \<longrightarrow> b' ! x = b ! x)"
proof (induction n arbitrary: b out start)
  case 0
  then show ?case by (simp add: sectors_at_def)
next
  case (Suc n)
  let ?off = "start * 2352 + 24"
  let ?b = "blit b out (map c [?off..<?off + 2048])"
  have off: "u32 (u32 (start * 2352) + 24) = ?off" "u32 (start + 1) = start + 1"
    using Suc.prems(2) by (simp_all add: u32_def)
  have rd: "rd d b out ?off 2048 = Some (0, ?b)"
    by (rule rd_ok [OF assms]) (use Suc.prems in auto)
  have len: "length ?b = length b"
    using Suc.prems by simp
  obtain b' where b': "cd2048_rest rd d ?b (out + 2048) (start + 1) n = Some b'" "length b' = length b"
      "sectors_at c 24 2048 (start + 1) n (out + 2048) b'"
      "\<And>x. x < length b \<Longrightarrow> x < out + 2048 \<or> out + 2048 + n * 2048 \<le> x \<Longrightarrow> b' ! x = ?b ! x"
    using Suc.IH [of "out + 2048" ?b "start + 1"] Suc.prems len by (auto simp: algebra_simps)
  have "b' ! (out + k * 2048 + j) = c ((start + k) * 2352 + 24 + j)" if kj: "k < Suc n" "j < 2048" for k j
  proof (cases k)
    case 0
    have "b' ! (out + j) = ?b ! (out + j)"
      by (rule b'(4)) (use Suc.prems kj in auto)
    then show ?thesis
      using 0 Suc.prems kj by (simp add: nth_blit)
  next
    case (Suc k')
    then show ?thesis
      using b'(3) kj unfolding sectors_at_def by (auto simp: algebra_simps)
  qed
  moreover have "b' ! x = b ! x" if "x < length b" "x < out \<or> out + Suc n * 2048 \<le> x" for x
    using b'(4) [of x] that Suc.prems by (auto simp: nth_blit)
  ultimately show ?case
    using b'(1,2) rd off by (auto simp: sectors_at_def)
qed

lemma read_cd_2048_ok:
  assumes c: "content d c" "live d" and len: "count * 2048 \<le> length buf"
    and lim: "count * 2048 < 2 ^ 32" "(start + count) * 2352 < 2 ^ 32"
  shows "\<exists>b. read_cd_2048 rd d buf start count = Some (0, b) \<and> length b = length buf
      \<and> sectors_at c 24 2048 start count 0 b \<and> (\<forall>x < length buf. count * 2048 \<le> x \<longrightarrow> b ! x = buf ! x)"
proof -
  define fit where "fit = count * 2048 div 2352"
  have fit: "fit * 2352 \<le> count * 2048" "fit \<le> count"
  proof -
    show le: "fit * 2352 \<le> count * 2048" by (simp add: fit_def)
    then show "fit \<le> count" by linarith
  qed
  have nums: "u32 (count * 2048) = count * 2048" "u32 (start * 2352) = start * 2352" "u32 (start + fit) = start + fit"
    "u32 (fit * 2352) = fit * 2352"
    using lim fit by (simp_all add: u32_def)
  have "\<exists>b. (if fit > 0 then (case rd d buf 0 (start * 2352) (fit * 2352) of None \<Rightarrow> None
         | Some (ret, b) \<Rightarrow> cd2048_strip b 0 0 fit) else Some buf) = Some b
      \<and> length b = length buf \<and> sectors_at c 24 2048 start fit 0 b
      \<and> (\<forall>x < length buf. count * 2048 \<le> x \<longrightarrow> b ! x = buf ! x)"
  proof (cases "fit > 0")
    case True
    let ?b = "blit buf 0 (map c [start * 2352..<start * 2352 + fit * 2352])"
    have rd: "rd d buf 0 (start * 2352) (fit * 2352) = Some (0, ?b)"
      by (rule rd_ok [OF c]) (use len lim fit in auto)
    have lb: "length ?b = length buf" using len fit by simp
    obtain b where b: "cd2048_strip ?b 0 0 fit = Some b" "length b = length ?b"
        "\<forall>k < fit. \<forall>j < 2048. b ! (0 + k * 2048 + j) = ?b ! (0 + k * 2352 + 24 + j)"
        "\<forall>x < length ?b. x < 0 \<or> 0 + fit * 2048 \<le> x \<longrightarrow> b ! x = ?b ! x"
      using cd2048_strip_spec [of 0 0 fit ?b] fit len lb by auto
    have "?b ! (k * 2352 + 24 + j) = c ((start + k) * 2352 + 24 + j)" if "k < fit" "j < 2048" for k j
    proof -
      have "k * 2352 + 2352 \<le> fit * 2352" using that by simp
      then show ?thesis using that fit len by (simp add: nth_blit algebra_simps)
    qed
    moreover have "?b ! x = buf ! x" if "x < length buf" "count * 2048 \<le> x" for x
      using that fit len by (auto simp: nth_blit)
    ultimately show ?thesis
      using True rd b lb fit by (auto simp: sectors_at_def)
  qed (simp add: sectors_at_def)
  then obtain b where b: "(if fit > 0 then (case rd d buf 0 (start * 2352) (fit * 2352) of None \<Rightarrow> None
         | Some (ret, b) \<Rightarrow> cd2048_strip b 0 0 fit) else Some buf) = Some b"
      "length b = length buf" "sectors_at c 24 2048 start fit 0 b"
      "\<forall>x < length buf. count * 2048 \<le> x \<longrightarrow> b ! x = buf ! x" by auto
  obtain b' where b': "cd2048_rest rd d b (fit * 2048) (start + fit) (count - fit) = Some b'"
      "length b' = length b" "sectors_at c 24 2048 (start + fit) (count - fit) (fit * 2048) b'"
      "\<forall>x < length b. x < fit * 2048 \<or> fit * 2048 + (count - fit) * 2048 \<le> x \<longrightarrow> b' ! x = b ! x"
    using cd2048_rest_ok [OF c, of "fit * 2048" "count - fit" b "start + fit"] b fit len lim
    by (auto simp: algebra_simps)
  have eq: "read_cd_2048 rd d buf start count = Some (0, b')"
    unfolding read_cd_2048_def Let_def nums fit_def [symmetric] b(1) option.case b'(1) ..
  have tot: "fit * 2048 + (count - fit) * 2048 = count * 2048"
    using fit by (simp flip: add_mult_distrib)
  have sec: "b' ! (k * 2048 + j) = c ((start + k) * 2352 + 24 + j)" if kj: "k < count" "j < 2048" for k j
  proof (cases "k < fit")
    case True
    have "k * 2048 + 2048 \<le> fit * 2048" using True by simp
    then have "b' ! (k * 2048 + j) = b ! (k * 2048 + j)"
      using b'(4) b(2) kj len fit by auto
    then show ?thesis using b(3) True kj by (simp add: sectors_at_def)
  next
    case False
    then obtain k' where "k = fit + k'" "k' < count - fit"
      using kj that [of "k - fit"] by simp
    then show ?thesis
      using b'(3) kj unfolding sectors_at_def by (auto simp: algebra_simps)
  qed
  have "b' ! x = buf ! x" if "x < length buf" "count * 2048 \<le> x" for x
    using that b'(4) b(2,4) tot by auto
  then show ?thesis
    using eq b(2) b'(2) sec by (auto simp: sectors_at_def)
qed

lemma cd_load_ok:
  assumes c: "content d c" "live d" and len: "ptr + remaining * 2352 \<le> length buf" "remaining \<le> 64"
    and lim: "(sector + 64) * 2352 < 2 ^ 32"
    and m: "case cd_cache st of Some m \<Rightarrow> 64 * 2352 \<le> length m
      | None \<Rightarrow> fst alloc = 0 \<and> 64 * 2352 \<le> length (snd alloc)"
  shows "\<exists>st'. cd_load rd alloc d st buf ptr sector remaining =
      Some (0, blit buf ptr (map c [sector * 2352..<sector * 2352 + remaining * 2352]), st') \<and> coherent c st'"
proof -
  obtain m0 where m0: "(case cd_cache st of Some m \<Rightarrow> Inr m
      | None \<Rightarrow> if fst alloc \<noteq> 0 then Inl (fst alloc) else Inr (snd alloc)) = Inr m0" "64 * 2352 \<le> length m0"
    using m by (cases "cd_cache st") auto
  let ?m = "blit m0 0 (map c [sector * 2352..<sector * 2352 + 64 * 2352])"
  have nums: "u32 (sector * 2352) = sector * 2352" "u32 (remaining * 2352) = remaining * 2352"
    using lim len by (simp_all add: u32_def)
  have rd: "rd d m0 0 (sector * 2352) (CD_CACHE_SIZE * 2352) = Some (0, ?m)"
    unfolding CD_CACHE_SIZE_def by (rule rd_ok [OF c]) (use m0 lim in auto)
  have lm: "length ?m = length m0" using m0 by simp
  have get: "mem_get ?m 0 (remaining * 2352) = Some (map c [sector * 2352..<sector * 2352 + remaining * 2352])"
  proof -
    have "chunk 0 (remaining * 2352) ?m = map c [sector * 2352..<sector * 2352 + remaining * 2352]"
      using m0(2) lm len(2) by (intro nth_equalityI) (auto simp: nth_chunk nth_blit)
    then show ?thesis using lm m0 len by (simp add: mem_get_def)
  qed
  have put: "mem_put buf ptr (map c [sector * 2352..<sector * 2352 + remaining * 2352])
      = Some (blit buf ptr (map c [sector * 2352..<sector * 2352 + remaining * 2352]))"
    using len by (simp add: mem_put_def)
  have "cd_load rd alloc d st buf ptr sector remaining =
      Some (0, blit buf ptr (map c [sector * 2352..<sector * 2352 + remaining * 2352]),
            \<lparr>cd_cache = Some ?m, cached_cd_sector = sector\<rparr>)"
    unfolding cd_load_def m0(1) nums sum.case rd option.case prod.case get put by simp
  moreover have "coherent c \<lparr>cd_cache = Some ?m, cached_cd_sector = sector\<rparr>"
    using lm m0(2) lim by (auto simp: coherent_def CD_CACHE_SIZE_def nth_blit)
  ultimately show ?thesis by blast
qed

text \<open>What the cache serves: nothing, the tail of the request, or its head.\<close>

lemma cd_serve_cases:
  assumes co: "coherent c st" and len: "remaining * 2352 \<le> length buf" "remaining \<le> 64"
    and lim: "(sector + remaining + 64) * 2352 < 2 ^ 32"
  shows "cd_serve st buf sector remaining = Some (buf, 0, sector, remaining, False)
    \<or> (\<exists>k < remaining. cd_serve st buf sector remaining =
          Some (blit buf (k * 2352) (map c [(sector + k) * 2352..<(sector + remaining) * 2352]), 0, sector, k, False))
    \<or> (\<exists>k < remaining. cd_serve st buf sector remaining =
          Some (blit buf 0 (map c [sector * 2352..<(sector + k) * 2352]), k * 2352, sector + k, remaining - k, False))
    \<or> (cd_serve st buf sector remaining =
          Some (blit buf 0 (map c [sector * 2352..<(sector + remaining) * 2352]), 0, sector, remaining, True))"
proof (cases "cd_cache st")
  case None
  then have cs: "cached_cd_sector st = 0x80000000"
    using co by (simp add: coherent_def)
  have s: "int sector < 2 ^ 21" using lim by simp
  show ?thesis
  proof (cases "sector = 0")
    case True
    then have "cd_hit (cached_cd_sector st) sector remaining
        = Some (- (2 ^ 31), 0, 0, u32i (min (s32 (int remaining)) (64 - 2 ^ 31)))"
      by (simp add: cd_hit_def cs s32_def abs32_def CD_CACHE_SIZE_def)
    then show ?thesis by (simp add: cd_serve_def None)
  next
    case False
    then have "s32 (int (cached_cd_sector st) - int sector) = 2 ^ 31 - int sector"
      using s by (intro trans [OF s32_id]) (auto simp: cs)
    then have "cd_hit (cached_cd_sector st) sector remaining = None"
      using s by (simp add: cd_hit_def abs32_def CD_CACHE_SIZE_def)
    then show ?thesis by (simp add: cd_serve_def)
  qed
next
  case (Some m)
  define a where "a = cached_cd_sector st"
  have m: "64 * 2352 \<le> length m" "(a + 64) * 2352 < 2 ^ 32" "\<And>i. i < 64 * 2352 \<Longrightarrow> m ! i = c (a * 2352 + i)"
    using co Some by (auto simp: coherent_def CD_CACHE_SIZE_def a_def)
  have hit: "cd_hit a sector remaining =
    (if sector < a then
       (if a < sector + remaining then Some (int a - int sector, 0, a - sector, sector + remaining - a) else None)
     else if sector < a + 64
     then Some (int a - int sector, int ((sector - a) * 2352), 0, min remaining (a + 64 - sector))
     else None)"
    by (rule cd_hit_eq) (use lim m(2) len in auto)
  have get: "mem_get m (i * 2352) (n * 2352) = Some (map c [(a + i) * 2352..<(a + i + n) * 2352])"
    if "i + n \<le> 64" for i n
  proof -
    have "i * 2352 + n * 2352 \<le> 64 * 2352" using that by simp
    then show ?thesis
      using m(1) m(3) by (auto simp: mem_get_def nth_chunk algebra_simps intro!: nth_equalityI)
  qed
  consider (tail) "sector < a" "a < sector + remaining" | (head) "\<not> sector < a" "sector < a + 64"
    | (none) "cd_hit a sector remaining = None"
    using hit by fastforce
  then show ?thesis
  proof cases
    case none
    then show ?thesis by (simp add: cd_serve_def a_def)
  next
    case tail
    define k where "k = a - sector"
    have k: "k < remaining" "0 < k" "a = sector + k" using tail by (auto simp: k_def)
    have h: "cd_hit (cached_cd_sector st) sector remaining = Some (int k, 0, k, remaining - k)"
      using hit tail k unfolding a_def [symmetric] by (simp add: of_nat_diff)
    have g: "mem_get m 0 ((remaining - k) * 2352) = Some (map c [(sector + k) * 2352..<(sector + remaining) * 2352])"
      using get [of 0 "remaining - k"] len(2) k by simp
    have nums: "u32 ((remaining - k) * 2352) = (remaining - k) * 2352" "u32 (k * 2352) = k * 2352"
      using len(2) k by (simp_all add: u32_def)
    have rk: "u32i (int remaining - int (remaining - k)) = k" "u32i (int k) = k" "remaining \<noteq> remaining - k"
      using k len by (auto simp: u32i_def of_nat_diff)
    have put: "mem_put buf (k * 2352) (map c [(sector + k) * 2352..<(sector + remaining) * 2352])
        = Some (blit buf (k * 2352) (map c [(sector + k) * 2352..<(sector + remaining) * 2352]))"
      using len k by (simp add: mem_put_def)
    have "cd_serve st buf sector remaining =
          Some (blit buf (k * 2352) (map c [(sector + k) * 2352..<(sector + remaining) * 2352]), 0, sector, k, False)"
      unfolding cd_serve_def h option.case prod.case Some using k by (simp add: g nums put rk del: distrib_right_numeral)
    then show ?thesis using k by blast
  next
    case head
    define i where "i = sector - a"
    define k where "k = min remaining (64 - i)"
    have i: "sector = a + i" "i < 64" "i + k \<le> 64" "k \<le> remaining"
      using head by (auto simp: i_def k_def)
    have h: "cd_hit (cached_cd_sector st) sector remaining = Some (- int i, int (i * 2352), 0, k)"
    proof -
      have "min remaining (a + 64 - sector) = k" "sector - a = i" "int a - int sector = - int i"
        using i(1,2) by (simp_all add: k_def)
      then show ?thesis
        using hit head by (simp only: a_def [symmetric] if_False if_True)
    qed
    have g: "mem_get m (i * 2352) (k * 2352) = Some (map c [sector * 2352..<(sector + k) * 2352])"
      using get [of i k] i by simp
    have nums: "u32 (k * 2352) = k * 2352" "u32 0 = 0"
      using i len by (simp_all add: u32_def)
    have put: "mem_put buf 0 (map c [sector * 2352..<(sector + k) * 2352])
        = Some (blit buf 0 (map c [sector * 2352..<(sector + k) * 2352]))"
      using len i(4) by (simp add: mem_put_def)
    have ni: "nat (int (i * 2352)) = i * 2352" "(int (i * 2352) < 0) = False" "0 * 2352 = (0 :: nat)"
      by simp_all
    show ?thesis
    proof (cases "k = remaining")
      case True
      then have "cd_serve st buf sector remaining =
          Some (blit buf 0 (map c [sector * 2352..<(sector + remaining) * 2352]), 0, sector, remaining, True)"
        unfolding cd_serve_def h option.case prod.case Some ni if_False g nums put using True by simp
      then show ?thesis by blast
    next
      case False
      then have ki: "k = 64 - i" "k < remaining" using i by (auto simp: k_def min_def split: if_splits)
      have ns: "u32 (cached_cd_sector st + 64) = sector + k"
        using m(2) i ki by (simp add: a_def [symmetric] u32_def)
      have nb: "u32 (u32i (int k) * 2352) = k * 2352"
        using i(3) by (simp add: u32i_def u32_def)
      have rk: "u32i (int remaining - int k) = remaining - k"
        using ki len by (simp add: u32i_def nat_diff_distrib)
      have "cd_serve st buf sector remaining =
          Some (blit buf 0 (map c [sector * 2352..<(sector + k) * 2352]), k * 2352, sector + k, remaining - k, False)"
        unfolding cd_serve_def h option.case prod.case Some CD_CACHE_SIZE_def ni if_False g nums put
        using ki(2) by (simp add: ns nb rk Let_def del: distrib_right_numeral)
      then show ?thesis using ki by blast
    qed
  qed
qed

lemma read_cd_2352_ok:
  assumes c: "content d c" "live d" and co: "coherent c st" and len: "remaining * 2352 \<le> length buf"
    and lim: "(sector + remaining + 64) * 2352 < 2 ^ 32"
    and al: "fst alloc = 0 \<and> 64 * 2352 \<le> length (snd alloc)"
  shows "\<exists>st'. read_cd_2352 rd alloc d st buf sector remaining =
      Some (0, blit buf 0 (map c [sector * 2352..<(sector + remaining) * 2352]), st') \<and> coherent c st'"
proof (cases "remaining \<le> 64")
  case False
  have "u32 (sector * 2352) = sector * 2352" "u32 (remaining * 2352) = remaining * 2352"
    using lim by (simp_all add: u32_def)
  moreover have "rd d buf 0 (sector * 2352) (remaining * 2352) =
      Some (0, blit buf 0 (map c [sector * 2352..<sector * 2352 + remaining * 2352]))"
    by (rule rd_ok [OF c]) (use lim len in auto)
  ultimately show ?thesis
    using False co by (simp add: read_cd_2352_def CD_CACHE_SIZE_def algebra_simps)
next
  case True
  have load: "\<exists>st'. cd_load rd alloc d st b ptr sec n =
      Some (0, blit b ptr (map c [sec * 2352..<(sec + n) * 2352]), st') \<and> coherent c st'"
    if "ptr + n * 2352 \<le> length b" "n \<le> 64" "(sec + 64) * 2352 < 2 ^ 32" for b ptr sec n
  proof -
    have "case cd_cache st of Some m \<Rightarrow> 64 * 2352 \<le> length m | None \<Rightarrow> fst alloc = 0 \<and> 64 * 2352 \<le> length (snd alloc)"
      using co al by (auto simp: coherent_def CD_CACHE_SIZE_def split: option.splits)
    from cd_load_ok [OF c that this] show ?thesis by (simp add: algebra_simps)
  qed
  have rd: "read_cd_2352 rd alloc d st buf sector remaining =
      (case cd_serve st buf sector remaining of None \<Rightarrow> None
         | Some (b, ptr, sector', remaining', True) \<Rightarrow> Some (0, b, st)
         | Some (b, ptr, sector', remaining', False) \<Rightarrow> cd_load rd alloc d st b ptr sector' remaining')"
    using True by (simp add: read_cd_2352_def CD_CACHE_SIZE_def)
  from cd_serve_cases [OF co len True lim] show ?thesis
  proof (elim disjE exE conjE)
    assume "cd_serve st buf sector remaining = Some (buf, 0, sector, remaining, False)"
    then show ?thesis
      using load [of 0 remaining buf sector] len lim True unfolding rd by simp
  next
    fix k
    let ?b = "blit buf (k * 2352) (map c [(sector + k) * 2352..<(sector + remaining) * 2352])"
    assume k: "k < remaining" and s: "cd_serve st buf sector remaining = Some (?b, 0, sector, k, False)"
    have lb: "length ?b = length buf" using k len by simp
    have "blit ?b 0 (map c [sector * 2352..<(sector + k) * 2352])
        = blit buf 0 (map c [sector * 2352..<(sector + remaining) * 2352])"
      using k len by (intro nth_equalityI) (auto simp: nth_blit)
    then show ?thesis
      using load [of 0 k ?b sector] len lim True k lb unfolding rd s by (simp del: distrib_right_numeral)
  next
    fix k
    let ?b = "blit buf 0 (map c [sector * 2352..<(sector + k) * 2352])"
    assume k: "k < remaining"
      and s: "cd_serve st buf sector remaining = Some (?b, k * 2352, sector + k, remaining - k, False)"
    have lb: "length ?b = length buf" using k len by simp
    have "blit ?b (k * 2352) (map c [(sector + k) * 2352..<(sector + k + (remaining - k)) * 2352])
        = blit buf 0 (map c [sector * 2352..<(sector + remaining) * 2352])"
      using k len by (intro nth_equalityI) (auto simp: nth_blit)
    then show ?thesis
      using load [of "k * 2352" "remaining - k" ?b "sector + k"] len lim True k lb unfolding rd s
      by (simp del: distrib_right_numeral)
  next
    assume "cd_serve st buf sector remaining =
          Some (blit buf 0 (map c [sector * 2352..<(sector + remaining) * 2352]), 0, sector, remaining, True)"
    then show ?thesis using co unfolding rd by simp
  qed
qed

end

section \<open>Properties\<close>

lemma iso_contentI: "dev_honest img dev \<Longrightarrow> image_ok im \<Longrightarrow> iso_content (dev, im) (image_byte img im)"
  by (auto simp: iso_content_def)

text \<open>
  C32. Reading 2048-byte sectors is correct: on a device that does not fail, a request for \<open>count\<close>
  sectors that fits its buffer returns 0 with the user data of each requested raw sector, in order,
  in the first \<open>count * 2048\<close> bytes, although the raw sectors were read into the same buffer first;
  the rest of the buffer is unchanged.
\<close>

theorem read_cd_2048_correct:
  assumes "dev_honest img dev" "dev_live dev" "image_ok im" "count * 2048 \<le> length buf"
    and "count * 2048 < 2 ^ 32" "(start + count) * 2352 < 2 ^ 32"
  shows "\<exists>b. process_read_cd_2048_cmd (dev, im) buf start count = Some (0, b) \<and> length b = length buf
    \<and> (\<forall>k < count. \<forall>j < 2048. b ! (k * 2048 + j) = image_byte img im ((start + k) * 2352 + 24 + j))
    \<and> (\<forall>x < length buf. count * 2048 \<le> x \<longrightarrow> b ! x = buf ! x)"
  using iso.read_cd_2048_ok [OF iso_contentI [OF assms(1,3)], of count buf start] assms
  unfolding process_read_cd_2048_cmd_def sectors_at_def by simp

theorem read_cd_2048_correct_witness:
  "\<exists>b. process_read_cd_2048_cmd
      (demo_dev (\<lambda>k. replicate 512 (word_of_nat k)), \<lparr>sections = [0], sections_size = [100]\<rparr>)
      (replicate 20480 0) 1 10 = Some (0, b) \<and> b ! 0 = 4 \<and> b ! (9 * 2048 + 5) = 45"
proof -
  let ?img = "\<lambda>k. replicate 512 (word_of_nat k) :: bytes"
  let ?im = "\<lparr>sections = [0], sections_size = [100]\<rparr>"
  have "dev_live (demo_dev ?img)" "image_ok ?im"
    by (simp_all add: dev_live_def demo_dev_def image_ok_def)
  then obtain b where b: "process_read_cd_2048_cmd (demo_dev ?img, ?im) (replicate 20480 0) 1 10 = Some (0, b)"
      "\<forall>k < 10. \<forall>j < 2048. b ! (k * 2048 + j) = image_byte ?img ?im ((1 + k) * 2352 + 24 + j)"
    using read_cd_2048_correct [of ?img "demo_dev ?img" ?im 10 "replicate 20480 0" 1]
      demo_dev_honest [of ?img] by auto
  have "b ! 0 = 4" "b ! (9 * 2048 + 5) = 45"
    using b(2) [rule_format, of 0 0] b(2) [rule_format, of 9 5] by (simp_all add: section_byte_def)
  with b(1) show ?thesis by blast
qed

text \<open>
  C28. The sector cache is transparent: on a device that does not fail, whatever part of the request
  the cache holds (nothing, its head, its tail, all of it), the raw read delivers exactly the
  requested sectors of the image, and the cache it leaves again holds the 64 sectors that
  \<open>cached_cd_sector\<close> names, so that the next request is served correctly as well.
\<close>

theorem read_cd_2352_correct:
  assumes "dev_honest img dev" "dev_live dev" "image_ok im" "coherent (image_byte img im) st"
    and "remaining * 2352 \<le> length buf" "(sector + remaining + 64) * 2352 < 2 ^ 32"
    and "fst alloc = 0" "192 * 1024 \<le> length (snd alloc)"
  shows "\<exists>b st'. process_read_cd_2352_cmd alloc (dev, im) st buf sector remaining = Some (0, b, st')
    \<and> coherent (image_byte img im) st' \<and> length b = length buf
    \<and> (\<forall>k < length buf. b ! k = (if k < remaining * 2352 then image_byte img im (sector * 2352 + k) else buf ! k))"
proof -
  let ?xs = "map (image_byte img im) [sector * 2352..<(sector + remaining) * 2352]"
  have lx: "length ?xs = remaining * 2352" by simp
  obtain st' where "read_cd_2352 process_read_iso_cmd alloc (dev, im) st buf sector remaining = Some (0, blit buf 0 ?xs, st')"
      "coherent (image_byte img im) st'"
    using iso.read_cd_2352_ok [OF iso_contentI [OF assms(1,3)], of st remaining buf sector alloc] assms by auto
  moreover have "blit buf 0 ?xs ! k = (if k < remaining * 2352 then image_byte img im (sector * 2352 + k) else buf ! k)"
    if "k < length buf" for k
    using that assms(5) lx by (auto simp: nth_blit)
  moreover have "length (blit buf 0 ?xs) = length buf"
    by (rule length_blit) (use lx assms(5) in simp)
  ultimately show ?thesis
    unfolding process_read_cd_2352_cmd_def by blast
qed

theorem read_cd_2352_correct_witness:
  "\<exists>b st'. process_read_cd_2352_cmd (0, replicate 196608 0)
      (demo_dev (\<lambda>k. replicate 512 (word_of_nat k)), \<lparr>sections = [0], sections_size = [10000]\<rparr>) cd_init
      (replicate 4704 0) 0 2 = Some (0, b, st') \<and> b ! 600 = 1 \<and> b ! 4703 = 9"
proof -
  let ?img = "\<lambda>k. replicate 512 (word_of_nat k) :: bytes"
  let ?im = "\<lparr>sections = [0], sections_size = [10000]\<rparr>"
  have "dev_live (demo_dev ?img)" "image_ok ?im" "coherent (image_byte ?img ?im) cd_init"
    by (simp_all add: dev_live_def demo_dev_def image_ok_def coherent_def cd_init_def)
  then obtain b st' where b: "process_read_cd_2352_cmd (0, replicate 196608 0) (demo_dev ?img, ?im) cd_init (replicate 4704 0) 0 2 = Some (0, b, st')"
      "\<forall>k < 4704. b ! k = image_byte ?img ?im k"
    using read_cd_2352_correct [of ?img "demo_dev ?img" ?im cd_init 2 "replicate 4704 0" 0 "(0, replicate 196608 0)"]
      demo_dev_honest [of ?img] by auto
  have "b ! 600 = 1" "b ! 4703 = 9"
    using b(2) [rule_format, of 600] b(2) [rule_format, of 4703] by (simp_all add: section_byte_def)
  with b(1) show ?thesis by blast
qed

text \<open>
  The 2048-byte read loses errors: on a device that fails every read it returns 0 and leaves the
  buffer as it was.
\<close>

lemma read_cd_2048_hides_errors:
  "process_read_cd_2048_cmd ((\<lambda>s n. (5, 0, [])), \<lparr>sections = [0], sections_size = [100]\<rparr>) (replicate 2048 7) 0 1
   = Some (0, replicate 2048 7)"
proof -
  let ?di = "((\<lambda>s n. (5, 0, [])) :: storage, \<lparr>sections = [0], sections_size = [100]\<rparr>)"
  have "process_read_iso_cmd ?di (replicate 2048 7) 0 24 2048 = Some (- 1, replicate 2048 7)"
    unfolding process_read_iso_cmd_def
    by (subst iso_loop.simps) (simp add: iso_round_def get_next_read_def iso_data_def iso_head_def rd_bind_def Let_def)
  then show ?thesis
    unfolding process_read_cd_2048_cmd_def read_cd_2048_def
    by (simp add: Let_def u32_def)
qed

text \<open>The state after a whole window of 64 sectors of ones has been cached, and a device that stores
  nines and then reports an error.\<close>

definition ones_state :: cd_state where
  "ones_state = \<lparr>cd_cache = Some (replicate 196608 1), cached_cd_sector = 0\<rparr>"

definition big_image :: iso_image where
  "big_image = \<lparr>sections = [0], sections_size = [10000]\<rparr>"

definition failing_dev :: storage where
  "failing_dev s n = (5, 0, replicate (n * 512) 9)"

lemma failing_window:
  "length m = 196608 \<Longrightarrow> process_read_iso_cmd (failing_dev, big_image) m 0 301056 150528
     = Some (- 1, blit m 0 (replicate 150528 9))"
  unfolding process_read_iso_cmd_def
  by (subst iso_loop.simps)
    (simp add: iso_round_def get_next_read_def iso_data_def iso_head_def iso_body_def rd_bind_def Let_def
      big_image_def failing_dev_def mem_put_def u32_def u64_def)

lemma cd_hit_far: "cd_hit 0 128 1 = None" "cd_hit 0 0 1 = Some (0, 0, 0, 1)"
    "cd_hit 2147483648 128 1 = None" "cd_hit 2147483648 0 1 = Some (- 2147483648, 0, 0, 2147483712)"
  by (simp_all add: cd_hit_def s32_def abs32_def CD_CACHE_SIZE_def u32i_def)

text \<open>
  A failed read poisons the cache: when the load of a new window fails after it has overwritten
  the cache, \<open>cached_cd_sector\<close> still names the old window. The next request for a sector of the old
  window succeeds without touching the device and delivers the debris of the failed transfer: all
  nines, where the image (and the cache before) has ones.
\<close>

lemma read_cd_2352_stale_cache:
  "let img = (\<lambda>k. replicate 512 1); st' = \<lparr>cd_cache = Some (blit (replicate 196608 1) 0 (replicate 150528 9)), cached_cd_sector = 0\<rparr>
   in coherent (image_byte img big_image) ones_state
    \<and> process_read_cd_2352_cmd (0, []) (failing_dev, big_image) ones_state (replicate 2352 0) 128 1
        = Some (- 1, replicate 2352 0, st')
    \<and> process_read_cd_2352_cmd (0, []) (demo_dev img, big_image) st' (replicate 2352 0) 0 1
        = Some (0, replicate 2352 9, st')
    \<and> map (image_byte img big_image) [0..<2352] = replicate 2352 1"
proof -
  let ?m = "blit (replicate 196608 1) 0 (replicate 150528 9) :: bytes"
  have co: "coherent (image_byte (\<lambda>k. replicate 512 1) big_image) ones_state"
    by (auto simp: coherent_def ones_state_def big_image_def section_byte_def CD_CACHE_SIZE_def)
  have fail: "process_read_cd_2352_cmd (0, []) (failing_dev, big_image) ones_state (replicate 2352 0) 128 1
        = Some (- 1, replicate 2352 0, \<lparr>cd_cache = Some ?m, cached_cd_sector = 0\<rparr>)"
    unfolding process_read_cd_2352_cmd_def read_cd_2352_def
    by (simp add: CD_CACHE_SIZE_def cd_serve_def ones_state_def cd_hit_far [unfolded One_nat_def] cd_load_def u32_def failing_window)
  have m: "chunk 0 2352 ?m = replicate 2352 9" "blit (replicate 2352 0) 0 (replicate 2352 (9 :: u8)) = replicate 2352 9"
    by (simp_all add: chunk_def blit_def)
  have hit: "process_read_cd_2352_cmd (0, []) (demo_dev (\<lambda>k. replicate 512 1), big_image)
        \<lparr>cd_cache = Some ?m, cached_cd_sector = 0\<rparr> (replicate 2352 0) 0 1
        = Some (0, replicate 2352 9, \<lparr>cd_cache = Some ?m, cached_cd_sector = 0\<rparr>)"
    unfolding process_read_cd_2352_cmd_def read_cd_2352_def
    by (simp add: CD_CACHE_SIZE_def cd_serve_def cd_hit_far [unfolded One_nat_def] u32_def mem_get_def mem_put_def m)
  have ones: "map (image_byte (\<lambda>k. replicate 512 1) big_image) [0..<2352] = replicate 2352 1"
    by (intro nth_equalityI) (auto simp: big_image_def section_byte_def)
  show ?thesis
    unfolding Let_def using co fail hit ones by blast
qed

text \<open>
  The initial value of \<open>cached_cd_sector\<close> overruns the request buffer: after a first load that
  failed, a one-sector request for sector 0 gets \<open>dif = INT_MIN\<close>, which passes the \<open>ABS\<close> test, and
  the copy size becomes 64 sectors.
\<close>

lemma read_cd_2352_initial_overrun:
  "let st' = \<lparr>cd_cache = Some (blit (replicate 196608 0) 0 (replicate 150528 9)), cached_cd_sector = 0x80000000\<rparr>
   in process_read_cd_2352_cmd (0, replicate 196608 0) (failing_dev, big_image) cd_init (replicate 2352 0) 128 1
        = Some (- 1, replicate 2352 0, st')
    \<and> process_read_cd_2352_cmd (0, replicate 196608 0) (dev, big_image) st' (replicate 2352 0) 0 1 = None"
proof -
  have "process_read_cd_2352_cmd (0, replicate 196608 0) (failing_dev, big_image) cd_init (replicate 2352 0) 128 1
        = Some (- 1, replicate 2352 0,
            \<lparr>cd_cache = Some (blit (replicate 196608 0) 0 (replicate 150528 9)), cached_cd_sector = 0x80000000\<rparr>)"
    unfolding process_read_cd_2352_cmd_def read_cd_2352_def
    by (simp add: CD_CACHE_SIZE_def cd_serve_def cd_init_def cd_hit_far [unfolded One_nat_def] cd_load_def u32_def failing_window)
  moreover have "process_read_cd_2352_cmd (0, replicate 196608 0) (dev, big_image)
      \<lparr>cd_cache = Some (blit (replicate 196608 0) 0 (replicate 150528 9)), cached_cd_sector = 0x80000000\<rparr>
      (replicate 2352 0) 0 1 = None"
    unfolding process_read_cd_2352_cmd_def read_cd_2352_def
    by (simp add: CD_CACHE_SIZE_def cd_serve_def cd_hit_far [unfolded One_nat_def] u32_def mem_get_def mem_put_def)
  ultimately show ?thesis by (simp add: Let_def)
qed

end
