(* ===== verification/RawSecThread.thy ===== *)
theory RawSecThread
  imports RawSecCd
begin

text \<open>
  The disc emulation plugin, third part: the thread that serves the read commands, and the protocol
  with the thread that stops it. \<open>handle_event\<close> is the body of the event loop; a session is a list of
  commands. The two threads are a step relation over the resources they share (storage handle, port,
  queue, argument block, cache, mount), in which the steps of the stop thread fall between any two
  system calls of the main thread.
\<close>

section \<open>The event loop\<close>

record sys_event =
  data1 :: nat
  data2 :: nat
  data3 :: nat

definition CMD_READ_ISO :: nat where "CMD_READ_ISO = 0"
definition CMD_READ_CD_ISO_2352 :: nat where "CMD_READ_CD_ISO_2352 = 2"

text \<open>\<open>buf\<close> is the memory at the address in the high half of \<open>data3\<close>. A command that is neither of the
  two leaves \<open>ret\<close> at the 0 of the successful receive.\<close>

definition handle_event ::
  "bool \<Rightarrow> int \<times> bytes \<Rightarrow> storage \<times> iso_image \<Rightarrow> cd_state \<Rightarrow> sys_event \<Rightarrow> bytes
     \<Rightarrow> (int \<times> bytes \<times> cd_state) option" where
  "handle_event is_cd2352 alloc di st event buf =
     (let offset = data2 event; sz = data3 event mod 2 ^ 32
      in if data1 event = CMD_READ_ISO then
           (case (if is_cd2352 then process_read_cd_2048_cmd di buf (u32 (offset div 2048)) (sz div 2048)
                  else process_read_iso_cmd di buf 0 offset sz) of None \<Rightarrow> None
            | Some (ret, b) \<Rightarrow> Some (ret, b, st))
         else if data1 event = CMD_READ_CD_ISO_2352 then
           process_read_cd_2352_cmd alloc di st buf (u32 (offset div 2352)) (sz div 2352)
         else Some (0, buf, st))"

fun serve :: "bool \<Rightarrow> int \<times> bytes \<Rightarrow> storage \<times> iso_image \<Rightarrow> cd_state \<Rightarrow> (sys_event \<times> bytes) list
    \<Rightarrow> ((int \<times> bytes) list \<times> cd_state) option" where
  "serve cd alloc di st [] = Some ([], st)"
| "serve cd alloc di st ((ev, buf) # reqs) =
     (case handle_event cd alloc di st ev buf of None \<Rightarrow> None
      | Some (ret, b, st') \<Rightarrow>
          (case serve cd alloc di st' reqs of None \<Rightarrow> None
           | Some (replies, st'') \<Rightarrow> Some ((ret, b) # replies, st'')))"

text \<open>The disc size that is announced at the mount, a whole number of raw sectors for a CD.\<close>

definition disc_size :: "bool \<Rightarrow> nat list \<Rightarrow> nat" where
  "disc_size is_cd2352 szs =
     (let discsize = u64 (u64 (sum_list szs) * 512)
      in if is_cd2352 \<and> discsize mod 2352 \<noteq> 0 then discsize - discsize mod 2352 else discsize)"

section \<open>What a command should deliver\<close>

definition event_ok :: "bool \<Rightarrow> sys_event \<Rightarrow> bytes \<Rightarrow> bool" where
  "event_ok cd ev buf \<longleftrightarrow>
     (let offset = data2 ev; sz = data3 ev mod 2 ^ 32
      in sz \<le> length buf \<and>
         (if data1 ev = CMD_READ_ISO then
            (if cd then (offset div 2048 + sz div 2048) * 2352 < 2 ^ 32 else offset + sz < 2 ^ 64)
          else data1 ev = CMD_READ_CD_ISO_2352 \<longrightarrow> (offset div 2352 + sz div 2352 + 64) * 2352 < 2 ^ 32))"

definition reply_byte :: "(nat \<Rightarrow> u8) \<Rightarrow> bool \<Rightarrow> sys_event \<Rightarrow> bytes \<Rightarrow> nat \<Rightarrow> u8" where
  "reply_byte c cd ev buf k =
     (let offset = data2 ev; sz = data3 ev mod 2 ^ 32
      in if data1 ev = CMD_READ_ISO \<and> cd \<and> k < sz div 2048 * 2048
         then c ((offset div 2048 + k div 2048) * 2352 + 24 + k mod 2048)
         else if data1 ev = CMD_READ_ISO \<and> \<not> cd \<and> k < sz then c (offset + k)
         else if data1 ev = CMD_READ_CD_ISO_2352 \<and> k < sz div 2352 * 2352
         then c (offset div 2352 * 2352 + k)
         else buf ! k)"

definition reply_ok :: "(nat \<Rightarrow> u8) \<Rightarrow> bool \<Rightarrow> sys_event \<times> bytes \<Rightarrow> int \<times> bytes \<Rightarrow> bool" where
  "reply_ok c cd req r \<longleftrightarrow> fst r = 0 \<and> snd r = map (reply_byte c cd (fst req) (snd req)) [0..<length (snd req)]"

lemma handle_event_ok:
  assumes dev: "dev_honest img dev" "dev_live dev" "image_ok im" and co: "coherent (image_byte img im) st"
    and al: "fst alloc = 0" "192 * 1024 \<le> length (snd alloc)" and ev: "event_ok cd ev buf"
  shows "\<exists>ret b st'. handle_event cd alloc (dev, im) st ev buf = Some (ret, b, st')
    \<and> reply_ok (image_byte img im) cd (ev, buf) (ret, b) \<and> coherent (image_byte img im) st'"
proof -
  let ?c = "image_byte img im" and ?off = "data2 ev" and ?sz = "data3 ev mod 2 ^ 32"
  have content: "iso_content (dev, im) ?c" by (rule iso_contentI [OF dev(1,3)])
  have sz: "?sz < 2 ^ 32" "?sz \<le> length buf" using ev by (simp_all add: event_ok_def Let_def)
  have small: "(a + b) * 2352 < m \<Longrightarrow> a < m" for a b m :: nat
    by simp
  note defs = handle_event_def Let_def CMD_READ_ISO_def CMD_READ_CD_ISO_2352_def
  have reply: "reply_ok ?c cd (ev, buf) (0, b)"
    if "length b = length buf" "\<And>k. k < length buf \<Longrightarrow> b ! k = reply_byte ?c cd ev buf k" for b
    using that by (auto simp: reply_ok_def intro: nth_equalityI)
  consider (cd) "data1 ev = 0" "cd" | (iso) "data1 ev = 0" "\<not> cd" | (raw) "data1 ev = 2" | (other) "data1 ev \<noteq> 0" "data1 ev \<noteq> 2"
    by blast
  then show ?thesis
  proof cases
    case cd
    have lim: "(?off div 2048 + ?sz div 2048) * 2352 < 2 ^ 32"
      using ev cd by (simp add: event_ok_def Let_def CMD_READ_ISO_def)
    have n: "?sz div 2048 * 2048 \<le> length buf" "?sz div 2048 * 2048 < 2 ^ 32"
      using sz div_times_less_eq_dividend [of ?sz 2048] by linarith+
    have u: "u32 (?off div 2048) = ?off div 2048"
      by (rule u32_id [OF small [OF lim]])
    obtain b where b: "read_cd_2048 process_read_iso_cmd (dev, im) buf (?off div 2048) (?sz div 2048) = Some (0, b)"
        "length b = length buf" "sectors_at ?c 24 2048 (?off div 2048) (?sz div 2048) 0 b"
        "\<forall>x < length buf. ?sz div 2048 * 2048 \<le> x \<longrightarrow> b ! x = buf ! x"
      using iso.read_cd_2048_ok [OF content, of "?sz div 2048" buf "?off div 2048"] dev n lim by auto
    have "b ! k = reply_byte ?c cd ev buf k" if k: "k < length buf" for k
    proof (cases "k < ?sz div 2048 * 2048")
      case True
      then have "k div 2048 < ?sz div 2048" "k mod 2048 < 2048"
        by (simp_all add: less_mult_imp_div_less)
      then have "b ! (0 + k div 2048 * 2048 + k mod 2048) = ?c ((?off div 2048 + k div 2048) * 2352 + 24 + k mod 2048)"
        using b(3) unfolding sectors_at_def by blast
      then show ?thesis
        using True cd unfolding add_0 div_mult_mod_eq by (simp add: reply_byte_def Let_def CMD_READ_ISO_def)
    next
      case False
      then show ?thesis
        using b(4) k cd by (simp add: reply_byte_def Let_def CMD_READ_ISO_def CMD_READ_CD_ISO_2352_def)
    qed
    then show ?thesis
      using reply [OF b(2)] b(1) cd co unfolding defs process_read_cd_2048_cmd_def u by simp
  next
    case iso
    have lim: "?off + ?sz < 2 ^ 64"
      using ev iso by (simp add: event_ok_def Let_def CMD_READ_ISO_def)
    have r: "process_read_iso_cmd (dev, im) buf 0 ?off ?sz = Some (0, blit buf 0 (map ?c [?off..<?off + ?sz]))"
      by (rule iso.rd_ok [OF content]) (use dev sz lim in simp_all)
    have "blit buf 0 (map ?c [?off..<?off + ?sz]) ! k = reply_byte ?c cd ev buf k" if "k < length buf" for k
      using that sz iso by (auto simp: nth_blit reply_byte_def Let_def CMD_READ_ISO_def CMD_READ_CD_ISO_2352_def)
    then show ?thesis
      using reply [of "blit buf 0 (map ?c [?off..<?off + ?sz])"] r iso co sz unfolding defs by simp
  next
    case raw
    have lim: "(?off div 2352 + ?sz div 2352 + 64) * 2352 < 2 ^ 32"
      using ev raw by (simp add: event_ok_def Let_def CMD_READ_ISO_def CMD_READ_CD_ISO_2352_def)
    have n: "?sz div 2352 * 2352 \<le> length buf"
      using sz div_times_less_eq_dividend [of ?sz 2352] by linarith
    have u: "u32 (?off div 2352) = ?off div 2352"
      using u32_id [OF small [of _ "?sz div 2352 + 64"]] lim by (simp only: add.assoc)
    let ?xs = "map ?c [?off div 2352 * 2352..<(?off div 2352 + ?sz div 2352) * 2352]"
    have lx: "length ?xs = ?sz div 2352 * 2352" by simp
    obtain st' where r: "read_cd_2352 process_read_iso_cmd alloc (dev, im) st buf (?off div 2352) (?sz div 2352)
        = Some (0, blit buf 0 ?xs, st')" "coherent ?c st'"
    proof -
      have "fst alloc = 0 \<and> 64 * 2352 \<le> length (snd alloc)" "dev_live (fst (dev, im))"
        using al dev by simp_all
      then show ?thesis
        using iso.read_cd_2352_ok [OF content _ co n lim, of alloc] that by blast
    qed
    have lb: "length (blit buf 0 ?xs) = length buf"
      by (rule length_blit) (use lx n in simp)
    have "blit buf 0 ?xs ! k = reply_byte ?c cd ev buf k" if "k < length buf" for k
      using that n lx raw by (auto simp: nth_blit reply_byte_def Let_def CMD_READ_ISO_def CMD_READ_CD_ISO_2352_def)
    then have "reply_ok ?c cd (ev, buf) (0, blit buf 0 ?xs)"
      using reply [OF lb] by blast
    then show ?thesis
      using r raw unfolding defs process_read_cd_2352_cmd_def u by auto
  next
    case other
    have "reply_ok ?c cd (ev, buf) (0, buf)"
      by (rule reply) (use other in \<open>simp_all add: reply_byte_def CMD_READ_ISO_def CMD_READ_CD_ISO_2352_def\<close>)
    then show ?thesis
      using other co unfolding defs by simp
  qed
qed

lemma serve_ok:
  assumes dev: "dev_honest img dev" "dev_live dev" "image_ok im"
    and al: "fst alloc = 0" "192 * 1024 \<le> length (snd alloc)"
  shows "coherent (image_byte img im) st \<Longrightarrow> list_all (\<lambda>(ev, buf). event_ok cd ev buf) reqs \<Longrightarrow>
    \<exists>replies st'. serve cd alloc (dev, im) st reqs = Some (replies, st')
      \<and> list_all2 (reply_ok (image_byte img im) cd) reqs replies"
proof (induction reqs arbitrary: st)
  case Nil
  then show ?case by simp
next
  case (Cons req reqs)
  obtain ev buf where req: "req = (ev, buf)" by fastforce
  obtain ret b st1 where h: "handle_event cd alloc (dev, im) st ev buf = Some (ret, b, st1)"
      "reply_ok (image_byte img im) cd (ev, buf) (ret, b)" "coherent (image_byte img im) st1"
    using handle_event_ok [OF dev Cons.prems(1) al, of cd ev buf] Cons.prems(2) req by auto
  obtain replies st2 where "serve cd alloc (dev, im) st1 reqs = Some (replies, st2)"
      "list_all2 (reply_ok (image_byte img im) cd) reqs replies"
    using Cons.IH [OF h(3)] Cons.prems(2) by auto
  then show ?case using h req by simp
qed

section \<open>The two threads\<close>

text \<open>What the main thread acquires and has to give back. A release call that fails leaves the resource leaked; a release of
  something that is not held is a misuse.\<close>

datatype resource = Args | Storage | Port | Mount | Cache

datatype res_status = Absent | Held | Released | Leaked | Misused

definition sys_release :: "bool \<Rightarrow> res_status \<Rightarrow> res_status" where
  "sys_release ok st = (if st = Held then if ok then Released else Leaked else Misused)"

text \<open>Where the main thread is: before the open, the port, the queue and the mount, at the receive of the loop, with a command
  served and its status to send, with a list of releases still to call, or gone.\<close>

datatype main_pc = M_open | M_port | M_queue | M_mount | M_receive | M_send int | M_release "resource list" | M_exited

datatype stop_pc = S_idle | S_flag | S_join | S_done

text \<open>\<open>command_queue\<close>: \<open>-1\<close>, a live queue, or a destroyed one.\<close>

datatype queue_status = Q_none | Q_live | Q_destroyed

text \<open>\<open>pending\<close> counts the events in the queue; \<open>destroy_failed\<close> records a failed \<open>sys_event_queue_destroy\<close>.\<close>

record plugin =
  pc :: main_pc
  stopper :: stop_pc
  running :: bool
  queue :: queue_status
  pending :: nat
  destroy_failed :: bool
  res :: "resource \<Rightarrow> res_status"
  replies :: "int list"

definition plugin_init :: plugin where
  "plugin_init = \<lparr>pc = M_open, stopper = S_idle, running = True, queue = Q_none, pending = 0, destroy_failed = False,
     res = (\<lambda>r. Absent)(Args := Held), replies = []\<rparr>"

text \<open>The releases behind the loop, in the order of the code.\<close>

definition shut_down :: "resource list" where
  "shut_down = [Args, Mount, Cache, Storage, Port]"

text \<open>Every system call is a step, with its failure where it has one. An event may arrive whenever the queue is alive. A receive
  waits for an event and fails only on a queue that is not alive; serving a command may allocate the cache.\<close>

inductive plugin_step :: "plugin \<Rightarrow> plugin \<Rightarrow> bool" where
  open_fail: "pc s = M_open \<Longrightarrow> plugin_step s (s \<lparr>pc := M_release [Args]\<rparr>)"
| open_ok: "pc s = M_open \<Longrightarrow> plugin_step s (s \<lparr>res := (res s)(Storage := Held), pc := M_port\<rparr>)"
| port_fail: "pc s = M_port \<Longrightarrow> plugin_step s (s \<lparr>pc := M_release [Storage, Args]\<rparr>)"
| port_ok: "pc s = M_port \<Longrightarrow> plugin_step s (s \<lparr>res := (res s)(Port := Held), pc := M_queue\<rparr>)"
| queue_fail: "pc s = M_queue \<Longrightarrow> plugin_step s (s \<lparr>pc := M_release [Port, Storage, Args]\<rparr>)"
| queue_ok: "pc s = M_queue \<Longrightarrow> plugin_step s (s \<lparr>queue := Q_live, pc := M_mount\<rparr>)"
| mount_fail: "pc s = M_mount \<Longrightarrow> plugin_step s (s \<lparr>pc := M_release [Port, Storage, Args]\<rparr>)"
| mount_ok: "pc s = M_mount \<Longrightarrow> plugin_step s (s \<lparr>res := (res s)(Mount := Held), pc := M_receive\<rparr>)"
| event: "queue s = Q_live \<Longrightarrow> plugin_step s (s \<lparr>pending := Suc (pending s)\<rparr>)"
| receive_fail: "pc s = M_receive \<Longrightarrow> queue s \<noteq> Q_live \<Longrightarrow> plugin_step s (s \<lparr>pc := M_release shut_down\<rparr>)"
| receive_stop: "pc s = M_receive \<Longrightarrow> queue s = Q_live \<Longrightarrow> pending s = Suc n \<Longrightarrow> \<not> running s \<Longrightarrow>
    plugin_step s (s \<lparr>pending := n, pc := M_release shut_down\<rparr>)"
| receive_serve: "pc s = M_receive \<Longrightarrow> queue s = Q_live \<Longrightarrow> pending s = Suc n \<Longrightarrow> running s \<Longrightarrow>
    plugin_step s (s \<lparr>pending := n, res := (if allocated then (res s)(Cache := Held) else res s), pc := M_send ret\<rparr>)"
| send_ok: "pc s = M_send ret \<Longrightarrow> plugin_step s (s \<lparr>replies := ret # replies s, pc := M_receive\<rparr>)"
| send_fail: "pc s = M_send ret \<Longrightarrow> plugin_step s (s \<lparr>pc := M_release shut_down\<rparr>)"
| release: "pc s = M_release (r # rs) \<Longrightarrow> r = Cache \<longrightarrow> res s Cache \<noteq> Absent \<Longrightarrow>
    plugin_step s (s \<lparr>res := (res s)(r := sys_release ok (res s r)), pc := M_release rs\<rparr>)"
| no_cache: "pc s = M_release (Cache # rs) \<Longrightarrow> res s Cache = Absent \<Longrightarrow> plugin_step s (s \<lparr>pc := M_release rs\<rparr>)"
| thread_exit: "pc s = M_release [] \<Longrightarrow> plugin_step s (s \<lparr>pc := M_exited\<rparr>)"
| stop_flag: "stopper s = S_idle \<Longrightarrow> plugin_step s (s \<lparr>running := False, stopper := S_flag\<rparr>)"
| stop_no_queue: "stopper s = S_flag \<Longrightarrow> queue s = Q_none \<Longrightarrow> plugin_step s (s \<lparr>stopper := S_join\<rparr>)"
| stop_queue: "stopper s = S_flag \<Longrightarrow> queue s = Q_live \<Longrightarrow> plugin_step s (s \<lparr>queue := Q_destroyed, pending := 0, stopper := S_join\<rparr>)"
| stop_queue_fail: "stopper s = S_flag \<Longrightarrow> queue s = Q_live \<Longrightarrow> plugin_step s (s \<lparr>destroy_failed := True, stopper := S_join\<rparr>)"
| stop_join: "stopper s = S_join \<Longrightarrow> pc s = M_exited \<Longrightarrow> plugin_step s (s \<lparr>stopper := S_done\<rparr>)"

abbreviation plugin_steps :: "plugin \<Rightarrow> plugin \<Rightarrow> bool" where
  "plugin_steps \<equiv> plugin_step\<^sup>*\<^sup>*"

inductive_cases plugin_stepE: "plugin_step s s'"

text \<open>What each program point has to release; the cache only if there is one.\<close>

fun owed :: "main_pc \<Rightarrow> resource list" where
  "owed M_open = [Args]"
| "owed M_port = [Storage, Args]"
| "owed M_queue = [Port, Storage, Args]"
| "owed M_mount = [Port, Storage, Args]"
| "owed M_receive = shut_down"
| "owed (M_send ret) = shut_down"
| "owed (M_release rs) = rs"
| "owed M_exited = []"

definition res_inv :: "resource list \<Rightarrow> (resource \<Rightarrow> res_status) \<Rightarrow> bool" where
  "res_inv rs f \<longleftrightarrow> distinct rs \<and> (\<forall>r. f r \<noteq> Misused) \<and> (\<forall>r. r \<noteq> Cache \<longrightarrow> (f r = Held \<longleftrightarrow> r \<in> set rs))
     \<and> (if Cache \<in> set rs then f Cache = Absent \<or> f Cache = Held else f Cache \<noteq> Held) \<and> (f Args \<noteq> Absent)"

definition plugin_inv :: "plugin \<Rightarrow> bool" where
  "plugin_inv s \<longleftrightarrow> res_inv (owed (pc s)) (res s) \<and> (pc s \<in> {M_open, M_port, M_queue} \<longrightarrow> queue s = Q_none)
     \<and> (pc s \<in> {M_mount, M_receive} \<or> (\<exists>ret. pc s = M_send ret) \<longrightarrow> queue s \<noteq> Q_none)
     \<and> (running s \<longleftrightarrow> stopper s = S_idle) \<and> (stopper s = S_done \<longrightarrow> pc s = M_exited)"

lemma set_shut_down [simp]: "set shut_down = UNIV" "distinct shut_down"
  by (auto simp: shut_down_def) (metis resource.exhaust)

lemma res_inv_acquire: "res_inv rs f \<Longrightarrow> r \<notin> set rs \<Longrightarrow> r \<noteq> Cache \<Longrightarrow> res_inv (r # rs) (f(r := Held))"
  by (auto simp: res_inv_def)

lemma res_inv_cache: "res_inv rs f \<Longrightarrow> Cache \<in> set rs \<Longrightarrow> res_inv rs (f(Cache := Held))"
  by (auto simp: res_inv_def)

lemma res_inv_release: "res_inv (r # rs) f \<Longrightarrow> r = Cache \<longrightarrow> f Cache \<noteq> Absent \<Longrightarrow> res_inv rs (f(r := sys_release ok (f r)))"
  by (cases "r = Cache") (auto simp: res_inv_def sys_release_def)

lemma res_inv_no_cache: "res_inv (Cache # rs) f \<Longrightarrow> f Cache = Absent \<Longrightarrow> res_inv rs f"
  by (auto simp: res_inv_def)

lemma res_inv_permute: "res_inv rs f \<Longrightarrow> set rs' = set rs \<Longrightarrow> distinct rs' \<Longrightarrow> res_inv rs' f"
  by (simp add: res_inv_def)

lemma res_inv_mount: "res_inv [Port, Storage, Args] f \<Longrightarrow> f Cache = Absent \<Longrightarrow> res_inv shut_down (f(Mount := Held))"
  by (auto simp: res_inv_def) (metis resource.exhaust)

lemma plugin_inv_init: "plugin_inv plugin_init"
  by (simp add: plugin_inv_def plugin_init_def res_inv_def)

text \<open>Until the first command the cache is absent.\<close>

definition cache_inv :: "plugin \<Rightarrow> bool" where
  "cache_inv s \<longleftrightarrow> (pc s \<in> {M_open, M_port, M_queue, M_mount} \<longrightarrow> res s Cache = Absent)"

lemma cache_inv_step: "plugin_step s s' \<Longrightarrow> cache_inv s \<Longrightarrow> cache_inv s'"
  by (induction rule: plugin_step.induct) (auto simp: cache_inv_def)

lemma plugin_inv_step: "plugin_step s s' \<Longrightarrow> cache_inv s \<Longrightarrow> plugin_inv s \<Longrightarrow> plugin_inv s'"
  by (induction rule: plugin_step.induct)
    (auto simp: plugin_inv_def cache_inv_def intro: res_inv_acquire res_inv_cache res_inv_release res_inv_no_cache res_inv_mount)

lemma plugin_inv_steps: "plugin_steps s s' \<Longrightarrow> cache_inv s \<Longrightarrow> plugin_inv s \<Longrightarrow> cache_inv s' \<and> plugin_inv s'"
  by (induction rule: rtranclp_induct) (auto intro: plugin_inv_step cache_inv_step)

lemma plugin_reachable_inv: "plugin_steps plugin_init s \<Longrightarrow> plugin_inv s"
  using plugin_inv_steps [OF _ _ plugin_inv_init] by (simp add: cache_inv_def plugin_init_def)

text \<open>Once the flag is down, a command that is already being served is still answered, but no other
  is begun.\<close>

definition in_flight :: "plugin \<Rightarrow> nat" where
  "in_flight s = (case pc s of M_send ret \<Rightarrow> 1 | _ \<Rightarrow> 0)"

lemma stopped_step:
  "plugin_step s s' \<Longrightarrow> \<not> running s \<Longrightarrow>
   \<not> running s' \<and> length (replies s') + in_flight s' \<le> length (replies s) + in_flight s"
  by (induction rule: plugin_step.induct) (auto simp: in_flight_def split: main_pc.split)

lemma stopped_steps:
  "plugin_steps s s' \<Longrightarrow> \<not> running s \<Longrightarrow>
   \<not> running s' \<and> length (replies s') + in_flight s' \<le> length (replies s) + in_flight s"
  by (induction rule: rtranclp_induct) (use stopped_step in \<open>fastforce+\<close>)

text \<open>A stop that finds the queue leaves it destroyed, unless the call fails.\<close>

lemma queue_step:
  "plugin_step s s' \<Longrightarrow> pc s \<in> {M_open, M_port, M_queue} \<longrightarrow> queue s = Q_none \<Longrightarrow>
   stopper s = S_flag \<and> queue s = Q_live \<or> queue s = Q_destroyed \<and> stopper s \<noteq> S_idle \<and> stopper s \<noteq> S_flag \<or> destroy_failed s \<Longrightarrow>
   stopper s' = S_flag \<and> queue s' = Q_live \<or> queue s' = Q_destroyed \<and> stopper s' \<noteq> S_idle \<and> stopper s' \<noteq> S_flag \<or> destroy_failed s'"
  by (induction rule: plugin_step.induct) auto

lemma queue_steps:
  assumes "plugin_steps plugin_init s" "stopper s = S_flag" "queue s = Q_live" "plugin_steps s s'"
  shows "stopper s' = S_flag \<and> queue s' = Q_live \<or> queue s' = Q_destroyed \<and> stopper s' \<noteq> S_idle \<and> stopper s' \<noteq> S_flag \<or> destroy_failed s'"
  using assms(4)
proof (induction rule: rtranclp_induct)
  case base
  then show ?case using assms(2,3) by simp
next
  case (step t u)
  have "plugin_inv t" using assms(1) step(1) by (intro plugin_reachable_inv) (rule rtranclp_trans)
  then show ?case using queue_step [OF step(2)] step(3) by (simp add: plugin_inv_def)
qed

text \<open>The steps the two threads have left once the queue is destroyed: each step is one of them, and only the end has none.\<close>

fun main_work :: "main_pc \<Rightarrow> nat" where
  "main_work M_mount = 8"
| "main_work M_receive = 7"
| "main_work (M_send ret) = 8"
| "main_work (M_release rs) = Suc (length rs)"
| "main_work M_exited = 0"
| "main_work p = 0"

definition work :: "plugin \<Rightarrow> nat" where
  "work s = main_work (pc s) + (if stopper s = S_join then 1 else 0)"

definition stopping :: "plugin \<Rightarrow> bool" where
  "stopping s \<longleftrightarrow> plugin_inv s \<and> cache_inv s \<and> queue s = Q_destroyed \<and> (stopper s = S_join \<or> stopper s = S_done)"

lemma stopping_step: "plugin_step s t \<Longrightarrow> stopping s \<Longrightarrow> work t < work s"
  by (induction rule: plugin_step.induct) (auto simp: stopping_def work_def plugin_inv_def shut_down_def)

lemma stopping_kept: "plugin_step s t \<Longrightarrow> stopping s \<Longrightarrow> stopping t"
proof -
  assume st: "plugin_step s t" and s: "stopping s"
  have "queue t = Q_destroyed \<and> (stopper t = S_join \<or> stopper t = S_done)"
    using st s by (induction rule: plugin_step.induct) (auto simp: stopping_def plugin_inv_def)
  then show "stopping t" using plugin_inv_step [OF st] cache_inv_step [OF st] s by (simp add: stopping_def)
qed

lemma stopping_run: "(plugin_step ^^ n) s t \<Longrightarrow> stopping s \<Longrightarrow> stopping t \<and> n + work t \<le> work s"
proof (induction n arbitrary: t)
  case (Suc n)
  then obtain u where u: "(plugin_step ^^ n) s u" "plugin_step u t" by auto
  then show ?case using Suc.IH [OF u(1) Suc.prems(2)] stopping_step [OF u(2)] stopping_kept [OF u(2)] by fastforce
qed simp

lemma stopping_goes_on:
  assumes "stopping s" "stopper s \<noteq> S_done"
  shows "\<exists>t. plugin_step s t"
proof (cases "pc s")
  case (M_release rs)
  then show ?thesis using release [of s "hd rs" "tl rs"] no_cache [of s "tl rs"] thread_exit [of s] by (cases rs) auto
next
  case M_exited
  then show ?thesis using stop_join [of s] assms by (auto simp: stopping_def)
next
  case M_receive
  then show ?thesis using receive_fail [of s] assms by (auto simp: stopping_def)
next
  case (M_send ret)
  then show ?thesis using send_ok by blast
qed (use open_ok port_ok queue_ok mount_ok in blast)+

section \<open>Properties\<close>

text \<open>
  C16. Every session is served correctly: on a device that does not fail, whatever sequence of read
  commands arrives (sectors of either size, byte ranges, unknown commands), each reply has status 0
  and its buffer holds exactly the bytes of the image the command asks for, no matter what the
  earlier commands left in the cache.
\<close>

theorem session_correct:
  assumes "dev_honest img dev" "dev_live dev" "image_ok im" "fst alloc = 0" "192 * 1024 \<le> length (snd alloc)"
    and "list_all (\<lambda>(ev, buf). event_ok cd ev buf) reqs"
  shows "\<exists>replies st. serve cd alloc (dev, im) cd_init reqs = Some (replies, st)
    \<and> list_all2 (reply_ok (image_byte img im) cd) reqs replies"
  using serve_ok [OF assms(1-5), of cd_init cd reqs] assms(6) by (simp add: coherent_def cd_init_def)

theorem session_correct_witness:
  "\<exists>b1 b2 st. serve True (0, replicate 196608 0)
      (demo_dev (\<lambda>k. replicate 512 (word_of_nat k)), \<lparr>sections = [0], sections_size = [10000]\<rparr>) cd_init
      [(\<lparr>data1 = 2, data2 = 2352, data3 = 2352\<rparr>, replicate 2352 0),
       (\<lparr>data1 = 0, data2 = 4096, data3 = 2048\<rparr>, replicate 2048 0)] = Some ([(0, b1), (0, b2)], st)
    \<and> b1 ! 0 = 4 \<and> b2 ! 0 = 9"
proof -
  let ?img = "\<lambda>k. replicate 512 (word_of_nat k) :: bytes"
  let ?im = "\<lparr>sections = [0], sections_size = [10000]\<rparr>"
  let ?reqs = "[(\<lparr>data1 = 2, data2 = 2352, data3 = 2352\<rparr>, replicate 2352 0),
       (\<lparr>data1 = 0, data2 = 4096, data3 = 2048\<rparr>, replicate 2048 (0 :: u8))]"
  have "dev_live (demo_dev ?img)" "image_ok ?im"
    by (simp_all add: dev_live_def demo_dev_def image_ok_def)
  moreover have "list_all (\<lambda>(ev, buf). event_ok True ev buf) ?reqs"
    by (simp add: event_ok_def Let_def CMD_READ_ISO_def CMD_READ_CD_ISO_2352_def)
  ultimately obtain rs st where
    r: "serve True (0, replicate 196608 0) (demo_dev ?img, ?im) cd_init ?reqs = Some (rs, st)"
      "list_all2 (reply_ok (image_byte ?img ?im) True) ?reqs rs"
    using session_correct [of ?img "demo_dev ?img" ?im "(0, replicate 196608 0)" True ?reqs]
      demo_dev_honest [of ?img] by auto
  then obtain r1 r2 where rs: "rs = [r1, r2]"
      "reply_ok (image_byte ?img ?im) True (?reqs ! 0) r1" "reply_ok (image_byte ?img ?im) True (?reqs ! 1) r2"
    by (auto simp: list_all2_Cons1)
  have "fst r1 = 0" "snd r1 ! 0 = 4" "fst r2 = 0" "snd r2 ! 0 = 9"
    using rs(2,3)
    by (simp_all add: reply_ok_def reply_byte_def Let_def CMD_READ_ISO_def CMD_READ_CD_ISO_2352_def
        section_byte_def)
  then show ?thesis using r(1) rs(1) by (metis prod.collapse)
qed

text \<open>
  C33. The main thread gives back all it acquires: whatever system call fails, releases included, and wherever the stop falls
  between the steps of the main thread, nothing is released twice or without being held, and when the main thread has exited the
  storage handle, the port, the argument block, the cache and the mount have all been released, or their release was called
  and failed. The stop thread is never done before that, and no resource but the cache is missing while commands are served.
\<close>

theorem plugin_exit_releases:
  assumes "plugin_steps plugin_init s"
  shows "(\<forall>r. res s r \<noteq> Misused) \<and> (pc s = M_exited \<longrightarrow> (\<forall>r. res s r \<noteq> Held) \<and> res s Args \<noteq> Absent)
    \<and> (stopper s = S_done \<longrightarrow> pc s = M_exited)
    \<and> (pc s = M_receive \<longrightarrow> (\<forall>r. r \<noteq> Cache \<longrightarrow> res s r = Held))"
proof -
  have i: "res_inv (owed (pc s)) (res s)" "stopper s = S_done \<longrightarrow> pc s = M_exited"
    using plugin_reachable_inv [OF assms] by (simp_all add: plugin_inv_def)
  have "res s r \<noteq> Held" if "pc s = M_exited" for r
    using i(1) that by (cases "r = Cache") (simp_all add: res_inv_def)
  then show ?thesis using i by (auto simp: res_inv_def)
qed

definition receiving :: plugin where
  "receiving = plugin_init \<lparr>queue := Q_live, res := (\<lambda>r. Held)(Cache := Absent), pc := M_receive\<rparr>"

lemma plugin_run_to_receive: "plugin_steps plugin_init receiving"
proof -
  let ?s1 = "plugin_init \<lparr>res := (res plugin_init)(Storage := Held), pc := M_port\<rparr>"
  let ?s2 = "?s1 \<lparr>res := (res ?s1)(Port := Held), pc := M_queue\<rparr>"
  let ?s3 = "?s2 \<lparr>queue := Q_live, pc := M_mount\<rparr>"
  let ?s4 = "?s3 \<lparr>res := (res ?s3)(Mount := Held), pc := M_receive\<rparr>"
  have "plugin_step plugin_init ?s1" by (rule open_ok) (simp add: plugin_init_def)
  moreover have "plugin_step ?s1 ?s2" by (rule port_ok) simp
  moreover have "plugin_step ?s2 ?s3" by (rule queue_ok) simp
  moreover have "plugin_step ?s3 ?s4" by (rule mount_ok) simp
  ultimately have "plugin_steps plugin_init ?s4"
    by (meson converse_rtranclp_into_rtranclp rtranclp.rtrancl_refl)
  moreover have "(res ?s3)(Mount := Held) = (\<lambda>r. Held)(Cache := Absent)"
    by (rule ext, rename_tac r, case_tac r) (simp_all add: plugin_init_def)
  ultimately show ?thesis by (simp add: plugin_init_def receiving_def)
qed

text \<open>The clean-up is run to its end, with any results of its calls.\<close>

lemma release_run:
  assumes "pc s = M_release rs"
  shows "\<exists>f. plugin_steps s (s \<lparr>res := f, pc := M_exited\<rparr>)"
  using assms
proof (induction rs arbitrary: s)
  case Nil
  then have "plugin_step s (s \<lparr>res := res s, pc := M_exited\<rparr>)" using thread_exit [of s] by simp
  then show ?case by blast
next
  case (Cons r rs)
  obtain f where "plugin_step s (s \<lparr>res := f, pc := M_release rs\<rparr>)"
  proof (cases "r = Cache \<and> res s Cache = Absent")
    case True
    then show ?thesis using that [of "res s"] no_cache [of s rs] Cons.prems by simp
  next
    case False
    then show ?thesis using that release [of s r rs True] Cons.prems by blast
  qed
  moreover obtain g where "plugin_steps (s \<lparr>res := f, pc := M_release rs\<rparr>) (s \<lparr>res := f, pc := M_release rs\<rparr> \<lparr>res := g, pc := M_exited\<rparr>)"
    using Cons.IH [of "s \<lparr>res := f, pc := M_release rs\<rparr>"] by auto
  ultimately show ?case by (auto intro: converse_rtranclp_into_rtranclp)
qed

theorem plugin_exit_releases_witness:
  "\<exists>s. plugin_steps plugin_init s \<and> pc s = M_exited \<and> res s Storage \<noteq> Held \<and> res s Mount \<noteq> Held"
proof -
  let ?s = "receiving \<lparr>running := False, stopper := S_flag\<rparr>"
  let ?t = "?s \<lparr>queue := Q_destroyed, pending := 0, stopper := S_join\<rparr>"
  let ?u = "?t \<lparr>pc := M_release shut_down\<rparr>"
  have "plugin_step receiving ?s" by (rule stop_flag) (simp add: receiving_def plugin_init_def)
  moreover have "plugin_step ?s ?t" by (rule stop_queue) (simp_all add: receiving_def)
  moreover have "plugin_step ?t ?u" by (rule receive_fail) (simp_all add: receiving_def)
  moreover obtain f where "plugin_steps ?u (?u \<lparr>res := f, pc := M_exited\<rparr>)" using release_run [of ?u] by auto
  ultimately have run: "plugin_steps plugin_init (?u \<lparr>res := f, pc := M_exited\<rparr>)"
    using plugin_run_to_receive by (meson rtranclp.rtrancl_into_rtrancl rtranclp_trans)
  show ?thesis using plugin_exit_releases [OF run] run by (intro exI [of _ "?u \<lparr>res := f, pc := M_exited\<rparr>"]) simp
qed

text \<open>
  C34. The stop is prompt: once the stop thread has lowered \<open>running\<close> with the command queue in place, at most the one
  command that is being served at that moment is still answered; and when \<open>sys_event_queue_destroy\<close> has succeeded, every
  run of the two threads from the join on, however they interleave and whatever else fails, has at most nine steps and can only
  stop where the main thread has exited and the stop thread is done.
\<close>

theorem plugin_stop_is_prompt:
  assumes "plugin_steps plugin_init s" "stopper s = S_flag" "queue s = Q_live"
    and "plugin_steps s s'" "stopper s' = S_join" "\<not> destroy_failed s'"
  shows "in_flight s \<le> 1 \<and> (\<forall>n t. (plugin_step ^^ n) s' t \<longrightarrow>
      n \<le> 9 \<and> length (replies t) \<le> length (replies s) + in_flight s
      \<and> (stopper t = S_done \<and> pc t = M_exited \<or> (\<exists>u. plugin_step t u)))"
proof -
  have r: "plugin_steps plugin_init s'" using assms(1,4) by (rule rtranclp_trans)
  have "stopping s'"
    using queue_steps [OF assms(1-4)] assms(5,6) plugin_inv_steps [OF r _ plugin_inv_init]
    by (simp add: stopping_def cache_inv_def plugin_init_def)
  then have "stopping t \<and> n + work t \<le> work s'" if "(plugin_step ^^ n) s' t" for n t using stopping_run that by blast
  moreover have "work s' \<le> 9"
  proof -
    have d: "distinct rs \<Longrightarrow> length rs \<le> 5" for rs :: "resource list"
    proof -
      assume "distinct rs"
      then have "length rs = card (set rs)" by (rule distinct_card [symmetric])
      also have "\<dots> \<le> card (set shut_down)" by (rule card_mono [OF finite_set]) simp
      also have "\<dots> = 5" by (simp add: shut_down_def)
      finally show ?thesis .
    qed
    show ?thesis using \<open>stopping s'\<close> by (cases "pc s'") (auto simp: work_def stopping_def plugin_inv_def res_inv_def dest: d)
  qed
  moreover have "\<not> running s" using plugin_reachable_inv [OF assms(1)] assms(2) by (simp add: plugin_inv_def)
  then have "length (replies t) \<le> length (replies s) + in_flight s" if "(plugin_step ^^ n) s' t" for n t
    using stopped_steps [of s t] assms(4) relpowp_imp_rtranclp [OF that] by (meson add_leD1 rtranclp_trans)
  moreover have "in_flight s \<le> 1" by (simp add: in_flight_def split: main_pc.splits)
  ultimately show ?thesis using stopping_goes_on by (fastforce simp: stopping_def plugin_inv_def)
qed

theorem plugin_stop_is_prompt_witness:
  "\<exists>s'. plugin_steps plugin_init s' \<and> stopper s' = S_join \<and> pc s' = M_receive
     \<and> (\<forall>n t. (plugin_step ^^ n) s' t \<longrightarrow> n \<le> 9 \<and> (stopper t = S_done \<and> pc t = M_exited \<or> (\<exists>u. plugin_step t u)))"
proof -
  let ?s = "receiving \<lparr>running := False, stopper := S_flag\<rparr>"
  let ?t = "?s \<lparr>queue := Q_destroyed, pending := 0, stopper := S_join\<rparr>"
  have "plugin_step receiving ?s" by (rule stop_flag) (simp add: receiving_def plugin_init_def)
  then have s: "plugin_steps plugin_init ?s" using plugin_run_to_receive by (rule rtranclp.rtrancl_into_rtrancl [rotated])
  have "plugin_step ?s ?t" by (rule stop_queue) (simp_all add: receiving_def)
  then have t: "plugin_steps ?s ?t" by blast
  have "stopper ?s = S_flag" "queue ?s = Q_live" "stopper ?t = S_join" "\<not> destroy_failed ?t" "pc ?t = M_receive"
    by (simp_all add: receiving_def plugin_init_def)
  then show ?thesis using plugin_stop_is_prompt [OF s _ _ t] s t by (intro exI [of _ ?t]) (auto intro: rtranclp_trans)
qed

text \<open>
  Without the destroyed queue the stop can hang. If the plugin is stopped before its main thread has created \<open>command_queue\<close>, the
  stop thread skips the queue; if the destruction fails, it only prints a message. In both cases it joins a
  main thread that waits for an event, and only an event from outside makes the program go on.
\<close>

lemma plugin_stop_can_hang:
  "\<exists>s. plugin_steps plugin_init s \<and> destroy_failed s = b \<and> stopper s = S_join \<and> (\<forall>t. plugin_step s t \<longrightarrow> t = s \<lparr>pending := Suc (pending s)\<rparr>)"
proof -
  let ?e = "receiving \<lparr>running := False, stopper := S_join, destroy_failed := b\<rparr>"
  have "plugin_steps plugin_init ?e"
  proof (cases b)
    case True
    let ?s = "receiving \<lparr>running := False, stopper := S_flag\<rparr>"
    have "plugin_step receiving ?s" by (rule stop_flag) (simp add: receiving_def plugin_init_def)
    moreover have "?e = ?s \<lparr>destroy_failed := True, stopper := S_join\<rparr>" using True by simp
    moreover have "plugin_step ?s (?s \<lparr>destroy_failed := True, stopper := S_join\<rparr>)" by (rule stop_queue_fail) (simp_all add: receiving_def)
    ultimately show ?thesis using plugin_run_to_receive by (metis rtranclp.rtrancl_into_rtrancl)
  next
    case False
    let ?i = "plugin_init \<lparr>running := False, stopper := S_flag\<rparr>"
    let ?s0 = "?i \<lparr>stopper := S_join\<rparr>"
    let ?s1 = "?s0 \<lparr>res := (res ?s0)(Storage := Held), pc := M_port\<rparr>"
    let ?s2 = "?s1 \<lparr>res := (res ?s1)(Port := Held), pc := M_queue\<rparr>"
    let ?s3 = "?s2 \<lparr>queue := Q_live, pc := M_mount\<rparr>"
    let ?s4 = "?s3 \<lparr>res := (res ?s3)(Mount := Held), pc := M_receive\<rparr>"
    have "plugin_step plugin_init ?i" by (rule stop_flag) (simp add: plugin_init_def)
    moreover have "plugin_step ?i ?s0" by (rule stop_no_queue) (simp_all add: plugin_init_def)
    moreover have "plugin_step ?s0 ?s1" by (rule open_ok) (simp add: plugin_init_def)
    moreover have "plugin_step ?s1 ?s2" by (rule port_ok) simp
    moreover have "plugin_step ?s2 ?s3" by (rule queue_ok) simp
    moreover have "plugin_step ?s3 ?s4" by (rule mount_ok) simp
    ultimately have "plugin_steps plugin_init ?s4" by (meson converse_rtranclp_into_rtranclp rtranclp.rtrancl_refl)
    moreover have "(res ?s3)(Mount := Held) = (\<lambda>r. Held)(Cache := Absent)"
      by (rule ext, rename_tac r, case_tac r) (simp_all add: plugin_init_def)
    ultimately show ?thesis using False by (simp add: plugin_init_def receiving_def)
  qed
  moreover have "t = ?e \<lparr>pending := Suc (pending ?e)\<rparr>" if "plugin_step ?e t" for t
    using that by (cases rule: plugin_step.cases) (simp_all add: receiving_def plugin_init_def)
  moreover have "destroy_failed ?e = b \<and> stopper ?e = S_join" by simp
  ultimately show ?thesis by blast
qed

end
