(* ===== verification/Spec2Isabelle.thy ===== *)
theory Spec2Isabelle
  imports IndexInsert CompSet UtfConv RunlistMerge MappingPairs RawSecThread
begin

text \<open>
  A verification library for the storage core of Simple NTFS ISO Mounter: what lies between an NTFS file on a USB disc and the
  PlayStation 3, and the plugin that plays a disc image as if it were in the drive. All paths are under
  \<^verbatim>\<open>src/source\<close>; those without a directory are in \<^verbatim>\<open>libntfs_ext/source\<close>.

  \<^bold>\<open>The parts and how they use each other.\<close> From the bottom up:

  \<^item> \<open>NtfsPrelude\<close>: bytes, buffer slices and block copies, little-endian fields, the wrap-around of 32- and 64-bit integers,
    the error numbers, and bounds-checked access to memory.
  \<^item> \<open>SectorDev\<close> (\<^verbatim>\<open>ps3_io.c\<close>): the eight USB devices, \<open>dev_fd\<close> and \<open>dev_sectsize\<close> as the record \<open>ps3\<close>, with their start,
    shutdown, sector reads and writes and the retries. It declares \<open>disc_interface\<close>, the contract of a disc of sectors, which
    every layer up to the cache is proved against, and interprets it on these functions.
  \<^item> \<open>NtfsCache\<close> and \<open>CachedDisc\<close> (\<^verbatim>\<open>cache2.c\<close>, \<^verbatim>\<open>bit_ops.h\<close>): the page cache, \<open>NTFS_CACHE\<close> as the record \<open>ncache\<close>, every operation
    of it. The locale \<open>cached_disc\<close> extends \<open>disc_interface\<close>; a sublocale shows that a cache over a disc is a disc again, whose
    sectors \<open>cache_view\<close> gives.
  \<^item> \<open>BootSect\<close> (\<^verbatim>\<open>bootsect.c\<close>, \<^verbatim>\<open>layout.h\<close>): the boot sector and the geometry of the volume.
  \<^item> \<open>GekkoIo\<close> (\<^verbatim>\<open>gekko_io.c\<close>, \<^verbatim>\<open>gekko_io.h\<close>, \<^verbatim>\<open>device.h\<close> and the interfaces of \<^verbatim>\<open>ps3_io.c\<close>): the block device, which cuts byte
    ranges into sectors, over a disc with a cache (\<open>Cached\<close>) or without (\<open>NoCache\<close>). It declares \<open>byte_device\<close>, the contract of a
    device of bytes, and shows by sublocales that a disc gives one; the interpretation \<open>ps3_gekko\<close> is the USB devices.
  \<^item> \<open>Mst\<close> (\<^verbatim>\<open>mst.c\<close>): the fixups that protect a record of several sectors against a torn write.
  \<^item> \<open>DeviceIo\<close> (\<^verbatim>\<open>device.c\<close>): positioned, protected and cluster transfers over the operations of any device.
  \<^item> \<open>Runlist\<close>, \<open>RunlistMerge\<close>, \<open>MappingPairs\<close> and \<open>RunlistIo\<close> (\<^verbatim>\<open>runlist.c\<close>, \<^verbatim>\<open>runlist.h\<close>): the runlist of a file, its lookup,
    truncation and merge, the packed array it is stored as, and the transfer of the bytes of a file through \<open>DeviceIo\<close>.
  \<^item> \<open>Decompress\<close>, \<open>CompressBlock\<close> and \<open>CompSet\<close> (\<^verbatim>\<open>compress.c\<close>): the decompressor and the format it reads, given as lists of
    tokens; the compressor with its binary search trees; and a compression block on its way to the clusters of a runlist and back.
  \<^item> \<open>Collate\<close> and \<open>UtfConv\<close> (\<^verbatim>\<open>collate.c\<close>, \<^verbatim>\<open>unistr.c\<close>): the order of file names and of the keys of the system indexes, the
    tables of upper and lower case, and the conversions between UTF-16 and UTF-8.
  \<^item> \<open>IndexNode\<close>, \<open>IndexSplit\<close>, \<open>IndexTree\<close> and \<open>IndexInsert\<close> (\<^verbatim>\<open>index.c\<close>): the B-trees of directories and system indexes. A node is a buffer, and
    \<open>node_at\<close> says which list of entries it holds; \<open>index_tree\<close> gives the keys below a block in order. The locale \<open>collation\<close> is what the
    lookup needs of a collation function; file names, hashes and numbers interpret it with the functions of \<open>Collate\<close>. Insertion,
    removal, the bitmap of blocks, and \<open>ntfs_ib_split\<close> with \<open>ntfs_ib_insert\<close> up to the root follow.
  \<^item> \<open>AttrMst\<close> (\<^verbatim>\<open>attrib.c\<close>): \<open>ntfs_attr_mst_pread\<close> and \<open>ntfs_attr_mst_pwrite\<close>, through which blocks of an index are read and written, over reads and
    writes of an attribute that are parameters. What the split needs of them is \<open>store_law\<close>; \<open>runlist_store_law\<close> proves it for the run lists of
    \<open>RunlistIo\<close> on a USB device.
  \<^item> \<open>RawSecIso\<close>, \<open>RawSecCd\<close>, \<open>RawSecThread\<close> (\<^verbatim>\<open>rawseciso/main.c\<close>): the disc emulation plugin: reads of an image given as a list of
    sections, CD sectors and their cache, the event loop, and the life of its two threads as the step relation \<open>plugin_step\<close>, where each system call is a step that may fail.

  \<^bold>\<open>How code is modelled.\<close> One definition per function, and one per loop or part of a function where proofs need it, with the
  names of the source. State is passed and returned. A function gives \<open>None\<close> when the code accesses memory outside a buffer,
  divides by zero, follows a null pointer or does not return; its errors are the left side of a sum, or an \<open>errno\<close>. Widths are
  kept where they matter: \<open>u16\<close>, \<open>u32\<close>, \<open>u64\<close>, \<open>s32\<close> and \<open>s64\<close> give the value an integer has in the code, words are used where the
  code works on bits. System calls of the PlayStation, the allocator and the contents of the disc are parameters; what is
  assumed of them has a name (\<open>read_law\<close>, \<open>write_law\<close>, \<open>heap_law\<close>, \<open>memcmp_law\<close>, \<open>store_law\<close>), and devices in memory (\<open>ram_dev\<close>, \<open>ram_cache\<close>,
  \<open>ram_device\<close>) satisfy it in the witnesses.

  \<^bold>\<open>Bounds and fuel.\<close> The loops of the cache and of \<open>ntfs_pread\<close>, \<open>ntfs_pwrite\<close> have fuel, the count they transfer: a round that goes on
  transfers one unit at least. The one case in which they do not end, a cache read at the end of the partition, is \<open>None\<close> for
  any fuel; a property shows that no round of it is a fault, fails, or makes progress. The eight attempts of a sector transfer are the code's own bound. Repeats after \<open>EINTR\<close> in
  \<open>RunlistIo\<close> are bounded by a parameter; one attempt is enough on a device that works. The loop of the compressor has the size of the block as fuel, since
  every round takes a byte at least, and a walk in a search tree \<open>NTFS_SB_SIZE\<close>, since a walk visits a position at most once; the round trip
  shows that both are enough. The floating-point division of
  \<^verbatim>\<open>gekko_io.c\<close> is modelled as division of integers, which agree below 2^53. Transfers are shorter than 2^31 bytes and discs have
  less than 2^32 sectors, the range of \<open>sec_t\<close>, wherever a product of the code is not to wrap around.

  \<^bold>\<open>What is proved.\<close>

  \<^item> The layers compose: a device over the cache over the USB disc is an array of bytes (\<open>device_is_byte_array\<close>), what is
    written to a fragmented file is read back through all of them (\<open>rl_pwrite_pread_roundtrip\<close>), a flush brings the
    medium up to date (\<open>cache_flush_writes_back\<close>).
  \<^item> Data structures keep their invariants: the pages of the cache, the geometry of a volume, runlists under merge and
    truncation, the cache of CD sectors.
  \<^item> The index of a directory: the lookup from the root finds a name exactly when it is in the tree (\<open>directory_lookup\<close>), insertion
    and removal keep a node in order, and the split of a block keeps the keys of the tree (\<open>split_keeps_keys\<close>).
  \<^item> Encodings round-trip: mapping pairs, protected records, compressed blocks on the disc, names in UTF-8; torn writes are found.
  \<^item> Optimised code agrees with plain specifications: the decompressor with runs of tokens, the collation with lexicographic
    orders, the conversions with RFC 3629 and RFC 2781.
  \<^item> The plugin answers every command with the bytes of the image. Its main thread calls the release of all it holds, once, whatever fails; a release that
    fails leaks. It stops within nine steps of its threads once the queue has been destroyed; without that, the stop can hang.
  \<^item> Errors of the code, as theorems on the inputs that show them: among others an endless read, stale pages after a failed
    load, a sync that is not repeated, accesses outside a buffer, a write to freed memory, a merge of overlapping runlists that goes unnoticed.

  \<^bold>\<open>What is not modelled.\<close> Attributes, the MFT, inodes, directories, security, the log file and mounting: they build on the
  parts above. Of \<^verbatim>\<open>index.c\<close> the loop of \<open>ntfs_ie_add\<close>, removal across blocks and the walk of \<open>ntfs_index_next\<close>, which
  keep attribute search contexts open. The size and geometry queries of \<^verbatim>\<open>device.c\<close> depend on macros of the platform. The second half of
  \<^verbatim>\<open>ps3_io.c\<close> forwards to the C library's device table. The ext2 library under \<^verbatim>\<open>libext2fs\<close> and zlib are third-party code; the menus, the
  graphics, the FTP server and the scans for images are input and output.
\<close>

end
